(* ===== verification/TiPrelude.thy ===== *)
theory TiPrelude
  imports Main "HOL-Library.Word"
begin

text \<open>
  Shared by every component of the development: the type of byte strings (a C++ \<open>std::string\<close>
  used as a buffer is a list of \<open>char\<close>, one byte each), the state-and-exception monad in which
  the stateful operations are written (an exception keeps the state reached so far, as a C++
  throw does), little-endian byte expansions of naturals, and the named collections the
  component proofs use:
  \<^item> \<open>mon_simps\<close>: how the monad's combinators run;
  \<^item> \<open>wire_simps\<close>: lengths and inverses of the byte-level encodings.
\<close>

named_theorems mon_simps "evaluation of the state-and-exception monad"
named_theorems wire_simps "byte-level encodings: lengths and inverses"

type_synonym byte = char
type_synonym bytes = "byte list"

section \<open>State and exceptions\<close>

type_synonym ('s, 'e, 'a) smon = "'s \<Rightarrow> ('e + 'a) \<times> 's"

definition retS :: "'a \<Rightarrow> ('s, 'e, 'a) smon" where
  "retS x = (\<lambda>s. (Inr x, s))"

definition throwS :: "'e \<Rightarrow> ('s, 'e, 'a) smon" where
  "throwS e = (\<lambda>s. (Inl e, s))"

definition bindS :: "('s, 'e, 'a) smon \<Rightarrow> ('a \<Rightarrow> ('s, 'e, 'b) smon) \<Rightarrow> ('s, 'e, 'b) smon" where
  "bindS m f = (\<lambda>s. case m s of (Inl e, s') \<Rightarrow> (Inl e, s') | (Inr x, s') \<Rightarrow> f x s')"

definition getS :: "('s, 'e, 's) smon" where
  "getS = (\<lambda>s. (Inr s, s))"

definition modifyS :: "('s \<Rightarrow> 's) \<Rightarrow> ('s, 'e, unit) smon" where
  "modifyS f = (\<lambda>s. (Inr (), f s))"

text \<open>Run an operation of a part of the state (a member object) inside the whole.\<close>

definition liftS :: "('s \<Rightarrow> 't) \<Rightarrow> ('t \<Rightarrow> 's \<Rightarrow> 's) \<Rightarrow> ('e \<Rightarrow> 'f) \<Rightarrow> ('t, 'e, 'a) smon \<Rightarrow> ('s, 'f, 'a) smon" where
  "liftS prj upd exc m = (\<lambda>s. case m (prj s) of
     (Inl e, t) \<Rightarrow> (Inl (exc e), upd t s)
   | (Inr x, t) \<Rightarrow> (Inr x, upd t s))"

fun seqS :: "('s, 'e, 'a) smon list \<Rightarrow> ('s, 'e, 'a list) smon" where
  "seqS [] = retS []"
| "seqS (m # ms) = bindS m (\<lambda>x. bindS (seqS ms) (\<lambda>xs. retS (x # xs)))"

fun repeatS :: "nat \<Rightarrow> ('s, 'e, 'a) smon \<Rightarrow> ('s, 'e, 'a list) smon" where
  "repeatS 0 m = retS []"
| "repeatS (Suc n) m = bindS m (\<lambda>x. bindS (repeatS n m) (\<lambda>xs. retS (x # xs)))"

lemma retS_run [simp, mon_simps]: "retS x s = (Inr x, s)"
  by (simp add: retS_def)

lemma throwS_run [simp, mon_simps]: "throwS e s = (Inl e, s)"
  by (simp add: throwS_def)

lemma getS_run [simp, mon_simps]: "getS s = (Inr s, s)"
  by (simp add: getS_def)

lemma modifyS_run [simp, mon_simps]: "modifyS f s = (Inr (), f s)"
  by (simp add: modifyS_def)

lemma bindS_Inr [mon_simps]: "m s = (Inr x, s') \<Longrightarrow> bindS m f s = f x s'"
  by (simp add: bindS_def)

lemma bindS_Inl [mon_simps]: "m s = (Inl e, s') \<Longrightarrow> bindS m f s = (Inl e, s')"
  by (simp add: bindS_def)

lemma bindS_retS [simp]: "bindS (retS x) f = f x"
  by (simp add: bindS_def fun_eq_iff)

lemma bindS_throwS [simp]: "bindS (throwS e) f = throwS e"
  by (simp add: bindS_def fun_eq_iff)

lemma bindS_getS [simp]: "bindS getS f s = f s s"
  by (simp add: bindS_def)

lemma bindS_modifyS [simp]: "bindS (modifyS g) f s = f () (g s)"
  by (simp add: bindS_def)

lemma liftS_Inr [mon_simps]:
  "m (prj s) = (Inr x, t) \<Longrightarrow> liftS prj upd exc m s = (Inr x, upd t s)"
  by (simp add: liftS_def)

lemma liftS_Inl [mon_simps]:
  "m (prj s) = (Inl e, t) \<Longrightarrow> liftS prj upd exc m s = (Inl (exc e), upd t s)"
  by (simp add: liftS_def)

lemma bindS_eq_Inr:
  assumes "bindS m f s = (Inr y, s'')"
  obtains x s' where "m s = (Inr x, s')" "f x s' = (Inr y, s'')"
  using assms by (auto simp: bindS_def split: prod.splits sum.splits)

lemma bindS_eq_Inl:
  assumes "bindS m f s = (Inl e, s'')"
  obtains "m s = (Inl e, s'')" | x s' where "m s = (Inr x, s')" "f x s' = (Inl e, s'')"
  using assms by (auto simp: bindS_def split: prod.splits sum.splits)

section \<open>Little-endian expansion of a natural number\<close>

fun le_bytes :: "nat \<Rightarrow> nat \<Rightarrow> bytes" where
  "le_bytes 0 n = []"
| "le_bytes (Suc k) n = char_of (n mod 256) # le_bytes k (n div 256)"

fun le_val :: "bytes \<Rightarrow> nat" where
  "le_val [] = 0"
| "le_val (c # cs) = of_char c + 256 * le_val cs"

lemma length_le_bytes [simp, wire_simps]: "length (le_bytes k n) = k"
  by (induction k arbitrary: n) auto

lemma le_val_le_bytes [wire_simps]: "le_val (le_bytes k n) = n mod 256 ^ k"
proof (induction k arbitrary: n)
  case 0
  then show ?case by simp
next
  case (Suc k)
  have "n mod (256 * 256 ^ k) = 256 * (n div 256 mod 256 ^ k) + n mod 256"
    by (rule mod_mult2_eq)
  then show ?case by (simp add: Suc.IH)
qed

lemma of_char_lt_256: "of_char c < (256::nat)"
  by (metis mod_less_divisor of_char_mod_256 zero_less_numeral)

lemma le_val_bound: "le_val bs < 256 ^ length bs"
proof (induction bs)
  case Nil
  then show ?case by simp
next
  case (Cons c cs)
  have c: "of_char c < (256::nat)" by (rule of_char_lt_256)
  have "256 * le_val cs + 256 \<le> 256 * 256 ^ length cs"
    using Cons.IH by (metis Suc_leI add.commute mult_Suc_right mult_le_mono2)
  with c have "of_char c + 256 * le_val cs < 256 * 256 ^ length cs" by linarith
  then show ?case by simp
qed

lemma le_bytes_le_val: "le_bytes (length bs) (le_val bs) = bs"
proof (induction bs)
  case Nil
  then show ?case by simp
next
  case (Cons c cs)
  have "of_char c < (256::nat)" by (rule of_char_lt_256)
  then show ?case using Cons.IH by simp
qed

section \<open>List facts\<close>

lemma drop_append_exact: "drop g b = xs @ ys \<Longrightarrow> drop (g + length xs) b = ys"
  by (metis append_eq_conv_conj add.commute drop_drop)

lemma fold_append_singletons:
  "fold (\<lambda>i acc. acc @ [f i]) is acc = acc @ map f is"
  by (induction "is" arbitrary: acc) auto

lemma concat_map_const_length:
  "(\<And>x. x \<in> set xs \<Longrightarrow> length (f x) = w) \<Longrightarrow> length (concat (map f xs)) = w * length xs"
  by (induction xs) auto

end
