(* ===== verification/ZmqMsg.thy ===== *)
theory ZmqMsg
  imports TiPrelude
begin

text \<open>
  Messages and error numbers of libzmq (\<open>3rd/zeromq/src/msg.hpp\<close>), as far as the socket types
  used by the program look at them: the data, the \<open>more\<close> flag and the kind of frame.
\<close>

datatype errno = EAGAIN | EFSM | EFAULT | EHOSTUNREACH | EINVAL | EADDRINUSE | ETERM
  | ABORTED \<comment> \<open>a \<open>zmq_assert\<close> failed: libzmq aborts the process\<close>
  | NO_FUEL \<comment> \<open>a loop of the model ran out of fuel; never with the fuel the callers give it\<close>

text \<open>\<open>Plain\<close> frames have no other flag set than possibly \<open>more\<close>.\<close>

datatype msg_kind = Plain | Command | Routing_Id | Credential | Delimiter | Subscribe_Cmd | Cancel_Cmd

record msg_t =
  m_data :: bytes
  m_more :: bool
  m_kind :: msg_kind

definition mk_msg :: "bytes \<Rightarrow> bool \<Rightarrow> msg_t" where
  "mk_msg d b = \<lparr>m_data = d, m_more = b, m_kind = Plain\<rparr>"

definition empty_msg :: msg_t where
  "empty_msg = mk_msg [] False"

lemma mk_msg_sel [simp]:
  "m_data (mk_msg d b) = d" "m_more (mk_msg d b) = b" "m_kind (mk_msg d b) = Plain"
  by (simp_all add: mk_msg_def)

lemma mk_msg_eq [simp]: "mk_msg d b = mk_msg d' b' \<longleftrightarrow> d = d' \<and> b = b'"
  by (simp add: mk_msg_def)

end
