(* ===== verification/ZmqPipe.thy ===== *)
theory ZmqPipe
  imports ZmqMsg
begin

text \<open>
  The message pipes of libzmq seen from one socket (\<open>3rd/zeromq/src/pipe.cpp\<close>), the indexed
  array of pipes (\<open>array.hpp\<close>), and the two schedulers over such an array: fair queueing of
  inbound messages (\<open>fq.cpp\<close>) and load balancing of outbound ones (\<open>lb.cpp\<close>). Pipes are
  named by numbers and live in a heap, because the two schedulers of a socket share them.
  The lock-free queue under a pipe is a list of frames; outbound frames are split into
  those the peer can read, the complete messages not flushed yet, and the frames of a message
  whose last part has not been written.
\<close>

section \<open>pipe.cpp\<close>

datatype pipe_state = active | delimiter_received | waiting_for_delimiter | term_ack_sent
  | term_req_sent1 | term_req_sent2

datatype pipe_cmd = Activate_Read | Activate_Write "64 word" | Pipe_Term | Pipe_Term_Ack

record pipe_t =
  p_in :: "msg_t list"
  p_in_active :: bool
  p_out :: "msg_t list"
  p_ready :: "msg_t list"
  p_part :: "msg_t list"
  p_out_active :: bool
  p_hwm :: int
  p_lwm :: int
  p_msgs_read :: "64 word"
  p_msgs_written :: "64 word"
  p_peers_msgs_read :: "64 word"
  p_state :: pipe_state
  p_peer_asleep :: bool
  p_cmds :: "pipe_cmd list"
  p_routing_id :: bytes

text \<open>C's \<open>(hwm_ + 1) / 2\<close>, which truncates towards zero.\<close>

definition compute_lwm :: "int \<Rightarrow> int" where
  "compute_lwm h = sgn (h + 1) * (\<bar>h + 1\<bar> div 2)"

definition new_pipe :: "int \<Rightarrow> int \<Rightarrow> pipe_t" where
  "new_pipe inhwm outhwm = \<lparr>p_in = [], p_in_active = True, p_out = [], p_ready = [], p_part = [],
     p_out_active = True, p_hwm = outhwm, p_lwm = compute_lwm inhwm, p_msgs_read = 0, p_msgs_written = 0,
     p_peers_msgs_read = 0, p_state = active, p_peer_asleep = False, p_cmds = [], p_routing_id = []\<rparr>"

definition pipe_rollback :: "pipe_t \<Rightarrow> pipe_t" where
  "pipe_rollback p = p\<lparr>p_part := []\<rparr>"

definition process_delimiter :: "pipe_t \<Rightarrow> pipe_t" where
  "process_delimiter p =
     (if p_state p = active then p\<lparr>p_state := delimiter_received\<rparr>
      else (pipe_rollback p)\<lparr>p_cmds := p_cmds p @ [Pipe_Term_Ack], p_state := term_ack_sent\<rparr>)"

definition pipe_readable :: "pipe_t \<Rightarrow> bool" where
  "pipe_readable p \<longleftrightarrow> p_in_active p \<and> (p_state p = active \<or> p_state p = waiting_for_delimiter)"

definition pipe_check_read :: "pipe_t \<Rightarrow> bool \<times> pipe_t" where
  "pipe_check_read p =
     (if \<not> pipe_readable p then (False, p)
      else case p_in p of
        [] \<Rightarrow> (False, p\<lparr>p_in_active := False\<rparr>)
      | m # ms \<Rightarrow>
          if m_kind m = Delimiter then (False, process_delimiter (p\<lparr>p_in := ms\<rparr>)) else (True, p))"

text \<open>Credentials are skipped; a delimiter starts the termination of the pipe; other frames are
  handed out, and the peer hears of every \<open>lwm\<close> complete messages.\<close>

fun skip_credentials :: "msg_t list \<Rightarrow> msg_t list" where
  "skip_credentials [] = []"
| "skip_credentials (m # ms) = (if m_kind m = Credential then skip_credentials ms else m # ms)"

definition pipe_count_read :: "msg_t \<Rightarrow> pipe_t \<Rightarrow> pipe_t" where
  "pipe_count_read m p =
     (let p' = (if \<not> m_more m \<and> m_kind m \<noteq> Routing_Id then p\<lparr>p_msgs_read := p_msgs_read p + 1\<rparr> else p)
      in if 0 < p_lwm p' \<and> uint (p_msgs_read p') mod p_lwm p' = 0
         then p'\<lparr>p_cmds := p_cmds p' @ [Activate_Write (p_msgs_read p')]\<rparr> else p')"

definition pipe_read :: "pipe_t \<Rightarrow> msg_t option \<times> pipe_t" where
  "pipe_read p =
     (if \<not> pipe_readable p then (None, p)
      else case skip_credentials (p_in p) of
        [] \<Rightarrow> (None, p\<lparr>p_in := [], p_in_active := False\<rparr>)
      | m # ms \<Rightarrow>
          if m_kind m = Delimiter then (None, process_delimiter (p\<lparr>p_in := ms\<rparr>))
          else (Some m, pipe_count_read m (p\<lparr>p_in := ms\<rparr>)))"

definition pipe_check_hwm :: "pipe_t \<Rightarrow> bool" where
  "pipe_check_hwm p = (\<not> (0 < p_hwm p \<and> uint (p_msgs_written p - p_peers_msgs_read p) \<ge> p_hwm p))"

definition pipe_check_write :: "pipe_t \<Rightarrow> bool \<times> pipe_t" where
  "pipe_check_write p =
     (if \<not> p_out_active p \<or> p_state p \<noteq> active then (False, p)
      else if \<not> pipe_check_hwm p then (False, p\<lparr>p_out_active := False\<rparr>)
      else (True, p))"

definition pipe_write :: "msg_t \<Rightarrow> pipe_t \<Rightarrow> bool \<times> pipe_t" where
  "pipe_write m p =
     (case pipe_check_write p of
        (False, p') \<Rightarrow> (False, p')
      | (True, p') \<Rightarrow>
         let p1 = (if m_more m then p'\<lparr>p_part := p_part p' @ [m]\<rparr>
                   else p'\<lparr>p_ready := p_ready p' @ p_part p' @ [m], p_part := []\<rparr>);
             p2 = (if \<not> m_more m \<and> m_kind m \<noteq> Routing_Id
                   then p1\<lparr>p_msgs_written := p_msgs_written p1 + 1\<rparr> else p1)
         in (True, p2))"

definition pipe_flush :: "pipe_t \<Rightarrow> pipe_t" where
  "pipe_flush p =
     (if p_state p = term_ack_sent \<or> p_ready p = [] then p
      else let p' = p\<lparr>p_out := p_out p @ p_ready p, p_ready := []\<rparr>
           in if p_peer_asleep p' then p'\<lparr>p_cmds := p_cmds p' @ [Activate_Read], p_peer_asleep := False\<rparr> else p')"

text \<open>The commands from the peer; the result says whether the socket is to be told.\<close>

definition process_activate_read :: "pipe_t \<Rightarrow> bool \<times> pipe_t" where
  "process_activate_read p =
     (if \<not> p_in_active p \<and> (p_state p = active \<or> p_state p = waiting_for_delimiter)
      then (True, p\<lparr>p_in_active := True\<rparr>) else (False, p))"

definition process_activate_write :: "64 word \<Rightarrow> pipe_t \<Rightarrow> bool \<times> pipe_t" where
  "process_activate_write n p =
     (let p' = p\<lparr>p_peers_msgs_read := n\<rparr>
      in if \<not> p_out_active p' \<and> p_state p' = active then (True, p'\<lparr>p_out_active := True\<rparr>) else (False, p'))"

type_synonym pipe_id = nat
type_synonym heap = "pipe_id \<Rightarrow> pipe_t"

section \<open>array.hpp\<close>

definition arr_push_back :: "pipe_id \<Rightarrow> pipe_id list \<Rightarrow> pipe_id list" where
  "arr_push_back x xs = xs @ [x]"

definition arr_swap :: "nat \<Rightarrow> nat \<Rightarrow> pipe_id list \<Rightarrow> pipe_id list" where
  "arr_swap i j xs = xs[i := xs ! j, j := xs ! i]"

text \<open>The index an item remembers is its position.\<close>

fun arr_index :: "pipe_id \<Rightarrow> pipe_id list \<Rightarrow> nat" where
  "arr_index x [] = 0"
| "arr_index x (y # ys) = (if x = y then 0 else Suc (arr_index x ys))"

definition arr_erase_at :: "nat \<Rightarrow> pipe_id list \<Rightarrow> pipe_id list" where
  "arr_erase_at i xs = (if xs = [] then xs else butlast (xs[i := last xs]))"

definition arr_erase :: "pipe_id \<Rightarrow> pipe_id list \<Rightarrow> pipe_id list" where
  "arr_erase x xs = arr_erase_at (arr_index x xs) xs"

section \<open>fq.cpp\<close>

record fq_t =
  fq_pipes :: "pipe_id list"
  fq_active :: nat
  fq_last_in :: "pipe_id option"
  fq_current :: nat
  fq_more :: bool

definition new_fq :: fq_t where
  "new_fq = \<lparr>fq_pipes = [], fq_active = 0, fq_last_in = None, fq_current = 0, fq_more = False\<rparr>"

definition fq_attach :: "pipe_id \<Rightarrow> fq_t \<Rightarrow> fq_t" where
  "fq_attach x q =
     (let ps = arr_push_back x (fq_pipes q)
      in q\<lparr>fq_pipes := arr_swap (fq_active q) (length ps - 1) ps, fq_active := fq_active q + 1\<rparr>)"

definition fq_activated :: "pipe_id \<Rightarrow> fq_t \<Rightarrow> fq_t" where
  "fq_activated x q =
     q\<lparr>fq_pipes := arr_swap (arr_index x (fq_pipes q)) (fq_active q) (fq_pipes q), fq_active := fq_active q + 1\<rparr>"

text \<open>Take the pipe at \<open>i\<close> out of the active range.\<close>

definition fq_deactivate :: "nat \<Rightarrow> fq_t \<Rightarrow> fq_t" where
  "fq_deactivate i q =
     (let a = fq_active q - 1
      in q\<lparr>fq_active := a, fq_pipes := arr_swap i a (fq_pipes q),
           fq_current := (if fq_current q = a then 0 else fq_current q)\<rparr>)"

definition fq_pipe_terminated :: "pipe_id \<Rightarrow> fq_t \<Rightarrow> fq_t" where
  "fq_pipe_terminated x q =
     (let i = arr_index x (fq_pipes q);
          q1 = (if i < fq_active q then fq_deactivate i q else q);
          q2 = q1\<lparr>fq_pipes := arr_erase x (fq_pipes q1)\<rparr>
      in if fq_last_in q2 = Some x then q2\<lparr>fq_last_in := None\<rparr> else q2)"

text \<open>\<open>recvpipe\<close>: each round either hands out a frame of the current pipe or deactivates the pipe,
  so it takes as many rounds as there are active pipes.\<close>

fun fq_recv_from :: "nat \<Rightarrow> (fq_t \<times> heap, errno, msg_t \<times> pipe_id) smon" where
  "fq_recv_from 0 (q, h) = (Inl EAGAIN, (q, h))"
| "fq_recv_from (Suc n) (q, h) =
     (let x = fq_pipes q ! fq_current q in
      case pipe_read (h x) of
        (Some m, p) \<Rightarrow>
          let q1 = q\<lparr>fq_more := m_more m\<rparr>;
              q2 = (if \<not> m_more m then q1\<lparr>fq_last_in := Some x, fq_current := (fq_current q + 1) mod fq_active q\<rparr> else q1)
          in (Inr (m, x), (q2, h(x := p)))
      | (None, p) \<Rightarrow>
          if fq_more q then (Inl ABORTED, (q, h(x := p)))
          else fq_recv_from n (fq_deactivate (fq_current q) q, h(x := p)))"

definition fq_recvpipe :: "(fq_t \<times> heap, errno, msg_t \<times> pipe_id) smon" where
  "fq_recvpipe = (\<lambda>(q, h). fq_recv_from (fq_active q) (q, h))"

fun fq_has_in_from :: "nat \<Rightarrow> fq_t \<times> heap \<Rightarrow> bool \<times> fq_t \<times> heap" where
  "fq_has_in_from 0 (q, h) = (False, q, h)"
| "fq_has_in_from (Suc n) (q, h) =
     (let x = fq_pipes q ! fq_current q in
      case pipe_check_read (h x) of
        (True, p) \<Rightarrow> (True, q, h(x := p))
      | (False, p) \<Rightarrow> fq_has_in_from n (fq_deactivate (fq_current q) q, h(x := p)))"

definition fq_has_in :: "fq_t \<times> heap \<Rightarrow> bool \<times> fq_t \<times> heap" where
  "fq_has_in = (\<lambda>(q, h). if fq_more q then (True, q, h) else fq_has_in_from (fq_active q) (q, h))"

section \<open>lb.cpp\<close>

record lb_t =
  lb_pipes :: "pipe_id list"
  lb_active :: nat
  lb_current :: nat
  lb_more :: bool
  lb_dropping :: bool

definition new_lb :: lb_t where
  "new_lb = \<lparr>lb_pipes = [], lb_active = 0, lb_current = 0, lb_more = False, lb_dropping = False\<rparr>"

definition lb_activated :: "pipe_id \<Rightarrow> lb_t \<Rightarrow> lb_t" where
  "lb_activated x b =
     b\<lparr>lb_pipes := arr_swap (arr_index x (lb_pipes b)) (lb_active b) (lb_pipes b), lb_active := lb_active b + 1\<rparr>"

definition lb_attach :: "pipe_id \<Rightarrow> lb_t \<Rightarrow> lb_t" where
  "lb_attach x b = lb_activated x (b\<lparr>lb_pipes := arr_push_back x (lb_pipes b)\<rparr>)"

definition lb_pipe_terminated :: "pipe_id \<Rightarrow> lb_t \<Rightarrow> lb_t" where
  "lb_pipe_terminated x b =
     (let i = arr_index x (lb_pipes b);
          b1 = (if i = lb_current b \<and> lb_more b then b\<lparr>lb_dropping := True\<rparr> else b);
          b2 = (if i < lb_active b1
                then let a = lb_active b1 - 1
                     in b1\<lparr>lb_active := a, lb_pipes := arr_swap i a (lb_pipes b1),
                           lb_current := (if lb_current b1 = a then 0 else lb_current b1)\<rparr>
                else b1)
      in b2\<lparr>lb_pipes := arr_erase x (lb_pipes b2)\<rparr>)"

text \<open>\<open>sendpipe\<close> returns -1 with \<open>EAGAIN\<close> (\<open>Send_Again\<close>), -2 (\<open>Send_Dropped\<close>: the pipe died in the middle
  of a message) or 0 with the pipe written to, if any.\<close>

datatype lb_error = Send_Again | Send_Dropped

fun lb_send_from :: "nat \<Rightarrow> msg_t \<Rightarrow> (lb_t \<times> heap, lb_error, pipe_id option) smon" where
  "lb_send_from 0 m (b, h) = (Inl Send_Again, (b, h))"
| "lb_send_from (Suc n) m (b, h) =
     (let x = lb_pipes b ! lb_current b in
      case pipe_write m (h x) of
        (True, p) \<Rightarrow>
          let b1 = b\<lparr>lb_more := m_more m\<rparr> in
          if \<not> m_more m
          then (Inr (Some x), (b1\<lparr>lb_current := (if lb_current b + 1 \<ge> lb_active b then 0 else lb_current b + 1)\<rparr>,
                h(x := pipe_flush p)))
          else (Inr (Some x), (b1, h(x := p)))
      | (False, p) \<Rightarrow>
          if lb_more b
          then (Inl Send_Dropped, (b\<lparr>lb_dropping := m_more m, lb_more := False\<rparr>, h(x := pipe_rollback p)))
          else let a = lb_active b - 1 in
            lb_send_from n m
              (if lb_current b < a then b\<lparr>lb_active := a, lb_pipes := arr_swap (lb_current b) a (lb_pipes b)\<rparr>
               else b\<lparr>lb_active := a, lb_current := 0\<rparr>, h(x := p)))"

definition lb_sendpipe :: "msg_t \<Rightarrow> (lb_t \<times> heap, lb_error, pipe_id option) smon" where
  "lb_sendpipe m = (\<lambda>(b, h).
     if lb_dropping b then (Inr None, (b\<lparr>lb_more := m_more m, lb_dropping := m_more m\<rparr>, h))
     else lb_send_from (lb_active b) m (b, h))"

fun lb_has_out_from :: "nat \<Rightarrow> lb_t \<times> heap \<Rightarrow> bool \<times> lb_t \<times> heap" where
  "lb_has_out_from 0 (b, h) = (False, b, h)"
| "lb_has_out_from (Suc n) (b, h) =
     (let x = lb_pipes b ! lb_current b in
      case pipe_check_write (h x) of
        (True, p) \<Rightarrow> (True, b, h(x := p))
      | (False, p) \<Rightarrow>
         let a = lb_active b - 1 in
         lb_has_out_from n
           (b\<lparr>lb_active := a, lb_pipes := arr_swap (lb_current b) a (lb_pipes b),
              lb_current := (if lb_current b = a then 0 else lb_current b)\<rparr>, h(x := p)))"

definition lb_has_out :: "lb_t \<times> heap \<Rightarrow> bool \<times> lb_t \<times> heap" where
  "lb_has_out = (\<lambda>(b, h). if lb_more b then (True, b, h) else lb_has_out_from (lb_active b) (b, h))"

end
