(* ===== verification/ZmqReq.thy ===== *)
theory ZmqReq
  imports ZmqPipe
begin

text \<open>
  The REQ socket (\<open>3rd/zeromq/src/req.cpp\<close> on \<open>dealer.cpp\<close>) that \<open>Requester\<close> owns, with the part of
  \<open>socket_base_t::send\<close> and \<open>recv\<close> that blocks. Error returns are values: \<open>Rc1 e\<close> is -1 with \<open>errno = e\<close>,
  \<open>Rc2\<close> is -2. What the network delivers while a call blocks is an argument of the call.
  The request id frame is written as on a little-endian machine; peers only echo it.
\<close>

datatype zerr = Rc1 errno | Rc2

section \<open>dealer.cpp\<close>

record dealer_t =
  d_heap :: heap
  d_fq :: fq_t
  d_lb :: lb_t
  d_probe_router :: bool

definition new_dealer :: dealer_t where
  "new_dealer = \<lparr>d_heap = (\<lambda>_. new_pipe 0 0), d_fq = new_fq, d_lb = new_lb, d_probe_router = False\<rparr>"

definition dealer_attach_pipe :: "pipe_id \<Rightarrow> dealer_t \<Rightarrow> dealer_t" where
  "dealer_attach_pipe x d =
     (let d1 = (if d_probe_router d
                then d\<lparr>d_heap := (d_heap d)(x := pipe_flush (snd (pipe_write empty_msg (d_heap d x))))\<rparr> else d)
      in d1\<lparr>d_fq := fq_attach x (d_fq d1), d_lb := lb_attach x (d_lb d1)\<rparr>)"

definition dealer_sendpipe :: "msg_t \<Rightarrow> (dealer_t, zerr, pipe_id option) smon" where
  "dealer_sendpipe m = (\<lambda>d.
     case lb_sendpipe m (d_lb d, d_heap d) of
       (Inl Send_Again, (b, h)) \<Rightarrow> (Inl (Rc1 EAGAIN), d\<lparr>d_lb := b, d_heap := h\<rparr>)
     | (Inl Send_Dropped, (b, h)) \<Rightarrow> (Inl Rc2, d\<lparr>d_lb := b, d_heap := h\<rparr>)
     | (Inr x, (b, h)) \<Rightarrow> (Inr x, d\<lparr>d_lb := b, d_heap := h\<rparr>))"

definition dealer_recvpipe :: "(dealer_t, errno, msg_t \<times> pipe_id) smon" where
  "dealer_recvpipe = (\<lambda>d.
     case fq_recvpipe (d_fq d, d_heap d) of (r, (q, h)) \<Rightarrow> (r, d\<lparr>d_fq := q, d_heap := h\<rparr>))"

definition dealer_read_activated :: "pipe_id \<Rightarrow> dealer_t \<Rightarrow> dealer_t" where
  "dealer_read_activated x d = d\<lparr>d_fq := fq_activated x (d_fq d)\<rparr>"

definition dealer_write_activated :: "pipe_id \<Rightarrow> dealer_t \<Rightarrow> dealer_t" where
  "dealer_write_activated x d = d\<lparr>d_lb := lb_activated x (d_lb d)\<rparr>"

definition dealer_pipe_terminated :: "pipe_id \<Rightarrow> dealer_t \<Rightarrow> dealer_t" where
  "dealer_pipe_terminated x d =
     d\<lparr>d_fq := fq_pipe_terminated x (d_fq d), d_lb := lb_pipe_terminated x (d_lb d)\<rparr>"

definition dealer_has_in :: "dealer_t \<Rightarrow> bool \<times> dealer_t" where
  "dealer_has_in d = (case fq_has_in (d_fq d, d_heap d) of (r, q, h) \<Rightarrow> (r, d\<lparr>d_fq := q, d_heap := h\<rparr>))"

definition dealer_has_out :: "dealer_t \<Rightarrow> bool \<times> dealer_t" where
  "dealer_has_out d = (case lb_has_out (d_lb d, d_heap d) of (r, b, h) \<Rightarrow> (r, d\<lparr>d_lb := b, d_heap := h\<rparr>))"

text \<open>Frames that can still be read: the fuel of the loops that read until nothing is left.\<close>

definition inbound :: "dealer_t \<Rightarrow> nat" where
  "inbound d = sum_list (map (\<lambda>x. length (p_in (d_heap d x))) (fq_pipes (d_fq d)))"

section \<open>req.cpp\<close>

record req_t =
  rq_dealer :: dealer_t
  rq_receiving_reply :: bool
  rq_message_begins :: bool
  rq_reply_pipe :: "pipe_id option"
  rq_request_id_frames_enabled :: bool
  rq_request_id :: "32 word"
  rq_strict :: bool

definition new_req :: "32 word \<Rightarrow> req_t" where
  "new_req rnd = \<lparr>rq_dealer = new_dealer, rq_receiving_reply = False, rq_message_begins = True,
     rq_reply_pipe = None, rq_request_id_frames_enabled = False, rq_request_id = rnd, rq_strict = True\<rparr>"

abbreviation on_dealer :: "('e \<Rightarrow> 'f) \<Rightarrow> (dealer_t, 'e, 'a) smon \<Rightarrow> (req_t, 'f, 'a) smon" where
  "on_dealer \<equiv> liftS rq_dealer (\<lambda>d r. r\<lparr>rq_dealer := d\<rparr>)"

text \<open>\<open>sendpipe\<close> stores the pipe it wrote to; any failure of these prefix frames returns -1.\<close>

fun rc1 :: "zerr \<Rightarrow> zerr" where
  "rc1 (Rc1 e) = Rc1 e"
| "rc1 Rc2 = Rc1 EAGAIN"

definition req_send_prefix :: "msg_t \<Rightarrow> (req_t, zerr, unit) smon" where
  "req_send_prefix m = bindS (on_dealer rc1 (dealer_sendpipe m)) (\<lambda>x.
     case x of Some _ \<Rightarrow> modifyS (\<lambda>r. r\<lparr>rq_reply_pipe := x\<rparr>) | None \<Rightarrow> retS ())"

definition request_id_bytes :: "32 word \<Rightarrow> bytes" where
  "request_id_bytes w = le_bytes 4 (unat w)"

fun drop_all :: "nat \<Rightarrow> (dealer_t, errno, unit) smon" where
  "drop_all 0 d = (Inl NO_FUEL, d)"
| "drop_all (Suc n) d =
     (case dealer_recvpipe d of
        (Inl EAGAIN, d') \<Rightarrow> (Inr (), d')
      | (Inl e, d') \<Rightarrow> (Inl e, d')
      | (Inr _, d') \<Rightarrow> drop_all n d')"

definition req_begin :: "(req_t, zerr, unit) smon" where
  "req_begin =
     bindS (modifyS (\<lambda>r. r\<lparr>rq_reply_pipe := None\<rparr>)) (\<lambda>_.
     bindS getS (\<lambda>r.
     bindS (if rq_request_id_frames_enabled r
            then bindS (modifyS (\<lambda>r. r\<lparr>rq_request_id := rq_request_id r + 1\<rparr>)) (\<lambda>_.
                 req_send_prefix (mk_msg (request_id_bytes (rq_request_id r + 1)) True))
            else retS ()) (\<lambda>_.
     bindS (req_send_prefix (mk_msg [] True)) (\<lambda>_.
     bindS getS (\<lambda>r'.
     if rq_reply_pipe r' = None then throwS (Rc1 ABORTED)
     else bindS (modifyS (\<lambda>r. r\<lparr>rq_message_begins := False\<rparr>)) (\<lambda>_.
          on_dealer Rc1 (\<lambda>d. drop_all (Suc (inbound d)) d)))))))"

definition req_send_body :: "msg_t \<Rightarrow> (req_t, zerr, unit) smon" where
  "req_send_body m =
     bindS (on_dealer id (dealer_sendpipe m)) (\<lambda>_.
     if m_more m then retS ()
     else modifyS (\<lambda>r. r\<lparr>rq_receiving_reply := True, rq_message_begins := True\<rparr>))"

definition req_xsend :: "msg_t \<Rightarrow> (req_t, zerr, unit) smon" where
  "req_xsend m = (\<lambda>r.
     if rq_receiving_reply r \<and> rq_strict r then (Inl (Rc1 EFSM), r)
     else
       let r1 = (if rq_receiving_reply r then r\<lparr>rq_receiving_reply := False, rq_message_begins := True\<rparr> else r)
       in (if rq_message_begins r1 then bindS req_begin (\<lambda>_. req_send_body m) else req_send_body m) r1)"

text \<open>\<open>recv_reply_pipe\<close> discards frames of any pipe but the one the request went to.\<close>

fun recv_reply_from :: "nat \<Rightarrow> (req_t, errno, msg_t) smon" where
  "recv_reply_from 0 r = (Inl NO_FUEL, r)"
| "recv_reply_from (Suc n) r =
     (case on_dealer id dealer_recvpipe r of
        (Inl e, r') \<Rightarrow> (Inl e, r')
      | (Inr (m, x), r') \<Rightarrow>
          if rq_reply_pipe r' = None \<or> rq_reply_pipe r' = Some x then (Inr m, r') else recv_reply_from n r')"

definition recv_reply_pipe :: "(req_t, errno, msg_t) smon" where
  "recv_reply_pipe = (\<lambda>r. recv_reply_from (Suc (inbound (rq_dealer r))) r)"

text \<open>Skip the rest of a malformed message; \<open>errno_assert\<close> aborts if it is not all there.\<close>

fun skip_rest :: "nat \<Rightarrow> msg_t \<Rightarrow> (req_t, errno, unit) smon" where
  "skip_rest 0 m r = (Inl NO_FUEL, r)"
| "skip_rest (Suc n) m r =
     (if \<not> m_more m then (Inr (), r)
      else case recv_reply_pipe r of
        (Inl e, r') \<Rightarrow> (Inl ABORTED, r')
      | (Inr m', r') \<Rightarrow> skip_rest n m' r')"

definition bad_request_id :: "req_t \<Rightarrow> msg_t \<Rightarrow> bool" where
  "bad_request_id r m \<longleftrightarrow>
     \<not> m_more m \<or> length (m_data m) \<noteq> 4 \<or> m_data m \<noteq> request_id_bytes (rq_request_id r)"

fun req_find_message :: "nat \<Rightarrow> (req_t, errno, unit) smon" where
  "req_find_message 0 r = (Inl NO_FUEL, r)"
| "req_find_message (Suc n) r =
     (if \<not> rq_message_begins r then (Inr (), r)
      else
        let step2 = (\<lambda>r. case recv_reply_pipe r of
              (Inl e, r') \<Rightarrow> (Inl e, r')
            | (Inr m, r') \<Rightarrow>
                if \<not> m_more m \<or> m_data m \<noteq> []
                then bindS (skip_rest (Suc (inbound (rq_dealer r'))) m) (\<lambda>_. req_find_message n) r'
                else (Inr (), r'\<lparr>rq_message_begins := False\<rparr>))
        in if rq_request_id_frames_enabled r
           then case recv_reply_pipe r of
               (Inl e, r') \<Rightarrow> (Inl e, r')
             | (Inr m, r') \<Rightarrow>
                 if bad_request_id r' m
                 then bindS (skip_rest (Suc (inbound (rq_dealer r'))) m) (\<lambda>_. req_find_message n) r'
                 else step2 r'
           else step2 r)"

definition req_xrecv :: "(req_t, errno, msg_t) smon" where
  "req_xrecv = (\<lambda>r.
     if \<not> rq_receiving_reply r then (Inl EFSM, r)
     else bindS (req_find_message (Suc (inbound (rq_dealer r)))) (\<lambda>_.
          bindS recv_reply_pipe (\<lambda>m.
          if \<not> m_more m
          then bindS (modifyS (\<lambda>r. r\<lparr>rq_receiving_reply := False, rq_message_begins := True\<rparr>)) (\<lambda>_. retS m)
          else retS m)) r)"

definition req_has_in :: "req_t \<Rightarrow> bool \<times> req_t" where
  "req_has_in r = (if \<not> rq_receiving_reply r then (False, r)
     else case dealer_has_in (rq_dealer r) of (b, d) \<Rightarrow> (b, r\<lparr>rq_dealer := d\<rparr>))"

definition req_has_out :: "req_t \<Rightarrow> bool \<times> req_t" where
  "req_has_out r = (if rq_receiving_reply r \<and> rq_strict r then (False, r)
     else case dealer_has_out (rq_dealer r) of (b, d) \<Rightarrow> (b, r\<lparr>rq_dealer := d\<rparr>))"

datatype req_option = ZMQ_REQ_CORRELATE | ZMQ_REQ_RELAXED | ZMQ_PROBE_ROUTER

text \<open>An option value is \<open>None\<close> when it is not of the size of an \<open>int\<close>.\<close>

fun req_setsockopt :: "req_option \<Rightarrow> int option \<Rightarrow> (req_t, errno, unit) smon" where
  "req_setsockopt ZMQ_REQ_CORRELATE (Some v) r =
     (if v \<ge> 0 then (Inr (), r\<lparr>rq_request_id_frames_enabled := (v \<noteq> 0)\<rparr>) else (Inl EINVAL, r))"
| "req_setsockopt ZMQ_REQ_RELAXED (Some v) r =
     (if v \<ge> 0 then (Inr (), r\<lparr>rq_strict := (v = 0)\<rparr>) else (Inl EINVAL, r))"
| "req_setsockopt ZMQ_PROBE_ROUTER (Some v) r =
     (if v \<ge> 0 then (Inr (), r\<lparr>rq_dealer := (rq_dealer r)\<lparr>d_probe_router := (v \<noteq> 0)\<rparr>\<rparr>) else (Inl EINVAL, r))"
| "req_setsockopt _ None r = (Inl EINVAL, r)"

definition req_pipe_terminated :: "pipe_id \<Rightarrow> req_t \<Rightarrow> req_t" where
  "req_pipe_terminated x r =
     (let r1 = (if rq_reply_pipe r = Some x then r\<lparr>rq_reply_pipe := None\<rparr> else r)
      in r1\<lparr>rq_dealer := dealer_pipe_terminated x (rq_dealer r1)\<rparr>)"

section \<open>The session of a REQ socket\<close>

text \<open>\<open>req_session_t::push_msg\<close> filters what an engine delivers: anything that is not
  \<open>[request id] empty body+\<close> is refused with \<open>EFAULT\<close>.\<close>

datatype session_state = bottom | request_id | body

definition req_session_push :: "msg_t \<Rightarrow> (session_state, errno, msg_t list) smon" where
  "req_session_push m = (\<lambda>s.
     if m_kind m = Command then (Inr [], s)
     else case s of
       bottom \<Rightarrow>
         if m_more m \<and> m_kind m = Plain \<and> length (m_data m) = 4 then (Inr [m], request_id)
         else if m_more m \<and> m_kind m = Plain \<and> m_data m = [] then (Inr [m], body)
         else (Inl EFAULT, s)
     | request_id \<Rightarrow>
         if m_more m \<and> m_kind m = Plain \<and> m_data m = [] then (Inr [m], body) else (Inl EFAULT, s)
     | body \<Rightarrow>
         if m_more m \<and> m_kind m = Plain then (Inr [m], body)
         else if \<not> m_more m \<and> m_kind m = Plain then (Inr [m], bottom)
         else (Inl EFAULT, s))"

section \<open>Blocking send and receive\<close>

text \<open>One delivery: frames flushed into an inbound pipe, and the activation of a pipe that had
  run dry.\<close>

definition dealer_deliver :: "pipe_id \<times> msg_t list \<Rightarrow> dealer_t \<Rightarrow> dealer_t" where
  "dealer_deliver a d =
     (case a of (x, ms) \<Rightarrow>
       let p = (d_heap d x)\<lparr>p_in := p_in (d_heap d x) @ ms\<rparr> in
       case process_activate_read p of
         (True, p') \<Rightarrow> dealer_read_activated x (d\<lparr>d_heap := (d_heap d)(x := p')\<rparr>)
       | (False, p') \<Rightarrow> d\<lparr>d_heap := (d_heap d)(x := p')\<rparr>)"

definition req_deliver :: "pipe_id \<times> msg_t list \<Rightarrow> req_t \<Rightarrow> req_t" where
  "req_deliver a r = r\<lparr>rq_dealer := dealer_deliver a (rq_dealer r)\<rparr>"

text \<open>\<open>socket_base_t::recv\<close> with a timeout: try; on \<open>EAGAIN\<close> wait for the next command and try
  again; \<open>EAGAIN\<close> once the arrivals before the timeout are used up.\<close>

fun req_recv :: "(pipe_id \<times> msg_t list) list \<Rightarrow> (req_t, errno, msg_t) smon" where
  "req_recv [] r = req_xrecv r"
| "req_recv (a # as) r =
     (case req_xrecv r of
        (Inl EAGAIN, r') \<Rightarrow> req_recv as (req_deliver a r')
      | res \<Rightarrow> res)"

text \<open>\<open>socket_base_t::send\<close>, blocking: a -2 is dropped silently; \<open>EAGAIN\<close> stands for a call that still waits for a pipe
  it can write to (the program sets no timeout for sending, so it would wait for ever; where theorems speak of sending,
  their hypotheses say that there is room).\<close>

definition req_send :: "msg_t \<Rightarrow> (req_t, errno, unit) smon" where
  "req_send m = (\<lambda>r. case req_xsend m r of
     (Inl Rc2, r') \<Rightarrow> (Inr (), r')
   | (Inl (Rc1 e), r') \<Rightarrow> (Inl e, r')
   | (Inr u, r') \<Rightarrow> (Inr u, r'))"

section \<open>The state machine of a REQ socket\<close>

lemma req_xsend_EFSM: "rq_receiving_reply r \<Longrightarrow> rq_strict r \<Longrightarrow> req_xsend m r = (Inl (Rc1 EFSM), r)"
  by (simp add: req_xsend_def)

lemma req_xrecv_EFSM: "\<not> rq_receiving_reply r \<Longrightarrow> req_xrecv r = (Inl EFSM, r)"
  by (simp add: req_xrecv_def)

text \<open>Sending a last part succeeds only outside the reply phase and enters it; receiving a last part
  leaves it. This holds in every state of the socket, whatever its pipes hold.\<close>

lemma on_dealer_fsm:
  "rq_receiving_reply (snd (on_dealer e m r)) = rq_receiving_reply r"
  "rq_strict (snd (on_dealer e m r)) = rq_strict r"
  by (auto simp: liftS_def split: prod.splits sum.splits)

definition keeps_fsm :: "(req_t, 'e, 'a) smon \<Rightarrow> bool" where
  "keeps_fsm m \<longleftrightarrow> (\<forall>r. rq_receiving_reply (snd (m r)) = rq_receiving_reply r \<and> rq_strict (snd (m r)) = rq_strict r)"

lemma keeps_fsm_retS [intro]: "keeps_fsm (retS x)"
  by (simp add: keeps_fsm_def)

lemma keeps_fsm_throwS [intro]: "keeps_fsm (throwS x)"
  by (simp add: keeps_fsm_def)

lemma keeps_fsm_getS [intro]: "keeps_fsm getS"
  by (simp add: keeps_fsm_def)

lemma keeps_fsm_on_dealer [intro]: "keeps_fsm (on_dealer e m)"
  by (simp add: keeps_fsm_def on_dealer_fsm)

lemma keeps_fsm_modifyS [intro]:
  "(\<And>r. rq_receiving_reply (f r) = rq_receiving_reply r \<and> rq_strict (f r) = rq_strict r) \<Longrightarrow> keeps_fsm (modifyS f)"
  by (simp add: keeps_fsm_def)

lemma keeps_fsm_bindS [intro]:
  assumes "keeps_fsm m" "\<And>x. keeps_fsm (f x)" shows "keeps_fsm (bindS m f)"
  unfolding keeps_fsm_def
proof
  fix r
  obtain res r' where m: "m r = (res, r')" by fastforce
  have "rq_receiving_reply r' = rq_receiving_reply r \<and> rq_strict r' = rq_strict r"
    using assms(1) m unfolding keeps_fsm_def by (metis snd_conv)
  then show "rq_receiving_reply (snd (bindS m f r)) = rq_receiving_reply r \<and> rq_strict (snd (bindS m f r)) = rq_strict r"
    using assms(2) m unfolding keeps_fsm_def by (cases res) (simp_all add: bindS_def)
qed

lemma keeps_fsm_run:
  "keeps_fsm m \<Longrightarrow> m r = (res, r') \<Longrightarrow> rq_receiving_reply r' = rq_receiving_reply r \<and> rq_strict r' = rq_strict r"
  unfolding keeps_fsm_def by (metis snd_conv)

lemma keeps_fsm_req_begin: "keeps_fsm req_begin"
  unfolding req_begin_def req_send_prefix_def
  by (intro keeps_fsm_bindS) (auto intro!: keeps_fsm_bindS keeps_fsm_modifyS split: option.splits)

lemma recv_reply_from_fsm:
  "rq_receiving_reply (snd (recv_reply_from n r)) = rq_receiving_reply r \<and>
   rq_strict (snd (recv_reply_from n r)) = rq_strict r"
proof (induction n arbitrary: r)
  case (Suc n)
  obtain res r' where m: "on_dealer id dealer_recvpipe r = (res, r')" by fastforce
  have "rq_receiving_reply r' = rq_receiving_reply r \<and> rq_strict r' = rq_strict r"
    using m keeps_fsm_run [OF keeps_fsm_on_dealer] by blast
  then show ?case using Suc m by (auto split: sum.splits)
qed simp

lemma keeps_fsm_recv_reply_pipe: "keeps_fsm recv_reply_pipe"
  by (simp add: keeps_fsm_def recv_reply_pipe_def recv_reply_from_fsm del: recv_reply_from.simps)

lemma keeps_fsm_skip_rest: "keeps_fsm (skip_rest n m)"
proof (induction n arbitrary: m)
  case 0
  then show ?case by (simp add: keeps_fsm_def)
next
  case (Suc n)
  have "skip_rest (Suc n) m r = (if \<not> m_more m then retS () else (\<lambda>r. case recv_reply_pipe r of
      (Inl e, r') \<Rightarrow> (Inl ABORTED, r') | (Inr m', r') \<Rightarrow> skip_rest n m' r')) r" for r
    by simp
  moreover have "keeps_fsm (\<lambda>r. case recv_reply_pipe r of
      (Inl e, r') \<Rightarrow> (Inl ABORTED, r') | (Inr m', r') \<Rightarrow> skip_rest n m' r')"
    using keeps_fsm_recv_reply_pipe Suc unfolding keeps_fsm_def
    by (auto split: prod.splits sum.splits) (metis snd_conv)+
  ultimately show ?case by (cases "m_more m") (auto simp: keeps_fsm_def)
qed

lemma keeps_fsm_find: "keeps_fsm (req_find_message n)"
proof (induction n)
  case 0
  then show ?case by (simp add: keeps_fsm_def)
next
  case (Suc n)
  have "keeps_fsm (bindS (skip_rest k m) (\<lambda>_. req_find_message n))" for k m
    by (intro keeps_fsm_bindS keeps_fsm_skip_rest Suc)
  then have s: "rq_receiving_reply (snd (bindS (skip_rest k m) (\<lambda>_. req_find_message n) r)) = rq_receiving_reply r"
    "rq_strict (snd (bindS (skip_rest k m) (\<lambda>_. req_find_message n) r)) = rq_strict r" for k m r
    unfolding keeps_fsm_def by auto
  have p: "rq_receiving_reply r' = rq_receiving_reply r" "rq_strict r' = rq_strict r"
    if "recv_reply_pipe r = (res, r')" for r r' res
    using keeps_fsm_run [OF keeps_fsm_recv_reply_pipe that] by auto
  show ?case
    unfolding keeps_fsm_def req_find_message.simps Let_def
    by (auto simp: s dest: p split: prod.splits sum.splits)
qed

text \<open>The two phases of the abstract protocol.\<close>

lemma req_xsend_Inr:
  assumes "req_xsend m r = (Inr (), r')" "rq_strict r"
  shows "\<not> rq_receiving_reply r" "rq_receiving_reply r' \<longleftrightarrow> \<not> m_more m" "rq_strict r'"
proof -
  show n: "\<not> rq_receiving_reply r"
    using assms by (auto simp: req_xsend_def)
  obtain r1 where "rq_receiving_reply r1 = rq_receiving_reply r" "rq_strict r1 = rq_strict r"
    "req_send_body m r1 = (Inr (), r')"
    using assms(1) n by (auto simp: req_xsend_def split: if_splits elim!: bindS_eq_Inr
        dest: keeps_fsm_run [OF keeps_fsm_req_begin])
  then show "rq_receiving_reply r' \<longleftrightarrow> \<not> m_more m" "rq_strict r'"
    using n assms(2) by (auto simp: req_send_body_def elim!: bindS_eq_Inr split: if_splits
        dest!: keeps_fsm_run [OF keeps_fsm_on_dealer])
qed

lemma req_xrecv_Inr:
  assumes "req_xrecv r = (Inr m, r')"
  shows "rq_receiving_reply r" "rq_receiving_reply r' \<longleftrightarrow> m_more m" "rq_strict r' = rq_strict r"
  using assms
  by (auto simp: req_xrecv_def split: if_splits elim!: bindS_eq_Inr
      dest!: keeps_fsm_run [OF keeps_fsm_find] keeps_fsm_run [OF keeps_fsm_recv_reply_pipe])

lemma req_failure_keeps_phase:
  assumes "req_xrecv r = (Inl e, r')"
  shows "rq_receiving_reply r' = rq_receiving_reply r" "rq_strict r' = rq_strict r"
  using assms
  by (auto simp: req_xrecv_def split: if_splits elim!: bindS_eq_Inl bindS_eq_Inr
      dest!: keeps_fsm_run [OF keeps_fsm_find] keeps_fsm_run [OF keeps_fsm_recv_reply_pipe])

section \<open>One connected peer\<close>

text \<open>The state of a requester's socket between calls: one pipe, nothing half-sent or
  half-received.\<close>

definition single :: "pipe_id \<Rightarrow> dealer_t \<Rightarrow> bool" where
  "single x d \<longleftrightarrow> fq_pipes (d_fq d) = [x] \<and> fq_current (d_fq d) = 0 \<and> \<not> fq_more (d_fq d)
     \<and> fq_active (d_fq d) = (if p_in_active (d_heap d x) then 1 else 0)
     \<and> lb_pipes (d_lb d) = [x] \<and> lb_active (d_lb d) = 1 \<and> lb_current (d_lb d) = 0
     \<and> \<not> lb_more (d_lb d) \<and> \<not> lb_dropping (d_lb d)
     \<and> p_in (d_heap d x) = [] \<and> p_state (d_heap d x) = active \<and> p_out_active (d_heap d x)
     \<and> p_ready (d_heap d x) = [] \<and> p_part (d_heap d x) = []"

definition req_peer :: "pipe_id \<Rightarrow> req_t \<Rightarrow> bool" where
  "req_peer x r \<longleftrightarrow> single x (rq_dealer r) \<and> rq_message_begins r \<and> \<not> rq_request_id_frames_enabled r \<and> rq_strict r"

definition req_out :: "pipe_id \<Rightarrow> req_t \<Rightarrow> msg_t list" where
  "req_out x r = p_out (d_heap (rq_dealer r) x)"

text \<open>Room for \<open>n\<close> more messages below the high-water mark, counting what the peer has acknowledged.\<close>

definition pipe_room :: "nat \<Rightarrow> pipe_t \<Rightarrow> bool" where
  "pipe_room n p \<longleftrightarrow> p_hwm p < 2 ^ 63
     \<and> (0 < p_hwm p \<longrightarrow> uint (p_msgs_written p - p_peers_msgs_read p) + int n \<le> p_hwm p)"

definition req_room :: "nat \<Rightarrow> pipe_id \<Rightarrow> req_t \<Rightarrow> bool" where
  "req_room n x r = pipe_room n (d_heap (rq_dealer r) x)"

lemma pipe_room_check: "pipe_room (Suc n) p \<Longrightarrow> pipe_check_hwm p"
  by (auto simp: pipe_room_def pipe_check_hwm_def)

lemma pipe_room_upd [simp]:
  "pipe_room n (p\<lparr>p_in := ms\<rparr>) = pipe_room n p" "pipe_room n (p\<lparr>p_in_active := b\<rparr>) = pipe_room n p"
  "pipe_room n (p\<lparr>p_cmds := cs\<rparr>) = pipe_room n p" "pipe_room n (p\<lparr>p_msgs_read := k\<rparr>) = pipe_room n p"
  by (simp_all add: pipe_room_def)

lemma pipe_room_written:
  assumes "pipe_room (Suc n) p" "p_hwm p' = p_hwm p" "p_peers_msgs_read p' = p_peers_msgs_read p"
    "p_msgs_written p' = p_msgs_written p + 1"
  shows "pipe_room n p'"
proof -
  let ?w = "p_msgs_written p - p_peers_msgs_read p"
  have "uint (?w + 1) \<le> uint ?w + 1"
    by (simp add: uint_word_ariths zmod_le_nonneg_dividend)
  moreover have "?w + 1 = p_msgs_written p' - p_peers_msgs_read p'" using assms by simp
  ultimately show ?thesis using assms by (auto simp: pipe_room_def)
qed

lemmas pipe_defs = pipe_read_def pipe_write_def pipe_check_write_def pipe_flush_def pipe_readable_def
  pipe_count_read_def process_activate_read_def

lemma pipe_write_ok:
  assumes "p_out_active p" "p_state p = active" "pipe_check_hwm p"
  shows "pipe_write (mk_msg b True) p = (True, p\<lparr>p_part := p_part p @ [mk_msg b True]\<rparr>)"
    and "pipe_write (mk_msg b False) p = (True, p\<lparr>p_ready := p_ready p @ p_part p @ [mk_msg b False],
       p_part := [], p_msgs_written := p_msgs_written p + 1\<rparr>)"
  using assms by (simp_all add: pipe_write_def pipe_check_write_def)

lemma dealer_send_more:
  assumes "single x d" "pipe_check_hwm (d_heap d x)"
  shows "dealer_sendpipe (mk_msg b True) d = (Inr (Some x),
     d\<lparr>d_lb := (d_lb d)\<lparr>lb_more := True\<rparr>, d_heap := (d_heap d)(x := (d_heap d x)\<lparr>p_part := [mk_msg b True]\<rparr>)\<rparr>)"
  using assms by (simp add: dealer_sendpipe_def lb_sendpipe_def single_def pipe_write_ok Let_def)

text \<open>Nothing to drop: the drain before a request only notes that the pipe is dry.\<close>

lemma pipe_dry: "p_in p = [] \<Longrightarrow> p\<lparr>p_in := [], p_in_active := False\<rparr> = p\<lparr>p_in_active := False\<rparr>"
  by (cases p) simp

lemma drop_all_dry:
  assumes "fq_pipes (d_fq d) = [x]" "fq_current (d_fq d) = 0" "\<not> fq_more (d_fq d)"
    "fq_active (d_fq d) = (if p_in_active (d_heap d x) then 1 else 0)" "p_in (d_heap d x) = []"
    "p_state (d_heap d x) = active"
  shows "\<exists>d'. drop_all (Suc n) d = (Inr (), d') \<and> d_lb d' = d_lb d
    \<and> d_heap d' = (d_heap d)(x := (d_heap d x)\<lparr>p_in_active := False\<rparr>)
    \<and> fq_pipes (d_fq d') = [x] \<and> fq_current (d_fq d') = 0 \<and> \<not> fq_more (d_fq d') \<and> fq_active (d_fq d') = 0"
proof (cases "p_in_active (d_heap d x)")
  case True
  then show ?thesis
    using assms by (simp add: dealer_recvpipe_def fq_recvpipe_def pipe_defs fq_deactivate_def arr_swap_def Let_def pipe_dry)
next
  case False
  then have "(d_heap d)(x := (d_heap d x)\<lparr>p_in_active := False\<rparr>) = d_heap d"
    by (intro fun_upd_idem) simp
  with False show ?thesis
    using assms by (intro exI [of _ d]) (simp add: dealer_recvpipe_def fq_recvpipe_def)
qed

text \<open>A one-part request on a connected socket puts the empty delimiter and the request on the wire
  and enters the reply phase.\<close>

definition req_waiting :: "pipe_id \<Rightarrow> req_t \<Rightarrow> bool" where
  "req_waiting x r \<longleftrightarrow> single x (rq_dealer r) \<and> rq_message_begins r \<and> \<not> rq_request_id_frames_enabled r
     \<and> rq_strict r \<and> rq_receiving_reply r \<and> rq_reply_pipe r = Some x
     \<and> \<not> p_in_active (d_heap (rq_dealer r) x)"

lemma req_begin_single:
  assumes "req_peer x r" "req_room (Suc n) x r"
  shows "\<exists>r'. req_begin r = (Inr (), r') \<and> \<not> rq_message_begins r' \<and> rq_reply_pipe r' = Some x
    \<and> rq_receiving_reply r' = rq_receiving_reply r \<and> rq_strict r' \<and> \<not> rq_request_id_frames_enabled r'
    \<and> d_heap (rq_dealer r') x = (d_heap (rq_dealer r) x)\<lparr>p_part := [mk_msg [] True], p_in_active := False\<rparr>
    \<and> d_lb (rq_dealer r') = (d_lb (rq_dealer r))\<lparr>lb_more := True\<rparr>
    \<and> fq_pipes (d_fq (rq_dealer r')) = [x] \<and> fq_current (d_fq (rq_dealer r')) = 0
    \<and> \<not> fq_more (d_fq (rq_dealer r')) \<and> fq_active (d_fq (rq_dealer r')) = 0"
proof -
  let ?d = "rq_dealer r"
  let ?d1 = "?d\<lparr>d_lb := (d_lb ?d)\<lparr>lb_more := True\<rparr>,
    d_heap := (d_heap ?d)(x := (d_heap ?d x)\<lparr>p_part := [mk_msg [] True]\<rparr>)\<rparr>"
  have s: "dealer_sendpipe (mk_msg [] True) ?d = (Inr (Some x), ?d1)"
    using assms by (intro dealer_send_more) (auto simp: req_peer_def req_room_def dest: pipe_room_check)
  obtain d2 where d2: "drop_all (Suc (inbound ?d1)) ?d1 = (Inr (), d2)" "d_lb d2 = d_lb ?d1"
    "d_heap d2 = (d_heap ?d1)(x := (d_heap ?d1 x)\<lparr>p_in_active := False\<rparr>)"
    "fq_pipes (d_fq d2) = [x]" "fq_current (d_fq d2) = 0" "\<not> fq_more (d_fq d2)" "fq_active (d_fq d2) = 0"
    using drop_all_dry [of ?d1 x "inbound ?d1"] assms(1) unfolding req_peer_def single_def by auto
  show ?thesis
    using assms(1) d2(2-)
    by (simp add: req_begin_def req_send_prefix_def bindS_def liftS_def s d2(1) req_peer_def del: drop_all.simps)
qed

lemma req_send_single:
  assumes "req_peer x r" "req_room (Suc n) x r" "\<not> rq_receiving_reply r"
  shows "\<exists>r'. req_send (mk_msg b False) r = (Inr (), r') \<and> req_waiting x r' \<and> req_room n x r'
    \<and> req_out x r' = req_out x r @ [mk_msg [] True, mk_msg b False]"
proof -
  obtain r1 where b: "req_begin r = (Inr (), r1)" "\<not> rq_message_begins r1" "rq_reply_pipe r1 = Some x"
    "rq_receiving_reply r1 = rq_receiving_reply r" "rq_strict r1" "\<not> rq_request_id_frames_enabled r1"
    "d_heap (rq_dealer r1) x = (d_heap (rq_dealer r) x)\<lparr>p_part := [mk_msg [] True], p_in_active := False\<rparr>"
    "d_lb (rq_dealer r1) = (d_lb (rq_dealer r))\<lparr>lb_more := True\<rparr>"
    "fq_pipes (d_fq (rq_dealer r1)) = [x]" "fq_current (d_fq (rq_dealer r1)) = 0"
    "\<not> fq_more (d_fq (rq_dealer r1))" "fq_active (d_fq (rq_dealer r1)) = 0"
    using req_begin_single [OF assms(1,2)] by blast
  have w: "pipe_write (mk_msg b False) (d_heap (rq_dealer r1) x) = (True, d_heap (rq_dealer r1) x\<lparr>
      p_ready := [mk_msg [] True, mk_msg b False], p_part := [],
      p_msgs_written := p_msgs_written (d_heap (rq_dealer r) x) + 1\<rparr>)"
    using assms(1,2) by (subst pipe_write_ok(2)) (auto simp: b(7) req_peer_def single_def req_room_def pipe_check_hwm_def dest: pipe_room_check)
  have room: "pipe_room n q" if "p_hwm q = p_hwm (d_heap (rq_dealer r) x)"
      "p_peers_msgs_read q = p_peers_msgs_read (d_heap (rq_dealer r) x)"
      "p_msgs_written q = p_msgs_written (d_heap (rq_dealer r) x) + 1" for q
    using pipe_room_written [OF assms(2)[unfolded req_room_def] that] .
  show ?thesis
    using assms b(2-) w
    by (simp add: req_send_def req_xsend_def bindS_def b(1) req_send_body_def liftS_def dealer_sendpipe_def
        lb_sendpipe_def req_peer_def single_def req_waiting_def req_out_def pipe_flush_def Let_def room req_room_def)
qed

text \<open>Waiting without an answer times out and changes nothing that matters; the answer of the
  peer is handed out and the socket is back between calls.\<close>

lemma req_xrecv_dry:
  assumes "req_waiting x r"
  shows "req_xrecv r = (Inl EAGAIN, r)"
  using assms
  by (simp add: req_waiting_def single_def req_xrecv_def bindS_def recv_reply_pipe_def liftS_def dealer_recvpipe_def
      fq_recvpipe_def Let_def)

lemma req_recv_timeout: "req_waiting x r \<Longrightarrow> req_recv [] r = (Inl EAGAIN, r)"
  by (simp add: req_xrecv_dry)

lemma req_recv_reply:
  assumes "req_waiting x r"
  shows "\<exists>r'. req_recv ((x, [mk_msg [] True, mk_msg b False]) # as) r = (Inr (mk_msg b False), r')
    \<and> req_peer x r' \<and> \<not> rq_receiving_reply r' \<and> req_out x r' = req_out x r \<and> (req_room n x r \<longrightarrow> req_room n x r')"
proof -
  let ?r = "req_deliver (x, [mk_msg [] True, mk_msg b False]) r"
  have d: "single x (rq_dealer r)" "\<not> p_in_active (d_heap (rq_dealer r) x)"
    using assms by (auto simp: req_waiting_def)
  have "\<exists>r'. req_xrecv ?r = (Inr (mk_msg b False), r') \<and> req_peer x r' \<and> \<not> rq_receiving_reply r'
      \<and> req_out x r' = req_out x r \<and> (req_room n x r \<longrightarrow> req_room n x r')"
    using assms
    by (simp add: req_room_def req_waiting_def single_def req_deliver_def dealer_deliver_def process_activate_read_def
        dealer_read_activated_def fq_activated_def arr_swap_def req_xrecv_def bindS_def recv_reply_pipe_def liftS_def
        dealer_recvpipe_def fq_recvpipe_def inbound_def pipe_defs Let_def req_peer_def req_out_def)
  then obtain r' where "req_xrecv ?r = (Inr (mk_msg b False), r')" "req_peer x r'" "\<not> rq_receiving_reply r'"
    "req_out x r' = req_out x r" "req_room n x r \<longrightarrow> req_room n x r'"
    by blast
  then show ?thesis by (cases "as") (simp_all add: req_xrecv_dry [OF assms])
qed

end
