(* ===== verification/ZmqRep.thy ===== *)
theory ZmqRep
  imports ZmqReq
begin

text \<open>
  The REP socket (\<open>3rd/zeromq/src/rep.cpp\<close> on \<open>router.cpp\<close> and the routing table of
  \<open>routing_socket_base_t\<close>) that \<open>Responder\<close> owns. Terminating a pipe (\<open>pipe_t::terminate\<close>) is the I/O
  side's business: the model only records which pipes were told to go.
\<close>

section \<open>router.cpp\<close>

record router_t =
  rt_heap :: heap
  rt_fq :: fq_t
  rt_prefetched :: bool
  rt_routing_id_sent :: bool
  rt_prefetched_id :: msg_t
  rt_prefetched_msg :: msg_t
  rt_current_in :: "pipe_id option"
  rt_terminate_current_in :: bool
  rt_more_in :: bool
  rt_current_out :: "pipe_id option"
  rt_more_out :: bool
  rt_next_integral_routing_id :: "32 word"
  rt_mandatory :: bool
  rt_raw_socket :: bool
  rt_probe_router :: bool
  rt_handover :: bool
  rt_anonymous_pipes :: "pipe_id list"
  rt_out_pipes :: "bytes \<Rightarrow> (pipe_id \<times> bool) option"
  rt_terminated :: "pipe_id list"

definition new_router :: "32 word \<Rightarrow> router_t" where
  "new_router rnd = \<lparr>rt_heap = (\<lambda>_. new_pipe 0 0), rt_fq = new_fq, rt_prefetched = False,
     rt_routing_id_sent = False, rt_prefetched_id = empty_msg, rt_prefetched_msg = empty_msg,
     rt_current_in = None, rt_terminate_current_in = False, rt_more_in = False, rt_current_out = None,
     rt_more_out = False, rt_next_integral_routing_id = rnd, rt_mandatory = False, rt_raw_socket = False,
     rt_probe_router = False, rt_handover = False, rt_anonymous_pipes = [], rt_out_pipes = Map.empty,
     rt_terminated = []\<rparr>"

definition set_pipe :: "pipe_id \<Rightarrow> pipe_t \<Rightarrow> router_t \<Rightarrow> router_t" where
  "set_pipe x p s = s\<lparr>rt_heap := (rt_heap s)(x := p)\<rparr>"

definition terminate_pipe :: "pipe_id \<Rightarrow> router_t \<Rightarrow> router_t" where
  "terminate_pipe x s = s\<lparr>rt_terminated := rt_terminated s @ [x]\<rparr>"

text \<open>\<open>put_uint32\<close> is big-endian; an integral routing id has a leading zero byte.\<close>

definition integral_routing_id :: "32 word \<Rightarrow> bytes" where
  "integral_routing_id w = CHR 0x00 # rev (le_bytes 4 (unat w))"

definition fresh_routing_id :: "router_t \<Rightarrow> bytes \<times> router_t" where
  "fresh_routing_id s = (integral_routing_id (rt_next_integral_routing_id s),
     s\<lparr>rt_next_integral_routing_id := rt_next_integral_routing_id s + 1\<rparr>)"

definition erase_out_pipe :: "pipe_id \<Rightarrow> router_t \<Rightarrow> router_t" where
  "erase_out_pipe x s = s\<lparr>rt_out_pipes := (rt_out_pipes s)(p_routing_id (rt_heap s x) := None)\<rparr>"

definition add_out_pipe :: "bytes \<Rightarrow> pipe_id \<Rightarrow> router_t \<Rightarrow> router_t" where
  "add_out_pipe rid x s = s\<lparr>rt_out_pipes := (rt_out_pipes s)(rid \<mapsto> (x, True))\<rparr>"

definition set_routing_id :: "pipe_id \<Rightarrow> bytes \<Rightarrow> router_t \<Rightarrow> router_t" where
  "set_routing_id x rid s = set_pipe x ((rt_heap s x)\<lparr>p_routing_id := rid\<rparr>) s"

text \<open>\<open>identify_peer\<close> without a routing id set by \<open>ZMQ_CONNECT_ROUTING_ID\<close> (a socket that only binds
  never has one).\<close>

definition identify_peer :: "pipe_id \<Rightarrow> router_t \<Rightarrow> bool \<times> router_t" where
  "identify_peer x s =
     (if rt_raw_socket s
      then let (rid, s1) = fresh_routing_id s in (True, add_out_pipe rid x (set_routing_id x rid s1))
      else case pipe_read (rt_heap s x) of
        (None, p) \<Rightarrow> (False, set_pipe x p s)
      | (Some m, p) \<Rightarrow>
          let s1 = set_pipe x p s in
          if m_data m = []
          then let (rid, s2) = fresh_routing_id s1 in (True, add_out_pipe rid x (set_routing_id x rid s2))
          else let rid = m_data m in
            case rt_out_pipes s1 rid of
              None \<Rightarrow> (True, add_out_pipe rid x (set_routing_id x rid s1))
            | Some (old, _) \<Rightarrow>
                if \<not> rt_handover s1 then (False, s1)
                else
                  let (nid, s2) = fresh_routing_id s1;
                      s3 = add_out_pipe nid old (set_routing_id old nid (erase_out_pipe old s2));
                      s4 = (if rt_current_in s3 = Some old then s3\<lparr>rt_terminate_current_in := True\<rparr>
                            else terminate_pipe old s3)
                  in (True, add_out_pipe rid x (set_routing_id x rid s4)))"

definition router_attach_pipe :: "pipe_id \<Rightarrow> router_t \<Rightarrow> router_t" where
  "router_attach_pipe x s =
     (let s1 = (if rt_probe_router s
                then set_pipe x (pipe_flush (snd (pipe_write empty_msg (rt_heap s x)))) s else s);
          (ok, s2) = identify_peer x s1
      in if ok then s2\<lparr>rt_fq := fq_attach x (rt_fq s2)\<rparr>
         else s2\<lparr>rt_anonymous_pipes := List.insert x (rt_anonymous_pipes s2)\<rparr>)"

definition router_pipe_terminated :: "pipe_id \<Rightarrow> router_t \<Rightarrow> router_t" where
  "router_pipe_terminated x s =
     (if x \<in> set (rt_anonymous_pipes s) then s\<lparr>rt_anonymous_pipes := removeAll x (rt_anonymous_pipes s)\<rparr>
      else
        let s1 = erase_out_pipe x s;
            s2 = s1\<lparr>rt_fq := fq_pipe_terminated x (rt_fq s1)\<rparr>;
            s3 = set_pipe x (pipe_rollback (rt_heap s2 x)) s2
        in if rt_current_out s3 = Some x then s3\<lparr>rt_current_out := None\<rparr> else s3)"

definition router_read_activated :: "pipe_id \<Rightarrow> router_t \<Rightarrow> router_t" where
  "router_read_activated x s =
     (if x \<notin> set (rt_anonymous_pipes s) then s\<lparr>rt_fq := fq_activated x (rt_fq s)\<rparr>
      else
        let (ok, s1) = identify_peer x s
        in if ok then s1\<lparr>rt_anonymous_pipes := removeAll x (rt_anonymous_pipes s1), rt_fq := fq_attach x (rt_fq s1)\<rparr>
           else s1)"

text \<open>\<open>xsend\<close>: the first part of a message names the peer and is not sent.\<close>

definition router_xsend_id :: "msg_t \<Rightarrow> (router_t, errno, unit) smon" where
  "router_xsend_id m = (\<lambda>s.
     if rt_current_out s \<noteq> None then (Inl ABORTED, s)
     else if \<not> m_more m then (Inr (), s)
     else
       let s1 = s\<lparr>rt_more_out := True\<rparr> in
       case rt_out_pipes s1 (m_data m) of
         Some (x, act) \<Rightarrow>
           (case pipe_check_write (rt_heap s1 x) of
              (True, p) \<Rightarrow> (Inr (), (set_pipe x p s1)\<lparr>rt_current_out := Some x\<rparr>)
            | (False, p) \<Rightarrow>
                let s2 = (set_pipe x p s1)\<lparr>rt_out_pipes := (rt_out_pipes s1)(m_data m \<mapsto> (x, False)), rt_current_out := None\<rparr>
                in if rt_mandatory s2
                   then (Inl (if \<not> pipe_check_hwm p then EAGAIN else EHOSTUNREACH), s2\<lparr>rt_more_out := False\<rparr>)
                   else (Inr (), s2))
       | None \<Rightarrow>
           if rt_mandatory s1 then (Inl EHOSTUNREACH, s1\<lparr>rt_more_out := False\<rparr>) else (Inr (), s1))"

definition router_xsend_part :: "msg_t \<Rightarrow> (router_t, errno, unit) smon" where
  "router_xsend_part m0 = (\<lambda>s.
     let m = (if rt_raw_socket s then m0\<lparr>m_more := False\<rparr> else m0);
         s1 = s\<lparr>rt_more_out := m_more m\<rparr>
     in case rt_current_out s1 of
          None \<Rightarrow> (Inr (), s1)
        | Some x \<Rightarrow>
            if rt_raw_socket s1 \<and> m_data m = []
            then (Inr (), (terminate_pipe x s1)\<lparr>rt_current_out := None\<rparr>)
            else case pipe_write m (rt_heap s1 x) of
              (False, p) \<Rightarrow> (Inr (), (set_pipe x (pipe_rollback p) s1)\<lparr>rt_current_out := None\<rparr>)
            | (True, p) \<Rightarrow>
                if \<not> m_more m then (Inr (), (set_pipe x (pipe_flush p) s1)\<lparr>rt_current_out := None\<rparr>)
                else (Inr (), set_pipe x p s1))"

definition router_xsend :: "msg_t \<Rightarrow> (router_t, errno, unit) smon" where
  "router_xsend m = (\<lambda>s. if \<not> rt_more_out s then router_xsend_id m s else router_xsend_part m s)"

text \<open>\<open>xrecv\<close>: the peer's routing id comes first, the frame that announced it is kept back.\<close>

definition router_end_in :: "router_t \<Rightarrow> router_t" where
  "router_end_in s =
     (if rt_more_in s then s
      else (if rt_terminate_current_in s
            then (case rt_current_in s of None \<Rightarrow> s | Some x \<Rightarrow> terminate_pipe x s)\<lparr>rt_terminate_current_in := False\<rparr>
            else s)\<lparr>rt_current_in := None\<rparr>)"

fun router_recvpipe :: "nat \<Rightarrow> (router_t, errno, msg_t \<times> pipe_id) smon" where
  "router_recvpipe 0 s = (Inl NO_FUEL, s)"
| "router_recvpipe (Suc n) s =
     (case fq_recvpipe (rt_fq s, rt_heap s) of
        (Inl e, (q, h)) \<Rightarrow> (Inl e, s\<lparr>rt_fq := q, rt_heap := h\<rparr>)
      | (Inr (m, x), (q, h)) \<Rightarrow>
          let s' = s\<lparr>rt_fq := q, rt_heap := h\<rparr>
          in if m_kind m = Routing_Id then router_recvpipe n s' else (Inr (m, x), s'))"

definition router_inbound :: "router_t \<Rightarrow> nat" where
  "router_inbound s = sum_list (map (\<lambda>x. length (p_in (rt_heap s x))) (fq_pipes (rt_fq s)))"

definition router_xrecv :: "(router_t, errno, msg_t) smon" where
  "router_xrecv = (\<lambda>s.
     if rt_prefetched s
     then
       let (m, s1) = (if \<not> rt_routing_id_sent s then (rt_prefetched_id s, s\<lparr>rt_routing_id_sent := True\<rparr>)
                      else (rt_prefetched_msg s, s\<lparr>rt_prefetched := False\<rparr>))
       in (Inr m, router_end_in (s1\<lparr>rt_more_in := m_more m\<rparr>))
     else case router_recvpipe (Suc (router_inbound s)) s of
       (Inl e, s1) \<Rightarrow> (Inl e, s1)
     | (Inr (m, x), s1) \<Rightarrow>
         if rt_more_in s1 then (Inr m, router_end_in (s1\<lparr>rt_more_in := m_more m\<rparr>))
         else (Inr (mk_msg (p_routing_id (rt_heap s1 x)) True),
               s1\<lparr>rt_prefetched_msg := m, rt_prefetched := True, rt_current_in := Some x, rt_routing_id_sent := True\<rparr>))"

definition router_rollback :: "router_t \<Rightarrow> router_t" where
  "router_rollback s =
     (case rt_current_out s of
        None \<Rightarrow> s
      | Some x \<Rightarrow> (set_pipe x (pipe_rollback (rt_heap s x)) s)\<lparr>rt_current_out := None, rt_more_out := False\<rparr>)"

definition router_has_in :: "router_t \<Rightarrow> bool \<times> router_t" where
  "router_has_in s =
     (if rt_more_in s \<or> rt_prefetched s then (True, s)
      else case router_recvpipe (Suc (router_inbound s)) s of
        (Inl e, s1) \<Rightarrow> (False, s1)
      | (Inr (m, x), s1) \<Rightarrow>
          (True, s1\<lparr>rt_prefetched_msg := m, rt_prefetched_id := mk_msg (p_routing_id (rt_heap s1 x)) True,
             rt_prefetched := True, rt_routing_id_sent := False, rt_current_in := Some x\<rparr>))"

section \<open>rep.cpp\<close>

record rep_t =
  rp_router :: router_t
  rp_sending_reply :: bool
  rp_request_begins :: bool

definition new_rep :: "32 word \<Rightarrow> rep_t" where
  "new_rep rnd = \<lparr>rp_router = new_router rnd, rp_sending_reply = False, rp_request_begins = True\<rparr>"

abbreviation on_router :: "(router_t, errno, 'a) smon \<Rightarrow> (rep_t, errno, 'a) smon" where
  "on_router \<equiv> liftS rp_router (\<lambda>t r. r\<lparr>rp_router := t\<rparr>) id"

definition rep_xsend :: "msg_t \<Rightarrow> (rep_t, errno, unit) smon" where
  "rep_xsend m = (\<lambda>r.
     if \<not> rp_sending_reply r then (Inl EFSM, r)
     else bindS (on_router (router_xsend m)) (\<lambda>_.
       if \<not> m_more m then modifyS (\<lambda>r. r\<lparr>rp_sending_reply := False\<rparr>) else retS ()) r)"

text \<open>Copy the labels up to the empty delimiter to the reply pipe; a message that ends before it
  is rolled back and skipped. The \<open>errno_assert\<close> aborts when a label cannot be pushed.\<close>

fun rep_labels :: "nat \<Rightarrow> (rep_t, errno, unit) smon" where
  "rep_labels 0 r = (Inl NO_FUEL, r)"
| "rep_labels (Suc n) r =
     (case on_router router_xrecv r of
        (Inl e, r1) \<Rightarrow> (Inl e, r1)
      | (Inr m, r1) \<Rightarrow>
          if m_more m
          then (case on_router (router_xsend m) r1 of
                  (Inl e, r2) \<Rightarrow> (Inl ABORTED, r2)
                | (Inr _, r2) \<Rightarrow> if m_data m = [] then (Inr (), r2) else rep_labels n r2)
          else rep_labels n (r1\<lparr>rp_router := router_rollback (rp_router r1)\<rparr>))"

definition rep_xrecv :: "(rep_t, errno, msg_t) smon" where
  "rep_xrecv = (\<lambda>r.
     if rp_sending_reply r then (Inl EFSM, r)
     else
       bindS (if rp_request_begins r
              then bindS (rep_labels (2 * router_inbound (rp_router r) + 3))
                     (\<lambda>_. modifyS (\<lambda>r. r\<lparr>rp_request_begins := False\<rparr>))
              else retS ()) (\<lambda>_.
       bindS (on_router router_xrecv) (\<lambda>m.
       if \<not> m_more m
       then bindS (modifyS (\<lambda>r. r\<lparr>rp_sending_reply := True, rp_request_begins := True\<rparr>)) (\<lambda>_. retS m)
       else retS m)) r)"

definition rep_has_in :: "rep_t \<Rightarrow> bool \<times> rep_t" where
  "rep_has_in r = (if rp_sending_reply r then (False, r)
     else case router_has_in (rp_router r) of (b, t) \<Rightarrow> (b, r\<lparr>rp_router := t\<rparr>))"

section \<open>Blocking receive\<close>

definition rep_deliver :: "pipe_id \<times> msg_t list \<Rightarrow> rep_t \<Rightarrow> rep_t" where
  "rep_deliver a r =
     (case a of (x, ms) \<Rightarrow>
       let s = rp_router r; p = (rt_heap s x)\<lparr>p_in := p_in (rt_heap s x) @ ms\<rparr> in
       case process_activate_read p of
         (True, p') \<Rightarrow> r\<lparr>rp_router := router_read_activated x (set_pipe x p' s)\<rparr>
       | (False, p') \<Rightarrow> r\<lparr>rp_router := set_pipe x p' s\<rparr>)"

fun rep_recv :: "(pipe_id \<times> msg_t list) list \<Rightarrow> (rep_t, errno, msg_t) smon" where
  "rep_recv [] r = rep_xrecv r"
| "rep_recv (a # as) r =
     (case rep_xrecv r of
        (Inl EAGAIN, r') \<Rightarrow> rep_recv as (rep_deliver a r')
      | res \<Rightarrow> res)"

section \<open>The state machine of a REP socket\<close>

lemma rep_xsend_EFSM: "\<not> rp_sending_reply r \<Longrightarrow> rep_xsend m r = (Inl EFSM, r)"
  by (simp add: rep_xsend_def)

lemma rep_xrecv_EFSM: "rp_sending_reply r \<Longrightarrow> rep_xrecv r = (Inl EFSM, r)"
  by (simp add: rep_xrecv_def)

lemma on_router_fsm [simp]:
  "on_router m r = (res, r') \<Longrightarrow> rp_sending_reply r' = rp_sending_reply r \<and> rp_request_begins r' = rp_request_begins r"
  by (auto simp: liftS_def split: prod.splits sum.splits)

lemma rep_labels_fsm:
  "rep_labels n r = (res, r') \<Longrightarrow> rp_sending_reply r' = rp_sending_reply r"
proof (induction n arbitrary: r)
  case (Suc n)
  then show ?case
    by (auto split: prod.splits sum.splits if_splits dest!: on_router_fsm)
qed simp

lemma rep_xrecv_Inr:
  assumes "rep_xrecv r = (Inr m, r')"
  shows "\<not> rp_sending_reply r" "rp_sending_reply r' \<longleftrightarrow> \<not> m_more m"
  using assms
  by (auto simp: rep_xrecv_def split: if_splits elim!: bindS_eq_Inr dest!: on_router_fsm rep_labels_fsm)

lemma rep_xsend_Inr:
  assumes "rep_xsend m r = (Inr (), r')"
  shows "rp_sending_reply r" "rp_sending_reply r' \<longleftrightarrow> m_more m"
  using assms
  by (auto simp: rep_xsend_def split: if_splits elim!: bindS_eq_Inr dest!: on_router_fsm)

lemma rep_deliver_fsm [simp]: "rp_sending_reply (rep_deliver a r) = rp_sending_reply r"
  by (auto simp: rep_deliver_def Let_def split: prod.splits bool.splits)

lemma rep_xrecv_Inl_fsm:
  "rep_xrecv r = (Inl e, r') \<Longrightarrow> rp_sending_reply r' = rp_sending_reply r"
  by (auto simp: rep_xrecv_def split: if_splits elim!: bindS_eq_Inl bindS_eq_Inr
      dest!: on_router_fsm rep_labels_fsm)

lemma rep_recv_Inr:
  assumes "rep_recv as r = (Inr m, r')"
  shows "\<not> rp_sending_reply r" "rp_sending_reply r' \<longleftrightarrow> \<not> m_more m"
proof -
  have "\<not> rp_sending_reply r \<and> (rp_sending_reply r' \<longleftrightarrow> \<not> m_more m)"
    using assms
  proof (induction "as" arbitrary: r)
    case Nil
    then show ?case using rep_xrecv_Inr by auto
  next
    case (Cons a as)
    show ?case
    proof (cases "\<exists>r1. rep_xrecv r = (Inl EAGAIN, r1)")
      case True
      then obtain r1 where r1: "rep_xrecv r = (Inl EAGAIN, r1)" by blast
      then have "rep_recv as (rep_deliver a r1) = (Inr m, r')" using Cons.prems by simp
      then show ?thesis using Cons.IH [of "rep_deliver a r1"] rep_xrecv_Inl_fsm [OF r1] by simp
    next
      case False
      then have "rep_xrecv r = (Inr m, r')"
        using Cons.prems by (auto split: prod.splits sum.splits errno.splits)
      then show ?thesis using rep_xrecv_Inr by auto
    qed
  qed
  then show "\<not> rp_sending_reply r" "rp_sending_reply r' \<longleftrightarrow> \<not> m_more m" by auto
qed

text \<open>No operation changes the socket's options; without \<open>ZMQ_ROUTER_MANDATORY\<close> a reply is never
  refused for want of room.\<close>

lemma router_sel [simp]:
  "rt_mandatory (set_pipe x p s) = rt_mandatory s" "rt_mandatory (terminate_pipe x s) = rt_mandatory s"
  "rt_mandatory (set_routing_id x rid s) = rt_mandatory s" "rt_mandatory (add_out_pipe rid x s) = rt_mandatory s"
  "rt_mandatory (erase_out_pipe x s) = rt_mandatory s" "rt_mandatory (router_end_in s) = rt_mandatory s"
  "rt_mandatory (router_rollback s) = rt_mandatory s" "rt_mandatory (snd (fresh_routing_id s)) = rt_mandatory s"
  by (auto simp: set_pipe_def terminate_pipe_def set_routing_id_def add_out_pipe_def erase_out_pipe_def
      router_end_in_def router_rollback_def fresh_routing_id_def split: option.splits)

lemma identify_peer_mandatory: "identify_peer x s = (b, s') \<Longrightarrow> rt_mandatory s' = rt_mandatory s"
  by (auto simp: identify_peer_def fresh_routing_id_def Let_def
      split: if_splits option.splits prod.splits)

lemma router_recvpipe_mandatory: "router_recvpipe n s = (res, s') \<Longrightarrow> rt_mandatory s' = rt_mandatory s"
proof (induction n arbitrary: s)
  case (Suc n)
  then show ?case by (fastforce simp: Let_def split: prod.splits sum.splits if_splits)
qed simp

lemma router_xrecv_mandatory: "router_xrecv s = (res, s') \<Longrightarrow> rt_mandatory s' = rt_mandatory s"
  by (auto simp: router_xrecv_def Let_def simp del: router_recvpipe.simps split: prod.splits sum.splits if_splits
      dest!: router_recvpipe_mandatory)

lemma router_xsend_mandatory: "router_xsend m s = (res, s') \<Longrightarrow> rt_mandatory s' = rt_mandatory s"
  by (auto simp: router_xsend_def router_xsend_id_def router_xsend_part_def Let_def
      split: if_splits option.splits prod.splits bool.splits)

abbreviation rep_mandatory :: "rep_t \<Rightarrow> bool" where
  "rep_mandatory r \<equiv> rt_mandatory (rp_router r)"

lemma on_router_mandatory:
  "on_router router_xrecv r = (res, r') \<Longrightarrow> rep_mandatory r' = rep_mandatory r"
  "on_router (router_xsend m) r = (res', r') \<Longrightarrow> rep_mandatory r' = rep_mandatory r"
  by (auto simp: liftS_def split: prod.splits sum.splits dest!: router_xrecv_mandatory router_xsend_mandatory)

lemma rep_labels_mandatory: "rep_labels n r = (res, r') \<Longrightarrow> rep_mandatory r' = rep_mandatory r"
proof (induction n arbitrary: r)
  case (Suc n)
  then show ?case
    by (auto split: prod.splits sum.splits if_splits dest!: on_router_mandatory)
qed simp

lemma rep_xrecv_mandatory: "rep_xrecv r = (res, r') \<Longrightarrow> rep_mandatory r' = rep_mandatory r"
  by (cases res) (auto simp: rep_xrecv_def split: if_splits elim!: bindS_eq_Inl bindS_eq_Inr
      dest!: on_router_mandatory rep_labels_mandatory)

lemma rep_xsend_mandatory: "rep_xsend m r = (res, r') \<Longrightarrow> rep_mandatory r' = rep_mandatory r"
  by (cases res) (auto simp: rep_xsend_def split: if_splits elim!: bindS_eq_Inl bindS_eq_Inr dest!: on_router_mandatory)

lemma rep_deliver_mandatory [simp]: "rep_mandatory (rep_deliver a r) = rep_mandatory r"
  by (auto simp: rep_deliver_def router_read_activated_def Let_def split: prod.splits bool.splits
      dest!: identify_peer_mandatory)

lemma rep_recv_mandatory: "rep_recv as r = (res, r') \<Longrightarrow> rep_mandatory r' = rep_mandatory r"
proof (induction "as" arbitrary: r)
  case Nil
  then show ?case using rep_xrecv_mandatory by simp
next
  case (Cons a as)
  obtain res1 r1 where x: "rep_xrecv r = (res1, r1)" by fastforce
  show ?case
  proof (cases "res1 = Inl EAGAIN")
    case True
    then show ?thesis
      using Cons.IH [of "rep_deliver a r1"] Cons.prems rep_xrecv_mandatory [OF x] x by simp
  next
    case False
    then have "rep_xrecv r = (res, r')" using Cons.prems x by (auto split: sum.splits errno.splits)
    then show ?thesis by (rule rep_xrecv_mandatory)
  qed
qed

lemma rep_xsend_not_EAGAIN:
  "\<not> rep_mandatory r \<Longrightarrow> fst (rep_xsend m r) \<noteq> Inl EAGAIN"
  by (auto simp: rep_xsend_def bindS_def liftS_def router_xsend_def router_xsend_id_def router_xsend_part_def Let_def
      split: prod.splits sum.splits if_splits option.splits bool.splits)

text \<open>After a complete request has been handed out, receiving again before the reply is sent is
  refused, whatever arrives.\<close>

lemma rep_recv_again:
  assumes "rep_recv as r = (Inr m, r')" "\<not> m_more m"
  shows "rep_recv bs r' = (Inl EFSM, r')"
  using rep_recv_Inr(2) [OF assms(1)] assms(2) by (cases bs) (simp_all add: rep_xrecv_EFSM)

lemma rep_send_early:
  assumes "rep_recv as r = (Inr m, r')" "m_more m"
  shows "rep_xsend m' r' = (Inl EFSM, r')"
  using rep_recv_Inr(2) [OF assms(1)] assms(2) by (simp add: rep_xsend_EFSM)

section \<open>A request and its reply\<close>

text \<open>Between calls, with peer \<open>x\<close> connected under the routing id \<open>rid\<close>. Other peers may be
  connected, idle or not.\<close>

definition rep_idle :: "rep_t \<Rightarrow> bool" where
  "rep_idle r \<longleftrightarrow> \<not> rp_sending_reply r \<and> rp_request_begins r \<and> \<not> rt_prefetched (rp_router r)
     \<and> \<not> rt_more_in (rp_router r) \<and> rt_current_out (rp_router r) = None \<and> \<not> rt_more_out (rp_router r)
     \<and> \<not> rt_terminate_current_in (rp_router r) \<and> \<not> rt_raw_socket (rp_router r) \<and> \<not> fq_more (rt_fq (rp_router r))"

definition rep_next :: "pipe_id \<Rightarrow> rep_t \<Rightarrow> bool" where
  "rep_next x r \<longleftrightarrow> fq_active (rt_fq (rp_router r)) > 0
     \<and> fq_pipes (rt_fq (rp_router r)) ! fq_current (rt_fq (rp_router r)) = x
     \<and> x \<in> set (fq_pipes (rt_fq (rp_router r)))"

definition rep_peer :: "pipe_id \<Rightarrow> rep_t \<Rightarrow> bool" where
  "rep_peer x r \<longleftrightarrow> (let p = rt_heap (rp_router r) x in
     p_in_active p \<and> p_state p = active \<and> p_out_active p \<and> pipe_check_hwm p \<and> p_ready p = [] \<and> p_part p = []
     \<and> p_routing_id p \<noteq> []
     \<and> (\<exists>act. rt_out_pipes (rp_router r) (p_routing_id p) = Some (x, act)))"

definition rep_out :: "pipe_id \<Rightarrow> rep_t \<Rightarrow> msg_t list" where
  "rep_out y r = p_out (rt_heap (rp_router r) y)"

lemma pipe_count_read_sel [simp]:
  "p_in (pipe_count_read m p) = p_in p" "p_in_active (pipe_count_read m p) = p_in_active p"
  "p_out (pipe_count_read m p) = p_out p" "p_ready (pipe_count_read m p) = p_ready p"
  "p_part (pipe_count_read m p) = p_part p" "p_out_active (pipe_count_read m p) = p_out_active p"
  "p_state (pipe_count_read m p) = p_state p" "p_routing_id (pipe_count_read m p) = p_routing_id p"
  "pipe_check_hwm (pipe_count_read m p) = pipe_check_hwm p"
  by (simp_all add: pipe_count_read_def pipe_check_hwm_def Let_def)

lemma pipe_check_hwm_upd [simp]:
  "pipe_check_hwm (p\<lparr>p_in := ms\<rparr>) = pipe_check_hwm p" "pipe_check_hwm (p\<lparr>p_part := ms\<rparr>) = pipe_check_hwm p"
  "pipe_check_hwm (p\<lparr>p_in_active := b\<rparr>) = pipe_check_hwm p"
  by (simp_all add: pipe_check_hwm_def)

lemma pipe_read_plain:
  assumes "p_in p = m # ms" "m_kind m = Plain" "p_in_active p" "p_state p = active"
  shows "pipe_read p = (Some m, pipe_count_read m (p\<lparr>p_in := ms\<rparr>))"
  using assms by (simp add: pipe_read_def pipe_readable_def)

definition fq_step :: "pipe_id \<Rightarrow> bool \<Rightarrow> fq_t \<Rightarrow> fq_t" where
  "fq_step x mr q = (if mr then q\<lparr>fq_more := True\<rparr>
     else q\<lparr>fq_more := False, fq_last_in := Some x, fq_current := (fq_current q + 1) mod fq_active q\<rparr>)"

lemma router_recv_frame:
  assumes "fq_active (rt_fq s) > 0" "fq_pipes (rt_fq s) ! fq_current (rt_fq s) = x"
    and "p_in (rt_heap s x) = m # ms" "m_kind m = Plain" "p_in_active (rt_heap s x)" "p_state (rt_heap s x) = active"
  shows "router_recvpipe (Suc n) s = (Inr (m, x), s\<lparr>rt_fq := fq_step x (m_more m) (rt_fq s),
     rt_heap := (rt_heap s)(x := pipe_count_read m ((rt_heap s x)\<lparr>p_in := ms\<rparr>))\<rparr>)"
proof -
  obtain k where "fq_active (rt_fq s) = Suc k" using assms(1) gr0_implies_Suc by blast
  then show ?thesis
    using assms by (simp add: fq_recvpipe_def pipe_read_plain fq_step_def Let_def)
qed

text \<open>The three ways \<open>router_t::xrecv\<close> hands out a frame.\<close>

lemma router_xrecv_first:
  assumes "\<not> rt_prefetched s" "\<not> rt_more_in s"
    and "fq_active (rt_fq s) > 0" "fq_pipes (rt_fq s) ! fq_current (rt_fq s) = x"
    and "p_in (rt_heap s x) = m # ms" "m_kind m = Plain" "p_in_active (rt_heap s x)" "p_state (rt_heap s x) = active"
  shows "router_xrecv s = (Inr (mk_msg (p_routing_id (rt_heap s x)) True), s\<lparr>rt_fq := fq_step x (m_more m) (rt_fq s),
     rt_heap := (rt_heap s)(x := pipe_count_read m ((rt_heap s x)\<lparr>p_in := ms\<rparr>)),
     rt_prefetched_msg := m, rt_prefetched := True, rt_current_in := Some x, rt_routing_id_sent := True\<rparr>)"
  using assms by (simp add: router_xrecv_def router_recv_frame del: router_recvpipe.simps)

lemma router_xrecv_prefetched:
  "rt_prefetched s \<Longrightarrow> rt_routing_id_sent s \<Longrightarrow> router_xrecv s = (Inr (rt_prefetched_msg s),
     router_end_in (s\<lparr>rt_prefetched := False, rt_more_in := m_more (rt_prefetched_msg s)\<rparr>))"
  by (simp add: router_xrecv_def)

lemma router_xrecv_next:
  assumes "\<not> rt_prefetched s" "rt_more_in s"
    and "fq_active (rt_fq s) > 0" "fq_pipes (rt_fq s) ! fq_current (rt_fq s) = x"
    and "p_in (rt_heap s x) = m # ms" "m_kind m = Plain" "p_in_active (rt_heap s x)" "p_state (rt_heap s x) = active"
  shows "router_xrecv s = (Inr m, router_end_in (s\<lparr>rt_fq := fq_step x (m_more m) (rt_fq s),
     rt_heap := (rt_heap s)(x := pipe_count_read m ((rt_heap s x)\<lparr>p_in := ms\<rparr>)), rt_more_in := m_more m\<rparr>))"
  using assms by (simp add: router_xrecv_def router_recv_frame del: router_recvpipe.simps)

lemma rep_xrecv_request:
  assumes "rep_idle r" "rep_next x r" "rep_peer x r"
    and "p_in (rt_heap (rp_router r) x) = mk_msg [] True # mk_msg b False # rest"
  shows "\<exists>r'. rep_xrecv r = (Inr (mk_msg b False), r') \<and> rp_sending_reply r' \<and> rp_request_begins r'
    \<and> rt_current_out (rp_router r') = Some x \<and> rt_more_out (rp_router r') \<and> \<not> rt_raw_socket (rp_router r')
    \<and> \<not> rt_prefetched (rp_router r') \<and> \<not> rt_more_in (rp_router r') \<and> \<not> rt_terminate_current_in (rp_router r')
    \<and> \<not> fq_more (rt_fq (rp_router r'))
    \<and> (let p = rt_heap (rp_router r') x in p_part p = [mk_msg [] True] \<and> p_ready p = [] \<and> p_out p = rep_out x r
         \<and> p_out_active p \<and> p_state p = active \<and> pipe_check_hwm p \<and> p_in p = rest)
    \<and> (\<forall>y. y \<noteq> x \<longrightarrow> rt_heap (rp_router r') y = rt_heap (rp_router r) y)"
proof -
  let ?s = "rp_router r"
  obtain act where act: "rt_out_pipes ?s (p_routing_id (rt_heap ?s x)) = Some (x, act)"
    using assms(3) by (auto simp: rep_peer_def Let_def)
  have fuel: "2 * router_inbound ?s + 3 = Suc (Suc (Suc (2 * router_inbound ?s)))" by simp
  note peer = assms(1)[unfolded rep_idle_def] assms(2)[unfolded rep_next_def]
    assms(3)[unfolded rep_peer_def Let_def]
  show ?thesis
    using peer act assms(4)
    by (simp add: rep_xrecv_def fuel bindS_def liftS_def router_xrecv_first router_xrecv_prefetched router_xrecv_next
        router_xsend_def router_xsend_id_def router_xsend_part_def pipe_check_write_def pipe_write_ok router_end_in_def
        fq_step_def set_pipe_def rep_out_def Let_def del: router_recvpipe.simps)
qed

text \<open>The reply goes to the peer whose request is being served, behind the empty delimiter, and
  nowhere else.\<close>

lemma rep_xsend_reply:
  assumes "rp_sending_reply r" "rp_request_begins r" "rt_current_out (rp_router r) = Some x" "rt_more_out (rp_router r)"
    "\<not> rt_raw_socket (rp_router r)"
    and "p_part (rt_heap (rp_router r) x) = [mk_msg [] True]" "p_ready (rt_heap (rp_router r) x) = []"
    "p_out_active (rt_heap (rp_router r) x)" "p_state (rt_heap (rp_router r) x) = active"
    "pipe_check_hwm (rt_heap (rp_router r) x)"
  shows "\<exists>r'. rep_xsend (mk_msg a False) r = (Inr (), r') \<and> \<not> rp_sending_reply r' \<and> rp_request_begins r'
    \<and> rt_current_out (rp_router r') = None \<and> \<not> rt_more_out (rp_router r')
    \<and> rep_out x r' = rep_out x r @ [mk_msg [] True, mk_msg a False]
    \<and> (\<forall>y. y \<noteq> x \<longrightarrow> rt_heap (rp_router r') y = rt_heap (rp_router r) y)
    \<and> rt_prefetched (rp_router r') = rt_prefetched (rp_router r) \<and> rt_more_in (rp_router r') = rt_more_in (rp_router r)
    \<and> rt_terminate_current_in (rp_router r') = rt_terminate_current_in (rp_router r)
    \<and> \<not> rt_raw_socket (rp_router r') \<and> rt_fq (rp_router r') = rt_fq (rp_router r)"
  using assms
  by (simp add: rep_xsend_def bindS_def liftS_def router_xsend_def router_xsend_part_def pipe_write_ok pipe_flush_def
      set_pipe_def rep_out_def Let_def)

lemma rep_request_reply:
  assumes "rep_idle r" "rep_next x r" "rep_peer x r"
    and "p_in (rt_heap (rp_router r) x) = mk_msg [] True # mk_msg b False # rest"
  obtains r1 r2 where "rep_recv as r = (Inr (mk_msg b False), r1)" "rep_xsend (mk_msg a False) r1 = (Inr (), r2)"
    "rep_idle r2" "rep_out x r2 = rep_out x r @ [mk_msg [] True, mk_msg a False]"
    "\<And>y. y \<noteq> x \<Longrightarrow> rep_out y r2 = rep_out y r" "rp_sending_reply r1"
proof -
  obtain r1 where r1: "rep_xrecv r = (Inr (mk_msg b False), r1)" "rp_sending_reply r1" "rp_request_begins r1"
    "rt_current_out (rp_router r1) = Some x" "rt_more_out (rp_router r1)" "\<not> rt_raw_socket (rp_router r1)"
    "\<not> rt_prefetched (rp_router r1)" "\<not> rt_more_in (rp_router r1)" "\<not> rt_terminate_current_in (rp_router r1)"
    "\<not> fq_more (rt_fq (rp_router r1))"
    and p: "p_part (rt_heap (rp_router r1) x) = [mk_msg [] True]" "p_ready (rt_heap (rp_router r1) x) = []"
    "p_out_active (rt_heap (rp_router r1) x)" "p_state (rt_heap (rp_router r1) x) = active"
    "pipe_check_hwm (rt_heap (rp_router r1) x)" "rep_out x r1 = rep_out x r"
    and y: "\<And>y. y \<noteq> x \<Longrightarrow> rt_heap (rp_router r1) y = rt_heap (rp_router r) y"
    using rep_xrecv_request [OF assms] by (auto simp: Let_def rep_out_def)
  obtain r2 where r2: "rep_xsend (mk_msg a False) r1 = (Inr (), r2)" "rep_idle r2"
    "rep_out x r2 = rep_out x r @ [mk_msg [] True, mk_msg a False]"
    "\<And>y. y \<noteq> x \<Longrightarrow> rt_heap (rp_router r2) y = rt_heap (rp_router r1) y"
    using rep_xsend_reply [OF r1(2-6) p(1-5), of a] r1(7-10) p(6) by (auto simp: rep_idle_def)
  have "rep_recv as r = (Inr (mk_msg b False), r1)" using r1(1) by (cases "as") simp_all
  then show ?thesis using that r1(2) r2 y by (simp add: rep_out_def)
qed

end
