(* ===== verification/PortableBinary.thy ===== *)
theory PortableBinary
  imports TiPrelude
begin

unbundle bit_operations_syntax

text \<open>
  The byte format of every message: cereal's portable binary archive
  (\<open>3rd/cereal/include/cereal/archives/portable_binary.hpp\<close>) with the loaders and savers of
  strings, vectors and tuples (\<open>cereal/types/string.hpp, vector.hpp, tuple.hpp\<close>) that
  \<open>SupportType.hpp\<close> pulls in. A \<open>stringstream\<close> is the standard library's in/out string buffer;
  a \<open>platform\<close> says how the machine lays out integers. \<open>cty\<close> and \<open>cval\<close> are the C++ types and
  values that cross the wire; a class with a member \<open>serialize\<close> is the tuple of its members.
  Floating point values are carried as their IEEE bit patterns (the archive copies object bytes).
\<close>

section \<open>The standard library's string stream\<close>

record stringstream =
  ss_buf :: bytes
  ss_get :: nat
  ss_put :: nat

definition ss_set_str :: "bytes \<Rightarrow> stringstream" where
  "ss_set_str s = \<lparr>ss_buf = s, ss_get = 0, ss_put = 0\<rparr>"

definition ss_str :: "stringstream \<Rightarrow> bytes" where
  "ss_str st = ss_buf st"

text \<open>\<open>sputn\<close> overwrites from the put position; \<open>sgetn\<close> reads at most what is left.\<close>

definition sputn :: "bytes \<Rightarrow> stringstream \<Rightarrow> nat \<times> stringstream" where
  "sputn bs st = (length bs,
     st\<lparr>ss_buf := take (ss_put st) (ss_buf st) @ bs @ drop (ss_put st + length bs) (ss_buf st),
        ss_put := ss_put st + length bs\<rparr>)"

definition sgetn :: "nat \<Rightarrow> stringstream \<Rightarrow> bytes \<times> stringstream" where
  "sgetn n st = (let bs = take n (drop (ss_get st) (ss_buf st)) in
     (bs, st\<lparr>ss_get := ss_get st + length bs\<rparr>))"

section \<open>Types and values on the wire\<close>

datatype aty = TBool | T8 | T16 | T32 | T64

datatype arith = ABool bool | A8 "8 word" | A16 "16 word" | A32 "32 word" | A64 "64 word"

datatype cty = CArith aty | CString | CVector cty | CTuple "cty list"

datatype cval = VArith arith | VString bytes | VVector cty "cval list" | VTuple "cval list"

text \<open>Something the archive cannot do: a short read or write, or a \<open>bool\<close> object whose byte is
  neither 0 nor 1 (reading it is undefined in C++). A \<open>resize\<close> to more than can be allocated
  throws where the model reports the short read: nobody tells the two exceptions apart.\<close>

datatype cereal_exn = Failed_To_Write nat nat | Failed_To_Read nat nat | Bad_Bool nat

record platform =
  plat_le :: bool

fun aty_size :: "aty \<Rightarrow> nat" where
  "aty_size TBool = 1"
| "aty_size T8 = 1"
| "aty_size T16 = 2"
| "aty_size T32 = 4"
| "aty_size T64 = 8"

fun aty_of :: "arith \<Rightarrow> aty" where
  "aty_of (ABool _) = TBool"
| "aty_of (A8 _) = T8"
| "aty_of (A16 _) = T16"
| "aty_of (A32 _) = T32"
| "aty_of (A64 _) = T64"

fun arith_nat :: "arith \<Rightarrow> nat" where
  "arith_nat (ABool b) = (if b then 1 else 0)"
| "arith_nat (A8 w) = unat w"
| "arith_nat (A16 w) = unat w"
| "arith_nat (A32 w) = unat w"
| "arith_nat (A64 w) = unat w"

fun arith_of :: "aty \<Rightarrow> nat \<Rightarrow> cereal_exn + arith" where
  "arith_of TBool n = (if n = 0 then Inr (ABool False) else if n = 1 then Inr (ABool True) else Inl (Bad_Bool n))"
| "arith_of T8 n = Inr (A8 (of_nat n))"
| "arith_of T16 n = Inr (A16 (of_nat n))"
| "arith_of T32 n = Inr (A32 (of_nat n))"
| "arith_of T64 n = Inr (A64 (of_nat n))"

text \<open>The object representation in memory, in the machine's byte order, and its reading back.\<close>

definition mem_repr :: "bool \<Rightarrow> arith \<Rightarrow> bytes" where
  "mem_repr le a = (let bs = le_bytes (aty_size (aty_of a)) (arith_nat a) in if le then bs else rev bs)"

definition mem_val :: "bool \<Rightarrow> bytes \<Rightarrow> nat" where
  "mem_val le bs = le_val (if le then bs else rev bs)"

section \<open>portable\_binary.hpp\<close>

record out_archive =
  oa_stream :: stringstream
  oa_convert :: bool

record in_archive =
  ia_stream :: stringstream
  ia_convert :: bool

text \<open>\<open>swap_bytes\<close>: exchange \<open>data[i]\<close> and \<open>data[DataSize - i - 1]\<close> for the first half.\<close>

definition swap_bytes :: "nat \<Rightarrow> bytes \<Rightarrow> bytes" where
  "swap_bytes D data = fold (\<lambda>i d. d[i := d ! (D - i - 1), D - i - 1 := d ! i]) [0..<D div 2] data"

text \<open>\<open>saveBinary\<close>: the converting loop writes each \<open>DataSize\<close> chunk backwards, byte by byte.\<close>

definition save_swapped :: "nat \<Rightarrow> bytes \<Rightarrow> stringstream \<Rightarrow> nat \<times> stringstream" where
  "save_swapped D data st =
     fold (\<lambda>i. fold (\<lambda>j (w, s). let (k, s') = sputn [data ! (D - j - 1 + i)] s in (w + k, s')) [0..<D])
       (map (\<lambda>k. k * D) [0..<(length data + D - 1) div D]) (0, st)"

definition saveBinary :: "nat \<Rightarrow> bytes \<Rightarrow> (out_archive, cereal_exn, unit) smon" where
  "saveBinary D data = (\<lambda>ar.
     let (writtenSize, st) =
       (if oa_convert ar then save_swapped D data (oa_stream ar) else sputn data (oa_stream ar));
       ar' = ar\<lparr>oa_stream := st\<rparr>
     in if writtenSize \<noteq> length data then (Inl (Failed_To_Write (length data) writtenSize), ar')
        else (Inr (), ar'))"

text \<open>\<open>loadBinary\<close>: a short read throws; otherwise every \<open>DataSize\<close> chunk is flipped if the
  stream's byte order is not the machine's.\<close>

definition swap_chunks :: "nat \<Rightarrow> bytes \<Rightarrow> bytes" where
  "swap_chunks D data =
     concat (map (\<lambda>k. swap_bytes D (take D (drop (k * D) data))) [0..<length data div D])"

definition loadBinary :: "nat \<Rightarrow> nat \<Rightarrow> (in_archive, cereal_exn, bytes) smon" where
  "loadBinary D n = (\<lambda>ar.
     let (data, st) = sgetn n (ia_stream ar); ar' = ar\<lparr>ia_stream := st\<rparr>
     in if length data \<noteq> n then (Inl (Failed_To_Read n (length data)), ar')
        else (Inr (if ia_convert ar' then swap_chunks D data else data), ar'))"

text \<open>Saving and loading an arithmetic object (\<open>CEREAL_SAVE/LOAD_FUNCTION_NAME\<close> for POD types).\<close>

definition save_arith :: "platform \<Rightarrow> arith \<Rightarrow> (out_archive, cereal_exn, unit) smon" where
  "save_arith p a = saveBinary (aty_size (aty_of a)) (mem_repr (plat_le p) a)"

definition load_arith :: "platform \<Rightarrow> aty \<Rightarrow> (in_archive, cereal_exn, arith) smon" where
  "load_arith p t = bindS (loadBinary (aty_size t) (aty_size t)) (\<lambda>bs.
     case arith_of t (mem_val (plat_le p) bs) of Inl e \<Rightarrow> throwS e | Inr a \<Rightarrow> retS a)"

text \<open>Size tags are \<open>size_type = uint64_t\<close>.\<close>

definition save_size :: "platform \<Rightarrow> nat \<Rightarrow> (out_archive, cereal_exn, unit) smon" where
  "save_size p n = save_arith p (A64 (of_nat n))"

definition load_size :: "platform \<Rightarrow> (in_archive, cereal_exn, nat) smon" where
  "load_size p = bindS (load_arith p T64) (\<lambda>a. retS (arith_nat a))"

text \<open>The constructors: the output archive announces its byte order in the first byte; the input
  archive reads it and converts if it differs from its own (the XOR of two \<open>uint8_t\<close>).\<close>

definition bool8 :: "bool \<Rightarrow> 8 word" where
  "bool8 b = (if b then 1 else 0)"

definition PortableBinaryOutputArchive ::
  "platform \<Rightarrow> bool \<Rightarrow> stringstream \<Rightarrow> (cereal_exn + unit) \<times> out_archive" where
  "PortableBinaryOutputArchive p opt_le st =
     save_arith p (A8 (bool8 opt_le)) \<lparr>oa_stream = st, oa_convert = (bool8 (plat_le p) XOR bool8 opt_le \<noteq> 0)\<rparr>"

definition PortableBinaryInputArchive ::
  "platform \<Rightarrow> bool \<Rightarrow> stringstream \<Rightarrow> (cereal_exn + unit) \<times> in_archive" where
  "PortableBinaryInputArchive p opt_le st =
     (case load_arith p T8 \<lparr>ia_stream = st, ia_convert = False\<rparr> of
        (Inl e, ar) \<Rightarrow> (Inl e, ar)
      | (Inr a, ar) \<Rightarrow> (Inr (), ar\<lparr>ia_convert := (bool8 opt_le XOR of_nat (arith_nat a) \<noteq> 0)\<rparr>))"

section \<open>string.hpp, vector.hpp, tuple.hpp\<close>

text \<open>Vectors of arithmetic types other than \<open>bool\<close> are one block of binary data.\<close>

fun block_type :: "cty \<Rightarrow> aty option" where
  "block_type (CArith TBool) = None"
| "block_type (CArith t) = Some t"
| "block_type _ = None"

fun elem_repr :: "bool \<Rightarrow> cval \<Rightarrow> bytes" where
  "elem_repr le (VArith a) = mem_repr le a"
| "elem_repr le _ = []"

fun save :: "platform \<Rightarrow> cval \<Rightarrow> (out_archive, cereal_exn, unit) smon" where
  "save p (VArith a) = save_arith p a"
| "save p (VString s) = bindS (save_size p (length s)) (\<lambda>_. saveBinary 1 s)"
| "save p (VVector t vs) = bindS (save_size p (length vs)) (\<lambda>_.
     case block_type t of
       Some k \<Rightarrow> saveBinary (aty_size k) (concat (map (elem_repr (plat_le p)) vs))
     | None \<Rightarrow> bindS (seqS (map (save p) vs)) (\<lambda>_. retS ()))"
| "save p (VTuple vs) = bindS (seqS (map (save p) vs)) (\<lambda>_. retS ())"

text \<open>The elements of a block that has been loaded into the vector's storage.\<close>

fun block_elems :: "bool \<Rightarrow> aty \<Rightarrow> nat \<Rightarrow> bytes \<Rightarrow> cval list" where
  "block_elems le t 0 bs = []"
| "block_elems le t (Suc n) bs =
     (case arith_of t (mem_val le (take (aty_size t) bs)) of Inr a \<Rightarrow> [VArith a] | Inl _ \<Rightarrow> [])
     @ block_elems le t n (drop (aty_size t) bs)"

fun load :: "platform \<Rightarrow> cty \<Rightarrow> (in_archive, cereal_exn, cval) smon" where
  "load p (CArith t) = bindS (load_arith p t) (\<lambda>a. retS (VArith a))"
| "load p CString = bindS (load_size p) (\<lambda>n. bindS (loadBinary 1 n) (\<lambda>bs. retS (VString bs)))"
| "load p (CVector t) = bindS (load_size p) (\<lambda>n.
     case block_type t of
       Some k \<Rightarrow> bindS (loadBinary (aty_size k) (n * aty_size k))
         (\<lambda>bs. retS (VVector t (block_elems (plat_le p) k n bs)))
     | None \<Rightarrow> bindS (repeatS n (load p t)) (\<lambda>vs. retS (VVector t vs)))"
| "load p (CTuple ts) = bindS (seqS (map (load p) ts)) (\<lambda>vs. retS (VTuple vs))"

section \<open>Well-typed values\<close>

text \<open>The values a C++ object of a type can have; sizes fit the 64-bit size tag.\<close>

fun has_type :: "cty \<Rightarrow> cval \<Rightarrow> bool" where
  "has_type (CArith t) (VArith a) = (aty_of a = t)"
| "has_type CString (VString s) = (length s < 2 ^ 64)"
| "has_type (CVector t) (VVector u vs) = (u = t \<and> length vs < 2 ^ 64 \<and> list_all (has_type t) vs)"
| "has_type (CTuple ts) (VTuple vs) = list_all2 has_type ts vs"
| "has_type _ _ = False"

text \<open>What \<open>T{}\<close> is: a value-initialised object.\<close>

fun arith_zero :: "aty \<Rightarrow> arith" where
  "arith_zero TBool = ABool False"
| "arith_zero T8 = A8 0"
| "arith_zero T16 = A16 0"
| "arith_zero T32 = A32 0"
| "arith_zero T64 = A64 0"

fun default_val :: "cty \<Rightarrow> cval" where
  "default_val (CArith t) = VArith (arith_zero t)"
| "default_val CString = VString []"
| "default_val (CVector t) = VVector t []"
| "default_val (CTuple ts) = VTuple (map default_val ts)"

lemma has_type_default: "has_type t (default_val t)"
proof (induction t)
  case (CArith t)
  then show ?case by (cases t) auto
next
  case (CTuple ts)
  then show ?case by (induction ts) auto
qed auto

section \<open>The reference encoding\<close>

text \<open>The bytes of a value, without the archive's loops: what the savers are proved to write.\<close>

definition enc_size :: "bool \<Rightarrow> nat \<Rightarrow> bytes" where
  "enc_size le n = mem_repr le (A64 (of_nat n))"

fun enc :: "bool \<Rightarrow> cval \<Rightarrow> bytes" where
  "enc le (VArith a) = mem_repr le a"
| "enc le (VString s) = enc_size le (length s) @ s"
| "enc le (VVector t vs) = enc_size le (length vs) @ concat (map (enc le) vs)"
| "enc le (VTuple vs) = concat (map (enc le) vs)"

end
