(* ===== verification/ArchiveRoundtrip.thy ===== *)
theory ArchiveRoundtrip
  imports PortableBinary
begin

text \<open>
  Correctness of the archive of theory PortableBinary: the savers write exactly the
  reference encoding \<open>enc\<close>, in the byte order the header byte announces and whatever the
  machine's own order is; the loaders read it back on any machine.
\<close>

section \<open>Chunks of equal width\<close>

lemma concat_chunk:
  assumes "\<forall>x \<in> set xss. length x = D" "k < length xss"
  shows "take D (drop (k * D) (concat xss)) = xss ! k"
  using assms
proof (induction xss arbitrary: k)
  case Nil
  then show ?case by simp
next
  case (Cons x xss)
  then show ?case
  proof (cases k)
    case 0
    with Cons.prems show ?thesis by simp
  next
    case (Suc m)
    have "drop (D + m * D) (x @ concat xss) = drop (m * D) (concat xss)"
      using Cons.prems(1) by simp
    with Suc Cons show ?thesis by simp
  qed
qed

lemma concat_nth_chunk:
  assumes "\<forall>x \<in> set xss. length x = D" "k < length xss" "r < D"
  shows "concat xss ! (r + k * D) = xss ! k ! r"
proof -
  have len: "length (concat xss) = D * length xss"
    using assms(1) concat_map_const_length [of xss "\<lambda>x. x" D] by simp
  have "k * D + D \<le> D * length xss"
    using assms(2) by (metis Suc_leI add.commute mult.commute mult_Suc mult_le_mono1)
  then have "xss ! k ! r = drop (k * D) (concat xss) ! r"
    using concat_chunk [OF assms(1,2)] assms(3) by (metis nth_take)
  moreover have "k * D \<le> length (concat xss)"
    using len \<open>k * D + D \<le> D * length xss\<close> by linarith
  ultimately show ?thesis
    by (simp only: nth_drop add.commute [of r])
qed

text \<open>The in-place exchange loop reverses a chunk.\<close>

lemma swap_bytes_prefix:
  assumes "k \<le> length xs div 2"
  shows "fold (\<lambda>i d. d[i := d ! (length xs - i - 1), length xs - i - 1 := d ! i]) [0..<k] xs =
    map (\<lambda>i. if i < k \<or> length xs - k \<le> i then xs ! (length xs - i - 1) else xs ! i) [0..<length xs]"
  using assms
proof (induction k)
  case 0
  then show ?case by (auto intro: nth_equalityI)
next
  case (Suc k)
  let ?n = "length xs"
  have IH: "fold (\<lambda>i d. d[i := d ! (?n - i - 1), ?n - i - 1 := d ! i]) [0..<k] xs =
    map (\<lambda>i. if i < k \<or> ?n - k \<le> i then xs ! (?n - i - 1) else xs ! i) [0..<?n]"
    using Suc by simp
  show ?case
    by (rule nth_equalityI) (use IH Suc.prems in \<open>auto simp: nth_list_update\<close>)
qed

lemma swap_bytes_rev: "swap_bytes (length xs) xs = rev xs"
  unfolding swap_bytes_def swap_bytes_prefix [OF order_refl]
proof (rule nth_equalityI)
  fix i
  let ?n = "length xs"
  let ?ys = "map (\<lambda>i. if i < ?n div 2 \<or> ?n - ?n div 2 \<le> i then xs ! (?n - i - 1) else xs ! i) [0..<?n]"
  assume "i < length ?ys"
  then have i: "i < ?n" by simp
  have "i = ?n - i - 1" if "\<not> i < ?n div 2" "\<not> ?n - ?n div 2 \<le> i"
    using that i by presburger
  then show "?ys ! i = rev xs ! i" using i by (auto simp: rev_nth)
qed simp

lemma swap_chunks_concat:
  assumes "\<forall>x \<in> set xss. length x = D" "D > 0"
  shows "swap_chunks D (concat xss) = concat (map rev xss)"
proof -
  have len: "length (concat xss) = D * length xss"
    using assms(1) concat_map_const_length [of xss "\<lambda>x. x" D] by simp
  have "map (\<lambda>k. swap_bytes D (take D (drop (k * D) (concat xss)))) [0..<length xss] = map rev xss"
  proof (rule nth_equalityI)
    fix i assume "i < length (map (\<lambda>k. swap_bytes D (take D (drop (k * D) (concat xss)))) [0..<length xss])"
    then have i: "i < length xss" by simp
    then have "length (xss ! i) = D" using assms(1) by simp
    then show "map (\<lambda>k. swap_bytes D (take D (drop (k * D) (concat xss)))) [0..<length xss] ! i = map rev xss ! i"
      using i concat_chunk [OF assms(1) i] swap_bytes_rev [of "xss ! i"] by simp
  qed simp
  then show ?thesis using len assms(2) by (simp add: swap_chunks_def)
qed

section \<open>Writing\<close>

definition wf_ss :: "stringstream \<Rightarrow> bool" where
  "wf_ss st \<longleftrightarrow> ss_put st \<le> length (ss_buf st)"

definition put :: "bytes \<Rightarrow> stringstream \<Rightarrow> stringstream" where
  "put bs st = snd (sputn bs st)"

lemma sputn_put: "sputn bs st = (length bs, put bs st)"
  by (simp add: put_def sputn_def)

lemma wf_put [simp]: "wf_ss st \<Longrightarrow> wf_ss (put bs st)"
  by (auto simp: wf_ss_def put_def sputn_def)

lemma put_put [simp]:
  assumes "wf_ss st" shows "put ys (put xs st) = put (xs @ ys) st"
  using assms by (simp add: wf_ss_def put_def sputn_def min_absorb2 ac_simps)

lemma put_Nil [simp]: "wf_ss st \<Longrightarrow> put [] st = st"
  by (simp add: put_def sputn_def)

lemma sputn_step:
  "(\<lambda>j (w, s). let (k, s') = sputn [f j] s in (w + k, s')) = (\<lambda>j (w, s). (Suc w, put [f j] s))"
  by (simp add: fun_eq_iff sputn_put)

lemma fold_put_singles:
  assumes "wf_ss st"
  shows "fold (\<lambda>j (w, s). (Suc w, put [f j] s)) js (w, st) = (w + length js, put (map f js) st)"
  using assms by (induction js arbitrary: w st) auto

lemma rev_by_index: "map (\<lambda>j. xs ! (length xs - j - 1)) [0..<length xs] = rev xs"
  by (rule nth_equalityI) (auto simp: rev_nth)

text \<open>The converting writer writes every chunk backwards.\<close>

lemma save_swapped_prefix:
  assumes "\<forall>x \<in> set xss. length x = D" "wf_ss st" "m \<le> length xss"
  shows "fold (\<lambda>i. fold (\<lambda>j (w, s). (Suc w, put [concat xss ! (D - j - 1 + i)] s)) [0..<D])
       (map (\<lambda>k. k * D) [0..<m]) (0, st) = (D * m, put (concat (map rev (take m xss))) st)"
  using assms(3)
proof (induction m)
  case 0
  then show ?case using assms(2) by simp
next
  case (Suc m)
  have x: "length (xss ! m) = D" using Suc.prems assms(1) by simp
  have "concat xss ! (D - j - 1 + m * D) = xss ! m ! (D - j - 1)" if "j < D" for j
    using that Suc.prems by (intro concat_nth_chunk [OF assms(1)]) auto
  then have "map (\<lambda>j. concat xss ! (D - j - 1 + m * D)) [0..<D] = rev (xss ! m)"
    using rev_by_index [of "xss ! m"] x by (metis (no_types, lifting) atLeastLessThan_iff map_eq_conv set_upt)
  moreover have "take (Suc m) xss = take m xss @ [xss ! m]"
    using Suc.prems by (simp add: take_Suc_conv_app_nth)
  ultimately show ?case
    using Suc x assms(2) by (simp add: fold_put_singles)
qed

lemma save_swapped_chunks:
  assumes "\<forall>x \<in> set xss. length x = D" "wf_ss st" "D > 0"
  shows "save_swapped D (concat xss) st = (D * length xss, put (concat (map rev xss)) st)"
proof -
  have len: "length (concat xss) = D * length xss"
    using assms(1) concat_map_const_length [of xss "\<lambda>x. x" D] by simp
  have n: "(length (concat xss) + D - 1) div D = length xss"
    unfolding len by (rule div_nat_eqI) (use assms(3) in auto)
  show ?thesis
    unfolding save_swapped_def n sputn_step using save_swapped_prefix [OF assms(1,2) order_refl] by simp
qed

section \<open>The savers write the reference encoding\<close>

definition oput :: "bytes \<Rightarrow> out_archive \<Rightarrow> out_archive" where
  "oput bs ar = ar\<lparr>oa_stream := put bs (oa_stream ar)\<rparr>"

definition wf_out :: "out_archive \<Rightarrow> bool" where
  "wf_out ar \<longleftrightarrow> wf_ss (oa_stream ar)"

lemma wf_oput [simp]: "wf_out ar \<Longrightarrow> wf_out (oput bs ar)"
  by (simp add: wf_out_def oput_def)

lemma oput_oput [simp]: "wf_out ar \<Longrightarrow> oput ys (oput xs ar) = oput (xs @ ys) ar"
  by (simp add: wf_out_def oput_def)

lemma oput_convert [simp]: "oa_convert (oput bs ar) = oa_convert ar"
  by (simp add: oput_def)

lemma length_mem_repr [simp, wire_simps]: "length (mem_repr le a) = aty_size (aty_of a)"
  by (simp add: mem_repr_def Let_def)

lemma rev_mem_repr: "rev (mem_repr le a) = mem_repr (\<not> le) a"
  by (simp add: mem_repr_def Let_def)

lemma aty_size_pos [simp]: "0 < aty_size t"
  by (cases t) auto

lemma saveBinary_chunks:
  assumes "wf_out ar" "\<forall>x \<in> set xss. length x = D" "D > 0"
  shows "saveBinary D (concat xss) ar =
    (Inr (), oput (concat (if oa_convert ar then map rev xss else xss)) ar)"
proof -
  have len: "length (concat xss) = D * length xss"
    using assms(2) concat_map_const_length [of xss "\<lambda>x. x" D] by simp
  from assms(1) have w: "wf_ss (oa_stream ar)" by (simp add: wf_out_def)
  show ?thesis
  proof (cases "oa_convert ar")
    case True
    then show ?thesis
      using save_swapped_chunks [OF assms(2) w assms(3)] len
      by (simp add: saveBinary_def oput_def Let_def)
  next
    case False
    then show ?thesis by (simp add: saveBinary_def oput_def Let_def sputn_put)
  qed
qed

text \<open>A writer announcing byte order \<open>w\<close> on machine \<open>p\<close> converts exactly when they differ.\<close>

definition writes_order :: "platform \<Rightarrow> bool \<Rightarrow> out_archive \<Rightarrow> bool" where
  "writes_order p w ar \<longleftrightarrow> wf_out ar \<and> oa_convert ar = (plat_le p \<noteq> w)"

lemma writes_order_oput [simp]: "writes_order p w ar \<Longrightarrow> writes_order p w (oput bs ar)"
  by (simp add: writes_order_def)

lemma writes_order_wf: "writes_order p w ar \<Longrightarrow> wf_out ar"
  by (simp add: writes_order_def)

lemma save_arith_enc:
  assumes "writes_order p w ar"
  shows "save_arith p a ar = (Inr (), oput (mem_repr w a) ar)"
  using saveBinary_chunks [of ar "[mem_repr (plat_le p) a]" "aty_size (aty_of a)"] assms
  by (cases w; cases "plat_le p") (auto simp: save_arith_def writes_order_def rev_mem_repr)

lemma save_size_enc:
  "writes_order p w ar \<Longrightarrow> save_size p n ar = (Inr (), oput (enc_size w n) ar)"
  by (simp add: save_size_def save_arith_enc enc_size_def)

lemma save_string_enc:
  assumes "wf_out ar"
  shows "saveBinary 1 s ar = (Inr (), oput s ar)"
proof -
  have "concat (map rev (map (\<lambda>c. [c]) s)) = s" "concat (map (\<lambda>c. [c]) s) = s"
    by (induction s) auto
  then show ?thesis
    using saveBinary_chunks [of ar "map (\<lambda>c. [c]) s" 1] assms by auto
qed

lemma block_type_elems:
  assumes "block_type t = Some k" "list_all (has_type t) vs"
  shows "concat (map (elem_repr le) vs) = concat (map (enc le) vs)"
    and "\<forall>x \<in> set (map (elem_repr le) vs). length x = aty_size k"
    and "concat (map (rev \<circ> elem_repr le) vs) = concat (map (enc (\<not> le)) vs)"
proof -
  have t: "t = CArith k" using assms(1) by (cases t rule: block_type.cases) auto
  have v: "\<exists>a. v = VArith a \<and> aty_of a = k" if "v \<in> set vs" for v
  proof -
    have "has_type (CArith k) v" using that assms(2) unfolding t by (auto simp: list_all_iff)
    then show ?thesis by (cases v) auto
  qed
  show "concat (map (elem_repr le) vs) = concat (map (enc le) vs)"
    using v by (intro arg_cong [where f = concat] map_cong) (auto dest: v)
  show "\<forall>x \<in> set (map (elem_repr le) vs). length x = aty_size k"
    using v by fastforce
  show "concat (map (rev \<circ> elem_repr le) vs) = concat (map (enc (\<not> le)) vs)"
    using v by (intro arg_cong [where f = concat] map_cong) (fastforce simp: rev_mem_repr)+
qed

lemma save_seq_enc:
  assumes "\<And>v ar. v \<in> set vs \<Longrightarrow> writes_order p w ar \<Longrightarrow> save p v ar = (Inr (), oput (enc w v) ar)"
    and "writes_order p w ar"
  shows "bindS (seqS (map (save p) vs)) (\<lambda>_. retS ()) ar = (Inr (), oput (concat (map (enc w) vs)) ar)"
proof -
  have "\<exists>us. seqS (map (save p) vs) ar = (Inr us, oput (concat (map (enc w) vs)) ar)"
    using assms
  proof (induction vs arbitrary: ar)
    case Nil
    then show ?case by (simp add: writes_order_def wf_out_def oput_def)
  next
    case (Cons v vs)
    have s: "save p v ar = (Inr (), oput (enc w v) ar)" using Cons.prems by simp
    have "writes_order p w (oput (enc w v) ar)" using Cons.prems(2) by simp
    then obtain us where us: "seqS (map (save p) vs) (oput (enc w v) ar) =
        (Inr us, oput (concat (map (enc w) vs)) (oput (enc w v) ar))"
      using Cons.IH Cons.prems(1) by (metis list.set_intros(2))
    show ?case
      using Cons.prems(2) by (simp add: s us mon_simps writes_order_wf)
  qed
  then show ?thesis by (auto simp: mon_simps)
qed

lemma save_enc:
  assumes "has_type t v" "writes_order p w ar"
  shows "save p v ar = (Inr (), oput (enc w v) ar)"
  using assms
proof (induction v arbitrary: t ar)
  case (VArith a)
  then show ?case by (simp add: save_arith_enc)
next
  case (VString s)
  then show ?case
    by (simp add: bindS_Inr [OF save_size_enc] save_string_enc [unfolded One_nat_def] writes_order_wf)
next
  case (VVector u vs)
  then obtain "t = CVector u" and vs: "list_all (has_type u) vs"
    by (cases t) auto
  let ?ar = "oput (enc_size w (length vs)) ar"
  have w: "writes_order p w ?ar" using VVector.prems by simp
  show ?case
  proof (cases "block_type u")
    case (Some k)
    note b = block_type_elems [OF Some vs, of "plat_le p"]
    have "saveBinary (aty_size k) (concat (map (elem_repr (plat_le p)) vs)) ?ar
        = (Inr (), oput (concat (map (enc w) vs)) ?ar)"
      using saveBinary_chunks [OF writes_order_wf [OF w] b(2)] w b
      by (cases w; cases "plat_le p") (auto simp: writes_order_def)
    then show ?thesis
      using Some VVector.prems by (simp add: bindS_Inr [OF save_size_enc] writes_order_wf)
  next
    case None
    have "bindS (seqS (map (save p) vs)) (\<lambda>_. retS ()) ?ar = (Inr (), oput (concat (map (enc w) vs)) ?ar)"
      by (rule save_seq_enc) (use VVector.IH vs w in \<open>auto simp: list_all_iff\<close>)
    then show ?thesis
      using None VVector.prems by (simp add: bindS_Inr [OF save_size_enc] writes_order_wf)
  qed
next
  case (VTuple vs)
  then obtain ts where ts: "list_all2 has_type ts vs" by (cases t) auto
  have ty: "\<exists>t. has_type t v" if "v \<in> set vs" for v
    using that ts by (metis in_set_conv_nth list_all2_conv_all_nth)
  show ?case
    unfolding save.simps enc.simps by (rule save_seq_enc) (use VTuple ty in blast)+
qed

section \<open>The loaders read it back\<close>

text \<open>The archive stands before the bytes \<open>bs\<close>; \<open>iget\<close> moves it over them.\<close>

definition ahead :: "in_archive \<Rightarrow> bytes" where
  "ahead ar = drop (ss_get (ia_stream ar)) (ss_buf (ia_stream ar))"

definition iget :: "nat \<Rightarrow> in_archive \<Rightarrow> in_archive" where
  "iget n ar = ar\<lparr>ia_stream := (ia_stream ar)\<lparr>ss_get := ss_get (ia_stream ar) + n\<rparr>\<rparr>"

lemma ahead_iget [simp]: "ahead (iget n ar) = drop n (ahead ar)"
  by (simp add: ahead_def iget_def ac_simps)

lemma iget_iget [simp]: "iget n (iget m ar) = iget (m + n) ar"
  by (simp add: iget_def ac_simps)

lemma iget_0 [simp]: "iget 0 ar = ar"
  by (simp add: iget_def)

lemma iget_convert [simp]: "ia_convert (iget n ar) = ia_convert ar"
  by (simp add: iget_def)

lemma loadBinary_run:
  "loadBinary D n ar = (if n \<le> length (ahead ar)
     then (Inr (if ia_convert ar then swap_chunks D (take n (ahead ar)) else take n (ahead ar)), iget n ar)
     else (Inl (Failed_To_Read n (length (ahead ar))), iget (length (ahead ar)) ar))"
  by (simp add: loadBinary_def sgetn_def Let_def ahead_def iget_def min_def)

lemma loadBinary_chunks:
  assumes "ahead ar = concat xss @ rest" "\<forall>x \<in> set xss. length x = D" "D > 0" "n = D * length xss"
  shows "loadBinary D n ar = (Inr (concat (if ia_convert ar then map rev xss else xss)), iget n ar)"
proof -
  have len: "length (concat xss) = D * length xss"
    using assms(2) concat_map_const_length [of xss "\<lambda>x. x" D] by simp
  then have "take n (ahead ar) = concat xss" "n \<le> length (ahead ar)"
    unfolding assms(1,4) by auto
  then show ?thesis
    using swap_chunks_concat [OF assms(2,3)] by (simp add: loadBinary_run)
qed

definition reads_order :: "platform \<Rightarrow> bool \<Rightarrow> in_archive \<Rightarrow> bool" where
  "reads_order p w ar \<longleftrightarrow> ia_convert ar = (plat_le p \<noteq> w)"

lemma reads_order_iget [simp]: "reads_order p w (iget n ar) = reads_order p w ar"
  by (simp add: reads_order_def)

lemma arith_nat_bound: "arith_nat a < 256 ^ aty_size (aty_of a)"
proof (cases a)
  case (A8 x)
  then show ?thesis using unsigned_less [where 'a = nat, of x] by simp
next
  case (A16 x)
  then show ?thesis using unsigned_less [where 'a = nat, of x] by simp
next
  case (A32 x)
  then show ?thesis using unsigned_less [where 'a = nat, of x] by simp
next
  case (A64 x)
  then show ?thesis using unsigned_less [where 'a = nat, of x] by simp
qed simp

lemma mem_val_repr [simp, wire_simps]: "mem_val le (mem_repr le a) = arith_nat a"
  using arith_nat_bound [of a]
  by (cases le) (auto simp: mem_val_def mem_repr_def Let_def le_val_le_bytes)

lemma arith_of_nat [simp]: "arith_of (aty_of a) (arith_nat a) = Inr a"
  by (cases a) auto

lemma load_arith_enc:
  assumes "ahead ar = mem_repr w a @ rest" "reads_order p w ar"
  shows "load_arith p (aty_of a) ar = (Inr a, iget (aty_size (aty_of a)) ar)"
proof -
  have "loadBinary (aty_size (aty_of a)) (aty_size (aty_of a)) ar =
      (Inr (mem_repr (plat_le p) a), iget (aty_size (aty_of a)) ar)"
    using loadBinary_chunks [of ar "[mem_repr w a]" rest "aty_size (aty_of a)" "aty_size (aty_of a)"] assms
    by (cases w; cases "plat_le p") (auto simp: rev_mem_repr reads_order_def)
  then show ?thesis by (simp add: load_arith_def bindS_Inr)
qed

lemma length_enc_size [simp, wire_simps]: "length (enc_size w n) = 8"
  by (simp add: enc_size_def)

lemma load_size_enc:
  assumes "ahead ar = enc_size w n @ rest" "reads_order p w ar" "n < 2 ^ 64"
  shows "load_size p ar = (Inr n, iget 8 ar)"
proof -
  have "load_arith p T64 ar = (Inr (A64 (of_nat n)), iget 8 ar)"
    using load_arith_enc [of ar w "A64 (of_nat n)"] assms(1,2) by (simp add: enc_size_def)
  then show ?thesis
    using assms(3) by (simp add: load_size_def bindS_Inr unat_of_nat)
qed

lemma load_string_enc:
  assumes "ahead ar = s @ rest"
  shows "loadBinary 1 (length s) ar = (Inr s, iget (length s) ar)"
proof -
  have c: "concat (map (\<lambda>c. [c]) s) = s" "concat (map rev (map (\<lambda>c. [c]) s)) = s"
    by (induction s) auto
  show ?thesis
    using loadBinary_chunks [of ar "map (\<lambda>c. [c]) s" rest 1 "length s"] assms c by auto
qed

lemma block_elems_enc:
  assumes "list_all (has_type (CArith k)) vs"
  shows "block_elems le k (length vs) (concat (map (enc le) vs) @ rest) = vs"
  using assms
proof (induction vs)
  case (Cons v vs)
  then obtain a where v: "v = VArith a" "aty_of a = k" by (cases v) auto
  then show ?case using Cons by (auto simp: v(2) [symmetric])
qed simp

lemma load_seq_enc:
  assumes "\<And>v ar rest. v \<in> set vs \<Longrightarrow> has_type (ty v) v \<Longrightarrow> reads_order p w ar \<Longrightarrow> ahead ar = enc w v @ rest
      \<Longrightarrow> load p (ty v) ar = (Inr v, iget (length (enc w v)) ar)"
    and "\<forall>v \<in> set vs. has_type (ty v) v" "reads_order p w ar" "ahead ar = concat (map (enc w) vs) @ rest"
  shows "seqS (map (\<lambda>v. load p (ty v)) vs) ar = (Inr vs, iget (length (concat (map (enc w) vs))) ar)"
  using assms
proof (induction vs arbitrary: ar)
  case (Cons v vs)
  have l: "load p (ty v) ar = (Inr v, iget (length (enc w v)) ar)"
    using Cons.prems by simp
  have "seqS (map (\<lambda>v. load p (ty v)) vs) (iget (length (enc w v)) ar) =
      (Inr vs, iget (length (concat (map (enc w) vs))) (iget (length (enc w v)) ar))"
    by (rule Cons.IH) (use Cons.prems in auto)
  then show ?case by (simp add: bindS_Inr l)
qed simp

lemma repeatS_replicate: "repeatS n m = seqS (replicate n m)"
  by (induction n) auto

text \<open>Reading a well-typed encoding gives the value back, on any machine, and stops right
  after it.\<close>

lemma load_enc:
  assumes "has_type t v" "reads_order p w ar" "ahead ar = enc w v @ rest"
  shows "load p t ar = (Inr v, iget (length (enc w v)) ar)"
  using assms
proof (induction v arbitrary: t ar rest)
  case (VArith a)
  then have t: "t = CArith (aty_of a)" by (cases t) auto
  show ?case using VArith.prems by (simp add: t bindS_Inr [OF load_arith_enc])
next
  case (VString s)
  then have t: "t = CString" by (cases t) auto
  have sz: "load_size p ar = (Inr (length s), iget 8 ar)"
    using VString.prems t by (intro load_size_enc [of _ w _ "s @ rest"]) auto
  have "loadBinary 1 (length s) (iget 8 ar) = (Inr s, iget (length s) (iget 8 ar))"
    using VString.prems by (intro load_string_enc [of _ _ rest]) simp
  then show ?case by (simp add: t bindS_Inr sz)
next
  case (VVector u vs)
  then have t: "t = CVector u" and vs: "list_all (has_type u) vs" and n: "length vs < 2 ^ 64"
    by (cases t; simp)+
  have sz: "load_size p ar = (Inr (length vs), iget 8 ar)"
    using VVector.prems n by (intro load_size_enc [of _ w _ "concat (map (enc w) vs) @ rest"]) auto
  have ahead: "ahead (iget 8 ar) = concat (map (enc w) vs) @ rest" using VVector.prems by simp
  show ?case
  proof (cases "block_type u")
    case (Some k)
    then have u: "u = CArith k" by (cases u rule: block_type.cases) auto
    note b = block_type_elems [OF Some vs, of w]
    have "loadBinary (aty_size k) (length vs * aty_size k) (iget 8 ar) =
        (Inr (concat (map (enc (plat_le p)) vs)), iget (length vs * aty_size k) (iget 8 ar))"
      using loadBinary_chunks [of "iget 8 ar" "map (elem_repr w) vs" rest "aty_size k" "length vs * aty_size k"]
        ahead b VVector.prems block_type_elems [OF Some vs, of "plat_le p"]
      by (cases w; cases "plat_le p") (auto simp: reads_order_def)
    moreover have "length (concat (map (enc w) vs)) = length vs * aty_size k"
      using b(1,2) concat_map_const_length [of vs "elem_repr w" "aty_size k"] by (simp add: mult.commute)
    moreover have "block_elems (plat_le p) k (length vs) (concat (map (enc (plat_le p)) vs)) = vs"
      using block_elems_enc [of k vs "plat_le p" "[]"] vs u by simp
    ultimately show ?thesis using Some by (simp add: t bindS_Inr sz)
  next
    case None
    have "seqS (map (\<lambda>v. load p u) vs) (iget 8 ar) =
        (Inr vs, iget (length (concat (map (enc w) vs))) (iget 8 ar))"
      by (rule load_seq_enc [where ty = "\<lambda>_. u" and rest = rest])
        (use VVector.IH vs ahead VVector.prems in \<open>auto simp: list_all_iff\<close>)
    then show ?thesis
      using None by (simp add: t bindS_Inr sz repeatS_replicate map_replicate_const)
  qed
next
  case (VTuple vs)
  then obtain ts where t: "t = CTuple ts" and ts: "list_all2 has_type ts vs" by (cases t) auto
  have "seqS (map (load p) ts) ar = (Inr vs, iget (length (concat (map (enc w) vs))) ar)"
    using VTuple.IH ts VTuple.prems(2,3) [unfolded t]
  proof (induction vs arbitrary: ts ar)
    case (Cons v vs)
    then obtain t ts' where ts: "ts = t # ts'" "has_type t v" "list_all2 has_type ts' vs"
      by (auto simp: list_all2_Cons2)
    have l: "load p t ar = (Inr v, iget (length (enc w v)) ar)"
      using Cons.prems ts by simp
    have "seqS (map (load p) ts') (iget (length (enc w v)) ar) =
        (Inr vs, iget (length (concat (map (enc w) vs))) (iget (length (enc w v)) ar))"
      by (rule Cons.IH) (use Cons.prems ts in auto)
    then show ?case by (simp add: ts(1) bindS_Inr l)
  qed simp
  then show ?case by (simp add: t bindS_Inr)
qed

section \<open>A truncated message never decodes\<close>

lemma loadBinary_short:
  "length (ahead ar) < n \<Longrightarrow> \<exists>e ar'. loadBinary D n ar = (Inl e, ar')"
  by (simp add: loadBinary_run)

lemma load_arith_short:
  "length (ahead ar) < aty_size t \<Longrightarrow> \<exists>e ar'. load_arith p t ar = (Inl e, ar')"
  using loadBinary_short [of ar "aty_size t" "aty_size t"] by (auto simp: load_arith_def bindS_def)

lemma load_size_short:
  "length (ahead ar) < 8 \<Longrightarrow> \<exists>e ar'. load_size p ar = (Inl e, ar')"
  using load_arith_short [of ar T64 p] by (auto simp: load_size_def bindS_def)

lemma bindS_fails: "\<exists>e s'. m s = (Inl e, s') \<Longrightarrow> \<exists>e s'. bindS m f s = (Inl e, s')"
  by (auto simp: bindS_def)

text \<open>\<open>cut w k v ar\<close>: the archive stands before the first \<open>k\<close> bytes of the encoding of \<open>v\<close>, and nothing
  follows.\<close>

lemma load_seq_short:
  assumes "\<And>v t ar k. v \<in> set vs \<Longrightarrow> has_type t v \<Longrightarrow> reads_order p w ar \<Longrightarrow>
      ahead ar = take k (enc w v) \<Longrightarrow> k < length (enc w v) \<Longrightarrow> \<exists>e ar'. load p t ar = (Inl e, ar')"
    and "list_all2 has_type ts vs" "reads_order p w ar"
    and "ahead ar = take k (concat (map (enc w) vs))" "k < length (concat (map (enc w) vs))"
  shows "\<exists>e ar'. seqS (map (load p) ts) ar = (Inl e, ar')"
  using assms
proof (induction vs arbitrary: ts ar k)
  case (Cons v vs)
  then obtain t ts' where ts: "ts = t # ts'" "has_type t v" "list_all2 has_type ts' vs"
    by (auto simp: list_all2_Cons2)
  show ?case
  proof (cases "k < length (enc w v)")
    case True
    then have "\<exists>e ar'. load p t ar = (Inl e, ar')"
      using Cons.prems ts by (intro Cons.prems(1) [of v t ar k]) auto
    then show ?thesis by (auto simp: ts(1) intro: bindS_fails)
  next
    case False
    let ?k = "k - length (enc w v)"
    have a: "ahead ar = enc w v @ take ?k (concat (map (enc w) vs))"
      using False Cons.prems(4) by simp
    then have l: "load p t ar = (Inr v, iget (length (enc w v)) ar)"
      using ts(2) Cons.prems(3) by (intro load_enc)
    have "\<exists>e ar'. seqS (map (load p) ts') (iget (length (enc w v)) ar) = (Inl e, ar')"
    proof (rule Cons.IH [of ts' _ ?k])
      fix v' t' ar' k'
      assume "v' \<in> set vs" "has_type t' v'" "reads_order p w ar'" "ahead ar' = take k' (enc w v')"
        "k' < length (enc w v')"
      then show "\<exists>e ar''. load p t' ar' = (Inl e, ar'')"
        using Cons.prems(1) by (meson list.set_intros(2))
    qed (use Cons.prems ts a False in auto)
    then show ?thesis by (auto simp: ts(1) bindS_Inr l bindS_Inl)
  qed
qed simp

lemma load_short:
  assumes "has_type t v" "reads_order p w ar" "ahead ar = take k (enc w v)" "k < length (enc w v)"
  shows "\<exists>e ar'. load p t ar = (Inl e, ar')"
  using assms
proof (induction v arbitrary: t ar k)
  case (VArith a)
  then have t: "t = CArith (aty_of a)" by (cases t) auto
  show ?case unfolding t load.simps
    by (rule bindS_fails [OF load_arith_short]) (use VArith.prems in simp)
next
  case (VString s)
  then have t: "t = CString" and n: "length s < 2 ^ 64" by (cases t; simp)+
  show ?case
  proof (cases "k < 8")
    case True
    then show ?thesis unfolding t load.simps
      by (intro bindS_fails load_size_short) (use VString.prems in simp)
  next
    case False
    then have "load_size p ar = (Inr (length s), iget 8 ar)"
      using VString.prems n by (intro load_size_enc [of _ w _ "take (k - 8) s"]) auto
    moreover have "\<exists>e ar'. loadBinary 1 (length s) (iget 8 ar) = (Inl e, ar')"
      by (rule loadBinary_short) (use VString.prems False in auto)
    ultimately show ?thesis unfolding t load.simps by (auto simp: bindS_Inr intro: bindS_fails)
  qed
next
  case (VVector u vs)
  then have t: "t = CVector u" and vs: "list_all (has_type u) vs" and n: "length vs < 2 ^ 64"
    by (cases t; simp)+
  show ?case
  proof (cases "k < 8")
    case True
    then show ?thesis unfolding t load.simps
      by (intro bindS_fails load_size_short) (use VVector.prems in simp)
  next
    case False
    let ?ar = "iget 8 ar" let ?k = "k - 8"
    have sz: "load_size p ar = (Inr (length vs), ?ar)"
      using VVector.prems n False
      by (intro load_size_enc [of _ w _ "take ?k (concat (map (enc w) vs))"]) auto
    have a: "ahead ?ar = take ?k (concat (map (enc w) vs))" "?k < length (concat (map (enc w) vs))"
      using VVector.prems False by auto
    show ?thesis
    proof (cases "block_type u")
      case (Some b)
      note be = block_type_elems [OF Some vs, of w]
      have "length (concat (map (enc w) vs)) = length vs * aty_size b"
        using be(1,2) concat_map_const_length [of vs "elem_repr w" "aty_size b"] by (simp add: mult.commute)
      then have "\<exists>e ar'. loadBinary (aty_size b) (length vs * aty_size b) ?ar = (Inl e, ar')"
        by (intro loadBinary_short) (use a in simp)
      then show ?thesis using Some unfolding t load.simps by (auto simp: bindS_Inr sz intro: bindS_fails)
    next
      case None
      have "list_all2 has_type (replicate (length vs) u) vs"
        using vs by (simp add: list_all2_conv_all_nth list_all_length)
      then have "\<exists>e ar'. seqS (map (load p) (replicate (length vs) u)) ?ar = (Inl e, ar')"
        by (rule load_seq_short [rotated, of _ _ _ w _ ?k]) (use a VVector in auto)
      then show ?thesis
        using None unfolding t load.simps by (auto simp: bindS_Inr sz repeatS_replicate intro: bindS_fails)
    qed
  qed
next
  case (VTuple vs)
  then obtain ts where t: "t = CTuple ts" and ts: "list_all2 has_type ts vs" by (cases t) auto
  show ?case unfolding t load.simps
    by (intro bindS_fails, rule load_seq_short [OF _ ts, of p w _ k]) (use VTuple in auto)
qed

end
