(* ===== verification/FunctionSerializer.thy ===== *)
theory FunctionSerializer
  imports ArchiveRoundtrip
begin

text \<open>
  \<open>include/tmss/serializer/FunctionSerializer.hpp\<close>: a serializer owns one string stream and
  packs a function name and its arguments into one message. The member stream is the state;
  a cereal exception leaves it as the throw left it (step 3, the reset, is skipped). The
  contract that the RPC layer relies on is the locale \<open>serializer_contract\<close>, interpreted
  below on these operations.
\<close>

section \<open>The operations\<close>

definition Serialize ::
  "platform \<Rightarrow> string \<Rightarrow> cval list \<Rightarrow> (stringstream, cereal_exn, bytes) smon" where
  "Serialize p func args = (\<lambda>ss.
     case PortableBinaryOutputArchive p (plat_le p) ss of
       (Inl e, archive) \<Rightarrow> (Inl e, oa_stream archive)
     | (Inr _, archive) \<Rightarrow>
        (case seqS (map (save p) (VString func # args)) archive of
           (Inl e, archive') \<Rightarrow> (Inl e, oa_stream archive')
         | (Inr _, archive') \<Rightarrow> (Inr (ss_str (oa_stream archive')), ss_set_str [])))"

fun string_of_cval :: "cval \<Rightarrow> string" where
  "string_of_cval (VString s) = s"
| "string_of_cval _ = []"

definition Deserialize ::
  "platform \<Rightarrow> bytes \<Rightarrow> cty list \<Rightarrow> (stringstream, cereal_exn, string \<times> cval list) smon" where
  "Deserialize p data ts = (\<lambda>ss.
     case PortableBinaryInputArchive p (plat_le p) (ss_set_str data) of
       (Inl e, archive) \<Rightarrow> (Inl e, ia_stream archive)
     | (Inr _, archive) \<Rightarrow>
        (case bindS (load p CString) (\<lambda>f. bindS (seqS (map (load p) ts)) (\<lambda>vs. retS (f, vs))) archive of
           (Inl e, archive') \<Rightarrow> (Inl e, ia_stream archive')
         | (Inr (f, vs), archive') \<Rightarrow> (Inr (string_of_cval f, vs), ss_set_str [])))"

section \<open>The message format\<close>

definition frame :: "bool \<Rightarrow> string \<Rightarrow> cval list \<Rightarrow> bytes" where
  "frame w func args = mem_repr w (A8 (bool8 w)) @ enc w (VString func) @ concat (map (enc w) args)"

definition idle :: "stringstream \<Rightarrow> bool" where
  "idle ss \<longleftrightarrow> ss_put ss = 0"

definition wf_call :: "string \<Rightarrow> cty list \<Rightarrow> cval list \<Rightarrow> bool" where
  "wf_call func ts args \<longleftrightarrow> length func < 2 ^ 64 \<and> list_all2 has_type ts args"

lemma frame_nonempty [simp]: "frame w func args \<noteq> []"
  using length_mem_repr [of w "A8 (bool8 w)"] unfolding frame_def by force

lemma idle_reset [simp]: "idle (ss_set_str s)"
  by (simp add: idle_def ss_set_str_def)

lemma put_idle: "idle ss \<Longrightarrow> ss_buf (put bs ss) = bs @ drop (length bs) (ss_buf ss)"
  by (simp add: idle_def put_def sputn_def)

lemma save_seq_frame:
  assumes "list_all2 has_type ts vs" "writes_order p w ar"
  shows "\<exists>us. seqS (map (save p) vs) ar = (Inr us, oput (concat (map (enc w) vs)) ar)"
proof -
  have "bindS (seqS (map (save p) vs)) (\<lambda>_. retS ()) ar = (Inr (), oput (concat (map (enc w) vs)) ar)"
  proof (rule save_seq_enc)
    fix v ar assume "v \<in> set vs" "writes_order p w ar"
    then show "save p v ar = (Inr (), oput (enc w v) ar)"
      using assms(1) by (metis in_set_conv_nth list_all2_conv_all_nth save_enc)
  qed (rule assms(2))
  then show ?thesis by (auto elim: bindS_eq_Inr)
qed

text \<open>The message is the frame, followed by whatever an aborted earlier call left in the stream.\<close>

lemma Serialize_frame:
  assumes "idle ss" "wf_call func ts args"
  shows "Serialize p func args ss =
    (Inr (frame (plat_le p) func args @ drop (length (frame (plat_le p) func args)) (ss_buf ss)), ss_set_str [])"
proof -
  let ?w = "plat_le p"
  let ?ar = "\<lparr>oa_stream = ss, oa_convert = False\<rparr>"
  have w: "writes_order p ?w ?ar"
    using assms(1) by (simp add: writes_order_def wf_out_def wf_ss_def idle_def)
  have o1: "PortableBinaryOutputArchive p ?w ss = (Inr (), oput (mem_repr ?w (A8 (bool8 ?w))) ?ar)"
    using save_arith_enc [OF w] by (simp add: PortableBinaryOutputArchive_def)
  let ?ar1 = "oput (mem_repr ?w (A8 (bool8 ?w))) ?ar"
  have "list_all2 has_type (CString # ts) (VString func # args)"
    using assms(2) by (simp add: wf_call_def)
  then obtain us where
    "seqS (map (save p) (VString func # args)) ?ar1 = (Inr us, oput (concat (map (enc ?w) (VString func # args))) ?ar1)"
    using save_seq_frame w writes_order_oput by blast
  moreover have "oput (concat (map (enc ?w) (VString func # args))) ?ar1 = oput (frame ?w func args) ?ar"
    using writes_order_wf [OF w] by (simp add: frame_def)
  moreover have "ss_str (oa_stream (oput (frame ?w func args) ?ar)) =
      frame ?w func args @ drop (length (frame ?w func args)) (ss_buf ss)"
    using assms(1) by (simp add: oput_def ss_str_def put_idle)
  ultimately show ?thesis unfolding Serialize_def o1 by simp
qed

lemma bool8_xor: "(bool8 a XOR bool8 b \<noteq> 0) = (a \<noteq> b)"
  by (simp add: bool8_def)

lemma input_archive_frame:
  "\<exists>ar. PortableBinaryInputArchive q (plat_le q) (ss_set_str (mem_repr w (A8 (bool8 w)) @ rest)) = (Inr (), ar)
     \<and> reads_order q w ar \<and> ahead ar = rest"
proof -
  let ?ar = "\<lparr>ia_stream = ss_set_str (mem_repr w (A8 (bool8 w)) @ rest), ia_convert = False\<rparr>"
  have "mem_repr w (A8 (bool8 w)) = mem_repr (plat_le q) (A8 (bool8 w))"
    by (simp add: mem_repr_def Let_def)
  then have a: "ahead ?ar = mem_repr (plat_le q) (A8 (bool8 w)) @ rest"
    by (simp add: ahead_def ss_set_str_def)
  have l: "load_arith q T8 ?ar = (Inr (A8 (bool8 w)), iget 1 ?ar)"
    using load_arith_enc [OF a, of q] by (simp add: reads_order_def)
  have r: "ahead (iget 1 ?ar) = rest" using a by simp
  have n: "of_nat (arith_nat (A8 (bool8 w))) = bool8 w" by simp
  show ?thesis
    unfolding PortableBinaryInputArchive_def l
    using r by (simp add: reads_order_def bool8_xor ahead_def)
qed

lemma Deserialize_frame:
  assumes "wf_call func ts args"
  shows "Deserialize q (frame w func args @ junk) ts ss = (Inr (func, args), ss_set_str [])"
proof -
  obtain ar where ar: "PortableBinaryInputArchive q (plat_le q) (ss_set_str (frame w func args @ junk)) = (Inr (), ar)"
    "reads_order q w ar" "ahead ar = enc w (VString func) @ concat (map (enc w) args) @ junk"
    using input_archive_frame [of q w "enc w (VString func) @ concat (map (enc w) args) @ junk"]
    by (auto simp: frame_def)
  have f: "load q CString ar = (Inr (VString func), iget (length (enc w (VString func))) ar)"
    using assms by (intro load_enc [OF _ ar(2,3)]) (simp add: wf_call_def)
  let ?ar = "iget (length (enc w (VString func))) ar"
  have "load q (CTuple ts) ?ar = (Inr (VTuple args), iget (length (enc w (VTuple args))) ?ar)"
    using assms ar by (intro load_enc [of _ _ _ w _ junk]) (auto simp: wf_call_def)
  then have "\<exists>ar'. seqS (map (load q) ts) ?ar = (Inr args, ar')"
    by (auto elim: bindS_eq_Inr)
  then obtain ar' where v: "seqS (map (load q) ts) ?ar = (Inr args, ar')" by blast
  have "bindS (load q CString) (\<lambda>f. bindS (seqS (map (load q) ts)) (\<lambda>vs. retS (f, vs))) ar
      = (Inr (VString func, args), ar')"
    using f v by (simp only: bindS_Inr retS_run)
  then show ?thesis unfolding Deserialize_def ar(1) by simp
qed

section \<open>No path moves the write position\<close>

text \<open>Loading only moves the read position, also when it throws; so a serializer whose
  \<open>Deserialize\<close> threw still writes its next message from the start of the stream.\<close>

definition keeps_put :: "(in_archive, cereal_exn, 'a) smon \<Rightarrow> bool" where
  "keeps_put m \<longleftrightarrow> (\<forall>ar. ss_put (ia_stream (snd (m ar))) = ss_put (ia_stream ar))"

lemma keeps_put_retS [intro]: "keeps_put (retS x)"
  by (simp add: keeps_put_def)

lemma keeps_put_throwS [intro]: "keeps_put (throwS e)"
  by (simp add: keeps_put_def)

lemma keeps_put_bindS [intro]:
  assumes "keeps_put m" "\<And>x. keeps_put (f x)" shows "keeps_put (bindS m f)"
  unfolding keeps_put_def
proof
  fix ar
  obtain r ar' where m: "m ar = (r, ar')" by fastforce
  then have "ss_put (ia_stream ar') = ss_put (ia_stream ar)"
    using assms(1) unfolding keeps_put_def by (metis snd_conv)
  then show "ss_put (ia_stream (snd (bindS m f ar))) = ss_put (ia_stream ar)"
    using assms(2) m unfolding keeps_put_def by (cases r) (simp_all add: bindS_def)
qed

lemma keeps_put_seqS: "(\<And>m. m \<in> set ms \<Longrightarrow> keeps_put m) \<Longrightarrow> keeps_put (seqS ms)"
  by (induction ms) auto

lemma keeps_put_loadBinary: "keeps_put (loadBinary D n)"
  by (simp add: keeps_put_def loadBinary_run iget_def)

lemma keeps_put_load_arith: "keeps_put (load_arith p t)"
  unfolding load_arith_def
  by (intro keeps_put_bindS keeps_put_loadBinary) (auto split: sum.splits)

lemma keeps_put_load_size: "keeps_put (load_size p)"
  unfolding load_size_def by (intro keeps_put_bindS keeps_put_load_arith) auto

lemma keeps_put_load: "keeps_put (load p t)"
proof (induction t)
  case (CArith t)
  then show ?case unfolding load.simps by (intro keeps_put_bindS keeps_put_load_arith) auto
next
  case CString
  then show ?case unfolding load.simps
    by (intro keeps_put_bindS keeps_put_load_size keeps_put_loadBinary) auto
next
  case (CVector t)
  have "keeps_put (repeatS n (load p t))" for n
    unfolding repeatS_replicate by (rule keeps_put_seqS) (use CVector in auto)
  then show ?case unfolding load.simps
    by (intro keeps_put_bindS keeps_put_load_size)
      (auto split: option.splits intro!: keeps_put_bindS keeps_put_loadBinary)
next
  case (CTuple ts)
  then show ?case unfolding load.simps by (intro keeps_put_bindS keeps_put_seqS) auto
qed

lemma input_archive_put:
  "ss_put (ia_stream (snd (PortableBinaryInputArchive q le st))) = ss_put st"
  using keeps_put_load_arith [of q T8]
  by (auto simp: PortableBinaryInputArchive_def keeps_put_def split: prod.splits sum.splits
      dest: spec [of _ "\<lparr>ia_stream = st, ia_convert = False\<rparr>"])

lemma Deserialize_idle: "idle (snd (Deserialize q data ts ss))"
proof -
  obtain r ar where i: "PortableBinaryInputArchive q (plat_le q) (ss_set_str data) = (r, ar)"
    by fastforce
  then have p: "ss_put (ia_stream ar) = 0"
    using input_archive_put [of q "plat_le q" "ss_set_str data"] by (simp add: ss_set_str_def)
  have "keeps_put (bindS (load q CString) (\<lambda>f. bindS (seqS (map (load q) ts)) (\<lambda>vs. retS (f, vs))))"
    by (intro keeps_put_bindS keeps_put_seqS keeps_put_load) (auto intro: keeps_put_load)
  then have "ss_put (ia_stream (snd (bindS (load q CString)
      (\<lambda>f. bindS (seqS (map (load q) ts)) (\<lambda>vs. retS (f, vs))) ar))) = 0"
    using p by (simp add: keeps_put_def)
  then show ?thesis
    using p unfolding Deserialize_def i
    by (auto simp: idle_def ss_set_str_def [of "[]"] split: sum.splits prod.splits simp del: load.simps)
qed

section \<open>Nothing written is ever lost\<close>

text \<open>Writing never shortens the stream, so every message holds at least the byte-order byte.\<close>

definition grows :: "(out_archive, cereal_exn, 'a) smon \<Rightarrow> bool" where
  "grows m \<longleftrightarrow> (\<forall>ar. length (ss_buf (oa_stream ar)) \<le> length (ss_buf (oa_stream (snd (m ar)))))"

lemma grows_retS [intro]: "grows (retS x)"
  by (simp add: grows_def)

lemma grows_bindS [intro]:
  assumes "grows m" "\<And>x. grows (f x)" shows "grows (bindS m f)"
  unfolding grows_def
proof
  fix ar
  obtain r ar' where m: "m ar = (r, ar')" by fastforce
  then have "length (ss_buf (oa_stream ar)) \<le> length (ss_buf (oa_stream ar'))"
    using assms(1) unfolding grows_def by (metis snd_conv)
  moreover have "length (ss_buf (oa_stream ar')) \<le> length (ss_buf (oa_stream (snd (f x ar'))))" for x
    using assms(2) unfolding grows_def by blast
  ultimately show "length (ss_buf (oa_stream ar)) \<le> length (ss_buf (oa_stream (snd (bindS m f ar))))"
    using m by (cases r) (auto simp: bindS_def intro: order_trans)
qed

lemma grows_seqS: "(\<And>m. m \<in> set ms \<Longrightarrow> grows m) \<Longrightarrow> grows (seqS ms)"
  by (induction ms) auto

lemma put_grows: "length (ss_buf st) \<le> length (ss_buf (put bs st))"
  by (simp add: put_def sputn_def)

lemma save_swapped_grows: "length (ss_buf st) \<le> length (ss_buf (snd (save_swapped D data st)))"
proof -
  have f: "length (ss_buf s) \<le> length (ss_buf (snd (fold (\<lambda>j (w, s). (Suc w, put [g j] s)) js (w, s))))"
    for g js w s
    by (induction js arbitrary: w s) (auto intro: order_trans [OF put_grows])
  have "length (ss_buf s) \<le> length (ss_buf (snd (fold (\<lambda>i. fold (\<lambda>j (w, s).
      (Suc w, put [data ! (D - j - 1 + i)] s)) [0..<D]) is (w, s))))" for "is" w s
  proof (induction "is" arbitrary: w s)
    case (Cons i "is")
    show ?case
      using f [of s "\<lambda>j. data ! (D - j - 1 + i)" "[0..<D]" w] Cons.IH
      by (simp add: case_prod_unfold) (metis (no_types, lifting) order_trans prod.collapse)
  qed simp
  then show ?thesis unfolding save_swapped_def sputn_step .
qed

lemma grows_saveBinary: "grows (saveBinary D data)"
  using put_grows save_swapped_grows
  by (auto simp: grows_def saveBinary_def sputn_put Let_def split: prod.splits) (metis snd_conv)+

lemma grows_save: "grows (save p v)"
proof (induction v)
  case (VVector t vs)
  have "grows (seqS (map (save p) vs))" by (rule grows_seqS) (use VVector in auto)
  then show ?case
    by (auto simp: save_size_def save_arith_def split: option.splits intro!: grows_bindS grows_saveBinary)
next
  case (VTuple vs)
  have "grows (seqS (map (save p) vs))" by (rule grows_seqS) (use VTuple in auto)
  then show ?case by auto
qed (auto simp: save_size_def save_arith_def intro!: grows_bindS grows_saveBinary)

lemma Serialize_nonempty:
  assumes "Serialize p f vs ss = (Inr data, ss')"
  shows "data \<noteq> []"
proof -
  let ?w = "plat_le p"
  obtain ar where a: "PortableBinaryOutputArchive p ?w ss = (Inr (), ar)" "ss_buf (oa_stream ar) \<noteq> []"
    by (auto simp: PortableBinaryOutputArchive_def save_arith_def saveBinary_def sputn_def mem_repr_def Let_def)
  obtain us ar' where b: "seqS (map (save p) (VString f # vs)) ar = (Inr us, ar')" "data = ss_buf (oa_stream ar')"
    using assms unfolding Serialize_def a(1) by (auto simp: ss_str_def split: prod.splits sum.splits simp del: list.map)
  have "grows (seqS (map (save p) (VString f # vs)))"
    by (rule grows_seqS) (auto intro: grows_save simp del: save.simps)
  then have "length (ss_buf (oa_stream ar)) \<le> length data"
    using b unfolding grows_def by (metis snd_conv)
  then show ?thesis using a(2) by auto
qed

section \<open>The contract of a serializer\<close>

text \<open>What the RPC classes rely on: what one serializer writes, any other reads back, with bytes
  after the message ignored, the name alone can be read first, and a throw does no lasting harm.\<close>

locale serializer_contract =
  fixes ser :: "string \<Rightarrow> 'v list \<Rightarrow> ('s, 'e, bytes) smon"
    and des :: "bytes \<Rightarrow> 't list \<Rightarrow> ('s, 'e, string \<times> 'v list) smon"
    and frm :: "string \<Rightarrow> 'v list \<Rightarrow> bytes"
    and ok :: "string \<Rightarrow> 't list \<Rightarrow> 'v list \<Rightarrow> bool"
    and ready :: "'s \<Rightarrow> bool"
  assumes ser_frm: "ready s \<Longrightarrow> ok f ts vs \<Longrightarrow> \<exists>junk s'. ser f vs s = (Inr (frm f vs @ junk), s') \<and> ready s'"
    and des_frm: "ok f ts vs \<Longrightarrow> \<exists>s'. des (frm f vs @ junk) ts s = (Inr (f, vs), s')"
    and des_ready: "ready (snd (des d ts s))"
    and ok_name: "ok f ts vs \<Longrightarrow> ok f [] []"
    and frm_name: "\<exists>junk. frm f vs = frm f [] @ junk"
begin

lemma exchange:
  assumes "ready a" "ok f ts vs"
  obtains data a' where "ser f vs a = (Inr data, a')" "ready a'"
    "\<And>b. \<exists>b'. des data ts b = (Inr (f, vs), b') \<and> ready b'"
proof -
  obtain junk a' where s: "ser f vs a = (Inr (frm f vs @ junk), a')" "ready a'"
    using ser_frm [OF assms] by blast
  have "\<exists>b'. des (frm f vs @ junk) ts b = (Inr (f, vs), b') \<and> ready b'" for b
    using des_frm [OF assms(2), of junk b] des_ready [of "frm f vs @ junk" ts b] by auto
  with s that show ?thesis by blast
qed

lemma peek_name:
  assumes "ok f ts vs"
  shows "\<exists>s'. des (frm f vs @ junk) [] s = (Inr (f, []), s') \<and> ready s'"
proof -
  obtain j where "frm f vs = frm f [] @ j" using frm_name by blast
  then obtain s' where "des (frm f vs @ junk) [] s = (Inr (f, []), s')"
    using des_frm [OF ok_name [OF assms], of "j @ junk" s] by auto
  then show ?thesis using des_ready [of "frm f vs @ junk" "[]" s] by simp
qed

lemma exchange_after_failure:
  assumes "des d us a = (Inl e, a')" "ok f ts vs"
  obtains data a'' where "ser f vs a' = (Inr data, a'')"
    "\<And>b. \<exists>b'. des data ts b = (Inr (f, vs), b') \<and> ready b'"
  using exchange [of a' f ts vs] assms des_ready [of d us a] by (metis snd_conv)

end

interpretation fs: serializer_contract "Serialize p" "Deserialize q" "frame (plat_le p)" wf_call idle
  for p q
proof unfold_locales
  show "\<exists>junk s'. Serialize p f vs s = (Inr (frame (plat_le p) f vs @ junk), s') \<and> idle s'"
    if "idle s" "wf_call f ts vs" for s f ts vs
    using Serialize_frame [OF that] by auto
  show "\<exists>s'. Deserialize q (frame (plat_le p) f vs @ junk) ts s = (Inr (f, vs), s')"
    if "wf_call f ts vs" for f ts vs junk s
    using Deserialize_frame [OF that] by auto
  show "idle (snd (Deserialize q d ts s))" for d ts s
    by (rule Deserialize_idle)
  show "wf_call f [] []" if "wf_call f ts vs" for f ts vs
    using that by (simp add: wf_call_def)
  show "\<exists>junk. frame (plat_le p) f vs = frame (plat_le p) f [] @ junk" for f vs
    by (simp add: frame_def)
qed

section \<open>Broken messages\<close>

lemma frame_single: "frame w f [v] = frame w f [] @ enc w v"
  by (simp add: frame_def)

lemma Deserialize_short:
  assumes "wf_call f [t] [v]" "length (frame w f []) \<le> k" "k < length (frame w f [v])"
  shows "\<exists>e s'. Deserialize q (take k (frame w f [v])) [t] ss = (Inl e, s')"
proof -
  let ?k = "k - length (frame w f [])"
  have f: "take k (frame w f [v]) = frame w f [] @ take ?k (enc w v)"
    using assms(2) by (simp add: frame_single)
  obtain ar where ar: "PortableBinaryInputArchive q (plat_le q) (ss_set_str (take k (frame w f [v]))) = (Inr (), ar)"
    "reads_order q w ar" "ahead ar = enc w (VString f) @ take ?k (enc w v)"
    using input_archive_frame [of q w "enc w (VString f) @ take ?k (enc w v)"]
    unfolding f by (auto simp: frame_def)
  let ?ar = "iget (length (enc w (VString f))) ar"
  have l: "load q CString ar = (Inr (VString f), ?ar)"
    using assms(1) by (intro load_enc [OF _ ar(2,3)]) (simp add: wf_call_def)
  have "\<exists>e ar'. load q t ?ar = (Inl e, ar')"
    by (rule load_short [of _ v _ w _ ?k]) (use assms ar in \<open>auto simp: wf_call_def frame_single\<close>)
  then obtain e ar' where e: "load q t ?ar = (Inl e, ar')" by blast
  have "bindS (load q CString) (\<lambda>f. bindS (seqS (map (load q) [t])) (\<lambda>vs. retS (f, vs))) ar = (Inl e, ar')"
    using l e by (simp only: bindS_Inr bindS_Inl list.map seqS.simps)
  then show ?thesis unfolding Deserialize_def ar(1) by simp
qed

text \<open>The empty message has no byte-order byte.\<close>

lemma Deserialize_empty: "\<exists>s'. Deserialize q [] ts ss = (Inl (Failed_To_Read 1 0), s')"
  by (simp add: Deserialize_def PortableBinaryInputArchive_def load_arith_def bindS_def loadBinary_def
      sgetn_def ss_set_str_def Let_def)

end
