(* ===== verification/RpcBasic.thy ===== *)
theory RpcBasic
  imports FunctionSerializer ZmqMsg
begin

text \<open>
  \<open>include/tmss/RpcBasicTemplate.hpp\<close>: the codes of a call, and the tuples that carry
  arguments and return values. \<open>RpcReturnCode\<close> is an \<open>enum class : uint8_t\<close>, so any byte can
  arrive in one; it is kept as the 8-bit word. \<open>fault\<close> collects what can end an operation of the
  program abnormally.
\<close>

datatype RpcCallError = Success | NetworkTimeout | FunctionNotFound | FunctionNameMismatch

type_synonym RpcReturnCode = "8 word"

definition RC_Success :: RpcReturnCode where "RC_Success = 0"

definition RC_FunctionNotFound :: RpcReturnCode where "RC_FunctionNotFound = 1"

text \<open>A return type is \<open>None\<close> for \<open>void\<close>, which travels as a \<open>uint8_t\<close>.\<close>

fun RpcReturnType :: "cty option \<Rightarrow> cty" where
  "RpcReturnType (Some t) = t"
| "RpcReturnType None = CArith T8"

definition RpcReturnWrapper :: "cty option \<Rightarrow> cty" where
  "RpcReturnWrapper r = CTuple [CArith T8, RpcReturnType r]"

definition RpcFuncArgsWrapper :: "cty list \<Rightarrow> cty" where
  "RpcFuncArgsWrapper ts = CTuple ts"

definition ret_val :: "RpcReturnCode \<Rightarrow> cval \<Rightarrow> cval" where
  "ret_val c v = VTuple [VArith (A8 c), v]"

datatype fault = Cereal_Exception cereal_exn | Zmq_Error errno | User_Exception string | Null_Dereference
  | Joinable_Destroyed \<comment> \<open>destroying a joinable \<open>std::thread\<close> calls \<open>std::terminate\<close>\<close>

text \<open>\<open>static_cast<int>\<close> orders the call errors.\<close>

fun RpcCallError_int :: "RpcCallError \<Rightarrow> int" where
  "RpcCallError_int Success = 0"
| "RpcCallError_int NetworkTimeout = 1"
| "RpcCallError_int FunctionNotFound = 2"
| "RpcCallError_int FunctionNameMismatch = 3"

lemma RpcCallError_int_inj [simp]: "RpcCallError_int a = RpcCallError_int b \<longleftrightarrow> a = b"
  by (cases a; cases b) auto

instantiation RpcCallError :: linorder
begin

definition less_eq_RpcCallError :: "RpcCallError \<Rightarrow> RpcCallError \<Rightarrow> bool" where
  "less_eq_RpcCallError a b \<longleftrightarrow> RpcCallError_int a \<le> RpcCallError_int b"

definition less_RpcCallError :: "RpcCallError \<Rightarrow> RpcCallError \<Rightarrow> bool" where
  "less_RpcCallError a b \<longleftrightarrow> RpcCallError_int a < RpcCallError_int b"

instance
  by standard (auto simp: less_eq_RpcCallError_def less_RpcCallError_def)

end

text \<open>The tuple of arguments out of what \<open>Deserialize\<close> filled in.\<close>

fun tuple_elems :: "cval list \<Rightarrow> cval list" where
  "tuple_elems (VTuple vs # _) = vs"
| "tuple_elems _ = []"

text \<open>\<open>std::get\<close> on a received return wrapper.\<close>

fun get_code :: "cval list \<Rightarrow> RpcReturnCode" where
  "get_code (VTuple (VArith (A8 c) # _) # _) = c"
| "get_code _ = 0"

fun get_value :: "cval list \<Rightarrow> cval" where
  "get_value (VTuple [_, v] # _) = v"
| "get_value _ = VTuple []"

lemma tuple_elems_VTuple [simp]: "tuple_elems [VTuple vs] = vs"
  by simp

lemma get_code_ret [simp]: "get_code [ret_val c v] = c"
  by (simp add: ret_val_def)

lemma get_value_ret [simp]: "get_value [ret_val c v] = v"
  by (simp add: ret_val_def)

lemma has_type_ret [simp]:
  "has_type (RpcReturnWrapper r) (ret_val c v) = has_type (RpcReturnType r) v"
  by (simp add: RpcReturnWrapper_def ret_val_def)

lemma enc_ret: "enc w (ret_val c v) = mem_repr w (A8 c) @ enc w v"
  by (simp add: ret_val_def)

lemma wf_ret_frame:
  "length name < 2 ^ 64 \<Longrightarrow> has_type (RpcReturnType r) v \<Longrightarrow> wf_call name [RpcReturnWrapper r] [ret_val c v]"
  by (simp add: wf_call_def)

lemma wf_args_frame:
  "length name < 2 ^ 64 \<Longrightarrow> list_all2 has_type ts args \<Longrightarrow> wf_call name [RpcFuncArgsWrapper ts] [VTuple args]"
  by (simp add: wf_call_def RpcFuncArgsWrapper_def)

end
