(* ===== verification/Worker.thy ===== *)
theory Worker
  imports RpcBasic
begin

text \<open>
  The background thread that \<open>Responder\<close> and \<open>Subscriber\<close> both own, in the same way: a map with
  at most the one key, to a pair of the thread and the flag that keeps its loop going. The
  loop is the same too: wait until the map has the entry, then, while the flag is set, receive
  and handle. The program counter of the thread is \<open>wpc\<close>; what it has to do between receives
  is a \<open>Job\<close>. Unsynchronised accesses to the map and the flag are taken to be atomic.
\<close>

datatype 'j wpc = Spin | Check | Recv | Job 'j | Exited

text \<open>An entry holds whether the thread is joinable and the flag.\<close>

record 'j worker =
  wk_map :: "string \<Rightarrow> (bool \<times> bool) option"
  wk_pc :: "'j wpc option"

definition new_worker :: "'j worker" where
  "new_worker = \<lparr>wk_map = Map.empty, wk_pc = None\<rparr>"

text \<open>The thread only spins before it is emplaced, so starting is one operation.\<close>

definition worker_start :: "string \<Rightarrow> 'j worker \<Rightarrow> bool \<times> 'j worker" where
  "worker_start key w =
     (if wk_map w key \<noteq> None then (False, w)
      else (True, w\<lparr>wk_map := (wk_map w)(key \<mapsto> (True, True)), wk_pc := Some Spin\<rparr>))"

definition worker_stop :: "string \<Rightarrow> 'j worker \<Rightarrow> bool \<times> 'j worker" where
  "worker_stop key w =
     (case wk_map w key of
        None \<Rightarrow> (False, w)
      | Some (thread, exit) \<Rightarrow> (True, w\<lparr>wk_map := (wk_map w)(key \<mapsto> (thread, False))\<rparr>))"

text \<open>\<open>None\<close>: the call blocks in \<open>join\<close> because the thread has not returned.\<close>

definition worker_wait :: "string \<Rightarrow> 'j worker \<Rightarrow> (bool \<times> 'j worker) option" where
  "worker_wait key w =
     (case wk_map w key of
        None \<Rightarrow> Some (False, w)
      | Some (thread, exit) \<Rightarrow>
          if \<not> thread then Some (True, w)
          else if wk_pc w = Some Exited then Some (True, w\<lparr>wk_map := (wk_map w)(key \<mapsto> (False, exit))\<rparr>)
          else None)"

definition worker_reset :: "string \<Rightarrow> 'j worker \<Rightarrow> (fault + bool) \<times> 'j worker" where
  "worker_reset key w =
     (case wk_map w key of
        None \<Rightarrow> (Inr False, w)
      | Some (thread, exit) \<Rightarrow>
          (if thread then Inl Joinable_Destroyed else Inr True, w\<lparr>wk_map := (wk_map w)(key := None)\<rparr>))"

text \<open>The head of the thread's loop: the spin lock and the test of the flag.\<close>

definition worker_test :: "string \<Rightarrow> 'j worker \<Rightarrow> 'j worker" where
  "worker_test key w =
     (case wk_pc w of
        Some Spin \<Rightarrow> if wk_map w key = None then w else w\<lparr>wk_pc := Some Check\<rparr>
      | Some Check \<Rightarrow>
          (case wk_map w key of
             Some (thread, True) \<Rightarrow> w\<lparr>wk_pc := Some Recv\<rparr>
           | _ \<Rightarrow> w\<lparr>wk_pc := Some Exited\<rparr>)
      | _ \<Rightarrow> w)"

definition goto :: "'j wpc \<Rightarrow> 'j worker \<Rightarrow> 'j worker" where
  "goto pc w = w\<lparr>wk_pc := Some pc\<rparr>"

section \<open>The contract of an owner of a thread\<close>

definition wk_running :: "string \<Rightarrow> 'j worker \<Rightarrow> bool" where
  "wk_running key w \<longleftrightarrow> wk_map w key \<noteq> None"

definition wk_joined :: "string \<Rightarrow> 'j worker \<Rightarrow> bool" where
  "wk_joined key w \<longleftrightarrow> (\<exists>exit. wk_map w key = Some (False, exit))"

definition wk_stopping :: "string \<Rightarrow> 'j worker \<Rightarrow> bool" where
  "wk_stopping key w \<longleftrightarrow> (\<exists>thread. wk_map w key = Some (thread, False))"

text \<open>What holds of an owner whatever was called and however far the thread got: a thread that
  has not returned has a joinable entry.\<close>

definition wk_inv :: "string \<Rightarrow> 'j worker \<Rightarrow> bool" where
  "wk_inv key w \<longleftrightarrow> (wk_pc w = None \<or> wk_pc w = Some Exited \<or> (\<exists>exit. wk_map w key = Some (True, exit)))"

lemma wk_inv_new: "wk_inv key new_worker"
  by (simp add: wk_inv_def new_worker_def)

lemma wk_inv_start: "wk_inv key w \<Longrightarrow> wk_inv key (snd (worker_start key w))"
  by (auto simp: wk_inv_def worker_start_def)

lemma wk_inv_stop: "wk_inv key w \<Longrightarrow> wk_inv key (snd (worker_stop key w))"
  by (auto simp: wk_inv_def worker_stop_def split: option.splits)

lemma wk_inv_wait: "wk_inv key w \<Longrightarrow> worker_wait key w = Some (b, w') \<Longrightarrow> wk_inv key w'"
  by (auto simp: wk_inv_def worker_wait_def split: option.splits if_splits)

lemma wk_inv_reset: "wk_inv key w \<Longrightarrow> worker_reset key w = (Inr b, w') \<Longrightarrow> wk_inv key w'"
  by (auto simp: wk_inv_def worker_reset_def split: option.splits if_splits)

lemma wk_inv_test: "wk_inv key w \<Longrightarrow> wk_inv key (worker_test key w)"
  by (auto simp: wk_inv_def worker_test_def split: option.splits wpc.splits bool.splits)

locale thread_owner =
  fixes start stop :: "'r \<Rightarrow> bool \<times> 'r"
    and wait :: "'r \<Rightarrow> (bool \<times> 'r) option"
    and reset :: "'r \<Rightarrow> (fault + bool) \<times> 'r"
    and running joined exited :: "'r \<Rightarrow> bool"
  assumes start_fresh: "\<not> running r \<Longrightarrow> \<exists>r'. start r = (True, r') \<and> running r' \<and> \<not> joined r'"
    and start_twice: "running r \<Longrightarrow> start r = (False, r)"
    and stop_running: "running r \<Longrightarrow> \<exists>r'. stop r = (True, r') \<and> running r' \<and> exited r' = exited r \<and> joined r' = joined r"
    and stop_idle: "\<not> running r \<Longrightarrow> stop r = (False, r)"
    and wait_exited: "running r \<Longrightarrow> exited r \<Longrightarrow> \<exists>r'. wait r = Some (True, r') \<and> running r' \<and> joined r'"
    and wait_blocks: "running r \<Longrightarrow> \<not> joined r \<Longrightarrow> \<not> exited r \<Longrightarrow> wait r = None"
    and reset_joined: "running r \<Longrightarrow> joined r \<Longrightarrow> \<exists>r'. reset r = (Inr True, r') \<and> \<not> running r'"
    and reset_early: "running r \<Longrightarrow> \<not> joined r \<Longrightarrow> fst (reset r) = Inl Joinable_Destroyed"
begin

text \<open>Stop, wait until the thread is gone, reset: nothing is destroyed early, and it can be started
  again.\<close>

lemma shutdown:
  assumes "running r" "exited r"
  obtains r1 r2 r3 where "stop r = (True, r1)" "wait r1 = Some (True, r2)" "reset r2 = (Inr True, r3)"
    "\<not> running r3" "\<exists>r4. start r3 = (True, r4)"
proof -
  obtain r1 where r1: "stop r = (True, r1)" "running r1" "exited r1"
    using stop_running [OF assms(1)] assms(2) by auto
  obtain r2 where r2: "wait r1 = Some (True, r2)" "running r2" "joined r2"
    using wait_exited [OF r1(2,3)] by auto
  obtain r3 where "reset r2 = (Inr True, r3)" "\<not> running r3"
    using reset_joined [OF r2(2,3)] by auto
  then show ?thesis using that r1(1) r2(1) start_fresh [of r3] by blast
qed

lemma reset_without_wait:
  assumes "\<not> running r"
  shows "fst (reset (snd (start r))) = Inl Joinable_Destroyed"
  using start_fresh [OF assms] reset_early by auto

end

interpretation wk: thread_owner "worker_start key" "worker_stop key" "worker_wait key" "worker_reset key"
    "wk_running key" "wk_joined key" "\<lambda>w. wk_pc w = Some Exited" for key
  by unfold_locales
    (auto simp: worker_start_def worker_stop_def worker_wait_def worker_reset_def wk_running_def wk_joined_def
      split: option.splits)

end
