(* ===== verification/ZmqOptions.thy ===== *)
theory ZmqOptions
  imports ArchiveRoundtrip ZmqMsg
begin

text \<open>
  Socket options (\<open>3rd/zeromq/src/options.cpp\<close>): the values \<open>options_t\<close> starts with and the cases of
  \<open>setsockopt\<close> and \<open>getsockopt\<close> for the options that every build can both set and read, with the one that can
  only be read (\<open>ZMQ_MECHANISM\<close>). Not here: what can only be set (the filters of addresses and of users,
  \<open>ZMQ_METADATA\<close>), what a build may lack (the options of CURVE, GSSAPI, VMCI, WSS and of the draft API), and
  \<open>ZMQ_TYPE\<close>, which the socket sets itself. An option value is the buffer of bytes the caller passes, the empty one a
  null pointer; the \<open>int\<close> in a buffer has the machine's byte order.
\<close>

type_synonym c_int = "32 word"

definition int_bytes :: "platform \<Rightarrow> c_int \<Rightarrow> bytes" where
  "int_bytes p w = mem_repr (plat_le p) (A32 w)"

definition bytes_int :: "platform \<Rightarrow> bytes \<Rightarrow> c_int" where
  "bytes_int p bs = of_nat (mem_val (plat_le p) bs)"

lemma bytes_int_int_bytes [simp, wire_simps]: "bytes_int p (int_bytes p w) = w"
  by (simp add: bytes_int_def int_bytes_def wire_simps)

lemma length_int_bytes [simp, wire_simps]: "length (int_bytes p w) = 4"
  by (simp add: int_bytes_def)

section \<open>options.cpp\<close>

record options_t =
  o_sndhwm :: c_int
  o_rcvhwm :: c_int
  o_affinity :: "64 word"
  o_routing_id :: bytes
  o_rate :: c_int
  o_recovery_ivl :: c_int
  o_sndbuf :: c_int
  o_rcvbuf :: c_int
  o_tos :: c_int
  o_linger :: c_int
  o_connect_timeout :: c_int
  o_tcp_maxrt :: c_int
  o_reconnect_stop :: c_int
  o_reconnect_ivl :: c_int
  o_reconnect_ivl_max :: c_int
  o_backlog :: c_int
  o_maxmsgsize :: "64 word"
  o_multicast_hops :: c_int
  o_multicast_maxtpdu :: c_int
  o_rcvtimeo :: c_int
  o_sndtimeo :: c_int
  o_ipv6 :: bool
  o_tcp_keepalive :: c_int
  o_tcp_keepalive_cnt :: c_int
  o_tcp_keepalive_idle :: c_int
  o_tcp_keepalive_intvl :: c_int
  o_immediate :: c_int
  o_socks_proxy_address :: bytes
  o_socks_proxy_username :: bytes
  o_socks_proxy_password :: bytes
  o_mechanism :: c_int
  o_as_server :: c_int
  o_plain_username :: bytes
  o_plain_password :: bytes
  o_zap_domain :: bytes
  o_conflate :: bool
  o_handshake_ivl :: c_int
  o_invert_matching :: bool
  o_heartbeat_ttl :: "16 word"
  o_heartbeat_interval :: c_int
  o_heartbeat_timeout :: c_int
  o_use_fd :: c_int
  o_bound_device :: bytes
  o_zap_enforce_domain :: bool
  o_loopback_fastpath :: bool
  o_multicast_loop :: bool

abbreviation (input) ZMQ_NULL :: c_int where "ZMQ_NULL \<equiv> 0"
abbreviation (input) ZMQ_PLAIN :: c_int where "ZMQ_PLAIN \<equiv> 1"

definition options_init :: options_t where
  "options_init = \<lparr>o_sndhwm = 1000, o_rcvhwm = 1000, o_affinity = 0, o_routing_id = [], o_rate = 100,
     o_recovery_ivl = 10000, o_sndbuf = -1, o_rcvbuf = -1, o_tos = 0, o_linger = -1, o_connect_timeout = 0,
     o_tcp_maxrt = 0, o_reconnect_stop = 0, o_reconnect_ivl = 100, o_reconnect_ivl_max = 0, o_backlog = 100,
     o_maxmsgsize = -1, o_multicast_hops = 1, o_multicast_maxtpdu = 1500, o_rcvtimeo = -1, o_sndtimeo = -1,
     o_ipv6 = False, o_tcp_keepalive = -1, o_tcp_keepalive_cnt = -1, o_tcp_keepalive_idle = -1,
     o_tcp_keepalive_intvl = -1, o_immediate = 0, o_socks_proxy_address = [], o_socks_proxy_username = [],
     o_socks_proxy_password = [], o_mechanism = ZMQ_NULL, o_as_server = 0, o_plain_username = [], o_plain_password = [],
     o_zap_domain = [], o_conflate = False, o_handshake_ivl = 30000, o_invert_matching = False, o_heartbeat_ttl = 0,
     o_heartbeat_interval = 0, o_heartbeat_timeout = -1, o_use_fd = -1, o_bound_device = [], o_zap_enforce_domain = False,
     o_loopback_fastpath = False, o_multicast_loop = True\<rparr>"

datatype zmq_option = ZMQ_SNDHWM | ZMQ_RCVHWM | ZMQ_AFFINITY | ZMQ_ROUTING_ID | ZMQ_RATE | ZMQ_RECOVERY_IVL
  | ZMQ_SNDBUF | ZMQ_RCVBUF | ZMQ_TOS | ZMQ_LINGER | ZMQ_CONNECT_TIMEOUT | ZMQ_TCP_MAXRT | ZMQ_RECONNECT_STOP
  | ZMQ_RECONNECT_IVL | ZMQ_RECONNECT_IVL_MAX | ZMQ_BACKLOG | ZMQ_MAXMSGSIZE | ZMQ_MULTICAST_HOPS
  | ZMQ_MULTICAST_MAXTPDU | ZMQ_RCVTIMEO | ZMQ_SNDTIMEO | ZMQ_IPV4ONLY | ZMQ_IPV6 | ZMQ_TCP_KEEPALIVE
  | ZMQ_TCP_KEEPALIVE_CNT | ZMQ_TCP_KEEPALIVE_IDLE | ZMQ_TCP_KEEPALIVE_INTVL | ZMQ_IMMEDIATE
  | ZMQ_SOCKS_PROXY | ZMQ_SOCKS_USERNAME | ZMQ_SOCKS_PASSWORD | ZMQ_PLAIN_SERVER | ZMQ_PLAIN_USERNAME
  | ZMQ_PLAIN_PASSWORD | ZMQ_ZAP_DOMAIN | ZMQ_CONFLATE | ZMQ_HANDSHAKE_IVL | ZMQ_INVERT_MATCHING | ZMQ_HEARTBEAT_IVL
  | ZMQ_HEARTBEAT_TTL | ZMQ_HEARTBEAT_TIMEOUT | ZMQ_USE_FD | ZMQ_BINDTODEVICE | ZMQ_ZAP_ENFORCE_DOMAIN
  | ZMQ_LOOPBACK_FASTPATH | ZMQ_MULTICAST_LOOP | ZMQ_MECHANISM

text \<open>The common shape of a case: an \<open>int\<close> within the bound is stored, anything else is refused.\<close>

definition set_int :: "platform \<Rightarrow> (int \<Rightarrow> bool) \<Rightarrow> (c_int \<Rightarrow> options_t \<Rightarrow> options_t) \<Rightarrow> bytes \<Rightarrow> (options_t, errno, unit) smon" where
  "set_int p valid store v = (\<lambda>o'.
     if length v = 4 \<and> valid (sint (bytes_int p v)) then (Inr (), store (bytes_int p v) o') else (Inl EINVAL, o'))"

definition do_setsockopt :: "platform \<Rightarrow> (64 word \<Rightarrow> options_t \<Rightarrow> options_t) \<Rightarrow> bytes \<Rightarrow> (options_t, errno, unit) smon" where
  "do_setsockopt p store v = (\<lambda>o'.
     if length v = 8 then (Inr (), store (of_nat (mem_val (plat_le p) v)) o') else (Inl EINVAL, o'))"

definition do_setsockopt_int_as_bool_strict ::
  "platform \<Rightarrow> (bool \<Rightarrow> options_t \<Rightarrow> options_t) \<Rightarrow> bytes \<Rightarrow> (options_t, errno, unit) smon" where
  "do_setsockopt_int_as_bool_strict p store v = (\<lambda>o'.
     if length v \<noteq> 4 then (Inl EINVAL, o')
     else if bytes_int p v = 0 \<or> bytes_int p v = 1 then (Inr (), store (bytes_int p v \<noteq> 0) o')
     else (Inl EINVAL, o'))"

definition do_setsockopt_int_as_bool_relaxed ::
  "platform \<Rightarrow> (bool \<Rightarrow> options_t \<Rightarrow> options_t) \<Rightarrow> bytes \<Rightarrow> (options_t, errno, unit) smon" where
  "do_setsockopt_int_as_bool_relaxed p store v = (\<lambda>o'.
     if length v \<noteq> 4 then (Inl EINVAL, o') else (Inr (), store (bytes_int p v \<noteq> 0) o'))"

definition do_setsockopt_string_allow_empty_strict ::
  "(bytes \<Rightarrow> options_t \<Rightarrow> options_t) \<Rightarrow> bytes \<Rightarrow> nat \<Rightarrow> (options_t, errno, unit) smon" where
  "do_setsockopt_string_allow_empty_strict store v max_len = (\<lambda>o'.
     if v = [] then (Inr (), store [] o')
     else if length v \<le> max_len then (Inr (), store v o')
     else (Inl EINVAL, o'))"

definition do_setsockopt_string_allow_empty_relaxed ::
  "(bytes \<Rightarrow> options_t \<Rightarrow> options_t) \<Rightarrow> bytes \<Rightarrow> nat \<Rightarrow> (options_t, errno, unit) smon" where
  "do_setsockopt_string_allow_empty_relaxed store v max_len = (\<lambda>o'.
     if length v > 0 \<and> length v \<le> max_len then (Inr (), store v o') else (Inl EINVAL, o'))"

text \<open>The size of an object, and with it that of a buffer, is a 64-bit number; the longest name of a device.\<close>

abbreviation (input) SIZE_MAX :: nat where "SIZE_MAX \<equiv> 2 ^ 64 - 1"
abbreviation (input) BINDDEVSIZ :: nat where "BINDDEVSIZ \<equiv> 16"

text \<open>The division of C rounds towards zero.\<close>

definition to_deciseconds :: "int \<Rightarrow> int" where
  "to_deciseconds ms = (if ms < 0 then - ((- ms) div 100) else ms div 100)"

fun options_setsockopt :: "platform \<Rightarrow> zmq_option \<Rightarrow> bytes \<Rightarrow> (options_t, errno, unit) smon" where
  "options_setsockopt p ZMQ_SNDHWM v = set_int p (\<lambda>i. i \<ge> 0) (\<lambda>w o'. o'\<lparr>o_sndhwm := w\<rparr>) v"
| "options_setsockopt p ZMQ_RCVHWM v = set_int p (\<lambda>i. i \<ge> 0) (\<lambda>w o'. o'\<lparr>o_rcvhwm := w\<rparr>) v"
| "options_setsockopt p ZMQ_AFFINITY v = do_setsockopt p (\<lambda>w o'. o'\<lparr>o_affinity := w\<rparr>) v"
| "options_setsockopt p ZMQ_ROUTING_ID v = (\<lambda>o'.
     if 0 < length v \<and> length v \<le> 255 then (Inr (), o'\<lparr>o_routing_id := v\<rparr>) else (Inl EINVAL, o'))"
| "options_setsockopt p ZMQ_RATE v = set_int p (\<lambda>i. i > 0) (\<lambda>w o'. o'\<lparr>o_rate := w\<rparr>) v"
| "options_setsockopt p ZMQ_RECOVERY_IVL v = set_int p (\<lambda>i. i \<ge> 0) (\<lambda>w o'. o'\<lparr>o_recovery_ivl := w\<rparr>) v"
| "options_setsockopt p ZMQ_SNDBUF v = set_int p (\<lambda>i. i \<ge> -1) (\<lambda>w o'. o'\<lparr>o_sndbuf := w\<rparr>) v"
| "options_setsockopt p ZMQ_RCVBUF v = set_int p (\<lambda>i. i \<ge> -1) (\<lambda>w o'. o'\<lparr>o_rcvbuf := w\<rparr>) v"
| "options_setsockopt p ZMQ_TOS v = set_int p (\<lambda>i. i \<ge> 0) (\<lambda>w o'. o'\<lparr>o_tos := w\<rparr>) v"
| "options_setsockopt p ZMQ_LINGER v = set_int p (\<lambda>i. i \<ge> -1) (\<lambda>w o'. o'\<lparr>o_linger := w\<rparr>) v"
| "options_setsockopt p ZMQ_CONNECT_TIMEOUT v = set_int p (\<lambda>i. i \<ge> 0) (\<lambda>w o'. o'\<lparr>o_connect_timeout := w\<rparr>) v"
| "options_setsockopt p ZMQ_TCP_MAXRT v = set_int p (\<lambda>i. i \<ge> 0) (\<lambda>w o'. o'\<lparr>o_tcp_maxrt := w\<rparr>) v"
| "options_setsockopt p ZMQ_RECONNECT_STOP v = set_int p (\<lambda>i. True) (\<lambda>w o'. o'\<lparr>o_reconnect_stop := w\<rparr>) v"
| "options_setsockopt p ZMQ_RECONNECT_IVL v = set_int p (\<lambda>i. i \<ge> -1) (\<lambda>w o'. o'\<lparr>o_reconnect_ivl := w\<rparr>) v"
| "options_setsockopt p ZMQ_RECONNECT_IVL_MAX v = set_int p (\<lambda>i. i \<ge> 0) (\<lambda>w o'. o'\<lparr>o_reconnect_ivl_max := w\<rparr>) v"
| "options_setsockopt p ZMQ_BACKLOG v = set_int p (\<lambda>i. i \<ge> 0) (\<lambda>w o'. o'\<lparr>o_backlog := w\<rparr>) v"
| "options_setsockopt p ZMQ_MAXMSGSIZE v = do_setsockopt p (\<lambda>w o'. o'\<lparr>o_maxmsgsize := w\<rparr>) v"
| "options_setsockopt p ZMQ_MULTICAST_HOPS v = set_int p (\<lambda>i. i > 0) (\<lambda>w o'. o'\<lparr>o_multicast_hops := w\<rparr>) v"
| "options_setsockopt p ZMQ_MULTICAST_MAXTPDU v = set_int p (\<lambda>i. i > 0) (\<lambda>w o'. o'\<lparr>o_multicast_maxtpdu := w\<rparr>) v"
| "options_setsockopt p ZMQ_RCVTIMEO v = set_int p (\<lambda>i. i \<ge> -1) (\<lambda>w o'. o'\<lparr>o_rcvtimeo := w\<rparr>) v"
| "options_setsockopt p ZMQ_SNDTIMEO v = set_int p (\<lambda>i. i \<ge> -1) (\<lambda>w o'. o'\<lparr>o_sndtimeo := w\<rparr>) v"
| "options_setsockopt p ZMQ_IPV4ONLY v = do_setsockopt_int_as_bool_strict p (\<lambda>b o'. o'\<lparr>o_ipv6 := \<not> b\<rparr>) v"
| "options_setsockopt p ZMQ_IPV6 v = do_setsockopt_int_as_bool_strict p (\<lambda>b o'. o'\<lparr>o_ipv6 := b\<rparr>) v"
| "options_setsockopt p ZMQ_TCP_KEEPALIVE v =
     set_int p (\<lambda>i. i = -1 \<or> i = 0 \<or> i = 1) (\<lambda>w o'. o'\<lparr>o_tcp_keepalive := w\<rparr>) v"
| "options_setsockopt p ZMQ_TCP_KEEPALIVE_CNT v =
     set_int p (\<lambda>i. i = -1 \<or> i \<ge> 0) (\<lambda>w o'. o'\<lparr>o_tcp_keepalive_cnt := w\<rparr>) v"
| "options_setsockopt p ZMQ_TCP_KEEPALIVE_IDLE v =
     set_int p (\<lambda>i. i = -1 \<or> i \<ge> 0) (\<lambda>w o'. o'\<lparr>o_tcp_keepalive_idle := w\<rparr>) v"
| "options_setsockopt p ZMQ_TCP_KEEPALIVE_INTVL v =
     set_int p (\<lambda>i. i = -1 \<or> i \<ge> 0) (\<lambda>w o'. o'\<lparr>o_tcp_keepalive_intvl := w\<rparr>) v"
| "options_setsockopt p ZMQ_IMMEDIATE v = set_int p (\<lambda>i. i = 0 \<or> i = 1) (\<lambda>w o'. o'\<lparr>o_immediate := w\<rparr>) v"
| "options_setsockopt p ZMQ_SOCKS_PROXY v =
     do_setsockopt_string_allow_empty_strict (\<lambda>s o'. o'\<lparr>o_socks_proxy_address := s\<rparr>) v SIZE_MAX"
| "options_setsockopt p ZMQ_SOCKS_USERNAME v = (\<lambda>o'.
     if v = [] then (Inr (), o'\<lparr>o_socks_proxy_username := []\<rparr>)
     else do_setsockopt_string_allow_empty_strict (\<lambda>s o'. o'\<lparr>o_socks_proxy_username := s\<rparr>) v 255 o')"
| "options_setsockopt p ZMQ_SOCKS_PASSWORD v = (\<lambda>o'.
     if v = [] then (Inr (), o'\<lparr>o_socks_proxy_password := []\<rparr>)
     else do_setsockopt_string_allow_empty_strict (\<lambda>s o'. o'\<lparr>o_socks_proxy_password := s\<rparr>) v 255 o')"
| "options_setsockopt p ZMQ_PLAIN_SERVER v = set_int p (\<lambda>i. i = 0 \<or> i = 1)
     (\<lambda>w o'. o'\<lparr>o_as_server := w, o_mechanism := (if w \<noteq> 0 then ZMQ_PLAIN else ZMQ_NULL)\<rparr>) v"
| "options_setsockopt p ZMQ_PLAIN_USERNAME v = (\<lambda>o'.
     if v = [] then (Inr (), o'\<lparr>o_mechanism := ZMQ_NULL\<rparr>)
     else if length v \<le> 255 then (Inr (), o'\<lparr>o_plain_username := v, o_as_server := 0, o_mechanism := ZMQ_PLAIN\<rparr>)
     else (Inl EINVAL, o'))"
| "options_setsockopt p ZMQ_PLAIN_PASSWORD v = (\<lambda>o'.
     if v = [] then (Inr (), o'\<lparr>o_mechanism := ZMQ_NULL\<rparr>)
     else if length v \<le> 255 then (Inr (), o'\<lparr>o_plain_password := v, o_as_server := 0, o_mechanism := ZMQ_PLAIN\<rparr>)
     else (Inl EINVAL, o'))"
| "options_setsockopt p ZMQ_ZAP_DOMAIN v =
     do_setsockopt_string_allow_empty_relaxed (\<lambda>s o'. o'\<lparr>o_zap_domain := s\<rparr>) v 255"
| "options_setsockopt p ZMQ_CONFLATE v = do_setsockopt_int_as_bool_strict p (\<lambda>b o'. o'\<lparr>o_conflate := b\<rparr>) v"
| "options_setsockopt p ZMQ_HANDSHAKE_IVL v = set_int p (\<lambda>i. i \<ge> 0) (\<lambda>w o'. o'\<lparr>o_handshake_ivl := w\<rparr>) v"
| "options_setsockopt p ZMQ_INVERT_MATCHING v = do_setsockopt_int_as_bool_relaxed p (\<lambda>b o'. o'\<lparr>o_invert_matching := b\<rparr>) v"
| "options_setsockopt p ZMQ_HEARTBEAT_IVL v = set_int p (\<lambda>i. i \<ge> 0) (\<lambda>w o'. o'\<lparr>o_heartbeat_interval := w\<rparr>) v"
| "options_setsockopt p ZMQ_HEARTBEAT_TTL v = (\<lambda>o'.
     let i = to_deciseconds (sint (bytes_int p v)) in
     if length v = 4 \<and> i \<ge> 0 \<and> i \<le> 65535 then (Inr (), o'\<lparr>o_heartbeat_ttl := word_of_int i\<rparr>) else (Inl EINVAL, o'))"
| "options_setsockopt p ZMQ_HEARTBEAT_TIMEOUT v = set_int p (\<lambda>i. i \<ge> 0) (\<lambda>w o'. o'\<lparr>o_heartbeat_timeout := w\<rparr>) v"
| "options_setsockopt p ZMQ_USE_FD v = set_int p (\<lambda>i. i \<ge> -1) (\<lambda>w o'. o'\<lparr>o_use_fd := w\<rparr>) v"
| "options_setsockopt p ZMQ_BINDTODEVICE v =
     do_setsockopt_string_allow_empty_strict (\<lambda>s o'. o'\<lparr>o_bound_device := s\<rparr>) v BINDDEVSIZ"
| "options_setsockopt p ZMQ_ZAP_ENFORCE_DOMAIN v =
     do_setsockopt_int_as_bool_relaxed p (\<lambda>b o'. o'\<lparr>o_zap_enforce_domain := b\<rparr>) v"
| "options_setsockopt p ZMQ_LOOPBACK_FASTPATH v =
     do_setsockopt_int_as_bool_relaxed p (\<lambda>b o'. o'\<lparr>o_loopback_fastpath := b\<rparr>) v"
| "options_setsockopt p ZMQ_MULTICAST_LOOP v = do_setsockopt_int_as_bool_relaxed p (\<lambda>b o'. o'\<lparr>o_multicast_loop := b\<rparr>) v"
| "options_setsockopt p ZMQ_MECHANISM v = throwS EINVAL"

text \<open>Reading an option into a buffer of \<open>n\<close> bytes.\<close>

definition get_int :: "platform \<Rightarrow> nat \<Rightarrow> c_int \<Rightarrow> errno + bytes" where
  "get_int p n w = (if n = 4 then Inr (int_bytes p w) else Inl EINVAL)"

definition get_int64 :: "platform \<Rightarrow> nat \<Rightarrow> 64 word \<Rightarrow> errno + bytes" where
  "get_int64 p n w = (if n = 8 then Inr (mem_repr (plat_le p) (A64 w)) else Inl EINVAL)"

text \<open>The result of a read is the buffer up to the size that is handed back; behind it the buffer is filled with zeros.
  A string is read with a zero byte at its end.\<close>

definition do_getsockopt :: "nat \<Rightarrow> bytes \<Rightarrow> errno + bytes" where
  "do_getsockopt n v = (if n < length v then Inl EINVAL else Inr v)"

definition do_getsockopt_string :: "nat \<Rightarrow> bytes \<Rightarrow> errno + bytes" where
  "do_getsockopt_string n v = do_getsockopt n (v @ [CHR 0x00])"

abbreviation bool_int :: "bool \<Rightarrow> c_int" where
  "bool_int b \<equiv> (if b then 1 else 0)"

fun options_getsockopt :: "platform \<Rightarrow> zmq_option \<Rightarrow> nat \<Rightarrow> options_t \<Rightarrow> errno + bytes" where
  "options_getsockopt p ZMQ_SNDHWM n o' = get_int p n (o_sndhwm o')"
| "options_getsockopt p ZMQ_RCVHWM n o' = get_int p n (o_rcvhwm o')"
| "options_getsockopt p ZMQ_AFFINITY n o' = get_int64 p n (o_affinity o')"
| "options_getsockopt p ZMQ_ROUTING_ID n o' = do_getsockopt n (o_routing_id o')"
| "options_getsockopt p ZMQ_RATE n o' = get_int p n (o_rate o')"
| "options_getsockopt p ZMQ_RECOVERY_IVL n o' = get_int p n (o_recovery_ivl o')"
| "options_getsockopt p ZMQ_SNDBUF n o' = get_int p n (o_sndbuf o')"
| "options_getsockopt p ZMQ_RCVBUF n o' = get_int p n (o_rcvbuf o')"
| "options_getsockopt p ZMQ_TOS n o' = get_int p n (o_tos o')"
| "options_getsockopt p ZMQ_LINGER n o' = get_int p n (o_linger o')"
| "options_getsockopt p ZMQ_CONNECT_TIMEOUT n o' = get_int p n (o_connect_timeout o')"
| "options_getsockopt p ZMQ_TCP_MAXRT n o' = get_int p n (o_tcp_maxrt o')"
| "options_getsockopt p ZMQ_RECONNECT_STOP n o' = get_int p n (o_reconnect_stop o')"
| "options_getsockopt p ZMQ_RECONNECT_IVL n o' = get_int p n (o_reconnect_ivl o')"
| "options_getsockopt p ZMQ_RECONNECT_IVL_MAX n o' = get_int p n (o_reconnect_ivl_max o')"
| "options_getsockopt p ZMQ_BACKLOG n o' = get_int p n (o_backlog o')"
| "options_getsockopt p ZMQ_MAXMSGSIZE n o' = get_int64 p n (o_maxmsgsize o')"
| "options_getsockopt p ZMQ_MULTICAST_HOPS n o' = get_int p n (o_multicast_hops o')"
| "options_getsockopt p ZMQ_MULTICAST_MAXTPDU n o' = get_int p n (o_multicast_maxtpdu o')"
| "options_getsockopt p ZMQ_RCVTIMEO n o' = get_int p n (o_rcvtimeo o')"
| "options_getsockopt p ZMQ_SNDTIMEO n o' = get_int p n (o_sndtimeo o')"
| "options_getsockopt p ZMQ_IPV4ONLY n o' = get_int p n (if o_ipv6 o' then 0 else 1)"
| "options_getsockopt p ZMQ_IPV6 n o' = get_int p n (if o_ipv6 o' then 1 else 0)"
| "options_getsockopt p ZMQ_TCP_KEEPALIVE n o' = get_int p n (o_tcp_keepalive o')"
| "options_getsockopt p ZMQ_TCP_KEEPALIVE_CNT n o' = get_int p n (o_tcp_keepalive_cnt o')"
| "options_getsockopt p ZMQ_TCP_KEEPALIVE_IDLE n o' = get_int p n (o_tcp_keepalive_idle o')"
| "options_getsockopt p ZMQ_TCP_KEEPALIVE_INTVL n o' = get_int p n (o_tcp_keepalive_intvl o')"
| "options_getsockopt p ZMQ_IMMEDIATE n o' = get_int p n (o_immediate o')"
| "options_getsockopt p ZMQ_SOCKS_PROXY n o' = do_getsockopt_string n (o_socks_proxy_address o')"
| "options_getsockopt p ZMQ_SOCKS_USERNAME n o' = do_getsockopt_string n (o_socks_proxy_username o')"
| "options_getsockopt p ZMQ_SOCKS_PASSWORD n o' = do_getsockopt_string n (o_socks_proxy_password o')"
| "options_getsockopt p ZMQ_PLAIN_SERVER n o' = get_int p n (bool_int (o_as_server o' \<noteq> 0 \<and> o_mechanism o' = ZMQ_PLAIN))"
| "options_getsockopt p ZMQ_PLAIN_USERNAME n o' = do_getsockopt_string n (o_plain_username o')"
| "options_getsockopt p ZMQ_PLAIN_PASSWORD n o' = do_getsockopt_string n (o_plain_password o')"
| "options_getsockopt p ZMQ_ZAP_DOMAIN n o' = do_getsockopt_string n (o_zap_domain o')"
| "options_getsockopt p ZMQ_CONFLATE n o' = get_int p n (bool_int (o_conflate o'))"
| "options_getsockopt p ZMQ_HANDSHAKE_IVL n o' = get_int p n (o_handshake_ivl o')"
| "options_getsockopt p ZMQ_INVERT_MATCHING n o' = get_int p n (bool_int (o_invert_matching o'))"
| "options_getsockopt p ZMQ_HEARTBEAT_IVL n o' = get_int p n (o_heartbeat_interval o')"
| "options_getsockopt p ZMQ_HEARTBEAT_TTL n o' = get_int p n (ucast (o_heartbeat_ttl o') * 100)"
| "options_getsockopt p ZMQ_HEARTBEAT_TIMEOUT n o' = get_int p n (o_heartbeat_timeout o')"
| "options_getsockopt p ZMQ_USE_FD n o' = get_int p n (o_use_fd o')"
| "options_getsockopt p ZMQ_BINDTODEVICE n o' = do_getsockopt_string n (o_bound_device o')"
| "options_getsockopt p ZMQ_ZAP_ENFORCE_DOMAIN n o' = get_int p n (bool_int (o_zap_enforce_domain o'))"
| "options_getsockopt p ZMQ_LOOPBACK_FASTPATH n o' = get_int p n (bool_int (o_loopback_fastpath o'))"
| "options_getsockopt p ZMQ_MULTICAST_LOOP n o' = get_int p n (bool_int (o_multicast_loop o'))"
| "options_getsockopt p ZMQ_MECHANISM n o' = get_int p n (o_mechanism o')"

text \<open>What reading an option back gives after a value was accepted: the value, but for a time to live in whole
  tenths of a second (rounded towards zero), for the options that take any number but 0 as true 1, for a string a zero byte
  more, and for a user name or password taken back the old one.\<close>

fun read_back :: "platform \<Rightarrow> zmq_option \<Rightarrow> bytes \<Rightarrow> options_t \<Rightarrow> bytes" where
  "read_back p ZMQ_HEARTBEAT_TTL v s = int_bytes p (word_of_int (to_deciseconds (sint (bytes_int p v)) * 100))"
| "read_back p ZMQ_INVERT_MATCHING v s = int_bytes p (bool_int (bytes_int p v \<noteq> 0))"
| "read_back p ZMQ_ZAP_ENFORCE_DOMAIN v s = int_bytes p (bool_int (bytes_int p v \<noteq> 0))"
| "read_back p ZMQ_LOOPBACK_FASTPATH v s = int_bytes p (bool_int (bytes_int p v \<noteq> 0))"
| "read_back p ZMQ_MULTICAST_LOOP v s = int_bytes p (bool_int (bytes_int p v \<noteq> 0))"
| "read_back p ZMQ_SOCKS_PROXY v s = v @ [CHR 0x00]"
| "read_back p ZMQ_SOCKS_USERNAME v s = v @ [CHR 0x00]"
| "read_back p ZMQ_SOCKS_PASSWORD v s = v @ [CHR 0x00]"
| "read_back p ZMQ_ZAP_DOMAIN v s = v @ [CHR 0x00]"
| "read_back p ZMQ_BINDTODEVICE v s = v @ [CHR 0x00]"
| "read_back p ZMQ_PLAIN_USERNAME v s = (if v = [] then o_plain_username s else v) @ [CHR 0x00]"
| "read_back p ZMQ_PLAIN_PASSWORD v s = (if v = [] then o_plain_password s else v) @ [CHR 0x00]"
| "read_back p _ v s = v"

text \<open>A refused value changes nothing; an accepted one is what is read back.\<close>

lemmas sockopt_defs = set_int_def get_int_def get_int64_def do_setsockopt_def do_setsockopt_int_as_bool_strict_def
  do_setsockopt_int_as_bool_relaxed_def do_setsockopt_string_allow_empty_strict_def
  do_setsockopt_string_allow_empty_relaxed_def do_getsockopt_def do_getsockopt_string_def

lemma options_setsockopt_refused:
  "options_setsockopt p opt v s = (Inl e, s') \<Longrightarrow> s' = s \<and> e = EINVAL"
  by (cases opt) (auto simp: sockopt_defs Let_def throwS_def split: if_splits)

lemma int_bytes_bytes_int: "length v = 4 \<Longrightarrow> int_bytes p (bytes_int p v) = v"
  using le_bytes_le_val [of v] le_bytes_le_val [of "rev v"] le_val_bound [of v] le_val_bound [of "rev v"]
  by (cases "plat_le p") (auto simp: int_bytes_def bytes_int_def mem_repr_def mem_val_def Let_def unat_of_nat)

lemma bytes_int_01:
  "length v = 4 \<Longrightarrow> bytes_int p v = 1 \<Longrightarrow> int_bytes p 1 = v"
  "length v = 4 \<Longrightarrow> bytes_int p v = 0 \<Longrightarrow> int_bytes p 0 = v"
  using int_bytes_bytes_int by metis+

lemma mem_repr_mem_val64: "length v = 8 \<Longrightarrow> mem_repr le (A64 (of_nat (mem_val le v))) = v"
  using le_bytes_le_val [of v] le_bytes_le_val [of "rev v"] le_val_bound [of v] le_val_bound [of "rev v"]
  by (cases le) (auto simp: mem_repr_def mem_val_def Let_def unat_of_nat)

lemma ucast_ttl:
  assumes "0 \<le> i" "i \<le> 65535"
  shows "ucast (word_of_int i :: 16 word) = (word_of_int i :: 32 word)"
proof -
  have "uint (word_of_int i :: 16 word) = i" "uint (word_of_int i :: 32 word) = i"
    using assms by (simp_all add: uint_word_of_int)
  then show ?thesis by (metis of_int_uint)
qed

lemma sint_01:
  fixes w :: c_int
  shows "sint w = 0 \<longleftrightarrow> w = 0" "sint w = 1 \<longleftrightarrow> w = 1"
proof -
  have "sint w = sint v \<longleftrightarrow> w = v" for v :: c_int by (auto intro: signed_word_eqI)
  from this [of 0] this [of 1] show "sint w = 0 \<longleftrightarrow> w = 0" "sint w = 1 \<longleftrightarrow> w = 1" by simp_all
qed

lemma options_set_get:
  assumes "options_setsockopt p opt v s = (Inr (), s')" "r = read_back p opt v s"
  shows "options_getsockopt p opt (length r) s' = Inr r"
  using assms bytes_int_01 [of v p]
  by (cases opt) (auto simp: sockopt_defs int_bytes_bytes_int mem_repr_mem_val64 Let_def throwS_def ucast_ttl
      sint_01 split: if_splits)

end
