(* ===== verification/Requester.thy ===== *)
theory Requester
  imports ZmqReq ZmqOptions RpcBasic
begin

text \<open>
  \<open>include/tmss/communicator/reqrep/Requester.hpp\<close> and the C++ binding it calls
  (\<open>3rd/cppzmq/zmq.hpp\<close>). Whether the network layer accepts an address is a predicate given to
  \<open>Init\<close>; what arrives while \<open>Request\<close> blocks is an argument of the call. The locale
  \<open>request_channel\<close> states what the RPC clients rely on.
\<close>

section \<open>zmq.hpp\<close>

text \<open>\<open>send\<close> and \<open>recv\<close> return an empty result on \<open>EAGAIN\<close> and throw any other error.\<close>

definition zmq_result :: "('s, errno, 'a) smon \<Rightarrow> ('s, fault, 'a option) smon" where
  "zmq_result m = (\<lambda>s. case m s of
     (Inr x, s') \<Rightarrow> (Inr (Some x), s')
   | (Inl e, s') \<Rightarrow> if e = EAGAIN then (Inr None, s') else (Inl (Zmq_Error e), s'))"

datatype CommunicationCode = CC_Success | ReceiveTimeout

section \<open>Requester.hpp\<close>

record requester =
  req_socket :: req_t
  req_options :: options_t

abbreviation on_req :: "(req_t, fault, 'a) smon \<Rightarrow> (requester, fault, 'a) smon" where
  "on_req \<equiv> liftS req_socket (\<lambda>t r. r\<lparr>req_socket := t\<rparr>) id"

definition new_Requester :: "32 word \<Rightarrow> requester" where
  "new_Requester rnd = \<lparr>req_socket = new_req rnd, req_options = options_init\<rparr>"

definition req_set :: "platform \<Rightarrow> zmq_option \<Rightarrow> c_int \<Rightarrow> (requester, fault, unit) smon" where
  "req_set p opt v = liftS req_options (\<lambda>t r. r\<lparr>req_options := t\<rparr>) Zmq_Error (options_setsockopt p opt (int_bytes p v))"

definition req_get :: "platform \<Rightarrow> zmq_option \<Rightarrow> (requester, fault, c_int) smon" where
  "req_get p opt = (\<lambda>r. case options_getsockopt p opt 4 (req_options r) of
     Inl e \<Rightarrow> (Inl (Zmq_Error e), r) | Inr v \<Rightarrow> (Inr (bytes_int p v), r))"

text \<open>\<open>socket_base_t::connect\<close> makes a pipe with the socket's high-water marks and attaches it.\<close>

definition req_connect :: "pipe_id \<Rightarrow> requester \<Rightarrow> requester" where
  "req_connect x r =
     (let s = req_socket r; d = rq_dealer s;
          pipe = new_pipe (sint (o_rcvhwm (req_options r))) (sint (o_sndhwm (req_options r)))
      in r\<lparr>req_socket := s\<lparr>rq_dealer := dealer_attach_pipe x (d\<lparr>d_heap := (d_heap d)(x := pipe)\<rparr>)\<rparr>\<rparr>)"

definition Requester_SetTimeout :: "platform \<Rightarrow> c_int \<Rightarrow> (requester, fault, c_int) smon" where
  "Requester_SetTimeout p ms = bindS (req_set p ZMQ_RCVTIMEO ms) (\<lambda>_. req_get p ZMQ_RCVTIMEO)"

definition Requester_Init :: "platform \<Rightarrow> (string \<Rightarrow> bool) \<Rightarrow> string \<Rightarrow> (requester, fault, bool) smon" where
  "Requester_Init p connects addr = (\<lambda>r.
     if \<not> connects (''tcp://'' @ addr) then (Inr False, r)
     else bindS (req_set p ZMQ_LINGER 0) (\<lambda>_.
          bindS (req_get p ZMQ_LINGER) (\<lambda>l. retS (l = 0))) (req_connect 0 r))"

type_synonym deliveries = "(pipe_id \<times> msg_t list) list"

definition Request :: "deliveries \<Rightarrow> bytes \<Rightarrow> bytes \<Rightarrow> (requester, fault, CommunicationCode \<times> bytes) smon" where
  "Request arrivals request respond =
     bindS (on_req (zmq_result (req_send (mk_msg request False)))) (\<lambda>_.
     bindS (on_req (zmq_result (req_recv arrivals))) (\<lambda>res.
     let respMsg = (case res of Some m \<Rightarrow> m_data m | None \<Rightarrow> []) in
     if length respMsg \<le> 0 then retS (ReceiveTimeout, respond) else retS (CC_Success, respMsg)))"

section \<open>Options of a requester\<close>

lemma req_set_get:
  assumes "options_setsockopt p opt (int_bytes p v) (req_options r) = (Inr (), os)"
    and "read_back p opt (int_bytes p v) (req_options r) = int_bytes p v"
  shows "bindS (req_set p opt v) (\<lambda>_. req_get p opt) r = (Inr v, r\<lparr>req_options := os\<rparr>)"
  using options_set_get [OF assms(1) refl] assms
  by (simp add: req_set_def req_get_def bindS_def liftS_def)

lemma SetTimeout_ok:
  assumes "-1 \<le> sint ms"
  shows "Requester_SetTimeout p ms r = (Inr ms, r\<lparr>req_options := (req_options r)\<lparr>o_rcvtimeo := ms\<rparr>\<rparr>)"
  unfolding Requester_SetTimeout_def
  by (rule req_set_get) (use assms in \<open>simp_all add: set_int_def wire_simps\<close>)

lemma SetTimeout_refused:
  assumes "sint ms < -1"
  shows "Requester_SetTimeout p ms r = (Inl (Zmq_Error EINVAL), r)"
  using assms by (simp add: Requester_SetTimeout_def req_set_def bindS_def liftS_def set_int_def wire_simps)

section \<open>Between calls, and stuck after a timeout\<close>

text \<open>\<open>ready n\<close>: connected, no reply outstanding, room for \<open>n\<close> more requests. \<open>stuck\<close>: a reply is
  outstanding on the connection.\<close>

definition req_ready :: "nat \<Rightarrow> requester \<Rightarrow> bool" where
  "req_ready n r \<longleftrightarrow> req_peer 0 (req_socket r) \<and> req_room n 0 (req_socket r) \<and> \<not> rq_receiving_reply (req_socket r)"

definition req_stuck :: "requester \<Rightarrow> bool" where
  "req_stuck r \<longleftrightarrow> rq_receiving_reply (req_socket r) \<and> rq_strict (req_socket r)"

definition req_sent :: "requester \<Rightarrow> msg_t list" where
  "req_sent r = req_out 0 (req_socket r)"

definition envelope :: "bytes \<Rightarrow> msg_t list" where
  "envelope b = [mk_msg [] True, mk_msg b False]"

definition reply_arrives :: "bytes \<Rightarrow> pipe_id \<times> msg_t list" where
  "reply_arrives b = (0, envelope b)"

lemma req_ready_mono: "req_ready (Suc n) r \<Longrightarrow> req_ready n r"
  by (auto simp: req_ready_def req_room_def pipe_room_def)

lemma new_pipe_sel [simp]:
  "p_in (new_pipe i j) = []" "p_in_active (new_pipe i j)" "p_state (new_pipe i j) = active"
  "p_out_active (new_pipe i j)" "p_ready (new_pipe i j) = []" "p_part (new_pipe i j) = []"
  "p_out (new_pipe i j) = []" "p_hwm (new_pipe i j) = j" "p_msgs_written (new_pipe i j) = 0"
  "p_peers_msgs_read (new_pipe i j) = 0"
  by (simp_all add: new_pipe_def)

lemma Init_run:
  "Requester_Init p connects addr (new_Requester rnd) =
    (if connects (''tcp://'' @ addr)
     then (Inr True, (req_connect 0 (new_Requester rnd))\<lparr>req_options := options_init\<lparr>o_linger := 0\<rparr>\<rparr>)
     else (Inr False, new_Requester rnd))"
proof -
  let ?r = "req_connect 0 (new_Requester rnd)"
  have o: "req_options ?r = options_init"
    by (simp add: req_connect_def new_Requester_def Let_def)
  have s: "req_set p ZMQ_LINGER 0 ?r = (Inr (), ?r\<lparr>req_options := options_init\<lparr>o_linger := 0\<rparr>\<rparr>)"
    by (simp add: req_set_def liftS_def set_int_def wire_simps o)
  show ?thesis
    by (simp add: Requester_Init_def bindS_def s req_get_def get_int_def)
qed

lemma connected_ready:
  "req_ready 1000 ((req_connect 0 (new_Requester rnd))\<lparr>req_options := os\<rparr>)"
  by (simp add: req_ready_def req_peer_def single_def req_room_def pipe_room_def req_connect_def new_Requester_def
      new_req_def new_dealer_def options_init_def dealer_attach_pipe_def fq_attach_def lb_attach_def lb_activated_def
      new_fq_def new_lb_def arr_push_back_def arr_swap_def Let_def)

text \<open>Two ways a request ends on a connected socket.\<close>

lemma Request_reply:
  assumes "req_ready (Suc n) r" "d \<noteq> []"
  shows "\<exists>r'. Request (reply_arrives d # as) q resp r = (Inr (CC_Success, d), r') \<and> req_ready n r'
    \<and> req_sent r' = req_sent r @ envelope q"
proof -
  obtain s where s: "req_send (mk_msg q False) (req_socket r) = (Inr (), s)" "req_waiting 0 s" "req_room n 0 s"
    "req_out 0 s = req_out 0 (req_socket r) @ envelope q"
    using req_send_single [of 0 "req_socket r" n q] assms(1) unfolding req_ready_def envelope_def by blast
  obtain s' where s': "req_recv (reply_arrives d # as) s = (Inr (mk_msg d False), s')" "req_peer 0 s'"
    "\<not> rq_receiving_reply s'" "req_out 0 s' = req_out 0 s" "req_room n 0 s'"
    using req_recv_reply [OF s(2), of d "as" n] s(3) unfolding reply_arrives_def envelope_def by blast
  show ?thesis
    using assms(2) s s'
    by (simp add: Request_def bindS_def liftS_def zmq_result_def req_ready_def req_sent_def Let_def del: req_recv.simps)
qed

lemma Request_timeout:
  assumes "req_ready (Suc n) r"
  shows "\<exists>r'. Request [] q resp r = (Inr (ReceiveTimeout, resp), r') \<and> req_stuck r'
    \<and> req_sent r' = req_sent r @ envelope q"
proof -
  obtain s where s: "req_send (mk_msg q False) (req_socket r) = (Inr (), s)" "req_waiting 0 s"
    "req_out 0 s = req_out 0 (req_socket r) @ envelope q"
    using req_send_single [of 0 "req_socket r" n q] assms(1) unfolding req_ready_def envelope_def by blast
  show ?thesis
    using s req_recv_timeout [OF s(2)]
    by (simp add: Request_def bindS_def liftS_def zmq_result_def req_stuck_def req_waiting_def req_sent_def)
qed

text \<open>A stuck requester refuses the next request at once: nothing goes out.\<close>

lemma Request_stuck:
  assumes "req_stuck r"
  shows "Request arrivals q resp r = (Inl (Zmq_Error EFSM), r)"
  using assms
  by (simp add: Request_def bindS_def liftS_def zmq_result_def req_send_def req_xsend_EFSM req_stuck_def)

section \<open>The contract of a request channel\<close>

locale request_channel =
  fixes req :: "'d list \<Rightarrow> bytes \<Rightarrow> bytes \<Rightarrow> ('s, 'e, CommunicationCode \<times> bytes) smon"
    and reply :: "bytes \<Rightarrow> 'd"
    and ready :: "nat \<Rightarrow> 's \<Rightarrow> bool"
    and stuck :: "'s \<Rightarrow> bool"
    and sent :: "'s \<Rightarrow> msg_t list"
    and refused :: 'e
  assumes req_reply: "ready (Suc n) s \<Longrightarrow> d \<noteq> [] \<Longrightarrow>
      \<exists>s'. req (reply d # as) q resp s = (Inr (CC_Success, d), s') \<and> ready n s' \<and> sent s' = sent s @ envelope q"
    and req_timeout: "ready (Suc n) s \<Longrightarrow>
      \<exists>s'. req [] q resp s = (Inr (ReceiveTimeout, resp), s') \<and> stuck s' \<and> sent s' = sent s @ envelope q"
    and req_stuck_refused: "stuck s \<Longrightarrow> req as q resp s = (Inl refused, s)"
begin

text \<open>A sequence of calls, each answered.\<close>

fun calls :: "(bytes \<times> bytes) list \<Rightarrow> ('s, 'e, bytes list) smon" where
  "calls [] = retS []"
| "calls ((q, d) # cs) = bindS (req [reply d] q []) (\<lambda>(c, r). bindS (calls cs) (\<lambda>rs. retS (r # rs)))"

lemma calls_answered:
  assumes "ready (length cs) s" "\<forall>(q, d) \<in> set cs. d \<noteq> []"
  shows "\<exists>s'. calls cs s = (Inr (map snd cs), s') \<and> ready 0 s' \<and> sent s' = sent s @ concat (map (\<lambda>c. envelope (fst c)) cs)"
  using assms
proof (induction cs arbitrary: s)
  case Nil
  then show ?case by simp
next
  case (Cons c cs)
  obtain q d where c: "c = (q, d)" by fastforce
  obtain s1 where s1: "req [reply d] q [] s = (Inr (CC_Success, d), s1)" "ready (length cs) s1" "sent s1 = sent s @ envelope q"
    using req_reply [of "length cs" s d "[]" q "[]"] Cons.prems by (auto simp: c)
  obtain s2 where "calls cs s1 = (Inr (map snd cs), s2)" "ready 0 s2" "sent s2 = sent s1 @ concat (map (\<lambda>c. envelope (fst c)) cs)"
    using Cons.IH [OF s1(2)] Cons.prems(2) by auto
  then show ?case using s1 by (simp add: c bindS_def)
qed

lemma timeout_then_refused:
  assumes "ready (Suc n) s"
  shows "\<exists>s'. req [] q resp s = (Inr (ReceiveTimeout, resp), s') \<and> (\<forall>as q' resp'. req as q' resp' s' = (Inl refused, s'))"
  using req_timeout [OF assms] req_stuck_refused by blast

end

interpretation rq: request_channel Request reply_arrives req_ready req_stuck req_sent "Zmq_Error EFSM"
  by unfold_locales (auto intro: Request_reply Request_timeout Request_stuck)

end
