(* ===== verification/Responder.thy ===== *)
theory Responder
  imports ZmqRep Worker Requester
begin

text \<open>
  \<open>include/tmss/communicator/reqrep/Responder.hpp\<close>: a REP socket served by a background thread.
  \<open>respond_step\<close> is one step of the thread; an exception that leaves the thread's function ends
  the process (\<open>std::terminate\<close>), so it is the error value of the step. The callback \<open>proc\<close> works
  on a context of its own.
\<close>

datatype resp_job = RJ_Proc bytes | RJ_Reply bytes

record responder =
  resp_socket :: rep_t
  resp_options :: options_t
  resp_worker :: "resp_job worker"

definition respKey :: string where
  "respKey = ''respond''"

definition new_Responder :: "32 word \<Rightarrow> responder" where
  "new_Responder rnd = \<lparr>resp_socket = new_rep rnd, resp_options = options_init, resp_worker = new_worker\<rparr>"

definition resp_set :: "platform \<Rightarrow> zmq_option \<Rightarrow> c_int \<Rightarrow> (responder, fault, unit) smon" where
  "resp_set p opt v = liftS resp_options (\<lambda>t r. r\<lparr>resp_options := t\<rparr>) Zmq_Error (options_setsockopt p opt (int_bytes p v))"

definition Responder_Init :: "platform \<Rightarrow> (string \<Rightarrow> bool) \<Rightarrow> string \<Rightarrow> (responder, fault, bool) smon" where
  "Responder_Init p binds addr =
     (if \<not> binds (''tcp://'' @ addr) then retS False
      else bindS (resp_set p ZMQ_RCVTIMEO 1000) (\<lambda>_. retS True))"

text \<open>A peer connects: the session hands its routing id (empty if it set none) to the new pipe, which
  is then attached.\<close>

definition resp_accept :: "pipe_id \<Rightarrow> bytes \<Rightarrow> responder \<Rightarrow> responder" where
  "resp_accept x rid r =
     (let pipe = new_pipe (sint (o_rcvhwm (resp_options r))) (sint (o_sndhwm (resp_options r)));
          hello = \<lparr>m_data = rid, m_more = False, m_kind = Routing_Id\<rparr>;
          s = rp_router (resp_socket r)
      in r\<lparr>resp_socket := (resp_socket r)\<lparr>rp_router := router_attach_pipe x (set_pipe x (pipe\<lparr>p_in := [hello]\<rparr>) s)\<rparr>\<rparr>)"

section \<open>The calls of the owner\<close>

definition StartResponse :: "responder \<Rightarrow> bool \<times> responder" where
  "StartResponse r = (case worker_start respKey (resp_worker r) of (b, w) \<Rightarrow> (b, r\<lparr>resp_worker := w\<rparr>))"

definition StopResponse :: "responder \<Rightarrow> bool \<times> responder" where
  "StopResponse r = (case worker_stop respKey (resp_worker r) of (b, w) \<Rightarrow> (b, r\<lparr>resp_worker := w\<rparr>))"

definition WaitResponse :: "responder \<Rightarrow> (bool \<times> responder) option" where
  "WaitResponse r = (case worker_wait respKey (resp_worker r) of
     None \<Rightarrow> None | Some (b, w) \<Rightarrow> Some (b, r\<lparr>resp_worker := w\<rparr>))"

definition ResetResponse :: "responder \<Rightarrow> (fault + bool) \<times> responder" where
  "ResetResponse r = (case worker_reset respKey (resp_worker r) of (b, w) \<Rightarrow> (b, r\<lparr>resp_worker := w\<rparr>))"

section \<open>The thread\<close>

definition respond_step ::
  "(bytes \<Rightarrow> ('a, fault, bytes) smon) \<Rightarrow> deliveries \<Rightarrow> (responder \<times> 'a, fault, unit) smon" where
  "respond_step proc arrivals = (\<lambda>(r, a).
     let w = resp_worker r in
     case wk_pc w of
       Some Recv \<Rightarrow>
         (case zmq_result (rep_recv arrivals) (resp_socket r) of
            (Inl e, s) \<Rightarrow> (Inl e, (r\<lparr>resp_socket := s\<rparr>, a))
          | (Inr res, s) \<Rightarrow>
              let reqMsg = (case res of Some m \<Rightarrow> m_data m | None \<Rightarrow> []) in
              (Inr (), (r\<lparr>resp_socket := s,
                 resp_worker := goto (if length reqMsg > 0 then Job (RJ_Proc reqMsg) else Check) w\<rparr>, a)))
     | Some (Job (RJ_Proc request)) \<Rightarrow>
         (case proc request a of
            (Inl e, a') \<Rightarrow> (Inl e, (r, a'))
          | (Inr respond, a') \<Rightarrow> (Inr (), (r\<lparr>resp_worker := goto (Job (RJ_Reply respond)) w\<rparr>, a')))
     | Some (Job (RJ_Reply respond)) \<Rightarrow>
         (case zmq_result (rep_xsend (mk_msg respond False)) (resp_socket r) of
            (Inl e, s) \<Rightarrow> (Inl e, (r\<lparr>resp_socket := s\<rparr>, a))
          | (Inr _, s) \<Rightarrow> (Inr (), (r\<lparr>resp_socket := s, resp_worker := goto Check w\<rparr>, a)))
     | _ \<Rightarrow> (Inr (), (r\<lparr>resp_worker := worker_test respKey w\<rparr>, a)))"

text \<open>So many steps of the thread, each with what arrives while it blocks.\<close>

fun run_respond ::
  "(bytes \<Rightarrow> ('a, fault, bytes) smon) \<Rightarrow> deliveries list \<Rightarrow> (responder \<times> 'a, fault, unit) smon" where
  "run_respond proc [] = retS ()"
| "run_respond proc (d # ds) = bindS (respond_step proc d) (\<lambda>_. run_respond proc ds)"

lemma run_respond_append:
  "run_respond proc (ds @ es) = bindS (run_respond proc ds) (\<lambda>_. run_respond proc es)"
proof (induction ds)
  case Nil
  then show ?case by (simp add: bindS_def fun_eq_iff)
next
  case (Cons d ds)
  then show ?case by (auto simp: bindS_def fun_eq_iff split: prod.splits sum.splits)
qed

section \<open>The lifecycle of the thread\<close>

abbreviation resp_pc :: "responder \<Rightarrow> resp_job wpc option" where
  "resp_pc r \<equiv> wk_pc (resp_worker r)"

interpretation ro: thread_owner StartResponse StopResponse WaitResponse ResetResponse
    "\<lambda>r. wk_running respKey (resp_worker r)" "\<lambda>r. wk_joined respKey (resp_worker r)" "\<lambda>r. resp_pc r = Some Exited"
proof unfold_locales
  show "\<exists>r'. StartResponse r = (True, r') \<and> wk_running respKey (resp_worker r') \<and> \<not> wk_joined respKey (resp_worker r')"
    if "\<not> wk_running respKey (resp_worker r)" for r
    using wk.start_fresh [OF that] by (auto simp: StartResponse_def)
  show "StartResponse r = (False, r)" if "wk_running respKey (resp_worker r)" for r
    using wk.start_twice [OF that] by (simp add: StartResponse_def)
  show "\<exists>r'. StopResponse r = (True, r') \<and> wk_running respKey (resp_worker r')
      \<and> (resp_pc r' = Some Exited) = (resp_pc r = Some Exited)
      \<and> wk_joined respKey (resp_worker r') = wk_joined respKey (resp_worker r)"
    if "wk_running respKey (resp_worker r)" for r
    using wk.stop_running [OF that] by (auto simp: StopResponse_def)
  show "StopResponse r = (False, r)" if "\<not> wk_running respKey (resp_worker r)" for r
    using wk.stop_idle [OF that] by (simp add: StopResponse_def)
  show "\<exists>r'. WaitResponse r = Some (True, r') \<and> wk_running respKey (resp_worker r') \<and> wk_joined respKey (resp_worker r')"
    if "wk_running respKey (resp_worker r)" "resp_pc r = Some Exited" for r
    using wk.wait_exited [OF that] by (auto simp: WaitResponse_def)
  show "WaitResponse r = None"
    if "wk_running respKey (resp_worker r)" "\<not> wk_joined respKey (resp_worker r)" "resp_pc r \<noteq> Some Exited" for r
    using wk.wait_blocks [OF that] by (simp add: WaitResponse_def)
  show "\<exists>r'. ResetResponse r = (Inr True, r') \<and> \<not> wk_running respKey (resp_worker r')"
    if "wk_running respKey (resp_worker r)" "wk_joined respKey (resp_worker r)" for r
    using wk.reset_joined [OF that] by (auto simp: ResetResponse_def)
  show "fst (ResetResponse r) = Inl Joinable_Destroyed"
    if "wk_running respKey (resp_worker r)" "\<not> wk_joined respKey (resp_worker r)" for r
    using wk.reset_early [OF that] by (auto simp: ResetResponse_def split: prod.splits)
qed

text \<open>No step of the thread touches the map.\<close>

lemma worker_test_map [simp]: "wk_map (worker_test key w) = wk_map w"
  by (auto simp: worker_test_def split: option.splits wpc.splits bool.splits)

lemma goto_sel [simp]: "wk_map (goto pc w) = wk_map w" "wk_pc (goto pc w) = Some pc"
  by (simp_all add: goto_def)

lemma respond_step_map:
  "respond_step proc d (r, a) = (res, (r', a')) \<Longrightarrow> wk_map (resp_worker r') = wk_map (resp_worker r)"
  by (auto simp: respond_step_def Let_def split: option.splits wpc.splits resp_job.splits prod.splits sum.splits)

text \<open>Once stopped, the thread is at most four steps from its end: at worst it is about to receive,
  serves that one request, and then sees the flag.\<close>

fun steps_left :: "resp_job wpc option \<Rightarrow> nat" where
  "steps_left (Some Spin) = 2"
| "steps_left (Some Check) = 1"
| "steps_left (Some Recv) = 4"
| "steps_left (Some (Job (RJ_Proc q))) = 3"
| "steps_left (Some (Job (RJ_Reply q))) = 2"
| "steps_left (Some Exited) = 0"
| "steps_left None = 0"

lemma steps_left_le: "steps_left pc \<le> 4"
  by (cases pc rule: steps_left.cases) auto

lemma respond_step_closer:
  assumes "respond_step proc d (r, a) = (Inr (), (r', a'))" "wk_stopping respKey (resp_worker r)"
    and "steps_left (resp_pc r) \<le> Suc n"
  shows "steps_left (resp_pc r') \<le> n"
proof -
  obtain b where b: "wk_map (resp_worker r) respKey = Some (b, False)"
    using assms(2) by (auto simp: wk_stopping_def)
  show ?thesis
    using assms(1,3) b
    by (cases "resp_pc r" rule: steps_left.cases)
      (auto simp: respond_step_def worker_test_def Let_def split: prod.splits sum.splits if_splits)
qed

lemma run_respond_exits:
  assumes "run_respond proc ds (r, a) = (Inr (), (r', a'))" "wk_stopping respKey (resp_worker r)"
    and "steps_left (resp_pc r) \<le> length ds"
  shows "steps_left (resp_pc r') = 0 \<and> wk_map (resp_worker r') = wk_map (resp_worker r)"
  using assms
proof (induction ds arbitrary: r a)
  case Nil
  then show ?case by simp
next
  case (Cons d ds)
  obtain r1 a1 where s: "respond_step proc d (r, a) = (Inr (), (r1, a1))" "run_respond proc ds (r1, a1) = (Inr (), (r', a'))"
    using Cons.prems(1) by (auto elim!: bindS_eq_Inr)
  have m: "wk_map (resp_worker r1) = wk_map (resp_worker r)" by (rule respond_step_map [OF s(1)])
  then have "wk_stopping respKey (resp_worker r1)" using Cons.prems(2) by (simp add: wk_stopping_def)
  then show ?case
    using Cons.IH [OF s(2)] respond_step_closer [OF s(1) Cons.prems(2)] Cons.prems(3) m by simp
qed

section \<open>Serving requests\<close>

text \<open>Between requests the socket is ready to receive; while a request is being served it expects the
  reply. This holds at every step as long as requests are single, non-empty messages.\<close>

definition phase_ok :: "responder \<Rightarrow> bool" where
  "phase_ok r \<longleftrightarrow> \<not> rep_mandatory (resp_socket r) \<and> rp_sending_reply (resp_socket r) = (\<exists>j. resp_pc r = Some (Job j))"

definition served :: "deliveries \<Rightarrow> responder \<Rightarrow> bool" where
  "served arrivals r \<longleftrightarrow> (\<forall>m s. rep_recv arrivals (resp_socket r) = (Inr m, s) \<longrightarrow> \<not> m_more m \<and> m_data m \<noteq> [])"

lemma rep_recv_Inl_fsm:
  "rep_recv as r = (Inl e, r') \<Longrightarrow> rp_sending_reply r' = rp_sending_reply r"
proof (induction "as" arbitrary: r)
  case Nil
  then show ?case using rep_xrecv_Inl_fsm by simp
next
  case (Cons a as)
  obtain res r1 where x: "rep_xrecv r = (res, r1)" by fastforce
  show ?case
  proof (cases "res = Inl EAGAIN")
    case True
    then have "rep_recv as (rep_deliver a r1) = (Inl e, r')" using Cons.prems x by simp
    then show ?thesis using Cons.IH [of "rep_deliver a r1"] rep_xrecv_Inl_fsm [of r EAGAIN r1] x True by simp
  next
    case False
    then have "rep_xrecv r = (Inl e, r')"
      using Cons.prems x by (auto split: sum.splits errno.splits)
    then show ?thesis by (rule rep_xrecv_Inl_fsm)
  qed
qed

lemma worker_test_not_job: "wk_pc w \<noteq> Some (Job j) \<Longrightarrow> wk_pc (worker_test key w) \<noteq> Some (Job j)"
  by (auto simp: worker_test_def split: option.splits wpc.splits bool.splits)

lemma respond_step_phase:
  assumes "respond_step proc d (r, a) = (Inr (), (r', a'))" "phase_ok r" "served d r"
  shows "phase_ok r'"
proof (cases "resp_pc r" rule: steps_left.cases)
  case 3
  show ?thesis
  proof (cases "fst (rep_recv d (resp_socket r))")
    case (Inl e)
    then obtain s where s: "rep_recv d (resp_socket r) = (Inl e, s)" by (metis prod.collapse)
    then show ?thesis
      using assms(1,2) 3 rep_recv_Inl_fsm [OF s] rep_recv_mandatory [OF s]
      by (auto simp: respond_step_def zmq_result_def phase_ok_def split: if_splits)
  next
    case (Inr m)
    then obtain s where s: "rep_recv d (resp_socket r) = (Inr m, s)" by (metis prod.collapse)
    then show ?thesis
      using assms 3 rep_recv_Inr(2) [OF s] rep_recv_mandatory [OF s]
      by (auto simp: respond_step_def zmq_result_def phase_ok_def served_def)
  qed
next
  case (5 q)
  obtain res s where s: "rep_xsend (mk_msg q False) (resp_socket r) = (res, s)" by fastforce
  then have "res = Inr ()"
    using assms(1,2) 5 rep_xsend_not_EAGAIN [of "resp_socket r" "mk_msg q False"]
    by (auto simp: respond_step_def zmq_result_def phase_ok_def split: sum.splits if_splits)
  then show ?thesis
    using assms(1,2) 5 s rep_xsend_Inr(2) [of "mk_msg q False" "resp_socket r" s] rep_xsend_mandatory [OF s]
    by (auto simp: respond_step_def zmq_result_def phase_ok_def)
qed (use assms(1,2) in \<open>auto simp: respond_step_def phase_ok_def worker_test_def Let_def split: sum.splits if_splits prod.splits option.splits bool.splits\<close>)

text \<open>One round of the loop: a request that has arrived is taken, the callback runs once on it, and its
  result goes back to the peer that asked, and to nobody else.\<close>

definition resp_listening :: "responder \<Rightarrow> bool" where
  "resp_listening r \<longleftrightarrow> resp_pc r = Some Check \<and> (\<exists>b. wk_map (resp_worker r) respKey = Some (b, True))"

lemma run_respond_serves:
  assumes "resp_listening r" "rep_idle (resp_socket r)" "rep_next x (resp_socket r)" "rep_peer x (resp_socket r)"
    and "p_in (rt_heap (rp_router (resp_socket r)) x) = envelope q @ rest" "q \<noteq> []"
    and "proc q a = (Inr d, a')"
  obtains r' where "run_respond proc [d1, d2, d3, d4] (r, a) = (Inr (), (r', a'))" "resp_listening r'"
    "rep_idle (resp_socket r')" "rep_out x (resp_socket r') = rep_out x (resp_socket r) @ envelope d"
    "\<And>y. y \<noteq> x \<Longrightarrow> rep_out y (resp_socket r') = rep_out y (resp_socket r)"
    "resp_worker r' = resp_worker r"
proof -
  have i: "p_in (rt_heap (rp_router (resp_socket r)) x) = mk_msg [] True # mk_msg q False # rest"
    using assms(5) by (simp add: envelope_def)
  obtain s1 s2 where s: "rep_recv d2 (resp_socket r) = (Inr (mk_msg q False), s1)"
    "rep_xsend (mk_msg d False) s1 = (Inr (), s2)" "rep_idle s2"
    "rep_out x s2 = rep_out x (resp_socket r) @ envelope d" "\<And>y. y \<noteq> x \<Longrightarrow> rep_out y s2 = rep_out y (resp_socket r)"
    using rep_request_reply [OF assms(2-4) i, of d2 d] unfolding envelope_def by metis
  let ?r = "r\<lparr>resp_socket := s2, resp_worker := goto Check (resp_worker r)\<rparr>"
  have w: "goto Check (resp_worker r) = resp_worker r"
    using assms(1) by (cases "resp_worker r") (simp add: resp_listening_def goto_def)
  have "run_respond proc [d1, d2, d3, d4] (r, a) = (Inr (), (?r, a'))"
    using assms(1,6,7) s(1,2) w
    by (auto simp: resp_listening_def bindS_def respond_step_def worker_test_def zmq_result_def goto_def simp del: rep_recv.simps)
  then show ?thesis
    using that [of ?r] s(3-5) assms(1) w by (simp add: resp_listening_def)
qed

text \<open>An empty request is not answered: the next receive is refused by the socket, the exception
  leaves the thread and the process ends.\<close>

lemma run_respond_empty_request:
  assumes "resp_listening r" "rep_recv d2 (resp_socket r) = (Inr (mk_msg [] False), s)"
  shows "fst (run_respond proc [d1, d2, d3, d4] (r, a)) = Inl (Zmq_Error EFSM)"
proof -
  have "rep_recv d4 s = (Inl EFSM, s)"
    using rep_recv_again [OF assms(2)] by simp
  then show ?thesis
    using assms
    by (auto simp: resp_listening_def bindS_def respond_step_def worker_test_def zmq_result_def goto_def simp del: rep_recv.simps)
qed

end
