(* ===== verification/ZmqDist.thy ===== *)
theory ZmqDist
  imports ZmqPipe
begin

text \<open>
  The distributor of outbound messages (\<open>3rd/zeromq/src/dist.cpp\<close>). Its array of pipes has
  four zones: first the pipes that match the current message, then the other active ones,
  then the eligible ones that became writable in the middle of a message, then the rest.
\<close>

record dist_t =
  ds_pipes :: "pipe_id list"
  ds_matching :: nat
  ds_active :: nat
  ds_eligible :: nat
  ds_more :: bool

definition new_dist :: dist_t where
  "new_dist = \<lparr>ds_pipes = [], ds_matching = 0, ds_active = 0, ds_eligible = 0, ds_more = False\<rparr>"

definition ds_index :: "pipe_id \<Rightarrow> dist_t \<Rightarrow> nat" where
  "ds_index x d = arr_index x (ds_pipes d)"

definition ds_swap :: "nat \<Rightarrow> nat \<Rightarrow> dist_t \<Rightarrow> dist_t" where
  "ds_swap i j d = d\<lparr>ds_pipes := arr_swap i j (ds_pipes d)\<rparr>"

definition dist_attach :: "pipe_id \<Rightarrow> dist_t \<Rightarrow> dist_t" where
  "dist_attach x d =
     (let d1 = d\<lparr>ds_pipes := arr_push_back x (ds_pipes d)\<rparr>; n = length (ds_pipes d1) - 1
      in if ds_more d1 then (ds_swap (ds_eligible d1) n d1)\<lparr>ds_eligible := ds_eligible d1 + 1\<rparr>
         else (ds_swap (ds_active d1) n d1)\<lparr>ds_active := ds_active d1 + 1, ds_eligible := ds_eligible d1 + 1\<rparr>)"

definition dist_match :: "pipe_id \<Rightarrow> dist_t \<Rightarrow> dist_t" where
  "dist_match x d =
     (if ds_index x d < ds_matching d then d
      else if ds_index x d \<ge> ds_eligible d then d
      else (ds_swap (ds_index x d) (ds_matching d) d)\<lparr>ds_matching := ds_matching d + 1\<rparr>)"

definition dist_unmatch :: "dist_t \<Rightarrow> dist_t" where
  "dist_unmatch d = d\<lparr>ds_matching := 0\<rparr>"

definition dist_reverse_match :: "dist_t \<Rightarrow> dist_t" where
  "dist_reverse_match d =
     fold (\<lambda>i d. (ds_swap i (ds_matching d) d)\<lparr>ds_matching := ds_matching d + 1\<rparr>)
       [ds_matching d..<ds_eligible d] (dist_unmatch d)"

definition dist_pipe_terminated :: "pipe_id \<Rightarrow> dist_t \<Rightarrow> dist_t" where
  "dist_pipe_terminated x d =
     (let d1 = (if ds_index x d < ds_matching d
                then (ds_swap (ds_index x d) (ds_matching d - 1) d)\<lparr>ds_matching := ds_matching d - 1\<rparr> else d);
          d2 = (if ds_index x d1 < ds_active d1
                then (ds_swap (ds_index x d1) (ds_active d1 - 1) d1)\<lparr>ds_active := ds_active d1 - 1\<rparr> else d1);
          d3 = (if ds_index x d2 < ds_eligible d2
                then (ds_swap (ds_index x d2) (ds_eligible d2 - 1) d2)\<lparr>ds_eligible := ds_eligible d2 - 1\<rparr> else d2)
      in d3\<lparr>ds_pipes := arr_erase x (ds_pipes d3)\<rparr>)"

definition dist_activated :: "pipe_id \<Rightarrow> dist_t \<Rightarrow> dist_t" where
  "dist_activated x d =
     (let d1 = (if ds_eligible d < length (ds_pipes d)
                then (ds_swap (ds_index x d) (ds_eligible d) d)\<lparr>ds_eligible := ds_eligible d + 1\<rparr> else d)
      in if \<not> ds_more d1 \<and> ds_active d1 < length (ds_pipes d1)
         then (ds_swap (ds_eligible d1 - 1) (ds_active d1) d1)\<lparr>ds_active := ds_active d1 + 1\<rparr> else d1)"

text \<open>A pipe that cannot take the message leaves all three zones.\<close>

definition dist_write :: "pipe_id \<Rightarrow> msg_t \<Rightarrow> dist_t \<times> heap \<Rightarrow> bool \<times> dist_t \<times> heap" where
  "dist_write x m = (\<lambda>(d, h).
     case pipe_write m (h x) of
       (False, p) \<Rightarrow>
         let d1 = (ds_swap (ds_index x d) (ds_matching d - 1) d)\<lparr>ds_matching := ds_matching d - 1\<rparr>;
             d2 = (ds_swap (ds_index x d1) (ds_active d1 - 1) d1)\<lparr>ds_active := ds_active d1 - 1\<rparr>;
             d3 = (ds_swap (ds_active d2) (ds_eligible d2 - 1) d2)\<lparr>ds_eligible := ds_eligible d2 - 1\<rparr>
         in (False, d3, h(x := p))
     | (True, p) \<Rightarrow> (True, d, h(x := if m_more m then p else pipe_flush p)))"

text \<open>The loop over the matching pipes from index \<open>i\<close> on: each round either passes one or removes one.\<close>

fun dist_distribute_from :: "nat \<Rightarrow> nat \<Rightarrow> msg_t \<Rightarrow> dist_t \<times> heap \<Rightarrow> dist_t \<times> heap" where
  "dist_distribute_from 0 i m (d, h) = (d, h)"
| "dist_distribute_from (Suc n) i m (d, h) =
     (if i < ds_matching d
      then case dist_write (ds_pipes d ! i) m (d, h) of
          (False, d', h') \<Rightarrow> dist_distribute_from n i m (d', h')
        | (True, d', h') \<Rightarrow> dist_distribute_from n (i + 1) m (d', h')
      else (d, h))"

definition dist_distribute :: "msg_t \<Rightarrow> dist_t \<times> heap \<Rightarrow> dist_t \<times> heap" where
  "dist_distribute m = (\<lambda>(d, h). dist_distribute_from (ds_matching d) 0 m (d, h))"

definition dist_send_to_matching :: "msg_t \<Rightarrow> dist_t \<times> heap \<Rightarrow> dist_t \<times> heap" where
  "dist_send_to_matching m = (\<lambda>s.
     case dist_distribute m s of
       (d, h) \<Rightarrow> ((if \<not> m_more m then d\<lparr>ds_active := ds_eligible d\<rparr> else d)\<lparr>ds_more := m_more m\<rparr>, h))"

definition dist_send_to_all :: "msg_t \<Rightarrow> dist_t \<times> heap \<Rightarrow> dist_t \<times> heap" where
  "dist_send_to_all m = (\<lambda>(d, h). dist_send_to_matching m (d\<lparr>ds_matching := ds_active d\<rparr>, h))"

definition dist_check_hwm :: "dist_t \<times> heap \<Rightarrow> bool" where
  "dist_check_hwm = (\<lambda>(d, h). list_all (\<lambda>x. pipe_check_hwm (h x)) (take (ds_matching d) (ds_pipes d)))"

section \<open>The zones\<close>

definition dist_ok :: "dist_t \<Rightarrow> bool" where
  "dist_ok d \<longleftrightarrow> distinct (ds_pipes d) \<and> ds_matching d \<le> ds_active d \<and> ds_active d \<le> ds_eligible d
     \<and> ds_eligible d \<le> length (ds_pipes d) \<and> (\<not> ds_more d \<longrightarrow> ds_active d = ds_eligible d)"

definition matching :: "dist_t \<Rightarrow> pipe_id set" where
  "matching d = set (take (ds_matching d) (ds_pipes d))"

definition eligible :: "dist_t \<Rightarrow> pipe_id set" where
  "eligible d = set (take (ds_eligible d) (ds_pipes d))"

lemma arr_swap_length [simp]: "length (arr_swap i j xs) = length xs"
  by (simp add: arr_swap_def)

lemma arr_swap_nth:
  "i < length xs \<Longrightarrow> j < length xs \<Longrightarrow> k < length xs \<Longrightarrow>
     arr_swap i j xs ! k = (if k = j then xs ! i else if k = i then xs ! j else xs ! k)"
  by (auto simp: arr_swap_def nth_list_update)

lemma arr_swap_set: "i < length xs \<Longrightarrow> j < length xs \<Longrightarrow> set (arr_swap i j xs) = set xs"
  unfolding arr_swap_def by (rule set_swap)

lemma arr_swap_distinct: "i < length xs \<Longrightarrow> j < length xs \<Longrightarrow> distinct (arr_swap i j xs) = distinct xs"
  unfolding arr_swap_def by (rule distinct_swap)

lemma arr_index_le: "arr_index x xs \<le> length xs"
  by (induction xs) auto

lemma arr_index_less: "arr_index x xs < length xs \<longleftrightarrow> x \<in> set xs"
  by (induction xs) auto

lemma arr_index_nth: "x \<in> set xs \<Longrightarrow> xs ! arr_index x xs = x"
  by (induction xs) auto

lemma arr_index_nth_distinct: "distinct xs \<Longrightarrow> i < length xs \<Longrightarrow> arr_index (xs ! i) xs = i"
  by (metis arr_index_le arr_index_less arr_index_nth nth_eq_iff_index_eq nth_mem)

lemma in_take_iff: "distinct xs \<Longrightarrow> x \<in> set xs \<Longrightarrow> x \<in> set (take n xs) \<longleftrightarrow> arr_index x xs < n"
  by (metis arr_index_less arr_index_nth arr_index_nth_distinct in_set_conv_nth length_take min_less_iff_conj nth_take)

lemma ds_swap_sel [simp]:
  "ds_matching (ds_swap i j d) = ds_matching d" "ds_active (ds_swap i j d) = ds_active d"
  "ds_eligible (ds_swap i j d) = ds_eligible d" "ds_more (ds_swap i j d) = ds_more d"
  "ds_pipes (ds_swap i j d) = arr_swap i j (ds_pipes d)"
  by (simp_all add: ds_swap_def)

lemma take_swap_inside:
  assumes "i < n" "j < n" "n \<le> length xs"
  shows "set (take n (arr_swap i j xs)) = set (take n xs)"
proof -
  have "take n (arr_swap i j xs) = arr_swap i j (take n xs)"
    using assms by (simp add: arr_swap_def take_update_swap)
  then show ?thesis using assms by (simp add: arr_swap_set)
qed

lemma take_swap_outside:
  assumes "n \<le> i" "n \<le> j"
  shows "take n (arr_swap i j xs) = take n xs"
  using assms by (simp add: arr_swap_def)

lemma dist_match_ok:
  assumes "dist_ok d" "\<not> ds_more d"
  shows "dist_ok (dist_match x d)" "\<not> ds_more (dist_match x d)"
    and "matching (dist_match x d) = (if x \<in> eligible d then insert x (matching d) else matching d)"
    and "eligible (dist_match x d) = eligible d" "set (ds_pipes (dist_match x d)) = set (ds_pipes d)"
proof -
  let ?i = "ds_index x d" and ?m = "ds_matching d" and ?e = "ds_eligible d" and ?xs = "ds_pipes d"
  have ok: "distinct ?xs" "?m \<le> ?e" "ds_active d = ?e" "?e \<le> length ?xs"
    using assms by (auto simp: dist_ok_def)
  have el: "x \<in> eligible d \<longleftrightarrow> ?i < ?e"
    using ok(1,4) by (metis arr_index_less ds_index_def eligible_def in_set_takeD in_take_iff order_less_le_trans)
  have ma: "x \<in> matching d \<longleftrightarrow> ?i < ?m"
    using ok(1,2,4) by (metis arr_index_less ds_index_def in_set_takeD in_take_iff matching_def order_less_le_trans le_trans)
  have "dist_ok (dist_match x d) \<and> \<not> ds_more (dist_match x d)
    \<and> matching (dist_match x d) = (if x \<in> eligible d then insert x (matching d) else matching d)
    \<and> eligible (dist_match x d) = eligible d \<and> set (ds_pipes (dist_match x d)) = set ?xs"
  proof (cases "?i < ?m \<or> ?i \<ge> ?e")
    case True
    then have "dist_match x d = d" by (auto simp: dist_match_def)
    moreover have "insert x (matching d) = matching d" if "x \<in> eligible d"
      using that True el ma by auto
    ultimately show ?thesis using assms by auto
  next
    case False
    then have i: "?m \<le> ?i" "?i < ?e" "?m < length ?xs" "?i < length ?xs" using ok by auto
    have d: "dist_match x d = (ds_swap ?i ?m d)\<lparr>ds_matching := ?m + 1\<rparr>"
      using False by (auto simp: dist_match_def)
    have "take (Suc ?m) (arr_swap ?i ?m ?xs) = take ?m ?xs @ [x]"
      using i arr_index_nth [of x ?xs] arr_index_less [of x ?xs]
      by (subst take_Suc_conv_app_nth) (auto simp: take_swap_outside arr_swap_nth ds_index_def)
    then have "matching (dist_match x d) = insert x (matching d)"
      by (simp add: d matching_def)
    moreover have "eligible (dist_match x d) = eligible d"
      using take_swap_inside [of ?i ?e ?m ?xs] i ok by (simp add: d eligible_def)
    ultimately show ?thesis
      using i ok assms el by (auto simp: d dist_ok_def arr_swap_distinct arr_swap_set)
  qed
  then show "dist_ok (dist_match x d)" "\<not> ds_more (dist_match x d)"
    "matching (dist_match x d) = (if x \<in> eligible d then insert x (matching d) else matching d)"
    "eligible (dist_match x d) = eligible d" "set (ds_pipes (dist_match x d)) = set (ds_pipes d)"
    by auto
qed

section \<open>What a distribution reaches\<close>

text \<open>The pipe after an attempt to write a frame into it.\<close>

definition dist_put :: "msg_t \<Rightarrow> pipe_t \<Rightarrow> pipe_t" where
  "dist_put m p = (case pipe_write m p of (b, p') \<Rightarrow> if b \<and> \<not> m_more m then pipe_flush p' else p')"

definition can_take :: "msg_t \<Rightarrow> pipe_t \<Rightarrow> bool" where
  "can_take m p = fst (pipe_write m p)"

definition zones_ok :: "dist_t \<Rightarrow> bool" where
  "zones_ok d \<longleftrightarrow> distinct (ds_pipes d) \<and> ds_matching d \<le> ds_active d \<and> ds_active d \<le> ds_eligible d
     \<and> ds_eligible d \<le> length (ds_pipes d)"

lemma take_Suc_less_one:
  "distinct xs \<Longrightarrow> n < length xs \<Longrightarrow> set (take n xs) = set (take (Suc n) xs) - {xs ! n}"
  by (auto simp: take_Suc_conv_app_nth dest: in_set_takeD) (metis distinct_conv_nth in_set_conv_nth length_take
      min_less_iff_conj nth_take order_less_irrefl order_less_trans)

text \<open>One pipe fails: it drops out of every zone and nothing else moves across a border.\<close>

lemma dist_write_fails:
  assumes "zones_ok d" "i < ds_matching d" "\<not> can_take m (h (ds_pipes d ! i))"
  defines "x \<equiv> ds_pipes d ! i"
  obtains d' where "dist_write x m (d, h) = (False, d', h(x := dist_put m (h x)))" "zones_ok d'"
    "ds_matching d' = ds_matching d - 1" "ds_more d' = ds_more d" "set (ds_pipes d') = set (ds_pipes d)"
    "matching d' = matching d - {x}" "eligible d' = eligible d - {x}"
    "take i (ds_pipes d') = take i (ds_pipes d)" "ds_eligible d' - ds_active d' = ds_eligible d - ds_active d"
proof -
  let ?P = "ds_pipes d" and ?M = "ds_matching d" and ?A = "ds_active d" and ?E = "ds_eligible d"
  have ok: "distinct ?P" "?M \<le> ?A" "?A \<le> ?E" "?E \<le> length ?P" using assms(1) by (auto simp: zones_ok_def)
  let ?P1 = "arr_swap i (?M - 1) ?P"
  let ?P2 = "arr_swap (?M - 1) (?A - 1) ?P1"
  let ?P3 = "arr_swap (?A - 1) (?E - 1) ?P2"
  have ix: "ds_index x d = i" using ok assms(2) by (simp add: ds_index_def x_def arr_index_nth_distinct)
  have dist: "distinct ?P1" "distinct ?P2" "distinct ?P3"
    using ok assms(2) by (simp_all add: arr_swap_distinct)
  have n1: "?P1 ! (?M - 1) = x" using ok assms(2) by (simp add: arr_swap_nth x_def)
  have n2: "?P2 ! (?A - 1) = x" using ok assms(2) n1 by (simp add: arr_swap_nth)
  have n3: "?P3 ! (?E - 1) = x" using ok assms(2) n2 by (simp add: arr_swap_nth)
  have ix1: "arr_index x ?P1 = ?M - 1"
    using arr_index_nth_distinct [OF dist(1), of "?M - 1"] n1 ok assms(2) by simp
  obtain p where p: "pipe_write m (h x) = (False, p)"
    using assms(3) by (cases "pipe_write m (h x)") (auto simp: can_take_def x_def)
  let ?d = "d\<lparr>ds_pipes := ?P3, ds_matching := ?M - 1, ds_active := ?A - 1, ds_eligible := ?E - 1\<rparr>"
  have w: "dist_write x m (d, h) = (False, ?d, h(x := dist_put m (h x)))"
    using ix ix1 by (simp add: dist_write_def p dist_put_def ds_index_def ds_swap_def Let_def)
  have s3: "take (?M - 1) ?P3 = take (?M - 1) ?P1"
    using ok assms(2) by (simp add: take_swap_outside)
  have "set (take (?M - 1) ?P1) = set (take ?M ?P1) - {x}"
    using take_Suc_less_one [OF dist(1), of "?M - 1"] n1 ok assms(2) by simp
  then have ma: "matching ?d = matching d - {x}"
    using take_swap_inside [of i ?M "?M - 1" ?P] ok assms(2) s3 by (simp add: matching_def)
  have "set (take (?E - 1) ?P3) = set (take ?E ?P3) - {x}"
    using take_Suc_less_one [OF dist(3), of "?E - 1"] n3 ok assms(2) by simp
  also have "set (take ?E ?P3) = set (take ?E ?P)"
    using ok assms(2) by (simp add: take_swap_inside)
  finally have el: "eligible ?d = eligible d - {x}" by (simp add: eligible_def)
  have "take i ?P3 = take i ?P" using ok assms(2) by (simp add: take_swap_outside)
  moreover have "set ?P3 = set ?P" using ok assms(2) by (simp add: arr_swap_set)
  moreover have "zones_ok ?d" using ok assms(2) dist(3) by (auto simp: zones_ok_def)
  ultimately show ?thesis using that [OF w] ma el ok assms(2) by simp
qed

lemma dist_write_takes:
  "can_take m (h x) \<Longrightarrow> dist_write x m (d, h) = (True, d, h(x := dist_put m (h x)))"
  by (auto simp: can_take_def dist_write_def dist_put_def split: prod.splits)

lemma distribute_from:
  assumes "zones_ok d" "i \<le> ds_matching d" "ds_matching d - i \<le> n"
    and "S = matching d - set (take i (ds_pipes d))"
  shows "\<exists>d'. dist_distribute_from n i m (d, h) = (d', \<lambda>x. if x \<in> S then dist_put m (h x) else h x)
    \<and> zones_ok d' \<and> ds_more d' = ds_more d \<and> set (ds_pipes d') = set (ds_pipes d)
    \<and> matching d' = matching d - {x \<in> S. \<not> can_take m (h x)}
    \<and> eligible d' = eligible d - {x \<in> S. \<not> can_take m (h x)}
    \<and> ds_eligible d' - ds_active d' = ds_eligible d - ds_active d"
  using assms
proof (induction n arbitrary: i d h S)
  case 0
  then have "i = ds_matching d" by simp
  then have "S = {}" using 0 by (simp add: matching_def)
  then show ?case using 0(1) by simp
next
  case (Suc n)
  show ?case
  proof (cases "i < ds_matching d")
    case False
    then have "S = {}" using Suc.prems(2,4) by (simp add: matching_def)
    then show ?thesis using Suc.prems(1) False by simp
  next
    case True
    let ?x = "ds_pipes d ! i"
    have ok: "distinct (ds_pipes d)" "ds_matching d \<le> length (ds_pipes d)"
      using Suc.prems(1) by (auto simp: zones_ok_def)
    have xm: "?x \<in> matching d" using True ok by (auto simp: matching_def in_set_conv_nth)
    have xi: "?x \<notin> set (take i (ds_pipes d))"
      using take_Suc_less_one [OF ok(1), of i] True ok by auto
    then have xS: "?x \<in> S" using xm Suc.prems(4) by simp
    show ?thesis
    proof (cases "can_take m (h ?x)")
      case True
      let ?h = "h(?x := dist_put m (h ?x))"
      have S': "S - {?x} = matching d - set (take (i + 1) (ds_pipes d))"
        using \<open>i < ds_matching d\<close> ok Suc.prems(4) by (auto simp: take_Suc_conv_app_nth)
      have "\<exists>d'. dist_distribute_from n (i + 1) m (d, ?h) = (d', \<lambda>y. if y \<in> S - {?x} then dist_put m (?h y) else ?h y)
        \<and> zones_ok d' \<and> ds_more d' = ds_more d \<and> set (ds_pipes d') = set (ds_pipes d)
        \<and> matching d' = matching d - {y \<in> S - {?x}. \<not> can_take m (?h y)}
        \<and> eligible d' = eligible d - {y \<in> S - {?x}. \<not> can_take m (?h y)}
        \<and> ds_eligible d' - ds_active d' = ds_eligible d - ds_active d"
        using \<open>i < ds_matching d\<close> Suc.prems by (intro Suc.IH S') auto
      moreover have "(\<lambda>y. if y \<in> S - {?x} then dist_put m (?h y) else ?h y) = (\<lambda>y. if y \<in> S then dist_put m (h y) else h y)"
        using xS by auto
      moreover have "{y \<in> S - {?x}. \<not> can_take m (?h y)} = {y \<in> S. \<not> can_take m (h y)}"
        using True by auto
      ultimately show ?thesis
        using \<open>i < ds_matching d\<close> using dist_write_takes [of m h ?x d] True by (simp del: fun_upd_apply)
    next
      case False
      let ?h = "h(?x := dist_put m (h ?x))"
      obtain d1 where w: "dist_write ?x m (d, h) = (False, d1, ?h)" "zones_ok d1"
        "ds_matching d1 = ds_matching d - 1" "ds_more d1 = ds_more d" "set (ds_pipes d1) = set (ds_pipes d)"
        "matching d1 = matching d - {?x}" "eligible d1 = eligible d - {?x}"
        "take i (ds_pipes d1) = take i (ds_pipes d)" "ds_eligible d1 - ds_active d1 = ds_eligible d - ds_active d"
        using dist_write_fails [of d i m h] Suc.prems(1) True False by metis
      have S': "S - {?x} = matching d1 - set (take i (ds_pipes d1))"
        using Suc.prems(4) xi by (auto simp: w(6,8))
      have "\<exists>d'. dist_distribute_from n i m (d1, ?h) = (d', \<lambda>y. if y \<in> S - {?x} then dist_put m (?h y) else ?h y)
        \<and> zones_ok d' \<and> ds_more d' = ds_more d1 \<and> set (ds_pipes d') = set (ds_pipes d1)
        \<and> matching d' = matching d1 - {y \<in> S - {?x}. \<not> can_take m (?h y)}
        \<and> eligible d' = eligible d1 - {y \<in> S - {?x}. \<not> can_take m (?h y)}
        \<and> ds_eligible d' - ds_active d' = ds_eligible d1 - ds_active d1"
        using True Suc.prems(3) w(2,3) by (intro Suc.IH S') auto
      moreover have "(\<lambda>y. if y \<in> S - {?x} then dist_put m (?h y) else ?h y) = (\<lambda>y. if y \<in> S then dist_put m (h y) else h y)"
        using xS by auto
      moreover have "A - {?x} - {y \<in> S - {?x}. \<not> can_take m (?h y)} = A - {y \<in> S. \<not> can_take m (h y)}" for A
        using False xS by auto
      ultimately show ?thesis
        using True w by (simp del: fun_upd_apply)
    qed
  qed
qed

text \<open>A frame sent to the matching pipes reaches exactly those of them that can take it.\<close>

lemma send_to_matching:
  assumes "zones_ok d"
  shows "\<exists>d'. dist_send_to_matching m (d, h) = (d', \<lambda>x. if x \<in> matching d then dist_put m (h x) else h x)
    \<and> zones_ok d' \<and> ds_more d' = m_more m \<and> set (ds_pipes d') = set (ds_pipes d)
    \<and> matching d' = matching d - {x. \<not> can_take m (h x)}
    \<and> eligible d' = eligible d - {x \<in> matching d. \<not> can_take m (h x)}
    \<and> (\<not> m_more m \<longrightarrow> ds_active d' = ds_eligible d')"
proof -
  obtain d' where d': "dist_distribute m (d, h) = (d', \<lambda>x. if x \<in> matching d then dist_put m (h x) else h x)"
    "zones_ok d'" "set (ds_pipes d') = set (ds_pipes d)"
    "matching d' = matching d - {x \<in> matching d. \<not> can_take m (h x)}"
    "eligible d' = eligible d - {x \<in> matching d. \<not> can_take m (h x)}"
    using distribute_from [OF assms, of 0 "ds_matching d" "matching d" m h] by (auto simp: dist_distribute_def)
  then show ?thesis
    by (auto simp: dist_send_to_matching_def zones_ok_def matching_def eligible_def)
qed

end
