(* ===== verification/ZmqTrie.thy ===== *)
theory ZmqTrie
  imports ZmqMsg "HOL-Library.Sublist"
begin

text \<open>
  The compact prefix tries of libzmq: \<open>3rd/zeromq/src/trie.cpp\<close>, which counts subscriptions in a SUB
  socket, and the part of \<open>generic_mtrie_impl.hpp\<close> that shares its table handling. A node's
  children are one table of slots for the characters from \<open>min\<close> on; \<open>count\<close> is the length of
  the table (a single child needs no table in C++, here it is a table of one slot).
\<close>

datatype 'a trie_t = Trie (node_val: 'a) (node_min: nat) (node_live: nat) (node_next: "'a trie_t option list")

definition node_count :: "'a trie_t \<Rightarrow> nat" where
  "node_count t = length (node_next t)"

definition new_trie :: "'a \<Rightarrow> 'a trie_t" where
  "new_trie z = Trie z 0 0 []"

definition char_num :: "byte \<Rightarrow> nat" where
  "char_num c = of_char c"

section \<open>add\<close>

text \<open>Make room for the character \<open>c\<close>: a fresh table, or an extension of the range at one end.\<close>

definition extend_table :: "nat \<Rightarrow> 'a trie_t \<Rightarrow> 'a trie_t" where
  "extend_table c t = (case t of Trie v mn live tab \<Rightarrow>
     if mn \<le> c \<and> c < mn + length tab then t
     else if tab = [] then Trie v c live [None]
     else if length tab = 1 then
       (let count = (if mn < c then c - mn else mn - c) + 1; mn' = min mn c
        in Trie v mn' live ((replicate count None)[mn - mn' := hd tab]))
     else if mn < c then Trie v mn live (tab @ replicate (c - mn + 1 - length tab) None)
     else Trie v c live (replicate (mn - c) None @ tab))"

text \<open>The walk down to the node of a prefix, creating nodes on the way; \<open>f\<close> changes the value there.\<close>

fun trie_update :: "'a \<Rightarrow> ('a \<Rightarrow> 'a) \<Rightarrow> bytes \<Rightarrow> 'a trie_t \<Rightarrow> 'a trie_t" where
  "trie_update z f [] (Trie v mn live tab) = Trie (f v) mn live tab"
| "trie_update z f (ch # cs) t =
     (let c = char_num ch in
      case extend_table c t of Trie v mn live tab \<Rightarrow>
        (case tab ! (c - mn) of
           None \<Rightarrow> Trie v mn (live + 1) (tab[c - mn := Some (trie_update z f cs (new_trie z))])
         | Some n \<Rightarrow> Trie v mn live (tab[c - mn := Some (trie_update z f cs n)])))"

text \<open>The value at the node of a prefix; \<open>z\<close> if there is no such node.\<close>

fun trie_lookup :: "'a \<Rightarrow> bytes \<Rightarrow> 'a trie_t \<Rightarrow> 'a" where
  "trie_lookup z [] t = node_val t"
| "trie_lookup z (ch # cs) t =
     (let c = char_num ch in
      if c < node_min t \<or> c \<ge> node_min t + node_count t then z
      else case node_next t ! (c - node_min t) of None \<Rightarrow> z | Some n \<Rightarrow> trie_lookup z cs n)"

section \<open>rm\<close>

definition is_redundant :: "'a \<Rightarrow> 'a trie_t \<Rightarrow> bool" where
  "is_redundant z t \<longleftrightarrow> node_val t = z \<and> node_live t = 0"

text \<open>Compaction after the slot of \<open>c\<close> became empty: from the left, from the right, or down to a
  single child. \<open>leading\<close> counts the empty slots at the front.\<close>

fun leading :: "'a option list \<Rightarrow> nat" where
  "leading (None # xs) = Suc (leading xs)"
| "leading _ = 0"

definition prune_table :: "nat \<Rightarrow> 'a trie_t \<Rightarrow> 'a trie_t" where
  "prune_table c t = (case t of Trie v mn live tab \<Rightarrow>
     if length tab = 1 then Trie v mn (live - 1) []
     else
       let tab' = tab[c - mn := None]; live' = live - 1; count = length tab in
       if live' = 1 then \<comment> \<open>the other live slot is at the other end\<close>
         if c = mn then Trie v (mn + count - 1) live' [last tab']
         else Trie v mn live' [hd tab']
       else if c = mn then
         let k = leading tab' in Trie v (mn + k) live' (drop k tab')
       else if c = mn + count - 1 then
         Trie v mn live' (take (count - leading (rev tab')) tab')
       else Trie v mn live' tab')"

text \<open>The walk down, \<open>f\<close> at the node, and on the way back the removal of nodes that became redundant.
  Nothing happens when there is no node for the prefix.\<close>

fun trie_remove :: "'a \<Rightarrow> ('a \<Rightarrow> 'a) \<Rightarrow> bytes \<Rightarrow> 'a trie_t \<Rightarrow> 'a trie_t" where
  "trie_remove z f [] (Trie v mn live tab) = Trie (f v) mn live tab"
| "trie_remove z f (ch # cs) t =
     (let c = char_num ch in
      if c < node_min t \<or> c \<ge> node_min t + node_count t then t
      else case node_next t ! (c - node_min t) of
        None \<Rightarrow> t
      | Some n \<Rightarrow>
          let n' = trie_remove z f cs n;
              t' = Trie (node_val t) (node_min t) (node_live t) ((node_next t)[c - node_min t := Some n'])
          in if is_redundant z n' then prune_table c t' else t')"

section \<open>trie.cpp\<close>

text \<open>The value of a node is the number of subscriptions, a \<open>uint32_t\<close>.\<close>

type_synonym sub_trie = "32 word trie_t"

definition trie_add :: "bytes \<Rightarrow> sub_trie \<Rightarrow> bool \<times> sub_trie" where
  "trie_add p t = (trie_lookup 0 p t + 1 = 1, trie_update 0 (\<lambda>n. n + 1) p t)"

definition trie_rm :: "bytes \<Rightarrow> sub_trie \<Rightarrow> bool \<times> sub_trie" where
  "trie_rm p t = (trie_lookup 0 p t = 1, trie_remove 0 (\<lambda>n. if n = 0 then 0 else n - 1) p t)"

fun trie_check :: "bytes \<Rightarrow> sub_trie \<Rightarrow> bool" where
  "trie_check [] t = (node_val t \<noteq> 0)"
| "trie_check (ch # cs) t =
     (if node_val t \<noteq> 0 then True
      else let c = char_num ch in
        if c < node_min t \<or> c \<ge> node_min t + node_count t then False
        else case node_next t ! (c - node_min t) of None \<Rightarrow> False | Some n \<Rightarrow> trie_check cs n)"

section \<open>The shape of a trie\<close>

definition filled :: "'a option list \<Rightarrow> nat" where
  "filled tab = length (filter (\<lambda>s. s \<noteq> None) tab)"

text \<open>The live count is right, characters stay below 256 and the table starts and ends with a child.\<close>

fun trie_ok :: "'a trie_t \<Rightarrow> bool" where
  "trie_ok (Trie v mn live tab) \<longleftrightarrow> live = filled tab \<and> mn + length tab \<le> 256
     \<and> (tab \<noteq> [] \<longrightarrow> hd tab \<noteq> None \<and> last tab \<noteq> None)
     \<and> list_all (\<lambda>s. case s of None \<Rightarrow> True | Some t \<Rightarrow> trie_ok t) tab"

definition slot :: "'a trie_t \<Rightarrow> nat \<Rightarrow> 'a trie_t option" where
  "slot t c = (if c < node_min t \<or> c \<ge> node_min t + node_count t then None else node_next t ! (c - node_min t))"

lemma trie_ok_Trie [simp]:
  "trie_ok (Trie v mn live tab) \<longleftrightarrow> live = filled tab \<and> mn + length tab \<le> 256
     \<and> (tab \<noteq> [] \<longrightarrow> hd tab \<noteq> None \<and> last tab \<noteq> None) \<and> (\<forall>n. Some n \<in> set tab \<longrightarrow> trie_ok n)"
  by (auto simp: trie_ok.simps list_all_iff split: option.splits)

declare trie_ok.simps [simp del]

lemma char_num_less [simp]: "char_num c < 256"
  by (simp add: char_num_def of_char_lt_256)

lemma char_num_inj [simp]: "char_num a = char_num b \<longleftrightarrow> a = b"
  by (simp add: char_num_def)

lemma filled_Nil [simp]: "filled [] = 0"
  by (simp add: filled_def)

lemma filled_Cons [simp]: "filled (s # tab) = (if s = None then 0 else 1) + filled tab"
  by (simp add: filled_def)

lemma filled_append [simp]: "filled (xs @ ys) = filled xs + filled ys"
  by (simp add: filled_def)

lemma filled_replicate [simp]: "filled (replicate n None) = 0"
  by (simp add: filled_def)

lemma filled_update:
  "i < length tab \<Longrightarrow> filled (tab[i := s]) + (if tab ! i = None then 0 else 1) = filled tab + (if s = None then 0 else 1)"
proof (induction tab arbitrary: i)
  case (Cons a tab)
  then show ?case by (cases i) auto
qed simp

lemma filled_0: "filled tab = 0 \<longleftrightarrow> (\<forall>s \<in> set tab. s = None)"
  by (induction tab) auto

lemma lookup_slot:
  "trie_lookup z (ch # cs) t = (case slot t (char_num ch) of None \<Rightarrow> z | Some n \<Rightarrow> trie_lookup z cs n)"
  by (simp add: slot_def Let_def)

lemma check_slot:
  "trie_check (ch # cs) t \<longleftrightarrow>
     node_val t \<noteq> 0 \<or> (case slot t (char_num ch) of None \<Rightarrow> False | Some n \<Rightarrow> trie_check cs n)"
  by (simp add: slot_def Let_def)

lemma some_nth:
  "(\<And>n. Some n \<in> set tab \<Longrightarrow> P n) \<Longrightarrow> tab ! i = Some n \<Longrightarrow> i < length tab \<Longrightarrow> P n"
  by (metis nth_mem)

lemma trie_ok_slot: "trie_ok t \<Longrightarrow> slot t c = Some n \<Longrightarrow> trie_ok n"
  by (cases t) (auto simp: slot_def node_count_def split: if_splits elim!: some_nth [rotated])

lemma lookup_new [simp]: "trie_lookup z p (new_trie z) = z"
  by (cases p) (auto simp: new_trie_def node_count_def Let_def)

lemma trie_ok_new [simp]: "trie_ok (new_trie z)"
  by (simp add: new_trie_def)

text \<open>Growing the table moves no child and makes room for \<open>c\<close>; only the slot of \<open>c\<close> may leave an end of
  the table empty.\<close>

definition room_for :: "nat \<Rightarrow> 'a trie_t \<Rightarrow> bool" where
  "room_for c t \<longleftrightarrow> node_min t \<le> c \<and> c < node_min t + node_count t \<and> node_min t + node_count t \<le> 256
     \<and> node_live t = filled (node_next t)
     \<and> (hd (node_next t) \<noteq> None \<or> c = node_min t) \<and> (last (node_next t) \<noteq> None \<or> c = node_min t + node_count t - 1)
     \<and> (\<forall>n. Some n \<in> set (node_next t) \<longrightarrow> trie_ok n)"

lemma extend_table_room:
  assumes "trie_ok t" "c < 256"
  shows "room_for c (extend_table c t)" "slot (extend_table c t) = slot t" "node_val (extend_table c t) = node_val t"
proof -
  obtain v mn live tab where t: "t = Trie v mn live tab" by (cases t)
  have ok: "live = filled tab" "mn + length tab \<le> 256" "tab \<noteq> [] \<Longrightarrow> hd tab \<noteq> None \<and> last tab \<noteq> None"
    "\<And>n. Some n \<in> set tab \<Longrightarrow> trie_ok n"
    using assms(1) unfolding t by auto
  show "node_val (extend_table c t) = node_val t"
    by (auto simp: t extend_table_def Let_def)
  consider (within) "mn \<le> c" "c < mn + length tab" | (fresh) "tab = []"
    | (single) a where "tab = [a]" "c \<noteq> mn" | (above) "length tab > 1" "mn + length tab \<le> c"
    | (below) "length tab > 1" "c < mn"
    by (cases tab rule: remdups_adj.cases) (auto, linarith+)
  then have "room_for c (extend_table c t) \<and> (\<forall>d. slot (extend_table c t) d = slot t d)"
  proof cases
  case within
    then have "tab \<noteq> []" by auto
    then show ?thesis
      using ok within by (auto simp: t extend_table_def room_for_def node_count_def)
  next
    case fresh
    then show ?thesis
      using ok assms(2) by (auto simp: t extend_table_def room_for_def node_count_def slot_def)
  next
    case (single a)
    show ?thesis
    proof (cases "mn < c")
      case True
      then have "extend_table c t = Trie v mn live (a # replicate (c - mn) None)"
        using single by (auto simp: t extend_table_def Let_def)
      then show ?thesis
        using ok single True assms(2)
        by (auto simp: t room_for_def node_count_def slot_def nth_Cons' last_replicate)
    next
      case False
      then have "extend_table c t = Trie v c live (replicate (mn - c) None @ [a])"
        using single by (auto simp: t extend_table_def Let_def min_def list_update_append simp flip: replicate_append_same)
      then show ?thesis
        using ok single False assms(2)
        by (auto simp: t room_for_def node_count_def slot_def nth_append hd_append)
    qed
  next
    case above
    then have "extend_table c t = Trie v mn live (tab @ replicate (c - mn + 1 - length tab) None)"
      by (auto simp: t extend_table_def Let_def)
    then show ?thesis
      using ok above assms(2) by (auto simp: t room_for_def node_count_def slot_def nth_append hd_append)
  next
    case below
    then have "tab \<noteq> []" by auto
    from below have "extend_table c t = Trie v c live (replicate (mn - c) None @ tab)"
      by (auto simp: t extend_table_def Let_def)
    with \<open>tab \<noteq> []\<close> show ?thesis
      using ok below assms(2) by (auto simp: t room_for_def node_count_def slot_def nth_append)
  qed
  then show "room_for c (extend_table c t)" "slot (extend_table c t) = slot t" by auto
qed

section \<open>What the trie holds\<close>

lemma slot_Trie_update:
  assumes "mn \<le> c" "c < mn + length tab"
  shows "slot (Trie v mn live (tab[c - mn := s])) d = (if d = c then s else slot (Trie v mn live tab) d)"
  using assms by (auto simp: slot_def node_count_def nth_list_update)

text \<open>Putting a child into the slot that was made room for.\<close>

lemma put_child:
  assumes "room_for c t" "trie_ok n"
  shows "trie_ok (Trie (node_val t) (node_min t)
      (node_live t + (if node_next t ! (c - node_min t) = None then 1 else 0)) ((node_next t)[c - node_min t := Some n]))"
proof (cases t)
  case (Trie v mn live tab)
  let ?i = "c - mn"
  have r: "mn \<le> c" "c < mn + length tab" "mn + length tab \<le> 256" "live = filled tab"
    "hd tab \<noteq> None \<or> c = mn" "last tab \<noteq> None \<or> c = mn + length tab - 1" "\<And>m. Some m \<in> set tab \<Longrightarrow> trie_ok m"
    using assms(1) by (auto simp: Trie room_for_def node_count_def)
  then have i: "?i < length tab" "tab \<noteq> []" by auto
  have "hd (tab[?i := Some n]) \<noteq> None"
    using r(1,5) i by (cases tab) (auto simp: list_update.simps split: nat.splits)
  moreover have "last (tab[?i := Some n]) \<noteq> None"
    using r(1,2,6) i by (auto simp: last_conv_nth nth_list_update)
  moreover have "\<And>m. Some m \<in> set (tab[?i := Some n]) \<Longrightarrow> trie_ok m"
    using r(7) assms(2) set_update_subset_insert [of tab ?i "Some n"] by auto
  ultimately show ?thesis
    using r(3,4) i filled_update [OF i(1), of "Some n"] by (auto simp: Trie split: if_splits)
qed

lemma trie_update_Cons:
  assumes "extend_table (char_num ch) t = Trie v mn live tab"
  shows "trie_update z f (ch # cs) t = Trie v mn (live + (if tab ! (char_num ch - mn) = None then 1 else 0))
     (tab[char_num ch - mn := Some (trie_update z f cs
        (case tab ! (char_num ch - mn) of None \<Rightarrow> new_trie z | Some n \<Rightarrow> n))])"
  using assms by (auto simp: Let_def split: option.splits)

lemma trie_update_ok:
  "trie_ok t \<Longrightarrow> trie_ok (trie_update z f p t)"
proof (induction p arbitrary: t)
  case Nil
  then show ?case by (cases t) auto
next
  case (Cons ch cs)
  obtain v mn live tab where e: "extend_table (char_num ch) t = Trie v mn live tab"
    by (cases "extend_table (char_num ch) t")
  have r: "room_for (char_num ch) (Trie v mn live tab)"
    using extend_table_room(1) [OF Cons.prems, of "char_num ch"] e by simp
  then have "char_num ch - mn < length tab" by (auto simp: room_for_def node_count_def)
  then have "trie_ok (case tab ! (char_num ch - mn) of None \<Rightarrow> new_trie z | Some n \<Rightarrow> n)"
    using r by (auto simp: room_for_def split: option.splits elim!: some_nth [rotated])
  then show ?case
    using put_child [OF r, of "trie_update z f cs (case tab ! (char_num ch - mn) of None \<Rightarrow> new_trie z | Some n \<Rightarrow> n)"]
      Cons.IH by (simp add: trie_update_Cons [OF e] del: trie_update.simps)
qed

lemma trie_update_lookup:
  "trie_ok t \<Longrightarrow> trie_lookup z q (trie_update z f p t) = (if q = p then f (trie_lookup z p t) else trie_lookup z q t)"
proof (induction p arbitrary: t q)
  case Nil
  then show ?case by (cases t; cases q) (auto simp: node_count_def Let_def)
next
  case (Cons ch cs)
  let ?c = "char_num ch"
  obtain v mn live tab where e: "extend_table ?c t = Trie v mn live tab"
    by (cases "extend_table ?c t")
  have r: "room_for ?c (Trie v mn live tab)" and s: "slot (Trie v mn live tab) = slot t" and nv: "v = node_val t"
    using extend_table_room [OF Cons.prems, of ?c] e by simp_all
  have i: "mn \<le> ?c" "?c < mn + length tab" using r by (auto simp: room_for_def node_count_def)
  have sc: "tab ! (?c - mn) = slot t ?c"
    using i unfolding s [symmetric] by (simp add: slot_def node_count_def)
  let ?n = "case slot t ?c of None \<Rightarrow> new_trie z | Some n \<Rightarrow> n"
  have n: "trie_ok ?n" using Cons.prems trie_ok_slot by (auto split: option.splits)
  have u: "trie_update z f (ch # cs) t = Trie v mn (live + (if tab ! (?c - mn) = None then 1 else 0))
      (tab[?c - mn := Some (trie_update z f cs ?n)])"
    using trie_update_Cons [OF e] by (simp add: sc)
  have su: "slot (trie_update z f (ch # cs) t) d = (if d = ?c then Some (trie_update z f cs ?n) else slot t d)" for d
    unfolding u slot_Trie_update [OF i] using s by (metis (no_types, lifting) node_count_def slot_def trie_t.sel(2,4))
  show ?case
  proof (cases q)
    case Nil
    then show ?thesis by (simp add: u nv del: trie_update.simps)
  next
    case q: (Cons d ds)
    have "trie_lookup z cs ?n = trie_lookup z (ch # cs) t" "trie_lookup z ds ?n = trie_lookup z (ch # ds) t"
      by (auto simp: lookup_slot simp del: trie_lookup.simps(2) split: option.splits)
    then show ?thesis
      using Cons.IH [OF n, of ds] by (auto simp: q lookup_slot su simp del: trie_update.simps trie_lookup.simps(2))
  qed
qed

section \<open>Pruning\<close>

lemma leading_le: "leading xs \<le> length xs"
  by (induction xs rule: leading.induct) auto

lemma leading_None: "i < leading xs \<Longrightarrow> xs ! i = None"
proof (induction xs arbitrary: i rule: leading.induct)
  case (1 xs)
  then show ?case by (cases i) auto
qed auto

lemma leading_Some: "leading xs < length xs \<Longrightarrow> xs ! leading xs \<noteq> None"
  by (induction xs rule: leading.induct) auto

lemma leading_filled: "filled xs > 0 \<Longrightarrow> leading xs < length xs"
  by (induction xs rule: leading.induct) auto

lemma filled_drop_leading: "filled (drop (leading xs) xs) = filled xs"
  by (induction xs rule: leading.induct) auto

lemma filled_rev [simp]: "filled (rev xs) = filled xs"
  by (induction xs) auto

lemma take_leading_rev:
  "take (length xs - leading (rev xs)) xs = rev (drop (leading (rev xs)) (rev xs))"
  by (simp add: rev_drop)

lemma table_ends:
  assumes "tab \<noteq> []" "hd tab \<noteq> None" "last tab \<noteq> None" "length tab \<noteq> 1"
  obtains a b mid where "tab = Some a # mid @ [Some b]"
  using assms by (cases tab; cases "tl tab" rule: rev_cases) auto

text \<open>Clearing the slot of \<open>c\<close> and compacting leaves every other child where it is.\<close>

lemma prune_left:
  assumes "tab = Some a # mid @ [Some b]" "filled mid > 0" "mn + length tab \<le> 256"
    "\<And>n. Some n \<in> set tab \<Longrightarrow> trie_ok n" "tab' = None # mid @ [Some b]"
  shows "trie_ok (Trie v (mn + leading tab') (filled tab - 1) (drop (leading tab') tab'))"
    and "slot (Trie v (mn + leading tab') (filled tab - 1) (drop (leading tab') tab')) d =
      (if d = mn then None else slot (Trie v mn (filled tab) tab) d)"
proof -
  let ?k = "leading tab'"
  have f: "filled tab' > 0" using assms(2,5) by simp
  have k: "?k < length tab'" by (rule leading_filled [OF f])
  have k1: "?k \<ge> 1" by (simp add: assms(5))
  have ne: "drop ?k tab' \<noteq> []" using k by simp
  have h: "hd (drop ?k tab') \<noteq> None" using k leading_Some [OF k] by (simp add: hd_drop_conv_nth)
  have l: "last (drop ?k tab') = Some b" using k by (simp add: last_drop assms(5))
  have "\<And>n. Some n \<in> set (drop ?k tab') \<Longrightarrow> trie_ok n"
    using assms(1,4,5) set_drop_subset [of ?k tab'] by auto
  then show "trie_ok (Trie v (mn + ?k) (filled tab - 1) (drop ?k tab'))"
    using h l k assms(1,3,5) filled_drop_leading [of tab'] by auto
  have t': "tab' ! i = tab ! i" if "i \<noteq> 0" for i
    using that by (cases i) (auto simp: assms(1,5))
  show "slot (Trie v (mn + ?k) (filled tab - 1) (drop ?k tab')) d = (if d = mn then None else slot (Trie v mn (filled tab) tab) d)"
  proof -
    have len: "length tab' = length tab" by (simp add: assms(1,5))
    consider "d < mn" | "d = mn" | "mn < d" "d < mn + ?k" | "mn + ?k \<le> d" "d < mn + length tab" | "mn + length tab \<le> d"
      using k1 by linarith
    then show ?thesis
    proof cases
      case 3
      then have "tab ! (d - mn) = None" using leading_None [of "d - mn" tab'] t' [of "d - mn"] by auto
      then show ?thesis using 3 k by (auto simp: slot_def node_count_def)
    next
      case 4
      then show ?thesis using k k1 len t' [of "d - mn"] by (auto simp: slot_def node_count_def)
    qed (use k k1 len in \<open>auto simp: slot_def node_count_def\<close>)
  qed
qed

lemma prune_right:
  assumes "tab = Some a # mid @ [Some b]" "filled mid > 0" "mn + length tab \<le> 256"
    "\<And>n. Some n \<in> set tab \<Longrightarrow> trie_ok n" "tab' = Some a # mid @ [None]" "k = length tab - leading (rev tab')"
  shows "trie_ok (Trie v mn (filled tab - 1) (take k tab'))"
    and "slot (Trie v mn (filled tab - 1) (take k tab')) d =
      (if d = mn + length tab - 1 then None else slot (Trie v mn (filled tab) tab) d)"
proof -
  let ?j = "leading (rev tab')"
  have len: "length tab' = length tab" by (simp add: assms(1,5))
  have f: "filled (rev tab') > 0" by (simp add: assms(5))
  have j: "?j < length tab'" using leading_filled [OF f] by simp
  have j1: "?j \<ge> 1" by (simp add: assms(5))
  have kk: "take k tab' = rev (drop ?j (rev tab'))" by (simp add: assms(6) flip: take_leading_rev len)
  have k0: "0 < k" "k < length tab" using j j1 len assms(6) by auto
  have "last (take k tab') = rev tab' ! ?j"
    using j by (simp add: kk last_rev hd_drop_conv_nth)
  then have l: "last (take k tab') \<noteq> None" using leading_Some [of "rev tab'"] j by simp
  have h: "hd (take k tab') = Some a" using k0 by (simp add: assms(5) take_Cons')
  have "filled (take k tab') = filled tab'"
    using filled_drop_leading [of "rev tab'"] unfolding kk filled_rev .
  then have "filled (take k tab') = filled tab - 1"
    by (simp add: assms(1,5))
  moreover have "\<And>n. Some n \<in> set (take k tab') \<Longrightarrow> trie_ok n"
    using assms(1,4,5) set_take_subset [of k tab'] by auto
  ultimately show "trie_ok (Trie v mn (filled tab - 1) (take k tab'))"
    using h l assms(3) k0 by auto
  have t': "tab' ! i = tab ! i" if "i < length tab - 1" for i
    using that by (cases i) (auto simp: assms(1,5) nth_append)
  have none: "tab' ! i = None" if "k \<le> i" "i < length tab" for i
  proof -
    have "rev tab' ! (length tab - 1 - i) = None"
      using that j len assms(6) by (intro leading_None) linarith
    then show ?thesis using that len by (simp add: rev_nth)
  qed
  show "slot (Trie v mn (filled tab - 1) (take k tab')) d =
      (if d = mn + length tab - 1 then None else slot (Trie v mn (filled tab) tab) d)"
  proof -
    consider "d < mn" | "mn \<le> d" "d < mn + k" | "mn + k \<le> d" "d < mn + length tab - 1" | "d = mn + length tab - 1"
      | "mn + length tab - 1 < d"
      by linarith
    then show ?thesis
    proof cases
      case 2
      then show ?thesis using k0 t' [of "d - mn"] len by (auto simp: slot_def node_count_def)
    next
      case 3
      then have "tab ! (d - mn) = None" using none [of "d - mn"] t' [of "d - mn"] by auto
      then show ?thesis using 3 k0 len by (auto simp: slot_def node_count_def)
    qed (use k0 len in \<open>auto simp: slot_def node_count_def\<close>)
  qed
qed

lemma prune_table_ok:
  assumes "trie_ok t" "slot t c \<noteq> None"
  shows "trie_ok (prune_table c t)" "slot (prune_table c t) d = (if d = c then None else slot t d)"
    "node_val (prune_table c t) = node_val t"
proof -
  obtain v mn live tab where t: "t = Trie v mn live tab" by (cases t)
  have ok: "live = filled tab" "mn + length tab \<le> 256" "tab \<noteq> [] \<Longrightarrow> hd tab \<noteq> None \<and> last tab \<noteq> None"
    "\<And>n. Some n \<in> set tab \<Longrightarrow> trie_ok n"
    using assms(1) unfolding t by auto
  have i: "mn \<le> c" "c < mn + length tab" "tab ! (c - mn) \<noteq> None"
    using assms(2) by (auto simp: t slot_def node_count_def split: if_splits)
  let ?tab = "tab[c - mn := None]"
  show "node_val (prune_table c t) = node_val t"
    by (auto simp: t prune_table_def Let_def)
  have *: "trie_ok (prune_table c t) \<and> (\<forall>d. slot (prune_table c t) d = (if d = c then None else slot t d))"
  proof (cases "length tab = 1")
    case True
    then obtain s where s: "tab = [s]" by (cases tab) auto
    then have "c = mn" "s \<noteq> None" using i by auto
    then show ?thesis using ok s by (auto simp: t prune_table_def slot_def node_count_def)
  next
    case False
    have "tab \<noteq> []" using i(1,2) by auto
    with False ok(3) obtain a b mid where tab: "tab = Some a # mid @ [Some b]"
      using table_ends [of tab] by blast
    show ?thesis
    proof (cases "filled mid = 0")
      case True
      then have mid: "\<And>i. i < length mid \<Longrightarrow> mid ! i = None"
        by (auto simp: filled_0)
      then have "c - mn = 0 \<or> c - mn = length mid + 1"
        using i(1,2,3) by (cases "c - mn") (auto simp: tab nth_append split: if_splits)
      then show ?thesis
      proof
        assume "c - mn = 0"
        then have c: "c = mn" using i by simp
        have "prune_table c t = Trie v (mn + length mid + 1) 1 [Some b]"
          using True by (simp add: t prune_table_def c tab ok(1) Let_def)
        then show ?thesis
          using ok(2,4) mid by (auto simp: t c tab slot_def node_count_def nth_append nth_Cons')
      next
        assume "c - mn = length mid + 1"
        then have c: "c = mn + length mid + 1" using i by simp
        have "prune_table c t = Trie v mn 1 [Some a]"
          using True by (simp add: t prune_table_def c tab ok(1) Let_def)
        then show ?thesis
          using ok(2,4) mid by (auto simp: t c tab slot_def node_count_def nth_append nth_Cons')
      qed
    next
      case False
      then have f: "filled mid > 0" by simp
      consider (left) "c = mn" | (right) "c = mn + length tab - 1" | (mid) "mn < c" "c < mn + length tab - 1"
        using i by linarith
      then show ?thesis
      proof cases
        case left
        have "prune_table c t = Trie v (mn + leading ?tab) (filled tab - 1) (drop (leading ?tab) ?tab)"
          using f by (simp add: t prune_table_def left tab ok(1) Let_def)
        then show ?thesis
          using prune_left [OF tab f ok(2,4), of ?tab] by (simp add: t left tab ok(1))
      next
        case right
        have u: "?tab = Some a # mid @ [None]" by (simp add: right tab)
        have "prune_table c t = Trie v mn (filled tab - 1) (take (length tab - leading (rev ?tab)) ?tab)"
          using f by (simp add: t prune_table_def right tab ok(1) Let_def)
        then show ?thesis
          using prune_right [OF tab f ok(2,4) u refl] by (simp add: t right ok(1))
      next
        case mid
        have ci: "c - mn < length tab" using i by linarith
        have u: "filled ?tab = filled tab - 1"
          using filled_update [OF ci, of None] i(3) by simp
        have "hd ?tab \<noteq> None" "last ?tab \<noteq> None"
          using mid by (auto simp: tab list_update_append split: nat.splits)
        moreover have "\<And>n. Some n \<in> set ?tab \<Longrightarrow> trie_ok n"
          using ok(4) set_update_subset_insert [of tab "c - mn" None] by auto
        moreover have "prune_table c t = Trie v mn (filled tab - 1) ?tab"
          using f mid i by (simp add: t prune_table_def ok(1) Let_def) (simp add: tab)
        ultimately show ?thesis
          using ok(2) u i slot_Trie_update [of mn c tab] by (simp add: t) (simp add: slot_def node_count_def)
      qed
    qed
  qed
  then show "trie_ok (prune_table c t)" "slot (prune_table c t) d = (if d = c then None else slot t d)" by auto
qed

lemma redundant_lookup: "trie_ok t \<Longrightarrow> is_redundant z t \<Longrightarrow> trie_lookup z p t = z"
proof (cases t)
  case (Trie v mn live tab)
  assume "trie_ok t" "is_redundant z t"
  then have "v = z" "filled tab = 0" "tab \<noteq> [] \<longrightarrow> hd tab \<noteq> None"
    unfolding Trie is_redundant_def by auto
  then have "v = z" "tab = []" using hd_in_set [of tab] by (auto simp: filled_0)
  then show ?thesis by (cases p) (auto simp: Trie node_count_def Let_def)
qed

lemma replace_child:
  assumes "trie_ok t" "slot t c = Some n" "trie_ok n'"
  defines "t' \<equiv> Trie (node_val t) (node_min t) (node_live t) ((node_next t)[c - node_min t := Some n'])"
  shows "trie_ok t'" "slot t' d = (if d = c then Some n' else slot t d)"
proof -
  obtain v mn live tab where t: "t = Trie v mn live tab" by (cases t)
  have i: "mn \<le> c" "c < mn + length tab" "tab ! (c - mn) = Some n"
    using assms(2) by (auto simp: t slot_def node_count_def split: if_splits)
  have "room_for c t"
    using assms(1) i by (auto simp: t room_for_def node_count_def)
  then show "trie_ok t'"
    using put_child [of c t n'] assms(3) i by (simp add: t'_def t)
  show "slot t' d = (if d = c then Some n' else slot t d)"
    using slot_Trie_update [OF i(1,2), of v live "Some n'" d] by (simp add: t'_def t)
qed

text \<open>Removing keeps the shape, changes the value at the prefix and no other.\<close>

lemma trie_remove_slot:
  "trie_remove z f (ch # cs) t = (case slot t (char_num ch) of
     None \<Rightarrow> t
   | Some n \<Rightarrow>
       let n' = trie_remove z f cs n;
           t' = Trie (node_val t) (node_min t) (node_live t) ((node_next t)[char_num ch - node_min t := Some n'])
       in if is_redundant z n' then prune_table (char_num ch) t' else t')"
  by (simp add: slot_def Let_def)

lemma trie_remove_ok: "trie_ok t \<Longrightarrow> trie_ok (trie_remove z f p t)"
proof (induction p arbitrary: t)
  case Nil
  then show ?case by (cases t) auto
next
  case (Cons ch cs)
  show ?case
  proof (cases "slot t (char_num ch)")
    case None
    then show ?thesis using Cons.prems by (simp add: trie_remove_slot del: trie_remove.simps)
  next
    case (Some n)
    have n: "trie_ok (trie_remove z f cs n)"
      by (rule Cons.IH [OF trie_ok_slot [OF Cons.prems Some]])
    show ?thesis
      using replace_child [OF Cons.prems Some n] Some
      by (auto simp: trie_remove_slot Let_def simp del: trie_remove.simps intro!: prune_table_ok(1))
  qed
qed

lemma trie_remove_lookup:
  "trie_ok t \<Longrightarrow> f z = z \<Longrightarrow>
     trie_lookup z q (trie_remove z f p t) = (if q = p then f (trie_lookup z p t) else trie_lookup z q t)"
proof (induction p arbitrary: t q)
  case Nil
  then show ?case by (cases t; cases q) (auto simp: node_count_def Let_def)
next
  case (Cons ch cs)
  let ?c = "char_num ch"
  show ?case
  proof (cases "slot t ?c")
    case None
    then show ?thesis using Cons.prems(2) by (simp add: trie_remove_slot lookup_slot del: trie_remove.simps trie_lookup.simps(2))
  next
    case (Some n)
    let ?n = "trie_remove z f cs n"
    let ?t = "Trie (node_val t) (node_min t) (node_live t) ((node_next t)[?c - node_min t := Some ?n])"
    have ok: "trie_ok n" "trie_ok ?n"
      using trie_ok_slot [OF Cons.prems(1) Some] by (auto intro: trie_remove_ok)
    note r = replace_child [OF Cons.prems(1) Some ok(2)]
    have val: "node_val (trie_remove z f (ch # cs) t) = node_val t"
      using r Some by (auto simp: trie_remove_slot Let_def prune_table_ok(3) simp del: trie_remove.simps)
    have pr: "slot (prune_table ?c ?t) d = (if d = ?c then None else slot t d)" for d
      using r(2) by (subst prune_table_ok(2) [OF r(1)]) simp_all
    have rm: "trie_remove z f (ch # cs) t = (if is_redundant z ?n then prune_table ?c ?t else ?t)"
      using Some by (simp add: trie_remove_slot Let_def del: trie_remove.simps)
    have sl: "slot (trie_remove z f (ch # cs) t) d =
        (if d = ?c then (if is_redundant z ?n then None else Some ?n) else slot t d)" for d
      unfolding rm using r(2) pr by simp
    show ?thesis
    proof (cases q)
      case Nil
      then show ?thesis by (simp add: val del: trie_remove.simps)
    next
      case q: (Cons d ds)
      have "trie_lookup z ds ?n = z" if "is_redundant z ?n"
        using redundant_lookup [OF ok(2) that] .
      then show ?thesis
        using Cons.IH [OF ok(1) Cons.prems(2), of ds] Some
        by (auto simp: q lookup_slot sl simp del: trie_remove.simps trie_lookup.simps(2))
    qed
  qed
qed

section \<open>The subscriptions of a SUB socket\<close>

text \<open>The trie refines a counter per prefix: \<open>add\<close> and \<open>rm\<close> count up and down, and \<open>check\<close> looks for
  a prefix of the data with a count.\<close>

definition subs :: "sub_trie \<Rightarrow> bytes \<Rightarrow> 32 word" where
  "subs t p = trie_lookup 0 p t"

lemma trie_add_ok: "trie_ok t \<Longrightarrow> trie_ok (snd (trie_add p t))"
  by (simp add: trie_add_def trie_update_ok)

lemma trie_rm_ok: "trie_ok t \<Longrightarrow> trie_ok (snd (trie_rm p t))"
  by (simp add: trie_rm_def trie_remove_ok)

lemma subs_new: "subs (new_trie 0) = (\<lambda>_. 0)"
  by (simp add: subs_def fun_eq_iff)

lemma subs_add: "trie_ok t \<Longrightarrow> subs (snd (trie_add p t)) = (subs t)(p := subs t p + 1)"
  by (auto simp: subs_def trie_add_def trie_update_lookup fun_eq_iff)

lemma subs_rm: "trie_ok t \<Longrightarrow> subs (snd (trie_rm p t)) = (subs t)(p := if subs t p = 0 then 0 else subs t p - 1)"
  by (auto simp: subs_def trie_rm_def trie_remove_lookup fun_eq_iff)

lemma trie_check_iff: "trie_check d t \<longleftrightarrow> (\<exists>p. prefix p d \<and> subs t p \<noteq> 0)"
proof (induction d arbitrary: t)
  case Nil
  then show ?case by (simp add: subs_def)
next
  case (Cons ch cs)
  have "(\<exists>p. prefix p (ch # cs) \<and> subs t p \<noteq> 0) \<longleftrightarrow>
      subs t [] \<noteq> 0 \<or> (\<exists>p. prefix p cs \<and> subs t (ch # p) \<noteq> 0)"
    by (metis Cons_prefix_Cons Nil_prefix prefix_Cons)
  also have "\<dots> \<longleftrightarrow> node_val t \<noteq> 0 \<or> (case slot t (char_num ch) of None \<Rightarrow> False | Some n \<Rightarrow> \<exists>p. prefix p cs \<and> subs n p \<noteq> 0)"
    by (auto simp: subs_def lookup_slot simp del: trie_lookup.simps(2) split: option.splits)
  also have "\<dots> \<longleftrightarrow> trie_check (ch # cs) t"
    by (auto simp: check_slot Cons.IH simp del: trie_check.simps(2) split: option.splits)
  finally show ?case by simp
qed

end
