(* ===== verification/ZmqSub.thy ===== *)
theory ZmqSub
  imports ZmqDist ZmqTrie
begin

text \<open>
  The SUB socket (\<open>3rd/zeromq/src/sub.cpp\<close> on \<open>xsub.cpp\<close>) that \<open>Subscriber\<close> owns: it forwards its
  subscriptions to the publishers and filters what arrives against them.
\<close>

record xsub_t =
  xs_heap :: heap
  xs_fq :: fq_t
  xs_dist :: dist_t
  xs_subscriptions :: sub_trie
  xs_has_message :: bool
  xs_message :: msg_t
  xs_more_send :: bool
  xs_more_recv :: bool
  xs_process_subscribe :: bool
  xs_only_first_subscribe :: bool
  xs_filter :: bool
  xs_invert_matching :: bool

definition new_sub :: xsub_t where
  "new_sub = \<lparr>xs_heap = (\<lambda>_. new_pipe 0 0), xs_fq = new_fq, xs_dist = new_dist, xs_subscriptions = new_trie 0,
     xs_has_message = False, xs_message = empty_msg, xs_more_send = False, xs_more_recv = False,
     xs_process_subscribe = False, xs_only_first_subscribe = False, xs_filter = True, xs_invert_matching = False\<rparr>"

section \<open>Sending subscriptions\<close>

text \<open>\<open>trie_t::apply\<close> visits the subscribed prefixes, shorter before longer, by character.\<close>

fun trie_keys :: "sub_trie \<Rightarrow> bytes list" and table_keys :: "nat \<Rightarrow> sub_trie option list \<Rightarrow> bytes list" where
  "trie_keys (Trie v mn live tab) = (if v \<noteq> 0 then [[]] else []) @ table_keys mn tab"
| "table_keys c [] = []"
| "table_keys c (None # ss) = table_keys (c + 1) ss"
| "table_keys c (Some n # ss) = map ((#) (char_of c)) (trie_keys n) @ table_keys (c + 1) ss"

definition subscription_msg :: "bool \<Rightarrow> bytes \<Rightarrow> msg_t" where
  "subscription_msg subscribe data = \<lparr>m_data = data, m_more = False, m_kind = if subscribe then Subscribe_Cmd else Cancel_Cmd\<rparr>"

definition xsub_attach_pipe :: "pipe_id \<Rightarrow> xsub_t \<Rightarrow> xsub_t" where
  "xsub_attach_pipe x s =
     (let p = fold (\<lambda>data p. snd (pipe_write (subscription_msg True data) p)) (trie_keys (xs_subscriptions s)) (xs_heap s x)
      in s\<lparr>xs_fq := fq_attach x (xs_fq s), xs_dist := dist_attach x (xs_dist s),
           xs_heap := (xs_heap s)(x := pipe_flush p)\<rparr>)"

definition xsub_read_activated :: "pipe_id \<Rightarrow> xsub_t \<Rightarrow> xsub_t" where
  "xsub_read_activated x s = s\<lparr>xs_fq := fq_activated x (xs_fq s)\<rparr>"

definition xsub_write_activated :: "pipe_id \<Rightarrow> xsub_t \<Rightarrow> xsub_t" where
  "xsub_write_activated x s = s\<lparr>xs_dist := dist_activated x (xs_dist s)\<rparr>"

definition xsub_pipe_terminated :: "pipe_id \<Rightarrow> xsub_t \<Rightarrow> xsub_t" where
  "xsub_pipe_terminated x s =
     s\<lparr>xs_fq := fq_pipe_terminated x (xs_fq s), xs_dist := dist_pipe_terminated x (xs_dist s)\<rparr>"

definition xsub_send_all :: "msg_t \<Rightarrow> xsub_t \<Rightarrow> xsub_t" where
  "xsub_send_all m s = (case dist_send_to_all m (xs_dist s, xs_heap s) of (d, h) \<Rightarrow> s\<lparr>xs_dist := d, xs_heap := h\<rparr>)"

definition xsub_xsend :: "msg_t \<Rightarrow> xsub_t \<Rightarrow> xsub_t" where
  "xsub_xsend m s =
     (let first_part = \<not> xs_more_send s;
          s1 = s\<lparr>xs_more_send := m_more m\<rparr>;
          s2 = (if first_part then s1\<lparr>xs_process_subscribe := \<not> xs_only_first_subscribe s1\<rparr> else s1);
          data = m_data m;
          tag = (case data of [] \<Rightarrow> None | c # _ \<Rightarrow> Some (char_num c))
      in if \<not> first_part \<and> \<not> xs_process_subscribe s2 then xsub_send_all m s2
         else if m_kind m = Subscribe_Cmd \<or> tag = Some 1
         then let topic = (if m_kind m = Subscribe_Cmd then data else tl data) in
           xsub_send_all m (s2\<lparr>xs_subscriptions := snd (trie_add topic (xs_subscriptions s2)), xs_process_subscribe := True\<rparr>)
         else if m_kind m = Cancel_Cmd \<or> tag = Some 0
         then let topic = (if m_kind m = Cancel_Cmd then data else tl data);
                  (removed, t) = trie_rm topic (xs_subscriptions s2);
                  s3 = s2\<lparr>xs_subscriptions := t, xs_process_subscribe := True\<rparr>
              in if removed then xsub_send_all m s3 else s3
         else xsub_send_all m s2)"

text \<open>\<open>ZMQ_SUBSCRIBE\<close> and \<open>ZMQ_UNSUBSCRIBE\<close>; they never fail.\<close>

definition sub_setsockopt :: "bool \<Rightarrow> bytes \<Rightarrow> xsub_t \<Rightarrow> xsub_t" where
  "sub_setsockopt subscribe topic s = xsub_xsend (subscription_msg subscribe topic) s"

section \<open>Receiving\<close>

definition xsub_match :: "msg_t \<Rightarrow> xsub_t \<Rightarrow> bool" where
  "xsub_match m s = (trie_check (m_data m) (xs_subscriptions s) \<noteq> xs_invert_matching s)"

definition xsub_fq_recv :: "(xsub_t, errno, msg_t) smon" where
  "xsub_fq_recv = (\<lambda>s. case fq_recvpipe (xs_fq s, xs_heap s) of
     (Inl e, (q, h)) \<Rightarrow> (Inl e, s\<lparr>xs_fq := q, xs_heap := h\<rparr>)
   | (Inr (m, x), (q, h)) \<Rightarrow> (Inr m, s\<lparr>xs_fq := q, xs_heap := h\<rparr>))"

definition xsub_inbound :: "xsub_t \<Rightarrow> nat" where
  "xsub_inbound s = sum_list (map (\<lambda>x. length (p_in (xs_heap s x))) (fq_pipes (xs_fq s)))"

fun xsub_skip :: "nat \<Rightarrow> msg_t \<Rightarrow> (xsub_t, errno, unit) smon" where
  "xsub_skip 0 m s = (Inl NO_FUEL, s)"
| "xsub_skip (Suc n) m s =
     (if \<not> m_more m then (Inr (), s)
      else case xsub_fq_recv s of
        (Inl e, s') \<Rightarrow> (Inl ABORTED, s')
      | (Inr m', s') \<Rightarrow> xsub_skip n m' s')"

fun xsub_recv_from :: "nat \<Rightarrow> (xsub_t, errno, msg_t) smon" where
  "xsub_recv_from 0 s = (Inl NO_FUEL, s)"
| "xsub_recv_from (Suc n) s =
     (case xsub_fq_recv s of
        (Inl e, s') \<Rightarrow> (Inl e, s')
      | (Inr m, s') \<Rightarrow>
          if xs_more_recv s' \<or> \<not> xs_filter s' \<or> xsub_match m s'
          then (Inr m, s'\<lparr>xs_more_recv := m_more m\<rparr>)
          else bindS (xsub_skip (Suc (xsub_inbound s')) m) (\<lambda>_. xsub_recv_from n) s')"

definition xsub_xrecv :: "(xsub_t, errno, msg_t) smon" where
  "xsub_xrecv = (\<lambda>s.
     if xs_has_message s
     then (Inr (xs_message s), s\<lparr>xs_has_message := False, xs_more_recv := m_more (xs_message s)\<rparr>)
     else xsub_recv_from (Suc (xsub_inbound s)) s)"

definition xsub_deliver :: "pipe_id \<times> msg_t list \<Rightarrow> xsub_t \<Rightarrow> xsub_t" where
  "xsub_deliver a s =
     (case a of (x, ms) \<Rightarrow>
       let p = (xs_heap s x)\<lparr>p_in := p_in (xs_heap s x) @ ms\<rparr> in
       case process_activate_read p of
         (True, p') \<Rightarrow> xsub_read_activated x (s\<lparr>xs_heap := (xs_heap s)(x := p')\<rparr>)
       | (False, p') \<Rightarrow> s\<lparr>xs_heap := (xs_heap s)(x := p')\<rparr>)"

fun xsub_recv :: "(pipe_id \<times> msg_t list) list \<Rightarrow> (xsub_t, errno, msg_t) smon" where
  "xsub_recv [] s = xsub_xrecv s"
| "xsub_recv (a # as) s =
     (case xsub_xrecv s of
        (Inl EAGAIN, s') \<Rightarrow> xsub_recv as (xsub_deliver a s')
      | res \<Rightarrow> res)"

section \<open>The subscribed prefixes\<close>

lemma char_num_char_of: "c < 256 \<Longrightarrow> char_num (char_of c) = c"
  by (simp add: char_num_def)

lemma char_of_char_num: "char_of (char_num ch) = ch"
  by (simp add: char_num_def)

definition table_holds :: "nat \<Rightarrow> sub_trie option list \<Rightarrow> bytes \<Rightarrow> bool" where
  "table_holds c tab p \<longleftrightarrow> (\<exists>i<length tab. \<exists>n q. tab ! i = Some n \<and> p = char_of (c + i) # q \<and> subs n q \<noteq> 0)"

lemma table_holds_Nil [simp]: "\<not> table_holds c [] p"
  by (simp add: table_holds_def)

lemma table_holds_Cons [simp]:
  "table_holds c (s # ss) p \<longleftrightarrow> (\<exists>n q. s = Some n \<and> p = char_of c # q \<and> subs n q \<noteq> 0) \<or> table_holds (c + 1) ss p"
  unfolding table_holds_def length_Cons Ex_less_Suc2 by simp

lemma table_holds_slot:
  assumes "mn + length tab \<le> 256"
  shows "table_holds mn tab p \<longleftrightarrow> p \<noteq> [] \<and> subs (Trie v mn live tab) p \<noteq> 0"
proof (cases p)
  case Nil
  then show ?thesis by (simp add: table_holds_def)
next
  case (Cons ch cs)
  have "table_holds mn tab p \<longleftrightarrow> (\<exists>i<length tab. \<exists>n. tab ! i = Some n \<and> char_num ch = mn + i \<and> subs n cs \<noteq> 0)"
  proof -
    have "ch = char_of (mn + i) \<longleftrightarrow> char_num ch = mn + i" if "i < length tab" for i
      using that assms char_num_char_of [of "mn + i"] char_of_char_num [of ch] by auto
    then show ?thesis by (auto simp: table_holds_def Cons)
  qed
  also have "\<dots> \<longleftrightarrow> (\<exists>n. slot (Trie v mn live tab) (char_num ch) = Some n \<and> subs n cs \<noteq> 0)"
    by (auto simp: slot_def node_count_def intro!: exI [of _ "char_num ch - mn"])
  also have "\<dots> \<longleftrightarrow> subs (Trie v mn live tab) p \<noteq> 0"
    by (auto simp: Cons subs_def lookup_slot simp del: trie_lookup.simps(2) split: option.splits)
  finally show ?thesis by (simp add: Cons)
qed

lemma trie_keys_set:
  "trie_ok t \<Longrightarrow> set (trie_keys t) = {p. subs t p \<noteq> 0}"
  "(\<And>n. Some n \<in> set tab \<Longrightarrow> trie_ok n) \<Longrightarrow> set (table_keys c tab) = Collect (table_holds c tab)"
proof (induction t and c tab rule: trie_keys_table_keys.induct)
  case (1 v mn live tab)
  have "mn + length tab \<le> 256" "\<And>n. Some n \<in> set tab \<Longrightarrow> trie_ok n" using "1.prems" by simp_all
  then have k: "p \<in> set (table_keys mn tab) \<longleftrightarrow> p \<noteq> [] \<and> subs (Trie v mn live tab) p \<noteq> 0" for p
    using "1.IH" table_holds_slot [of mn tab p v live] by simp
  have "subs (Trie v mn live tab) [] = v" by (simp add: subs_def)
  then have "p \<in> set (trie_keys (Trie v mn live tab)) \<longleftrightarrow> subs (Trie v mn live tab) p \<noteq> 0" for p
    by (cases "p = []") (simp_all add: k)
  then show ?case by blast
next
  case (2 c)
  then show ?case by simp
next
  case (3 c ss)
  have "set (table_keys (c + 1) ss) = Collect (table_holds (c + 1) ss)"
    by (rule 3) (simp add: "3.prems")
  then show ?case by (simp add: set_eq_iff)
next
  case (4 c n ss)
  have "set (trie_keys n) = {p. subs n p \<noteq> 0}"
    by (rule 4) (simp add: "4.prems")
  moreover have "set (table_keys (c + 1) ss) = Collect (table_holds (c + 1) ss)"
    by (rule 4) (simp add: "4.prems")
  ultimately show ?case by (auto simp: set_eq_iff)
qed

section \<open>Receiving from one publisher\<close>

definition sub_peer :: "pipe_id \<Rightarrow> xsub_t \<Rightarrow> bool" where
  "sub_peer x s \<longleftrightarrow> fq_pipes (xs_fq s) = [x] \<and> fq_current (xs_fq s) = 0 \<and> \<not> fq_more (xs_fq s)
     \<and> fq_active (xs_fq s) = (if p_in_active (xs_heap s x) then 1 else 0)
     \<and> p_in (xs_heap s x) = [] \<and> p_state (xs_heap s x) = active
     \<and> xs_filter s \<and> \<not> xs_invert_matching s \<and> \<not> xs_has_message s \<and> \<not> xs_more_recv s"

text \<open>What a peer of this state can do next is fixed by its subscriptions alone.\<close>

definition sub_takes :: "xsub_t \<Rightarrow> bytes \<Rightarrow> bool" where
  "sub_takes s d \<longleftrightarrow> (\<exists>p. prefix p d \<and> subs (xs_subscriptions s) p \<noteq> 0)"

lemma xsub_match_iff: "\<not> xs_invert_matching s \<Longrightarrow> xsub_match m s = sub_takes s (m_data m)"
  by (simp add: xsub_match_def sub_takes_def trie_check_iff)

text \<open>Nothing there: the pipe is put to sleep if it was not yet, and the receive fails.\<close>

definition sub_asleep :: "pipe_id \<Rightarrow> xsub_t \<Rightarrow> bool" where
  "sub_asleep x s \<longleftrightarrow> sub_peer x s \<and> \<not> p_in_active (xs_heap s x)"

lemma xsub_fq_recv_dry:
  assumes "sub_peer x s"
  shows "\<exists>s'. xsub_fq_recv s = (Inl EAGAIN, s') \<and> sub_asleep x s' \<and> xs_subscriptions s' = xs_subscriptions s"
proof (cases "p_in_active (xs_heap s x)")
  case True
  then show ?thesis
    using assms
    by (simp add: sub_peer_def sub_asleep_def xsub_fq_recv_def fq_recvpipe_def pipe_read_def
        pipe_readable_def fq_deactivate_def arr_swap_def Let_def)
next
  case False
  then show ?thesis
    using assms by (simp add: sub_peer_def sub_asleep_def xsub_fq_recv_def fq_recvpipe_def Let_def)
qed

lemma xsub_recv_from_dry:
  assumes "sub_peer x s"
  shows "\<exists>s'. (\<forall>n. xsub_recv_from (Suc n) s = (Inl EAGAIN, s')) \<and> sub_asleep x s' \<and> xs_subscriptions s' = xs_subscriptions s"
  using xsub_fq_recv_dry [OF assms] by auto

lemma xsub_xrecv_dry:
  assumes "sub_peer x s"
  shows "\<exists>s'. xsub_xrecv s = (Inl EAGAIN, s') \<and> sub_asleep x s' \<and> xs_subscriptions s' = xs_subscriptions s"
  using xsub_recv_from_dry [OF assms] assms by (auto simp: xsub_xrecv_def sub_peer_def simp del: xsub_recv_from.simps)

text \<open>Frames waiting on the pipe.\<close>

definition sub_holds :: "pipe_id \<Rightarrow> msg_t list \<Rightarrow> bool \<Rightarrow> xsub_t \<Rightarrow> bool" where
  "sub_holds x ms mr s \<longleftrightarrow> fq_pipes (xs_fq s) = [x] \<and> fq_current (xs_fq s) = 0 \<and> fq_active (xs_fq s) = 1
     \<and> fq_more (xs_fq s) = mr \<and> p_in_active (xs_heap s x) \<and> p_in (xs_heap s x) = ms \<and> p_state (xs_heap s x) = active
     \<and> xs_filter s \<and> \<not> xs_invert_matching s \<and> \<not> xs_has_message s"

lemma xsub_fq_recv_frame:
  assumes "sub_holds x (m # ms) mr s" "m_kind m = Plain"
  shows "\<exists>s'. xsub_fq_recv s = (Inr m, s') \<and> sub_holds x ms (m_more m) s' \<and> xs_more_recv s' = xs_more_recv s
    \<and> xs_subscriptions s' = xs_subscriptions s"
  using assms
  by (simp add: sub_holds_def xsub_fq_recv_def fq_recvpipe_def pipe_read_def pipe_readable_def pipe_count_read_def Let_def)

lemma xsub_xrecv_frame:
  assumes "sub_holds x (m # ms) mr s" "m_kind m = Plain" "xs_more_recv s \<or> sub_takes s (m_data m)"
  shows "\<exists>s'. xsub_xrecv s = (Inr m, s') \<and> sub_holds x ms (m_more m) s' \<and> xs_more_recv s' = m_more m
    \<and> xs_subscriptions s' = xs_subscriptions s"
proof -
  obtain s1 where s1: "xsub_fq_recv s = (Inr m, s1)" "sub_holds x ms (m_more m) s1" "xs_more_recv s1 = xs_more_recv s"
    "xs_subscriptions s1 = xs_subscriptions s"
    using xsub_fq_recv_frame [OF assms(1,2)] by blast
  have "xsub_match m s1 = sub_takes s (m_data m)"
    using s1(2,4) by (simp add: xsub_match_iff sub_holds_def sub_takes_def)
  then show ?thesis
    using assms(1,3) s1 by (auto simp: xsub_xrecv_def sub_holds_def)
qed

lemma sub_deliver_holds:
  assumes "sub_asleep x s"
  shows "sub_holds x ms False (xsub_deliver (x, ms) s)" "xs_more_recv (xsub_deliver (x, ms) s) = xs_more_recv s"
    "xs_subscriptions (xsub_deliver (x, ms) s) = xs_subscriptions s"
  using assms
  by (simp_all add: sub_asleep_def sub_peer_def sub_holds_def xsub_deliver_def process_activate_read_def
      xsub_read_activated_def fq_activated_def arr_swap_def Let_def)

lemma sub_holds_peer: "sub_holds x [] False s \<Longrightarrow> \<not> xs_more_recv s \<Longrightarrow> sub_peer x s"
  by (simp add: sub_holds_def sub_peer_def)

text \<open>A two-part message whose first part is subscribed to is handed out part by part.\<close>

lemma sub_recv_pair:
  assumes "sub_peer x s" "sub_takes s e"
  obtains s1 s2 where "xsub_recv ((x, [mk_msg e True, mk_msg c False]) # as) s = (Inr (mk_msg e True), s1)"
    "xsub_recv [] s1 = (Inr (mk_msg c False), s2)" "sub_peer x s2" "xs_subscriptions s2 = xs_subscriptions s"
proof -
  obtain s0 where s0: "xsub_xrecv s = (Inl EAGAIN, s0)" "sub_asleep x s0" "xs_subscriptions s0 = xs_subscriptions s"
    using xsub_xrecv_dry [OF assms(1)] by blast
  let ?s = "xsub_deliver (x, [mk_msg e True, mk_msg c False]) s0"
  note d = sub_deliver_holds [OF s0(2), of "[mk_msg e True, mk_msg c False]"]
  have "sub_takes ?s e" using assms(2) by (simp add: sub_takes_def d(3) s0(3))
  then obtain s1 where s1: "xsub_xrecv ?s = (Inr (mk_msg e True), s1)" "sub_holds x [mk_msg c False] True s1"
    "xs_more_recv s1" "xs_subscriptions s1 = xs_subscriptions s"
    using xsub_xrecv_frame [OF d(1)] by (auto simp: d(3) s0(3))
  obtain s2 where s2: "xsub_xrecv s1 = (Inr (mk_msg c False), s2)" "sub_holds x [] False s2" "\<not> xs_more_recv s2"
    "xs_subscriptions s2 = xs_subscriptions s"
    using xsub_xrecv_frame [OF s1(2)] s1(3,4) by auto
  have "xsub_recv ((x, [mk_msg e True, mk_msg c False]) # as) s = (Inr (mk_msg e True), s1)"
    using s0(1) s1(1) by (cases "as") simp_all
  then show ?thesis using that s2 sub_holds_peer [OF s2(2,3)] by simp
qed

text \<open>Nothing arrives, or only a message nobody here subscribed to: the receive times out.\<close>

lemma sub_recv_timeout:
  assumes "sub_peer x s"
  shows "\<exists>s'. xsub_recv [] s = (Inl EAGAIN, s') \<and> sub_peer x s' \<and> xs_subscriptions s' = xs_subscriptions s"
  using xsub_xrecv_dry [OF assms] by (auto simp: sub_asleep_def)

lemma sub_recv_filtered:
  assumes "sub_peer x s" "\<not> sub_takes s e"
  shows "\<exists>s'. xsub_recv [(x, [mk_msg e True, mk_msg c False])] s = (Inl EAGAIN, s') \<and> sub_peer x s'
    \<and> xs_subscriptions s' = xs_subscriptions s"
proof -
  obtain s0 where s0: "xsub_xrecv s = (Inl EAGAIN, s0)" "sub_asleep x s0" "xs_subscriptions s0 = xs_subscriptions s"
    using xsub_xrecv_dry [OF assms(1)] by blast
  let ?s = "xsub_deliver (x, [mk_msg e True, mk_msg c False]) s0"
  note d = sub_deliver_holds [OF s0(2), of "[mk_msg e True, mk_msg c False]"]
  have mr: "\<not> xs_more_recv ?s" using s0(2) by (simp add: d(2) sub_asleep_def sub_peer_def)
  obtain s1 where s1: "xsub_fq_recv ?s = (Inr (mk_msg e True), s1)" "sub_holds x [mk_msg c False] True s1"
    "xs_more_recv s1 = xs_more_recv ?s" "xs_subscriptions s1 = xs_subscriptions s"
    using xsub_fq_recv_frame [OF d(1)] by (auto simp: d(3) s0(3))
  have nm: "\<not> xsub_match (mk_msg e True) s1" "xs_filter s1"
    using s1(2,4) assms(2) by (auto simp: xsub_match_iff sub_holds_def sub_takes_def)
  obtain s2 where s2: "xsub_fq_recv s1 = (Inr (mk_msg c False), s2)" "sub_holds x [] False s2" "\<not> xs_more_recv s2"
    "xs_subscriptions s2 = xs_subscriptions s"
    using xsub_fq_recv_frame [OF s1(2)] s1(3,4) mr by auto
  obtain s3 where dry: "\<And>n. xsub_recv_from (Suc n) s2 = (Inl EAGAIN, s3)"
    and s3: "sub_asleep x s3" "xs_subscriptions s3 = xs_subscriptions s2"
    using xsub_recv_from_dry [OF sub_holds_peer [OF s2(2,3)]] by blast
  have i: "xsub_inbound s1 = 1" "xsub_inbound ?s = 2"
    using s1(2) d(1) by (simp_all add: sub_holds_def xsub_inbound_def)
  have "xsub_xrecv ?s = (Inl EAGAIN, s3)"
    using d(1) s1 mr nm s2(1) dry
    by (simp add: xsub_xrecv_def sub_holds_def i bindS_def numeral_2_eq_2)
  then show ?thesis using s0(1) s3 s2(4) by (auto simp: sub_asleep_def)
qed

end
