(* ===== verification/Subscriber.thy ===== *)
theory Subscriber
  imports ZmqSub Worker Requester
begin

text \<open>
  \<open>include/tmss/communicator/subpub/Subscriber.hpp\<close> with \<open>recv_multipart\<close> of
  \<open>3rd/cppzmq/zmq_addon.hpp\<close>: a SUB socket read by a background thread of the same shape as the
  responder's. The two callbacks work on a context of their own.
\<close>

section \<open>zmq\_addon.hpp\<close>

text \<open>Parts of one message arrive together: only the first receive can block, and an empty result later
  fails the assertion.\<close>

fun recv_parts :: "nat \<Rightarrow> msg_t \<Rightarrow> (xsub_t, fault, msg_t list) smon" where
  "recv_parts 0 m s = (Inl (Zmq_Error NO_FUEL), s)"
| "recv_parts (Suc n) m s =
     (if \<not> m_more m then (Inr [m], s)
      else bindS (zmq_result (xsub_recv [])) (\<lambda>res.
        case res of None \<Rightarrow> throwS (Zmq_Error ABORTED)
        | Some m' \<Rightarrow> bindS (recv_parts n m') (\<lambda>ms. retS (m # ms))) s)"

definition recv_multipart :: "deliveries \<Rightarrow> (xsub_t, fault, msg_t list) smon" where
  "recv_multipart arrivals =
     bindS (zmq_result (xsub_recv arrivals)) (\<lambda>res.
     case res of None \<Rightarrow> retS []
     | Some m \<Rightarrow> (\<lambda>s. recv_parts (Suc (Suc (xsub_inbound s))) m s))"

section \<open>Subscriber.hpp\<close>

datatype sub_job = SJ_Process bytes bytes | SJ_Callback bool

record subscriber =
  sub_socket :: xsub_t
  sub_options :: options_t
  sub_worker :: "sub_job worker"

definition subKey :: string where
  "subKey = ''subscribe''"

definition new_Subscriber :: subscriber where
  "new_Subscriber = \<lparr>sub_socket = new_sub, sub_options = options_init\<lparr>o_linger := 0\<rparr>, sub_worker = new_worker\<rparr>"

definition sub_set :: "platform \<Rightarrow> zmq_option \<Rightarrow> c_int \<Rightarrow> (subscriber, fault, unit) smon" where
  "sub_set p opt v = liftS sub_options (\<lambda>t r. r\<lparr>sub_options := t\<rparr>) Zmq_Error (options_setsockopt p opt (int_bytes p v))"

definition sub_get :: "platform \<Rightarrow> zmq_option \<Rightarrow> (subscriber, fault, c_int) smon" where
  "sub_get p opt = (\<lambda>r. case options_getsockopt p opt 4 (sub_options r) of
     Inl e \<Rightarrow> (Inl (Zmq_Error e), r) | Inr v \<Rightarrow> (Inr (bytes_int p v), r))"

definition Subscriber_SetTimeout :: "platform \<Rightarrow> c_int \<Rightarrow> (subscriber, fault, c_int) smon" where
  "Subscriber_SetTimeout p ms = bindS (sub_set p ZMQ_RCVTIMEO ms) (\<lambda>_. sub_get p ZMQ_RCVTIMEO)"

definition Subscribe :: "bytes \<Rightarrow> subscriber \<Rightarrow> subscriber" where
  "Subscribe env r = r\<lparr>sub_socket := sub_setsockopt True env (sub_socket r)\<rparr>"

definition Unsubscribe :: "bytes \<Rightarrow> subscriber \<Rightarrow> subscriber" where
  "Unsubscribe env r = r\<lparr>sub_socket := sub_setsockopt False env (sub_socket r)\<rparr>"

definition Subscriber_Init :: "(string \<Rightarrow> bool) \<Rightarrow> string \<Rightarrow> (subscriber, fault, bool) smon" where
  "Subscriber_Init connects addr = (\<lambda>r.
     if \<not> connects (''tcp://'' @ addr) then (Inr False, r)
     else
       let pipe = new_pipe (sint (o_rcvhwm (sub_options r))) (sint (o_sndhwm (sub_options r))); s = sub_socket r
       in (Inr True, r\<lparr>sub_socket := xsub_attach_pipe 0 (s\<lparr>xs_heap := (xs_heap s)(0 := pipe)\<rparr>)\<rparr>))"

definition StartReceive :: "subscriber \<Rightarrow> bool \<times> subscriber" where
  "StartReceive r = (case worker_start subKey (sub_worker r) of (b, w) \<Rightarrow> (b, r\<lparr>sub_worker := w\<rparr>))"

definition StopReceive :: "subscriber \<Rightarrow> bool \<times> subscriber" where
  "StopReceive r = (case worker_stop subKey (sub_worker r) of (b, w) \<Rightarrow> (b, r\<lparr>sub_worker := w\<rparr>))"

definition WaitReceive :: "subscriber \<Rightarrow> (bool \<times> subscriber) option" where
  "WaitReceive r = (case worker_wait subKey (sub_worker r) of
     None \<Rightarrow> None | Some (b, w) \<Rightarrow> Some (b, r\<lparr>sub_worker := w\<rparr>))"

definition ResetReceive :: "subscriber \<Rightarrow> (fault + bool) \<times> subscriber" where
  "ResetReceive r = (case worker_reset subKey (sub_worker r) of (b, w) \<Rightarrow> (b, r\<lparr>sub_worker := w\<rparr>))"

text \<open>One step of the thread.\<close>

definition receive_step ::
  "(bool \<Rightarrow> ('a, fault, unit) smon) \<Rightarrow> (bytes \<Rightarrow> bytes \<Rightarrow> ('a, fault, unit) smon) \<Rightarrow> deliveries
     \<Rightarrow> (subscriber \<times> 'a, fault, unit) smon" where
  "receive_step callback process arrivals = (\<lambda>(r, a).
     let w = sub_worker r in
     case wk_pc w of
       Some Recv \<Rightarrow>
         (case recv_multipart arrivals (sub_socket r) of
            (Inl e, s) \<Rightarrow> (Inl e, (r\<lparr>sub_socket := s\<rparr>, a))
          | (Inr messages, s) \<Rightarrow>
              (Inr (), (r\<lparr>sub_socket := s, sub_worker := goto (Job (
                 if length messages \<noteq> 2 then SJ_Callback False
                 else SJ_Process (m_data (messages ! 0)) (m_data (messages ! 1)))) w\<rparr>, a)))
     | Some (Job (SJ_Process env content)) \<Rightarrow>
         (case process env content a of
            (Inl e, a') \<Rightarrow> (Inl e, (r, a'))
          | (Inr _, a') \<Rightarrow> (Inr (), (r\<lparr>sub_worker := goto (Job (SJ_Callback True)) w\<rparr>, a')))
     | Some (Job (SJ_Callback success)) \<Rightarrow>
         (case callback success a of
            (Inl e, a') \<Rightarrow> (Inl e, (r, a'))
          | (Inr _, a') \<Rightarrow> (Inr (), (r\<lparr>sub_worker := goto Check w\<rparr>, a')))
     | _ \<Rightarrow> (Inr (), (r\<lparr>sub_worker := worker_test subKey w\<rparr>, a)))"

fun run_receive ::
  "(bool \<Rightarrow> ('a, fault, unit) smon) \<Rightarrow> (bytes \<Rightarrow> bytes \<Rightarrow> ('a, fault, unit) smon) \<Rightarrow> deliveries list
     \<Rightarrow> (subscriber \<times> 'a, fault, unit) smon" where
  "run_receive callback process [] = retS ()"
| "run_receive callback process (d # ds) =
     bindS (receive_step callback process d) (\<lambda>_. run_receive callback process ds)"

section \<open>The lifecycle of the thread\<close>

abbreviation sub_pc :: "subscriber \<Rightarrow> sub_job wpc option" where
  "sub_pc r \<equiv> wk_pc (sub_worker r)"

interpretation so: thread_owner StartReceive StopReceive WaitReceive ResetReceive
    "\<lambda>r. wk_running subKey (sub_worker r)" "\<lambda>r. wk_joined subKey (sub_worker r)" "\<lambda>r. sub_pc r = Some Exited"
proof unfold_locales
  show "\<exists>r'. StartReceive r = (True, r') \<and> wk_running subKey (sub_worker r') \<and> \<not> wk_joined subKey (sub_worker r')"
    if "\<not> wk_running subKey (sub_worker r)" for r
    using wk.start_fresh [OF that] by (auto simp: StartReceive_def)
  show "StartReceive r = (False, r)" if "wk_running subKey (sub_worker r)" for r
    using wk.start_twice [OF that] by (simp add: StartReceive_def)
  show "\<exists>r'. StopReceive r = (True, r') \<and> wk_running subKey (sub_worker r')
      \<and> (sub_pc r' = Some Exited) = (sub_pc r = Some Exited)
      \<and> wk_joined subKey (sub_worker r') = wk_joined subKey (sub_worker r)"
    if "wk_running subKey (sub_worker r)" for r
    using wk.stop_running [OF that] by (auto simp: StopReceive_def)
  show "StopReceive r = (False, r)" if "\<not> wk_running subKey (sub_worker r)" for r
    using wk.stop_idle [OF that] by (simp add: StopReceive_def)
  show "\<exists>r'. WaitReceive r = Some (True, r') \<and> wk_running subKey (sub_worker r') \<and> wk_joined subKey (sub_worker r')"
    if "wk_running subKey (sub_worker r)" "sub_pc r = Some Exited" for r
    using wk.wait_exited [OF that] by (auto simp: WaitReceive_def)
  show "WaitReceive r = None"
    if "wk_running subKey (sub_worker r)" "\<not> wk_joined subKey (sub_worker r)" "sub_pc r \<noteq> Some Exited" for r
    using wk.wait_blocks [OF that] by (simp add: WaitReceive_def)
  show "\<exists>r'. ResetReceive r = (Inr True, r') \<and> \<not> wk_running subKey (sub_worker r')"
    if "wk_running subKey (sub_worker r)" "wk_joined subKey (sub_worker r)" for r
    using wk.reset_joined [OF that] by (auto simp: ResetReceive_def)
  show "fst (ResetReceive r) = Inl Joinable_Destroyed"
    if "wk_running subKey (sub_worker r)" "\<not> wk_joined subKey (sub_worker r)" for r
    using wk.reset_early [OF that] by (auto simp: ResetReceive_def split: prod.splits)
qed

lemma receive_step_map:
  "receive_step callback process d (r, a) = (res, (r', a')) \<Longrightarrow> wk_map (sub_worker r') = wk_map (sub_worker r)"
  by (auto simp: receive_step_def Let_def worker_test_def goto_def
      split: option.splits wpc.splits sub_job.splits prod.splits sum.splits bool.splits)

fun sub_steps_left :: "sub_job wpc option \<Rightarrow> nat" where
  "sub_steps_left (Some Spin) = 2"
| "sub_steps_left (Some Check) = 1"
| "sub_steps_left (Some Recv) = 4"
| "sub_steps_left (Some (Job (SJ_Process e c))) = 3"
| "sub_steps_left (Some (Job (SJ_Callback b))) = 2"
| "sub_steps_left (Some Exited) = 0"
| "sub_steps_left None = 0"

lemma sub_steps_left_le: "sub_steps_left pc \<le> 4"
  by (cases pc rule: sub_steps_left.cases) auto

lemma receive_step_closer:
  assumes "receive_step callback process d (r, a) = (Inr (), (r', a'))" "wk_stopping subKey (sub_worker r)"
    and "sub_steps_left (sub_pc r) \<le> Suc n"
  shows "sub_steps_left (sub_pc r') \<le> n"
proof -
  obtain b where b: "wk_map (sub_worker r) subKey = Some (b, False)"
    using assms(2) by (auto simp: wk_stopping_def)
  show ?thesis
    using assms(1,3) b
    by (cases "sub_pc r" rule: sub_steps_left.cases)
      (auto simp: receive_step_def worker_test_def goto_def Let_def split: prod.splits sum.splits if_splits)
qed

text \<open>What is left of the round a thread is in: the receive it may be waiting in, and the callbacks of what that
  brings.\<close>

fun rest_of_round ::
  "(bool \<Rightarrow> ('a, fault, unit) smon) \<Rightarrow> (bytes \<Rightarrow> bytes \<Rightarrow> ('a, fault, unit) smon) \<Rightarrow> deliveries \<Rightarrow> xsub_t \<Rightarrow> sub_job wpc option
     \<Rightarrow> ('a, fault, unit) smon" where
  "rest_of_round callback process arrivals s (Some Recv) =
     (case fst (recv_multipart arrivals s) of
        Inl e \<Rightarrow> throwS e
      | Inr messages \<Rightarrow>
          if length messages \<noteq> 2 then callback False
          else bindS (process (m_data (messages ! 0)) (m_data (messages ! 1))) (\<lambda>_. callback True))"
| "rest_of_round callback process arrivals s (Some (Job (SJ_Process env content))) =
     bindS (process env content) (\<lambda>_. callback True)"
| "rest_of_round callback process arrivals s (Some (Job (SJ_Callback success))) = callback success"
| "rest_of_round callback process arrivals s _ = retS ()"

lemma receive_step_exited:
  "sub_pc r = Some Exited \<Longrightarrow> receive_step callback process d (r, a) = (Inr (), (r, a))"
  by (cases r) (simp add: receive_step_def worker_test_def Let_def)

lemma run_receive_exited:
  "sub_pc r = Some Exited \<Longrightarrow> run_receive callback process ds (r, a) = (Inr (), (r, a))"
  by (induction ds) (simp_all add: bindS_Inr receive_step_exited)

lemma run_receive_step:
  "receive_step callback process d (r, a) = (Inr (), x) \<Longrightarrow>
     run_receive callback process (d # ds) (r, a) = run_receive callback process ds x"
  by (simp add: bindS_Inr)

lemma receive_step_stopping:
  assumes "wk_stopping subKey (sub_worker r)" "sub_pc r = Some Check"
  shows "\<exists>r'. receive_step callback process d (r, a) = (Inr (), (r', a)) \<and> sub_pc r' = Some Exited"
  using assms by (auto simp: receive_step_def worker_test_def goto_def wk_stopping_def Let_def)

text \<open>The last round of a thread that was told to stop is the rest of the one it is in.\<close>

lemma run_receive_stopping_check:
  assumes "wk_stopping subKey (sub_worker r)" "sub_pc r = Some Check"
  shows "\<exists>r'. run_receive callback process (d # ds) (r, a) = (Inr (), (r', a)) \<and> sub_pc r' = Some Exited"
proof -
  obtain r' where "receive_step callback process d (r, a) = (Inr (), (r', a))" "sub_pc r' = Some Exited"
    using receive_step_stopping [OF assms, of callback process d a] by blast
  then show ?thesis by (simp add: bindS_Inr run_receive_exited)
qed

lemma run_receive_stopping_callback:
  assumes "wk_stopping subKey (sub_worker r)" "sub_pc r = Some (Job (SJ_Callback b))"
  shows "\<exists>r'. run_receive callback process (d1 # d2 # ds) (r, a) = (fst (callback b a), (r', snd (callback b a)))
    \<and> (fst (callback b a) = Inr () \<longrightarrow> sub_pc r' = Some Exited)"
proof (cases "callback b a")
  case (Pair res a')
  let ?r = "r\<lparr>sub_worker := goto Check (sub_worker r)\<rparr>"
  show ?thesis
  proof (cases res)
    case (Inl x)
    then show ?thesis using Pair assms(2) by (auto simp: bindS_def receive_step_def Let_def)
  next
    case (Inr u)
    have "receive_step callback process d1 (r, a) = (Inr (), (?r, a'))"
      using Pair Inr assms(2) by (simp add: receive_step_def Let_def)
    moreover have "wk_stopping subKey (sub_worker ?r)" "sub_pc ?r = Some Check"
      using assms(1) by (simp_all add: goto_def wk_stopping_def)
    ultimately show ?thesis
      using run_receive_stopping_check [of ?r callback process d2 ds a'] Pair Inr by (simp add: bindS_Inr)
  qed
qed

lemma run_receive_stopping_process:
  assumes "wk_stopping subKey (sub_worker r)" "sub_pc r = Some (Job (SJ_Process e c))"
    and "R = bindS (process e c) (\<lambda>_. callback True) a"
  shows "\<exists>r'. run_receive callback process (d1 # d2 # d3 # ds) (r, a) = (fst R, (r', snd R))
    \<and> (fst R = Inr () \<longrightarrow> sub_pc r' = Some Exited)"
proof (cases "process e c a")
  case (Pair res a')
  let ?r = "r\<lparr>sub_worker := goto (Job (SJ_Callback True)) (sub_worker r)\<rparr>"
  show ?thesis
  proof (cases res)
    case (Inl x)
    then show ?thesis using Pair assms(2,3) by (auto simp: bindS_def receive_step_def Let_def)
  next
    case (Inr u)
    have step: "receive_step callback process d1 (r, a) = (Inr (), (?r, a'))"
      using Pair Inr assms(2) by (simp add: receive_step_def Let_def)
    have "wk_stopping subKey (sub_worker ?r)" "sub_pc ?r = Some (Job (SJ_Callback True))"
      using assms(1) by (simp_all add: goto_def wk_stopping_def)
    then obtain r' where "run_receive callback process (d2 # d3 # ds) (?r, a') = (fst (callback True a'), (r', snd (callback True a')))"
      "fst (callback True a') = Inr () \<longrightarrow> sub_pc r' = Some Exited"
      using run_receive_stopping_callback [of ?r True callback process d2 d3 ds a'] by blast
    moreover have "R = callback True a'" using Pair Inr assms(3) by (simp add: bindS_Inr)
    moreover have "run_receive callback process (d1 # d2 # d3 # ds) (r, a) = run_receive callback process (d2 # d3 # ds) (?r, a')"
      using step by (rule run_receive_step)
    ultimately show ?thesis by simp
  qed
qed

lemma run_receive_stopping_recv:
  assumes "wk_stopping subKey (sub_worker r)" "sub_pc r = Some Recv"
    and "R = rest_of_round callback process d1 (sub_socket r) (Some Recv) a"
  shows "\<exists>r'. run_receive callback process (d1 # d2 # d3 # d4 # ds) (r, a) = (fst R, (r', snd R))
    \<and> (fst R = Inr () \<longrightarrow> sub_pc r' = Some Exited)"
proof (cases "recv_multipart d1 (sub_socket r)")
  case (Pair res s)
  show ?thesis
  proof (cases res)
    case (Inl x)
    then show ?thesis using Pair assms(2,3) by (auto simp: bindS_def receive_step_def Let_def throwS_def)
  next
    case (Inr ms)
    let ?job = "if length ms \<noteq> 2 then SJ_Callback False else SJ_Process (m_data (ms ! 0)) (m_data (ms ! 1))"
    let ?r = "r\<lparr>sub_socket := s, sub_worker := goto (Job ?job) (sub_worker r)\<rparr>"
    have step: "receive_step callback process d1 (r, a) = (Inr (), (?r, a))"
      using Pair Inr assms(2) by (simp add: receive_step_def Let_def)
    have st: "wk_stopping subKey (sub_worker ?r)" "sub_pc ?r = Some (Job ?job)"
      using assms(1) by (simp_all add: goto_def wk_stopping_def)
    have run: "run_receive callback process (d1 # d2 # d3 # d4 # ds) (r, a) = run_receive callback process (d2 # d3 # d4 # ds) (?r, a)"
      using step by (rule run_receive_step)
    show ?thesis
    proof (cases "length ms \<noteq> 2")
      case True
      then have "R = callback False a" using Pair Inr assms(3) by simp
      then show ?thesis
        using run_receive_stopping_callback [of ?r False callback process d2 d3 "d4 # ds" a] st True run by simp
    next
      case False
      then have "R = bindS (process (m_data (ms ! 0)) (m_data (ms ! 1))) (\<lambda>_. callback True) a" using Pair Inr assms(3) by simp
      then show ?thesis
        using run_receive_stopping_process [of ?r "m_data (ms ! 0)" "m_data (ms ! 1)" R process callback a d2 d3 d4 ds] st False run by simp
    qed
  qed
qed

text \<open>Whatever it was doing, a thread that was told to stop finishes its round and returns.\<close>

lemma run_receive_stopping:
  assumes "wk_stopping subKey (sub_worker r)" "sub_pc r \<noteq> None" "4 \<le> length ds"
    and "R = rest_of_round callback process (hd ds) (sub_socket r) (sub_pc r) a"
  shows "\<exists>r'. run_receive callback process ds (r, a) = (fst R, (r', snd R)) \<and> (fst R = Inr () \<longrightarrow> sub_pc r' = Some Exited)"
proof -
  obtain d1 d2 d3 d4 ds' where ds: "ds = d1 # d2 # d3 # d4 # ds'"
    using assms(3) by (auto simp: numeral_eq_Suc Suc_le_length_iff)
  obtain pc where pc: "sub_pc r = Some pc" using assms(2) by auto
  show ?thesis
  proof (cases pc)
    case Spin
    obtain b where b: "wk_map (sub_worker r) subKey = Some (b, False)" using assms(1) by (auto simp: wk_stopping_def)
    let ?r = "r\<lparr>sub_worker := (sub_worker r)\<lparr>wk_pc := Some Check\<rparr>\<rparr>"
    have "receive_step callback process d1 (r, a) = (Inr (), (?r, a))"
      using pc Spin b by (simp add: receive_step_def worker_test_def Let_def)
    then have "run_receive callback process ds (r, a) = run_receive callback process (d2 # d3 # d4 # ds') (?r, a)"
      unfolding ds by (rule run_receive_step)
    moreover have "wk_stopping subKey (sub_worker ?r)" "sub_pc ?r = Some Check" using assms(1) by (simp_all add: wk_stopping_def)
    ultimately show ?thesis
      using run_receive_stopping_check [of ?r callback process d2 "d3 # d4 # ds'" a] pc Spin assms(4) by simp
  next
    case Check
    then show ?thesis
      using run_receive_stopping_check [of r callback process d1 "d2 # d3 # d4 # ds'" a] assms(1,4) pc unfolding ds by simp
  next
    case Recv
    then show ?thesis using run_receive_stopping_recv [OF assms(1), of R callback process d1 a d2 d3 d4 ds'] assms(4) pc unfolding ds by simp
  next
    case (Job j)
    show ?thesis
    proof (cases j)
      case (SJ_Process e c)
      then show ?thesis
        using run_receive_stopping_process [OF assms(1), of e c R process callback a d1 d2 d3 "d4 # ds'"] assms(4) pc Job unfolding ds by simp
    next
      case (SJ_Callback b)
      then show ?thesis
        using run_receive_stopping_callback [OF assms(1), of b callback process d1 d2 "d3 # d4 # ds'" a] assms(4) pc Job unfolding ds by simp
    qed
  next
    case Exited
    then show ?thesis using run_receive_exited [of r callback process ds a] assms(4) pc by simp
  qed
qed

lemma run_receive_map:
  "run_receive callback process ds (r, a) = (res, (r', a')) \<Longrightarrow> wk_map (sub_worker r') = wk_map (sub_worker r)"
proof (induction ds arbitrary: r a)
  case Nil
  then show ?case by simp
next
  case (Cons d ds)
  obtain res1 r1 a1 where s: "receive_step callback process d (r, a) = (res1, (r1, a1))" by (metis prod.collapse)
  show ?case
  proof (cases res1)
    case (Inl x)
    then show ?thesis using Cons.prems s receive_step_map [OF s] by (simp add: bindS_Inl)
  next
    case (Inr u)
    then have "run_receive callback process ds (r1, a1) = (res, (r', a'))"
      using Cons.prems s by (simp add: bindS_Inr)
    then show ?thesis using Cons.IH receive_step_map [OF s] by simp
  qed
qed

section \<open>Taking messages\<close>

definition sub_listening :: "pipe_id \<Rightarrow> subscriber \<Rightarrow> bool" where
  "sub_listening x r \<longleftrightarrow> sub_pc r = Some Check \<and> (\<exists>b. wk_map (sub_worker r) subKey = Some (b, True))
     \<and> sub_peer x (sub_socket r)"

lemma recv_multipart_pair:
  assumes "sub_peer x s" "sub_takes s e"
  shows "\<exists>s'. recv_multipart ((x, [mk_msg e True, mk_msg c False]) # as) s = (Inr [mk_msg e True, mk_msg c False], s')
    \<and> sub_peer x s' \<and> xs_subscriptions s' = xs_subscriptions s"
proof -
  obtain s1 s2 where r: "xsub_recv ((x, [mk_msg e True, mk_msg c False]) # as) s = (Inr (mk_msg e True), s1)"
    "xsub_recv [] s1 = (Inr (mk_msg c False), s2)" "sub_peer x s2" "xs_subscriptions s2 = xs_subscriptions s"
    using sub_recv_pair [OF assms] by blast
  then show ?thesis
    by (simp add: recv_multipart_def bindS_def zmq_result_def del: xsub_recv.simps)
qed

lemma recv_multipart_timeout:
  assumes "sub_peer x s"
  shows "\<exists>s'. recv_multipart [] s = (Inr [], s') \<and> sub_peer x s' \<and> xs_subscriptions s' = xs_subscriptions s"
  using sub_recv_timeout [OF assms] by (auto simp: recv_multipart_def bindS_def zmq_result_def simp del: xsub_recv.simps)

text \<open>A published pair: the content is processed once under its envelope, then success is reported.\<close>

lemma run_receive_pair:
  assumes "sub_listening x r" "sub_takes (sub_socket r) e"
    and "process e c a = (Inr (), a1)" "callback True a1 = (Inr (), a2)"
  obtains r' where "run_receive callback process [d1, (x, [mk_msg e True, mk_msg c False]) # as, d3, d4] (r, a) = (Inr (), (r', a2))"
    "sub_listening x r'" "xs_subscriptions (sub_socket r') = xs_subscriptions (sub_socket r)" "sub_worker r' = sub_worker r"
proof -
  obtain s' where s: "recv_multipart ((x, [mk_msg e True, mk_msg c False]) # as) (sub_socket r) = (Inr [mk_msg e True, mk_msg c False], s')"
    "sub_peer x s'" "xs_subscriptions s' = xs_subscriptions (sub_socket r)"
    using recv_multipart_pair [of x "sub_socket r" e c "as"] assms(1,2) by (auto simp: sub_listening_def)
  let ?r = "r\<lparr>sub_socket := s', sub_worker := goto Check (sub_worker r)\<rparr>"
  have w: "goto Check (sub_worker r) = sub_worker r"
    using assms(1) by (cases "sub_worker r") (simp add: sub_listening_def goto_def)
  have "run_receive callback process [d1, (x, [mk_msg e True, mk_msg c False]) # as, d3, d4] (r, a) = (Inr (), (?r, a2))"
    using assms(1,3,4) s(1) w
    by (auto simp: sub_listening_def bindS_def receive_step_def worker_test_def goto_def)
  then show ?thesis using that [of ?r] s assms(1) w by (simp add: sub_listening_def)
qed

text \<open>Nothing within the timeout: failure is reported, nothing is processed.\<close>

lemma run_receive_timeout:
  assumes "sub_listening x r" "callback False a = (Inr (), a')"
  obtains r' where "run_receive callback process [d1, [], d3] (r, a) = (Inr (), (r', a'))"
    "sub_listening x r'" "xs_subscriptions (sub_socket r') = xs_subscriptions (sub_socket r)"
proof -
  obtain s' where s: "recv_multipart [] (sub_socket r) = (Inr [], s')" "sub_peer x s'"
    "xs_subscriptions s' = xs_subscriptions (sub_socket r)"
    using recv_multipart_timeout [of x "sub_socket r"] assms(1) by (auto simp: sub_listening_def)
  let ?r = "r\<lparr>sub_socket := s', sub_worker := goto Check (sub_worker r)\<rparr>"
  have w: "goto Check (sub_worker r) = sub_worker r"
    using assms(1) by (cases "sub_worker r") (simp add: sub_listening_def goto_def)
  have "run_receive callback process [d1, [], d3] (r, a) = (Inr (), (?r, a'))"
    using assms s(1) w by (auto simp: sub_listening_def bindS_def receive_step_def worker_test_def goto_def)
  then show ?thesis using that [of ?r] s assms(1) w by (simp add: sub_listening_def)
qed

end
