(* ===== verification/ZmqMtrie.thy ===== *)
theory ZmqMtrie
  imports ZmqTrie ZmqPipe
begin

text \<open>
  The subscriptions of a PUB socket: the multi-trie of
  \<open>3rd/zeromq/src/generic_mtrie_impl.hpp\<close>, whose nodes hold the set of pipes subscribed to a
  prefix. A set of pipes is an ordered list without repetitions; the null pointer is the empty
  list. The node walk, the growth of tables and their pruning are those of \<open>ZmqTrie\<close>; the stack the
  C++ code keeps by hand is the recursion here.
\<close>

type_synonym mtrie = "pipe_id list trie_t"

datatype rm_result = not_found | last_value_removed | values_remain

definition mtrie_add :: "bytes \<Rightarrow> pipe_id \<Rightarrow> mtrie \<Rightarrow> bool \<times> mtrie" where
  "mtrie_add p x t = (trie_lookup [] p t = [], trie_update [] (insort_insert x) p t)"

definition mtrie_rm :: "bytes \<Rightarrow> pipe_id \<Rightarrow> mtrie \<Rightarrow> rm_result \<times> mtrie" where
  "mtrie_rm p x t =
     (let pipes = trie_lookup [] p t in
      (if x \<notin> set pipes then not_found else if remove1 x pipes = [] then last_value_removed else values_remain,
       trie_remove [] (remove1 x) p t))"

text \<open>Removing a pipe everywhere: children first to last, then the node's table is freed, replaced by
  its single live child, or cut down to the range from the first to the last live child.\<close>

definition compact_table :: "'a \<Rightarrow> nat \<Rightarrow> 'a trie_t option list \<Rightarrow> 'a trie_t" where
  "compact_table v mn tab =
     (if filled tab = 0 then Trie v mn 0 []
      else Trie v (mn + leading tab) (filled tab)
        (take (length tab - leading tab - leading (rev tab)) (drop (leading tab) tab)))"

fun mtrie_rm_pipe :: "pipe_id \<Rightarrow> mtrie \<Rightarrow> mtrie" where
  "mtrie_rm_pipe x (Trie pipes mn live tab) =
     compact_table (remove1 x pipes) mn (map (\<lambda>s. case s of
         None \<Rightarrow> None
       | Some n \<Rightarrow> let n' = mtrie_rm_pipe x n in if is_redundant [] n' then None else Some n') tab)"

text \<open>The pipes to signal for a message, in the order of the calls.\<close>

fun mtrie_match :: "bytes \<Rightarrow> mtrie \<Rightarrow> pipe_id list" where
  "mtrie_match [] t = node_val t"
| "mtrie_match (ch # cs) t = node_val t @
     (let c = char_num ch in
      if c < node_min t \<or> c \<ge> node_min t + node_count t then []
      else case node_next t ! (c - node_min t) of None \<Rightarrow> [] | Some n \<Rightarrow> mtrie_match cs n)"

section \<open>What a multi-trie holds\<close>

definition msubs :: "mtrie \<Rightarrow> bytes \<Rightarrow> pipe_id set" where
  "msubs t p = set (trie_lookup [] p t)"

text \<open>Every node's list is a set.\<close>

definition mtrie_ok :: "mtrie \<Rightarrow> bool" where
  "mtrie_ok t \<longleftrightarrow> trie_ok t \<and> (\<forall>p. distinct (trie_lookup [] p t))"

lemma mtrie_ok_new: "mtrie_ok (new_trie [])"
  by (simp add: mtrie_ok_def)

lemma mtrie_add_ok: "mtrie_ok t \<Longrightarrow> mtrie_ok (snd (mtrie_add p x t))"
  by (auto simp: mtrie_ok_def mtrie_add_def trie_update_ok trie_update_lookup distinct_insort_insert)

lemma mtrie_rm_ok: "mtrie_ok t \<Longrightarrow> mtrie_ok (snd (mtrie_rm p x t))"
  by (auto simp: mtrie_ok_def mtrie_rm_def Let_def trie_remove_ok trie_remove_lookup)

lemma msubs_new: "msubs (new_trie []) = (\<lambda>_. {})"
  by (simp add: msubs_def fun_eq_iff)

lemma msubs_add: "mtrie_ok t \<Longrightarrow> msubs (snd (mtrie_add p x t)) = (msubs t)(p := insert x (msubs t p))"
  by (auto simp: mtrie_ok_def msubs_def mtrie_add_def trie_update_lookup fun_eq_iff set_insort_insert)

lemma msubs_rm: "mtrie_ok t \<Longrightarrow> msubs (snd (mtrie_rm p x t)) = (msubs t)(p := msubs t p - {x})"
  by (auto simp: mtrie_ok_def msubs_def mtrie_rm_def Let_def trie_remove_lookup fun_eq_iff)

lemma match_slot:
  "mtrie_match (ch # cs) t = node_val t @ (case slot t (char_num ch) of None \<Rightarrow> [] | Some n \<Rightarrow> mtrie_match cs n)"
  by (simp add: slot_def Let_def)

lemma mtrie_match_iff: "x \<in> set (mtrie_match d t) \<longleftrightarrow> (\<exists>p. prefix p d \<and> x \<in> msubs t p)"
proof (induction d arbitrary: t)
  case Nil
  then show ?case by (simp add: msubs_def)
next
  case (Cons ch cs)
  have "(\<exists>p. prefix p (ch # cs) \<and> x \<in> msubs t p) \<longleftrightarrow>
      x \<in> msubs t [] \<or> (\<exists>p. prefix p cs \<and> x \<in> msubs t (ch # p))"
    by (metis Cons_prefix_Cons Nil_prefix prefix_Cons)
  also have "\<dots> \<longleftrightarrow> x \<in> set (node_val t)
      \<or> (case slot t (char_num ch) of None \<Rightarrow> False | Some n \<Rightarrow> \<exists>p. prefix p cs \<and> x \<in> msubs n p)"
    by (auto simp: msubs_def lookup_slot simp del: trie_lookup.simps(2) split: option.splits)
  also have "\<dots> \<longleftrightarrow> x \<in> set (mtrie_match (ch # cs) t)"
    by (auto simp: match_slot Cons.IH simp del: mtrie_match.simps(2) split: option.splits)
  finally show ?case by simp
qed

section \<open>Removing a pipe everywhere\<close>

lemma filled_take_leading: "filled (take (leading xs) xs) = 0"
  by (induction xs rule: leading.induct) auto

lemma leading_rev_le:
  assumes "filled tab > 0" shows "leading tab + leading (rev tab) < length tab"
proof -
  have l: "leading tab < length tab" by (rule leading_filled [OF assms])
  have r: "leading (rev tab) < length tab" using leading_filled [of "rev tab"] assms by simp
  have "rev tab ! (length tab - 1 - leading tab) \<noteq> None"
    using leading_Some [OF l] l by (simp add: rev_nth)
  then have "\<not> length tab - 1 - leading tab < leading (rev tab)" using leading_None by metis
  then show ?thesis using l by linarith
qed

lemma compact_table_ok:
  assumes "mn + length tab \<le> 256" "\<And>n. Some n \<in> set tab \<Longrightarrow> trie_ok n"
  shows "trie_ok (compact_table v mn tab)"
    and "slot (compact_table v mn tab) d = slot (Trie v mn (filled tab) tab) d"
    and "node_val (compact_table v mn tab) = v"
proof -
  show "node_val (compact_table v mn tab) = v" by (simp add: compact_table_def)
  let ?l = "leading tab" and ?r = "leading (rev tab)"
  let ?tab = "take (length tab - ?l - ?r) (drop ?l tab)"
  show "trie_ok (compact_table v mn tab)"
  proof (cases "filled tab = 0")
    case True
    then show ?thesis using assms(1) by (simp add: compact_table_def)
  next
    case False
    then have lr: "?l + ?r < length tab" using leading_rev_le by blast
    have ne: "?tab \<noteq> []" using lr by simp
    have "hd ?tab = tab ! ?l" using lr by (simp add: hd_take hd_drop_conv_nth)
    then have h: "hd ?tab \<noteq> None" using leading_Some [of tab] lr by simp
    have "last ?tab = tab ! (length tab - 1 - ?r)"
    proof -
      have "length ?tab = length tab - ?l - ?r" using lr by simp
      then show ?thesis using lr by (simp add: last_conv_nth ne)
    qed
    also have "\<dots> = rev tab ! ?r" using lr by (simp add: rev_nth)
    finally have l: "last ?tab \<noteq> None" using leading_Some [of "rev tab"] lr by simp
    have "drop ?l tab = ?tab @ drop (length tab - ?l - ?r) (drop ?l tab)"
      by (simp only: append_take_drop_id)
    moreover have "filled (drop (length tab - ?l - ?r) (drop ?l tab)) = 0"
    proof -
      have "drop (length tab - ?l - ?r) (drop ?l tab) = drop (length tab - ?r) tab" using lr by simp
      also have "\<dots> = rev (take ?r (rev tab))" by (simp add: rev_take)
      finally show ?thesis using filled_take_leading [of "rev tab"] by simp
    qed
    ultimately have "filled ?tab = filled tab"
      using filled_drop_leading [of tab] filled_append [of ?tab "drop (length tab - ?l - ?r) (drop ?l tab)"] by simp
    moreover have "\<And>n. Some n \<in> set ?tab \<Longrightarrow> trie_ok n"
      using assms(2) by (meson in_set_dropD in_set_takeD)
    ultimately show ?thesis
      using h l lr assms(1) False by (simp add: compact_table_def)
  qed
  show "slot (compact_table v mn tab) d = slot (Trie v mn (filled tab) tab) d"
  proof (cases "filled tab = 0")
    case True
    then have "\<And>i. i < length tab \<Longrightarrow> tab ! i = None" by (simp add: filled_0)
    then show ?thesis using True by (auto simp: compact_table_def slot_def node_count_def)
  next
    case False
    then have lr: "?l + ?r < length tab" using leading_rev_le by blast
    have len: "length ?tab = length tab - ?l - ?r" using lr by simp
    have low: "tab ! (d - mn) = None" if "mn \<le> d" "d < mn + ?l"
      using leading_None [of "d - mn" tab] that by auto
    have high: "tab ! (d - mn) = None" if "mn + (length tab - ?r) \<le> d" "d < mn + length tab"
    proof -
      have "rev tab ! (length tab - 1 - (d - mn)) = None" using that lr by (intro leading_None) linarith
      then show ?thesis using that lr by (simp add: rev_nth)
    qed
    consider "d < mn" | "mn \<le> d" "d < mn + ?l" | "mn + ?l \<le> d" "d < mn + (length tab - ?r)"
      | "mn + (length tab - ?r) \<le> d" "d < mn + length tab" | "mn + length tab \<le> d"
      by linarith
    then show ?thesis
      using lr len low high False
      by cases (auto simp: compact_table_def slot_def node_count_def)
  qed
qed

lemma mtrie_rm_pipe_trie:
  "trie_ok t \<Longrightarrow> trie_ok (mtrie_rm_pipe x t) \<and> (\<forall>p. trie_lookup [] p (mtrie_rm_pipe x t) = remove1 x (trie_lookup [] p t))"
proof (induction x t rule: mtrie_rm_pipe.induct)
  case (1 x pipes mn live tab)
  let ?f = "\<lambda>s. case s of None \<Rightarrow> None
       | Some n \<Rightarrow> let n' = mtrie_rm_pipe x n in if is_redundant [] n' then None else Some n'"
  let ?t = "mtrie_rm_pipe x (Trie pipes mn live tab)"
  have IH: "trie_ok (mtrie_rm_pipe x n)" "trie_lookup [] p (mtrie_rm_pipe x n) = remove1 x (trie_lookup [] p n)"
    if "Some n \<in> set tab" for n p
    using 1 that by auto
  have s: "Some m \<in> set (map ?f tab) \<Longrightarrow> trie_ok m" for m
    using IH(1) by (auto simp: Let_def split: option.splits if_splits)
  have l: "mn + length (map ?f tab) \<le> 256" using "1.prems" by simp
  note c = compact_table_ok [OF l s, of "remove1 x pipes"]
  have "trie_lookup [] p ?t = remove1 x (trie_lookup [] p (Trie pipes mn live tab))" for p
  proof (cases p)
    case Nil
    then show ?thesis using c(3) by simp
  next
    case (Cons ch cs)
    have "slot ?t (char_num ch) = slot (Trie (remove1 x pipes) mn (filled (map ?f tab)) (map ?f tab)) (char_num ch)"
      using c(2) [of "char_num ch"] by simp
    also have "\<dots> = (case slot (Trie pipes mn live tab) (char_num ch) of None \<Rightarrow> None | Some n \<Rightarrow> ?f (Some n))"
      by (auto simp: slot_def node_count_def split: option.splits)
    finally have "slot ?t (char_num ch) = (case slot (Trie pipes mn live tab) (char_num ch) of None \<Rightarrow> None | Some n \<Rightarrow> ?f (Some n))" .
    moreover have "trie_lookup [] cs (mtrie_rm_pipe x n) = remove1 x (trie_lookup [] cs n)"
      "is_redundant [] (mtrie_rm_pipe x n) \<Longrightarrow> remove1 x (trie_lookup [] cs n) = []"
      if "slot (Trie pipes mn live tab) (char_num ch) = Some n" for n
    proof -
      have n: "Some n \<in> set tab"
        using that by (auto simp: slot_def node_count_def split: if_splits elim!: some_nth [rotated])
      then show "trie_lookup [] cs (mtrie_rm_pipe x n) = remove1 x (trie_lookup [] cs n)" by (rule IH(2))
      then show "is_redundant [] (mtrie_rm_pipe x n) \<Longrightarrow> remove1 x (trie_lookup [] cs n) = []"
        using redundant_lookup [OF IH(1) [OF n], of "[]" cs] by simp
    qed
    ultimately show ?thesis
      by (auto simp: Cons lookup_slot Let_def simp del: trie_lookup.simps(2) mtrie_rm_pipe.simps split: option.splits)
  qed
  then show ?case using c(1) by simp
qed

lemma mtrie_rm_pipe_ok: "mtrie_ok t \<Longrightarrow> mtrie_ok (mtrie_rm_pipe x t)"
  using mtrie_rm_pipe_trie [of t x] by (auto simp: mtrie_ok_def)

lemma msubs_rm_pipe: "mtrie_ok t \<Longrightarrow> msubs (mtrie_rm_pipe x t) p = msubs t p - {x}"
  using mtrie_rm_pipe_trie [of t x] by (auto simp: mtrie_ok_def msubs_def)

end
