(* ===== verification/ZmqPub.thy ===== *)
theory ZmqPub
  imports ZmqDist ZmqMtrie
begin

text \<open>
  The PUB socket (\<open>3rd/zeromq/src/pub.cpp\<close> on \<open>xpub.cpp\<close>) that \<open>Publisher\<close> owns: it reads the
  subscriptions of its subscribers off their pipes and sends each message to the pipes with a
  subscription that is a prefix of its first part. Message metadata is not modelled.
\<close>

record xpub_t =
  xp_heap :: heap
  xp_dist :: dist_t
  xp_subscriptions :: mtrie
  xp_manual_subscriptions :: mtrie
  xp_verbose_subs :: bool
  xp_verbose_unsubs :: bool
  xp_more_send :: bool
  xp_more_recv :: bool
  xp_process_subscribe :: bool
  xp_only_first_subscribe :: bool
  xp_lossy :: bool
  xp_manual :: bool
  xp_send_last_pipe :: bool
  xp_last_pipe :: "pipe_id option"
  xp_pending_pipes :: "pipe_id option list"
  xp_pending_data :: "(bytes \<times> bool) list"
  xp_invert_matching :: bool
  xp_is_pub :: bool

definition new_xpub :: "bool \<Rightarrow> xpub_t" where
  "new_xpub is_pub = \<lparr>xp_heap = (\<lambda>_. new_pipe 0 0), xp_dist = new_dist, xp_subscriptions = new_trie [],
     xp_manual_subscriptions = new_trie [], xp_verbose_subs = False, xp_verbose_unsubs = False, xp_more_send = False,
     xp_more_recv = False, xp_process_subscribe = False, xp_only_first_subscribe = False, xp_lossy = True,
     xp_manual = False, xp_send_last_pipe = False, xp_last_pipe = None, xp_pending_pipes = [], xp_pending_data = [],
     xp_invert_matching = False, xp_is_pub = is_pub\<rparr>"

section \<open>Subscriptions\<close>

text \<open>A frame from a subscriber: a command, or the old form with a leading byte 1 or 0. \<open>None\<close>: a user
  message.\<close>

definition subscription_of :: "msg_t \<Rightarrow> (bool \<times> bytes) option" where
  "subscription_of m =
     (if m_kind m = Subscribe_Cmd then Some (True, m_data m)
      else if m_kind m = Cancel_Cmd then Some (False, m_data m)
      else case m_data m of
          c # cs \<Rightarrow> if char_num c = 1 then Some (True, cs) else if char_num c = 0 then Some (False, cs) else None
        | [] \<Rightarrow> None)"

definition xpub_apply :: "pipe_id \<Rightarrow> bool \<Rightarrow> bytes \<Rightarrow> xpub_t \<Rightarrow> xpub_t" where
  "xpub_apply x subscribe data s =
     (let (notify, s1) =
        (if xp_manual s
         then (False, s\<lparr>xp_manual_subscriptions := (if subscribe then snd (mtrie_add data x (xp_manual_subscriptions s))
                                                else snd (mtrie_rm data x (xp_manual_subscriptions s))),
                 xp_pending_pipes := xp_pending_pipes s @ [Some x]\<rparr>)
         else if \<not> subscribe
         then case mtrie_rm data x (xp_subscriptions s) of
             (r, t) \<Rightarrow> (r \<noteq> values_remain \<or> xp_verbose_unsubs s, s\<lparr>xp_subscriptions := t\<rparr>)
         else case mtrie_add data x (xp_subscriptions s) of
             (first_added, t) \<Rightarrow> (first_added \<or> xp_verbose_subs s, s\<lparr>xp_subscriptions := t\<rparr>))
      in if xp_manual s1 \<or> (\<not> xp_is_pub s1 \<and> notify)
         then s1\<lparr>xp_pending_data := xp_pending_data s1 @ [((if subscribe then CHR 0x01 else CHR 0x00) # data, False)]\<rparr>
         else s1)"

definition xpub_read_msg :: "pipe_id \<Rightarrow> msg_t \<Rightarrow> xpub_t \<Rightarrow> xpub_t" where
  "xpub_read_msg x m s =
     (let first_part = \<not> xp_more_recv s;
          s1 = s\<lparr>xp_more_recv := m_more m\<rparr>;
          sub = (if first_part \<or> xp_process_subscribe s1 then subscription_of m else None);
          s2 = (if first_part then s1\<lparr>xp_process_subscribe := \<not> xp_only_first_subscribe s1 \<or> sub \<noteq> None\<rparr> else s1)
      in case sub of
           Some (subscribe, data) \<Rightarrow> xpub_apply x subscribe data s2
         | None \<Rightarrow> if \<not> xp_is_pub s2 then s2\<lparr>xp_pending_data := xp_pending_data s2 @ [(m_data m, m_more m)]\<rparr> else s2)"

text \<open>Read whatever the pipe holds; every round takes a frame, so its length bounds the rounds.\<close>

fun xpub_read_from :: "nat \<Rightarrow> pipe_id \<Rightarrow> xpub_t \<Rightarrow> xpub_t" where
  "xpub_read_from 0 x s = s"
| "xpub_read_from (Suc n) x s =
     (case pipe_read (xp_heap s x) of
        (None, p) \<Rightarrow> s\<lparr>xp_heap := (xp_heap s)(x := p)\<rparr>
      | (Some m, p) \<Rightarrow> xpub_read_from n x (xpub_read_msg x m (s\<lparr>xp_heap := (xp_heap s)(x := p)\<rparr>)))"

definition xpub_read_activated :: "pipe_id \<Rightarrow> xpub_t \<Rightarrow> xpub_t" where
  "xpub_read_activated x s = xpub_read_from (Suc (length (p_in (xp_heap s x)))) x s"

text \<open>Attaching a pipe; there is no welcome message unless the option is set, which the model leaves out.\<close>

definition xpub_attach_pipe :: "pipe_id \<Rightarrow> bool \<Rightarrow> xpub_t \<Rightarrow> xpub_t" where
  "xpub_attach_pipe x subscribe_to_all s =
     (let s1 = s\<lparr>xp_dist := dist_attach x (xp_dist s)\<rparr>;
          s2 = (if subscribe_to_all then s1\<lparr>xp_subscriptions := snd (mtrie_add [] x (xp_subscriptions s1))\<rparr> else s1)
      in xpub_read_activated x s2)"

definition xpub_write_activated :: "pipe_id \<Rightarrow> xpub_t \<Rightarrow> xpub_t" where
  "xpub_write_activated x s = s\<lparr>xp_dist := dist_activated x (xp_dist s)\<rparr>"

text \<open>On a PUB socket nobody is told of the subscriptions that end with a pipe.\<close>

definition pub_pipe_terminated :: "pipe_id \<Rightarrow> xpub_t \<Rightarrow> xpub_t" where
  "pub_pipe_terminated x s =
     (let s1 = (if xp_manual s then s\<lparr>xp_manual_subscriptions := mtrie_rm_pipe x (xp_manual_subscriptions s)\<rparr> else s)
      in s1\<lparr>xp_subscriptions := mtrie_rm_pipe x (xp_subscriptions s1), xp_dist := dist_pipe_terminated x (xp_dist s1)\<rparr>)"

section \<open>Sending\<close>

definition xpub_select :: "msg_t \<Rightarrow> xpub_t \<Rightarrow> xpub_t" where
  "xpub_select m s =
     (let s0 = s\<lparr>xp_dist := dist_unmatch (xp_dist s)\<rparr>;
          pipes = mtrie_match (m_data m) (xp_subscriptions s0);
          s1 = (if xp_manual s0 \<and> xp_last_pipe s0 \<noteq> None \<and> xp_send_last_pipe s0
                then s0\<lparr>xp_dist := fold (\<lambda>x d. if xp_last_pipe s0 = Some x then dist_match x d else d) pipes (xp_dist s0),
                        xp_last_pipe := None\<rparr>
                else s0\<lparr>xp_dist := fold dist_match pipes (xp_dist s0)\<rparr>)
      in if xp_invert_matching s1 then s1\<lparr>xp_dist := dist_reverse_match (xp_dist s1)\<rparr> else s1)"

definition xpub_xsend :: "msg_t \<Rightarrow> (xpub_t, errno, unit) smon" where
  "xpub_xsend m = (\<lambda>s.
     let s1 = (if \<not> xp_more_send s then xpub_select m s else s) in
     if xp_lossy s1 \<or> dist_check_hwm (xp_dist s1, xp_heap s1)
     then case dist_send_to_matching m (xp_dist s1, xp_heap s1) of
         (d, h) \<Rightarrow> (Inr (), s1\<lparr>xp_dist := if \<not> m_more m then dist_unmatch d else d, xp_heap := h, xp_more_send := m_more m\<rparr>)
     else (Inl EAGAIN, s1))"

section \<open>Who receives a message\<close>

text \<open>Between messages of a PUB socket that has its options left alone.\<close>

definition pub_ok :: "xpub_t \<Rightarrow> bool" where
  "pub_ok s \<longleftrightarrow> xp_is_pub s \<and> xp_lossy s \<and> \<not> xp_manual s \<and> \<not> xp_invert_matching s \<and> \<not> xp_more_send s
     \<and> dist_ok (xp_dist s) \<and> \<not> ds_more (xp_dist s) \<and> mtrie_ok (xp_subscriptions s)
     \<and> (\<forall>x. p_part (xp_heap s x) = [] \<and> p_ready (xp_heap s x) = [])"

definition pub_subscribed :: "xpub_t \<Rightarrow> bytes \<Rightarrow> pipe_id set" where
  "pub_subscribed s d = {x \<in> eligible (xp_dist s). \<exists>p. prefix p d \<and> x \<in> msubs (xp_subscriptions s) p}"

definition pub_out :: "pipe_id \<Rightarrow> xpub_t \<Rightarrow> msg_t list" where
  "pub_out x s = p_out (xp_heap s x)"

definition pipe_open :: "pipe_t \<Rightarrow> bool" where
  "pipe_open p \<longleftrightarrow> p_out_active p \<and> p_state p = active \<and> pipe_check_hwm p"

lemma fold_dist_match:
  assumes "dist_ok d" "\<not> ds_more d"
  shows "dist_ok (fold dist_match xs d) \<and> \<not> ds_more (fold dist_match xs d)
    \<and> matching (fold dist_match xs d) = matching d \<union> (set xs \<inter> eligible d)
    \<and> eligible (fold dist_match xs d) = eligible d"
  using assms
proof (induction xs arbitrary: d)
  case (Cons x xs)
  note m = dist_match_ok [OF Cons.prems, of x]
  show ?case using Cons.IH [OF m(1,2)] by (auto simp: m(3,4))
qed simp

lemma dist_unmatch_ok:
  "dist_ok d \<Longrightarrow> dist_ok (dist_unmatch d)" "matching (dist_unmatch d) = {}"
  "eligible (dist_unmatch d) = eligible d" "ds_more (dist_unmatch d) = ds_more d"
  by (auto simp: dist_ok_def dist_unmatch_def matching_def eligible_def)

lemma can_take_open: "m_kind m = Plain \<Longrightarrow> can_take m p = pipe_open p"
  by (auto simp: can_take_def pipe_open_def pipe_write_def pipe_check_write_def Let_def)

lemma dist_put_more:
  "pipe_open p \<Longrightarrow> dist_put (mk_msg b True) p = p\<lparr>p_part := p_part p @ [mk_msg b True]\<rparr>"
  by (simp add: dist_put_def pipe_open_def pipe_write_def pipe_check_write_def)

lemma dist_put_last:
  "pipe_open p \<Longrightarrow> p_ready p = [] \<Longrightarrow>
     p_out (dist_put (mk_msg b False) p) = p_out p @ p_part p @ [mk_msg b False]
     \<and> p_part (dist_put (mk_msg b False) p) = [] \<and> p_ready (dist_put (mk_msg b False) p) = []"
  by (auto simp: dist_put_def pipe_open_def pipe_write_def pipe_check_write_def pipe_flush_def Let_def)

lemma dist_put_closed:
  "\<not> pipe_open p \<Longrightarrow> m_kind m = Plain \<Longrightarrow>
     p_out (dist_put m p) = p_out p \<and> p_part (dist_put m p) = p_part p \<and> p_ready (dist_put m p) = p_ready p"
  by (auto simp: dist_put_def pipe_open_def pipe_write_def pipe_check_write_def)

lemma pipe_open_part [simp]: "pipe_open (p\<lparr>p_part := ms\<rparr>) = pipe_open p"
  by (simp add: pipe_open_def pipe_check_hwm_def)

lemma xpub_xsend_first:
  assumes "pub_ok s"
  obtains s' where "xpub_xsend (mk_msg e True) s = (Inr (), s')" "xp_more_send s'"
    "zones_ok (xp_dist s')" "ds_more (xp_dist s')"
    "matching (xp_dist s') = {x \<in> pub_subscribed s e. pipe_open (xp_heap s x)}"
    "xp_heap s' = (\<lambda>x. if x \<in> pub_subscribed s e then dist_put (mk_msg e True) (xp_heap s x) else xp_heap s x)"
    "xp_is_pub s'" "xp_lossy s'" "\<not> xp_manual s'" "\<not> xp_invert_matching s'" "xp_subscriptions s' = xp_subscriptions s"
proof -
  let ?d0 = "dist_unmatch (xp_dist s)"
  let ?d1 = "fold dist_match (mtrie_match e (xp_subscriptions s)) ?d0"
  let ?s1 = "s\<lparr>xp_dist := ?d1\<rparr>"
  have p: "xp_is_pub s" "xp_lossy s" "\<not> xp_manual s" "\<not> xp_invert_matching s" "\<not> xp_more_send s"
    "dist_ok (xp_dist s)" "\<not> ds_more (xp_dist s)"
    using assms by (auto simp: pub_ok_def)
  have d1: "dist_ok ?d1" "\<not> ds_more ?d1" "matching ?d1 = pub_subscribed s e"
    using fold_dist_match [of ?d0 "mtrie_match e (xp_subscriptions s)"] p(6,7)
    by (auto simp: dist_unmatch_ok pub_subscribed_def mtrie_match_iff)
  have sel: "xpub_select (mk_msg e True) s = ?s1"
    using p by (simp add: xpub_select_def Let_def)
  have z: "zones_ok ?d1" using d1(1) by (simp add: dist_ok_def zones_ok_def)
  obtain d2 where d2: "dist_send_to_matching (mk_msg e True) (?d1, xp_heap s)
      = (d2, \<lambda>x. if x \<in> pub_subscribed s e then dist_put (mk_msg e True) (xp_heap s x) else xp_heap s x)"
    "zones_ok d2" "ds_more d2" "matching d2 = pub_subscribed s e - {x. \<not> can_take (mk_msg e True) (xp_heap s x)}"
    using send_to_matching [OF z, of "mk_msg e True" "xp_heap s"] by (auto simp: d1(3))
  let ?s2 = "?s1\<lparr>xp_dist := d2, xp_more_send := True,
    xp_heap := \<lambda>x. if x \<in> pub_subscribed s e then dist_put (mk_msg e True) (xp_heap s x) else xp_heap s x\<rparr>"
  have "xpub_xsend (mk_msg e True) s = (Inr (), ?s2)"
    using p by (simp add: xpub_xsend_def sel d2(1) Let_def)
  then show ?thesis
    using that [of ?s2] d2 p by (auto simp: can_take_open)
qed

text \<open>A two-part message goes, whole, to every subscriber of a prefix of its first part whose pipe has
  room, and nothing of it to any other pipe; the socket is ready for the next message.\<close>

lemma pub_send_pair:
  assumes "pub_ok s"
  obtains s1 s2 where "xpub_xsend (mk_msg e True) s = (Inr (), s1)" "xpub_xsend (mk_msg c False) s1 = (Inr (), s2)"
    "pub_ok s2" "xp_subscriptions s2 = xp_subscriptions s"
    "\<And>x. pub_out x s2 = pub_out x s @ (if x \<in> pub_subscribed s e \<and> pipe_open (xp_heap s x)
        then [mk_msg e True, mk_msg c False] else [])"
proof -
  obtain s1 where s1: "xpub_xsend (mk_msg e True) s = (Inr (), s1)" "xp_more_send s1"
    "zones_ok (xp_dist s1)" "ds_more (xp_dist s1)"
    "matching (xp_dist s1) = {x \<in> pub_subscribed s e. pipe_open (xp_heap s x)}"
    "xp_heap s1 = (\<lambda>x. if x \<in> pub_subscribed s e then dist_put (mk_msg e True) (xp_heap s x) else xp_heap s x)"
    "xp_is_pub s1" "xp_lossy s1" "\<not> xp_manual s1" "\<not> xp_invert_matching s1" "xp_subscriptions s1 = xp_subscriptions s"
    using xpub_xsend_first [OF assms] by blast
  have clean: "p_part (xp_heap s x) = []" "p_ready (xp_heap s x) = []" for x
    using assms by (auto simp: pub_ok_def)
  let ?h = "\<lambda>x. if x \<in> matching (xp_dist s1) then dist_put (mk_msg c False) (xp_heap s1 x) else xp_heap s1 x"
  obtain d2 where d2: "dist_send_to_matching (mk_msg c False) (xp_dist s1, xp_heap s1) = (d2, ?h)"
    "zones_ok d2" "\<not> ds_more d2" "ds_active d2 = ds_eligible d2"
    using send_to_matching [OF s1(3), of "mk_msg c False" "xp_heap s1"] by auto
  let ?s2 = "s1\<lparr>xp_dist := dist_unmatch d2, xp_heap := ?h, xp_more_send := False\<rparr>"
  have r: "xpub_xsend (mk_msg c False) s1 = (Inr (), ?s2)"
    using s1(2,8) by (simp add: xpub_xsend_def d2(1) Let_def)
  have h: "p_out (?h x) = pub_out x s @ (if x \<in> pub_subscribed s e \<and> pipe_open (xp_heap s x)
        then [mk_msg e True, mk_msg c False] else []) \<and> p_part (?h x) = [] \<and> p_ready (?h x) = []" for x
  proof (cases "x \<in> pub_subscribed s e")
    case True
    show ?thesis
    proof (cases "pipe_open (xp_heap s x)")
      case True
      then show ?thesis
        using \<open>x \<in> pub_subscribed s e\<close> clean
          dist_put_last [of "(xp_heap s x)\<lparr>p_part := [mk_msg e True]\<rparr>" c]
        by (simp add: s1(5,6) dist_put_more pub_out_def)
    next
      case False
      then show ?thesis
        using True clean dist_put_closed [of "xp_heap s x" "mk_msg e True"] by (simp add: s1(5,6) pub_out_def)
    qed
  next
    case False
    then show ?thesis using clean by (simp add: s1(5,6) pub_out_def)
  qed
  have "pub_ok ?s2"
    using s1(7-11) d2(2-4) h assms dist_unmatch_ok
    by (auto simp: pub_ok_def zones_ok_def dist_ok_def dist_unmatch_def)
  then show ?thesis
    using that [OF s1(1) r] h s1(11) by (simp add: pub_out_def)
qed

end
