(* ===== verification/Publisher.thy ===== *)
theory Publisher
  imports ZmqPub Requester
begin

text \<open>\<open>include/tmss/communicator/subpub/Publisher.hpp\<close>: a PUB socket that sends pairs of an envelope and
  a content.\<close>

record publisher =
  pub_socket :: xpub_t
  pub_options :: options_t

definition new_Publisher :: publisher where
  "new_Publisher = \<lparr>pub_socket = new_xpub True, pub_options = options_init\<rparr>"

definition Publisher_Init :: "(string \<Rightarrow> bool) \<Rightarrow> string \<Rightarrow> (publisher, fault, bool) smon" where
  "Publisher_Init binds addr = (\<lambda>r. (Inr (binds (''tcp://'' @ addr)), r))"

definition pub_accept :: "pipe_id \<Rightarrow> publisher \<Rightarrow> publisher" where
  "pub_accept x r =
     (let pipe = new_pipe (sint (o_rcvhwm (pub_options r))) (sint (o_sndhwm (pub_options r))); s = pub_socket r
      in r\<lparr>pub_socket := xpub_attach_pipe x False (s\<lparr>xp_heap := (xp_heap s)(x := pipe)\<rparr>)\<rparr>)"

text \<open>Frames from a subscriber: its subscriptions are read off the pipe at once.\<close>

definition pub_deliver :: "pipe_id \<times> msg_t list \<Rightarrow> publisher \<Rightarrow> publisher" where
  "pub_deliver a r =
     (case a of (x, ms) \<Rightarrow>
       let s = pub_socket r; p = (xp_heap s x)\<lparr>p_in := p_in (xp_heap s x) @ ms\<rparr> in
       case process_activate_read p of
         (True, p') \<Rightarrow> r\<lparr>pub_socket := xpub_read_activated x (s\<lparr>xp_heap := (xp_heap s)(x := p')\<rparr>)\<rparr>
       | (False, p') \<Rightarrow> r\<lparr>pub_socket := s\<lparr>xp_heap := (xp_heap s)(x := p')\<rparr>\<rparr>)"

definition Publish :: "bytes \<Rightarrow> bytes \<Rightarrow> (publisher, fault, unit) smon" where
  "Publish env content =
     liftS pub_socket (\<lambda>t r. r\<lparr>pub_socket := t\<rparr>) id
       (bindS (zmq_result (xpub_xsend (mk_msg env True))) (\<lambda>_.
        bindS (zmq_result (xpub_xsend (mk_msg content False))) (\<lambda>_. retS ())))"

text \<open>Publishing never blocks and never fails; the pair goes to exactly the subscribers of the envelope
  that have room for it.\<close>

lemma Publish_pair:
  assumes "pub_ok (pub_socket r)"
  obtains r' where "Publish e c r = (Inr (), r')" "pub_ok (pub_socket r')"
    "xp_subscriptions (pub_socket r') = xp_subscriptions (pub_socket r)"
    "\<And>x. pub_out x (pub_socket r') = pub_out x (pub_socket r) @
       (if x \<in> pub_subscribed (pub_socket r) e \<and> pipe_open (xp_heap (pub_socket r) x)
        then [mk_msg e True, mk_msg c False] else [])"
proof -
  obtain s1 s2 where s: "xpub_xsend (mk_msg e True) (pub_socket r) = (Inr (), s1)" "xpub_xsend (mk_msg c False) s1 = (Inr (), s2)"
    "pub_ok s2" "xp_subscriptions s2 = xp_subscriptions (pub_socket r)"
    "\<And>x. pub_out x s2 = pub_out x (pub_socket r) @ (if x \<in> pub_subscribed (pub_socket r) e \<and> pipe_open (xp_heap (pub_socket r) x)
        then [mk_msg e True, mk_msg c False] else [])"
    using pub_send_pair [OF assms] by blast
  have "Publish e c r = (Inr (), r\<lparr>pub_socket := s2\<rparr>)"
    using s(1,2) by (simp add: Publish_def liftS_def bindS_def zmq_result_def)
  then show ?thesis using that s(3-5) by simp
qed

end
