(* ===== verification/Communicator.thy ===== *)
theory Communicator
  imports Responder Subscriber Publisher
begin

text \<open>
  \<open>include/tmss/communicator/Communicator.hpp\<close>: the process-wide registry (\<open>Singleton.hpp\<close>,
  \<open>MultiServerSupportBase.hpp\<close>) that owns every requester, responder, subscriber and publisher. An
  instance is known by its address; the null pointer is 0. What the allocator and the network
  answer during a call is the argument \<open>env\<close>.
\<close>

type_synonym inst_value = "64 word"

record communicator =
  comm_requesters :: "inst_value \<Rightarrow> requester option"
  comm_responders :: "inst_value \<Rightarrow> responder option"
  comm_subscribers :: "inst_value \<Rightarrow> subscriber option"
  comm_publishers :: "inst_value \<Rightarrow> publisher option"

definition new_Communicator :: communicator where
  "new_Communicator = \<lparr>comm_requesters = Map.empty, comm_responders = Map.empty, comm_subscribers = Map.empty,
     comm_publishers = Map.empty\<rparr>"

record env =
  e_alloc :: inst_value
  e_rnd :: "32 word"
  e_connects :: "string \<Rightarrow> bool"
  e_binds :: "string \<Rightarrow> bool"

definition MakeInstValue :: "inst_value \<Rightarrow> inst_value" where
  "MakeInstValue inst = inst"

definition ResetInstInvalid :: inst_value where
  "ResetInstInvalid = 0"

definition IsInstInvalid :: "inst_value \<Rightarrow> bool" where
  "IsInstInvalid inst \<longleftrightarrow> inst = 0"

section \<open>Creating and destroying\<close>

text \<open>\<open>emplace\<close> leaves an existing entry alone.\<close>

definition CreateInstance ::
  "inst_value \<Rightarrow> 'i \<Rightarrow> ('i, fault, bool) smon \<Rightarrow> (inst_value \<Rightarrow> 'i option, fault, inst_value) smon" where
  "CreateInstance instance T_inst Init = (\<lambda>container.
     if instance = 0 then (Inr 0, container)
     else case Init T_inst of
         (Inl e, _) \<Rightarrow> (Inl e, container)
       | (Inr False, _) \<Rightarrow> (Inr 0, container)
       | (Inr True, i) \<Rightarrow>
           (Inr instance,
            case container (MakeInstValue instance) of
              None \<Rightarrow> container(MakeInstValue instance \<mapsto> i) | Some _ \<Rightarrow> container))"

definition CreateRequester :: "platform \<Rightarrow> env \<Rightarrow> string \<Rightarrow> (communicator, fault, inst_value) smon" where
  "CreateRequester p e toServer = liftS comm_requesters (\<lambda>c m. m\<lparr>comm_requesters := c\<rparr>) id
     (CreateInstance (e_alloc e) (new_Requester (e_rnd e)) (Requester_Init p (e_connects e) toServer))"

definition CreateResponder :: "platform \<Rightarrow> env \<Rightarrow> string \<Rightarrow> (communicator, fault, inst_value) smon" where
  "CreateResponder p e server = liftS comm_responders (\<lambda>c m. m\<lparr>comm_responders := c\<rparr>) id
     (CreateInstance (e_alloc e) (new_Responder (e_rnd e)) (Responder_Init p (e_binds e) server))"

definition CreateSubscriber :: "env \<Rightarrow> string \<Rightarrow> (communicator, fault, inst_value) smon" where
  "CreateSubscriber e pubServer = liftS comm_subscribers (\<lambda>c m. m\<lparr>comm_subscribers := c\<rparr>) id
     (CreateInstance (e_alloc e) new_Subscriber (Subscriber_Init (e_connects e) pubServer))"

definition CreatePublisher :: "env \<Rightarrow> string \<Rightarrow> (communicator, fault, inst_value) smon" where
  "CreatePublisher e server = liftS comm_publishers (\<lambda>c m. m\<lparr>comm_publishers := c\<rparr>) id
     (CreateInstance (e_alloc e) new_Publisher (Publisher_Init (e_binds e) server))"

text \<open>Erasing an entry destroys the instance: with it the map of its thread, which must not be joinable.\<close>

definition destroy_worker :: "string \<Rightarrow> 'j worker \<Rightarrow> fault option" where
  "destroy_worker key w = (case wk_map w key of Some (True, _) \<Rightarrow> Some Joinable_Destroyed | _ \<Rightarrow> None)"

definition DestroyInstance :: "inst_value \<Rightarrow> (communicator, fault, bool) smon" where
  "DestroyInstance v = (\<lambda>m.
     if comm_requesters m v \<noteq> None then (Inr True, m\<lparr>comm_requesters := (comm_requesters m)(v := None)\<rparr>)
     else case comm_responders m v of
       Some r \<Rightarrow> (case destroy_worker respKey (resp_worker r) of Some e \<Rightarrow> Inl e | None \<Rightarrow> Inr True,
                  m\<lparr>comm_responders := (comm_responders m)(v := None)\<rparr>)
     | None \<Rightarrow>
     (case comm_subscribers m v of
       Some s \<Rightarrow> (case destroy_worker subKey (sub_worker s) of Some e \<Rightarrow> Inl e | None \<Rightarrow> Inr True,
                  m\<lparr>comm_subscribers := (comm_subscribers m)(v := None)\<rparr>)
     | None \<Rightarrow>
     if comm_publishers m v \<noteq> None then (Inr True, m\<lparr>comm_publishers := (comm_publishers m)(v := None)\<rparr>)
     else (Inr False, m)))"

section \<open>Every address names one instance\<close>

definition comm_dom :: "communicator \<Rightarrow> inst_value set" where
  "comm_dom m = dom (comm_requesters m) \<union> dom (comm_responders m) \<union> dom (comm_subscribers m) \<union> dom (comm_publishers m)"

definition comm_ok :: "communicator \<Rightarrow> bool" where
  "comm_ok m \<longleftrightarrow> 0 \<notin> comm_dom m
     \<and> dom (comm_requesters m) \<inter> dom (comm_responders m) = {} \<and> dom (comm_requesters m) \<inter> dom (comm_subscribers m) = {}
     \<and> dom (comm_requesters m) \<inter> dom (comm_publishers m) = {} \<and> dom (comm_responders m) \<inter> dom (comm_subscribers m) = {}
     \<and> dom (comm_responders m) \<inter> dom (comm_publishers m) = {} \<and> dom (comm_subscribers m) \<inter> dom (comm_publishers m) = {}"

text \<open>The allocator hands out an address that is not in use.\<close>

definition fresh_alloc :: "env \<Rightarrow> communicator \<Rightarrow> bool" where
  "fresh_alloc e m \<longleftrightarrow> e_alloc e \<noteq> 0 \<and> e_alloc e \<notin> comm_dom m"

lemma comm_ok_new: "comm_ok new_Communicator"
  by (simp add: comm_ok_def comm_dom_def new_Communicator_def)

lemma Responder_Init_run:
  "Responder_Init p binds addr (new_Responder rnd) = (if binds (''tcp://'' @ addr)
     then (Inr True, (new_Responder rnd)\<lparr>resp_options := options_init\<lparr>o_rcvtimeo := 1000\<rparr>\<rparr>)
     else (Inr False, new_Responder rnd))"
  by (simp add: Responder_Init_def bindS_def resp_set_def liftS_def set_int_def wire_simps new_Responder_def)

definition connected_requester :: "env \<Rightarrow> requester" where
  "connected_requester e = (req_connect 0 (new_Requester (e_rnd e)))\<lparr>req_options := options_init\<lparr>o_linger := 0\<rparr>\<rparr>"

definition bound_responder :: "env \<Rightarrow> responder" where
  "bound_responder e = (new_Responder (e_rnd e))\<lparr>resp_options := options_init\<lparr>o_rcvtimeo := 1000\<rparr>\<rparr>"

definition connected_subscriber :: subscriber where
  "connected_subscriber = snd (Subscriber_Init (\<lambda>_. True) [] new_Subscriber)"

lemma CreateRequester_run:
  assumes "fresh_alloc e m"
  shows "CreateRequester p e addr m = (if e_connects e (''tcp://'' @ addr)
     then (Inr (e_alloc e), m\<lparr>comm_requesters := (comm_requesters m)(e_alloc e \<mapsto> connected_requester e)\<rparr>)
     else (Inr 0, m))"
  using assms
  by (auto simp: CreateRequester_def CreateInstance_def liftS_def Init_run connected_requester_def fresh_alloc_def
      comm_dom_def MakeInstValue_def split: option.splits)

lemma CreateResponder_run:
  assumes "fresh_alloc e m"
  shows "CreateResponder p e addr m = (if e_binds e (''tcp://'' @ addr)
     then (Inr (e_alloc e), m\<lparr>comm_responders := (comm_responders m)(e_alloc e \<mapsto> bound_responder e)\<rparr>)
     else (Inr 0, m))"
  using assms
  by (auto simp: CreateResponder_def CreateInstance_def liftS_def Responder_Init_run bound_responder_def fresh_alloc_def
      comm_dom_def MakeInstValue_def split: option.splits)

lemma CreateSubscriber_run:
  assumes "fresh_alloc e m"
  shows "CreateSubscriber e addr m = (if e_connects e (''tcp://'' @ addr)
     then (Inr (e_alloc e), m\<lparr>comm_subscribers := (comm_subscribers m)(e_alloc e \<mapsto> connected_subscriber)\<rparr>)
     else (Inr 0, m))"
  using assms
  by (auto simp: CreateSubscriber_def CreateInstance_def liftS_def Subscriber_Init_def connected_subscriber_def fresh_alloc_def
      comm_dom_def MakeInstValue_def Let_def split: option.splits)

lemma CreatePublisher_run:
  assumes "fresh_alloc e m"
  shows "CreatePublisher e addr m = (if e_binds e (''tcp://'' @ addr)
     then (Inr (e_alloc e), m\<lparr>comm_publishers := (comm_publishers m)(e_alloc e \<mapsto> new_Publisher)\<rparr>)
     else (Inr 0, m))"
  using assms
  by (auto simp: CreatePublisher_def CreateInstance_def liftS_def Publisher_Init_def fresh_alloc_def
      comm_dom_def MakeInstValue_def split: option.splits bool.splits)

lemmas comm_defs = comm_ok_def comm_dom_def fresh_alloc_def

lemma CreateRequester_ok:
  "comm_ok m \<Longrightarrow> fresh_alloc e m \<Longrightarrow> comm_ok (snd (CreateRequester p e addr m))"
  unfolding CreateRequester_run by (auto simp: comm_defs)

lemma CreateResponder_ok:
  "comm_ok m \<Longrightarrow> fresh_alloc e m \<Longrightarrow> comm_ok (snd (CreateResponder p e addr m))"
  unfolding CreateResponder_run by (auto simp: comm_defs)

lemma CreateSubscriber_ok:
  "comm_ok m \<Longrightarrow> fresh_alloc e m \<Longrightarrow> comm_ok (snd (CreateSubscriber e addr m))"
  unfolding CreateSubscriber_run by (auto simp: comm_defs)

lemma CreatePublisher_ok:
  "comm_ok m \<Longrightarrow> fresh_alloc e m \<Longrightarrow> comm_ok (snd (CreatePublisher e addr m))"
  unfolding CreatePublisher_run by (auto simp: comm_defs)

lemma DestroyInstance_ok:
  "comm_ok m \<Longrightarrow> comm_ok (snd (DestroyInstance v m))"
  by (auto simp: DestroyInstance_def comm_defs split: option.splits)

lemma DestroyInstance_dom:
  assumes "comm_ok m"
  shows "comm_dom (snd (DestroyInstance v m)) = comm_dom m - {v}"
  using assms by (auto simp: DestroyInstance_def comm_defs split: option.splits)

section \<open>The contract of the registry\<close>

locale instance_registry =
  fixes create :: "env \<Rightarrow> string \<Rightarrow> ('c, fault, inst_value) smon"
    and destroy :: "inst_value \<Rightarrow> ('c, fault, bool) smon"
    and live :: "'c \<Rightarrow> inst_value \<Rightarrow> 'i option"
    and inv :: "'c \<Rightarrow> bool"
    and fresh :: "env \<Rightarrow> 'c \<Rightarrow> bool"
    and accepts :: "env \<Rightarrow> string \<Rightarrow> bool"
    and made :: "env \<Rightarrow> 'i"
    and idle :: "'i \<Rightarrow> bool"
  assumes create_good: "inv c \<Longrightarrow> fresh e c \<Longrightarrow> accepts e addr \<Longrightarrow>
      \<exists>c'. create e addr c = (Inr (e_alloc e), c') \<and> inv c' \<and> live c' = (live c)(e_alloc e \<mapsto> made e)"
    and create_bad: "fresh e c \<Longrightarrow> \<not> accepts e addr \<Longrightarrow> create e addr c = (Inr 0, c)"
    and destroy_live: "inv c \<Longrightarrow> live c a = Some i \<Longrightarrow> idle i \<Longrightarrow>
      \<exists>c'. destroy a c = (Inr True, c') \<and> inv c' \<and> live c' = (live c)(a := None) \<and> (\<forall>e. fresh e c \<longrightarrow> fresh e c')"
    and alloc_nonzero: "fresh e c \<Longrightarrow> e_alloc e \<noteq> 0"
begin

text \<open>Replacing an instance: destroy the old one, create one for the same address.\<close>

lemma replace:
  assumes "inv c" "live c a = Some i" "idle i" "fresh e c" "accepts e addr"
  obtains c1 c2 where "destroy a c = (Inr True, c1)" "create e addr c1 = (Inr (e_alloc e), c2)" "inv c2"
    "live c2 = (live c)(a := None, e_alloc e \<mapsto> made e)" "e_alloc e \<noteq> 0"
proof -
  obtain c1 where c1: "destroy a c = (Inr True, c1)" "inv c1" "live c1 = (live c)(a := None)" "fresh e c1"
    using destroy_live [OF assms(1-3)] assms(4) by blast
  obtain c2 where "create e addr c1 = (Inr (e_alloc e), c2)" "inv c2" "live c2 = (live c1)(e_alloc e \<mapsto> made e)"
    using create_good [OF c1(2,4) assms(5)] by blast
  then show ?thesis using that c1 alloc_nonzero [OF assms(4)] by simp
qed

lemma destroyed_gone:
  assumes "inv c" "live c a = Some i" "idle i"
  shows "live (snd (destroy a c)) a = None"
  using destroy_live [OF assms] by auto

end

interpretation rqs: instance_registry "CreateRequester p" DestroyInstance comm_requesters comm_ok fresh_alloc
    "\<lambda>e addr. e_connects e (''tcp://'' @ addr)" connected_requester "\<lambda>_. True" for p
proof unfold_locales
  show "\<exists>c'. CreateRequester p e addr c = (Inr (e_alloc e), c') \<and> comm_ok c'
      \<and> comm_requesters c' = (comm_requesters c)(e_alloc e \<mapsto> connected_requester e)"
    if "comm_ok c" "fresh_alloc e c" "e_connects e (''tcp://'' @ addr)" for c e addr
    using that CreateRequester_ok [OF that(1,2), of p addr] by (simp add: CreateRequester_run)
  show "CreateRequester p e addr c = (Inr 0, c)"
    if "fresh_alloc e c" "\<not> e_connects e (''tcp://'' @ addr)" for c e addr
    using that by (simp add: CreateRequester_run)
  show "\<exists>c'. DestroyInstance a c = (Inr True, c') \<and> comm_ok c' \<and> comm_requesters c' = (comm_requesters c)(a := None)
      \<and> (\<forall>e. fresh_alloc e c \<longrightarrow> fresh_alloc e c')"
    if "comm_ok c" "comm_requesters c a = Some i" for c a i
    using that DestroyInstance_ok [OF that(1), of a] DestroyInstance_dom [OF that(1), of a]
    by (auto simp: DestroyInstance_def fresh_alloc_def)
  show "e_alloc e \<noteq> 0" if "fresh_alloc e c" for e c
    using that by (simp add: fresh_alloc_def)
qed

interpretation rps: instance_registry "CreateResponder p" DestroyInstance comm_responders comm_ok fresh_alloc
    "\<lambda>e addr. e_binds e (''tcp://'' @ addr)" bound_responder "\<lambda>r. destroy_worker respKey (resp_worker r) = None" for p
proof unfold_locales
  show "\<exists>c'. CreateResponder p e addr c = (Inr (e_alloc e), c') \<and> comm_ok c'
      \<and> comm_responders c' = (comm_responders c)(e_alloc e \<mapsto> bound_responder e)"
    if "comm_ok c" "fresh_alloc e c" "e_binds e (''tcp://'' @ addr)" for c e addr
    using that CreateResponder_ok [OF that(1,2), of p addr] by (simp add: CreateResponder_run)
  show "CreateResponder p e addr c = (Inr 0, c)"
    if "fresh_alloc e c" "\<not> e_binds e (''tcp://'' @ addr)" for c e addr
    using that by (simp add: CreateResponder_run)
  show "\<exists>c'. DestroyInstance a c = (Inr True, c') \<and> comm_ok c' \<and> comm_responders c' = (comm_responders c)(a := None)
      \<and> (\<forall>e. fresh_alloc e c \<longrightarrow> fresh_alloc e c')"
    if "comm_ok c" "comm_responders c a = Some i" "destroy_worker respKey (resp_worker i) = None" for c a i
  proof -
    have "comm_requesters c a = None" using that(1,2) by (auto simp: comm_ok_def)
    then show ?thesis
      using that DestroyInstance_ok [OF that(1), of a] DestroyInstance_dom [OF that(1), of a]
      by (auto simp: DestroyInstance_def fresh_alloc_def)
  qed
  show "e_alloc e \<noteq> 0" if "fresh_alloc e c" for e c
    using that by (simp add: fresh_alloc_def)
qed

interpretation sbs: instance_registry CreateSubscriber DestroyInstance comm_subscribers comm_ok fresh_alloc
    "\<lambda>e addr. e_connects e (''tcp://'' @ addr)" "\<lambda>_. connected_subscriber" "\<lambda>r. destroy_worker subKey (sub_worker r) = None"
proof unfold_locales
  show "\<exists>c'. CreateSubscriber e addr c = (Inr (e_alloc e), c') \<and> comm_ok c'
      \<and> comm_subscribers c' = (comm_subscribers c)(e_alloc e \<mapsto> connected_subscriber)"
    if "comm_ok c" "fresh_alloc e c" "e_connects e (''tcp://'' @ addr)" for c e addr
    using that CreateSubscriber_ok [OF that(1,2), of addr] by (simp add: CreateSubscriber_run)
  show "CreateSubscriber e addr c = (Inr 0, c)"
    if "fresh_alloc e c" "\<not> e_connects e (''tcp://'' @ addr)" for c e addr
    using that by (simp add: CreateSubscriber_run)
  show "\<exists>c'. DestroyInstance a c = (Inr True, c') \<and> comm_ok c' \<and> comm_subscribers c' = (comm_subscribers c)(a := None)
      \<and> (\<forall>e. fresh_alloc e c \<longrightarrow> fresh_alloc e c')"
    if "comm_ok c" "comm_subscribers c a = Some i" "destroy_worker subKey (sub_worker i) = None" for c a i
  proof -
    have "comm_requesters c a = None" "comm_responders c a = None" using that(1,2) by (auto simp: comm_ok_def)
    then show ?thesis
      using that DestroyInstance_ok [OF that(1), of a] DestroyInstance_dom [OF that(1), of a]
      by (auto simp: DestroyInstance_def fresh_alloc_def)
  qed
  show "e_alloc e \<noteq> 0" if "fresh_alloc e c" for e c
    using that by (simp add: fresh_alloc_def)
qed

interpretation pbs: instance_registry CreatePublisher DestroyInstance comm_publishers comm_ok fresh_alloc
    "\<lambda>e addr. e_binds e (''tcp://'' @ addr)" "\<lambda>_. new_Publisher" "\<lambda>_. True"
proof unfold_locales
  show "\<exists>c'. CreatePublisher e addr c = (Inr (e_alloc e), c') \<and> comm_ok c'
      \<and> comm_publishers c' = (comm_publishers c)(e_alloc e \<mapsto> new_Publisher)"
    if "comm_ok c" "fresh_alloc e c" "e_binds e (''tcp://'' @ addr)" for c e addr
    using that CreatePublisher_ok [OF that(1,2), of addr] by (simp add: CreatePublisher_run)
  show "CreatePublisher e addr c = (Inr 0, c)"
    if "fresh_alloc e c" "\<not> e_binds e (''tcp://'' @ addr)" for c e addr
    using that by (simp add: CreatePublisher_run)
  show "\<exists>c'. DestroyInstance a c = (Inr True, c') \<and> comm_ok c' \<and> comm_publishers c' = (comm_publishers c)(a := None)
      \<and> (\<forall>e. fresh_alloc e c \<longrightarrow> fresh_alloc e c')"
    if "comm_ok c" "comm_publishers c a = Some i" for c a i
  proof -
    have "comm_requesters c a = None" "comm_responders c a = None" "comm_subscribers c a = None"
      using that(1,2) by (auto simp: comm_ok_def)
    then show ?thesis
      using that DestroyInstance_ok [OF that(1), of a] DestroyInstance_dom [OF that(1), of a]
      by (auto simp: DestroyInstance_def fresh_alloc_def)
  qed
  show "e_alloc e \<noteq> 0" if "fresh_alloc e c" for e c
    using that by (simp add: fresh_alloc_def)
qed

end
