(* ===== verification/RpcClient.thy ===== *)
theory RpcClient
  imports Communicator RpcBasic
begin

text \<open>
  \<open>include/tmss/RpcProcessRequest.hpp\<close>: the client of remote calls. Its state is the object's fields
  and the process-wide registry. What happens on the network during a call (an address accepted,
  an allocation, the frames that arrive before the timeout) is an argument of the call.
\<close>

section \<open>std::to\_string\<close>

fun dec_digits :: "nat \<Rightarrow> string" where
  "dec_digits n = (if n < 10 then [char_of (48 + n)] else dec_digits (n div 10) @ [char_of (48 + n mod 10)])"

declare dec_digits.simps [simp del]

definition to_string :: "int \<Rightarrow> string" where
  "to_string i = (if i < 0 then CHR ''-'' # dec_digits (nat (- i)) else dec_digits (nat i))"

fun dec_value :: "nat \<Rightarrow> string \<Rightarrow> nat" where
  "dec_value a [] = a"
| "dec_value a (c # cs) = dec_value (10 * a + (of_char c - 48)) cs"

lemma dec_value_append: "dec_value a (xs @ ys) = dec_value (dec_value a xs) ys"
  by (induction xs arbitrary: a) auto

lemma dec_value_digits: "dec_value 0 (dec_digits n) = n"
proof (induction n rule: dec_digits.induct)
  case (1 n)
  then show ?case by (subst dec_digits.simps) (auto simp: dec_value_append)
qed

lemma dec_digits_chars: "c \<in> set (dec_digits n) \<Longrightarrow> of_char c \<ge> (48::nat) \<and> of_char c < (58::nat)"
proof (induction n rule: dec_digits.induct)
  case (1 n)
  show ?case
  proof (cases "n < 10")
    case True
    then show ?thesis using "1.prems" by (subst (asm) dec_digits.simps) simp
  next
    case False
    then show ?thesis using 1 by (subst (asm) (2) dec_digits.simps) auto
  qed
qed

definition address :: "string \<Rightarrow> int \<Rightarrow> string" where
  "address ip port = ip @ '':'' @ to_string port"

text \<open>Distinct ports give distinct addresses.\<close>

lemma dec_digits_inj: "dec_digits m = dec_digits n \<Longrightarrow> m = n"
  by (metis dec_value_digits)

lemma dec_digits_not_minus: "dec_digits n \<noteq> CHR ''-'' # s"
proof
  assume "dec_digits n = CHR ''-'' # s"
  then have "CHR ''-'' \<in> set (dec_digits n)" by simp
  from dec_digits_chars [OF this] show False by simp
qed

lemma to_string_inj:
  assumes "to_string i = to_string j" shows "i = j"
proof (cases "i < 0"; cases "j < 0")
  assume "i < 0" "j < 0"
  then have "nat (- i) = nat (- j)" using assms by (intro dec_digits_inj) (simp add: to_string_def)
  with \<open>i < 0\<close> \<open>j < 0\<close> show ?thesis by simp
next
  assume "\<not> i < 0" "\<not> j < 0"
  then have "nat i = nat j" using assms by (intro dec_digits_inj) (simp add: to_string_def)
  with \<open>\<not> i < 0\<close> \<open>\<not> j < 0\<close> show ?thesis by simp
next
  assume "i < 0" "\<not> j < 0"
  then have "dec_digits (nat j) = CHR ''-'' # dec_digits (nat (- i))" using assms by (simp add: to_string_def)
  with dec_digits_not_minus show ?thesis by blast
next
  assume "\<not> i < 0" "j < 0"
  then have "dec_digits (nat i) = CHR ''-'' # dec_digits (nat (- j))" using assms by (simp add: to_string_def)
  with dec_digits_not_minus show ?thesis by blast
qed

section \<open>RpcProcessRequest.hpp\<close>

definition RpcTimeout :: c_int where
  "RpcTimeout = 1000"

record RpcProcessRequest =
  rpq_autoReconnectNetwork :: bool
  rpq_serverAddress :: string
  rpq_serializer :: stringstream
  rpq_requester :: inst_value

record client =
  cl_comm :: communicator
  cl_rpc :: RpcProcessRequest

definition new_RpcProcessRequest :: RpcProcessRequest where
  "new_RpcProcessRequest = \<lparr>rpq_autoReconnectNetwork = True, rpq_serverAddress = [], rpq_serializer = ss_set_str [],
     rpq_requester = ResetInstInvalid\<rparr>"

abbreviation on_comm :: "(communicator, fault, 'a) smon \<Rightarrow> (client, fault, 'a) smon" where
  "on_comm \<equiv> liftS cl_comm (\<lambda>m c. c\<lparr>cl_comm := m\<rparr>) id"

abbreviation set_rpc :: "(RpcProcessRequest \<Rightarrow> RpcProcessRequest) \<Rightarrow> (client, fault, unit) smon" where
  "set_rpc f \<equiv> modifyS (\<lambda>c. c\<lparr>cl_rpc := f (cl_rpc c)\<rparr>)"

abbreviation on_cl_serializer :: "(stringstream, cereal_exn, 'a) smon \<Rightarrow> (client, fault, 'a) smon" where
  "on_cl_serializer \<equiv> liftS (\<lambda>c. rpq_serializer (cl_rpc c)) (\<lambda>t c. c\<lparr>cl_rpc := (cl_rpc c)\<lparr>rpq_serializer := t\<rparr>\<rparr>) Cereal_Exception"

text \<open>A call through a requester pointer.\<close>

definition on_requester :: "inst_value \<Rightarrow> (requester, fault, 'a) smon \<Rightarrow> (communicator, fault, 'a) smon" where
  "on_requester v f = (\<lambda>m. case comm_requesters m v of
     None \<Rightarrow> (Inl Null_Dereference, m)
   | Some r \<Rightarrow> (case f r of (res, r') \<Rightarrow> (res, m\<lparr>comm_requesters := (comm_requesters m)(v \<mapsto> r')\<rparr>)))"

definition DisconnectNetwork :: "(client, fault, bool) smon" where
  "DisconnectNetwork = (\<lambda>c.
     if IsInstInvalid (rpq_requester (cl_rpc c)) then (Inr False, c)
     else bindS (on_comm (DestroyInstance (MakeInstValue (rpq_requester (cl_rpc c))))) (\<lambda>_.
          bindS (set_rpc (\<lambda>o'. o'\<lparr>rpq_requester := ResetInstInvalid\<rparr>)) (\<lambda>_. retS True)) c)"

definition ConnectNetwork :: "platform \<Rightarrow> env \<Rightarrow> string \<Rightarrow> int \<Rightarrow> (client, fault, bool) smon" where
  "ConnectNetwork p e serverIp serverPort = (\<lambda>c.
     if \<not> IsInstInvalid (rpq_requester (cl_rpc c)) then (Inr False, c)
     else
       let addr = address serverIp serverPort in
       bindS (on_comm (CreateRequester p e addr)) (\<lambda>v.
       bindS (set_rpc (\<lambda>o'. o'\<lparr>rpq_requester := v\<rparr>)) (\<lambda>_.
       if IsInstInvalid v then retS False
       else bindS (on_comm (on_requester v (Requester_SetTimeout p RpcTimeout))) (\<lambda>timeout.
         if timeout \<noteq> RpcTimeout then bindS DisconnectNetwork (\<lambda>_. retS False)
         else bindS (set_rpc (\<lambda>o'. o'\<lparr>rpq_serverAddress := addr\<rparr>)) (\<lambda>_. retS True)))) c)"

definition SetAutoReconnectNetwork :: "bool \<Rightarrow> (client, fault, unit) smon" where
  "SetAutoReconnectNetwork enable = set_rpc (\<lambda>o'. o'\<lparr>rpq_autoReconnectNetwork := enable\<rparr>)"

definition CallRemote :: "deliveries \<Rightarrow> bytes \<Rightarrow> bytes \<Rightarrow> (client, fault, RpcCallError \<times> bytes) smon" where
  "CallRemote arrivals request respond = (\<lambda>c.
     bindS (on_comm (on_requester (rpq_requester (cl_rpc c)) (Request arrivals request respond))) (\<lambda>(code, r).
     retS (case code of CC_Success \<Rightarrow> Success | ReceiveTimeout \<Rightarrow> NetworkTimeout, r)) c)"

text \<open>The reconnection in \<open>CallFunc\<close>; it does not look at whether the new requester exists.\<close>

definition reconnect :: "platform \<Rightarrow> env \<Rightarrow> (client, fault, unit) smon" where
  "reconnect p e = (\<lambda>c.
     bindS (on_comm (DestroyInstance (MakeInstValue (rpq_requester (cl_rpc c))))) (\<lambda>_.
     bindS (set_rpc (\<lambda>o'. o'\<lparr>rpq_requester := ResetInstInvalid\<rparr>)) (\<lambda>_.
     bindS (on_comm (CreateRequester p e (rpq_serverAddress (cl_rpc c)))) (\<lambda>v.
     bindS (set_rpc (\<lambda>o'. o'\<lparr>rpq_requester := v\<rparr>)) (\<lambda>_.
     bindS (on_comm (on_requester v (Requester_SetTimeout p RpcTimeout))) (\<lambda>_. retS ()))))) c)"

definition CallFunc ::
  "platform \<Rightarrow> env \<Rightarrow> deliveries \<Rightarrow> cty option \<Rightarrow> string \<Rightarrow> cval list \<Rightarrow> (client, fault, RpcCallError \<times> cval) smon" where
  "CallFunc p e arrivals Retv name args =
     (let none = default_val (RpcReturnType Retv) in
     bindS (on_cl_serializer (Serialize p name [VTuple args])) (\<lambda>request.
     bindS (CallRemote arrivals request []) (\<lambda>(error, respond).
     if error = NetworkTimeout
     then bindS getS (\<lambda>c.
          bindS (if rpq_autoReconnectNetwork (cl_rpc c) then reconnect p e else retS ()) (\<lambda>_. retS (error, none)))
     else
       bindS (on_cl_serializer (Deserialize p respond [RpcReturnWrapper None])) (\<lambda>(retFuncName, retWrapVoid).
       if retFuncName \<noteq> name then retS (FunctionNameMismatch, none)
       else if get_code retWrapVoid = RC_FunctionNotFound then retS (FunctionNotFound, none)
       else if Retv = None then retS (Success, none)
       else bindS (on_cl_serializer (Deserialize p respond [RpcReturnWrapper Retv])) (\<lambda>(retFuncName', retWrapRetv).
            retS (Success, get_value retWrapRetv))))))"

section \<open>Connecting\<close>

definition cl_requester :: "client \<Rightarrow> requester option" where
  "cl_requester c = comm_requesters (cl_comm c) (rpq_requester (cl_rpc c))"

text \<open>Between calls: the object owns a live requester with room for \<open>n\<close> requests, no reply outstanding.\<close>

definition cl_ready :: "nat \<Rightarrow> client \<Rightarrow> bool" where
  "cl_ready n c \<longleftrightarrow> comm_ok (cl_comm c) \<and> idle (rpq_serializer (cl_rpc c)) \<and> \<not> IsInstInvalid (rpq_requester (cl_rpc c))
     \<and> (\<exists>r. cl_requester c = Some r \<and> req_ready n r)"

definition cl_sent :: "client \<Rightarrow> msg_t list" where
  "cl_sent c = (case cl_requester c of Some r \<Rightarrow> req_sent r | None \<Rightarrow> [])"

lemma comm_ok_upd_requester:
  "comm_requesters m v = Some r \<Longrightarrow> comm_ok (m\<lparr>comm_requesters := (comm_requesters m)(v \<mapsto> r')\<rparr>) = comm_ok m"
  by (auto simp: comm_ok_def comm_dom_def insert_absorb domI)

lemma RpcTimeout_sint [simp]: "sint RpcTimeout = 1000"
  by (simp add: RpcTimeout_def)

definition timed :: "requester \<Rightarrow> requester" where
  "timed r = r\<lparr>req_options := (req_options r)\<lparr>o_rcvtimeo := RpcTimeout\<rparr>\<rparr>"

lemma SetTimeout_run: "Requester_SetTimeout p RpcTimeout r = (Inr RpcTimeout, timed r)"
  unfolding timed_def by (rule SetTimeout_ok) simp

lemma req_ready_timed: "req_ready 1000 (timed (connected_requester e))"
  using connected_ready [where rnd = "e_rnd e" and os = "options_init\<lparr>o_linger := 0, o_rcvtimeo := RpcTimeout\<rparr>"]
  by (simp add: timed_def connected_requester_def)

text \<open>Connecting to an address the network accepts creates the one requester and leaves the client ready.\<close>

lemma ConnectNetwork_good:
  assumes "comm_ok (cl_comm c)" "fresh_alloc e (cl_comm c)" "IsInstInvalid (rpq_requester (cl_rpc c))"
    and "e_connects e (''tcp://'' @ address ip port)" "idle (rpq_serializer (cl_rpc c))"
  shows "\<exists>c'. ConnectNetwork p e ip port c = (Inr True, c') \<and> cl_ready 1000 c'
    \<and> cl_requester c' = Some (timed (connected_requester e)) \<and> rpq_serverAddress (cl_rpc c') = address ip port
    \<and> rpq_autoReconnectNetwork (cl_rpc c') = rpq_autoReconnectNetwork (cl_rpc c)"
proof -
  obtain m where m: "CreateRequester p e (address ip port) (cl_comm c) = (Inr (e_alloc e), m)" "comm_ok m"
    "comm_requesters m = (comm_requesters (cl_comm c))(e_alloc e \<mapsto> connected_requester e)"
    using rqs.create_good [OF assms(1,2,4)] by blast
  have v: "e_alloc e \<noteq> 0" using rqs.alloc_nonzero [OF assms(2)] .
  have ok: "comm_ok (m\<lparr>comm_requesters := (comm_requesters m)(e_alloc e \<mapsto> timed (connected_requester e))\<rparr>)"
    using m(2,3) comm_ok_upd_requester [of m "e_alloc e" "connected_requester e"] by simp
  show ?thesis
    using assms(3,5) v m ok
    by (simp add: ConnectNetwork_def Let_def bindS_def liftS_def IsInstInvalid_def on_requester_def SetTimeout_run
        cl_ready_def cl_requester_def req_ready_timed)
qed

text \<open>Otherwise the client stays unconnected and nothing is left behind.\<close>

lemma ConnectNetwork_bad:
  assumes "fresh_alloc e (cl_comm c)" "IsInstInvalid (rpq_requester (cl_rpc c))"
    and "\<not> e_connects e (''tcp://'' @ address ip port)"
  shows "ConnectNetwork p e ip port c = (Inr False, c)"
proof -
  have r: "rpq_requester (cl_rpc c) = 0" using assms(2) by (simp add: IsInstInvalid_def)
  have "CreateRequester p e (address ip port) (cl_comm c) = (Inr 0, cl_comm c)"
    using rqs.create_bad [OF assms(1,3)] .
  then show ?thesis
    using r by (simp add: ConnectNetwork_def Let_def bindS_def liftS_def IsInstInvalid_def)
qed

lemma DisconnectNetwork_connected:
  assumes "comm_ok (cl_comm c)" "cl_requester c = Some r" "\<not> IsInstInvalid (rpq_requester (cl_rpc c))"
  shows "\<exists>c'. DisconnectNetwork c = (Inr True, c') \<and> comm_ok (cl_comm c') \<and> IsInstInvalid (rpq_requester (cl_rpc c'))
    \<and> comm_requesters (cl_comm c') = (comm_requesters (cl_comm c))(rpq_requester (cl_rpc c) := None)"
proof -
  obtain m where "DestroyInstance (rpq_requester (cl_rpc c)) (cl_comm c) = (Inr True, m)" "comm_ok m"
    "comm_requesters m = (comm_requesters (cl_comm c))(rpq_requester (cl_rpc c) := None)"
    using rqs.destroy_live [OF assms(1)] assms(2) unfolding cl_requester_def by blast
  then show ?thesis
    using assms(3) by (simp add: DisconnectNetwork_def bindS_def liftS_def MakeInstValue_def ResetInstInvalid_def IsInstInvalid_def)
qed

section \<open>Reading a reply\<close>

text \<open>The part of \<open>CallFunc\<close> after a reply was received.\<close>

definition read_reply :: "platform \<Rightarrow> cty option \<Rightarrow> string \<Rightarrow> bytes \<Rightarrow> (client, fault, RpcCallError \<times> cval) smon" where
  "read_reply p Retv name respond =
     (let none = default_val (RpcReturnType Retv) in
     bindS (on_cl_serializer (Deserialize p respond [RpcReturnWrapper None])) (\<lambda>(retFuncName, retWrapVoid).
       if retFuncName \<noteq> name then retS (FunctionNameMismatch, none)
       else if get_code retWrapVoid = RC_FunctionNotFound then retS (FunctionNotFound, none)
       else if Retv = None then retS (Success, none)
       else bindS (on_cl_serializer (Deserialize p respond [RpcReturnWrapper Retv])) (\<lambda>(retFuncName', retWrapRetv).
            retS (Success, get_value retWrapRetv))))"

text \<open>A reply frame read as if the function returned nothing: the name, the code and one byte of the
  value.\<close>

lemma Deserialize_void:
  assumes "length name < 2 ^ 64" "enc w v \<noteq> []"
  shows "\<exists>b. Deserialize q (frame w name [ret_val code v] @ junk) [RpcReturnWrapper None] ss
    = (Inr (name, [ret_val code (VArith (A8 b))]), ss_set_str [])"
proof -
  obtain ch cs where e: "enc w v = ch # cs" using assms(2) by (cases "enc w v") auto
  let ?b = "of_nat (mem_val w [ch]) :: 8 word"
  have b: "mem_repr w (A8 ?b) = [ch]"
    using le_bytes_le_val [of "[ch]"] le_val_bound [of "[ch]"]
    by (simp add: mem_repr_def mem_val_def Let_def unat_of_nat del: le_val.simps le_bytes.simps)
  have "frame w name [ret_val code v] = frame w name [ret_val code (VArith (A8 ?b))] @ cs"
    by (simp add: frame_single enc_ret e b)
  then show ?thesis
    using Deserialize_frame [OF wf_ret_frame [OF assms(1), of None "VArith (A8 ?b)" code], of q w "cs @ junk" ss]
    by (intro exI [of _ ?b]) simp
qed

section \<open>Calls\<close>

text \<open>The request of a call: the frame, followed by what an aborted earlier call left in the stream.\<close>

definition request_bytes :: "platform \<Rightarrow> string \<Rightarrow> cval list \<Rightarrow> client \<Rightarrow> bytes" where
  "request_bytes p name args c =
     frame (plat_le p) name [VTuple args] @ drop (length (frame (plat_le p) name [VTuple args])) (ss_buf (rpq_serializer (cl_rpc c)))"

text \<open>Two clients that differ in no setting of the connection.\<close>

definition same_link :: "client \<Rightarrow> client \<Rightarrow> bool" where
  "same_link c c' \<longleftrightarrow> rpq_requester (cl_rpc c') = rpq_requester (cl_rpc c) \<and> rpq_serverAddress (cl_rpc c') = rpq_serverAddress (cl_rpc c)
     \<and> rpq_autoReconnectNetwork (cl_rpc c') = rpq_autoReconnectNetwork (cl_rpc c)"

definition cl_reset :: "client \<Rightarrow> client" where
  "cl_reset c = c\<lparr>cl_rpc := (cl_rpc c)\<lparr>rpq_serializer := ss_set_str []\<rparr>\<rparr>"

lemma cl_reset_simps [simp]:
  "cl_sent (cl_reset c) = cl_sent c" "same_link c (cl_reset c)" "cl_comm (cl_reset c) = cl_comm c"
  "rpq_serializer (cl_rpc (cl_reset c)) = ss_set_str []" "cl_reset (cl_reset c) = cl_reset c"
  "cl_requester (cl_reset c) = cl_requester c" "rpq_requester (cl_rpc (cl_reset c)) = rpq_requester (cl_rpc c)"
  "rpq_serverAddress (cl_rpc (cl_reset c)) = rpq_serverAddress (cl_rpc c)"
  "rpq_autoReconnectNetwork (cl_rpc (cl_reset c)) = rpq_autoReconnectNetwork (cl_rpc c)"
  by (simp_all add: cl_reset_def cl_sent_def cl_requester_def same_link_def)

lemma cl_ready_reset: "cl_ready n c \<Longrightarrow> cl_ready n (cl_reset c)"
  by (simp add: cl_ready_def)

text \<open>\<open>CallFunc\<close> in three parts: pack, exchange, read.\<close>

lemma CallFunc_parts:
  assumes "idle (rpq_serializer (cl_rpc c))" "length name < 2 ^ 64" "list_all2 has_type ts args"
  shows "CallFunc p e arrivals Retv name args c =
    bindS (CallRemote arrivals (request_bytes p name args c) []) (\<lambda>(error, respond).
      if error = NetworkTimeout
      then bindS getS (\<lambda>c. bindS (if rpq_autoReconnectNetwork (cl_rpc c) then reconnect p e else retS ())
        (\<lambda>_. retS (error, default_val (RpcReturnType Retv))))
      else read_reply p Retv name respond) (cl_reset c)"
proof -
  have "Serialize p name [VTuple args] (rpq_serializer (cl_rpc c)) = (Inr (request_bytes p name args c), ss_set_str [])"
    using Serialize_frame [OF assms(1) wf_args_frame [OF assms(2,3)], of p] by (simp add: request_bytes_def)
  then have "on_cl_serializer (Serialize p name [VTuple args]) c = (Inr (request_bytes p name args c), cl_reset c)"
    by (simp add: liftS_def cl_reset_def)
  then show ?thesis
    by (simp only: CallFunc_def read_reply_def Let_def bindS_Inr)
qed

text \<open>What the client holds after its requester moved on.\<close>

definition with_requester :: "requester \<Rightarrow> client \<Rightarrow> client" where
  "with_requester r c = c\<lparr>cl_comm := (cl_comm c)\<lparr>comm_requesters := (comm_requesters (cl_comm c))(rpq_requester (cl_rpc c) \<mapsto> r)\<rparr>\<rparr>"

lemma with_requester_simps [simp]:
  "cl_requester (with_requester r c) = Some r" "cl_sent (with_requester r c) = req_sent r" "same_link c (with_requester r c)"
  "cl_rpc (with_requester r c) = cl_rpc c"
  by (simp_all add: with_requester_def cl_requester_def cl_sent_def same_link_def)

lemma comm_ok_with_requester:
  "cl_requester c = Some r0 \<Longrightarrow> comm_ok (cl_comm (with_requester r c)) = comm_ok (cl_comm c)"
  by (simp add: with_requester_def cl_requester_def comm_ok_upd_requester)

lemma CallRemote_run:
  assumes "cl_requester c = Some r" "Request arrivals q d r = (Inr (code, d'), r')"
  shows "CallRemote arrivals q d c = (Inr (case code of CC_Success \<Rightarrow> Success | ReceiveTimeout \<Rightarrow> NetworkTimeout, d'), with_requester r' c)"
  using assms by (simp add: CallRemote_def bindS_def liftS_def on_requester_def cl_requester_def with_requester_def)

lemma CallRemote_throws:
  assumes "cl_requester c = Some r" "Request arrivals q d r = (Inl x, r')"
  shows "CallRemote arrivals q d c = (Inl x, with_requester r' c)"
  using assms by (simp add: CallRemote_def bindS_def liftS_def on_requester_def cl_requester_def with_requester_def)

lemma CallRemote_null:
  assumes "cl_requester c = None"
  shows "CallRemote arrivals q d c = (Inl Null_Dereference, c)"
  using assms by (simp add: CallRemote_def bindS_def liftS_def on_requester_def cl_requester_def)

text \<open>A reply arrives in time: the request went out, the reply is read, the client is ready again.\<close>

lemma CallFunc_reply:
  assumes "cl_ready (Suc n) c" "length name < 2 ^ 64" "list_all2 has_type ts args" "d \<noteq> []"
  shows "\<exists>c'. CallFunc p e (reply_arrives d # as) Retv name args c = read_reply p Retv name d c' \<and> cl_ready n c'
    \<and> same_link c c' \<and> cl_sent c' = cl_sent c @ envelope (request_bytes p name args c)"
proof -
  obtain r where r: "cl_requester c = Some r" "req_ready (Suc n) r"
    and ok: "comm_ok (cl_comm c)" "idle (rpq_serializer (cl_rpc c))" "\<not> IsInstInvalid (rpq_requester (cl_rpc c))"
    using assms(1) by (auto simp: cl_ready_def)
  let ?q = "request_bytes p name args c"
  obtain r' where r': "Request (reply_arrives d # as) ?q [] r = (Inr (CC_Success, d), r')" "req_ready n r'"
    "req_sent r' = req_sent r @ envelope ?q"
    using rq.req_reply [OF r(2) assms(4)] by blast
  have "CallRemote (reply_arrives d # as) ?q [] (cl_reset c) = (Inr (Success, d), with_requester r' (cl_reset c))"
    using CallRemote_run [OF _ r'(1), of "cl_reset c"] r(1) by simp
  moreover have "cl_ready n (with_requester r' (cl_reset c))"
    using ok r(1) r'(2) comm_ok_with_requester [of "cl_reset c" r r'] by (simp add: cl_ready_def)
  moreover have "same_link c (with_requester r' (cl_reset c))"
    by (simp add: same_link_def)
  ultimately show ?thesis
    using CallFunc_parts [OF ok(2) assms(2,3), of p e "reply_arrives d # as" Retv] r(1) r'(3)
    by (intro exI [of _ "with_requester r' (cl_reset c)"]) (simp add: bindS_Inr cl_sent_def)
qed

text \<open>What each reply makes of the call. The value is read from the same bytes, whatever the byte order
  of the server and whatever follows the frame.\<close>

definition result_value :: "cty option \<Rightarrow> cval \<Rightarrow> cval" where
  "result_value Retv v = (if Retv = None then default_val (RpcReturnType Retv) else v)"

lemma read_reply_success:
  assumes "length name < 2 ^ 64" "has_type (RpcReturnType Retv) v" "enc w v \<noteq> []" "code \<noteq> RC_FunctionNotFound"
  shows "read_reply p Retv name (frame w name [ret_val code v] @ junk) c = (Inr (Success, result_value Retv v), cl_reset c)"
proof -
  let ?d = "frame w name [ret_val code v] @ junk"
  obtain b where b: "Deserialize p ?d [RpcReturnWrapper None] (rpq_serializer (cl_rpc c))
      = (Inr (name, [ret_val code (VArith (A8 b))]), ss_set_str [])"
    using Deserialize_void [OF assms(1,3)] by blast
  then have v: "on_cl_serializer (Deserialize p ?d [RpcReturnWrapper None]) c
      = (Inr (name, [ret_val code (VArith (A8 b))]), cl_reset c)"
    by (simp add: liftS_def cl_reset_def)
  have t: "Deserialize p ?d [RpcReturnWrapper Retv] (ss_set_str []) = (Inr (name, [ret_val code v]), ss_set_str [])"
    by (rule Deserialize_frame) (use assms(1,2) in \<open>rule wf_ret_frame\<close>)
  have t': "on_cl_serializer (Deserialize p ?d [RpcReturnWrapper Retv]) (cl_reset c)
      = (Inr (name, [ret_val code v]), cl_reset c)"
    using t by (simp add: liftS_def cl_reset_def)
  show ?thesis
    using v t' assms(4) by (simp add: read_reply_def Let_def bindS_Inr result_value_def)
qed

lemma read_reply_not_found:
  assumes "length name < 2 ^ 64" "enc w v \<noteq> []"
  shows "read_reply p Retv name (frame w name [ret_val RC_FunctionNotFound v] @ junk) c
    = (Inr (FunctionNotFound, default_val (RpcReturnType Retv)), cl_reset c)"
proof -
  obtain b where "Deserialize p (frame w name [ret_val RC_FunctionNotFound v] @ junk) [RpcReturnWrapper None] (rpq_serializer (cl_rpc c))
      = (Inr (name, [ret_val RC_FunctionNotFound (VArith (A8 b))]), ss_set_str [])"
    using Deserialize_void [OF assms] by blast
  then show ?thesis by (simp add: read_reply_def Let_def bindS_def liftS_def cl_reset_def)
qed

lemma read_reply_mismatch:
  assumes "length other < 2 ^ 64" "enc w v \<noteq> []" "other \<noteq> name"
  shows "read_reply p Retv name (frame w other [ret_val code v] @ junk) c
    = (Inr (FunctionNameMismatch, default_val (RpcReturnType Retv)), cl_reset c)"
proof -
  obtain b where "Deserialize p (frame w other [ret_val code v] @ junk) [RpcReturnWrapper None] (rpq_serializer (cl_rpc c))
      = (Inr (other, [ret_val code (VArith (A8 b))]), ss_set_str [])"
    using Deserialize_void [OF assms(1,2)] by blast
  then show ?thesis using assms(3) by (simp add: read_reply_def Let_def bindS_def liftS_def cl_reset_def)
qed

text \<open>A value without bytes (an empty tuple) cannot be read: the probe for the code wants one byte more.\<close>

lemma read_reply_no_bytes:
  assumes "length name < 2 ^ 64" "enc w v = []"
  shows "\<exists>x c'. read_reply p Retv name (frame w name [ret_val code v]) c = (Inl (Cereal_Exception x), c')"
proof -
  let ?f = "frame w name [ret_val code (VArith (A8 0))]"
  have wf: "wf_call name [RpcReturnWrapper None] [ret_val code (VArith (A8 0))]"
    using assms(1) by (intro wf_ret_frame) auto
  have e: "frame w name [ret_val code v] = frame w name [] @ mem_repr w (A8 code)"
    using assms(2) by (simp add: frame_single enc_ret)
  have l: "?f = (frame w name [] @ mem_repr w (A8 code)) @ mem_repr w (A8 0)"
    by (simp add: frame_single enc_ret)
  let ?k = "length (frame w name [] @ mem_repr w (A8 code))"
  have "take ?k ?f = frame w name [ret_val code v]" by (simp add: e l)
  moreover obtain x s' where "Deserialize p (take ?k ?f) [RpcReturnWrapper None] (rpq_serializer (cl_rpc c)) = (Inl x, s')"
    using Deserialize_short [OF wf, of w ?k p "rpq_serializer (cl_rpc c)"] by (auto simp: frame_single enc_ret)
  ultimately show ?thesis by (auto simp: read_reply_def Let_def bindS_def liftS_def)
qed

text \<open>No reply in time: with automatic reconnection the requester is replaced by a new one, on which the
  next call can be made.\<close>

lemma CallFunc_timeout_parts:
  assumes "cl_ready (Suc n) c" "length name < 2 ^ 64" "list_all2 has_type ts args"
  shows "\<exists>r'. req_stuck r' \<and> CallFunc p e [] Retv name args c =
      bindS (if rpq_autoReconnectNetwork (cl_rpc c) then reconnect p e else retS ())
        (\<lambda>_. retS (NetworkTimeout, default_val (RpcReturnType Retv))) (with_requester r' (cl_reset c))
    \<and> comm_ok (cl_comm (with_requester r' (cl_reset c)))
    \<and> req_sent r' = cl_sent c @ envelope (request_bytes p name args c)"
proof -
  obtain r where r: "cl_requester c = Some r" "req_ready (Suc n) r"
    and ok: "comm_ok (cl_comm c)" "idle (rpq_serializer (cl_rpc c))"
    using assms(1) by (auto simp: cl_ready_def)
  let ?q = "request_bytes p name args c"
  obtain r' where r': "Request [] ?q [] r = (Inr (ReceiveTimeout, []), r')" "req_stuck r'"
    "req_sent r' = req_sent r @ envelope ?q"
    using rq.req_timeout [OF r(2)] by blast
  have "CallRemote [] ?q [] (cl_reset c) = (Inr (NetworkTimeout, []), with_requester r' (cl_reset c))"
    using CallRemote_run [OF _ r'(1), of "cl_reset c"] r(1) by simp
  then show ?thesis
    using CallFunc_parts [OF ok(2) assms(2,3), of p e "[]" Retv] r(1) r'(2,3) ok(1)
      comm_ok_with_requester [of "cl_reset c" r r']
    by (intro exI [of _ r']) (simp add: bindS_Inr cl_sent_def)
qed

lemma reconnect_run:
  assumes "comm_ok (cl_comm c)" "cl_requester c = Some r" "fresh_alloc e (cl_comm c)"
    and "e_connects e (''tcp://'' @ rpq_serverAddress (cl_rpc c))" "idle (rpq_serializer (cl_rpc c))"
  shows "\<exists>c'. reconnect p e c = (Inr (), c') \<and> cl_ready 1000 c' \<and> rpq_requester (cl_rpc c') = e_alloc e
    \<and> cl_requester c' = Some (timed (connected_requester e))
    \<and> rpq_serverAddress (cl_rpc c') = rpq_serverAddress (cl_rpc c)
    \<and> rpq_autoReconnectNetwork (cl_rpc c') = rpq_autoReconnectNetwork (cl_rpc c)"
proof -
  obtain m1 m2 where m: "DestroyInstance (rpq_requester (cl_rpc c)) (cl_comm c) = (Inr True, m1)"
    "CreateRequester p e (rpq_serverAddress (cl_rpc c)) m1 = (Inr (e_alloc e), m2)" "comm_ok m2"
    "comm_requesters m2 = (comm_requesters (cl_comm c))(rpq_requester (cl_rpc c) := None, e_alloc e \<mapsto> connected_requester e)"
    "e_alloc e \<noteq> 0"
    using rqs.replace [OF assms(1) assms(2) [unfolded cl_requester_def] TrueI assms(3,4)] by blast
  have "comm_ok (m2\<lparr>comm_requesters := (comm_requesters m2)(e_alloc e \<mapsto> timed (connected_requester e))\<rparr>)"
    using m(3,4) comm_ok_upd_requester [of m2 "e_alloc e" "connected_requester e"] by simp
  then show ?thesis
    using m assms(5)
    by (simp add: reconnect_def bindS_def liftS_def MakeInstValue_def on_requester_def SetTimeout_run
        cl_ready_def cl_requester_def req_ready_timed IsInstInvalid_def)
qed

lemma req_sent_timed: "req_sent (timed (connected_requester e)) = []"
  by (simp add: req_sent_def timed_def connected_requester_def req_connect_def Let_def new_Requester_def req_out_def
      dealer_attach_pipe_def new_req_def new_dealer_def fq_attach_def lb_attach_def lb_activated_def new_fq_def new_lb_def
      arr_push_back_def arr_swap_def)

lemma CallFunc_timeout_reconnects:
  assumes "cl_ready (Suc n) c" "length name < 2 ^ 64" "list_all2 has_type ts args"
    and "rpq_autoReconnectNetwork (cl_rpc c)" "fresh_alloc e (cl_comm c)"
    and "e_connects e (''tcp://'' @ rpq_serverAddress (cl_rpc c))"
  shows "\<exists>c'. CallFunc p e [] Retv name args c = (Inr (NetworkTimeout, default_val (RpcReturnType Retv)), c')
    \<and> cl_ready 1000 c' \<and> rpq_requester (cl_rpc c') = e_alloc e \<and> cl_sent c' = []"
proof -
  obtain r' where r': "CallFunc p e [] Retv name args c =
      bindS (if rpq_autoReconnectNetwork (cl_rpc c) then reconnect p e else retS ())
        (\<lambda>_. retS (NetworkTimeout, default_val (RpcReturnType Retv))) (with_requester r' (cl_reset c))"
    "comm_ok (cl_comm (with_requester r' (cl_reset c)))"
    using CallFunc_timeout_parts [OF assms(1-3)] by blast
  have "comm_dom (cl_comm (with_requester r' (cl_reset c))) = comm_dom (cl_comm c)"
    using assms(1) by (auto simp: cl_ready_def cl_requester_def comm_dom_def with_requester_def)
  then have fresh: "fresh_alloc e (cl_comm (with_requester r' (cl_reset c)))"
    using assms(5) by (simp add: fresh_alloc_def)
  obtain c' where c': "reconnect p e (with_requester r' (cl_reset c)) = (Inr (), c')" "cl_ready 1000 c'"
    "rpq_requester (cl_rpc c') = e_alloc e" "cl_requester c' = Some (timed (connected_requester e))"
    using reconnect_run [OF r'(2) _ fresh, of r' p] assms(6) by auto
  have "cl_sent c' = []"
    using c'(4) by (simp add: cl_sent_def req_sent_timed)
  then show ?thesis using r'(1) c' assms(4) by (simp add: bindS_Inr)
qed

text \<open>Without it the requester stays behind with its reply outstanding, and every later call is refused.\<close>

definition cl_stuck :: "client \<Rightarrow> bool" where
  "cl_stuck c \<longleftrightarrow> idle (rpq_serializer (cl_rpc c)) \<and> (\<exists>r. cl_requester c = Some r \<and> req_stuck r)"

lemma CallFunc_timeout_stays:
  assumes "cl_ready (Suc n) c" "length name < 2 ^ 64" "list_all2 has_type ts args"
    and "\<not> rpq_autoReconnectNetwork (cl_rpc c)"
  shows "\<exists>c'. CallFunc p e [] Retv name args c = (Inr (NetworkTimeout, default_val (RpcReturnType Retv)), c')
    \<and> cl_stuck c' \<and> same_link c c'"
proof -
  obtain r' where r': "req_stuck r'" "CallFunc p e [] Retv name args c =
      bindS (if rpq_autoReconnectNetwork (cl_rpc c) then reconnect p e else retS ())
        (\<lambda>_. retS (NetworkTimeout, default_val (RpcReturnType Retv))) (with_requester r' (cl_reset c))"
    using CallFunc_timeout_parts [OF assms(1-3)] by blast
  then show ?thesis using assms(4) by (simp add: cl_stuck_def same_link_def)
qed

lemma CallFunc_stuck:
  assumes "cl_stuck c" "length name < 2 ^ 64" "list_all2 has_type ts args"
  shows "\<exists>c'. CallFunc p e arrivals Retv name args c = (Inl (Zmq_Error EFSM), c') \<and> cl_stuck c' \<and> cl_sent c' = cl_sent c"
proof -
  obtain r where r: "cl_requester c = Some r" "req_stuck r" "idle (rpq_serializer (cl_rpc c))"
    using assms(1) by (auto simp: cl_stuck_def)
  have "CallRemote arrivals (request_bytes p name args c) [] (cl_reset c) = (Inl (Zmq_Error EFSM), with_requester r (cl_reset c))"
    using CallRemote_throws [OF _ rq.req_stuck_refused [OF r(2)], of "cl_reset c"] r(1) by simp
  then show ?thesis
    using CallFunc_parts [OF r(3) assms(2,3), of p e arrivals Retv] r by (simp add: bindS_Inl cl_stuck_def cl_sent_def)
qed

text \<open>A program that goes on calling after an exception: the calls one after the other, each with what arrives
  while it runs.\<close>

type_synonym later_call = "env \<times> deliveries \<times> cty option \<times> string \<times> cval list"

fun CallFuncs :: "platform \<Rightarrow> later_call list \<Rightarrow> client \<Rightarrow> (fault + RpcCallError \<times> cval) list \<times> client" where
  "CallFuncs p [] c = ([], c)"
| "CallFuncs p ((e, arrivals, Retv, name, args) # calls) c =
     (case CallFunc p e arrivals Retv name args c of
        (res, c1) \<Rightarrow> (case CallFuncs p calls c1 of (rs, c2) \<Rightarrow> (res # rs, c2)))"

definition later_call_ok :: "later_call \<Rightarrow> bool" where
  "later_call_ok = (\<lambda>(e, arrivals, Retv, name, args). length name < 2 ^ 64 \<and> (\<exists>ts. list_all2 has_type ts args))"

lemma CallFuncs_stuck:
  assumes "cl_stuck c" "\<forall>k \<in> set calls. later_call_ok k"
  shows "\<exists>c'. CallFuncs p calls c = (replicate (length calls) (Inl (Zmq_Error EFSM)), c') \<and> cl_stuck c' \<and> cl_sent c' = cl_sent c"
  using assms
proof (induction calls arbitrary: c)
  case Nil
  then show ?case by simp
next
  case (Cons k calls)
  obtain e arrivals Retv name args where k: "k = (e, arrivals, Retv, name, args)" by (cases k)
  obtain ts where "length name < 2 ^ 64" "list_all2 has_type ts args"
    using Cons.prems(2) by (auto simp: later_call_ok_def k)
  from CallFunc_stuck [OF Cons.prems(1) this] obtain c1 where
    "CallFunc p e arrivals Retv name args c = (Inl (Zmq_Error EFSM), c1)" "cl_stuck c1" "cl_sent c1 = cl_sent c" by blast
  then show ?case using Cons.IH [of c1] Cons.prems(2) by (auto simp: k)
qed

text \<open>A client that is not connected dereferences a null pointer.\<close>

lemma CallFunc_unconnected:
  assumes "comm_ok (cl_comm c)" "IsInstInvalid (rpq_requester (cl_rpc c))" "idle (rpq_serializer (cl_rpc c))"
    "length name < 2 ^ 64" "list_all2 has_type ts args"
  shows "fst (CallFunc p e arrivals Retv name args c) = Inl Null_Dereference"
proof -
  have "cl_requester (cl_reset c) = None"
    using assms(1,2) by (auto simp: comm_ok_def comm_dom_def cl_requester_def IsInstInvalid_def)
  then show ?thesis
    using CallFunc_parts [OF assms(3-5), of p e arrivals Retv] by (simp add: bindS_Inl CallRemote_null)
qed

text \<open>So does one whose automatic reconnection found no network.\<close>

lemma reconnect_refused:
  assumes "comm_ok (cl_comm c)" "cl_requester c = Some r" "fresh_alloc e (cl_comm c)"
    and "\<not> e_connects e (''tcp://'' @ rpq_serverAddress (cl_rpc c))"
  shows "fst (reconnect p e c) = Inl Null_Dereference"
proof -
  obtain m1 where m1: "DestroyInstance (rpq_requester (cl_rpc c)) (cl_comm c) = (Inr True, m1)" "comm_ok m1" "fresh_alloc e m1"
    using rqs.destroy_live [OF assms(1), of "rpq_requester (cl_rpc c)" r] assms(2,3) unfolding cl_requester_def by blast
  have m2: "CreateRequester p e (rpq_serverAddress (cl_rpc c)) m1 = (Inr 0, m1)"
    using rqs.create_bad [OF m1(3) assms(4)] .
  have "comm_requesters m1 0 = None"
    using m1(2) by (auto simp: comm_ok_def comm_dom_def)
  then show ?thesis
    using m1 m2 by (simp add: reconnect_def bindS_def liftS_def MakeInstValue_def on_requester_def)
qed

end
