(* ===== verification/RpcExec.thy ===== *)
theory RpcExec
  imports RpcBasic
begin

text \<open>
  The dispatcher of \<open>include/tmss/RpcProcessResponse.hpp\<close>: the table of bound functions,
  \<open>ExecFunc\<close> and the call proxies. A bound function is what C++ knows of it: its parameter
  and return types and a body acting on the application's state; the three overloads of
  \<open>CallProxyImpl\<close> are the three constructors of \<open>callee\<close>.
\<close>

record 's rpc_fn =
  fn_params :: "cty list"
  fn_ret :: "cty option"
  fn_body :: "cval list \<Rightarrow> ('s, string, cval) smon"

datatype 's callee = FuncPtr "'s rpc_fn" | MemberPtr "64 word \<Rightarrow> 's rpc_fn" "64 word" | StdFunction "'s rpc_fn"

record 's RpcProcessResponse =
  rsp_rpcs :: "string \<Rightarrow> 's callee option"
  rsp_serializer :: stringstream
  rsp_responder :: "64 word"
  rsp_app :: 's

section \<open>BindFunc\<close>

definition BindFunc :: "string \<Rightarrow> 's callee \<Rightarrow> 's RpcProcessResponse \<Rightarrow> 's RpcProcessResponse" where
  "BindFunc name func st = st\<lparr>rsp_rpcs := (rsp_rpcs st)(name \<mapsto> func)\<rparr>"

definition BindFunc_member ::
  "string \<Rightarrow> (64 word \<Rightarrow> 's rpc_fn) \<Rightarrow> 64 word \<Rightarrow> 's RpcProcessResponse \<Rightarrow> 's RpcProcessResponse" where
  "BindFunc_member name func impl st = st\<lparr>rsp_rpcs := (rsp_rpcs st)(name \<mapsto> MemberPtr func impl)\<rparr>"

section \<open>CallProxy\<close>

abbreviation on_serializer :: "(stringstream, cereal_exn, 'a) smon \<Rightarrow> ('s RpcProcessResponse, fault, 'a) smon" where
  "on_serializer \<equiv> liftS rsp_serializer (\<lambda>t st. st\<lparr>rsp_serializer := t\<rparr>) Cereal_Exception"

text \<open>\<open>CallInvoke\<close> applies the function to the elements of the argument tuple;
  \<open>CallInterface\<close> makes a \<open>void\<close> result the byte 0.\<close>

definition CallInvoke :: "'s rpc_fn \<Rightarrow> cval list \<Rightarrow> ('s RpcProcessResponse, fault, cval) smon" where
  "CallInvoke func args = liftS rsp_app (\<lambda>t st. st\<lparr>rsp_app := t\<rparr>) User_Exception (fn_body func args)"

definition CallInterface :: "'s rpc_fn \<Rightarrow> cval list \<Rightarrow> ('s RpcProcessResponse, fault, cval) smon" where
  "CallInterface func args =
     (case fn_ret func of
        Some t \<Rightarrow> CallInvoke func args
      | None \<Rightarrow> bindS (CallInvoke func args) (\<lambda>_. retS (VArith (A8 0))))"

definition CallProxyImpl_function :: "platform \<Rightarrow> 's rpc_fn \<Rightarrow> bytes \<Rightarrow> ('s RpcProcessResponse, fault, bytes) smon" where
  "CallProxyImpl_function p func request =
     bindS (on_serializer (Deserialize p request [RpcFuncArgsWrapper (fn_params func)])) (\<lambda>(funcName, funcArgs).
     bindS (CallInterface func (tuple_elems funcArgs)) (\<lambda>retv.
     on_serializer (Serialize p funcName [ret_val RC_Success retv])))"

text \<open>The overloads for function pointers and member functions wrap into the one for
  \<open>std::function\<close>; \<open>CallProxy\<close> picks the overload.\<close>

fun CallProxy :: "platform \<Rightarrow> 's callee \<Rightarrow> bytes \<Rightarrow> ('s RpcProcessResponse, fault, bytes) smon" where
  "CallProxy p (FuncPtr func) request = CallProxyImpl_function p func request"
| "CallProxy p (MemberPtr func impl) request = CallProxyImpl_function p (func impl) request"
| "CallProxy p (StdFunction func) request = CallProxyImpl_function p func request"

section \<open>ExecFunc\<close>

definition ExecFunc :: "platform \<Rightarrow> bytes \<Rightarrow> ('s RpcProcessResponse, fault, bytes) smon" where
  "ExecFunc p request =
     bindS (on_serializer (Deserialize p request [])) (\<lambda>(funcName, _).
     bindS getS (\<lambda>st.
     case rsp_rpcs st funcName of
       Some func \<Rightarrow> CallProxy p func request
     | None \<Rightarrow> on_serializer (Serialize p funcName [ret_val RC_FunctionNotFound (VArith (A8 0))])))"

section \<open>What the dispatcher does\<close>

text \<open>The function behind a callee.\<close>

fun callee_fn :: "'s callee \<Rightarrow> 's rpc_fn" where
  "callee_fn (FuncPtr f) = f"
| "callee_fn (MemberPtr f impl) = f impl"
| "callee_fn (StdFunction f) = f"

lemma CallProxy_fn: "CallProxy p c request = CallProxyImpl_function p (callee_fn c) request"
  by (cases c) auto

text \<open>A bound function hands back a value of its return type.\<close>

definition fn_result :: "'s rpc_fn \<Rightarrow> cval \<Rightarrow> cval" where
  "fn_result func v = (case fn_ret func of Some t \<Rightarrow> v | None \<Rightarrow> VArith (A8 0))"

definition returns :: "'s rpc_fn \<Rightarrow> cval list \<Rightarrow> 's \<Rightarrow> cval \<Rightarrow> 's \<Rightarrow> bool" where
  "returns func args s v s' \<longleftrightarrow>
     fn_body func args s = (Inr v, s') \<and> has_type (RpcReturnType (fn_ret func)) (fn_result func v)"

lemma CallInterface_returns:
  assumes "returns func args (rsp_app st) v s'"
  shows "CallInterface func args st = (Inr (fn_result func v), st\<lparr>rsp_app := s'\<rparr>)"
  using assms
  by (auto simp: CallInterface_def CallInvoke_def returns_def fn_result_def bindS_def liftS_def split: option.splits)

text \<open>Every request frame a client writes for a name in the table with arguments of the
  function's types makes the function run once on them and its value come back under the
  same name, whatever byte order the client has and whatever follows the frame.\<close>

lemma ExecFunc_bound:
  assumes "rsp_rpcs st name = Some c" "length name < 2 ^ 64"
    and "list_all2 has_type (fn_params (callee_fn c)) args"
    and "returns (callee_fn c) args (rsp_app st) v s'"
  shows "ExecFunc p (frame w name [VTuple args] @ junk) st =
    (Inr (frame (plat_le p) name [ret_val RC_Success (fn_result (callee_fn c) v)]),
     st\<lparr>rsp_app := s', rsp_serializer := ss_set_str []\<rparr>)"
proof -
  let ?req = "frame w name [VTuple args] @ junk"
  let ?p = "\<lparr>plat_le = w\<rparr>"
  let ?st = "st\<lparr>rsp_serializer := ss_set_str []\<rparr>"
  obtain j where j: "frame w name [VTuple args] = frame w name [] @ j"
    by (simp add: frame_single)
  have d1: "Deserialize p ?req [] (rsp_serializer st) = (Inr (name, []), ss_set_str [])"
    using Deserialize_frame [of name "[]" "[]" p w "j @ junk"] assms(2) by (simp add: j wf_call_def)
  have d2: "Deserialize p ?req [RpcFuncArgsWrapper (fn_params (callee_fn c))] (ss_set_str [])
      = (Inr (name, [VTuple args]), ss_set_str [])"
    using assms(2,3) by (intro Deserialize_frame wf_args_frame)
  have ci: "CallInterface (callee_fn c) args ?st = (Inr (fn_result (callee_fn c) v), ?st\<lparr>rsp_app := s'\<rparr>)"
    by (rule CallInterface_returns) (use assms(4) in simp)
  have s: "Serialize p name [ret_val RC_Success (fn_result (callee_fn c) v)] (ss_set_str [])
      = (Inr (frame (plat_le p) name [ret_val RC_Success (fn_result (callee_fn c) v)]), ss_set_str [])"
    using Serialize_frame [OF idle_reset [of "[]"] wf_ret_frame [of name "fn_ret (callee_fn c)"]] assms(2,4)
    by (simp add: returns_def ss_set_str_def)
  show ?thesis
    using assms(1)
    by (simp add: ExecFunc_def CallProxy_fn CallProxyImpl_function_def bindS_def liftS_def d1 d2 ci s)
qed

text \<open>A name that is not in the table: nothing runs, the code comes back under the name.\<close>

lemma ExecFunc_unbound:
  assumes "rsp_rpcs st name = None" "length name < 2 ^ 64"
  shows "ExecFunc p (frame w name vs @ junk) st =
    (Inr (frame (plat_le p) name [ret_val RC_FunctionNotFound (VArith (A8 0))]),
     st\<lparr>rsp_serializer := ss_set_str []\<rparr>)"
proof -
  have d1: "Deserialize p (frame w name vs @ junk) [] (rsp_serializer st) = (Inr (name, []), ss_set_str [])"
    using Deserialize_frame [of name "[]" "[]" p w "concat (map (enc w) vs) @ junk"] assms(2)
    by (simp add: frame_def wf_call_def)
  have s: "Serialize p name [ret_val RC_FunctionNotFound (VArith (A8 0))] (ss_set_str [])
      = (Inr (frame (plat_le p) name [ret_val RC_FunctionNotFound (VArith (A8 0))]), ss_set_str [])"
    using Serialize_frame [OF idle_reset [of "[]"] wf_ret_frame [of name None]] assms(2)
    by (simp add: ss_set_str_def)
  show ?thesis
    using assms(1) by (simp add: ExecFunc_def bindS_def liftS_def d1 s)
qed

text \<open>A request whose argument bytes are cut short: the exception of the archive escapes, after
  no function body has run.\<close>

lemma ExecFunc_truncated:
  assumes "rsp_rpcs st name = Some c" "length name < 2 ^ 64"
    and "list_all2 has_type (fn_params (callee_fn c)) args"
    and "length (frame w name []) \<le> k" "k < length (frame w name [VTuple args])"
  shows "\<exists>e st'. ExecFunc p (take k (frame w name [VTuple args])) st = (Inl (Cereal_Exception e), st')
    \<and> rsp_app st' = rsp_app st"
proof -
  let ?req = "take k (frame w name [VTuple args])"
  have req: "?req = frame w name [] @ take (k - length (frame w name [])) (enc w (VTuple args))"
    using assms(4) by (simp add: frame_single)
  have d1: "Deserialize p ?req [] (rsp_serializer st) = (Inr (name, []), ss_set_str [])"
    unfolding req using assms(2) by (intro Deserialize_frame) (simp add: wf_call_def)
  obtain e s' where d2: "Deserialize p ?req [RpcFuncArgsWrapper (fn_params (callee_fn c))] (ss_set_str []) = (Inl e, s')"
    using Deserialize_short [OF wf_args_frame [OF assms(2,3)] assms(4,5)] by blast
  show ?thesis
    using assms(1) by (simp add: ExecFunc_def CallProxy_fn CallProxyImpl_function_def bindS_def liftS_def d1 d2)
qed

text \<open>An exception of the application's function escapes unchanged.\<close>

lemma ExecFunc_user_exception:
  assumes "rsp_rpcs st name = Some c" "length name < 2 ^ 64"
    and "list_all2 has_type (fn_params (callee_fn c)) args"
    and "fn_body (callee_fn c) args (rsp_app st) = (Inl msg, s')"
  shows "fst (ExecFunc p (frame w name [VTuple args] @ junk) st) = Inl (User_Exception msg)"
proof -
  let ?req = "frame w name [VTuple args] @ junk"
  have d1: "Deserialize p ?req [] (rsp_serializer st) = (Inr (name, []), ss_set_str [])"
    using Deserialize_frame [of name "[]" "[]" p w "enc w (VTuple args) @ junk"] assms(2)
    by (simp add: frame_single wf_call_def)
  have d2: "Deserialize p ?req [RpcFuncArgsWrapper (fn_params (callee_fn c))] (ss_set_str [])
      = (Inr (name, [VTuple args]), ss_set_str [])"
    using assms(2,3) by (intro Deserialize_frame wf_args_frame)
  show ?thesis
    using assms(1,4)
    by (auto simp: ExecFunc_def CallProxy_fn CallProxyImpl_function_def CallInterface_def CallInvoke_def
        bindS_def liftS_def d1 d2 split: option.splits)
qed

text \<open>Whatever the dispatcher answers is not empty, so the client never takes it for a timeout.\<close>

lemma ExecFunc_nonempty:
  assumes "ExecFunc p request st = (Inr respond, st')"
  shows "respond \<noteq> []"
proof -
  have ser: "r \<noteq> []" if "on_serializer (Serialize p f vs) s = (Inr r, s')" for f vs r and s s' :: "'a RpcProcessResponse"
    using that Serialize_nonempty [of p f vs "rsp_serializer s" r]
    by (auto simp: liftS_def split: prod.splits sum.splits)
  have proxy: "r \<noteq> []" if "CallProxy p c req s = (Inr r, s')" for c req r and s s' :: "'a RpcProcessResponse"
    using that unfolding CallProxy_fn CallProxyImpl_function_def
    by (auto elim!: bindS_eq_Inr dest: ser)
  show ?thesis
    using assms unfolding ExecFunc_def
    by (auto elim!: bindS_eq_Inr dest: ser proxy split: option.splits)
qed

end
