(* ===== verification/ZmqRepSolo.thy ===== *)
theory ZmqRepSolo
  imports ZmqRep
begin

text \<open>
  A REP socket (\<open>ZmqRep\<close>) with exactly one peer, over a whole sequence of requests: what a request
  and its reply leave of the socket is a state in which the next request is served. \<open>n\<close> counts
  the replies that still fit under the high-water mark.
\<close>

definition rep_solo :: "nat \<Rightarrow> pipe_id \<Rightarrow> rep_t \<Rightarrow> bool" where
  "rep_solo n x r \<longleftrightarrow> rep_idle r \<and> (let s = rp_router r; q = rt_fq s; p = rt_heap s x in
     fq_pipes q = [x] \<and> fq_current q = 0 \<and> fq_active q = (if p_in_active p then 1 else 0)
     \<and> x \<notin> set (rt_anonymous_pipes s) \<and> p_in p = [] \<and> p_state p = active \<and> p_out_active p \<and> pipe_room n p
     \<and> p_ready p = [] \<and> p_part p = [] \<and> p_routing_id p \<noteq> []
     \<and> (\<exists>act. rt_out_pipes s (p_routing_id p) = Some (x, act)))"

text \<open>With nothing to read the socket notes that its pipe is dry.\<close>

definition rep_dry :: "pipe_id \<Rightarrow> rep_t \<Rightarrow> rep_t" where
  "rep_dry x r = r\<lparr>rp_router := (rp_router r)\<lparr>rt_fq := (rt_fq (rp_router r))\<lparr>fq_active := 0\<rparr>,
     rt_heap := (rt_heap (rp_router r))(x := (rt_heap (rp_router r) x)\<lparr>p_in_active := False\<rparr>)\<rparr>\<rparr>"

lemma rep_solo_dry:
  assumes "rep_solo n x r"
  shows "rep_xrecv r = (Inl EAGAIN, rep_dry x r)"
proof -
  let ?s = "rp_router r"
  have fuel: "2 * router_inbound ?s + 3 = Suc (Suc (Suc (2 * router_inbound ?s)))" by simp
  show ?thesis
  proof (cases "p_in_active (rt_heap ?s x)")
    case True
    then show ?thesis
      using assms
      by (simp add: rep_solo_def rep_idle_def Let_def rep_xrecv_def fuel bindS_def liftS_def router_xrecv_def
          fq_recvpipe_def pipe_read_def pipe_readable_def pipe_dry fq_deactivate_def arr_swap_def rep_dry_def)
  next
    case False
    then have "rep_dry x r = r"
      using assms by (simp add: rep_solo_def Let_def rep_dry_def fun_upd_idem)
    then show ?thesis
      using assms False
      by (simp add: rep_solo_def rep_idle_def Let_def rep_xrecv_def fuel bindS_def liftS_def router_xrecv_def fq_recvpipe_def)
  qed
qed

lemma rep_recv_solo_timeout:
  "rep_solo n x r \<Longrightarrow> rep_recv [] r = (Inl EAGAIN, rep_dry x r) \<and> rep_solo n x (rep_dry x r)"
  by (simp add: rep_solo_dry) (simp add: rep_solo_def rep_idle_def rep_dry_def Let_def)

text \<open>The request that wakes it is handed out; the reply goes back on the same pipe.\<close>

definition rep_serving :: "nat \<Rightarrow> pipe_id \<Rightarrow> rep_t \<Rightarrow> bool" where
  "rep_serving n x r \<longleftrightarrow> rp_sending_reply r \<and> rp_request_begins r
     \<and> (let s = rp_router r; q = rt_fq s; p = rt_heap s x in
     \<not> rt_prefetched s \<and> \<not> rt_more_in s \<and> rt_current_out s = Some x \<and> rt_more_out s
     \<and> \<not> rt_terminate_current_in s \<and> \<not> rt_raw_socket s \<and> \<not> fq_more q
     \<and> fq_pipes q = [x] \<and> fq_current q = 0 \<and> fq_active q = (if p_in_active p then 1 else 0)
     \<and> x \<notin> set (rt_anonymous_pipes s) \<and> p_in p = [] \<and> p_state p = active \<and> p_out_active p \<and> pipe_room n p
     \<and> p_ready p = [] \<and> p_part p = [mk_msg [] True] \<and> p_routing_id p \<noteq> []
     \<and> (\<exists>act. rt_out_pipes s (p_routing_id p) = Some (x, act)))"

lemma pipe_room_count [simp]: "pipe_room n (pipe_count_read m p) = pipe_room n p"
  by (simp add: pipe_count_read_def Let_def)

lemma pipe_room_part [simp]: "pipe_room n (p\<lparr>p_part := ms\<rparr>) = pipe_room n p"
  by (simp add: pipe_room_def)

definition rep_woken :: "pipe_id \<Rightarrow> msg_t list \<Rightarrow> rep_t \<Rightarrow> rep_t" where
  "rep_woken x ms r = r\<lparr>rp_router := (rp_router r)\<lparr>rt_fq := (rt_fq (rp_router r))\<lparr>fq_active := 1\<rparr>,
     rt_heap := (rt_heap (rp_router r))(x := (rt_heap (rp_router r) x)\<lparr>p_in := ms, p_in_active := True\<rparr>)\<rparr>\<rparr>"

lemma rep_deliver_dry:
  assumes "rep_solo n x r"
  shows "rep_deliver (x, ms) (rep_dry x r) = rep_woken x ms r"
  using assms
  by (simp add: rep_solo_def Let_def rep_deliver_def rep_dry_def rep_woken_def process_activate_read_def set_pipe_def
      router_read_activated_def fq_activated_def arr_swap_def)

lemma rep_xrecv_awake:
  assumes "rep_idle r" "fq_pipes (rt_fq (rp_router r)) = [x]" "fq_current (rt_fq (rp_router r)) = 0"
    "fq_active (rt_fq (rp_router r)) = 1" "x \<notin> set (rt_anonymous_pipes (rp_router r))"
    and "rt_heap (rp_router r) x = p" "p_in p = [mk_msg [] True, mk_msg b False]" "p_in_active p" "p_state p = active"
    "p_out_active p" "pipe_room (Suc n) p" "p_ready p = []" "p_part p = []" "p_routing_id p \<noteq> []"
    "rt_out_pipes (rp_router r) (p_routing_id p) = Some (x, act)"
  shows "\<exists>r'. rep_xrecv r = (Inr (mk_msg b False), r') \<and> rep_serving (Suc n) x r' \<and> rep_out x r' = p_out p"
proof -
  let ?s = "rp_router r"
  have fuel: "2 * router_inbound ?s + 3 = Suc (Suc (Suc (2 * router_inbound ?s)))" by simp
  have hwm: "pipe_check_hwm p" using assms(11) by (rule pipe_room_check)
  show ?thesis
    using assms hwm
    by (simp add: rep_xrecv_def fuel bindS_def liftS_def router_xrecv_first router_xrecv_prefetched router_xrecv_next
        router_xsend_def router_xsend_id_def router_xsend_part_def pipe_check_write_def pipe_write_ok router_end_in_def
        fq_step_def set_pipe_def rep_out_def rep_serving_def rep_idle_def Let_def
        del: router_recvpipe.simps)
qed

lemma rep_xrecv_woken:
  assumes "rep_solo (Suc n) x r"
  shows "\<exists>r'. rep_xrecv (rep_woken x [mk_msg [] True, mk_msg b False] r) = (Inr (mk_msg b False), r')
    \<and> rep_serving (Suc n) x r' \<and> rep_out x r' = rep_out x r"
proof -
  let ?p = "(rt_heap (rp_router r) x)\<lparr>p_in := [mk_msg [] True, mk_msg b False], p_in_active := True\<rparr>"
  obtain act where "rt_out_pipes (rp_router r) (p_routing_id (rt_heap (rp_router r) x)) = Some (x, act)"
    using assms by (auto simp: rep_solo_def Let_def)
  then show ?thesis
    using rep_xrecv_awake [of "rep_woken x [mk_msg [] True, mk_msg b False] r" x ?p b n act] assms
    by (simp add: rep_solo_def rep_idle_def rep_woken_def rep_out_def Let_def)
qed

lemma rep_recv_solo:
  assumes "rep_solo (Suc n) x r"
  shows "\<exists>r'. rep_recv ((x, [mk_msg [] True, mk_msg b False]) # as) r = (Inr (mk_msg b False), r')
    \<and> rep_serving (Suc n) x r' \<and> rep_out x r' = rep_out x r"
proof -
  obtain r' where r': "rep_xrecv (rep_woken x [mk_msg [] True, mk_msg b False] r) = (Inr (mk_msg b False), r')"
    "rep_serving (Suc n) x r'" "rep_out x r' = rep_out x r"
    using rep_xrecv_woken [OF assms] by blast
  then show ?thesis
    using rep_solo_dry [OF assms] rep_deliver_dry [OF assms] by (cases "as") simp_all
qed

lemma rep_send_solo:
  assumes "rep_serving (Suc n) x r"
  shows "\<exists>r'. rep_xsend (mk_msg d False) r = (Inr (), r') \<and> rep_solo n x r'
    \<and> rep_out x r' = rep_out x r @ [mk_msg [] True, mk_msg d False]"
proof -
  let ?p = "rt_heap (rp_router r) x"
  have hwm: "pipe_check_hwm ?p"
    using assms by (auto simp: rep_serving_def Let_def dest: pipe_room_check)
  have room: "pipe_room n p" if "p_hwm p = p_hwm ?p" "p_peers_msgs_read p = p_peers_msgs_read ?p"
      "p_msgs_written p = p_msgs_written ?p + 1" for p
    using pipe_room_written [OF _ that] assms by (auto simp: rep_serving_def Let_def)
  show ?thesis
    using assms hwm
    by (simp add: rep_xsend_def bindS_def liftS_def router_xsend_def router_xsend_part_def pipe_write_ok pipe_flush_def
        set_pipe_def rep_out_def rep_serving_def rep_solo_def rep_idle_def Let_def room)
qed

text \<open>The state is reached: a new socket to which one peer connects.\<close>

lemma rep_solo_new:
  assumes "pipe_room n (new_pipe i j)"
  shows "rep_solo n x ((new_rep rnd)\<lparr>rp_router := router_attach_pipe x (set_pipe x
    ((new_pipe i j)\<lparr>p_in := [\<lparr>m_data = rid, m_more = False, m_kind = Routing_Id\<rparr>]\<rparr>) (new_router rnd))\<rparr>)"
  using assms
  by (cases "rid = []")
    (simp_all add: rep_solo_def rep_idle_def new_rep_def new_router_def router_attach_pipe_def identify_peer_def pipe_read_def
      pipe_readable_def set_pipe_def set_routing_id_def add_out_pipe_def fresh_routing_id_def integral_routing_id_def
      new_pipe_def fq_attach_def new_fq_def arr_push_back_def arr_swap_def Let_def pipe_room_def pipe_count_read_def ex_bool_eq)

end
