(* ===== verification/RpcServer.thy ===== *)
theory RpcServer
  imports RpcClient RpcExec ZmqRepSolo
begin

text \<open>
  \<open>include/tmss/RpcProcessResponse.hpp\<close>, the part around the dispatcher (\<open>RpcExec\<close>): starting and
  stopping the responder whose thread runs \<open>ExecFunc\<close>. The state is the object and the process-wide
  registry. \<open>server_step\<close> is one step of the thread; \<open>StopProcess\<close> is given what arrives while it
  waits for the thread, and is \<open>None\<close> where it still waits after that.
\<close>

record 's server =
  sv_comm :: communicator
  sv_rpc :: "'s RpcProcessResponse"

definition new_RpcProcessResponse :: "'s \<Rightarrow> 's RpcProcessResponse" where
  "new_RpcProcessResponse app = \<lparr>rsp_rpcs = Map.empty, rsp_serializer = ss_set_str [], rsp_responder = ResetInstInvalid,
     rsp_app = app\<rparr>"

text \<open>The member \<open>process\<close>.\<close>

definition process :: "platform \<Rightarrow> bytes \<Rightarrow> ('s RpcProcessResponse, fault, bytes) smon" where
  "process p request = ExecFunc p request"

abbreviation on_sv_comm :: "(communicator, fault, 'a) smon \<Rightarrow> ('s server, fault, 'a) smon" where
  "on_sv_comm \<equiv> liftS sv_comm (\<lambda>m s. s\<lparr>sv_comm := m\<rparr>) id"

abbreviation set_responder :: "inst_value \<Rightarrow> 's server \<Rightarrow> 's server" where
  "set_responder v s \<equiv> s\<lparr>sv_rpc := (sv_rpc s)\<lparr>rsp_responder := v\<rparr>\<rparr>"

abbreviation put_responder :: "inst_value \<Rightarrow> responder \<Rightarrow> 's server \<Rightarrow> 's server" where
  "put_responder v r s \<equiv> s\<lparr>sv_comm := (sv_comm s)\<lparr>comm_responders := (comm_responders (sv_comm s))(v \<mapsto> r)\<rparr>\<rparr>"

definition StartProcess :: "platform \<Rightarrow> env \<Rightarrow> string \<Rightarrow> int \<Rightarrow> ('s server, fault, bool) smon" where
  "StartProcess p e selfIp selfPort = (\<lambda>s.
     if \<not> IsInstInvalid (rsp_responder (sv_rpc s)) then (Inr False, s)
     else
       bindS (on_sv_comm (CreateResponder p e (address selfIp selfPort))) (\<lambda>v.
       bindS (modifyS (set_responder v)) (\<lambda>_.
       if IsInstInvalid v then retS False
       else (\<lambda>s1. case comm_responders (sv_comm s1) v of
           None \<Rightarrow> (Inl Null_Dereference, s1)
         | Some r \<Rightarrow> (case StartResponse r of (b, r') \<Rightarrow> (Inr b, put_responder v r' s1))))) s)"

definition StopProcess :: "platform \<Rightarrow> deliveries list \<Rightarrow> 's server \<Rightarrow> ((fault + bool) \<times> 's server) option" where
  "StopProcess p ds = (\<lambda>s.
     let v = rsp_responder (sv_rpc s) in
     if IsInstInvalid v then Some (Inr False, s)
     else case comm_responders (sv_comm s) v of
       None \<Rightarrow> Some (Inl Null_Dereference, s)
     | Some r \<Rightarrow>
         (case StopResponse r of
            (False, r1) \<Rightarrow> Some (Inr False, put_responder v r1 s)
          | (True, r1) \<Rightarrow>
         (case run_respond (process p) ds (r1, sv_rpc s) of
            (Inl x, (r2, o2)) \<Rightarrow> Some (Inl x, put_responder v r2 (s\<lparr>sv_rpc := o2\<rparr>))
          | (Inr _, (r2, o2)) \<Rightarrow>
         (case WaitResponse r2 of
            None \<Rightarrow> None
          | Some (False, r3) \<Rightarrow> Some (Inr False, put_responder v r3 (s\<lparr>sv_rpc := o2\<rparr>))
          | Some (True, r3) \<Rightarrow>
         (case ResetResponse r3 of
            (Inl x, r4) \<Rightarrow> Some (Inl x, put_responder v r4 (s\<lparr>sv_rpc := o2\<rparr>))
          | (Inr False, r4) \<Rightarrow> Some (Inr False, put_responder v r4 (s\<lparr>sv_rpc := o2\<rparr>))
          | (Inr True, r4) \<Rightarrow>
              Some (bindS (on_sv_comm (DestroyInstance (MakeInstValue v))) (\<lambda>_.
                    bindS (modifyS (set_responder ResetInstInvalid)) (\<lambda>_. retS True))
                      (put_responder v r4 (s\<lparr>sv_rpc := o2\<rparr>))))))))"

text \<open>The thread at work on the running server.\<close>

definition server_run :: "platform \<Rightarrow> deliveries list \<Rightarrow> ('s server, fault, unit) smon" where
  "server_run p ds = (\<lambda>s.
     let v = rsp_responder (sv_rpc s) in
     case comm_responders (sv_comm s) v of
       None \<Rightarrow> (Inl Null_Dereference, s)
     | Some r \<Rightarrow> (case run_respond (process p) ds (r, sv_rpc s) of
         (res, (r', o')) \<Rightarrow> (res, put_responder v r' (s\<lparr>sv_rpc := o'\<rparr>))))"

section \<open>Starting\<close>

definition sv_responder :: "'s server \<Rightarrow> responder option" where
  "sv_responder s = comm_responders (sv_comm s) (rsp_responder (sv_rpc s))"

definition started_responder :: "env \<Rightarrow> responder" where
  "started_responder e = snd (StartResponse (bound_responder e))"

lemma started_responder_run:
  "StartResponse (bound_responder e) = (True, started_responder e)"
  "wk_map (resp_worker (started_responder e)) = [respKey \<mapsto> (True, True)]" "resp_pc (started_responder e) = Some Spin"
  "resp_socket (started_responder e) = new_rep (e_rnd e)"
  "resp_options (started_responder e) = options_init\<lparr>o_rcvtimeo := 1000\<rparr>"
  by (simp_all add: started_responder_def StartResponse_def bound_responder_def new_Responder_def worker_start_def new_worker_def)

lemma comm_ok_upd_responder:
  "comm_responders m v = Some r \<Longrightarrow> comm_ok (m\<lparr>comm_responders := (comm_responders m)(v \<mapsto> r')\<rparr>) = comm_ok m"
  by (auto simp: comm_ok_def comm_dom_def insert_absorb domI)

lemma StartProcess_good:
  assumes "comm_ok (sv_comm s)" "fresh_alloc e (sv_comm s)" "IsInstInvalid (rsp_responder (sv_rpc s))"
    and "e_binds e (''tcp://'' @ address ip port)"
  shows "\<exists>s'. StartProcess p e ip port s = (Inr True, s') \<and> comm_ok (sv_comm s')
    \<and> sv_responder s' = Some (started_responder e) \<and> sv_rpc s' = (sv_rpc s)\<lparr>rsp_responder := e_alloc e\<rparr> \<and> e_alloc e \<noteq> 0"
proof -
  obtain m where m: "CreateResponder p e (address ip port) (sv_comm s) = (Inr (e_alloc e), m)" "comm_ok m"
    "comm_responders m = (comm_responders (sv_comm s))(e_alloc e \<mapsto> bound_responder e)"
    using rps.create_good [OF assms(1,2,4)] by blast
  have "comm_ok (m\<lparr>comm_responders := (comm_responders m)(e_alloc e \<mapsto> started_responder e)\<rparr>)"
    using m(2,3) comm_ok_upd_responder [of m "e_alloc e" "bound_responder e"] by simp
  then show ?thesis
    using assms(3) m rps.alloc_nonzero [OF assms(2)]
    by (simp add: StartProcess_def bindS_def liftS_def IsInstInvalid_def started_responder_run(1) sv_responder_def)
qed

lemma StartProcess_bad:
  assumes "fresh_alloc e (sv_comm s)" "IsInstInvalid (rsp_responder (sv_rpc s))"
    and "\<not> e_binds e (''tcp://'' @ address ip port)"
  shows "StartProcess p e ip port s = (Inr False, s)"
proof -
  have "CreateResponder p e (address ip port) (sv_comm s) = (Inr 0, sv_comm s)"
    using rps.create_bad [OF assms(1,3)] .
  then show ?thesis
    using assms(2) by (simp add: StartProcess_def bindS_def liftS_def IsInstInvalid_def)
qed

lemma StartProcess_again:
  "\<not> IsInstInvalid (rsp_responder (sv_rpc s)) \<Longrightarrow> StartProcess p e ip port s = (Inr False, s)"
  by (simp add: StartProcess_def)

section \<open>Stopping\<close>

lemma respond_step_started:
  "respond_step proc d (r, a) = (res, (r', a')) \<Longrightarrow> resp_pc r \<noteq> None \<Longrightarrow> resp_pc r' \<noteq> None"
  by (auto simp: respond_step_def worker_test_def goto_def Let_def
      split: option.splits wpc.splits resp_job.splits prod.splits sum.splits bool.splits if_splits)

lemma run_respond_started:
  "run_respond proc ds (r, a) = (Inr (), (r', a')) \<Longrightarrow> resp_pc r \<noteq> None \<Longrightarrow> resp_pc r' \<noteq> None"
proof (induction ds arbitrary: r a)
  case Nil
  then show ?case by simp
next
  case (Cons d ds)
  obtain r1 a1 where s: "respond_step proc d (r, a) = (Inr (), (r1, a1))" "run_respond proc ds (r1, a1) = (Inr (), (r', a'))"
    using Cons.prems(1) by (auto elim!: bindS_eq_Inr)
  then show ?case using Cons.IH [OF s(2)] respond_step_started [OF s(1)] Cons.prems(2) by simp
qed

text \<open>Four steps after it was told to, the thread is gone, whatever it was doing.\<close>

lemma stopped_exits:
  assumes "run_respond proc ds (snd (StopResponse r), a) = (Inr (), (r2, a2))" "4 \<le> length ds"
    and "wk_running respKey (resp_worker r)" "resp_pc r \<noteq> None"
  shows "resp_pc r2 = Some Exited" "wk_running respKey (resp_worker r2)"
proof -
  let ?r = "snd (StopResponse r)"
  have stop: "wk_stopping respKey (resp_worker ?r)" "resp_pc ?r = resp_pc r" "wk_running respKey (resp_worker ?r)"
    using assms(3) by (auto simp: StopResponse_def worker_stop_def wk_running_def wk_stopping_def)
  have "steps_left (resp_pc ?r) \<le> length ds" using steps_left_le assms(2) by (rule le_trans)
  then have e: "steps_left (resp_pc r2) = 0" "wk_map (resp_worker r2) = wk_map (resp_worker ?r)"
    using run_respond_exits [OF assms(1) stop(1)] by auto
  have "resp_pc r2 \<noteq> None" using run_respond_started [OF assms(1)] stop(2) assms(4) by simp
  then show "resp_pc r2 = Some Exited" using e(1) by (cases "resp_pc r2" rule: steps_left.cases) auto
  show "wk_running respKey (resp_worker r2)" using e(2) stop(3) by (simp add: wk_running_def)
qed

lemma StopProcess_stops:
  assumes "comm_ok (sv_comm s)" "sv_responder s = Some r" "\<not> IsInstInvalid (rsp_responder (sv_rpc s))"
    and "wk_running respKey (resp_worker r)" "resp_pc r \<noteq> None"
    and "run_respond (process p) ds (snd (StopResponse r), sv_rpc s) = (Inr (), (r2, o2))" "4 \<le> length ds"
  shows "\<exists>s'. StopProcess p ds s = Some (Inr True, s') \<and> comm_ok (sv_comm s')
    \<and> sv_rpc s' = o2\<lparr>rsp_responder := ResetInstInvalid\<rparr>
    \<and> comm_responders (sv_comm s') = (comm_responders (sv_comm s))(rsp_responder (sv_rpc s) := None)"
proof -
  let ?v = "rsp_responder (sv_rpc s)"
  obtain r1 where r1: "StopResponse r = (True, r1)"
    using ro.stop_running [OF assms(4)] by blast
  have e: "resp_pc r2 = Some Exited" "wk_running respKey (resp_worker r2)"
    using stopped_exits [OF assms(6,7,4,5)] by auto
  obtain r3 where r3: "WaitResponse r2 = Some (True, r3)" "wk_running respKey (resp_worker r3)" "wk_joined respKey (resp_worker r3)"
    using ro.wait_exited [OF e(2,1)] by blast
  obtain r4 where r4: "ResetResponse r3 = (Inr True, r4)" "\<not> wk_running respKey (resp_worker r4)"
    using ro.reset_joined [OF r3(2,3)] by blast
  let ?m = "(sv_comm s)\<lparr>comm_responders := (comm_responders (sv_comm s))(?v \<mapsto> r4)\<rparr>"
  have ok: "comm_ok ?m"
    using assms(1,2) comm_ok_upd_responder [of "sv_comm s" ?v r] by (simp add: sv_responder_def)
  have none: "destroy_worker respKey (resp_worker r4) = None"
    using r4(2) by (cases "wk_map (resp_worker r4) respKey") (simp_all add: destroy_worker_def wk_running_def)
  obtain m where m: "DestroyInstance ?v ?m = (Inr True, m)" "comm_ok m"
    "comm_responders m = (comm_responders ?m)(?v := None)"
    using rps.destroy_live [OF ok _ none, of ?v] by auto
  show ?thesis
    using assms(2,3,6) r1 r3(1) r4(1) m
    by (simp add: StopProcess_def sv_responder_def Let_def bindS_def liftS_def MakeInstValue_def)
qed

section \<open>Serving\<close>

definition sv_listening :: "'s server \<Rightarrow> bool" where
  "sv_listening s \<longleftrightarrow> comm_ok (sv_comm s) \<and> (\<exists>r. sv_responder s = Some r \<and> resp_listening r)"

definition sv_socket :: "'s server \<Rightarrow> rep_t" where
  "sv_socket s = resp_socket (the (sv_responder s))"

lemma ExecFunc_keeps_responder:
  "ExecFunc p q st = (res, st') \<Longrightarrow> rsp_responder st' = rsp_responder st \<and> rsp_rpcs st' = rsp_rpcs st"
  by (cases res) (auto simp: ExecFunc_def CallProxy_fn CallProxyImpl_function_def CallInterface_def CallInvoke_def liftS_def
      split: prod.splits sum.splits option.splits elim!: bindS_eq_Inl bindS_eq_Inr)

text \<open>One request, one run of \<open>ExecFunc\<close>, one reply, to the peer that asked.\<close>

lemma server_serves:
  assumes "sv_listening s" "rep_idle (sv_socket s)" "rep_next x (sv_socket s)" "rep_peer x (sv_socket s)"
    and "p_in (rt_heap (rp_router (sv_socket s)) x) = envelope q @ rest" "q \<noteq> []"
    and "ExecFunc p q (sv_rpc s) = (Inr d, o')"
  shows "\<exists>s'. server_run p [d1, d2, d3, d4] s = (Inr (), s') \<and> sv_rpc s' = o' \<and> sv_listening s'
    \<and> rep_idle (sv_socket s') \<and> rep_out x (sv_socket s') = rep_out x (sv_socket s) @ envelope d
    \<and> (\<forall>y. y \<noteq> x \<longrightarrow> rep_out y (sv_socket s') = rep_out y (sv_socket s))"
proof -
  obtain r where r: "sv_responder s = Some r" "resp_listening r" "comm_ok (sv_comm s)"
    using assms(1) by (auto simp: sv_listening_def)
  have sock: "sv_socket s = resp_socket r" using r(1) by (simp add: sv_socket_def)
  obtain r' where r': "run_respond (process p) [d1, d2, d3, d4] (r, sv_rpc s) = (Inr (), (r', o'))" "resp_listening r'"
    "rep_idle (resp_socket r')" "rep_out x (resp_socket r') = rep_out x (resp_socket r) @ envelope d"
    "\<And>y. y \<noteq> x \<Longrightarrow> rep_out y (resp_socket r') = rep_out y (resp_socket r)"
    using run_respond_serves [of r x q rest "process p" "sv_rpc s" d o' d1 d2 d3 d4]
      r(2) assms(2-7) unfolding sock process_def by blast
  have "rsp_responder o' = rsp_responder (sv_rpc s)"
    using ExecFunc_keeps_responder [OF assms(7)] by simp
  then show ?thesis
    using r r' sock comm_ok_upd_responder [of "sv_comm s" "rsp_responder (sv_rpc s)" r r']
    by (auto simp: server_run_def sv_responder_def Let_def sv_listening_def sv_socket_def simp del: run_respond.simps)
qed

text \<open>With one peer only, the state in which the next request is served comes back, so this goes on for
  as long as the replies fit.\<close>

lemma run_respond_solo:
  assumes "resp_listening r" "rep_solo (Suc n) x (resp_socket r)" "q \<noteq> []" "proc q a = (Inr d, a')"
  shows "\<exists>r'. run_respond proc [d1, (x, envelope q) # as, d3, d4] (r, a) = (Inr (), (r', a')) \<and> resp_listening r'
    \<and> rep_solo n x (resp_socket r') \<and> rep_out x (resp_socket r') = rep_out x (resp_socket r) @ envelope d"
proof -
  obtain s1 where s1: "rep_recv ((x, envelope q) # as) (resp_socket r) = (Inr (mk_msg q False), s1)"
    "rep_serving (Suc n) x s1" "rep_out x s1 = rep_out x (resp_socket r)"
    using rep_recv_solo [OF assms(2), of q "as"] unfolding envelope_def by blast
  obtain s2 where s2: "rep_xsend (mk_msg d False) s1 = (Inr (), s2)" "rep_solo n x s2" "rep_out x s2 = rep_out x s1 @ envelope d"
    using rep_send_solo [OF s1(2), of d] unfolding envelope_def by blast
  let ?r = "r\<lparr>resp_socket := s2, resp_worker := goto Check (resp_worker r)\<rparr>"
  have w: "goto Check (resp_worker r) = resp_worker r"
    using assms(1) by (cases "resp_worker r") (simp add: resp_listening_def goto_def)
  have "run_respond proc [d1, (x, envelope q) # as, d3, d4] (r, a) = (Inr (), (?r, a'))"
    using assms(1,3,4) s1(1) s2(1) w
    by (auto simp: resp_listening_def bindS_def respond_step_def worker_test_def zmq_result_def goto_def simp del: rep_recv.simps)
  then show ?thesis
    using s2(2,3) s1(3) assms(1) w by (intro exI [of _ ?r]) (simp add: resp_listening_def)
qed

definition sv_solo :: "nat \<Rightarrow> pipe_id \<Rightarrow> 's server \<Rightarrow> bool" where
  "sv_solo n x s \<longleftrightarrow> sv_listening s \<and> rep_solo n x (sv_socket s) \<and> idle (rsp_serializer (sv_rpc s))"

lemma server_solo:
  assumes "sv_solo (Suc n) x s" "q \<noteq> []" "ExecFunc p q (sv_rpc s) = (Inr d, o')" "idle (rsp_serializer o')"
  shows "\<exists>s'. server_run p [d1, (x, envelope q) # as, d3, d4] s = (Inr (), s') \<and> sv_rpc s' = o' \<and> sv_solo n x s'
    \<and> rep_out x (sv_socket s') = rep_out x (sv_socket s) @ envelope d"
proof -
  obtain r where r: "sv_responder s = Some r" "resp_listening r" "comm_ok (sv_comm s)" "rep_solo (Suc n) x (resp_socket r)"
    using assms(1) by (auto simp: sv_solo_def sv_listening_def sv_socket_def)
  obtain r' where r': "run_respond (process p) [d1, (x, envelope q) # as, d3, d4] (r, sv_rpc s) = (Inr (), (r', o'))"
    "resp_listening r'" "rep_solo n x (resp_socket r')" "rep_out x (resp_socket r') = rep_out x (resp_socket r) @ envelope d"
    using run_respond_solo [of r n x q "process p" "sv_rpc s" d o' d1 "as" d3 d4] r(2,4) assms(2,3)
    unfolding process_def by blast
  have "rsp_responder o' = rsp_responder (sv_rpc s)"
    using ExecFunc_keeps_responder [OF assms(3)] by simp
  then show ?thesis
    using r r' assms(4) comm_ok_upd_responder [of "sv_comm s" "rsp_responder (sv_rpc s)" r r']
    by (auto simp: server_run_def sv_responder_def Let_def sv_listening_def sv_socket_def sv_solo_def simp del: run_respond.simps)
qed

text \<open>From \<open>StartProcess\<close> to there: the thread leaves its spin lock and a peer connects.\<close>

definition server_accept :: "pipe_id \<Rightarrow> bytes \<Rightarrow> 's server \<Rightarrow> 's server" where
  "server_accept x rid s = (let v = rsp_responder (sv_rpc s) in
     case comm_responders (sv_comm s) v of None \<Rightarrow> s | Some r \<Rightarrow> put_responder v (resp_accept x rid r) s)"

lemma started_responder_accept:
  "\<exists>r. run_respond proc [d] (started_responder e, a) = (Inr (), (r, a)) \<and> resp_listening (resp_accept x rid r)
    \<and> rep_solo 1000 x (resp_socket (resp_accept x rid r)) \<and> rep_out x (resp_socket (resp_accept x rid r)) = []"
proof -
  let ?r = "(started_responder e)\<lparr>resp_worker := goto Check (resp_worker (started_responder e))\<rparr>"
  have step: "run_respond proc [d] (started_responder e, a) = (Inr (), (?r, a))"
    using started_responder_run(2,3) by (simp add: bindS_def respond_step_def worker_test_def goto_def)
  have room: "pipe_room 1000 (new_pipe (sint (o_rcvhwm options_init)) (sint (o_sndhwm options_init)))"
    by (simp add: pipe_room_def options_init_def)
  have "resp_accept x rid ?r = ?r\<lparr>resp_socket := (new_rep (e_rnd e))\<lparr>rp_router := router_attach_pipe x (set_pipe x
    ((new_pipe (sint (o_rcvhwm options_init)) (sint (o_sndhwm options_init)))\<lparr>p_in := [\<lparr>m_data = rid, m_more = False, m_kind = Routing_Id\<rparr>]\<rparr>) (new_router (e_rnd e)))\<rparr>\<rparr>"
    by (simp add: resp_accept_def started_responder_run Let_def new_rep_def)
  then have solo: "rep_solo 1000 x (resp_socket (resp_accept x rid ?r))" "resp_worker (resp_accept x rid ?r) = resp_worker ?r"
    using rep_solo_new [OF room, where x = x and rnd = "e_rnd e" and rid = rid] by simp_all
  have "rep_out x (resp_socket (resp_accept x rid ?r)) = []"
    by (cases "rid = []") (simp_all add: resp_accept_def started_responder_run Let_def rep_out_def new_rep_def new_router_def router_attach_pipe_def
        identify_peer_def pipe_read_def pipe_readable_def set_pipe_def set_routing_id_def add_out_pipe_def fresh_routing_id_def)
  moreover have "resp_listening (resp_accept x rid ?r)"
    using solo(2) started_responder_run(2) by (simp add: resp_listening_def ex_bool_eq)
  ultimately show ?thesis using step solo(1) by blast
qed

lemma server_started_solo:
  assumes "comm_ok (sv_comm s)" "sv_responder s = Some (started_responder e)" "idle (rsp_serializer (sv_rpc s))"
  shows "\<exists>s'. server_run p [d1] s = (Inr (), s') \<and> sv_rpc s' = sv_rpc s \<and> sv_solo 1000 x (server_accept x rid s')
    \<and> sv_rpc (server_accept x rid s') = sv_rpc s \<and> rep_out x (sv_socket (server_accept x rid s')) = []"
proof -
  obtain r where r: "run_respond (process p) [d1] (started_responder e, sv_rpc s) = (Inr (), (r, sv_rpc s))"
    "resp_listening (resp_accept x rid r)" "rep_solo 1000 x (resp_socket (resp_accept x rid r))"
    "rep_out x (resp_socket (resp_accept x rid r)) = []"
    using started_responder_accept [of "process p" d1 e "sv_rpc s" x rid] by blast
  then show ?thesis
    using assms comm_ok_upd_responder [of "sv_comm s" "rsp_responder (sv_rpc s)" "started_responder e"]
    by (auto simp: server_run_def sv_responder_def Let_def sv_listening_def sv_socket_def sv_solo_def server_accept_def
        simp del: run_respond.simps)
qed

end
