(* ===== verification/RpcSystem.thy ===== *)
theory RpcSystem
  imports RpcServer
begin

text \<open>
  A client (\<open>RpcClient\<close>) and a server (\<open>RpcServer\<close>) joined by a network that delivers in order:
  what a remote call amounts to. The abstract specification is \<open>local_call\<close>, the call of the
  bound function in the server's own address space; \<open>remote_calls_refine\<close> says that a sequence of
  remote calls returns what the sequence of local calls returns and leaves the application in
  the same state. The client drives pipe 0 of its requester, the server knows it as its pipe \<open>x\<close>.
\<close>

type_synonym rpc_call = "cty option \<times> string \<times> cval list"

section \<open>The specification\<close>

definition local_call :: "(string \<Rightarrow> 's callee option) \<Rightarrow> rpc_call \<Rightarrow> ('s, fault, RpcCallError \<times> cval) smon" where
  "local_call rpcs = (\<lambda>(Retv, name, args) app.
     case rpcs name of
       None \<Rightarrow> (Inr (FunctionNotFound, default_val (RpcReturnType Retv)), app)
     | Some f \<Rightarrow> (case fn_body (callee_fn f) args app of
         (Inl msg, app') \<Rightarrow> (Inl (User_Exception msg), app')
       | (Inr v, app') \<Rightarrow> (Inr (Success, fn_result (callee_fn f) v), app')))"

definition local_calls where
  "local_calls rpcs ks = seqS (map (local_call rpcs) ks)"

section \<open>The network\<close>

text \<open>The frames a call puts on the wire before it waits: those of the run in which nothing arrives
  (the reconnection that would follow is switched off, it hides them).\<close>

definition frames_sent :: "platform \<Rightarrow> env \<Rightarrow> rpc_call \<Rightarrow> client \<Rightarrow> msg_t list" where
  "frames_sent p e = (\<lambda>(Retv, name, args) c.
     drop (length (cl_sent c)) (cl_sent (snd (CallFunc p e [] Retv name args (snd (SetAutoReconnectNetwork False c))))))"

definition frames_out :: "pipe_id \<Rightarrow> 's server \<Rightarrow> 's server \<Rightarrow> msg_t list" where
  "frames_out x s s' = drop (length (rep_out x (sv_socket s))) (rep_out x (sv_socket s'))"

text \<open>The server's thread takes one round: test, receive, run, reply.\<close>

definition remote_call ::
  "platform \<Rightarrow> platform \<Rightarrow> env \<Rightarrow> pipe_id \<Rightarrow> rpc_call \<Rightarrow> (client \<times> 's server, fault, RpcCallError \<times> cval) smon" where
  "remote_call p q e x k = (\<lambda>(c, s).
     case server_run q [[], [(x, frames_sent p e k c)], [], []] s of
       (Inl f, s') \<Rightarrow> (Inl f, (c, s'))
     | (Inr _, s') \<Rightarrow>
        (case k of (Retv, name, args) \<Rightarrow>
         (case CallFunc p e [(0, frames_out x s s')] Retv name args c of (res, c') \<Rightarrow> (res, (c', s')))))"

definition remote_calls where
  "remote_calls p q e x ks = seqS (map (remote_call p q e x) ks)"

section \<open>Well-typed calls\<close>

text \<open>The client agrees with the table on the types of the function it names. A function of the table
  returns values of its type that have at least one byte.\<close>

definition call_ok :: "(string \<Rightarrow> 's callee option) \<Rightarrow> rpc_call \<Rightarrow> bool" where
  "call_ok rpcs = (\<lambda>(Retv, name, args). length name < 2 ^ 64 \<and>
     (case rpcs name of None \<Rightarrow> (\<exists>ts. list_all2 has_type ts args)
      | Some f \<Rightarrow> Retv = fn_ret (callee_fn f) \<and> list_all2 has_type (fn_params (callee_fn f)) args))"

definition fn_ok :: "bool \<Rightarrow> 's rpc_fn \<Rightarrow> bool" where
  "fn_ok w f \<longleftrightarrow> (\<forall>args app v app'. list_all2 has_type (fn_params f) args \<longrightarrow> fn_body f args app = (Inr v, app') \<longrightarrow>
     has_type (RpcReturnType (fn_ret f)) (fn_result f v) \<and> enc w (fn_result f v) \<noteq> [])"

definition table_ok :: "bool \<Rightarrow> (string \<Rightarrow> 's callee option) \<Rightarrow> bool" where
  "table_ok w rpcs \<longleftrightarrow> (\<forall>name f. rpcs name = Some f \<longrightarrow> fn_ok w (callee_fn f))"

lemma result_value_fn [simp]: "result_value (fn_ret f) (fn_result f v) = fn_result f v"
  by (auto simp: result_value_def fn_result_def)

section \<open>One call\<close>

text \<open>What the server makes of a request, and the client of the reply to it.\<close>

lemma ExecFunc_local:
  assumes "call_ok (rsp_rpcs st) (Retv, name, args)" "table_ok (plat_le q) (rsp_rpcs st)"
    and "local_call (rsp_rpcs st) (Retv, name, args) (rsp_app st) = (Inr res, app')"
  shows "\<exists>d. ExecFunc q (frame w name [VTuple args] @ junk) st = (Inr d, st\<lparr>rsp_app := app', rsp_serializer := ss_set_str []\<rparr>)
    \<and> d \<noteq> [] \<and> (\<forall>p c. read_reply p Retv name d c = (Inr res, cl_reset c))"
proof (cases "rsp_rpcs st name")
  case None
  have n: "length name < 2 ^ 64" using assms(1) by (simp add: call_ok_def)
  let ?d = "frame (plat_le q) name [ret_val RC_FunctionNotFound (VArith (A8 0))]"
  have "ExecFunc q (frame w name [VTuple args] @ junk) st = (Inr ?d, st\<lparr>rsp_serializer := ss_set_str []\<rparr>)"
    by (rule ExecFunc_unbound [OF None n])
  moreover have "mem_repr (plat_le q) (A8 0) \<noteq> []"
    using length_mem_repr [of "plat_le q" "A8 0"] by force
  then have "read_reply p Retv name ?d c = (Inr (FunctionNotFound, default_val (RpcReturnType Retv)), cl_reset c)" for p c
    using read_reply_not_found [OF n, of "plat_le q" "VArith (A8 0)" p Retv "[]" c] by simp
  ultimately show ?thesis
    using assms(3) None by (intro exI [of _ ?d]) (auto simp: local_call_def)
next
  case (Some f)
  let ?f = "callee_fn f"
  have t: "length name < 2 ^ 64" "Retv = fn_ret ?f" "list_all2 has_type (fn_params ?f) args"
    using assms(1) Some by (auto simp: call_ok_def)
  obtain v where v: "fn_body ?f args (rsp_app st) = (Inr v, app')" "res = (Success, fn_result ?f v)"
    using assms(3) Some by (auto simp: local_call_def split: prod.splits sum.splits)
  have ok: "has_type (RpcReturnType (fn_ret ?f)) (fn_result ?f v)" "enc (plat_le q) (fn_result ?f v) \<noteq> []"
    using assms(2) Some t(3) v(1) unfolding table_ok_def fn_ok_def by blast+
  let ?d = "frame (plat_le q) name [ret_val RC_Success (fn_result ?f v)]"
  have "returns ?f args (rsp_app st) v app'" using v(1) ok(1) by (simp add: returns_def)
  then have "ExecFunc q (frame w name [VTuple args] @ junk) st = (Inr ?d, st\<lparr>rsp_app := app', rsp_serializer := ss_set_str []\<rparr>)"
    by (rule ExecFunc_bound [OF Some t(1,3)])
  moreover have "read_reply p Retv name ?d c = (Inr res, cl_reset c)" for p c
    using read_reply_success [OF t(1) ok, of RC_Success p "[]" c] by (simp add: t(2) v(2) RC_Success_def RC_FunctionNotFound_def)
  ultimately show ?thesis by (intro exI [of _ ?d]) simp
qed

lemma frames_sent_envelope:
  assumes "cl_ready (Suc n) c" "length name < 2 ^ 64" "list_all2 has_type ts args"
  shows "frames_sent p e (Retv, name, args) c = envelope (request_bytes p name args c)"
proof -
  let ?c = "snd (SetAutoReconnectNetwork False c)"
  have c: "cl_ready (Suc n) ?c" "cl_sent ?c = cl_sent c" "request_bytes p name args ?c = request_bytes p name args c"
    "\<not> rpq_autoReconnectNetwork (cl_rpc ?c)"
    using assms(1)
    by (simp_all add: SetAutoReconnectNetwork_def cl_ready_def cl_requester_def cl_sent_def request_bytes_def)
  obtain r' where "CallFunc p e [] Retv name args ?c
      = bindS (retS ()) (\<lambda>_. retS (NetworkTimeout, default_val (RpcReturnType Retv))) (with_requester r' (cl_reset ?c))"
    "req_sent r' = cl_sent c @ envelope (request_bytes p name args c)"
    using CallFunc_timeout_parts [OF c(1) assms(2,3), of p e Retv] c(2-4) by auto
  then show ?thesis by (simp add: frames_sent_def)
qed

lemma remote_call_local:
  assumes "cl_ready (Suc n) c" "sv_solo (Suc n) x s"
    and "call_ok (rsp_rpcs (sv_rpc s)) k" "table_ok (plat_le q) (rsp_rpcs (sv_rpc s))"
    and "local_call (rsp_rpcs (sv_rpc s)) k (rsp_app (sv_rpc s)) = (Inr res, app')"
  shows "\<exists>c' s'. remote_call p q e x k (c, s) = (Inr res, (c', s')) \<and> cl_ready n c' \<and> sv_solo n x s'
    \<and> rsp_rpcs (sv_rpc s') = rsp_rpcs (sv_rpc s) \<and> rsp_app (sv_rpc s') = app'"
proof -
  obtain Retv name args where k: "k = (Retv, name, args)" by (cases k)
  have n: "length name < 2 ^ 64" using assms(3) by (simp add: k call_ok_def)
  obtain ts where ts: "list_all2 has_type ts args"
    using assms(3) by (auto simp: k call_ok_def split: option.splits)
  let ?q = "request_bytes p name args c"
  let ?o = "(sv_rpc s)\<lparr>rsp_app := app', rsp_serializer := ss_set_str []\<rparr>"
  obtain d where d: "ExecFunc q ?q (sv_rpc s) = (Inr d, ?o)" "d \<noteq> []"
    "\<And>p c. read_reply p Retv name d c = (Inr res, cl_reset c)"
    using ExecFunc_local [of "sv_rpc s" Retv name args q res app'] assms(3-5) unfolding k request_bytes_def by blast
  have sent: "frames_sent p e k c = envelope ?q"
    unfolding k by (rule frames_sent_envelope [OF assms(1) n ts])
  obtain s' where s': "server_run q [[], [(x, envelope ?q)], [], []] s = (Inr (), s')" "sv_rpc s' = ?o" "sv_solo n x s'"
    "rep_out x (sv_socket s') = rep_out x (sv_socket s) @ envelope d"
    using server_solo [OF assms(2) _ d(1), of "[]" "[]"] by (auto simp: request_bytes_def)
  have out: "(0, frames_out x s s') = reply_arrives d"
    by (simp add: frames_out_def s'(4) reply_arrives_def)
  obtain c' where c': "CallFunc p e [reply_arrives d] Retv name args c = read_reply p Retv name d c'" "cl_ready n c'"
    using CallFunc_reply [OF assms(1) n ts d(2)] by blast
  have "remote_call p q e x k (c, s) = (Inr res, (cl_reset c', s'))"
    using s'(1) c'(1) d(3) out sent by (simp add: remote_call_def k)
  then show ?thesis
    using cl_ready_reset [OF c'(2)] s'(2,3) by auto
qed

section \<open>Sequences of calls\<close>

lemma remote_calls_local:
  assumes "cl_ready (length ks) c" "sv_solo (length ks) x s"
    and "\<forall>k \<in> set ks. call_ok (rsp_rpcs (sv_rpc s)) k" "table_ok (plat_le q) (rsp_rpcs (sv_rpc s))"
    and "local_calls (rsp_rpcs (sv_rpc s)) ks (rsp_app (sv_rpc s)) = (Inr results, app')"
  shows "\<exists>c' s'. remote_calls p q e x ks (c, s) = (Inr results, (c', s')) \<and> cl_ready 0 c' \<and> sv_solo 0 x s'
    \<and> rsp_app (sv_rpc s') = app'"
  using assms
proof (induction ks arbitrary: c s results)
  case Nil
  then show ?case by (auto simp: remote_calls_def local_calls_def)
next
  case (Cons k ks)
  let ?rpcs = "rsp_rpcs (sv_rpc s)"
  obtain res app1 rs where l: "local_call ?rpcs k (rsp_app (sv_rpc s)) = (Inr res, app1)"
    "seqS (map (local_call ?rpcs) ks) app1 = (Inr rs, app')" "results = res # rs"
    using Cons.prems(5) by (auto simp: local_calls_def elim!: bindS_eq_Inr)
  obtain c1 s1 where r: "remote_call p q e x k (c, s) = (Inr res, (c1, s1))" "cl_ready (length ks) c1" "sv_solo (length ks) x s1"
    "rsp_rpcs (sv_rpc s1) = ?rpcs" "rsp_app (sv_rpc s1) = app1"
    using remote_call_local [of "length ks" c x s k q res app1 p e] Cons.prems l(1) by auto
  obtain c2 s2 where "remote_calls p q e x ks (c1, s1) = (Inr rs, (c2, s2))" "cl_ready 0 c2" "sv_solo 0 x s2" "rsp_app (sv_rpc s2) = app'"
    using Cons.IH [OF r(2,3)] Cons.prems(3,4) l(2) r(4,5) by (auto simp: local_calls_def)
  then show ?case using r(1) l(3) by (auto simp: remote_calls_def bindS_def)
qed

text \<open>A whole session: the client connects, the server starts and accepts it, and up to 1000 calls
  follow, the bound being the high-water mark of a pipe whose peer acknowledges nothing.\<close>

lemma pipe_room_le: "pipe_room n p \<Longrightarrow> m \<le> n \<Longrightarrow> pipe_room m p"
  by (auto simp: pipe_room_def)

lemma cl_ready_le: "cl_ready n c \<Longrightarrow> m \<le> n \<Longrightarrow> cl_ready m c"
  using pipe_room_le by (auto simp: cl_ready_def req_ready_def req_room_def)

lemma sv_solo_le: "sv_solo n x s \<Longrightarrow> m \<le> n \<Longrightarrow> sv_solo m x s"
  using pipe_room_le by (auto simp: sv_solo_def rep_solo_def Let_def)

lemma session_local:
  assumes "comm_ok (cl_comm c0)" "fresh_alloc e (cl_comm c0)" "IsInstInvalid (rpq_requester (cl_rpc c0))"
    "idle (rpq_serializer (cl_rpc c0))" "e_connects e (''tcp://'' @ address ip port)"
    and "comm_ok (sv_comm s0)" "fresh_alloc e' (sv_comm s0)" "IsInstInvalid (rsp_responder (sv_rpc s0))"
    "idle (rsp_serializer (sv_rpc s0))" "e_binds e' (''tcp://'' @ address ip port)"
    and "length ks \<le> 1000" "\<forall>k \<in> set ks. call_ok (rsp_rpcs (sv_rpc s0)) k" "table_ok (plat_le q) (rsp_rpcs (sv_rpc s0))"
    and "local_calls (rsp_rpcs (sv_rpc s0)) ks (rsp_app (sv_rpc s0)) = (Inr results, app')"
  shows "\<exists>c s s1 c' s'. ConnectNetwork p e ip port c0 = (Inr True, c) \<and> StartProcess q e' ip port s0 = (Inr True, s)
    \<and> server_run q [[]] s = (Inr (), s1) \<and> remote_calls p q er x ks (c, server_accept x rid s1) = (Inr results, (c', s'))
    \<and> rsp_app (sv_rpc s') = app'"
proof -
  obtain c where c: "ConnectNetwork p e ip port c0 = (Inr True, c)" "cl_ready 1000 c"
    using ConnectNetwork_good [OF assms(1-3,5,4)] by blast
  obtain s where s: "StartProcess q e' ip port s0 = (Inr True, s)" "comm_ok (sv_comm s)" "sv_responder s = Some (started_responder e')"
    "sv_rpc s = (sv_rpc s0)\<lparr>rsp_responder := e_alloc e'\<rparr>"
    using StartProcess_good [OF assms(6-8,10)] by blast
  have "idle (rsp_serializer (sv_rpc s))" using s(4) assms(9) by simp
  then obtain s1 where s1: "server_run q [[]] s = (Inr (), s1)" "sv_solo 1000 x (server_accept x rid s1)"
    "sv_rpc (server_accept x rid s1) = sv_rpc s"
    using server_started_solo [OF s(2,3)] by blast
  have r: "rsp_rpcs (sv_rpc (server_accept x rid s1)) = rsp_rpcs (sv_rpc s0)" "rsp_app (sv_rpc (server_accept x rid s1)) = rsp_app (sv_rpc s0)"
    using s1(3) s(4) by simp_all
  show ?thesis
    using remote_calls_local [OF cl_ready_le [OF c(2) assms(11)] sv_solo_le [OF s1(2) assms(11)], of q results app' p er]
      assms(12-14) c(1) s(1) s1(1) r by auto
qed

end
