(* ===== verification/ZmqSubOps.thy ===== *)
theory ZmqSubOps
  imports ZmqSub
begin

text \<open>
  What a subscription call does to a SUB socket (\<open>ZmqSub\<close>): to the set of its subscriptions, and
  not to what it is receiving. The remaining operations of \<open>xsub.cpp\<close> and \<open>sub.cpp\<close>.
\<close>

section \<open>Sending leaves the inbound side alone\<close>

definition same_inbound :: "pipe_t \<Rightarrow> pipe_t \<Rightarrow> bool" where
  "same_inbound p p' \<longleftrightarrow> p_in p' = p_in p \<and> p_in_active p' = p_in_active p \<and> p_state p' = p_state p"

lemma same_inbound_refl [simp]: "same_inbound p p"
  by (simp add: same_inbound_def)

lemma same_inbound_trans: "same_inbound p q \<Longrightarrow> same_inbound q r \<Longrightarrow> same_inbound p r"
  by (simp add: same_inbound_def)

lemma pipe_write_inbound: "same_inbound p (snd (pipe_write m p))"
  by (auto simp: same_inbound_def pipe_write_def pipe_check_write_def Let_def)

lemma pipe_flush_inbound: "same_inbound p (pipe_flush p)"
  by (auto simp: same_inbound_def pipe_flush_def Let_def)

lemma dist_write_inbound:
  "dist_write x m (d, h) = (b, d', h') \<Longrightarrow> same_inbound (h y) (h' y)"
  using pipe_write_inbound [of "h x" m] same_inbound_trans [OF pipe_write_inbound [of "h x" m] pipe_flush_inbound]
  by (auto simp: dist_write_def Let_def split: prod.splits bool.splits if_splits)

lemma dist_distribute_from_inbound:
  "dist_distribute_from n i m (d, h) = (d', h') \<Longrightarrow> same_inbound (h y) (h' y)"
proof (induction n arbitrary: i d h)
  case 0
  then show ?case by simp
next
  case (Suc n)
  obtain b d1 h1 where w: "dist_write (ds_pipes d ! i) m (d, h) = (b, d1, h1)" by (metis prod.collapse)
  then show ?case
    using Suc.prems Suc.IH [of _ d1 h1] same_inbound_trans [OF dist_write_inbound [OF w]] by (cases b) (auto split: if_splits)
qed

lemma xsub_send_all_keeps:
  "p = xs_heap s y \<Longrightarrow> same_inbound p (xs_heap (xsub_send_all m s) y)" "xs_fq (xsub_send_all m s) = xs_fq s"
  "xs_filter (xsub_send_all m s) = xs_filter s" "xs_invert_matching (xsub_send_all m s) = xs_invert_matching s"
  "xs_has_message (xsub_send_all m s) = xs_has_message s" "xs_more_recv (xsub_send_all m s) = xs_more_recv s"
  "xs_subscriptions (xsub_send_all m s) = xs_subscriptions s" "xs_more_send (xsub_send_all m s) = xs_more_send s"
  using dist_distribute_from_inbound
  by (auto simp: xsub_send_all_def dist_send_to_all_def dist_send_to_matching_def dist_distribute_def split: prod.splits)

section \<open>Subscribing and unsubscribing\<close>

definition same_receiving :: "xsub_t \<Rightarrow> xsub_t \<Rightarrow> bool" where
  "same_receiving s s' \<longleftrightarrow> xs_fq s' = xs_fq s \<and> (\<forall>y. same_inbound (xs_heap s y) (xs_heap s' y))
     \<and> xs_filter s' = xs_filter s \<and> xs_invert_matching s' = xs_invert_matching s \<and> xs_has_message s' = xs_has_message s
     \<and> xs_more_recv s' = xs_more_recv s"

lemma sub_peer_same: "same_receiving s s' \<Longrightarrow> sub_peer x s \<Longrightarrow> sub_peer x s'"
  by (simp add: same_receiving_def sub_peer_def same_inbound_def)

lemma sub_setsockopt_receiving: "same_receiving s (sub_setsockopt b topic s)"
  by (auto simp: same_receiving_def sub_setsockopt_def xsub_xsend_def subscription_msg_def xsub_send_all_keeps Let_def split: prod.splits)

text \<open>A socket that has only ever subscribed and unsubscribed.\<close>

definition sub_plain :: "xsub_t \<Rightarrow> bool" where
  "sub_plain s \<longleftrightarrow> \<not> xs_more_send s \<and> \<not> xs_only_first_subscribe s \<and> trie_ok (xs_subscriptions s)"

lemma sub_subscribe:
  assumes "sub_plain s"
  shows "xs_subscriptions (sub_setsockopt True topic s) = snd (trie_add topic (xs_subscriptions s))"
  using assms by (simp add: sub_plain_def sub_setsockopt_def xsub_xsend_def subscription_msg_def xsub_send_all_keeps Let_def)

lemma sub_subscribe_takes:
  assumes "sub_plain s" "\<And>p. subs (xs_subscriptions s) p + 1 \<noteq> 0"
  shows "sub_takes (sub_setsockopt True topic s) e \<longleftrightarrow> prefix topic e \<or> sub_takes s e"
proof -
  have "subs (xs_subscriptions (sub_setsockopt True topic s)) p \<noteq> 0 \<longleftrightarrow> p = topic \<or> subs (xs_subscriptions s) p \<noteq> 0" for p
  proof -
    have "subs (xs_subscriptions (sub_setsockopt True topic s)) = (subs (xs_subscriptions s))(topic := subs (xs_subscriptions s) topic + 1)"
      using assms(1) subs_add [of "xs_subscriptions s" topic] by (simp add: sub_subscribe sub_plain_def)
    then show ?thesis using assms(2) [of topic] by (cases "p = topic") simp_all
  qed
  then show ?thesis unfolding sub_takes_def by (simp only: conj_disj_distribL ex_disj_distrib) auto
qed

text \<open>A cancel message whose topic starts with the byte 1 is taken for a subscription by
  \<open>xsub_t::xsend\<close>: its test for the old message form comes first.\<close>

lemma sub_unsubscribe:
  assumes "sub_plain s"
  shows "xs_subscriptions (sub_setsockopt False topic s) =
    (case topic of c # cs \<Rightarrow> if char_num c = 1 then snd (trie_add cs (xs_subscriptions s))
                           else snd (trie_rm topic (xs_subscriptions s))
     | [] \<Rightarrow> snd (trie_rm topic (xs_subscriptions s)))"
  using assms
  by (cases topic) (auto simp: sub_plain_def sub_setsockopt_def xsub_xsend_def subscription_msg_def xsub_send_all_keeps Let_def split: prod.splits)

end
