(* ===== verification/RpcBroadcast.thy ===== *)
theory RpcBroadcast
  imports RpcServer ZmqSubOps
begin

text \<open>
  \<open>include/tmss/RpcAsyncBroadcast.hpp\<close>: a server that answers a call with a code only and publishes
  the request, which every node (the server included) then executes when it receives it. A node is
  the object and the registry of its process. Two threads of the node run next to its owner, the
  responder's (\<open>ResponseProcess\<close>) and the subscriber's (\<open>SubscribeProcess\<close>, \<open>procSubCb\<close>); their steps
  are events, so a list of events is an interleaving.
\<close>

datatype Role = Role_None | Server | Client

record 's RpcAsyncBroadcast =
  bc_counter :: "32 word"
  bc_callback :: "(32 word \<Rightarrow> ('s, string, unit) smon) option"
  bc_rpcs :: "string \<Rightarrow> 's callee option"
  bc_fsRep :: stringstream
  bc_fsSub :: stringstream
  bc_fsCfn :: stringstream
  bc_responder :: inst_value
  bc_requester :: inst_value
  bc_publisher :: inst_value
  bc_subscriber :: inst_value
  bc_role :: Role
  bc_addrReqRep :: string
  bc_addrPubSub :: string
  bc_app :: 's

record 's bnode =
  bn_comm :: communicator
  bn_obj :: "'s RpcAsyncBroadcast"

definition new_RpcAsyncBroadcast :: "'s \<Rightarrow> 's RpcAsyncBroadcast" where
  "new_RpcAsyncBroadcast app = \<lparr>bc_counter = 0, bc_callback = None, bc_rpcs = Map.empty, bc_fsRep = ss_set_str [],
     bc_fsSub = ss_set_str [], bc_fsCfn = ss_set_str [], bc_responder = ResetInstInvalid, bc_requester = ResetInstInvalid,
     bc_publisher = ResetInstInvalid, bc_subscriber = ResetInstInvalid, bc_role = Role_None, bc_addrReqRep = [],
     bc_addrPubSub = [], bc_app = app\<rparr>"

abbreviation on_bcomm :: "(communicator, fault, 'a) smon \<Rightarrow> ('s bnode, fault, 'a) smon" where
  "on_bcomm \<equiv> liftS bn_comm (\<lambda>m s. s\<lparr>bn_comm := m\<rparr>) id"

abbreviation set_obj :: "('s RpcAsyncBroadcast \<Rightarrow> 's RpcAsyncBroadcast) \<Rightarrow> ('s bnode, fault, unit) smon" where
  "set_obj f \<equiv> modifyS (\<lambda>s. s\<lparr>bn_obj := f (bn_obj s)\<rparr>)"

abbreviation on_fsRep :: "(stringstream, cereal_exn, 'a) smon \<Rightarrow> ('s bnode, fault, 'a) smon" where
  "on_fsRep \<equiv> liftS (\<lambda>s. bc_fsRep (bn_obj s)) (\<lambda>t s. s\<lparr>bn_obj := (bn_obj s)\<lparr>bc_fsRep := t\<rparr>\<rparr>) Cereal_Exception"

abbreviation on_fsSub :: "(stringstream, cereal_exn, 'a) smon \<Rightarrow> ('s bnode, fault, 'a) smon" where
  "on_fsSub \<equiv> liftS (\<lambda>s. bc_fsSub (bn_obj s)) (\<lambda>t s. s\<lparr>bn_obj := (bn_obj s)\<lparr>bc_fsSub := t\<rparr>\<rparr>) Cereal_Exception"

abbreviation on_fsCfn :: "(stringstream, cereal_exn, 'a) smon \<Rightarrow> ('s bnode, fault, 'a) smon" where
  "on_fsCfn \<equiv> liftS (\<lambda>s. bc_fsCfn (bn_obj s)) (\<lambda>t s. s\<lparr>bn_obj := (bn_obj s)\<lparr>bc_fsCfn := t\<rparr>\<rparr>) Cereal_Exception"

abbreviation on_app :: "('s, string, 'a) smon \<Rightarrow> ('s bnode, fault, 'a) smon" where
  "on_app \<equiv> liftS (\<lambda>s. bc_app (bn_obj s)) (\<lambda>t s. s\<lparr>bn_obj := (bn_obj s)\<lparr>bc_app := t\<rparr>\<rparr>) User_Exception"

text \<open>Calls through the instance pointers.\<close>

definition on_responder :: "inst_value \<Rightarrow> (responder, fault, 'a) smon \<Rightarrow> (communicator, fault, 'a) smon" where
  "on_responder v f = (\<lambda>m. case comm_responders m v of
     None \<Rightarrow> (Inl Null_Dereference, m)
   | Some r \<Rightarrow> (case f r of (res, r') \<Rightarrow> (res, m\<lparr>comm_responders := (comm_responders m)(v \<mapsto> r')\<rparr>)))"

definition on_subscriber :: "inst_value \<Rightarrow> (subscriber, fault, 'a) smon \<Rightarrow> (communicator, fault, 'a) smon" where
  "on_subscriber v f = (\<lambda>m. case comm_subscribers m v of
     None \<Rightarrow> (Inl Null_Dereference, m)
   | Some r \<Rightarrow> (case f r of (res, r') \<Rightarrow> (res, m\<lparr>comm_subscribers := (comm_subscribers m)(v \<mapsto> r')\<rparr>)))"

definition on_publisher :: "inst_value \<Rightarrow> (publisher, fault, 'a) smon \<Rightarrow> (communicator, fault, 'a) smon" where
  "on_publisher v f = (\<lambda>m. case comm_publishers m v of
     None \<Rightarrow> (Inl Null_Dereference, m)
   | Some r \<Rightarrow> (case f r of (res, r') \<Rightarrow> (res, m\<lparr>comm_publishers := (comm_publishers m)(v \<mapsto> r')\<rparr>)))"

definition pureS :: "('s \<Rightarrow> 'a \<times> 's) \<Rightarrow> ('s, 'e, 'a) smon" where
  "pureS f = (\<lambda>s. case f s of (x, s') \<Rightarrow> (Inr x, s'))"

section \<open>Binding and calling\<close>

definition Broadcast_BindFunc :: "string \<Rightarrow> 's callee \<Rightarrow> 's RpcAsyncBroadcast \<Rightarrow> 's RpcAsyncBroadcast" where
  "Broadcast_BindFunc name func b = b\<lparr>bc_rpcs := (bc_rpcs b)(name \<mapsto> func)\<rparr>"

definition Broadcast_BindFunc_member ::
  "string \<Rightarrow> (64 word \<Rightarrow> 's rpc_fn) \<Rightarrow> 64 word \<Rightarrow> 's RpcAsyncBroadcast \<Rightarrow> 's RpcAsyncBroadcast" where
  "Broadcast_BindFunc_member name func impl b = b\<lparr>bc_rpcs := (bc_rpcs b)(name \<mapsto> MemberPtr func impl)\<rparr>"

definition RegistReceiveTimeoutCallback ::
  "(32 word \<Rightarrow> ('s, string, unit) smon) \<Rightarrow> 's RpcAsyncBroadcast \<Rightarrow> 's RpcAsyncBroadcast" where
  "RegistReceiveTimeoutCallback callback b = b\<lparr>bc_callback := Some callback\<rparr>"

definition UnregistReceiveTimeoutCallback :: "'s RpcAsyncBroadcast \<Rightarrow> 's RpcAsyncBroadcast" where
  "UnregistReceiveTimeoutCallback b = b\<lparr>bc_callback := None\<rparr>"

text \<open>The code of an answer arrives as any byte.\<close>

definition broadcast_error :: "cval list \<Rightarrow> RpcCallError" where
  "broadcast_error vs = (case vs of
     [VArith (A8 c)] \<Rightarrow> if c = RC_Success then Success else if c = RC_FunctionNotFound then FunctionNotFound
       else FunctionNotFound
   | _ \<Rightarrow> FunctionNotFound)"

definition Broadcast_CallFunc ::
  "platform \<Rightarrow> env \<Rightarrow> deliveries \<Rightarrow> string \<Rightarrow> cval list \<Rightarrow> ('s bnode, fault, RpcCallError) smon" where
  "Broadcast_CallFunc p e arrivals name args =
     bindS (on_fsCfn (Serialize p name [VTuple args])) (\<lambda>request.
     bindS getS (\<lambda>s.
     bindS (on_bcomm (on_requester (bc_requester (bn_obj s)) (Request arrivals request []))) (\<lambda>(code, respond).
     case code of
       ReceiveTimeout \<Rightarrow>
         bindS (on_bcomm (DestroyInstance (MakeInstValue (bc_requester (bn_obj s))))) (\<lambda>_.
         bindS (set_obj (\<lambda>b. b\<lparr>bc_requester := ResetInstInvalid\<rparr>)) (\<lambda>_.
         bindS (on_bcomm (CreateRequester p e (bc_addrReqRep (bn_obj s)))) (\<lambda>v.
         bindS (set_obj (\<lambda>b. b\<lparr>bc_requester := v\<rparr>)) (\<lambda>_.
         bindS (on_bcomm (on_requester v (Requester_SetTimeout p RpcTimeout))) (\<lambda>_. retS NetworkTimeout)))))
     | CC_Success \<Rightarrow>
         bindS (on_fsCfn (Deserialize p respond [CArith T8])) (\<lambda>(retFuncName, retReturnCode).
         retS (if retFuncName \<noteq> name then FunctionNameMismatch else broadcast_error retReturnCode)))))"

section \<open>The callbacks of the threads\<close>

definition ResponseProcess :: "platform \<Rightarrow> bytes \<Rightarrow> ('s bnode, fault, bytes) smon" where
  "ResponseProcess p request =
     bindS (on_fsRep (Deserialize p request [])) (\<lambda>(funcName, _).
     bindS getS (\<lambda>s.
     case bc_rpcs (bn_obj s) funcName of
       Some _ \<Rightarrow>
         bindS (on_bcomm (on_publisher (bc_publisher (bn_obj s)) (Publish funcName request))) (\<lambda>_.
         on_fsRep (Serialize p funcName [VArith (A8 RC_Success)]))
     | None \<Rightarrow> on_fsRep (Serialize p funcName [VArith (A8 RC_FunctionNotFound)])))"

definition Broadcast_CallProxyImpl :: "platform \<Rightarrow> 's rpc_fn \<Rightarrow> bytes \<Rightarrow> ('s bnode, fault, unit) smon" where
  "Broadcast_CallProxyImpl p func data =
     bindS (on_fsSub (Deserialize p data [RpcFuncArgsWrapper (fn_params func)])) (\<lambda>(funcName, funcArgs).
     bindS (on_app (fn_body func (tuple_elems funcArgs))) (\<lambda>_. retS ()))"

fun Broadcast_CallProxy :: "platform \<Rightarrow> 's callee \<Rightarrow> bytes \<Rightarrow> ('s bnode, fault, unit) smon" where
  "Broadcast_CallProxy p (FuncPtr func) data = Broadcast_CallProxyImpl p func data"
| "Broadcast_CallProxy p (MemberPtr func impl) data = Broadcast_CallProxyImpl p (func impl) data"
| "Broadcast_CallProxy p (StdFunction func) data = Broadcast_CallProxyImpl p func data"

definition SubscribeProcess :: "platform \<Rightarrow> bytes \<Rightarrow> bytes \<Rightarrow> ('s bnode, fault, unit) smon" where
  "SubscribeProcess p env content =
     bindS getS (\<lambda>s.
     case bc_rpcs (bn_obj s) env of
       Some func \<Rightarrow> Broadcast_CallProxy p func content
     | None \<Rightarrow> retS ())"

definition procSubCb :: "bool \<Rightarrow> ('s bnode, fault, unit) smon" where
  "procSubCb receivedSuccess =
     bindS (set_obj (\<lambda>b. b\<lparr>bc_counter := if receivedSuccess then 0 else bc_counter b + 1\<rparr>)) (\<lambda>_.
     bindS getS (\<lambda>s.
     case bc_callback (bn_obj s) of
       Some callback \<Rightarrow> on_app (callback (bc_counter (bn_obj s)))
     | None \<Rightarrow> retS ()))"

section \<open>The threads\<close>

datatype bevent = Resp_Step deliveries | Sub_Step deliveries

definition put_bresponder :: "inst_value \<Rightarrow> responder \<Rightarrow> 's bnode \<Rightarrow> 's bnode" where
  "put_bresponder v r s = s\<lparr>bn_comm := (bn_comm s)\<lparr>comm_responders := (comm_responders (bn_comm s))(v \<mapsto> r)\<rparr>\<rparr>"

definition put_bsubscriber :: "inst_value \<Rightarrow> subscriber \<Rightarrow> 's bnode \<Rightarrow> 's bnode" where
  "put_bsubscriber v r s = s\<lparr>bn_comm := (bn_comm s)\<lparr>comm_subscribers := (comm_subscribers (bn_comm s))(v \<mapsto> r)\<rparr>\<rparr>"

fun bnode_step :: "platform \<Rightarrow> bevent \<Rightarrow> ('s bnode, fault, unit) smon" where
  "bnode_step p (Resp_Step d) s =
     (let v = bc_responder (bn_obj s) in
      case comm_responders (bn_comm s) v of
        None \<Rightarrow> (Inr (), s)
      | Some r \<Rightarrow> (case respond_step (ResponseProcess p) d (r, s) of (res, (r', s')) \<Rightarrow> (res, put_bresponder v r' s')))"
| "bnode_step p (Sub_Step d) s =
     (let v = bc_subscriber (bn_obj s) in
      case comm_subscribers (bn_comm s) v of
        None \<Rightarrow> (Inr (), s)
      | Some r \<Rightarrow> (case receive_step procSubCb (SubscribeProcess p) d (r, s) of (res, (r', s')) \<Rightarrow> (res, put_bsubscriber v r' s')))"

fun run_bnode :: "platform \<Rightarrow> bevent list \<Rightarrow> ('s bnode, fault, unit) smon" where
  "run_bnode p [] = retS ()"
| "run_bnode p (ev # evs) = bindS (bnode_step p ev) (\<lambda>_. run_bnode p evs)"

section \<open>Start and Stop\<close>

text \<open>What the allocator and the network answer to each of the four creations.\<close>

record start_env =
  se_publisher :: env
  se_responder :: env
  se_subscriber :: env
  se_requester :: env

definition start_server :: "platform \<Rightarrow> start_env \<Rightarrow> ('s bnode, fault, bool) smon" where
  "start_server p es =
     bindS getS (\<lambda>s.
     bindS (on_bcomm (CreatePublisher (se_publisher es) (bc_addrPubSub (bn_obj s)))) (\<lambda>v.
     bindS (set_obj (\<lambda>b. b\<lparr>bc_publisher := v\<rparr>)) (\<lambda>_.
     bindS (on_bcomm (CreateResponder p (se_responder es) (bc_addrReqRep (bn_obj s)))) (\<lambda>w.
     bindS (set_obj (\<lambda>b. b\<lparr>bc_responder := w\<rparr>)) (\<lambda>_.
     if IsInstInvalid w then retS False
     else bindS (on_bcomm (on_responder w (pureS StartResponse))) (\<lambda>started.
          retS (\<not> IsInstInvalid v \<and> started)))))))"

definition start_client :: "platform \<Rightarrow> start_env \<Rightarrow> ('s bnode, fault, bool) smon" where
  "start_client p es =
     bindS getS (\<lambda>s.
     bindS (on_bcomm (CreateSubscriber (se_subscriber es) (bc_addrPubSub (bn_obj s)))) (\<lambda>v.
     bindS (set_obj (\<lambda>b. b\<lparr>bc_subscriber := v\<rparr>)) (\<lambda>_.
     bindS (if IsInstInvalid v then retS False
            else bindS (on_bcomm (on_subscriber v (Subscriber_SetTimeout p RpcTimeout))) (\<lambda>timeout.
                 bindS (on_bcomm (on_subscriber v (pureS (\<lambda>r. ((), Subscribe [] r))))) (\<lambda>_.
                 bindS (on_bcomm (on_subscriber v (pureS StartReceive))) (\<lambda>started.
                 retS (timeout = RpcTimeout \<and> started))))) (\<lambda>sub_ok.
     bindS (on_bcomm (CreateRequester p (se_requester es) (bc_addrReqRep (bn_obj s)))) (\<lambda>w.
     bindS (set_obj (\<lambda>b. b\<lparr>bc_requester := w\<rparr>)) (\<lambda>_.
     if IsInstInvalid w then retS False
     else bindS (on_bcomm (on_requester w (Requester_SetTimeout p RpcTimeout))) (\<lambda>timeout.
          retS (sub_ok \<and> timeout = RpcTimeout))))))))"

definition Start :: "platform \<Rightarrow> start_env \<Rightarrow> Role \<Rightarrow> string \<Rightarrow> int \<Rightarrow> int \<Rightarrow> ('s bnode, fault, bool) smon" where
  "Start p es node ip callfunc broadcast = (\<lambda>s.
     if bc_role (bn_obj s) \<noteq> Role_None then (Inr False, s)
     else if node = Role_None then (Inr False, s)
     else
       bindS (set_obj (\<lambda>b. b\<lparr>bc_counter := 0, bc_role := node, bc_addrReqRep := address ip callfunc,
                bc_addrPubSub := address ip broadcast\<rparr>)) (\<lambda>_.
       bindS (if node = Server then start_server p es else retS True) (\<lambda>server_ok.
       bindS (start_client p es) (\<lambda>client_ok. retS (server_ok \<and> client_ok)))) s)"

text \<open>Stopping one thread: stop, wait, reset, as far as each succeeds. \<open>None\<close>: still waiting after these
  events.\<close>

definition stop_responder :: "platform \<Rightarrow> bevent list \<Rightarrow> 's bnode \<Rightarrow> ((fault + bool) \<times> 's bnode) option" where
  "stop_responder p evs s =
     (let v = bc_responder (bn_obj s) in
      case comm_responders (bn_comm s) v of
        None \<Rightarrow> Some (Inl Null_Dereference, s)
      | Some r \<Rightarrow>
     (case StopResponse r of
        (False, r1) \<Rightarrow> Some (Inr False, put_bresponder v r1 s)
      | (True, r1) \<Rightarrow>
     (case run_bnode p evs (put_bresponder v r1 s) of
        (Inl x, s2) \<Rightarrow> Some (Inl x, s2)
      | (Inr _, s2) \<Rightarrow>
     (case comm_responders (bn_comm s2) v of
        None \<Rightarrow> Some (Inl Null_Dereference, s2)
      | Some r2 \<Rightarrow>
     (case WaitResponse r2 of
        None \<Rightarrow> None
      | Some (False, r3) \<Rightarrow> Some (Inr False, put_bresponder v r3 s2)
      | Some (True, r3) \<Rightarrow> (case ResetResponse r3 of (res, r4) \<Rightarrow> Some (res, put_bresponder v r4 s2)))))))"

definition stop_subscriber :: "platform \<Rightarrow> bevent list \<Rightarrow> 's bnode \<Rightarrow> ((fault + bool) \<times> 's bnode) option" where
  "stop_subscriber p evs s =
     (let v = bc_subscriber (bn_obj s) in
      case comm_subscribers (bn_comm s) v of
        None \<Rightarrow> Some (Inl Null_Dereference, s)
      | Some r \<Rightarrow>
     (case StopReceive r of
        (False, r1) \<Rightarrow> Some (Inr False, put_bsubscriber v r1 s)
      | (True, r1) \<Rightarrow>
     (case run_bnode p evs (put_bsubscriber v r1 s) of
        (Inl x, s2) \<Rightarrow> Some (Inl x, s2)
      | (Inr _, s2) \<Rightarrow>
     (case comm_subscribers (bn_comm s2) v of
        None \<Rightarrow> Some (Inl Null_Dereference, s2)
      | Some r2 \<Rightarrow>
     (case WaitReceive r2 of
        None \<Rightarrow> None
      | Some (False, r3) \<Rightarrow> Some (Inr False, put_bsubscriber v r3 s2)
      | Some (True, r3) \<Rightarrow> (case ResetReceive r3 of (res, r4) \<Rightarrow> Some (res, put_bsubscriber v r4 s2)))))))"

definition destroy_inst ::
  "('s RpcAsyncBroadcast \<Rightarrow> inst_value) \<Rightarrow> ('s RpcAsyncBroadcast \<Rightarrow> 's RpcAsyncBroadcast) \<Rightarrow> ('s bnode, fault, unit) smon" where
  "destroy_inst inst clear = (\<lambda>s.
     if IsInstInvalid (inst (bn_obj s)) then (Inr (), s)
     else bindS (on_bcomm (DestroyInstance (MakeInstValue (inst (bn_obj s))))) (\<lambda>_. set_obj clear) s)"

definition Stop :: "platform \<Rightarrow> bevent list \<Rightarrow> bevent list \<Rightarrow> 's bnode \<Rightarrow> ((fault + bool) \<times> 's bnode) option" where
  "Stop p evs1 evs2 s =
     (if bc_role (bn_obj s) = Role_None then Some (Inr False, s)
      else
     case (if IsInstInvalid (bc_responder (bn_obj s)) then Some (Inr True, s) else stop_responder p evs1 s) of
       None \<Rightarrow> None
     | Some (Inl x, s1) \<Rightarrow> Some (Inl x, s1)
     | Some (Inr resp_ok, s1) \<Rightarrow>
     (case (if IsInstInvalid (bc_subscriber (bn_obj s1)) then Some (Inr True, s1) else stop_subscriber p evs2 s1) of
       None \<Rightarrow> None
     | Some (Inl x, s2) \<Rightarrow> Some (Inl x, s2)
     | Some (Inr sub_ok, s2) \<Rightarrow>
         Some (bindS (destroy_inst bc_responder (\<lambda>b. b\<lparr>bc_responder := ResetInstInvalid\<rparr>)) (\<lambda>_.
               bindS (destroy_inst bc_requester (\<lambda>b. b\<lparr>bc_requester := ResetInstInvalid\<rparr>)) (\<lambda>_.
               bindS (destroy_inst bc_publisher (\<lambda>b. b\<lparr>bc_publisher := ResetInstInvalid\<rparr>)) (\<lambda>_.
               bindS (destroy_inst bc_subscriber (\<lambda>b. b\<lparr>bc_subscriber := ResetInstInvalid\<rparr>)) (\<lambda>_.
               bindS (set_obj (\<lambda>b. b\<lparr>bc_role := Role_None, bc_addrReqRep := [], bc_addrPubSub := []\<rparr>)) (\<lambda>_.
               retS (resp_ok \<and> sub_ok)))))) s2)))"

section \<open>What the callbacks do\<close>

definition bn_publisher :: "'s bnode \<Rightarrow> publisher option" where
  "bn_publisher s = comm_publishers (bn_comm s) (bc_publisher (bn_obj s))"

definition bn_responder :: "'s bnode \<Rightarrow> responder option" where
  "bn_responder s = comm_responders (bn_comm s) (bc_responder (bn_obj s))"

definition bn_subscriber :: "'s bnode \<Rightarrow> subscriber option" where
  "bn_subscriber s = comm_subscribers (bn_comm s) (bc_subscriber (bn_obj s))"

definition bn_requester :: "'s bnode \<Rightarrow> requester option" where
  "bn_requester s = comm_requesters (bn_comm s) (bc_requester (bn_obj s))"

lemma wf_code_frame: "length name < 2 ^ 64 \<Longrightarrow> wf_call name [CArith T8] [VArith (A8 c)]"
  by (simp add: wf_call_def)

lemma Serialize_code:
  "length name < 2 ^ 64 \<Longrightarrow> Serialize p name [VArith (A8 c)] (ss_set_str [])
     = (Inr (frame (plat_le p) name [VArith (A8 c)]), ss_set_str [])"
  using Serialize_frame [OF idle_reset [of "[]"] wf_code_frame [of name c]] by (simp add: ss_set_str_def)

lemma Deserialize_name:
  "length name < 2 ^ 64 \<Longrightarrow> Deserialize p (frame w name vs @ junk) [] ss = (Inr (name, []), ss_set_str [])"
  using Deserialize_frame [of name "[]" "[]" p w "concat (map (enc w) vs) @ junk"]
  by (simp add: frame_def wf_call_def)

text \<open>A request for a bound name: it is published, unread and as a whole, under the name, to exactly the
  subscribers of it; nothing is executed; the answer is a code.\<close>

lemma ResponseProcess_bound:
  assumes "bc_rpcs (bn_obj s) name = Some f" "length name < 2 ^ 64" "bn_publisher s = Some r" "pub_ok (pub_socket r)"
  shows "\<exists>s' r'. ResponseProcess p (frame w name vs @ junk) s = (Inr (frame (plat_le p) name [VArith (A8 RC_Success)]), s')
    \<and> bn_obj s' = (bn_obj s)\<lparr>bc_fsRep := ss_set_str []\<rparr> \<and> comm_responders (bn_comm s') = comm_responders (bn_comm s)
    \<and> bn_publisher s' = Some r' \<and> pub_ok (pub_socket r') \<and> xp_subscriptions (pub_socket r') = xp_subscriptions (pub_socket r)
    \<and> (\<forall>x. pub_out x (pub_socket r') = pub_out x (pub_socket r) @
        (if x \<in> pub_subscribed (pub_socket r) name \<and> pipe_open (xp_heap (pub_socket r) x)
         then [mk_msg name True, mk_msg (frame w name vs @ junk) False] else []))"
proof -
  let ?q = "frame w name vs @ junk"
  obtain r' where r': "Publish name ?q r = (Inr (), r')" "pub_ok (pub_socket r')"
    "xp_subscriptions (pub_socket r') = xp_subscriptions (pub_socket r)"
    "\<And>x. pub_out x (pub_socket r') = pub_out x (pub_socket r) @
       (if x \<in> pub_subscribed (pub_socket r) name \<and> pipe_open (xp_heap (pub_socket r) x)
        then [mk_msg name True, mk_msg ?q False] else [])"
    using Publish_pair [OF assms(4), of name ?q] by blast
  show ?thesis
    using assms(1,3) r'
    by (simp add: ResponseProcess_def bindS_def liftS_def Deserialize_name [OF assms(2)] Serialize_code [OF assms(2)]
        on_publisher_def bn_publisher_def)
qed

lemma ResponseProcess_unbound:
  assumes "bc_rpcs (bn_obj s) name = None" "length name < 2 ^ 64"
  shows "ResponseProcess p (frame w name vs @ junk) s =
    (Inr (frame (plat_le p) name [VArith (A8 RC_FunctionNotFound)]), s\<lparr>bn_obj := (bn_obj s)\<lparr>bc_fsRep := ss_set_str []\<rparr>\<rparr>)"
  using assms(1)
  by (simp add: ResponseProcess_def bindS_def liftS_def Deserialize_name [OF assms(2)] Serialize_code [OF assms(2)])

text \<open>Without a publisher the request of a bound name dereferences a null pointer in the responder's thread.\<close>

lemma ResponseProcess_no_publisher:
  assumes "bc_rpcs (bn_obj s) name = Some f" "length name < 2 ^ 64" "bn_publisher s = None"
  shows "fst (ResponseProcess p (frame w name vs @ junk) s) = Inl Null_Dereference"
  using assms(1,3)
  by (simp add: ResponseProcess_def bindS_def liftS_def Deserialize_name [OF assms(2)] on_publisher_def bn_publisher_def)

lemma Broadcast_CallProxy_fn: "Broadcast_CallProxy p c data = Broadcast_CallProxyImpl p (callee_fn c) data"
  by (cases c) auto

text \<open>A published request executes the function bound under its envelope, once.\<close>

lemma SubscribeProcess_bound:
  assumes "bc_rpcs (bn_obj s) name = Some f" "length name < 2 ^ 64" "list_all2 has_type (fn_params (callee_fn f)) args"
    and "fn_body (callee_fn f) args (bc_app (bn_obj s)) = (Inr v, app')"
  shows "SubscribeProcess p name (frame w name [VTuple args] @ junk) s
    = (Inr (), s\<lparr>bn_obj := (bn_obj s)\<lparr>bc_fsSub := ss_set_str [], bc_app := app'\<rparr>\<rparr>)"
proof -
  have "Deserialize p (frame w name [VTuple args] @ junk) [RpcFuncArgsWrapper (fn_params (callee_fn f))] (bc_fsSub (bn_obj s))
      = (Inr (name, [VTuple args]), ss_set_str [])"
    using assms(2,3) by (intro Deserialize_frame wf_args_frame)
  then show ?thesis
    using assms(1,4)
    by (simp add: SubscribeProcess_def Broadcast_CallProxy_fn Broadcast_CallProxyImpl_def bindS_def liftS_def)
qed

lemma SubscribeProcess_unbound:
  "bc_rpcs (bn_obj s) name = None \<Longrightarrow> SubscribeProcess p name content s = (Inr (), s)"
  by (simp add: SubscribeProcess_def)

lemma procSubCb_silent:
  "bc_callback (bn_obj s) = None \<Longrightarrow>
    procSubCb ok s = (Inr (), s\<lparr>bn_obj := (bn_obj s)\<lparr>bc_counter := if ok then 0 else bc_counter (bn_obj s) + 1\<rparr>\<rparr>)"
  by (simp add: procSubCb_def)

lemma procSubCb_callback:
  "bc_callback (bn_obj s) = Some cb \<Longrightarrow> cb (if ok then 0 else bc_counter (bn_obj s) + 1) (bc_app (bn_obj s)) = (Inr (), app') \<Longrightarrow>
    procSubCb ok s = (Inr (), s\<lparr>bn_obj := (bn_obj s)\<lparr>bc_counter := if ok then 0 else bc_counter (bn_obj s) + 1, bc_app := app'\<rparr>\<rparr>)"
  by (simp add: procSubCb_def liftS_def)

section \<open>The threads, one round at a time\<close>

text \<open>An operation that neither reads nor writes what \<open>g\<close> changes.\<close>

definition commutes :: "('a \<Rightarrow> 'a) \<Rightarrow> ('a, 'e, 'b) smon \<Rightarrow> bool" where
  "commutes g f \<longleftrightarrow> (\<forall>a res a'. f a = (res, a') \<longrightarrow> f (g a) = (res, g a'))"

named_theorems commutes_intros "operations that commute with a change of the state"

lemma commutesD: "commutes g f \<Longrightarrow> f a = (res, a') \<Longrightarrow> f (g a) = (res, g a')"
  by (simp add: commutes_def)

lemma commutes_retS [commutes_intros]: "commutes g (retS x)"
  by (simp add: commutes_def)

lemma commutes_modifyS [commutes_intros]: "(\<And>a. h (g a) = g (h a)) \<Longrightarrow> commutes g (modifyS h)"
  by (simp add: commutes_def)

lemma commutes_bindS [commutes_intros]:
  assumes "commutes g f" "\<And>x. commutes g (h x)"
  shows "commutes g (bindS f h)"
  unfolding commutes_def
proof (intro allI impI)
  fix a res a' assume r: "bindS f h a = (res, a')"
  obtain res1 a1 where f: "f a = (res1, a1)" by fastforce
  then show "bindS f h (g a) = (res, g a')"
    using r commutesD [OF assms(1) f] commutesD [OF assms(2)] by (cases res1) (auto simp: bindS_def)
qed

lemma commutes_getS [commutes_intros]:
  assumes "\<And>a. h (g a) = h a" "\<And>a. commutes g (h a)"
  shows "commutes g (bindS getS h)"
  using assms by (simp add: commutes_def)

lemma commutes_liftS [commutes_intros]:
  assumes "\<And>a. prj (g a) = prj a" "\<And>t a. upd t (g a) = g (upd t a)"
  shows "commutes g (liftS prj upd exc m)"
  using assms by (auto simp: commutes_def liftS_def split: prod.splits sum.splits)

lemma respond_step_commutes:
  assumes "\<And>q. commutes g (proc q)"
  shows "commutes (\<lambda>(r, a). (r, g a)) (respond_step proc d)"
  by (auto simp: commutes_def respond_step_def Let_def dest: commutesD [OF assms]
      split: option.splits wpc.splits resp_job.splits prod.splits sum.splits)

lemma run_respond_commutes:
  assumes "\<And>q. commutes g (proc q)"
  shows "commutes (\<lambda>(r, a). (r, g a)) (run_respond proc ds)"
proof (induction ds)
  case Nil
  show ?case unfolding run_respond.simps by (rule commutes_retS)
next
  case (Cons d ds)
  show ?case unfolding run_respond.simps
    by (rule commutes_bindS [OF respond_step_commutes [OF assms] Cons.IH])
qed

lemma receive_step_commutes:
  assumes "\<And>b. commutes g (callback b)" "\<And>e c. commutes g (proc e c)"
  shows "commutes (\<lambda>(r, a). (r, g a)) (receive_step callback proc d)"
  by (auto simp: commutes_def receive_step_def Let_def dest: commutesD [OF assms(1)] commutesD [OF assms(2)]
      split: option.splits wpc.splits sub_job.splits prod.splits sum.splits)

lemma run_receive_commutes:
  assumes "\<And>b. commutes g (callback b)" "\<And>e c. commutes g (proc e c)"
  shows "commutes (\<lambda>(r, a). (r, g a)) (run_receive callback proc ds)"
proof (induction ds)
  case Nil
  show ?case unfolding run_receive.simps by (rule commutes_retS)
next
  case (Cons d ds)
  show ?case unfolding run_receive.simps
    by (rule commutes_bindS [OF receive_step_commutes [OF assms] Cons.IH])
qed

text \<open>The callbacks work on the node their thread belongs to, but not on the thread's own record in the
  registry.\<close>

lemma put_bresponder_sel [simp]:
  "bn_obj (put_bresponder v r s) = bn_obj s" "comm_publishers (bn_comm (put_bresponder v r s)) = comm_publishers (bn_comm s)"
  "comm_responders (bn_comm (put_bresponder v r s)) = (comm_responders (bn_comm s))(v \<mapsto> r)"
  "comm_subscribers (bn_comm (put_bresponder v r s)) = comm_subscribers (bn_comm s)"
  "comm_requesters (bn_comm (put_bresponder v r s)) = comm_requesters (bn_comm s)"
  "put_bresponder v r (put_bresponder v r' s) = put_bresponder v r s"
  by (simp_all add: put_bresponder_def)

lemma put_bsubscriber_sel [simp]:
  "bn_obj (put_bsubscriber v r s) = bn_obj s" "comm_publishers (bn_comm (put_bsubscriber v r s)) = comm_publishers (bn_comm s)"
  "comm_responders (bn_comm (put_bsubscriber v r s)) = comm_responders (bn_comm s)"
  "comm_subscribers (bn_comm (put_bsubscriber v r s)) = (comm_subscribers (bn_comm s))(v \<mapsto> r)"
  "comm_requesters (bn_comm (put_bsubscriber v r s)) = comm_requesters (bn_comm s)"
  "put_bsubscriber v r (put_bsubscriber v r' s) = put_bsubscriber v r s"
  by (simp_all add: put_bsubscriber_def)

lemma on_publisher_commutes [commutes_intros]:
  "commutes (put_bresponder v r) (on_bcomm (on_publisher w f))"
  by (auto simp: commutes_def put_bresponder_def liftS_def on_publisher_def split: prod.splits sum.splits option.splits)

lemma ResponseProcess_commutes: "commutes (put_bresponder v r) (ResponseProcess p q)"
  unfolding ResponseProcess_def
  by (auto intro!: commutes_intros simp: put_bresponder_def split: prod.split option.split)

lemma Broadcast_CallProxy_commutes: "commutes (put_bsubscriber v r) (Broadcast_CallProxy p c data)"
  unfolding Broadcast_CallProxy_fn Broadcast_CallProxyImpl_def
  by (auto intro!: commutes_intros simp: put_bsubscriber_def split: prod.split)

lemma SubscribeProcess_commutes: "commutes (put_bsubscriber v r) (SubscribeProcess p e c)"
  unfolding SubscribeProcess_def
  by (auto intro!: commutes_intros Broadcast_CallProxy_commutes split: option.split)

lemma procSubCb_commutes: "commutes (put_bsubscriber v r) (procSubCb ok)"
  unfolding procSubCb_def
  by (auto intro!: commutes_intros simp: put_bsubscriber_def split: option.split)

lemma on_part_keeps:
  "on_fsRep m s = (res, s') \<Longrightarrow> bc_responder (bn_obj s') = bc_responder (bn_obj s)"
  "on_fsSub m2 s = (res2, s') \<Longrightarrow> bc_subscriber (bn_obj s') = bc_subscriber (bn_obj s)"
  "on_app m4 s = (res4, s') \<Longrightarrow> bc_subscriber (bn_obj s') = bc_subscriber (bn_obj s)"
  "on_bcomm m3 s = (res3, s') \<Longrightarrow> bn_obj s' = bn_obj s"
  by (auto simp: liftS_def split: prod.splits sum.splits)

lemma ResponseProcess_keeps:
  "ResponseProcess p q s = (res, s') \<Longrightarrow> bc_responder (bn_obj s') = bc_responder (bn_obj s)"
  unfolding ResponseProcess_def
  by (cases res) (auto elim!: bindS_eq_Inl bindS_eq_Inr dest!: on_part_keeps split: option.splits prod.splits)

lemma SubscribeProcess_keeps:
  "SubscribeProcess p e c s = (res, s') \<Longrightarrow> bc_subscriber (bn_obj s') = bc_subscriber (bn_obj s)"
  unfolding SubscribeProcess_def
  by (cases res) (auto simp: Broadcast_CallProxy_fn Broadcast_CallProxyImpl_def elim!: bindS_eq_Inl bindS_eq_Inr
      dest!: on_part_keeps split: option.splits prod.splits)

lemma procSubCb_keeps:
  "procSubCb ok s = (res, s') \<Longrightarrow> bc_subscriber (bn_obj s') = bc_subscriber (bn_obj s)"
  unfolding procSubCb_def
  by (cases res) (auto elim!: bindS_eq_Inl bindS_eq_Inr dest!: on_part_keeps split: option.splits prod.splits)

lemma respond_step_keeps:
  "respond_step (ResponseProcess p) d (r, s) = (res, (r', s')) \<Longrightarrow> bc_responder (bn_obj s') = bc_responder (bn_obj s)"
  by (auto simp: respond_step_def Let_def dest: ResponseProcess_keeps
      split: option.splits wpc.splits resp_job.splits prod.splits sum.splits)

lemma receive_step_keeps:
  "receive_step procSubCb (SubscribeProcess p) d (r, s) = (res, (r', s')) \<Longrightarrow> bc_subscriber (bn_obj s') = bc_subscriber (bn_obj s)"
  by (auto simp: receive_step_def Let_def dest: SubscribeProcess_keeps procSubCb_keeps
      split: option.splits wpc.splits sub_job.splits prod.splits sum.splits)

text \<open>So a run of one thread of the node is a run of that thread on its own record.\<close>

lemma run_bnode_respond:
  assumes "bn_responder s = Some r" "run_respond (ResponseProcess p) (d # ds) (r, s) = (Inr (), (r', s'))"
  shows "run_bnode p (map Resp_Step (d # ds)) s = (Inr (), put_bresponder (bc_responder (bn_obj s)) r' s')"
  using assms
proof (induction ds arbitrary: d r s s')
  case Nil
  then show ?case
    by (auto simp: bn_responder_def bindS_def split: prod.splits sum.splits)
next
  case (Cons e ds)
  let ?v = "bc_responder (bn_obj s)"
  obtain r1 s1 where s1: "respond_step (ResponseProcess p) d (r, s) = (Inr (), (r1, s1))"
    "run_respond (ResponseProcess p) (e # ds) (r1, s1) = (Inr (), (r', s'))"
    using Cons.prems(2) by (auto simp del: run_respond.simps(2) simp: run_respond.simps(2) [of _ d] elim!: bindS_eq_Inr)
  have v: "bc_responder (bn_obj s1) = ?v" by (rule respond_step_keeps [OF s1(1)])
  have "run_respond (ResponseProcess p) (e # ds) (r1, put_bresponder ?v r1 s1) = (Inr (), (r', put_bresponder ?v r1 s'))"
    using commutesD [OF run_respond_commutes [OF ResponseProcess_commutes] s1(2)] by simp
  then have "run_bnode p (map Resp_Step (e # ds)) (put_bresponder ?v r1 s1) = (Inr (), put_bresponder ?v r' s')"
    using Cons.IH [of "put_bresponder ?v r1 s1" r1] v by (simp add: bn_responder_def del: run_respond.simps)
  moreover have "bnode_step p (Resp_Step d) s = (Inr (), put_bresponder ?v r1 s1)"
    using Cons.prems(1) s1(1) by (simp add: bn_responder_def)
  ultimately show ?case by (simp add: bindS_Inr del: bnode_step.simps)
qed

lemma run_bnode_receive:
  assumes "bn_subscriber s = Some r" "run_receive procSubCb (SubscribeProcess p) (d # ds) (r, s) = (Inr (), (r', s'))"
  shows "run_bnode p (map Sub_Step (d # ds)) s = (Inr (), put_bsubscriber (bc_subscriber (bn_obj s)) r' s')"
  using assms
proof (induction ds arbitrary: d r s s')
  case Nil
  then show ?case
    by (auto simp: bn_subscriber_def bindS_def split: prod.splits sum.splits)
next
  case (Cons e ds)
  let ?v = "bc_subscriber (bn_obj s)"
  obtain r1 s1 where s1: "receive_step procSubCb (SubscribeProcess p) d (r, s) = (Inr (), (r1, s1))"
    "run_receive procSubCb (SubscribeProcess p) (e # ds) (r1, s1) = (Inr (), (r', s'))"
    using Cons.prems(2) by (auto simp del: run_receive.simps(2) simp: run_receive.simps(2) [of _ _ d] elim!: bindS_eq_Inr)
  have v: "bc_subscriber (bn_obj s1) = ?v" by (rule receive_step_keeps [OF s1(1)])
  have "run_receive procSubCb (SubscribeProcess p) (e # ds) (r1, put_bsubscriber ?v r1 s1) = (Inr (), (r', put_bsubscriber ?v r1 s'))"
    using commutesD [OF run_receive_commutes [OF procSubCb_commutes SubscribeProcess_commutes] s1(2)] by simp
  then have "run_bnode p (map Sub_Step (e # ds)) (put_bsubscriber ?v r1 s1) = (Inr (), put_bsubscriber ?v r' s')"
    using Cons.IH [of "put_bsubscriber ?v r1 s1" r1] v by (simp add: bn_subscriber_def del: run_receive.simps)
  moreover have "bnode_step p (Sub_Step d) s = (Inr (), put_bsubscriber ?v r1 s1)"
    using Cons.prems(1) s1(1) by (simp add: bn_subscriber_def)
  ultimately show ?case by (simp add: bindS_Inr del: bnode_step.simps)
qed

text \<open>A round of the responder's thread on a request with nothing else to do, and of the subscriber's.\<close>

lemma responder_round:
  assumes "bn_responder s = Some r" "resp_listening r" "rep_solo (Suc n) x (resp_socket r)" "q \<noteq> []"
    and "ResponseProcess p q s = (Inr d, s1)"
  shows "\<exists>r'. run_bnode p [Resp_Step d1, Resp_Step ((x, envelope q) # as), Resp_Step d3, Resp_Step d4] s
      = (Inr (), put_bresponder (bc_responder (bn_obj s)) r' s1)
    \<and> resp_listening r' \<and> rep_solo n x (resp_socket r') \<and> rep_out x (resp_socket r') = rep_out x (resp_socket r) @ envelope d"
proof -
  obtain r' where r': "run_respond (ResponseProcess p) [d1, (x, envelope q) # as, d3, d4] (r, s) = (Inr (), (r', s1))"
    "resp_listening r'" "rep_solo n x (resp_socket r')" "rep_out x (resp_socket r') = rep_out x (resp_socket r) @ envelope d"
    using run_respond_solo [of r n x q "ResponseProcess p" s d s1 d1 "as" d3 d4] assms(2-5) by blast
  show ?thesis using run_bnode_respond [OF assms(1) r'(1)] r'(2-4) by (intro exI [of _ r']) simp
qed

lemma subscriber_round:
  assumes "bn_subscriber s = Some r" "sub_listening x r" "sub_takes (sub_socket r) name"
    and "bc_rpcs (bn_obj s) name = Some f" "length name < 2 ^ 64" "list_all2 has_type (fn_params (callee_fn f)) args"
    and "fn_body (callee_fn f) args (bc_app (bn_obj s)) = (Inr v, app')" "bc_callback (bn_obj s) = None"
  shows "\<exists>s'. run_bnode p [Sub_Step d1, Sub_Step ((x, [mk_msg name True, mk_msg (frame w name [VTuple args] @ junk) False]) # as),
      Sub_Step d3, Sub_Step d4] s = (Inr (), s')
    \<and> bc_app (bn_obj s') = app' \<and> bc_counter (bn_obj s') = 0 \<and> bc_rpcs (bn_obj s') = bc_rpcs (bn_obj s)
    \<and> bc_callback (bn_obj s') = None
    \<and> (\<exists>r'. bn_subscriber s' = Some r' \<and> sub_listening x r'
        \<and> xs_subscriptions (sub_socket r') = xs_subscriptions (sub_socket r))"
proof -
  let ?c = "frame w name [VTuple args] @ junk"
  let ?s1 = "s\<lparr>bn_obj := (bn_obj s)\<lparr>bc_fsSub := ss_set_str [], bc_app := app'\<rparr>\<rparr>"
  let ?s2 = "?s1\<lparr>bn_obj := (bn_obj ?s1)\<lparr>bc_counter := 0\<rparr>\<rparr>"
  have p: "SubscribeProcess p name ?c s = (Inr (), ?s1)"
    by (rule SubscribeProcess_bound [OF assms(4-7)])
  have cb: "procSubCb True ?s1 = (Inr (), ?s2)"
    using procSubCb_silent [of ?s1 True] assms(8) by simp
  obtain r' where r': "run_receive procSubCb (SubscribeProcess p) [d1, (x, [mk_msg name True, mk_msg ?c False]) # as, d3, d4] (r, s) = (Inr (), (r', ?s2))"
    "sub_listening x r'" "xs_subscriptions (sub_socket r') = xs_subscriptions (sub_socket r)"
    using run_receive_pair [OF assms(2,3), of "SubscribeProcess p" ?c s ?s1 procSubCb ?s2 d1 "as" d3 d4] p cb by blast
  show ?thesis
    using run_bnode_receive [OF assms(1) r'(1)] r'(2,3) assms(8) by (simp add: bn_subscriber_def)
qed

text \<open>A timeout is counted and reported; nothing is executed.\<close>

lemma subscriber_timeout:
  assumes "bn_subscriber s = Some r" "sub_listening x r" "bc_callback (bn_obj s) = None"
  shows "\<exists>s'. run_bnode p [Sub_Step d1, Sub_Step [], Sub_Step d3] s = (Inr (), s')
    \<and> bc_app (bn_obj s') = bc_app (bn_obj s) \<and> bc_counter (bn_obj s') = bc_counter (bn_obj s) + 1
    \<and> bc_callback (bn_obj s') = None \<and> (\<exists>r'. bn_subscriber s' = Some r' \<and> sub_listening x r')"
proof -
  let ?s2 = "s\<lparr>bn_obj := (bn_obj s)\<lparr>bc_counter := bc_counter (bn_obj s) + 1\<rparr>\<rparr>"
  have cb: "procSubCb False s = (Inr (), ?s2)"
    using procSubCb_silent [OF assms(3), of False] by simp
  obtain r' where r': "run_receive procSubCb (SubscribeProcess p) [d1, [], d3] (r, s) = (Inr (), (r', ?s2))" "sub_listening x r'"
    using run_receive_timeout [OF assms(2), of procSubCb s ?s2 "SubscribeProcess p" d1 d3] cb by blast
  show ?thesis
    using run_bnode_receive [OF assms(1) r'(1)] r'(2) assms(3) by (simp add: bn_subscriber_def)
qed

section \<open>Calls\<close>

lemma broadcast_error_code:
  "broadcast_error [VArith (A8 c)] = (if c = RC_Success then Success else FunctionNotFound)"
  by (simp add: broadcast_error_def)

text \<open>The answer of the server decides the result of the call.\<close>

lemma Broadcast_CallFunc_reply:
  assumes "bn_requester s = Some r" "req_ready (Suc n) r" "idle (bc_fsCfn (bn_obj s))"
    and "length name < 2 ^ 64" "list_all2 has_type ts args"
    and "d = frame w other [VArith (A8 c)] @ junk" "length other < 2 ^ 64"
  shows "\<exists>s' r'. Broadcast_CallFunc p e (reply_arrives d # as) name args s
      = (Inr (if other \<noteq> name then FunctionNameMismatch else if c = RC_Success then Success else FunctionNotFound), s')
    \<and> bn_requester s' = Some r' \<and> req_ready n r' \<and> bn_obj s' = (bn_obj s)\<lparr>bc_fsCfn := ss_set_str []\<rparr>
    \<and> (\<exists>j. req_sent r' = req_sent r @ envelope (frame (plat_le p) name [VTuple args] @ j))"
proof -
  let ?j = "drop (length (frame (plat_le p) name [VTuple args])) (ss_buf (bc_fsCfn (bn_obj s)))"
  let ?q = "frame (plat_le p) name [VTuple args] @ ?j"
  have ser: "Serialize p name [VTuple args] (bc_fsCfn (bn_obj s)) = (Inr ?q, ss_set_str [])"
    using Serialize_frame [OF assms(3) wf_args_frame [OF assms(4,5)]] by simp
  have d: "d \<noteq> []" by (simp add: assms(6))
  obtain r' where r': "Request (reply_arrives d # as) ?q [] r = (Inr (CC_Success, d), r')" "req_ready n r'"
    "req_sent r' = req_sent r @ envelope ?q"
    using rq.req_reply [OF assms(2) d] by blast
  have des: "Deserialize p d [CArith T8] (ss_set_str []) = (Inr (other, [VArith (A8 c)]), ss_set_str [])"
    unfolding assms(6) by (rule Deserialize_frame [OF wf_code_frame [OF assms(7)]])
  show ?thesis
    using assms(1) ser r' des
    by (auto simp: Broadcast_CallFunc_def bindS_def liftS_def on_requester_def bn_requester_def broadcast_error_code)
qed

text \<open>No answer: the requester is replaced, whether or not the network lets it.\<close>

lemma Broadcast_CallFunc_timeout:
  assumes "bn_requester s = Some r" "req_ready (Suc n) r" "idle (bc_fsCfn (bn_obj s))" "comm_ok (bn_comm s)"
    and "length name < 2 ^ 64" "list_all2 has_type ts args" "fresh_alloc e (bn_comm s)"
  shows "if e_connects e (''tcp://'' @ bc_addrReqRep (bn_obj s))
    then \<exists>s'. Broadcast_CallFunc p e [] name args s = (Inr NetworkTimeout, s')
      \<and> bn_requester s' = Some (timed (connected_requester e)) \<and> req_ready 1000 (timed (connected_requester e))
      \<and> bc_requester (bn_obj s') = e_alloc e \<and> comm_ok (bn_comm s')
    else fst (Broadcast_CallFunc p e [] name args s) = Inl Null_Dereference"
proof -
  let ?v = "bc_requester (bn_obj s)"
  let ?q = "frame (plat_le p) name [VTuple args] @ drop (length (frame (plat_le p) name [VTuple args])) (ss_buf (bc_fsCfn (bn_obj s)))"
  have ser: "Serialize p name [VTuple args] (bc_fsCfn (bn_obj s)) = (Inr ?q, ss_set_str [])"
    using Serialize_frame [OF assms(3) wf_args_frame [OF assms(5,6)]] by simp
  obtain r' where r': "Request [] ?q [] r = (Inr (ReceiveTimeout, []), r')"
    using rq.req_timeout [OF assms(2)] by blast
  let ?m = "(bn_comm s)\<lparr>comm_requesters := (comm_requesters (bn_comm s))(?v \<mapsto> r')\<rparr>"
  have live: "comm_requesters (bn_comm s) ?v = Some r" using assms(1) by (simp add: bn_requester_def)
  have ok: "comm_ok ?m" using comm_ok_upd_requester [OF live] assms(4) by simp
  have "comm_dom ?m = comm_dom (bn_comm s)" using live by (auto simp: comm_dom_def)
  then have fresh: "fresh_alloc e ?m" using assms(7) by (simp add: fresh_alloc_def)
  obtain m1 where m1: "DestroyInstance ?v ?m = (Inr True, m1)" "comm_ok m1" "fresh_alloc e m1"
    using rqs.destroy_live [OF ok, of ?v r'] fresh by auto
  let ?a = "bc_addrReqRep (bn_obj s)"
  show ?thesis
  proof (cases "e_connects e (''tcp://'' @ ?a)")
    case True
    obtain m2 where m2: "CreateRequester p e ?a m1 = (Inr (e_alloc e), m2)" "comm_ok m2"
      "comm_requesters m2 = (comm_requesters m1)(e_alloc e \<mapsto> connected_requester e)"
      using rqs.create_good [OF m1(2,3) True] by blast
    have "comm_ok (m2\<lparr>comm_requesters := (comm_requesters m2)(e_alloc e \<mapsto> timed (connected_requester e))\<rparr>)"
      using m2(2,3) comm_ok_upd_requester [of m2 "e_alloc e" "connected_requester e"] by simp
    then show ?thesis
      using True live ser r' m1(1) m2
      by (simp add: Broadcast_CallFunc_def bindS_def liftS_def on_requester_def bn_requester_def MakeInstValue_def
          SetTimeout_run req_ready_timed)
  next
    case False
    have m2: "CreateRequester p e ?a m1 = (Inr 0, m1)" using rqs.create_bad [OF m1(3) False] .
    have "comm_requesters m1 0 = None" using m1(2) by (auto simp: comm_ok_def comm_dom_def)
    then show ?thesis
      using False live ser r' m1(1) m2
      by (simp add: Broadcast_CallFunc_def bindS_def liftS_def on_requester_def bn_requester_def MakeInstValue_def)
  qed
qed

section \<open>Starting\<close>

lemma Subscriber_SetTimeout_run:
  "Subscriber_SetTimeout p RpcTimeout r = (Inr RpcTimeout, r\<lparr>sub_options := (sub_options r)\<lparr>o_rcvtimeo := RpcTimeout\<rparr>\<rparr>)"
proof -
  have s: "options_setsockopt p ZMQ_RCVTIMEO (int_bytes p RpcTimeout) (sub_options r) = (Inr (), (sub_options r)\<lparr>o_rcvtimeo := RpcTimeout\<rparr>)"
    by (simp add: set_int_def wire_simps)
  show ?thesis
    using options_set_get [OF s refl] s by (simp add: Subscriber_SetTimeout_def sub_set_def sub_get_def bindS_def liftS_def)
qed

definition started_subscriber :: subscriber where
  "started_subscriber = snd (StartReceive (Subscribe [] (connected_subscriber\<lparr>sub_options := (sub_options connected_subscriber)\<lparr>o_rcvtimeo := RpcTimeout\<rparr>\<rparr>)))"

lemma connected_subscriber_worker: "sub_worker connected_subscriber = new_worker"
  by (simp add: connected_subscriber_def Subscriber_Init_def new_Subscriber_def Let_def)

lemma started_subscriber_run:
  "StartReceive (Subscribe [] (connected_subscriber\<lparr>sub_options := (sub_options connected_subscriber)\<lparr>o_rcvtimeo := RpcTimeout\<rparr>\<rparr>))
     = (True, started_subscriber)"
  by (simp add: started_subscriber_def StartReceive_def Subscribe_def worker_start_def connected_subscriber_worker new_worker_def)

text \<open>Four fresh addresses, one for each instance.\<close>

definition start_fresh :: "start_env \<Rightarrow> communicator \<Rightarrow> bool" where
  "start_fresh es m \<longleftrightarrow> distinct (map e_alloc [se_publisher es, se_responder es, se_subscriber es, se_requester es])
     \<and> fresh_alloc (se_publisher es) m \<and> fresh_alloc (se_responder es) m \<and> fresh_alloc (se_subscriber es) m
     \<and> fresh_alloc (se_requester es) m"

text \<open>The network accepts the addresses of the node.\<close>

definition client_reachable :: "start_env \<Rightarrow> string \<Rightarrow> int \<Rightarrow> int \<Rightarrow> bool" where
  "client_reachable es ip callfunc broadcast \<longleftrightarrow> e_connects (se_subscriber es) (''tcp://'' @ address ip broadcast)
     \<and> e_connects (se_requester es) (''tcp://'' @ address ip callfunc)"

definition server_bindable :: "start_env \<Rightarrow> string \<Rightarrow> int \<Rightarrow> int \<Rightarrow> bool" where
  "server_bindable es ip callfunc broadcast \<longleftrightarrow> e_binds (se_publisher es) (''tcp://'' @ address ip broadcast)
     \<and> e_binds (se_responder es) (''tcp://'' @ address ip callfunc)"

lemma start_client_good:
  assumes "fresh_alloc (se_subscriber es) (bn_comm s)" "fresh_alloc (se_requester es) (bn_comm s)"
    and "e_alloc (se_subscriber es) \<noteq> e_alloc (se_requester es)"
    and "e_connects (se_subscriber es) (''tcp://'' @ bc_addrPubSub (bn_obj s))"
    and "e_connects (se_requester es) (''tcp://'' @ bc_addrReqRep (bn_obj s))"
  shows "start_client p es s = (Inr True, s\<lparr>bn_comm := (bn_comm s)\<lparr>
      comm_subscribers := (comm_subscribers (bn_comm s))(e_alloc (se_subscriber es) \<mapsto> started_subscriber),
      comm_requesters := (comm_requesters (bn_comm s))(e_alloc (se_requester es) \<mapsto> timed (connected_requester (se_requester es)))\<rparr>,
    bn_obj := (bn_obj s)\<lparr>bc_subscriber := e_alloc (se_subscriber es), bc_requester := e_alloc (se_requester es)\<rparr>\<rparr>)"
proof -
  let ?m = "\<lambda>r. (bn_comm s)\<lparr>comm_subscribers := (comm_subscribers (bn_comm s))(e_alloc (se_subscriber es) \<mapsto> r)\<rparr>"
  have f: "fresh_alloc (se_requester es) (?m r)" for r
    using assms(2,3) by (auto simp: fresh_alloc_def comm_dom_def)
  have nz: "e_alloc (se_subscriber es) \<noteq> 0" "e_alloc (se_requester es) \<noteq> 0"
    using assms(1,2) by (auto simp: fresh_alloc_def)
  show ?thesis
    using assms(4,5) nz
    by (simp add: start_client_def bindS_def liftS_def CreateSubscriber_run [OF assms(1)] CreateRequester_run [OF f]
        on_subscriber_def on_requester_def Subscriber_SetTimeout_run pureS_def started_subscriber_run SetTimeout_run
        IsInstInvalid_def)
qed

lemma start_server_good:
  assumes "fresh_alloc (se_publisher es) (bn_comm s)" "fresh_alloc (se_responder es) (bn_comm s)"
    and "e_alloc (se_publisher es) \<noteq> e_alloc (se_responder es)"
    and "e_binds (se_publisher es) (''tcp://'' @ bc_addrPubSub (bn_obj s))"
    and "e_binds (se_responder es) (''tcp://'' @ bc_addrReqRep (bn_obj s))"
  shows "start_server p es s = (Inr True, s\<lparr>bn_comm := (bn_comm s)\<lparr>
      comm_publishers := (comm_publishers (bn_comm s))(e_alloc (se_publisher es) \<mapsto> new_Publisher),
      comm_responders := (comm_responders (bn_comm s))(e_alloc (se_responder es) \<mapsto> started_responder (se_responder es))\<rparr>,
    bn_obj := (bn_obj s)\<lparr>bc_publisher := e_alloc (se_publisher es), bc_responder := e_alloc (se_responder es)\<rparr>\<rparr>)"
proof -
  let ?m = "\<lambda>r. (bn_comm s)\<lparr>comm_publishers := (comm_publishers (bn_comm s))(e_alloc (se_publisher es) \<mapsto> r)\<rparr>"
  have f: "fresh_alloc (se_responder es) (?m r)" for r
    using assms(2,3) by (auto simp: fresh_alloc_def comm_dom_def)
  have nz: "e_alloc (se_publisher es) \<noteq> 0" "e_alloc (se_responder es) \<noteq> 0"
    using assms(1,2) by (auto simp: fresh_alloc_def)
  show ?thesis
    using assms(4,5) nz
    by (simp add: start_server_def bindS_def liftS_def CreatePublisher_run [OF assms(1)] CreateResponder_run [OF f]
        on_responder_def pureS_def started_responder_run(1) IsInstInvalid_def)
qed

text \<open>The publisher's address is taken: \<open>Start\<close> reports failure but leaves the responder running.\<close>

lemma start_server_no_publisher:
  assumes "fresh_alloc (se_publisher es) (bn_comm s)" "fresh_alloc (se_responder es) (bn_comm s)"
    and "\<not> e_binds (se_publisher es) (''tcp://'' @ bc_addrPubSub (bn_obj s))"
    and "e_binds (se_responder es) (''tcp://'' @ bc_addrReqRep (bn_obj s))"
  shows "start_server p es s = (Inr False, s\<lparr>bn_comm := (bn_comm s)\<lparr>
      comm_responders := (comm_responders (bn_comm s))(e_alloc (se_responder es) \<mapsto> started_responder (se_responder es))\<rparr>,
    bn_obj := (bn_obj s)\<lparr>bc_publisher := 0, bc_responder := e_alloc (se_responder es)\<rparr>\<rparr>)"
proof -
  have nz: "e_alloc (se_responder es) \<noteq> 0"
    using assms(2) by (auto simp: fresh_alloc_def)
  show ?thesis
    using assms(3,4) nz
    by (simp add: start_server_def bindS_def liftS_def CreatePublisher_run [OF assms(1)] CreateResponder_run [OF assms(2)]
        on_responder_def pureS_def started_responder_run(1) IsInstInvalid_def)
qed

definition node_started :: "Role \<Rightarrow> start_env \<Rightarrow> 's bnode \<Rightarrow> bool" where
  "node_started node es s \<longleftrightarrow> bc_role (bn_obj s) = node \<and> bc_counter (bn_obj s) = 0 \<and> comm_ok (bn_comm s)
     \<and> bn_subscriber s = Some started_subscriber \<and> bn_requester s = Some (timed (connected_requester (se_requester es)))
     \<and> (if node = Server then bn_publisher s = Some new_Publisher \<and> bn_responder s = Some (started_responder (se_responder es))
        else IsInstInvalid (bc_publisher (bn_obj s)) \<and> IsInstInvalid (bc_responder (bn_obj s)))"

text \<open>A node at rest: no role, no instances.\<close>

definition node_idle :: "'s bnode \<Rightarrow> bool" where
  "node_idle s \<longleftrightarrow> comm_ok (bn_comm s) \<and> bc_role (bn_obj s) = Role_None \<and> IsInstInvalid (bc_responder (bn_obj s))
     \<and> IsInstInvalid (bc_requester (bn_obj s)) \<and> IsInstInvalid (bc_publisher (bn_obj s)) \<and> IsInstInvalid (bc_subscriber (bn_obj s))"

lemma comm_ok_zero:
  "comm_ok m \<Longrightarrow> comm_requesters m 0 = None \<and> comm_responders m 0 = None \<and> comm_subscribers m 0 = None \<and> comm_publishers m 0 = None"
  by (auto simp: comm_ok_def comm_dom_def)

lemma Start_good:
  assumes "node_idle s" "node \<noteq> Role_None" "start_fresh es (bn_comm s)"
    and "client_reachable es ip cf bc" "node = Server \<Longrightarrow> server_bindable es ip cf bc"
  shows "\<exists>s'. Start p es node ip cf bc s = (Inr True, s') \<and> node_started node es s' \<and> bc_rpcs (bn_obj s') = bc_rpcs (bn_obj s)
    \<and> bc_app (bn_obj s') = bc_app (bn_obj s) \<and> bc_callback (bn_obj s') = bc_callback (bn_obj s)
    \<and> bc_fsCfn (bn_obj s') = bc_fsCfn (bn_obj s)"
proof -
  let ?s0 = "s\<lparr>bn_obj := (bn_obj s)\<lparr>bc_counter := 0, bc_role := node, bc_addrReqRep := address ip cf, bc_addrPubSub := address ip bc\<rparr>\<rparr>"
  note d = start_fresh_def fresh_alloc_def comm_dom_def
  show ?thesis
  proof (cases "node = Server")
    case True
    obtain s1 where s1: "start_server p es ?s0 = (Inr True, s1)" and s1': "s1 = ?s0\<lparr>bn_comm := (bn_comm s)\<lparr>
        comm_publishers := (comm_publishers (bn_comm s))(e_alloc (se_publisher es) \<mapsto> new_Publisher),
        comm_responders := (comm_responders (bn_comm s))(e_alloc (se_responder es) \<mapsto> started_responder (se_responder es))\<rparr>,
      bn_obj := (bn_obj ?s0)\<lparr>bc_publisher := e_alloc (se_publisher es), bc_responder := e_alloc (se_responder es)\<rparr>\<rparr>"
      using start_server_good [of es ?s0 p] assms(3,5) True by (auto simp: start_fresh_def server_bindable_def)
    have "fresh_alloc (se_subscriber es) (bn_comm s1)" "fresh_alloc (se_requester es) (bn_comm s1)"
      using assms(3) by (auto simp: s1' d)
    then have "start_client p es s1 = (Inr True, s1\<lparr>bn_comm := (bn_comm s1)\<lparr>
        comm_subscribers := (comm_subscribers (bn_comm s1))(e_alloc (se_subscriber es) \<mapsto> started_subscriber),
        comm_requesters := (comm_requesters (bn_comm s1))(e_alloc (se_requester es) \<mapsto> timed (connected_requester (se_requester es)))\<rparr>,
      bn_obj := (bn_obj s1)\<lparr>bc_subscriber := e_alloc (se_subscriber es), bc_requester := e_alloc (se_requester es)\<rparr>\<rparr>)"
      using start_client_good [of es s1 p] assms(3,4) by (simp add: s1' client_reachable_def start_fresh_def)
    then show ?thesis
      using assms(1-3) True s1
      by (auto simp: Start_def bindS_def node_started_def node_idle_def s1' bn_subscriber_def bn_requester_def bn_publisher_def
          bn_responder_def comm_ok_def d)
  next
    case False
    have "start_client p es ?s0 = (Inr True, ?s0\<lparr>bn_comm := (bn_comm s)\<lparr>
        comm_subscribers := (comm_subscribers (bn_comm s))(e_alloc (se_subscriber es) \<mapsto> started_subscriber),
        comm_requesters := (comm_requesters (bn_comm s))(e_alloc (se_requester es) \<mapsto> timed (connected_requester (se_requester es)))\<rparr>,
      bn_obj := (bn_obj ?s0)\<lparr>bc_subscriber := e_alloc (se_subscriber es), bc_requester := e_alloc (se_requester es)\<rparr>\<rparr>)"
      using start_client_good [of es ?s0 p] assms(3,4) by (simp add: client_reachable_def start_fresh_def)
    then show ?thesis
      using assms(1-3) False comm_ok_zero [of "bn_comm s"]
      by (auto simp: Start_def bindS_def node_started_def node_idle_def bn_subscriber_def bn_requester_def bn_publisher_def
          bn_responder_def comm_ok_def d IsInstInvalid_def)
  qed
qed

lemma Start_refused:
  "bc_role (bn_obj s) \<noteq> Role_None \<or> node = Role_None \<Longrightarrow> Start p es node ip cf bc s = (Inr False, s)"
  by (simp add: Start_def)

text \<open>The subscriber of a started node takes everything its publisher sends, from its second step on.\<close>

lemma started_subscriber_listens:
  "\<exists>r. run_receive procSubCb (SubscribeProcess p) [d] (started_subscriber, s) = (Inr (), (r, s)) \<and> sub_listening 0 r
    \<and> (\<forall>e. sub_takes (sub_socket r) e)"
proof -
  have w: "sub_worker started_subscriber = \<lparr>wk_map = [subKey \<mapsto> (True, True)], wk_pc = Some Spin\<rparr>"
    by (simp add: started_subscriber_def StartReceive_def Subscribe_def worker_start_def connected_subscriber_worker new_worker_def)
  have k: "sub_socket started_subscriber = sub_setsockopt True [] (sub_socket connected_subscriber)"
    by (simp add: started_subscriber_def StartReceive_def Subscribe_def worker_start_def connected_subscriber_worker new_worker_def)
  let ?r = "started_subscriber\<lparr>sub_worker := goto Check (sub_worker started_subscriber)\<rparr>"
  have "run_receive procSubCb (SubscribeProcess p) [d] (started_subscriber, s) = (Inr (), (?r, s))"
    by (simp add: receive_step_def w worker_test_def goto_def bindS_def)
  moreover have "sub_peer 0 (sub_socket started_subscriber)" "\<forall>e. sub_takes (sub_socket started_subscriber) e"
  proof -
    have keys: "trie_keys (new_trie 0) = []" by (simp add: new_trie_def)
    have "sub_peer 0 (sub_socket connected_subscriber)" "sub_plain (sub_socket connected_subscriber)"
      "subs (xs_subscriptions (sub_socket connected_subscriber)) = (\<lambda>_. 0)"
      by (simp_all add: keys connected_subscriber_def Subscriber_Init_def new_Subscriber_def new_sub_def xsub_attach_pipe_def
          subs_new sub_peer_def sub_plain_def fq_attach_def new_fq_def arr_push_back_def arr_swap_def pipe_flush_def
          Let_def)
    then show "sub_peer 0 (sub_socket started_subscriber)" "\<forall>e. sub_takes (sub_socket started_subscriber) e"
      using sub_peer_same [OF sub_setsockopt_receiving] sub_subscribe_takes [of "sub_socket connected_subscriber" "[]"]
      by (simp_all add: k)
  qed
  ultimately show ?thesis
    by (intro exI [of _ ?r]) (simp add: sub_listening_def w goto_def ex_bool_eq)
qed

end
