(* ===== verification/BroadcastSystem.thy ===== *)
theory BroadcastSystem
  imports RpcBroadcast
begin

text \<open>
  A caller, a server and the receivers of \<open>RpcAsyncBroadcast\<close> joined by a network that delivers in
  order: a call is answered with a code, and its request reaches every receiver whose pipe is
  subscribed, where the function bound to the name runs once. The caller drives pipe 0 of its
  requester, which the server knows as pipe \<open>x\<close>; a receiver reads its publisher on pipe 0, which the
  server knows as pipe \<open>y\<close>.
\<close>

section \<open>One call over the network\<close>

definition bcall_request :: "platform \<Rightarrow> string \<Rightarrow> cval list \<Rightarrow> 's bnode \<Rightarrow> bytes" where
  "bcall_request p name args s =
     (case fst (Serialize p name [VTuple args] (bc_fsCfn (bn_obj s))) of Inr q \<Rightarrow> q | Inl _ \<Rightarrow> [])"

definition bn_reply_out :: "pipe_id \<Rightarrow> 's bnode \<Rightarrow> msg_t list" where
  "bn_reply_out x s = (case bn_responder s of None \<Rightarrow> [] | Some r \<Rightarrow> rep_out x (resp_socket r))"

definition bn_pub_out :: "pipe_id \<Rightarrow> 's bnode \<Rightarrow> msg_t list" where
  "bn_pub_out y s = (case bn_publisher s of None \<Rightarrow> [] | Some r \<Rightarrow> pub_out y (pub_socket r))"

text \<open>What the server published to the pipe \<open>y\<close> between two states.\<close>

definition published :: "pipe_id \<Rightarrow> 's bnode \<Rightarrow> 's bnode \<Rightarrow> msg_t list" where
  "published y s s' = drop (length (bn_pub_out y s)) (bn_pub_out y s')"

definition broadcast_call ::
  "platform \<Rightarrow> platform \<Rightarrow> env \<Rightarrow> pipe_id \<Rightarrow> string \<Rightarrow> cval list \<Rightarrow> ('s bnode \<times> 's bnode, fault, RpcCallError) smon" where
  "broadcast_call p q e x name args = (\<lambda>(c, s).
     case run_bnode q [Resp_Step [], Resp_Step [(x, envelope (bcall_request p name args c))], Resp_Step [], Resp_Step []] s of
       (Inl f, s') \<Rightarrow> (Inl f, (c, s'))
     | (Inr _, s') \<Rightarrow>
        (case Broadcast_CallFunc p e [(0, drop (length (bn_reply_out x s)) (bn_reply_out x s'))] name args c of
           (res, c') \<Rightarrow> (res, (c', s'))))"

text \<open>The thread of a receiver takes one round if something arrived.\<close>

definition receive_published :: "platform \<Rightarrow> msg_t list \<Rightarrow> ('s bnode, fault, unit) smon" where
  "receive_published p ms = (if ms = [] then retS () else run_bnode p [Sub_Step [], Sub_Step [(0, ms)], Sub_Step [], Sub_Step []])"

definition bn_caller :: "nat \<Rightarrow> 's bnode \<Rightarrow> bool" where
  "bn_caller n s \<longleftrightarrow> idle (bc_fsCfn (bn_obj s)) \<and> (\<exists>r. bn_requester s = Some r \<and> req_ready n r)"

definition bn_serving :: "nat \<Rightarrow> pipe_id \<Rightarrow> 's bnode \<Rightarrow> bool" where
  "bn_serving n x s \<longleftrightarrow> (\<exists>r. bn_responder s = Some r \<and> resp_listening r \<and> rep_solo n x (resp_socket r))
     \<and> (\<exists>b. bn_publisher s = Some b \<and> pub_ok (pub_socket b))"

definition bn_receiving :: "'s bnode \<Rightarrow> bool" where
  "bn_receiving s \<longleftrightarrow> bc_callback (bn_obj s) = None
     \<and> (\<exists>r. bn_subscriber s = Some r \<and> sub_listening 0 r \<and> sub_takes (sub_socket r) [])"

lemma bcall_request_frame:
  assumes "idle (bc_fsCfn (bn_obj s))" "length name < 2 ^ 64" "list_all2 has_type ts args"
  shows "\<exists>j. bcall_request p name args s = frame (plat_le p) name [VTuple args] @ j"
  using Serialize_frame [OF assms(1) wf_args_frame [OF assms(2,3)], of p] by (simp add: bcall_request_def)

text \<open>The caller's half.\<close>

lemma caller_reply:
  assumes "bn_caller (Suc n) c" "length name < 2 ^ 64" "list_all2 has_type ts args"
  shows "\<exists>c'. Broadcast_CallFunc p e [(0, envelope (frame w name [VArith (A8 k)]))] name args c
      = (Inr (if k = RC_Success then Success else FunctionNotFound), c')
    \<and> bn_caller n c' \<and> bc_app (bn_obj c') = bc_app (bn_obj c) \<and> bc_rpcs (bn_obj c') = bc_rpcs (bn_obj c)"
proof -
  obtain r where r: "bn_requester c = Some r" "req_ready (Suc n) r" "idle (bc_fsCfn (bn_obj c))"
    using assms(1) by (auto simp: bn_caller_def)
  have d: "frame w name [VArith (A8 k)] = frame w name [VArith (A8 k)] @ []" by simp
  obtain c' r' where "Broadcast_CallFunc p e [reply_arrives (frame w name [VArith (A8 k)])] name args c
      = (Inr (if k = RC_Success then Success else FunctionNotFound), c')"
    "bn_requester c' = Some r'" "req_ready n r'" "bn_obj c' = (bn_obj c)\<lparr>bc_fsCfn := ss_set_str []\<rparr>"
    using Broadcast_CallFunc_reply [OF r assms(2,3) d assms(2), of p e "[]"] by auto
  then show ?thesis by (intro exI [of _ c']) (simp add: bn_caller_def reply_arrives_def idle_reset)
qed

text \<open>The server's half: the answer, and what is published.\<close>

lemma server_round:
  assumes "bn_serving (Suc n) x s" "q \<noteq> []" "ResponseProcess p q s = (Inr d, s1)"
    and "bn_obj s1 = (bn_obj s)\<lparr>bc_fsRep := ss_set_str []\<rparr>" "bn_publisher s1 = Some b1" "pub_ok (pub_socket b1)"
  shows "\<exists>s'. run_bnode p [Resp_Step [], Resp_Step [(x, envelope q)], Resp_Step [], Resp_Step []] s = (Inr (), s')
    \<and> bn_serving n x s' \<and> bn_reply_out x s' = bn_reply_out x s @ envelope d \<and> bn_publisher s' = Some b1
    \<and> bn_obj s' = (bn_obj s)\<lparr>bc_fsRep := ss_set_str []\<rparr>"
proof -
  obtain r where r: "bn_responder s = Some r" "resp_listening r" "rep_solo (Suc n) x (resp_socket r)"
    using assms(1) by (auto simp: bn_serving_def)
  obtain r' where r': "run_bnode p [Resp_Step [], Resp_Step [(x, envelope q)], Resp_Step [], Resp_Step []] s
      = (Inr (), put_bresponder (bc_responder (bn_obj s)) r' s1)"
    "resp_listening r'" "rep_solo n x (resp_socket r')" "rep_out x (resp_socket r') = rep_out x (resp_socket r) @ envelope d"
    using responder_round [OF r assms(2,3)] by blast
  let ?s' = "put_bresponder (bc_responder (bn_obj s)) r' s1"
  have "bn_responder ?s' = Some r'" "bn_publisher ?s' = Some b1"
    using assms(4,5) by (simp_all add: bn_responder_def bn_publisher_def)
  then show ?thesis
    using r' r(1) assms(4,6) by (intro exI [of _ ?s']) (simp add: bn_serving_def bn_reply_out_def del: run_bnode.simps)
qed

text \<open>A call of a bound name: \<open>Success\<close>, nothing runs at the server, and the request goes out, under its
  name, to exactly the open pipes that subscribe to the name.\<close>

lemma broadcast_call_bound:
  assumes "bn_caller (Suc n) c" "bn_serving (Suc m) x s" "bc_rpcs (bn_obj s) name = Some f"
    and "length name < 2 ^ 64" "list_all2 has_type ts args"
  shows "\<exists>c' s'. broadcast_call p q e x name args (c, s) = (Inr Success, (c', s'))
    \<and> bn_caller n c' \<and> bc_app (bn_obj c') = bc_app (bn_obj c) \<and> bn_serving m x s' \<and> bc_app (bn_obj s') = bc_app (bn_obj s)
    \<and> (\<forall>b. bn_publisher s = Some b \<longrightarrow> (\<forall>y. published y s s' =
        (if y \<in> pub_subscribed (pub_socket b) name \<and> pipe_open (xp_heap (pub_socket b) y)
         then [mk_msg name True, mk_msg (bcall_request p name args c) False] else [])))"
proof -
  let ?q = "bcall_request p name args c"
  obtain j where j: "?q = frame (plat_le p) name [VTuple args] @ j"
    using bcall_request_frame [OF _ assms(4,5)] assms(1) by (auto simp: bn_caller_def)
  obtain b where b: "bn_publisher s = Some b" "pub_ok (pub_socket b)" using assms(2) by (auto simp: bn_serving_def)
  let ?d = "frame (plat_le q) name [VArith (A8 RC_Success)]"
  obtain s1 b1 where s1: "ResponseProcess q ?q s = (Inr ?d, s1)" "bn_obj s1 = (bn_obj s)\<lparr>bc_fsRep := ss_set_str []\<rparr>"
    "bn_publisher s1 = Some b1" "pub_ok (pub_socket b1)" "\<And>y. pub_out y (pub_socket b1) = pub_out y (pub_socket b) @
        (if y \<in> pub_subscribed (pub_socket b) name \<and> pipe_open (xp_heap (pub_socket b) y)
         then [mk_msg name True, mk_msg ?q False] else [])"
    using ResponseProcess_bound [OF assms(3,4) b] unfolding j by blast
  have "?q \<noteq> []" by (simp add: j)
  then obtain s' where s': "run_bnode q [Resp_Step [], Resp_Step [(x, envelope ?q)], Resp_Step [], Resp_Step []] s = (Inr (), s')"
    "bn_serving m x s'" "bn_reply_out x s' = bn_reply_out x s @ envelope ?d" "bn_publisher s' = Some b1"
    "bn_obj s' = (bn_obj s)\<lparr>bc_fsRep := ss_set_str []\<rparr>"
    using server_round [OF assms(2) _ s1(1-4)] by blast
  obtain c' where c': "Broadcast_CallFunc p e [(0, envelope ?d)] name args c = (Inr Success, c')" "bn_caller n c'"
    "bc_app (bn_obj c') = bc_app (bn_obj c)"
    using caller_reply [OF assms(1,4,5), of p e "plat_le q" RC_Success] by auto
  have "broadcast_call p q e x name args (c, s) = (Inr Success, (c', s'))"
    using s'(1,3) c'(1) by (simp add: broadcast_call_def del: run_bnode.simps)
  then show ?thesis
    using c'(2,3) s' b(1) s1(5) by (intro exI [of _ c'] exI [of _ s']) (simp add: published_def bn_pub_out_def)
qed

text \<open>A call of a name the server did not bind is published to nobody.\<close>

lemma broadcast_call_unbound:
  assumes "bn_caller (Suc n) c" "bn_serving (Suc m) x s" "bc_rpcs (bn_obj s) name = None"
    and "length name < 2 ^ 64" "list_all2 has_type ts args"
  shows "\<exists>c' s'. broadcast_call p q e x name args (c, s) = (Inr FunctionNotFound, (c', s'))
    \<and> bn_caller n c' \<and> bn_serving m x s' \<and> bc_app (bn_obj s') = bc_app (bn_obj s) \<and> (\<forall>y. published y s s' = [])"
proof -
  let ?q = "bcall_request p name args c"
  obtain j where j: "?q = frame (plat_le p) name [VTuple args] @ j"
    using bcall_request_frame [OF _ assms(4,5)] assms(1) by (auto simp: bn_caller_def)
  obtain b where b: "bn_publisher s = Some b" "pub_ok (pub_socket b)" using assms(2) by (auto simp: bn_serving_def)
  let ?d = "frame (plat_le q) name [VArith (A8 RC_FunctionNotFound)]"
  let ?s1 = "s\<lparr>bn_obj := (bn_obj s)\<lparr>bc_fsRep := ss_set_str []\<rparr>\<rparr>"
  have s1: "ResponseProcess q ?q s = (Inr ?d, ?s1)"
    unfolding j by (rule ResponseProcess_unbound [OF assms(3,4)])
  have k: "bn_publisher ?s1 = Some b" "bn_obj ?s1 = (bn_obj s)\<lparr>bc_fsRep := ss_set_str []\<rparr>" "?q \<noteq> []"
    using b(1) by (simp_all add: bn_publisher_def j)
  obtain s' where s': "run_bnode q [Resp_Step [], Resp_Step [(x, envelope ?q)], Resp_Step [], Resp_Step []] s = (Inr (), s')"
    "bn_serving m x s'" "bn_reply_out x s' = bn_reply_out x s @ envelope ?d" "bn_publisher s' = Some b"
    "bn_obj s' = (bn_obj s)\<lparr>bc_fsRep := ss_set_str []\<rparr>"
    using server_round [OF assms(2) k(3) s1 k(2,1) b(2)] by blast
  obtain c' where c': "Broadcast_CallFunc p e [(0, envelope ?d)] name args c = (Inr FunctionNotFound, c')" "bn_caller n c'"
    using caller_reply [OF assms(1,4,5), of p e "plat_le q" RC_FunctionNotFound] by (auto simp: RC_Success_def RC_FunctionNotFound_def)
  have "broadcast_call p q e x name args (c, s) = (Inr FunctionNotFound, (c', s'))"
    using s'(1,3) c'(1) by (simp add: broadcast_call_def del: run_bnode.simps)
  then show ?thesis
    using c'(2) s' b(1) by (intro exI [of _ c'] exI [of _ s']) (simp add: published_def bn_pub_out_def)
qed

text \<open>A receiver's half.\<close>

lemma receiving_mono: "prefix p q \<Longrightarrow> sub_takes s p \<Longrightarrow> sub_takes s q"
  unfolding sub_takes_def using prefix_order.trans by blast

lemma receiver_runs:
  assumes "bn_receiving s" "bc_rpcs (bn_obj s) name = Some f" "length name < 2 ^ 64"
    and "list_all2 has_type (fn_params (callee_fn f)) args" "fn_body (callee_fn f) args (bc_app (bn_obj s)) = (Inr v, app')"
  shows "\<exists>s'. receive_published p [mk_msg name True, mk_msg (frame w name [VTuple args] @ junk) False] s = (Inr (), s')
    \<and> bc_app (bn_obj s') = app' \<and> bc_counter (bn_obj s') = 0 \<and> bc_rpcs (bn_obj s') = bc_rpcs (bn_obj s) \<and> bn_receiving s'"
proof -
  obtain r where r: "bn_subscriber s = Some r" "sub_listening 0 r" "sub_takes (sub_socket r) []" "bc_callback (bn_obj s) = None"
    using assms(1) by (auto simp: bn_receiving_def)
  then have "sub_takes (sub_socket r) name" using receiving_mono [of "[]" name] by simp
  from subscriber_round [OF r(1,2) this assms(2-5) r(4), of p "[]" w junk "[]" "[]" "[]"]
  obtain s' r' where s': "run_bnode p [Sub_Step [], Sub_Step [(0, [mk_msg name True, mk_msg (frame w name [VTuple args] @ junk) False])],
      Sub_Step [], Sub_Step []] s = (Inr (), s')"
    "bc_app (bn_obj s') = app'" "bc_counter (bn_obj s') = 0" "bc_rpcs (bn_obj s') = bc_rpcs (bn_obj s)" "bc_callback (bn_obj s') = None"
    "bn_subscriber s' = Some r'" "sub_listening 0 r'" "xs_subscriptions (sub_socket r') = xs_subscriptions (sub_socket r)"
    by blast
  then show ?thesis
    using r(3) by (intro exI [of _ s']) (simp add: receive_published_def bn_receiving_def sub_takes_def del: run_bnode.simps)
qed

lemma receiver_skips:
  assumes "bn_receiving s" "bc_rpcs (bn_obj s) name = None"
  shows "\<exists>s'. receive_published p [mk_msg name True, mk_msg b False] s = (Inr (), s') \<and> bc_app (bn_obj s') = bc_app (bn_obj s)"
proof -
  obtain r where r: "bn_subscriber s = Some r" "sub_listening 0 r" "sub_takes (sub_socket r) name" "bc_callback (bn_obj s) = None"
    using assms(1) receiving_mono [of "[]" name] by (auto simp: bn_receiving_def)
  let ?s2 = "s\<lparr>bn_obj := (bn_obj s)\<lparr>bc_counter := 0\<rparr>\<rparr>"
  have cb: "procSubCb True s = (Inr (), ?s2)" using procSubCb_silent [OF r(4), of True] by simp
  obtain r' where "run_receive procSubCb (SubscribeProcess p) [[], (0, [mk_msg name True, mk_msg b False]) # [], [], []] (r, s) = (Inr (), (r', ?s2))"
    using run_receive_pair [OF r(2,3), of "SubscribeProcess p" b s s procSubCb ?s2 "[]" "[]" "[]" "[]"]
      SubscribeProcess_unbound [OF assms(2)] cb by blast
  from run_bnode_receive [OF r(1) this] show ?thesis
    by (simp add: receive_published_def del: run_bnode.simps)
qed

section \<open>From \<open>Start\<close> to a call\<close>

definition bn_accept_caller :: "pipe_id \<Rightarrow> bytes \<Rightarrow> 's bnode \<Rightarrow> 's bnode" where
  "bn_accept_caller x rid s = (case bn_responder s of None \<Rightarrow> s
     | Some r \<Rightarrow> put_bresponder (bc_responder (bn_obj s)) (resp_accept x rid r) s)"

definition bn_accept_subscriber :: "pipe_id \<Rightarrow> bytes \<Rightarrow> 's bnode \<Rightarrow> 's bnode" where
  "bn_accept_subscriber y topic s = (case bn_publisher s of None \<Rightarrow> s
     | Some r \<Rightarrow> s\<lparr>bn_comm := (bn_comm s)\<lparr>comm_publishers := (comm_publishers (bn_comm s))(bc_publisher (bn_obj s) \<mapsto>
          pub_deliver (y, [\<lparr>m_data = topic, m_more = False, m_kind = Subscribe_Cmd\<rparr>]) (pub_accept y r))\<rparr>\<rparr>)"

definition new_bnode :: "'s \<Rightarrow> 's bnode" where
  "new_bnode app = \<lparr>bn_comm = new_Communicator, bn_obj = new_RpcAsyncBroadcast app\<rparr>"

lemma new_bnode_idle: "node_idle (new_bnode app)"
  by (simp add: node_idle_def new_bnode_def new_Communicator_def new_RpcAsyncBroadcast_def IsInstInvalid_def ResetInstInvalid_def
      comm_ok_def comm_dom_def)

lemma started_caller:
  assumes "node_started node es s" "idle (bc_fsCfn (bn_obj s))"
  shows "bn_caller 1000 s"
  using assms req_ready_timed connected_ready by (simp add: node_started_def bn_caller_def)

lemma started_receiving:
  assumes "node_started node es s" "bc_callback (bn_obj s) = None"
  shows "\<exists>s'. run_bnode p [Sub_Step d] s = (Inr (), s') \<and> bn_receiving s' \<and> bc_app (bn_obj s') = bc_app (bn_obj s)
    \<and> bc_rpcs (bn_obj s') = bc_rpcs (bn_obj s)"
proof -
  have r: "bn_subscriber s = Some started_subscriber" using assms(1) by (simp add: node_started_def)
  obtain t where t: "run_receive procSubCb (SubscribeProcess p) [d] (started_subscriber, s) = (Inr (), (t, s))" "sub_listening 0 t"
    "\<forall>e. sub_takes (sub_socket t) e"
    using started_subscriber_listens by blast
  show ?thesis
    using run_bnode_receive [OF r t(1)] t(2,3) assms(2)
    by (simp add: bn_receiving_def bn_subscriber_def del: run_bnode.simps)
qed

lemma new_publisher_subscribed:
  fixes y topic
  defines "b \<equiv> pub_socket (pub_deliver (y, [\<lparr>m_data = topic, m_more = False, m_kind = Subscribe_Cmd\<rparr>]) (pub_accept y new_Publisher))"
  shows "pub_ok b" "y \<in> eligible (xp_dist b)" "topic \<in> {p. y \<in> msubs (xp_subscriptions b) p}" "pipe_open (xp_heap b y)"
    "p_out (xp_heap b y) = []"
proof -
  let ?a = "pub_socket (pub_accept y new_Publisher)"
  let ?p = "(new_pipe 1000 1000)\<lparr>p_in_active := True, p_msgs_read := 1\<rparr>"
  have a: "?a = (new_xpub True)\<lparr>xp_dist := dist_attach y new_dist, xp_heap := (\<lambda>_. new_pipe 0 0)(y := (new_pipe 1000 1000)\<lparr>p_in_active := False\<rparr>)\<rparr>"
    by (simp add: pub_accept_def new_Publisher_def xpub_attach_pipe_def xpub_read_activated_def Let_def new_xpub_def options_init_def
        pipe_read_def pipe_readable_def new_pipe_def)
  obtain f u where u: "mtrie_add topic y (new_trie []) = (f, u)" by fastforce
  have b: "b = ?a\<lparr>xp_heap := (xp_heap ?a)(y := ?p\<lparr>p_in_active := False\<rparr>), xp_subscriptions := snd (mtrie_add topic y (new_trie [])),
      xp_process_subscribe := True\<rparr>"
    unfolding b_def
    by (simp add: pub_deliver_def a process_activate_read_def xpub_read_activated_def Let_def new_xpub_def xpub_read_msg_def
        subscription_of_def xpub_apply_def pipe_read_def pipe_readable_def pipe_count_read_def compute_lwm_def u new_pipe_def)
  show "pub_ok b" "y \<in> eligible (xp_dist b)" "topic \<in> {p. y \<in> msubs (xp_subscriptions b) p}" "pipe_open (xp_heap b y)"
    "p_out (xp_heap b y) = []"
    by (simp_all add: b a pub_ok_def new_xpub_def mtrie_add_ok mtrie_ok_new msubs_add msubs_new dist_attach_def new_dist_def
        dist_ok_def eligible_def ds_swap_def arr_push_back_def arr_swap_def Let_def pipe_open_def pipe_check_hwm_def new_pipe_def)
qed

lemma started_serving:
  assumes "node_started Server es s"
  shows "\<exists>s'. run_bnode p [Resp_Step d] s = (Inr (), s') \<and> (let t = bn_accept_subscriber y topic (bn_accept_caller x rid s') in
    bn_serving 1000 x t \<and> bn_obj t = bn_obj s
    \<and> (\<exists>b. bn_publisher t = Some b \<and> y \<in> eligible (xp_dist (pub_socket b))
         \<and> y \<in> msubs (xp_subscriptions (pub_socket b)) topic \<and> pipe_open (xp_heap (pub_socket b) y)))"
proof -
  have r: "bn_responder s = Some (started_responder (se_responder es))" "bn_publisher s = Some new_Publisher"
    using assms by (simp_all add: node_started_def)
  obtain t where t: "run_respond (ResponseProcess p) [d] (started_responder (se_responder es), s) = (Inr (), (t, s))"
    "resp_listening (resp_accept x rid t)" "rep_solo 1000 x (resp_socket (resp_accept x rid t))"
    using started_responder_accept [of "ResponseProcess p" d "se_responder es" s x rid] by blast
  show ?thesis
    using run_bnode_respond [OF r(1) t(1)] t(2,3) r(2) new_publisher_subscribed [where y = y and topic = topic]
    by (simp add: Let_def bn_serving_def bn_accept_caller_def bn_accept_subscriber_def bn_responder_def bn_publisher_def del: run_bnode.simps)
qed

section \<open>A server without a publisher\<close>

text \<open>When the address of the publisher is taken, \<open>Start\<close> returns \<open>false\<close> but keeps the role and leaves the
  responder's thread running, with no publisher to hand requests to.\<close>

lemma Start_no_publisher:
  assumes "node_idle s" "start_fresh es (bn_comm s)" "client_reachable es ip cf bc"
    and "\<not> e_binds (se_publisher es) (''tcp://'' @ address ip bc)" "e_binds (se_responder es) (''tcp://'' @ address ip cf)"
  shows "\<exists>s'. Start p es Server ip cf bc s = (Inr False, s') \<and> bc_role (bn_obj s') = Server
    \<and> bn_responder s' = Some (started_responder (se_responder es)) \<and> bn_publisher s' = None \<and> bc_rpcs (bn_obj s') = bc_rpcs (bn_obj s)"
proof -
  let ?s0 = "s\<lparr>bn_obj := (bn_obj s)\<lparr>bc_counter := 0, bc_role := Server, bc_addrReqRep := address ip cf, bc_addrPubSub := address ip bc\<rparr>\<rparr>"
  note d = start_fresh_def fresh_alloc_def comm_dom_def
  obtain s1 where s1: "start_server p es ?s0 = (Inr False, s1)" and s1': "s1 = ?s0\<lparr>bn_comm := (bn_comm s)\<lparr>
      comm_responders := (comm_responders (bn_comm s))(e_alloc (se_responder es) \<mapsto> started_responder (se_responder es))\<rparr>,
    bn_obj := (bn_obj ?s0)\<lparr>bc_publisher := 0, bc_responder := e_alloc (se_responder es)\<rparr>\<rparr>"
    using start_server_no_publisher [of es ?s0 p] assms(2,4,5) by (auto simp: start_fresh_def)
  have "fresh_alloc (se_subscriber es) (bn_comm s1)" "fresh_alloc (se_requester es) (bn_comm s1)"
    using assms(2) by (auto simp: s1' d)
  then have "start_client p es s1 = (Inr True, s1\<lparr>bn_comm := (bn_comm s1)\<lparr>
      comm_subscribers := (comm_subscribers (bn_comm s1))(e_alloc (se_subscriber es) \<mapsto> started_subscriber),
      comm_requesters := (comm_requesters (bn_comm s1))(e_alloc (se_requester es) \<mapsto> timed (connected_requester (se_requester es)))\<rparr>,
    bn_obj := (bn_obj s1)\<lparr>bc_subscriber := e_alloc (se_subscriber es), bc_requester := e_alloc (se_requester es)\<rparr>\<rparr>)"
    using start_client_good [of es s1 p] assms(2,3) by (simp add: s1' client_reachable_def start_fresh_def)
  then show ?thesis
    using assms(1) s1 comm_ok_zero [of "bn_comm s"]
    by (auto simp: Start_def bindS_def node_idle_def s1' bn_publisher_def bn_responder_def)
qed

section \<open>Silence\<close>

text \<open>So many receive timeouts in a row: each is counted, in 32 bits, and nothing is executed.\<close>

definition timeout_round :: "bevent list" where
  "timeout_round = [Sub_Step [], Sub_Step [], Sub_Step []]"

lemma run_bnode_append: "run_bnode p (es @ fs) = bindS (run_bnode p es) (\<lambda>_. run_bnode p fs)"
proof (induction es)
  case Nil
  then show ?case by (auto simp: bindS_def fun_eq_iff)
next
  case (Cons e es)
  then show ?case by (auto simp: bindS_def fun_eq_iff split: prod.splits sum.splits)
qed

lemma timeouts_counted:
  assumes "bn_subscriber s = Some r" "sub_listening x r" "bc_callback (bn_obj s) = None"
  shows "\<exists>s'. run_bnode p (concat (replicate n timeout_round)) s = (Inr (), s') \<and> bc_app (bn_obj s') = bc_app (bn_obj s)
    \<and> bc_counter (bn_obj s') = bc_counter (bn_obj s) + of_nat n"
  using assms
proof (induction n arbitrary: s r)
  case 0
  then show ?case by simp
next
  case (Suc n)
  obtain s1 r1 where s1: "run_bnode p timeout_round s = (Inr (), s1)" "bc_app (bn_obj s1) = bc_app (bn_obj s)"
    "bc_counter (bn_obj s1) = bc_counter (bn_obj s) + 1" "bc_callback (bn_obj s1) = None" "bn_subscriber s1 = Some r1" "sub_listening x r1"
    using subscriber_timeout [OF Suc.prems, of p "[]" "[]"] unfolding timeout_round_def by blast
  show ?case
    using Suc.IH [OF s1(5,6,4)] s1(1-3) by (auto simp: run_bnode_append bindS_def simp del: run_bnode.simps)
qed

end
