(* ===== verification/BroadcastStop.thy ===== *)
theory BroadcastStop
  imports RpcBroadcast
begin

text \<open>
  Stopping a node of \<open>RpcAsyncBroadcast\<close>: what the events of its threads keep, that a stopped thread
  leaves its loop under any interleaving with the other one, and what \<open>Stop\<close> leaves.
\<close>

section \<open>Stopping\<close>

text \<open>What no event of a thread changes: the pointers of the object, which instances exist, the map of
  each thread, and that a thread was started.\<close>

definition bc_ptrs :: "'s RpcAsyncBroadcast \<Rightarrow> inst_value list" where
  "bc_ptrs b = [bc_responder b, bc_requester b, bc_publisher b, bc_subscriber b]"

definition resp_alive :: "(string \<Rightarrow> (bool \<times> bool) option) \<Rightarrow> 's bnode \<Rightarrow> bool" where
  "resp_alive mp s \<longleftrightarrow> (\<exists>r. bn_responder s = Some r \<and> wk_map (resp_worker r) = mp \<and> resp_pc r \<noteq> None)"

definition sub_alive :: "(string \<Rightarrow> (bool \<times> bool) option) \<Rightarrow> 's bnode \<Rightarrow> bool" where
  "sub_alive mp s \<longleftrightarrow> (\<exists>r. bn_subscriber s = Some r \<and> wk_map (sub_worker r) = mp \<and> sub_pc r \<noteq> None)"

definition same_doms :: "communicator \<Rightarrow> communicator \<Rightarrow> bool" where
  "same_doms m m' \<longleftrightarrow> comm_requesters m' = comm_requesters m \<and> dom (comm_responders m') = dom (comm_responders m)
     \<and> dom (comm_subscribers m') = dom (comm_subscribers m) \<and> dom (comm_publishers m') = dom (comm_publishers m)"

lemma same_doms_ok: "same_doms m m' \<Longrightarrow> comm_ok m' = comm_ok m"
  by (simp add: same_doms_def comm_ok_def comm_dom_def)

lemma same_doms_refl [simp]: "same_doms m m"
  by (simp add: same_doms_def)

lemma same_doms_trans: "same_doms m m' \<Longrightarrow> same_doms m' m'' \<Longrightarrow> same_doms m m''"
  by (simp add: same_doms_def)

definition callback_ok :: "'s bnode \<Rightarrow> 's bnode \<Rightarrow> bool" where
  "callback_ok s s' \<longleftrightarrow> bc_ptrs (bn_obj s') = bc_ptrs (bn_obj s) \<and> bc_role (bn_obj s') = bc_role (bn_obj s)
     \<and> same_doms (bn_comm s) (bn_comm s') \<and> comm_responders (bn_comm s') = comm_responders (bn_comm s)
     \<and> comm_subscribers (bn_comm s') = comm_subscribers (bn_comm s)"

lemma callback_ok_refl [simp]: "callback_ok s s"
  by (simp add: callback_ok_def)

lemma callback_ok_trans: "callback_ok s s1 \<Longrightarrow> callback_ok s1 s2 \<Longrightarrow> callback_ok s s2"
  using same_doms_trans by (auto simp: callback_ok_def)

text \<open>Operations all of whose outcomes are of this kind.\<close>

definition gentle :: "('s bnode, 'e, 'b) smon \<Rightarrow> bool" where
  "gentle f \<longleftrightarrow> (\<forall>s res s'. f s = (res, s') \<longrightarrow> callback_ok s s')"

lemma gentleD: "gentle f \<Longrightarrow> f s = (res, s') \<Longrightarrow> callback_ok s s'"
  by (simp add: gentle_def)

named_theorems gentle_intros "operations that only a callback performs"

lemma gentle_retS [gentle_intros]: "gentle (retS x)"
  by (simp add: gentle_def)

lemma gentle_bindS [gentle_intros]: "gentle f \<Longrightarrow> (\<And>x. gentle (h x)) \<Longrightarrow> gentle (bindS f h)"
  unfolding gentle_def bindS_def using callback_ok_trans by (fastforce split: prod.splits sum.splits)

lemma gentle_getS [gentle_intros]: "(\<And>s. gentle (h s)) \<Longrightarrow> gentle (bindS getS h)"
  by (auto simp: gentle_def)

lemma gentle_parts [gentle_intros]: "gentle (on_fsRep m)" "gentle (on_fsSub m)" "gentle (on_app m')"
  by (auto simp: gentle_def callback_ok_def bc_ptrs_def liftS_def split: prod.splits sum.splits)

lemma gentle_counter [gentle_intros]: "gentle (set_obj (\<lambda>b. b\<lparr>bc_counter := f b\<rparr>))"
  by (auto simp: gentle_def callback_ok_def bc_ptrs_def)

lemma gentle_publisher [gentle_intros]: "gentle (on_bcomm (on_publisher v m))"
  by (auto simp: gentle_def callback_ok_def bc_ptrs_def same_doms_def liftS_def on_publisher_def
      split: prod.splits sum.splits option.splits if_splits)

lemma gentle_callbacks:
  "gentle (ResponseProcess p q)" "gentle (SubscribeProcess p e c)" "gentle (procSubCb ok)"
  by (auto simp: ResponseProcess_def SubscribeProcess_def Broadcast_CallProxy_fn Broadcast_CallProxyImpl_def procSubCb_def
      intro!: gentle_intros split: prod.split option.split)

lemma bnode_step_resp:
  assumes "bnode_step p (Resp_Step d) s = (Inr (), s')" "bn_responder s = Some r"
  shows "\<exists>r' s1. respond_step (ResponseProcess p) d (r, s) = (Inr (), (r', s1)) \<and> callback_ok s s1
    \<and> s' = put_bresponder (bc_responder (bn_obj s)) r' s1"
proof -
  obtain res r' s1 where s1: "respond_step (ResponseProcess p) d (r, s) = (res, (r', s1))" by (metis prod.collapse)
  have "callback_ok s s1"
    using s1
    by (auto simp: respond_step_def Let_def dest: gentleD [OF gentle_callbacks(1)] split: option.splits wpc.splits resp_job.splits prod.splits sum.splits)
  then show ?thesis
    using assms s1 by (auto simp: bn_responder_def)
qed

lemma bnode_step_sub:
  assumes "bnode_step p (Sub_Step d) s = (Inr (), s')" "bn_subscriber s = Some r"
  shows "\<exists>r' s1. receive_step procSubCb (SubscribeProcess p) d (r, s) = (Inr (), (r', s1)) \<and> callback_ok s s1
    \<and> s' = put_bsubscriber (bc_subscriber (bn_obj s)) r' s1"
proof -
  obtain res r' s1 where s1: "receive_step procSubCb (SubscribeProcess p) d (r, s) = (res, (r', s1))" by (metis prod.collapse)
  have "callback_ok s s1"
    using s1
    by (auto simp: receive_step_def Let_def dest: gentleD [OF gentle_callbacks(2)] gentleD [OF gentle_callbacks(3)] split: option.splits wpc.splits sub_job.splits prod.splits sum.splits)
  then show ?thesis
    using assms s1 by (auto simp: bn_subscriber_def)
qed

lemma wk_pc_started:
  "respond_step proc d (r, a) = (res, (r', a')) \<Longrightarrow> resp_pc r \<noteq> None \<Longrightarrow> resp_pc r' \<noteq> None"
  "receive_step cb proc' d (t, a) = (res2, (t', a')) \<Longrightarrow> sub_pc t \<noteq> None \<Longrightarrow> sub_pc t' \<noteq> None"
  by (rule respond_step_started, assumption, assumption)
    (auto simp: receive_step_def worker_test_def goto_def Let_def
      split: option.splits wpc.splits sub_job.splits prod.splits sum.splits bool.splits if_splits)

text \<open>One event: everything above is kept.\<close>

definition event_ok :: "'s bnode \<Rightarrow> 's bnode \<Rightarrow> bool" where
  "event_ok s s' \<longleftrightarrow> bc_ptrs (bn_obj s') = bc_ptrs (bn_obj s) \<and> bc_role (bn_obj s') = bc_role (bn_obj s)
     \<and> same_doms (bn_comm s) (bn_comm s')
     \<and> (\<forall>mp. resp_alive mp s \<longrightarrow> resp_alive mp s') \<and> (\<forall>mp. sub_alive mp s \<longrightarrow> sub_alive mp s')"

lemma event_ok_refl [simp]: "event_ok s s"
  by (simp add: event_ok_def)

lemma event_ok_trans: "event_ok s s1 \<Longrightarrow> event_ok s1 s2 \<Longrightarrow> event_ok s s2"
  using same_doms_trans by (auto simp: event_ok_def)

lemma bnode_step_ok:
  assumes "bnode_step p ev s = (Inr (), s')"
  shows "event_ok s s'"
proof (cases ev)
  case (Resp_Step d)
  show ?thesis
  proof (cases "bn_responder s")
    case None
    then show ?thesis using assms Resp_Step by (simp add: bn_responder_def)
  next
    case (Some r)
    obtain r' s1 where s1: "respond_step (ResponseProcess p) d (r, s) = (Inr (), (r', s1))" "callback_ok s s1"
      "s' = put_bresponder (bc_responder (bn_obj s)) r' s1"
      using bnode_step_resp [OF assms [unfolded Resp_Step] Some] by blast
    show ?thesis
      using s1(2) Some respond_step_map [OF s1(1)] wk_pc_started(1) [OF s1(1)]
      by (auto simp: event_ok_def callback_ok_def s1(3) resp_alive_def sub_alive_def bn_responder_def bn_subscriber_def
          bc_ptrs_def same_doms_def)
  qed
next
  case (Sub_Step d)
  show ?thesis
  proof (cases "bn_subscriber s")
    case None
    then show ?thesis using assms Sub_Step by (simp add: bn_subscriber_def)
  next
    case (Some r)
    obtain r' s1 where s1: "receive_step procSubCb (SubscribeProcess p) d (r, s) = (Inr (), (r', s1))" "callback_ok s s1"
      "s' = put_bsubscriber (bc_subscriber (bn_obj s)) r' s1"
      using bnode_step_sub [OF assms [unfolded Sub_Step] Some] by blast
    show ?thesis
      using s1(2) Some receive_step_map [OF s1(1)] wk_pc_started(2) [OF s1(1)]
      by (auto simp: event_ok_def callback_ok_def s1(3) resp_alive_def sub_alive_def bn_responder_def bn_subscriber_def
          bc_ptrs_def same_doms_def)
  qed
qed

lemma run_bnode_ok: "run_bnode p evs s = (Inr (), s') \<Longrightarrow> event_ok s s'"
proof (induction evs arbitrary: s)
  case Nil
  then show ?case by simp
next
  case (Cons ev evs)
  obtain s1 where "bnode_step p ev s = (Inr (), s1)" "run_bnode p evs s1 = (Inr (), s')"
    using Cons.prems by (auto simp del: bnode_step.simps elim!: bindS_eq_Inr)
  then show ?case using bnode_step_ok Cons.IH event_ok_trans by blast
qed

text \<open>Progress of a stopped thread under any interleaving with the other one.\<close>

fun resp_events :: "bevent list \<Rightarrow> nat" where
  "resp_events [] = 0"
| "resp_events (Resp_Step d # evs) = Suc (resp_events evs)"
| "resp_events (Sub_Step d # evs) = resp_events evs"

fun sub_events :: "bevent list \<Rightarrow> nat" where
  "sub_events [] = 0"
| "sub_events (Resp_Step d # evs) = sub_events evs"
| "sub_events (Sub_Step d # evs) = Suc (sub_events evs)"

lemma other_step_responder:
  assumes "bnode_step p (Sub_Step d) s = (Inr (), s')" shows "bn_responder s' = bn_responder s"
proof (cases "bn_subscriber s")
  case None
  then show ?thesis using assms by (simp add: bn_subscriber_def)
next
  case (Some r)
  then show ?thesis using bnode_step_sub [OF assms Some] by (auto simp: callback_ok_def bn_responder_def bc_ptrs_def)
qed

lemma other_step_subscriber:
  assumes "bnode_step p (Resp_Step d) s = (Inr (), s')" shows "bn_subscriber s' = bn_subscriber s"
proof (cases "bn_responder s")
  case None
  then show ?thesis using assms by (simp add: bn_responder_def)
next
  case (Some r)
  then show ?thesis using bnode_step_resp [OF assms Some] by (auto simp: callback_ok_def bn_subscriber_def bc_ptrs_def)
qed

lemma stopped_responder_exits:
  "run_bnode p evs s = (Inr (), s') \<Longrightarrow> bn_responder s = Some r \<Longrightarrow> wk_stopping respKey (resp_worker r) \<Longrightarrow>
     steps_left (resp_pc r) \<le> resp_events evs \<Longrightarrow> \<exists>r'. bn_responder s' = Some r' \<and> steps_left (resp_pc r') = 0"
proof (induction evs arbitrary: s r)
  case Nil
  then show ?case by simp
next
  case (Cons ev evs)
  obtain s1 where s1: "bnode_step p ev s = (Inr (), s1)" "run_bnode p evs s1 = (Inr (), s')"
    using Cons.prems(1) by (auto simp del: bnode_step.simps elim!: bindS_eq_Inr)
  show ?case
  proof (cases ev)
    case (Resp_Step d)
    obtain r' s2 where r': "respond_step (ResponseProcess p) d (r, s) = (Inr (), (r', s2))" "callback_ok s s2"
      "s1 = put_bresponder (bc_responder (bn_obj s)) r' s2"
      using bnode_step_resp [OF s1(1) [unfolded Resp_Step] Cons.prems(2)] by blast
    have "steps_left (resp_pc r') \<le> resp_events evs"
      using respond_step_closer [OF r'(1) Cons.prems(3), of "resp_events evs"] Cons.prems(4) by (simp add: Resp_Step)
    moreover have "wk_stopping respKey (resp_worker r')"
      using Cons.prems(3) respond_step_map [OF r'(1)] by (simp add: wk_stopping_def)
    moreover have "bn_responder s1 = Some r'" using r'(2) by (simp add: r'(3) bn_responder_def callback_ok_def bc_ptrs_def)
    ultimately show ?thesis using Cons.IH [OF s1(2)] by blast
  next
    case (Sub_Step d)
    then show ?thesis
      using Cons.IH [OF s1(2)] Cons.prems(2-4) other_step_responder [OF s1(1) [unfolded Sub_Step]] by simp
  qed
qed

lemma stopped_subscriber_exits:
  "run_bnode p evs s = (Inr (), s') \<Longrightarrow> bn_subscriber s = Some r \<Longrightarrow> wk_stopping subKey (sub_worker r) \<Longrightarrow>
     sub_steps_left (sub_pc r) \<le> sub_events evs \<Longrightarrow> \<exists>r'. bn_subscriber s' = Some r' \<and> sub_steps_left (sub_pc r') = 0"
proof (induction evs arbitrary: s r)
  case Nil
  then show ?case by simp
next
  case (Cons ev evs)
  obtain s1 where s1: "bnode_step p ev s = (Inr (), s1)" "run_bnode p evs s1 = (Inr (), s')"
    using Cons.prems(1) by (auto simp del: bnode_step.simps elim!: bindS_eq_Inr)
  show ?case
  proof (cases ev)
    case (Sub_Step d)
    obtain r' s2 where r': "receive_step procSubCb (SubscribeProcess p) d (r, s) = (Inr (), (r', s2))" "callback_ok s s2"
      "s1 = put_bsubscriber (bc_subscriber (bn_obj s)) r' s2"
      using bnode_step_sub [OF s1(1) [unfolded Sub_Step] Cons.prems(2)] by blast
    have "sub_steps_left (sub_pc r') \<le> sub_events evs"
      using receive_step_closer [OF r'(1) Cons.prems(3), of "sub_events evs"] Cons.prems(4) by (simp add: Sub_Step)
    moreover have "wk_stopping subKey (sub_worker r')"
      using Cons.prems(3) receive_step_map [OF r'(1)] by (simp add: wk_stopping_def)
    moreover have "bn_subscriber s1 = Some r'" using r'(2) by (simp add: r'(3) bn_subscriber_def callback_ok_def bc_ptrs_def)
    ultimately show ?thesis using Cons.IH [OF s1(2)] by blast
  next
    case (Resp_Step d)
    then show ?thesis
      using Cons.IH [OF s1(2)] Cons.prems(2-4) other_step_subscriber [OF s1(1) [unfolded Resp_Step]] by simp
  qed
qed

text \<open>Stopping a thread ends, and unless a callback threw on the way it succeeds.\<close>

lemma put_event_ok:
  "bn_responder s = Some r \<Longrightarrow> wk_map (resp_worker r') = wk_map (resp_worker r) \<Longrightarrow> resp_pc r' = resp_pc r \<Longrightarrow>
     event_ok s (put_bresponder (bc_responder (bn_obj s)) r' s)"
  "bn_subscriber s = Some t \<Longrightarrow> wk_map (sub_worker t') = wk_map (sub_worker t) \<Longrightarrow> sub_pc t' = sub_pc t \<Longrightarrow>
     event_ok s (put_bsubscriber (bc_subscriber (bn_obj s)) t' s)"
  by (auto simp: event_ok_def resp_alive_def sub_alive_def bn_responder_def bn_subscriber_def same_doms_def)

lemma worker_stop_facts:
  assumes "wk_running key w"
  shows "\<exists>w'. worker_stop key w = (True, w') \<and> wk_stopping key w' \<and> wk_running key w' \<and> wk_pc w' = wk_pc w"
  using assms by (auto simp: worker_stop_def wk_running_def wk_stopping_def)

text \<open>What stopping one thread leaves of the node: everything but that thread.\<close>

definition node_same :: "'s bnode \<Rightarrow> 's bnode \<Rightarrow> bool" where
  "node_same s s' \<longleftrightarrow> bc_ptrs (bn_obj s') = bc_ptrs (bn_obj s) \<and> bc_role (bn_obj s') = bc_role (bn_obj s)
     \<and> same_doms (bn_comm s) (bn_comm s')"

lemma node_same_trans: "node_same s s1 \<Longrightarrow> node_same s1 s2 \<Longrightarrow> node_same s s2"
  using same_doms_trans by (auto simp: node_same_def)

lemma event_ok_same: "event_ok s s' \<Longrightarrow> node_same s s'"
  by (simp add: event_ok_def node_same_def)

lemma node_same_put:
  "bn_responder s = Some r \<Longrightarrow> node_same s (put_bresponder (bc_responder (bn_obj s)) r' s)"
  "bn_subscriber s = Some t \<Longrightarrow> node_same s (put_bsubscriber (bc_subscriber (bn_obj s)) t' s)"
  by (auto simp: node_same_def same_doms_def bn_responder_def bn_subscriber_def)

lemma sub_alive_put_resp: "sub_alive mp (put_bresponder v r s) = sub_alive mp s"
  by (simp add: sub_alive_def bn_subscriber_def)

lemma resp_alive_put_sub: "resp_alive mp (put_bsubscriber v r s) = resp_alive mp s"
  by (simp add: resp_alive_def bn_responder_def)

lemma ptrs_sel:
  "bc_ptrs b' = bc_ptrs b \<longleftrightarrow> bc_responder b' = bc_responder b \<and> bc_requester b' = bc_requester b
     \<and> bc_publisher b' = bc_publisher b \<and> bc_subscriber b' = bc_subscriber b"
  by (auto simp: bc_ptrs_def)

text \<open>The node while its threads run on: a thread told to stop, and a thread joined and forgotten.\<close>

definition tell_responder :: "'s bnode \<Rightarrow> 's bnode" where
  "tell_responder s = (case bn_responder s of None \<Rightarrow> s
     | Some r \<Rightarrow> put_bresponder (bc_responder (bn_obj s)) (snd (StopResponse r)) s)"

definition tell_subscriber :: "'s bnode \<Rightarrow> 's bnode" where
  "tell_subscriber s = (case bn_subscriber s of None \<Rightarrow> s
     | Some r \<Rightarrow> put_bsubscriber (bc_subscriber (bn_obj s)) (snd (StopReceive r)) s)"

definition join_responder :: "'s bnode \<Rightarrow> 's bnode" where
  "join_responder s = (case bn_responder s of None \<Rightarrow> s
     | Some r \<Rightarrow> put_bresponder (bc_responder (bn_obj s)) (snd (ResetResponse (snd (the (WaitResponse r))))) s)"

lemma stop_responder_cases:
  assumes "resp_alive mp s" "mp respKey \<noteq> None" "4 \<le> resp_events evs"
    and "run_bnode p evs (tell_responder s) = (res, t)"
  shows "case res of Inl x \<Rightarrow> stop_responder p evs s = Some (Inl x, t)
    | Inr _ \<Rightarrow> \<exists>mp'. stop_responder p evs s = Some (Inr True, join_responder t) \<and> node_same s (join_responder t)
      \<and> resp_alive mp' (join_responder t) \<and> mp' respKey = None \<and> (\<forall>m2. sub_alive m2 s \<longrightarrow> sub_alive m2 (join_responder t))"
proof -
  let ?v = "bc_responder (bn_obj s)"
  obtain r where r: "bn_responder s = Some r" "wk_running respKey (resp_worker r)" "resp_pc r \<noteq> None"
    using assms(1,2) by (auto simp: resp_alive_def wk_running_def)
  obtain r1 where r1: "StopResponse r = (True, r1)" "wk_stopping respKey (resp_worker r1)" "wk_running respKey (resp_worker r1)"
    "resp_pc r1 = resp_pc r"
    using worker_stop_facts [OF r(2)] by (auto simp: StopResponse_def)
  let ?s1 = "put_bresponder ?v r1 s"
  have s1: "bn_responder ?s1 = Some r1" by (simp add: bn_responder_def)
  have s2: "run_bnode p evs ?s1 = (res, t)" using assms(4) r(1) r1(1) by (simp add: tell_responder_def)
  show ?thesis
  proof (cases res)
    case (Inl x)
    then show ?thesis using r r1(1) s2 by (simp add: stop_responder_def bn_responder_def)
  next
    case (Inr u)
    then have run: "run_bnode p evs ?s1 = (Inr (), t)" using s2 by simp
    have ev: "event_ok ?s1 t" by (rule run_bnode_ok [OF run])
    have v: "bc_responder (bn_obj t) = ?v" using ev by (simp add: event_ok_def ptrs_sel)
    have "steps_left (resp_pc r1) \<le> resp_events evs" using steps_left_le assms(3) by (rule le_trans)
    then obtain r2 where r2: "bn_responder t = Some r2" "steps_left (resp_pc r2) = 0"
      using stopped_responder_exits [OF run s1 r1(2)] by blast
    have "resp_alive (wk_map (resp_worker r1)) t"
      using ev s1 r1(4) r(3) by (auto simp: event_ok_def resp_alive_def)
    then have pc: "resp_pc r2 \<noteq> None" "wk_map (resp_worker r2) = wk_map (resp_worker r1)"
      using r2(1) by (auto simp: resp_alive_def)
    then have e: "resp_pc r2 = Some Exited" using r2(2) by (cases "resp_pc r2" rule: steps_left.cases) auto
    have run2: "wk_running respKey (resp_worker r2)" using pc(2) r1(3) by (simp add: wk_running_def)
    obtain r3 where r3: "WaitResponse r2 = Some (True, r3)" "wk_running respKey (resp_worker r3)" "wk_joined respKey (resp_worker r3)"
      using ro.wait_exited [OF run2 e] by blast
    obtain r4 where r4: "ResetResponse r3 = (Inr True, r4)" "\<not> wk_running respKey (resp_worker r4)"
      using ro.reset_joined [OF r3(2,3)] by blast
    have pc4: "resp_pc r4 \<noteq> None"
      using e r3(1) r4(1) by (auto simp: WaitResponse_def ResetResponse_def worker_wait_def worker_reset_def split: option.splits if_splits)
    let ?s4 = "put_bresponder ?v r4 t"
    have "stop_responder p evs s = Some (Inr True, ?s4)"
      using r(1) r1(1) run r2(1) r3(1) r4(1) v by (simp add: stop_responder_def bn_responder_def)
    moreover have "node_same s ?s4"
      using node_same_trans [OF node_same_trans [OF node_same_put(1) [OF r(1)] event_ok_same [OF ev]] node_same_put(1) [OF r2(1)], of r4] v
      by simp
    moreover have "resp_alive (wk_map (resp_worker r4)) ?s4" using pc4 v by (simp add: resp_alive_def bn_responder_def)
    moreover have "wk_map (resp_worker r4) respKey = None" using r4(2) unfolding wk_running_def by blast
    moreover have "\<forall>m2. sub_alive m2 s \<longrightarrow> sub_alive m2 ?s4"
      using ev by (simp add: event_ok_def sub_alive_put_resp)
    moreover have "?s4 = join_responder t" using r2(1) r3(1) r4(1) v by (simp add: join_responder_def)
    ultimately show ?thesis using Inr by auto
  qed
qed

lemma stop_subscriber_cases:
  assumes "sub_alive mp s" "mp subKey \<noteq> None" "4 \<le> sub_events evs"
    and "run_bnode p evs (tell_subscriber s) = (res, t)"
  shows "case res of Inl x \<Rightarrow> stop_subscriber p evs s = Some (Inl x, t)
    | Inr _ \<Rightarrow> \<exists>s' mp'. stop_subscriber p evs s = Some (Inr True, s') \<and> node_same s s' \<and> sub_alive mp' s' \<and> mp' subKey = None
      \<and> (\<forall>m2. resp_alive m2 s \<longrightarrow> resp_alive m2 s')"
proof -
  let ?v = "bc_subscriber (bn_obj s)"
  obtain r where r: "bn_subscriber s = Some r" "wk_running subKey (sub_worker r)" "sub_pc r \<noteq> None"
    using assms(1,2) by (auto simp: sub_alive_def wk_running_def)
  obtain r1 where r1: "StopReceive r = (True, r1)" "wk_stopping subKey (sub_worker r1)" "wk_running subKey (sub_worker r1)"
    "sub_pc r1 = sub_pc r"
    using worker_stop_facts [OF r(2)] by (auto simp: StopReceive_def)
  let ?s1 = "put_bsubscriber ?v r1 s"
  have s1: "bn_subscriber ?s1 = Some r1" by (simp add: bn_subscriber_def)
  have s2: "run_bnode p evs ?s1 = (res, t)" using assms(4) r(1) r1(1) by (simp add: tell_subscriber_def)
  show ?thesis
  proof (cases res)
    case (Inl x)
    then show ?thesis using r r1(1) s2 by (simp add: stop_subscriber_def bn_subscriber_def)
  next
    case (Inr u)
    then have run: "run_bnode p evs ?s1 = (Inr (), t)" using s2 by simp
    have ev: "event_ok ?s1 t" by (rule run_bnode_ok [OF run])
    have v: "bc_subscriber (bn_obj t) = ?v" using ev by (simp add: event_ok_def ptrs_sel)
    have "sub_steps_left (sub_pc r1) \<le> sub_events evs" using sub_steps_left_le assms(3) by (rule le_trans)
    then obtain r2 where r2: "bn_subscriber t = Some r2" "sub_steps_left (sub_pc r2) = 0"
      using stopped_subscriber_exits [OF run s1 r1(2)] by blast
    have "sub_alive (wk_map (sub_worker r1)) t"
      using ev s1 r1(4) r(3) by (auto simp: event_ok_def sub_alive_def)
    then have pc: "sub_pc r2 \<noteq> None" "wk_map (sub_worker r2) = wk_map (sub_worker r1)"
      using r2(1) by (auto simp: sub_alive_def)
    then have e: "sub_pc r2 = Some Exited" using r2(2) by (cases "sub_pc r2" rule: sub_steps_left.cases) auto
    have run2: "wk_running subKey (sub_worker r2)" using pc(2) r1(3) by (simp add: wk_running_def)
    obtain r3 where r3: "WaitReceive r2 = Some (True, r3)" "wk_running subKey (sub_worker r3)" "wk_joined subKey (sub_worker r3)"
      using so.wait_exited [OF run2 e] by blast
    obtain r4 where r4: "ResetReceive r3 = (Inr True, r4)" "\<not> wk_running subKey (sub_worker r4)"
      using so.reset_joined [OF r3(2,3)] by blast
    have pc4: "sub_pc r4 \<noteq> None"
      using e r3(1) r4(1) by (auto simp: WaitReceive_def ResetReceive_def worker_wait_def worker_reset_def split: option.splits if_splits)
    let ?s4 = "put_bsubscriber ?v r4 t"
    have "stop_subscriber p evs s = Some (Inr True, ?s4)"
      using r(1) r1(1) run r2(1) r3(1) r4(1) v by (simp add: stop_subscriber_def bn_subscriber_def)
    moreover have "node_same s ?s4"
      using node_same_trans [OF node_same_trans [OF node_same_put(2) [OF r(1)] event_ok_same [OF ev]] node_same_put(2) [OF r2(1)], of r4] v
      by simp
    moreover have "sub_alive (wk_map (sub_worker r4)) ?s4" using pc4 v by (simp add: sub_alive_def bn_subscriber_def)
    moreover have "wk_map (sub_worker r4) subKey = None" using r4(2) unfolding wk_running_def by blast
    moreover have "\<forall>m2. resp_alive m2 s \<longrightarrow> resp_alive m2 ?s4"
      using ev by (simp add: event_ok_def resp_alive_put_sub)
    ultimately show ?thesis using Inr by auto
  qed
qed

text \<open>Giving the instances back.\<close>

lemma destroy_inst_none: "IsInstInvalid (inst (bn_obj s)) \<Longrightarrow> destroy_inst inst clear s = (Inr (), s)"
  by (simp add: destroy_inst_def)

lemma destroy_inst_live:
  assumes "\<not> IsInstInvalid (inst (bn_obj s))" "DestroyInstance (inst (bn_obj s)) (bn_comm s) = (Inr True, m)"
  shows "destroy_inst inst clear s = (Inr (), s\<lparr>bn_comm := m, bn_obj := clear (bn_obj s)\<rparr>)"
  using assms by (simp add: destroy_inst_def bindS_def liftS_def MakeInstValue_def)

lemma DestroyInstance_kinds:
  assumes "comm_ok m"
  shows "comm_requesters m v = Some q \<Longrightarrow> DestroyInstance v m = (Inr True, m\<lparr>comm_requesters := (comm_requesters m)(v := None)\<rparr>)"
    and "comm_responders m v = Some r \<Longrightarrow> destroy_worker respKey (resp_worker r) = None \<Longrightarrow>
      DestroyInstance v m = (Inr True, m\<lparr>comm_responders := (comm_responders m)(v := None)\<rparr>)"
    and "comm_subscribers m v = Some s \<Longrightarrow> destroy_worker subKey (sub_worker s) = None \<Longrightarrow>
      DestroyInstance v m = (Inr True, m\<lparr>comm_subscribers := (comm_subscribers m)(v := None)\<rparr>)"
    and "comm_publishers m v = Some b \<Longrightarrow> DestroyInstance v m = (Inr True, m\<lparr>comm_publishers := (comm_publishers m)(v := None)\<rparr>)"
  using assms by (auto simp: DestroyInstance_def comm_ok_def split: option.splits)

text \<open>Every pointer is null or names a live instance; a live thread was started.\<close>

definition node_live :: "'s bnode \<Rightarrow> bool" where
  "node_live s \<longleftrightarrow> comm_ok (bn_comm s) \<and> bc_role (bn_obj s) \<noteq> Role_None
     \<and> (IsInstInvalid (bc_responder (bn_obj s)) \<or> (\<exists>mp. resp_alive mp s \<and> mp respKey \<noteq> None))
     \<and> (IsInstInvalid (bc_subscriber (bn_obj s)) \<or> (\<exists>mp. sub_alive mp s \<and> mp subKey \<noteq> None))
     \<and> (IsInstInvalid (bc_requester (bn_obj s)) \<or> bn_requester s \<noteq> None)
     \<and> (IsInstInvalid (bc_publisher (bn_obj s)) \<or> bn_publisher s \<noteq> None)"

text \<open>Ready to be given back: no thread of a live instance is joinable.\<close>

definition node_joined :: "'s bnode \<Rightarrow> bool" where
  "node_joined s \<longleftrightarrow> comm_ok (bn_comm s)
     \<and> (IsInstInvalid (bc_responder (bn_obj s)) \<or> (\<exists>r. bn_responder s = Some r \<and> destroy_worker respKey (resp_worker r) = None))
     \<and> (IsInstInvalid (bc_subscriber (bn_obj s)) \<or> (\<exists>r. bn_subscriber s = Some r \<and> destroy_worker subKey (sub_worker r) = None))
     \<and> (IsInstInvalid (bc_requester (bn_obj s)) \<or> bn_requester s \<noteq> None)
     \<and> (IsInstInvalid (bc_publisher (bn_obj s)) \<or> bn_publisher s \<noteq> None)"

lemma node_joined_null: "node_joined s \<Longrightarrow> 0 \<notin> comm_dom (bn_comm s)"
  by (simp add: node_joined_def comm_ok_def)

lemma destroy_responder_joined:
  assumes "node_joined s"
  shows "\<exists>s'. destroy_inst bc_responder (\<lambda>b. b\<lparr>bc_responder := ResetInstInvalid\<rparr>) s = (Inr (), s') \<and> node_joined s'
    \<and> bn_obj s' = (bn_obj s)\<lparr>bc_responder := 0\<rparr> \<and> comm_dom (bn_comm s') = comm_dom (bn_comm s) - {bc_responder (bn_obj s)}"
proof (cases "IsInstInvalid (bc_responder (bn_obj s))")
  case True
  then show ?thesis
    using assms destroy_inst_none [of bc_responder s] node_joined_null [OF assms] by (auto simp: IsInstInvalid_def intro!: exI [of _ s])
next
  case False
  then obtain r where r: "comm_responders (bn_comm s) (bc_responder (bn_obj s)) = Some r" "destroy_worker respKey (resp_worker r) = None"
    using assms by (auto simp: node_joined_def bn_responder_def)
  have d: "DestroyInstance (bc_responder (bn_obj s)) (bn_comm s)
      = (Inr True, (bn_comm s)\<lparr>comm_responders := (comm_responders (bn_comm s))(bc_responder (bn_obj s) := None)\<rparr>)"
    using DestroyInstance_kinds(2) [OF _ r] assms by (simp add: node_joined_def)
  show ?thesis
    using destroy_inst_live [of bc_responder s, OF False d] assms DestroyInstance_ok [of "bn_comm s" "bc_responder (bn_obj s)"] d
      DestroyInstance_dom [of "bn_comm s" "bc_responder (bn_obj s)"]
    by (simp add: node_joined_def ResetInstInvalid_def IsInstInvalid_def bn_responder_def bn_subscriber_def bn_requester_def bn_publisher_def)
qed

lemma destroy_requester_joined:
  assumes "node_joined s"
  shows "\<exists>s'. destroy_inst bc_requester (\<lambda>b. b\<lparr>bc_requester := ResetInstInvalid\<rparr>) s = (Inr (), s') \<and> node_joined s'
    \<and> bn_obj s' = (bn_obj s)\<lparr>bc_requester := 0\<rparr> \<and> comm_dom (bn_comm s') = comm_dom (bn_comm s) - {bc_requester (bn_obj s)}"
proof (cases "IsInstInvalid (bc_requester (bn_obj s))")
  case True
  then show ?thesis
    using assms destroy_inst_none [of bc_requester s] node_joined_null [OF assms] by (auto simp: IsInstInvalid_def intro!: exI [of _ s])
next
  case False
  then obtain r where r: "comm_requesters (bn_comm s) (bc_requester (bn_obj s)) = Some r"
    using assms by (auto simp: node_joined_def bn_requester_def)
  have d: "DestroyInstance (bc_requester (bn_obj s)) (bn_comm s)
      = (Inr True, (bn_comm s)\<lparr>comm_requesters := (comm_requesters (bn_comm s))(bc_requester (bn_obj s) := None)\<rparr>)"
    using DestroyInstance_kinds(1) [OF _ r] assms by (simp add: node_joined_def)
  show ?thesis
    using destroy_inst_live [of bc_requester s, OF False d] assms DestroyInstance_ok [of "bn_comm s" "bc_requester (bn_obj s)"] d
      DestroyInstance_dom [of "bn_comm s" "bc_requester (bn_obj s)"]
    by (simp add: node_joined_def ResetInstInvalid_def IsInstInvalid_def bn_responder_def bn_subscriber_def bn_requester_def bn_publisher_def)
qed

lemma destroy_publisher_joined:
  assumes "node_joined s"
  shows "\<exists>s'. destroy_inst bc_publisher (\<lambda>b. b\<lparr>bc_publisher := ResetInstInvalid\<rparr>) s = (Inr (), s') \<and> node_joined s'
    \<and> bn_obj s' = (bn_obj s)\<lparr>bc_publisher := 0\<rparr> \<and> comm_dom (bn_comm s') = comm_dom (bn_comm s) - {bc_publisher (bn_obj s)}"
proof (cases "IsInstInvalid (bc_publisher (bn_obj s))")
  case True
  then show ?thesis
    using assms destroy_inst_none [of bc_publisher s] node_joined_null [OF assms] by (auto simp: IsInstInvalid_def intro!: exI [of _ s])
next
  case False
  then obtain r where r: "comm_publishers (bn_comm s) (bc_publisher (bn_obj s)) = Some r"
    using assms by (auto simp: node_joined_def bn_publisher_def)
  have d: "DestroyInstance (bc_publisher (bn_obj s)) (bn_comm s)
      = (Inr True, (bn_comm s)\<lparr>comm_publishers := (comm_publishers (bn_comm s))(bc_publisher (bn_obj s) := None)\<rparr>)"
    using DestroyInstance_kinds(4) [OF _ r] assms by (simp add: node_joined_def)
  show ?thesis
    using destroy_inst_live [of bc_publisher s, OF False d] assms DestroyInstance_ok [of "bn_comm s" "bc_publisher (bn_obj s)"] d
      DestroyInstance_dom [of "bn_comm s" "bc_publisher (bn_obj s)"]
    by (simp add: node_joined_def ResetInstInvalid_def IsInstInvalid_def bn_responder_def bn_subscriber_def bn_requester_def bn_publisher_def)
qed

lemma destroy_subscriber_joined:
  assumes "node_joined s"
  shows "\<exists>s'. destroy_inst bc_subscriber (\<lambda>b. b\<lparr>bc_subscriber := ResetInstInvalid\<rparr>) s = (Inr (), s') \<and> node_joined s'
    \<and> bn_obj s' = (bn_obj s)\<lparr>bc_subscriber := 0\<rparr> \<and> comm_dom (bn_comm s') = comm_dom (bn_comm s) - {bc_subscriber (bn_obj s)}"
proof (cases "IsInstInvalid (bc_subscriber (bn_obj s))")
  case True
  then show ?thesis
    using assms destroy_inst_none [of bc_subscriber s] node_joined_null [OF assms] by (auto simp: IsInstInvalid_def intro!: exI [of _ s])
next
  case False
  then obtain r where r: "comm_subscribers (bn_comm s) (bc_subscriber (bn_obj s)) = Some r" "destroy_worker subKey (sub_worker r) = None"
    using assms by (auto simp: node_joined_def bn_subscriber_def)
  have d: "DestroyInstance (bc_subscriber (bn_obj s)) (bn_comm s)
      = (Inr True, (bn_comm s)\<lparr>comm_subscribers := (comm_subscribers (bn_comm s))(bc_subscriber (bn_obj s) := None)\<rparr>)"
    using DestroyInstance_kinds(3) [OF _ r] assms by (simp add: node_joined_def)
  show ?thesis
    using destroy_inst_live [of bc_subscriber s, OF False d] assms DestroyInstance_ok [of "bn_comm s" "bc_subscriber (bn_obj s)"] d
      DestroyInstance_dom [of "bn_comm s" "bc_subscriber (bn_obj s)"]
    by (simp add: node_joined_def ResetInstInvalid_def IsInstInvalid_def bn_responder_def bn_subscriber_def bn_requester_def bn_publisher_def)
qed

section \<open>Stop\<close>

lemma node_live_same:
  assumes "node_same s s'"
  shows "comm_ok (bn_comm s') = comm_ok (bn_comm s)" "bc_role (bn_obj s') = bc_role (bn_obj s)"
    "bc_responder (bn_obj s') = bc_responder (bn_obj s)" "bc_subscriber (bn_obj s') = bc_subscriber (bn_obj s)"
    "bc_requester (bn_obj s') = bc_requester (bn_obj s)" "bc_publisher (bn_obj s') = bc_publisher (bn_obj s)"
    "bn_requester s' = bn_requester s" "(\<exists>b. bn_publisher s' = Some b) = (\<exists>b. bn_publisher s = Some b)"
proof -
  have sd: "same_doms (bn_comm s) (bn_comm s')" and p: "bc_ptrs (bn_obj s') = bc_ptrs (bn_obj s)"
    and r: "bc_role (bn_obj s') = bc_role (bn_obj s)"
    using assms by (simp_all add: node_same_def)
  note ps = p [unfolded ptrs_sel]
  show "comm_ok (bn_comm s') = comm_ok (bn_comm s)" using sd by (rule same_doms_ok)
  show "bc_role (bn_obj s') = bc_role (bn_obj s)" by (rule r)
  show "bc_responder (bn_obj s') = bc_responder (bn_obj s)" "bc_subscriber (bn_obj s') = bc_subscriber (bn_obj s)"
    "bc_requester (bn_obj s') = bc_requester (bn_obj s)" "bc_publisher (bn_obj s') = bc_publisher (bn_obj s)"
    using ps by blast+
  show "bn_requester s' = bn_requester s" using ps sd by (simp add: same_doms_def bn_requester_def)
  have "bc_publisher (bn_obj s) \<in> dom (comm_publishers (bn_comm s')) \<longleftrightarrow> bc_publisher (bn_obj s) \<in> dom (comm_publishers (bn_comm s))"
    using sd by (simp only: same_doms_def)
  then show "(\<exists>b. bn_publisher s' = Some b) = (\<exists>b. bn_publisher s = Some b)"
    using ps by (simp add: bn_publisher_def domIff)
qed

lemma started_live:
  assumes "node_started node es s" "node \<noteq> Role_None"
  shows "node_live s"
proof -
  have "sub_pc started_subscriber \<noteq> None \<and> wk_map (sub_worker started_subscriber) subKey \<noteq> None"
    by (simp add: started_subscriber_def StartReceive_def Subscribe_def worker_start_def connected_subscriber_worker new_worker_def)
  then have "\<exists>mp. sub_alive mp s \<and> mp subKey \<noteq> None"
    using assms(1) unfolding node_started_def sub_alive_def by blast
  moreover have "resp_pc (started_responder e) \<noteq> None \<and> wk_map (resp_worker (started_responder e)) respKey \<noteq> None" for e
    by (simp add: started_responder_run)
  then have "node = Server \<Longrightarrow> \<exists>mp. resp_alive mp s \<and> mp respKey \<noteq> None"
    using assms(1) by (auto simp: node_started_def resp_alive_def)
  ultimately show ?thesis
    using assms by (auto simp: node_live_def node_started_def split: if_splits)
qed

lemma alive_joined:
  "resp_alive mp s \<Longrightarrow> mp respKey = None \<Longrightarrow> \<exists>r. bn_responder s = Some r \<and> destroy_worker respKey (resp_worker r) = None"
  "sub_alive mp' s \<Longrightarrow> mp' subKey = None \<Longrightarrow> \<exists>t. bn_subscriber s = Some t \<and> destroy_worker subKey (sub_worker t) = None"
  by (auto simp: resp_alive_def sub_alive_def destroy_worker_def split: option.splits)

text \<open>Between the two: the responder's thread is joined, the subscriber's still runs.\<close>

definition node_half :: "'s bnode \<Rightarrow> bool" where
  "node_half s \<longleftrightarrow> comm_ok (bn_comm s)
     \<and> (IsInstInvalid (bc_responder (bn_obj s)) \<or> (\<exists>mp. resp_alive mp s \<and> mp respKey = None))
     \<and> (IsInstInvalid (bc_subscriber (bn_obj s)) \<or> (\<exists>mp. sub_alive mp s \<and> mp subKey \<noteq> None))
     \<and> (IsInstInvalid (bc_requester (bn_obj s)) \<or> bn_requester s \<noteq> None)
     \<and> (IsInstInvalid (bc_publisher (bn_obj s)) \<or> bn_publisher s \<noteq> None)"

lemma same_doms_dom: "same_doms m m' \<Longrightarrow> comm_dom m' = comm_dom m"
  by (simp add: same_doms_def comm_dom_def)

lemma node_same_refl: "node_same s s"
  by (simp add: node_same_def)

lemma null_responder: "comm_ok (bn_comm s) \<Longrightarrow> IsInstInvalid (bc_responder (bn_obj s)) \<Longrightarrow> bn_responder s = None"
  by (auto simp: bn_responder_def comm_ok_def comm_dom_def IsInstInvalid_def)

text \<open>The first half, the responder's thread: the events are its chance to return.\<close>

definition first_run :: "platform \<Rightarrow> bevent list \<Rightarrow> ('s bnode, fault, unit) smon" where
  "first_run p evs s = run_bnode p (if IsInstInvalid (bc_responder (bn_obj s)) then [] else evs) (tell_responder s)"

lemma stop_responder_half:
  assumes "node_live s" "4 \<le> resp_events evs" "first_run p evs s = (res, t)"
  shows "case res of
      Inl x \<Rightarrow> (if IsInstInvalid (bc_responder (bn_obj s)) then Some (Inr True, s) else stop_responder p evs s) = Some (Inl x, t)
    | Inr _ \<Rightarrow> (if IsInstInvalid (bc_responder (bn_obj s)) then Some (Inr True, s) else stop_responder p evs s)
          = Some (Inr True, join_responder t) \<and> node_half (join_responder t) \<and> node_same s (join_responder t)"
proof (cases "IsInstInvalid (bc_responder (bn_obj s))")
  case True
  have "bn_responder s = None" using null_responder [OF _ True] assms(1) by (simp add: node_live_def)
  then have "tell_responder s = s" "join_responder s = s" by (simp_all add: tell_responder_def join_responder_def)
  moreover have "node_half s" using assms(1) True by (auto simp: node_live_def node_half_def)
  ultimately show ?thesis using assms(3) True node_same_refl [of s] by (auto simp: first_run_def)
next
  case False
  then obtain mp where mp: "resp_alive mp s" "mp respKey \<noteq> None" using assms(1) by (auto simp: node_live_def)
  have run: "run_bnode p evs (tell_responder s) = (res, t)" using assms(3) False by (simp add: first_run_def)
  note c = stop_responder_cases [OF mp assms(2) run]
  show ?thesis
  proof (cases res)
    case (Inl x)
    then show ?thesis using c False by simp
  next
    case (Inr u)
    let ?s = "join_responder t"
    obtain mp' where r: "stop_responder p evs s = Some (Inr True, ?s)" "node_same s ?s" "resp_alive mp' ?s" "mp' respKey = None"
      and k: "\<forall>m2. sub_alive m2 s \<longrightarrow> sub_alive m2 ?s"
      using c Inr by auto
    have "node_half ?s"
      using assms(1) r(3,4) k unfolding node_half_def node_live_def node_live_same [OF r(2)] not_None_eq by blast
    then show ?thesis using r(1,2) False Inr by simp
  qed
qed

text \<open>The second half, the subscriber's thread.\<close>

definition second_run :: "platform \<Rightarrow> bevent list \<Rightarrow> ('s bnode, fault, unit) smon" where
  "second_run p evs s = run_bnode p (if IsInstInvalid (bc_subscriber (bn_obj s)) then [] else evs) (tell_subscriber s)"

lemma null_subscriber: "comm_ok (bn_comm s) \<Longrightarrow> IsInstInvalid (bc_subscriber (bn_obj s)) \<Longrightarrow> bn_subscriber s = None"
  by (auto simp: bn_subscriber_def comm_ok_def comm_dom_def IsInstInvalid_def)

lemma stop_subscriber_joined:
  assumes "node_half s" "4 \<le> sub_events evs" "second_run p evs s = (res, t)"
  shows "case res of
      Inl x \<Rightarrow> (if IsInstInvalid (bc_subscriber (bn_obj s)) then Some (Inr True, s) else stop_subscriber p evs s) = Some (Inl x, t)
    | Inr _ \<Rightarrow> \<exists>s'. (if IsInstInvalid (bc_subscriber (bn_obj s)) then Some (Inr True, s) else stop_subscriber p evs s) = Some (Inr True, s')
          \<and> node_joined s' \<and> node_same s s'"
proof (cases "IsInstInvalid (bc_subscriber (bn_obj s))")
  case True
  have "bn_subscriber s = None" using null_subscriber [OF _ True] assms(1) by (simp add: node_half_def)
  then have "tell_subscriber s = s" by (simp add: tell_subscriber_def)
  moreover have "node_joined s" using assms(1) True alive_joined(1) [of _ s] by (auto simp: node_joined_def node_half_def)
  ultimately show ?thesis using assms(3) True node_same_refl [of s] by (auto simp: second_run_def)
next
  case False
  then obtain mp where mp: "sub_alive mp s" "mp subKey \<noteq> None" using assms(1) by (auto simp: node_half_def)
  have run: "run_bnode p evs (tell_subscriber s) = (res, t)" using assms(3) False by (simp add: second_run_def)
  note c = stop_subscriber_cases [OF mp assms(2) run]
  show ?thesis
  proof (cases res)
    case (Inl x)
    then show ?thesis using c False by simp
  next
    case (Inr u)
    then obtain s' mp' where r: "stop_subscriber p evs s = Some (Inr True, s')" "node_same s s'" "sub_alive mp' s'" "mp' subKey = None"
      and k: "\<forall>m2. resp_alive m2 s \<longrightarrow> resp_alive m2 s'"
      using c by auto
    have "node_joined s'"
      using assms(1) alive_joined(1) [of _ s'] alive_joined(2) [OF r(3,4)] k
      unfolding node_joined_def node_half_def node_live_same [OF r(2)] not_None_eq by blast
    then show ?thesis using r(1,2) False Inr by auto
  qed
qed

text \<open>Giving the four instances back.\<close>

lemma destroy_all_joined:
  assumes "node_joined s2"
  shows "\<exists>s'. bindS (destroy_inst bc_responder (\<lambda>b. b\<lparr>bc_responder := ResetInstInvalid\<rparr>)) (\<lambda>_.
      bindS (destroy_inst bc_requester (\<lambda>b. b\<lparr>bc_requester := ResetInstInvalid\<rparr>)) (\<lambda>_.
      bindS (destroy_inst bc_publisher (\<lambda>b. b\<lparr>bc_publisher := ResetInstInvalid\<rparr>)) (\<lambda>_.
      bindS (destroy_inst bc_subscriber (\<lambda>b. b\<lparr>bc_subscriber := ResetInstInvalid\<rparr>)) (\<lambda>_.
      bindS (set_obj (\<lambda>b. b\<lparr>bc_role := Role_None, bc_addrReqRep := [], bc_addrPubSub := []\<rparr>)) (\<lambda>_.
      retS ok))))) s2 = (Inr ok, s') \<and> node_idle s' \<and> comm_dom (bn_comm s') = comm_dom (bn_comm s2) - set (bc_ptrs (bn_obj s2))"
proof -
  note d = destroy_responder_joined destroy_requester_joined destroy_publisher_joined destroy_subscriber_joined
  obtain s3 where s3: "destroy_inst bc_responder (\<lambda>b. b\<lparr>bc_responder := ResetInstInvalid\<rparr>) s2 = (Inr (), s3)" "node_joined s3"
    "bn_obj s3 = (bn_obj s2)\<lparr>bc_responder := 0\<rparr>" "comm_dom (bn_comm s3) = comm_dom (bn_comm s2) - {bc_responder (bn_obj s2)}"
    using d(1) [OF assms] by blast
  obtain s4 where s4: "destroy_inst bc_requester (\<lambda>b. b\<lparr>bc_requester := ResetInstInvalid\<rparr>) s3 = (Inr (), s4)" "node_joined s4"
    "bn_obj s4 = (bn_obj s3)\<lparr>bc_requester := 0\<rparr>" "comm_dom (bn_comm s4) = comm_dom (bn_comm s3) - {bc_requester (bn_obj s3)}"
    using d(2) [OF s3(2)] by blast
  obtain s5 where s5: "destroy_inst bc_publisher (\<lambda>b. b\<lparr>bc_publisher := ResetInstInvalid\<rparr>) s4 = (Inr (), s5)" "node_joined s5"
    "bn_obj s5 = (bn_obj s4)\<lparr>bc_publisher := 0\<rparr>" "comm_dom (bn_comm s5) = comm_dom (bn_comm s4) - {bc_publisher (bn_obj s4)}"
    using d(3) [OF s4(2)] by blast
  obtain s6 where s6: "destroy_inst bc_subscriber (\<lambda>b. b\<lparr>bc_subscriber := ResetInstInvalid\<rparr>) s5 = (Inr (), s6)" "node_joined s6"
    "bn_obj s6 = (bn_obj s5)\<lparr>bc_subscriber := 0\<rparr>" "comm_dom (bn_comm s6) = comm_dom (bn_comm s5) - {bc_subscriber (bn_obj s5)}"
    using d(4) [OF s5(2)] by blast
  have "node_idle (s6\<lparr>bn_obj := (bn_obj s6)\<lparr>bc_role := Role_None, bc_addrReqRep := [], bc_addrPubSub := []\<rparr>\<rparr>)"
    using s6 s5(3) s4(3) s3(3) by (simp add: node_idle_def node_joined_def IsInstInvalid_def)
  moreover have "comm_dom (bn_comm s6) = comm_dom (bn_comm s2) - set (bc_ptrs (bn_obj s2))"
    using s6(4) s5(3,4) s4(3,4) s3(3,4) by (auto simp: bc_ptrs_def)
  ultimately show ?thesis using s3(1) s4(1) s5(1) s6(1) by (simp add: bindS_def)
qed

text \<open>Stopping a node ends: it throws what a thread threw before it was joined, and if none did it succeeds and
  gives every instance back.\<close>

lemma Stop_ends:
  assumes "node_live s" "4 \<le> resp_events evs1" "4 \<le> sub_events evs2"
  shows "case first_run p evs1 s of
      (Inl x, t) \<Rightarrow> Stop p evs1 evs2 s = Some (Inl x, t)
    | (Inr _, t) \<Rightarrow> (case second_run p evs2 (join_responder t) of
        (Inl x, u) \<Rightarrow> Stop p evs1 evs2 s = Some (Inl x, u)
      | (Inr _, u) \<Rightarrow> \<exists>s'. Stop p evs1 evs2 s = Some (Inr True, s') \<and> node_idle s'
          \<and> comm_dom (bn_comm s') = comm_dom (bn_comm s) - set (bc_ptrs (bn_obj s)))"
proof -
  have role: "bc_role (bn_obj s) \<noteq> Role_None" using assms(1) by (simp add: node_live_def)
  obtain res1 t where t: "first_run p evs1 s = (res1, t)" by fastforce
  note h = stop_responder_half [OF assms(1,2) t]
  show ?thesis
  proof (cases res1)
    case (Inl x)
    then show ?thesis using h t role by (simp add: Stop_def)
  next
    case first: (Inr u1)
    let ?s1 = "join_responder t"
    have s1: "(if IsInstInvalid (bc_responder (bn_obj s)) then Some (Inr True, s) else stop_responder p evs1 s) = Some (Inr True, ?s1)"
      "node_half ?s1" "node_same s ?s1" using h first by simp_all
    obtain res2 u where u: "second_run p evs2 ?s1 = (res2, u)" by fastforce
    note j = stop_subscriber_joined [OF s1(2) assms(3) u]
    show ?thesis
    proof (cases res2)
      case (Inl x)
      then show ?thesis using j t u role first s1(1) by (simp add: Stop_def)
    next
      case (Inr u2)
      then obtain s2 where s2: "(if IsInstInvalid (bc_subscriber (bn_obj ?s1)) then Some (Inr True, ?s1) else stop_subscriber p evs2 ?s1) = Some (Inr True, s2)"
        "node_joined s2" "node_same ?s1 s2" using j by auto
      have "node_same s s2" using node_same_trans [OF s1(3) s2(3)] .
      then have "comm_dom (bn_comm s2) - set (bc_ptrs (bn_obj s2)) = comm_dom (bn_comm s) - set (bc_ptrs (bn_obj s))"
        using same_doms_dom [of "bn_comm s" "bn_comm s2"] by (simp add: node_same_def)
      then show ?thesis
        using destroy_all_joined [OF s2(2), of True] t u role first s1(1) s2(1) Inr by (auto simp: Stop_def)
    qed
  qed
qed

text \<open>Two threads in which nothing happens.\<close>

lemma idle_first_run:
  assumes "bn_responder s = Some (started_responder e)" "\<not> IsInstInvalid (bc_responder (bn_obj s))"
  shows "\<exists>t. first_run p (replicate 4 (Resp_Step d)) s = (Inr (), t) \<and> bn_subscriber (join_responder t) = bn_subscriber s
    \<and> bn_obj (join_responder t) = bn_obj s"
  using assms by (simp add: first_run_def tell_responder_def StopResponse_def worker_stop_def numeral_eq_Suc bindS_def
      respond_step_def worker_test_def goto_def started_responder_run bn_responder_def bn_subscriber_def join_responder_def)

lemma idle_second_run:
  assumes "bn_subscriber s = Some started_subscriber" "\<not> IsInstInvalid (bc_subscriber (bn_obj s))"
  shows "\<exists>t. second_run p (replicate 4 (Sub_Step d)) s = (Inr (), t)"
proof -
  have w: "sub_worker started_subscriber = \<lparr>wk_map = [subKey \<mapsto> (True, True)], wk_pc = Some Spin\<rparr>"
    by (simp add: started_subscriber_def StartReceive_def Subscribe_def worker_start_def connected_subscriber_worker new_worker_def)
  then show ?thesis
    using assms by (simp add: second_run_def tell_subscriber_def StopReceive_def worker_stop_def numeral_eq_Suc bindS_def
        receive_step_def worker_test_def goto_def)
qed

lemma Stop_refused: "bc_role (bn_obj s) = Role_None \<Longrightarrow> Stop p evs1 evs2 s = Some (Inr False, s)"
  by (simp add: Stop_def)

end
