(* ===== verification/ResponderReach.thy ===== *)
theory ResponderReach
  imports Responder
begin

text \<open>
  The reachable states of a responder, whatever its owner calls, whoever connects and however far its
  thread got: \<open>resp_any\<close> whatever it receives, \<open>resp_reach\<close> as long as what it receives are single non-empty
  messages. In every one of the latter the phase of the REP socket fits the position of the thread, so the thread
  is never refused by the state machine of its own socket; after an empty message, or one of several parts,
  it is not so.
\<close>

inductive resp_reach :: "platform \<Rightarrow> (bytes \<Rightarrow> ('a, fault, bytes) smon) \<Rightarrow> responder \<Rightarrow> 'a \<Rightarrow> bool" for p proc where
  created: "resp_reach p proc (new_Responder rnd) a"
| inited: "resp_reach p proc r a \<Longrightarrow> Responder_Init p binds addr r = (res, r') \<Longrightarrow> resp_reach p proc r' a"
| accepted: "resp_reach p proc r a \<Longrightarrow> resp_reach p proc (resp_accept x rid r) a"
| started: "resp_reach p proc r a \<Longrightarrow> StartResponse r = (b, r') \<Longrightarrow> resp_reach p proc r' a"
| stopped: "resp_reach p proc r a \<Longrightarrow> StopResponse r = (b, r') \<Longrightarrow> resp_reach p proc r' a"
| waited: "resp_reach p proc r a \<Longrightarrow> WaitResponse r = Some (b, r') \<Longrightarrow> resp_reach p proc r' a"
| reset: "resp_reach p proc r a \<Longrightarrow> ResetResponse r = (Inr b, r') \<Longrightarrow> resp_reach p proc r' a"
| stepped: "resp_reach p proc r a \<Longrightarrow> served d r \<Longrightarrow> respond_step proc d (r, a) = (Inr (), (r', a')) \<Longrightarrow> resp_reach p proc r' a'"

inductive resp_any :: "platform \<Rightarrow> (bytes \<Rightarrow> ('a, fault, bytes) smon) \<Rightarrow> responder \<Rightarrow> 'a \<Rightarrow> bool" for p proc where
  any_created: "resp_any p proc (new_Responder rnd) a"
| any_inited: "resp_any p proc r a \<Longrightarrow> Responder_Init p binds addr r = (res, r') \<Longrightarrow> resp_any p proc r' a"
| any_accepted: "resp_any p proc r a \<Longrightarrow> resp_any p proc (resp_accept x rid r) a"
| any_started: "resp_any p proc r a \<Longrightarrow> StartResponse r = (b, r') \<Longrightarrow> resp_any p proc r' a"
| any_stopped: "resp_any p proc r a \<Longrightarrow> StopResponse r = (b, r') \<Longrightarrow> resp_any p proc r' a"
| any_waited: "resp_any p proc r a \<Longrightarrow> WaitResponse r = Some (b, r') \<Longrightarrow> resp_any p proc r' a"
| any_reset: "resp_any p proc r a \<Longrightarrow> ResetResponse r = (Inr b, r') \<Longrightarrow> resp_any p proc r' a"
| any_stepped: "resp_any p proc r a \<Longrightarrow> respond_step proc d (r, a) = (res, (r', a')) \<Longrightarrow> resp_any p proc r' a'"

lemma resp_reach_any: "resp_reach p proc r a \<Longrightarrow> resp_any p proc r a"
  by (induction rule: resp_reach.induct) (auto intro: resp_any.intros)

section \<open>The invariant\<close>

definition resp_inv :: "responder \<Rightarrow> bool" where
  "resp_inv r \<longleftrightarrow> phase_ok r \<and> wk_inv respKey (resp_worker r)"

lemma Responder_Init_keeps:
  "Responder_Init p binds addr r = (res, r') \<Longrightarrow> resp_socket r' = resp_socket r \<and> resp_worker r' = resp_worker r"
  by (auto simp: Responder_Init_def resp_set_def bindS_def liftS_def split: if_splits prod.splits sum.splits)

lemma router_attach_mandatory: "rt_mandatory (router_attach_pipe x s) = rt_mandatory s"
  using identify_peer_mandatory by (auto simp: router_attach_pipe_def Let_def split: prod.splits)

lemma resp_accept_keeps:
  "resp_worker (resp_accept x rid r) = resp_worker r"
  "rp_sending_reply (resp_socket (resp_accept x rid r)) = rp_sending_reply (resp_socket r)"
  "rep_mandatory (resp_socket (resp_accept x rid r)) = rep_mandatory (resp_socket r)"
  by (simp_all add: resp_accept_def Let_def router_attach_mandatory)

lemma goto_inv: "wk_inv key w \<Longrightarrow> wk_pc w = Some pc \<Longrightarrow> pc \<noteq> Exited \<Longrightarrow> wk_inv key (goto pc' w)"
  by (auto simp: wk_inv_def goto_def)

lemma respond_step_wk_inv:
  "respond_step proc d (r, a) = (res, (r', a')) \<Longrightarrow> wk_inv respKey (resp_worker r) \<Longrightarrow> wk_inv respKey (resp_worker r')"
  by (auto simp: respond_step_def Let_def wk_inv_test intro: goto_inv
      split: option.splits wpc.splits resp_job.splits prod.splits sum.splits)

lemma worker_calls_pc:
  "snd (worker_start key w) = w \<or> wk_pc (snd (worker_start key w)) = Some Spin"
  "wk_pc (snd (worker_stop key w)) = wk_pc w"
  "worker_wait key w = Some (b, w') \<Longrightarrow> wk_pc w' = wk_pc w"
  "wk_pc (snd (worker_reset key w)) = wk_pc w"
  by (auto simp: worker_start_def worker_stop_def worker_wait_def worker_reset_def split: option.splits if_splits)

text \<open>Starting never disturbs a request in service: the map still holds the thread that serves it.\<close>

lemma start_not_job:
  "wk_inv key w \<Longrightarrow> wk_pc w = Some (Job j) \<Longrightarrow> snd (worker_start key w) = w"
  by (auto simp: wk_inv_def worker_start_def)

lemma start_pc_job:
  "wk_inv key w \<Longrightarrow> (\<exists>j. wk_pc (snd (worker_start key w)) = Some (Job j)) = (\<exists>j. wk_pc w = Some (Job j))"
  by (auto simp: wk_inv_def worker_start_def)

lemma resp_reach_inv: "resp_reach p proc r a \<Longrightarrow> resp_inv r"
proof (induction rule: resp_reach.induct)
  case (created rnd a)
  show ?case by (simp add: resp_inv_def phase_ok_def new_Responder_def new_worker_def wk_inv_def new_rep_def new_router_def)
next
  case (inited r a binds addr res r')
  then show ?case using Responder_Init_keeps [OF inited.hyps(2)] by (simp add: resp_inv_def phase_ok_def)
next
  case (accepted r a x rid)
  then show ?case by (simp add: resp_inv_def phase_ok_def resp_accept_keeps)
next
  case (started r a b r')
  then show ?case
    using wk_inv_start [of respKey "resp_worker r"] start_pc_job [of respKey "resp_worker r"]
    by (auto simp: resp_inv_def phase_ok_def StartResponse_def split: prod.splits)
next
  case (stopped r a b r')
  then show ?case
    using wk_inv_stop [of respKey "resp_worker r"] worker_calls_pc(2) [of respKey "resp_worker r"]
    by (auto simp: resp_inv_def phase_ok_def StopResponse_def split: prod.splits)
next
  case (waited r a b r')
  then show ?case
    using wk_inv_wait [of respKey "resp_worker r"] worker_calls_pc(3) [of respKey "resp_worker r"]
    by (auto simp: resp_inv_def phase_ok_def WaitResponse_def split: option.splits)
next
  case (reset r a b r')
  then show ?case
    using wk_inv_reset [of respKey "resp_worker r"] worker_calls_pc(4) [of respKey "resp_worker r"]
    by (auto simp: resp_inv_def phase_ok_def ResetResponse_def split: prod.splits)
next
  case (stepped r a d r' a')
  then show ?case using respond_step_phase respond_step_wk_inv by (auto simp: resp_inv_def)
qed

text \<open>The part that does not depend on what arrives.\<close>

lemma resp_any_inv: "resp_any p proc r a \<Longrightarrow> wk_inv respKey (resp_worker r)"
proof (induction rule: resp_any.induct)
  case (any_created rnd a)
  show ?case by (simp add: new_Responder_def new_worker_def wk_inv_def)
next
  case (any_inited r a binds addr res r')
  then show ?case using Responder_Init_keeps [OF any_inited.hyps(2)] by simp
next
  case (any_accepted r a x rid)
  then show ?case by (simp add: resp_accept_keeps)
next
  case (any_started r a b r')
  then show ?case using wk_inv_start [of respKey "resp_worker r"] by (auto simp: StartResponse_def split: prod.splits)
next
  case (any_stopped r a b r')
  then show ?case using wk_inv_stop [of respKey "resp_worker r"] by (auto simp: StopResponse_def split: prod.splits)
next
  case (any_waited r a b r')
  then show ?case using wk_inv_wait [of respKey "resp_worker r"] by (auto simp: WaitResponse_def split: option.splits)
next
  case (any_reset r a b r')
  then show ?case using wk_inv_reset [of respKey "resp_worker r"] by (auto simp: ResetResponse_def split: prod.splits)
next
  case (any_stepped r a d res r' a')
  then show ?case using respond_step_wk_inv [OF any_stepped.hyps(2)] by simp
qed

section \<open>The thread is never refused\<close>

lemma fq_recv_from_errors: "fq_recv_from n q = (Inl e, q') \<Longrightarrow> e \<noteq> EFSM"
  by (induction n q arbitrary: q' rule: fq_recv_from.induct) (auto simp: Let_def split: prod.splits option.splits if_splits)

lemma router_recvpipe_errors: "router_recvpipe n s = (Inl e, s') \<Longrightarrow> e \<noteq> EFSM"
proof (induction n arbitrary: s)
  case (Suc n)
  then show ?case
    using fq_recv_from_errors
    by (fastforce simp: Let_def fq_recvpipe_def split: prod.splits sum.splits if_splits)
qed simp

lemma router_xrecv_errors: "router_xrecv s = (Inl e, s') \<Longrightarrow> e \<noteq> EFSM"
  using router_recvpipe_errors [of "Suc (router_inbound s)" s]
  by (auto simp: router_xrecv_def Let_def simp del: router_recvpipe.simps split: prod.splits sum.splits if_splits)

lemma on_router_xrecv_errors: "on_router router_xrecv r = (Inl e, r') \<Longrightarrow> e \<noteq> EFSM"
  by (auto simp: liftS_def split: prod.splits sum.splits dest: router_xrecv_errors)

lemma on_router_xsend_errors: "on_router (router_xsend m) r = (Inl e, r') \<Longrightarrow> e \<noteq> EFSM"
  by (auto simp: liftS_def router_xsend_def router_xsend_id_def router_xsend_part_def Let_def
      split: prod.splits sum.splits if_splits option.splits bool.splits)

lemma rep_labels_errors: "rep_labels n r = (Inl e, r') \<Longrightarrow> e \<noteq> EFSM"
proof (induction n arbitrary: r)
  case (Suc n)
  then show ?case
    using on_router_xrecv_errors by (fastforce split: prod.splits sum.splits if_splits)
qed simp

lemma rep_xrecv_errors: "\<not> rp_sending_reply r \<Longrightarrow> rep_xrecv r = (Inl e, r') \<Longrightarrow> e \<noteq> EFSM"
  using rep_labels_errors on_router_xrecv_errors
  by (fastforce simp: rep_xrecv_def elim!: bindS_eq_Inl bindS_eq_Inr split: if_splits)

lemma rep_recv_errors: "\<not> rp_sending_reply r \<Longrightarrow> rep_recv as r = (Inl e, r') \<Longrightarrow> e \<noteq> EFSM"
proof (induction "as" arbitrary: r)
  case Nil
  then show ?case using rep_xrecv_errors by simp
next
  case (Cons a as)
  obtain res r1 where x: "rep_xrecv r = (res, r1)" by fastforce
  show ?case
  proof (cases "res = Inl EAGAIN")
    case True
    then show ?thesis
      using Cons.prems x Cons.IH [of "rep_deliver a r1"] rep_xrecv_Inl_fsm [of r EAGAIN r1] by simp
  next
    case False
    then have "rep_xrecv r = (Inl e, r')" using Cons.prems(2) x by (auto split: sum.splits errno.splits)
    then show ?thesis using Cons.prems(1) by (rule rep_xrecv_errors [rotated])
  qed
qed

lemma rep_xsend_errors: "rp_sending_reply r \<Longrightarrow> rep_xsend m r = (Inl e, r') \<Longrightarrow> e \<noteq> EFSM"
  using on_router_xsend_errors by (fastforce simp: rep_xsend_def elim!: bindS_eq_Inl split: if_splits)

text \<open>So a step of the thread fails with \<open>EFSM\<close> only if the callback did.\<close>

lemma respond_step_not_refused:
  assumes "resp_reach p proc r a" "\<And>q a. fst (proc q a) \<noteq> Inl (Zmq_Error EFSM)"
  shows "fst (respond_step proc d (r, a)) \<noteq> Inl (Zmq_Error EFSM)"
proof -
  have inv: "phase_ok r" using resp_reach_inv [OF assms(1)] by (simp add: resp_inv_def)
  show ?thesis
  proof (cases "resp_pc r" rule: steps_left.cases)
    case 3
    then have "\<not> rp_sending_reply (resp_socket r)" using inv by (simp add: phase_ok_def)
    then show ?thesis
      using 3 rep_recv_errors [of "resp_socket r" d] by (auto simp: respond_step_def zmq_result_def Let_def split: prod.splits sum.splits)
  next
    case (4 q)
    then show ?thesis using assms(2) [of q a] by (auto simp: respond_step_def split: prod.splits sum.splits)
  next
    case (5 q)
    then have "rp_sending_reply (resp_socket r)" using inv by (simp add: phase_ok_def)
    then show ?thesis
      using 5 rep_xsend_errors [of "resp_socket r" "mk_msg q False"] by (auto simp: respond_step_def zmq_result_def split: prod.splits sum.splits)
  qed (auto simp: respond_step_def)
qed

end
