(* ===== verification/TrieSpec.thy ===== *)
theory TrieSpec
  imports ZmqPub ZmqSubOps
begin

text \<open>
  The subscription tries against what they are for. A subscriber's trie, driven by any sequence of
  additions and removals, counts the subscriptions of each topic; a publisher's, driven by any
  sequence of additions, removals and ends of pipes, holds the pairs of a pipe and a topic.
\<close>

section \<open>The subscriber's trie\<close>

datatype sub_op = Sub_Add bytes | Sub_Rm bytes

fun trie_apply :: "sub_op \<Rightarrow> sub_trie \<Rightarrow> sub_trie" where
  "trie_apply (Sub_Add p) t = snd (trie_add p t)"
| "trie_apply (Sub_Rm p) t = snd (trie_rm p t)"

text \<open>The specification: a counter for each topic that stops at 0.\<close>

fun count_apply :: "sub_op \<Rightarrow> (bytes \<Rightarrow> nat) \<Rightarrow> bytes \<Rightarrow> nat" where
  "count_apply (Sub_Add p) n = n(p := n p + 1)"
| "count_apply (Sub_Rm p) n = n(p := n p - 1)"

definition trie_of :: "sub_op list \<Rightarrow> sub_trie" where
  "trie_of ops = fold trie_apply ops (new_trie 0)"

definition count_of :: "sub_op list \<Rightarrow> bytes \<Rightarrow> nat" where
  "count_of ops = fold count_apply ops (\<lambda>_. 0)"

lemma count_word_0: "n < 2 ^ 32 \<Longrightarrow> (of_nat n = (0 :: 32 word)) = (n = 0)"
  by (auto simp: word_of_nat_eq_0_iff dest: dvd_imp_le)

lemma trie_apply_counts:
  assumes "trie_ok t" "\<And>p. subs t p = of_nat (n p)" "\<And>p. n p < 2 ^ 32 - 1"
  shows "trie_ok (trie_apply op t) \<and> (\<forall>p. subs (trie_apply op t) p = of_nat (count_apply op n p))"
proof (cases op)
  case (Sub_Add p)
  then show ?thesis using assms(1,2) by (simp add: trie_add_ok subs_add)
next
  case (Sub_Rm p)
  have "subs t p = 0 \<longleftrightarrow> n p = 0"
    using count_word_0 [of "n p"] assms(2) [of p] assms(3) [of p] by simp
  then show ?thesis
    using Sub_Rm assms(1,2) by (cases "n p") (auto simp: trie_rm_ok subs_rm)
qed

lemma count_apply_le: "count_apply op n p \<le> n p + 1"
  by (cases op) auto

lemma trie_fold_counts:
  assumes "trie_ok t" "\<And>p. subs t p = of_nat (n p)" "\<And>p. n p + length ops < 2 ^ 32"
  shows "trie_ok (fold trie_apply ops t) \<and> (\<forall>p. subs (fold trie_apply ops t) p = of_nat (fold count_apply ops n p)
    \<and> fold count_apply ops n p \<le> n p + length ops)"
  using assms
proof (induction ops arbitrary: t n)
  case Nil
  then show ?case by simp
next
  case (Cons op ops)
  have lt: "n p < 2 ^ 32 - 1" for p using Cons.prems(3) [of p] by simp
  note a = trie_apply_counts [OF Cons.prems(1,2) lt, of op]
  have b: "count_apply op n p + length ops < 2 ^ 32" for p
    using Cons.prems(3) [of p] count_apply_le [of op n p] by simp
  let ?t = "fold trie_apply ops (trie_apply op t)" and ?n = "fold count_apply ops (count_apply op n)"
  have ih: "trie_ok ?t \<and> (\<forall>p. subs ?t p = of_nat (?n p) \<and> ?n p \<le> count_apply op n p + length ops)"
    using Cons.IH [of "trie_apply op t" "count_apply op n"] a b by simp
  have "?n p \<le> n p + length (op # ops)" for p
  proof -
    have "?n p \<le> count_apply op n p + length ops" using ih by blast
    also have "\<dots> \<le> n p + length (op # ops)" using count_apply_le [of op n p] by simp
    finally show ?thesis .
  qed
  then show ?case using ih by simp
qed

lemma trie_of_counts:
  assumes "length ops < 2 ^ 32"
  shows "trie_ok (trie_of ops)" "subs (trie_of ops) p = of_nat (count_of ops p)" "count_of ops p \<le> length ops"
  using trie_fold_counts [of "new_trie 0" "\<lambda>_. 0" ops] assms by (simp_all add: trie_of_def count_of_def subs_new)

lemma trie_of_check:
  assumes "length ops < 2 ^ 32"
  shows "trie_check d (trie_of ops) \<longleftrightarrow> (\<exists>p. prefix p d \<and> 0 < count_of ops p)"
proof -
  have "subs (trie_of ops) p \<noteq> 0 \<longleftrightarrow> 0 < count_of ops p" for p
    using trie_of_counts(2,3) [OF assms, of p] assms count_word_0 [of "count_of ops p"] by simp
  then show ?thesis by (simp add: trie_check_iff)
qed

section \<open>The publisher's trie\<close>

datatype pub_op = Pub_Add bytes pipe_id | Pub_Rm bytes pipe_id | Pub_Rm_Pipe pipe_id

fun mtrie_apply :: "pub_op \<Rightarrow> mtrie \<Rightarrow> mtrie" where
  "mtrie_apply (Pub_Add p x) t = snd (mtrie_add p x t)"
| "mtrie_apply (Pub_Rm p x) t = snd (mtrie_rm p x t)"
| "mtrie_apply (Pub_Rm_Pipe x) t = mtrie_rm_pipe x t"

fun pairs_apply :: "pub_op \<Rightarrow> (bytes \<times> pipe_id) set \<Rightarrow> (bytes \<times> pipe_id) set" where
  "pairs_apply (Pub_Add p x) R = insert (p, x) R"
| "pairs_apply (Pub_Rm p x) R = R - {(p, x)}"
| "pairs_apply (Pub_Rm_Pipe x) R = {q \<in> R. snd q \<noteq> x}"

definition mtrie_of :: "pub_op list \<Rightarrow> mtrie" where
  "mtrie_of ops = fold mtrie_apply ops (new_trie [])"

definition pairs_of :: "pub_op list \<Rightarrow> (bytes \<times> pipe_id) set" where
  "pairs_of ops = fold pairs_apply ops {}"

lemma mtrie_apply_pairs:
  assumes "mtrie_ok t" "\<And>p. msubs t p = {x. (p, x) \<in> R}"
  shows "mtrie_ok (mtrie_apply op t) \<and> (\<forall>p. msubs (mtrie_apply op t) p = {x. (p, x) \<in> pairs_apply op R})"
  using assms by (cases op) (auto simp: mtrie_add_ok mtrie_rm_ok mtrie_rm_pipe_ok msubs_add msubs_rm msubs_rm_pipe)

lemma mtrie_fold_pairs:
  assumes "mtrie_ok t" "\<And>p. msubs t p = {x. (p, x) \<in> R}"
  shows "mtrie_ok (fold mtrie_apply ops t) \<and> (\<forall>p. msubs (fold mtrie_apply ops t) p = {x. (p, x) \<in> fold pairs_apply ops R})"
  using assms
proof (induction ops arbitrary: t R)
  case (Cons op ops)
  then show ?case using mtrie_apply_pairs [OF Cons.prems, of op] by simp
qed simp

lemma mtrie_of_pairs: "mtrie_ok (mtrie_of ops)" "msubs (mtrie_of ops) p = {x. (p, x) \<in> pairs_of ops}"
  using mtrie_fold_pairs [of "new_trie []" "{}" ops] by (simp_all add: mtrie_of_def pairs_of_def mtrie_ok_new msubs_new)

lemma mtrie_of_match: "set (mtrie_match d (mtrie_of ops)) = {x. \<exists>p. prefix p d \<and> (p, x) \<in> pairs_of ops}"
  using mtrie_of_pairs(2) [of ops] by (auto simp: mtrie_match_iff)

lemma trie_apply_ok: "trie_ok t \<Longrightarrow> trie_ok (trie_apply op t)"
  by (cases op) (simp_all add: trie_add_ok trie_rm_ok)

lemma trie_of_ok: "trie_ok (trie_of ops)"
proof -
  have "trie_ok (fold trie_apply ops t)" if "trie_ok t" for t
    using that by (induction ops arbitrary: t) (simp_all add: trie_apply_ok)
  then show ?thesis by (simp add: trie_of_def)
qed

end
