(* ===== verification/Samples.thy ===== *)
theory Samples
  imports RpcSystem BroadcastSystem BroadcastStop ResponderReach TrieSpec
begin

text \<open>Concrete machines, networks, clients, servers and nodes, on which the properties are applied.\<close>

definition le64 :: platform where "le64 = \<lparr>plat_le = True\<rparr>"

definition be64 :: platform where "be64 = \<lparr>plat_le = False\<rparr>"

text \<open>A network on which every address can be bound and reached, and one on which none can.\<close>

definition net :: "inst_value \<Rightarrow> env" where
  "net a = \<lparr>e_alloc = a, e_rnd = 7, e_connects = (\<lambda>_. True), e_binds = (\<lambda>_. True)\<rparr>"

definition no_net :: "inst_value \<Rightarrow> env" where
  "no_net a = \<lparr>e_alloc = a, e_rnd = 7, e_connects = (\<lambda>_. False), e_binds = (\<lambda>_. False)\<rparr>"

text \<open>A server that counts its calls: \<open>inc\<close> returns its argument plus one, \<open>fail\<close> throws, \<open>nop\<close> is
  a \<open>void\<close> member function.\<close>

definition inc_fn :: "nat rpc_fn" where
  "inc_fn = \<lparr>fn_params = [CArith T32], fn_ret = Some (CArith T32), fn_body = (\<lambda>args n.
     (Inr (case args of [VArith (A32 w)] \<Rightarrow> VArith (A32 (w + 1)) | _ \<Rightarrow> VArith (A32 0)), n + 1))\<rparr>"

definition fail_fn :: "nat rpc_fn" where
  "fail_fn = \<lparr>fn_params = [], fn_ret = None, fn_body = (\<lambda>args n. (Inl ''bad'', n))\<rparr>"

definition nop_fn :: "64 word \<Rightarrow> nat rpc_fn" where
  "nop_fn this = \<lparr>fn_params = [], fn_ret = None, fn_body = (\<lambda>args n. (Inr (VTuple []), n + 1))\<rparr>"

definition sample_rpc :: "nat RpcProcessResponse" where
  "sample_rpc = BindFunc ''inc'' (FuncPtr inc_fn) (BindFunc_member ''nop'' nop_fn 16 (new_RpcProcessResponse 0))"

definition fail_rpc :: "nat RpcProcessResponse" where
  "fail_rpc = BindFunc ''fail'' (StdFunction fail_fn) (new_RpcProcessResponse 0)"

definition sample_server0 :: "nat server" where
  "sample_server0 = \<lparr>sv_comm = new_Communicator, sv_rpc = sample_rpc\<rparr>"

definition sample_client0 :: client where
  "sample_client0 = \<lparr>cl_comm = new_Communicator, cl_rpc = new_RpcProcessRequest\<rparr>"

definition sample_client :: client where
  "sample_client = snd (ConnectNetwork le64 (net 16) ''127.0.0.1'' 5555 sample_client0)"

lemma sample_env [simp]:
  "e_alloc (net a) = a" "e_connects (net a) s" "e_binds (net a) s" "e_alloc (no_net a) = a" "\<not> e_connects (no_net a) s"
  "\<not> e_binds (no_net a) s" "plat_le le64" "\<not> plat_le be64"
  by (simp_all add: net_def no_net_def le64_def be64_def)

lemma fresh_new [simp]: "fresh_alloc e new_Communicator \<longleftrightarrow> e_alloc e \<noteq> 0"
  by (simp add: fresh_alloc_def comm_dom_def new_Communicator_def)

lemma sample_client0_sel [simp]:
  "cl_comm sample_client0 = new_Communicator" "rpq_requester (cl_rpc sample_client0) = 0" "IsInstInvalid 0"
  "idle (rpq_serializer (cl_rpc sample_client0))" "rpq_autoReconnectNetwork (cl_rpc sample_client0)"
  by (simp_all add: sample_client0_def new_RpcProcessRequest_def ResetInstInvalid_def IsInstInvalid_def)

lemma sample_client_connected:
  "ConnectNetwork le64 (net 16) ''127.0.0.1'' 5555 sample_client0 = (Inr True, sample_client)"
  "cl_ready 1000 sample_client" "cl_requester sample_client = Some (timed (connected_requester (net 16)))"
  "rpq_serverAddress (cl_rpc sample_client) = address ''127.0.0.1'' 5555" "rpq_autoReconnectNetwork (cl_rpc sample_client)"
proof -
  obtain c where "ConnectNetwork le64 (net 16) ''127.0.0.1'' 5555 sample_client0 = (Inr True, c)" "cl_ready 1000 c"
    "cl_requester c = Some (timed (connected_requester (net 16)))" "rpq_serverAddress (cl_rpc c) = address ''127.0.0.1'' 5555"
    "rpq_autoReconnectNetwork (cl_rpc c)"
    using ConnectNetwork_good [of sample_client0 "net 16" "''127.0.0.1''" 5555 le64] by (auto simp: comm_ok_new)
  then show "ConnectNetwork le64 (net 16) ''127.0.0.1'' 5555 sample_client0 = (Inr True, sample_client)"
    "cl_ready 1000 sample_client" "cl_requester sample_client = Some (timed (connected_requester (net 16)))"
    "rpq_serverAddress (cl_rpc sample_client) = address ''127.0.0.1'' 5555" "rpq_autoReconnectNetwork (cl_rpc sample_client)"
    by (simp_all add: sample_client_def)
qed

lemma sample_rpc_sel [simp]:
  "rsp_rpcs sample_rpc ''inc'' = Some (FuncPtr inc_fn)" "rsp_rpcs sample_rpc ''nop'' = Some (MemberPtr nop_fn 16)"
  "rsp_rpcs sample_rpc ''who'' = None" "rsp_app sample_rpc = 0" "rsp_responder sample_rpc = 0" "idle (rsp_serializer sample_rpc)"
  "rsp_rpcs fail_rpc ''fail'' = Some (StdFunction fail_fn)" "rsp_app fail_rpc = 0"
  "sv_comm sample_server0 = new_Communicator" "sv_rpc sample_server0 = sample_rpc"
  by (simp_all add: sample_rpc_def fail_rpc_def BindFunc_def BindFunc_member_def new_RpcProcessResponse_def sample_server0_def
      ResetInstInvalid_def)

lemma mem_repr_nonempty: "mem_repr w a \<noteq> []"
  using length_mem_repr [of w a] aty_size_pos [of "aty_of a"] by force

lemma sample_table_ok: "table_ok w (rsp_rpcs sample_rpc)"
proof -
  have "fn_ok w inc_fn" "fn_ok w (nop_fn 16)"
    using mem_repr_nonempty by (auto simp: fn_ok_def inc_fn_def nop_fn_def fn_result_def split: list.splits cval.splits arith.splits)
  then show ?thesis
    by (auto simp: table_ok_def sample_rpc_def BindFunc_def BindFunc_member_def new_RpcProcessResponse_def split: if_splits)
qed

lemma sample_client_fresh: "fresh_alloc (net 48) (cl_comm sample_client)"
proof -
  have "CreateRequester le64 (net 16) addr new_Communicator = (Inr 16, new_Communicator
      \<lparr>comm_requesters := (comm_requesters new_Communicator)(16 \<mapsto> connected_requester (net 16))\<rparr>)" for addr
    using CreateRequester_run [of "net 16" new_Communicator le64 addr] by simp
  then have "comm_dom (cl_comm sample_client) = {16}"
    by (simp add: sample_client_def sample_client0_def ConnectNetwork_def new_RpcProcessRequest_def ResetInstInvalid_def IsInstInvalid_def
        bindS_def liftS_def on_requester_def SetTimeout_run Let_def)
      (simp add: comm_dom_def new_Communicator_def)
  then show ?thesis by (simp add: fresh_alloc_def)
qed

section \<open>Servers\<close>

definition sample_server :: "nat server" where
  "sample_server = snd (StartProcess be64 (net 32) ''10.0.0.1'' 80 sample_server0)"

lemma sample_server_started:
  "StartProcess be64 (net 32) ''10.0.0.1'' 80 sample_server0 = (Inr True, sample_server)"
  "comm_ok (sv_comm sample_server)" "sv_responder sample_server = Some (started_responder (net 32))"
  "sv_rpc sample_server = sample_rpc\<lparr>rsp_responder := 32\<rparr>"
proof -
  obtain s where "StartProcess be64 (net 32) ''10.0.0.1'' 80 sample_server0 = (Inr True, s)" "comm_ok (sv_comm s)"
    "sv_responder s = Some (started_responder (net 32))" "sv_rpc s = sample_rpc\<lparr>rsp_responder := 32\<rparr>"
    using StartProcess_good [of sample_server0 "net 32" "''10.0.0.1''" 80 be64] by (auto simp: comm_ok_new)
  then show "StartProcess be64 (net 32) ''10.0.0.1'' 80 sample_server0 = (Inr True, sample_server)"
    "comm_ok (sv_comm sample_server)" "sv_responder sample_server = Some (started_responder (net 32))"
    "sv_rpc sample_server = sample_rpc\<lparr>rsp_responder := 32\<rparr>"
    by (simp_all add: sample_server_def)
qed

definition exited_responder :: "env \<Rightarrow> responder" where
  "exited_responder e = (started_responder e)\<lparr>resp_worker := goto Exited (resp_worker (started_responder e))\<rparr>"

text \<open>A responder whose thread is in its loop, with two peers, the first of which asks \<open>q\<close>.\<close>

definition listening_responder :: responder where
  "listening_responder = (started_responder (net 32))\<lparr>resp_worker := goto Check (resp_worker (started_responder (net 32)))\<rparr>"

definition asked_responder :: "bytes \<Rightarrow> responder" where
  "asked_responder q = (let r = resp_accept 6 ''bob'' (resp_accept 5 ''amy'' listening_responder)
     in r\<lparr>resp_socket := rep_deliver (5, envelope q) (resp_socket r)\<rparr>)"

definition asked_server :: "bytes \<Rightarrow> nat server" where
  "asked_server q = sample_server\<lparr>sv_comm := (sv_comm sample_server)\<lparr>comm_responders := (comm_responders (sv_comm sample_server))(32 \<mapsto> asked_responder q)\<rparr>\<rparr>"

lemma listening_responder_sel:
  "resp_socket listening_responder = new_rep 7" "resp_options listening_responder = options_init\<lparr>o_rcvtimeo := 1000\<rparr>"
  "resp_listening listening_responder"
  using started_responder_run [of "net 32"] by (simp_all add: listening_responder_def net_def resp_listening_def ex_bool_eq)

lemma asked_responder_ready:
  "resp_listening (asked_responder q)" "rep_idle (resp_socket (asked_responder q))" "rep_next 5 (resp_socket (asked_responder q))"
  "rep_peer 5 (resp_socket (asked_responder q))" "p_in (rt_heap (rp_router (resp_socket (asked_responder q))) 5) = envelope q"
  "rep_out 6 (resp_socket (asked_responder q)) = []"
proof -
  show "resp_listening (asked_responder q)"
    using listening_responder_sel(3) by (simp add: asked_responder_def Let_def resp_listening_def resp_accept_def)
  note d = asked_responder_def Let_def resp_accept_def listening_responder_sel new_rep_def new_router_def router_attach_pipe_def
    identify_peer_def pipe_read_def pipe_readable_def set_pipe_def set_routing_id_def add_out_pipe_def rep_deliver_def process_activate_read_def
    fq_attach_def new_fq_def arr_push_back_def arr_swap_def new_pipe_def options_init_def pipe_count_read_def
  show "rep_idle (resp_socket (asked_responder q))" "rep_next 5 (resp_socket (asked_responder q))"
    "rep_peer 5 (resp_socket (asked_responder q))" "p_in (rt_heap (rp_router (resp_socket (asked_responder q))) 5) = envelope q"
    "rep_out 6 (resp_socket (asked_responder q)) = []"
    by (simp_all add: d rep_idle_def rep_next_def rep_peer_def rep_out_def pipe_check_hwm_def ex_bool_eq)
qed

lemma asked_server_sel:
  "sv_rpc (asked_server q) = sample_rpc\<lparr>rsp_responder := 32\<rparr>" "sv_listening (asked_server q)"
  "sv_socket (asked_server q) = resp_socket (asked_responder q)"
  using sample_server_started(2,3,4) asked_responder_ready(1) comm_ok_upd_responder [of "sv_comm sample_server" 32 "started_responder (net 32)"]
  by (simp_all add: asked_server_def sv_listening_def sv_responder_def sv_socket_def)

lemma sample_reach: "resp_reach p proc (started_responder (net 32)) a"
proof -
  have "Responder_Init p (\<lambda>_. True) ''x'' (new_Responder 7) = (Inr True, bound_responder (net 32))"
    by (simp add: Responder_Init_run bound_responder_def net_def)
  then have "resp_reach p proc (bound_responder (net 32)) a" by (rule resp_reach.inited [OF resp_reach.created])
  then show ?thesis by (rule resp_reach.started) (rule started_responder_run(1))
qed

section \<open>Publishers and subscribers\<close>

definition sample_publisher :: publisher where
  "sample_publisher = pub_deliver (3, [\<lparr>m_data = ''topic'', m_more = False, m_kind = Subscribe_Cmd\<rparr>]) (pub_accept 3 new_Publisher)"

lemma sample_publisher_ready:
  "pub_ok (pub_socket sample_publisher)" "3 \<in> eligible (xp_dist (pub_socket sample_publisher))"
  "''topic'' \<in> {p. 3 \<in> msubs (xp_subscriptions (pub_socket sample_publisher)) p}" "pipe_open (xp_heap (pub_socket sample_publisher) 3)"
  "pub_out 3 (pub_socket sample_publisher) = []"
  using new_publisher_subscribed [where y = 3 and topic = "''topic''"] by (simp_all add: sample_publisher_def pub_out_def)

lemma sample_publisher_subscribed: "3 \<in> pub_subscribed (pub_socket sample_publisher) ''topic1''"
proof -
  have "prefix ''topic'' ''topic1''" by simp
  then show ?thesis using sample_publisher_ready(2,3) unfolding pub_subscribed_def by blast
qed

lemma connected_subscriber_ready:
  "sub_peer 0 (sub_socket connected_subscriber)" "sub_plain (sub_socket connected_subscriber)"
  "\<not> sub_takes (sub_socket connected_subscriber) e" "subs (xs_subscriptions (sub_socket connected_subscriber)) = (\<lambda>_. 0)"
proof -
  have keys: "trie_keys (new_trie 0) = []" by (simp add: new_trie_def)
  show "sub_peer 0 (sub_socket connected_subscriber)" "sub_plain (sub_socket connected_subscriber)"
    "subs (xs_subscriptions (sub_socket connected_subscriber)) = (\<lambda>_. 0)"
    by (simp_all add: keys connected_subscriber_def Subscriber_Init_def new_Subscriber_def new_sub_def xsub_attach_pipe_def
        subs_new sub_peer_def sub_plain_def fq_attach_def new_fq_def arr_push_back_def arr_swap_def pipe_flush_def
        Let_def)
  then show "\<not> sub_takes (sub_socket connected_subscriber) e" by (simp add: sub_takes_def)
qed

section \<open>Nodes of a broadcast\<close>

text \<open>Nodes that bind \<open>inc\<close>, and a network with four fresh addresses.\<close>

definition start_net :: start_env where
  "start_net = \<lparr>se_publisher = net 64, se_responder = net 80, se_subscriber = net 96, se_requester = net 112\<rparr>"

definition no_publisher_net :: start_env where
  "no_publisher_net = start_net\<lparr>se_publisher := no_net 64\<rparr>"

lemma no_publisher_net_sel [simp]: "se_publisher no_publisher_net = no_net 64" "se_responder no_publisher_net = net 80"
  by (simp_all add: no_publisher_net_def start_net_def)

definition sample_node0 :: "nat bnode" where
  "sample_node0 = (let s = new_bnode 0 in s\<lparr>bn_obj := Broadcast_BindFunc ''inc'' (FuncPtr inc_fn) (bn_obj s)\<rparr>)"

lemma sample_node0_sel [simp]:
  "node_idle sample_node0" "start_fresh start_net (bn_comm sample_node0)" "start_fresh no_publisher_net (bn_comm sample_node0)"
  "client_reachable start_net ip cf bc" "client_reachable no_publisher_net ip cf bc" "server_bindable start_net ip cf bc"
  "bc_rpcs (bn_obj sample_node0) ''inc'' = Some (FuncPtr inc_fn)" "bc_rpcs (bn_obj sample_node0) ''who'' = None"
  "bc_app (bn_obj sample_node0) = 0" "bc_callback (bn_obj sample_node0) = None" "idle (bc_fsCfn (bn_obj sample_node0))"
proof -
  show "node_idle sample_node0"
    using new_bnode_idle [of "0 :: nat"] by (simp add: sample_node0_def Let_def node_idle_def Broadcast_BindFunc_def)
qed (simp_all add: sample_node0_def new_bnode_def new_RpcAsyncBroadcast_def Let_def Broadcast_BindFunc_def start_fresh_def start_net_def
    no_publisher_net_def client_reachable_def server_bindable_def)

definition sample_started :: "Role \<Rightarrow> nat bnode" where
  "sample_started node = snd (Start le64 start_net node ''10.0.0.1'' 80 81 sample_node0)"

lemma sample_started_node:
  assumes "node \<noteq> Role_None"
  shows "Start le64 start_net node ''10.0.0.1'' 80 81 sample_node0 = (Inr True, sample_started node)"
    "node_started node start_net (sample_started node)" "bc_rpcs (bn_obj (sample_started node)) = bc_rpcs (bn_obj sample_node0)"
    "bc_app (bn_obj (sample_started node)) = 0" "bc_callback (bn_obj (sample_started node)) = None"
    "bn_caller 1000 (sample_started node)"
proof -
  obtain s where s: "Start le64 start_net node ''10.0.0.1'' 80 81 sample_node0 = (Inr True, s)" "node_started node start_net s"
    "bc_rpcs (bn_obj s) = bc_rpcs (bn_obj sample_node0)" "bc_app (bn_obj s) = 0" "bc_callback (bn_obj s) = None"
    "idle (bc_fsCfn (bn_obj s))"
    using Start_good [OF sample_node0_sel(1) assms sample_node0_sel(2,4,6), of le64 "''10.0.0.1''" 80 81] sample_node0_sel(9-11) by metis
  have "bn_caller 1000 s" by (rule started_caller [OF s(2,6)])
  then show "Start le64 start_net node ''10.0.0.1'' 80 81 sample_node0 = (Inr True, sample_started node)"
    "node_started node start_net (sample_started node)" "bc_rpcs (bn_obj (sample_started node)) = bc_rpcs (bn_obj sample_node0)"
    "bc_app (bn_obj (sample_started node)) = 0" "bc_callback (bn_obj (sample_started node)) = None"
    "bn_caller 1000 (sample_started node)"
    using s by (simp_all add: sample_started_def)
qed

text \<open>The server once its thread is in its loop, a caller has connected as pipe 5 and a subscriber of
  everything as pipe 3; a node whose subscriber's thread is in its loop.\<close>

definition serving_node :: "nat bnode" where
  "serving_node = bn_accept_subscriber 3 [] (bn_accept_caller 5 ''amy'' (snd (run_bnode le64 [Resp_Step []] (sample_started Server))))"

lemma serving_node_ready:
  "bn_serving 1000 5 serving_node" "bn_obj serving_node = bn_obj (sample_started Server)"
  "\<exists>b. bn_publisher serving_node = Some b \<and> 3 \<in> eligible (xp_dist (pub_socket b))
         \<and> 3 \<in> msubs (xp_subscriptions (pub_socket b)) [] \<and> pipe_open (xp_heap (pub_socket b) 3)"
proof -
  obtain s where s: "run_bnode le64 [Resp_Step []] (sample_started Server) = (Inr (), s)"
    "let t = bn_accept_subscriber 3 [] (bn_accept_caller 5 ''amy'' s) in
    bn_serving 1000 5 t \<and> bn_obj t = bn_obj (sample_started Server)
    \<and> (\<exists>b. bn_publisher t = Some b \<and> 3 \<in> eligible (xp_dist (pub_socket b))
         \<and> 3 \<in> msubs (xp_subscriptions (pub_socket b)) [] \<and> pipe_open (xp_heap (pub_socket b) 3))"
    using started_serving [OF sample_started_node(2) [of Server], of le64 "[]" 3 "[]" 5 "''amy''"] by auto
  have e: "serving_node = bn_accept_subscriber 3 [] (bn_accept_caller 5 ''amy'' s)"
    using s(1) by (simp add: serving_node_def del: run_bnode.simps)
  show "bn_serving 1000 5 serving_node" "bn_obj serving_node = bn_obj (sample_started Server)"
    "\<exists>b. bn_publisher serving_node = Some b \<and> 3 \<in> eligible (xp_dist (pub_socket b))
         \<and> 3 \<in> msubs (xp_subscriptions (pub_socket b)) [] \<and> pipe_open (xp_heap (pub_socket b) 3)"
    using s(2) unfolding e Let_def by blast+
qed

definition receiving_node :: "nat bnode" where
  "receiving_node = snd (run_bnode le64 [Sub_Step []] (sample_started Client))"

lemma receiving_node_ready:
  "bn_receiving receiving_node" "bc_app (bn_obj receiving_node) = 0" "bc_rpcs (bn_obj receiving_node) = bc_rpcs (bn_obj sample_node0)"
proof -
  obtain s where "run_bnode le64 [Sub_Step []] (sample_started Client) = (Inr (), s)" "bn_receiving s"
    "bc_app (bn_obj s) = bc_app (bn_obj (sample_started Client))" "bc_rpcs (bn_obj s) = bc_rpcs (bn_obj (sample_started Client))"
    using started_receiving [OF sample_started_node(2) [of Client] sample_started_node(5) [of Client], of le64 "[]"] by auto
  then show "bn_receiving receiving_node" "bc_app (bn_obj receiving_node) = 0"
    "bc_rpcs (bn_obj receiving_node) = bc_rpcs (bn_obj sample_node0)"
    using sample_started_node(3,4) [of Client] by (simp_all add: receiving_node_def del: run_bnode.simps)
qed

end
