(* ===== verification/ZmtpWire.thy ===== *)
theory ZmtpWire
  imports ZmqPub
begin

text \<open>
  What a message is on a connection (\<open>3rd/zeromq/src\<close>): network byte order (\<open>wire.hpp\<close>), the flag
  byte of a message and the command frames (\<open>msg.hpp\<close>, \<open>msg.cpp\<close>), and the headers the three
  encoders put before a body (\<open>v1_encoder.cpp\<close>, \<open>v2_encoder.cpp\<close>, \<open>v3_1_encoder.cpp\<close>). Sizes are
  \<open>size_t\<close>, 64 bits wide.
\<close>

unbundle bit_operations_syntax

section \<open>wire.hpp\<close>

definition byte_at :: "nat \<Rightarrow> 64 word \<Rightarrow> byte" where
  "byte_at k v = char_of (unat (drop_bit k v AND 0xff))"

definition put_uint64 :: "64 word \<Rightarrow> bytes" where
  "put_uint64 v = map (\<lambda>k. byte_at k v) [56, 48, 40, 32, 24, 16, 8, 0]"

definition byte_word :: "byte \<Rightarrow> 64 word" where
  "byte_word c = of_nat (of_char c)"

text \<open>Reads the first eight bytes of a buffer.\<close>

definition get_uint64 :: "bytes \<Rightarrow> 64 word" where
  "get_uint64 b = push_bit 56 (byte_word (b ! 0)) OR push_bit 48 (byte_word (b ! 1)) OR push_bit 40 (byte_word (b ! 2))
     OR push_bit 32 (byte_word (b ! 3)) OR push_bit 24 (byte_word (b ! 4)) OR push_bit 16 (byte_word (b ! 5))
     OR push_bit 8 (byte_word (b ! 6)) OR byte_word (b ! 7)"

lemma length_put_uint64 [simp, wire_simps]: "length (put_uint64 v) = 8"
  by (simp add: put_uint64_def)

lemma put_uint64_not_Nil [simp]: "put_uint64 v \<noteq> []"
  by (simp add: put_uint64_def)

lemma byte_at_eq: "byte_at k v = char_of (unat (take_bit 8 (drop_bit k v)))"
  by (simp add: byte_at_def take_bit_eq_mask mask_eq_exp_minus_1)

lemma byte_word_byte_at: "byte_word (byte_at k v) = take_bit 8 (drop_bit k v)"
proof -
  have "unat (take_bit 8 (drop_bit k v)) < 256"
    using take_bit_nat_less_exp [of 8 "unat (drop_bit k v)"] by (simp add: unsigned_take_bit_eq)
  then show ?thesis by (simp add: byte_word_def byte_at_eq)
qed

lemma byte_join:
  fixes v :: "64 word"
  shows "push_bit 8 (drop_bit (k + 8) v) OR take_bit 8 (drop_bit k v) = drop_bit k v"
  by (rule bit_word_eqI) (auto simp: bit_simps add.commute add.left_commute)

lemma byte_join_push:
  fixes v :: "64 word"
  shows "push_bit (j + 8) (drop_bit (k + 8) v) OR push_bit j (take_bit 8 (drop_bit k v)) = push_bit j (drop_bit k v)"
  using arg_cong [OF byte_join [of k v], of "push_bit j"] by (simp add: push_bit_or)

lemma get_put_uint64 [wire_simps]: "get_uint64 (put_uint64 v) = v"
proof -
  have top: "take_bit 8 (drop_bit 56 v) = drop_bit 56 v"
    by (rule bit_word_eqI) (auto simp: bit_simps dest: bit_imp_le_length)
  have j: "push_bit 56 (drop_bit 56 v) OR push_bit 48 (take_bit 8 (drop_bit 48 v)) = push_bit 48 (drop_bit 48 v)"
    "push_bit 48 (drop_bit 48 v) OR push_bit 40 (take_bit 8 (drop_bit 40 v)) = push_bit 40 (drop_bit 40 v)"
    "push_bit 40 (drop_bit 40 v) OR push_bit 32 (take_bit 8 (drop_bit 32 v)) = push_bit 32 (drop_bit 32 v)"
    "push_bit 32 (drop_bit 32 v) OR push_bit 24 (take_bit 8 (drop_bit 24 v)) = push_bit 24 (drop_bit 24 v)"
    "push_bit 24 (drop_bit 24 v) OR push_bit 16 (take_bit 8 (drop_bit 16 v)) = push_bit 16 (drop_bit 16 v)"
    "push_bit 16 (drop_bit 16 v) OR push_bit 8 (take_bit 8 (drop_bit 8 v)) = push_bit 8 (drop_bit 8 v)"
    "push_bit 8 (drop_bit 8 v) OR take_bit 8 v = v"
    using byte_join_push [of 48 48 v] byte_join_push [of 40 40 v] byte_join_push [of 32 32 v]
      byte_join_push [of 24 24 v] byte_join_push [of 16 16 v] byte_join_push [of 8 8 v] byte_join_push [of 0 0 v]
    by simp_all
  show ?thesis
    by (simp add: get_uint64_def put_uint64_def byte_word_byte_at top j del: push_bit_take_bit flip: or.assoc)
qed

section \<open>Messages with their flags\<close>

record wire_msg =
  wm_flags :: "8 word"
  wm_data :: bytes

abbreviation "flag_more \<equiv> (1 :: 8 word)"
abbreviation "flag_command \<equiv> (2 :: 8 word)"
abbreviation "flag_ping \<equiv> (4 :: 8 word)"
abbreviation "flag_pong \<equiv> (8 :: 8 word)"
abbreviation "flag_subscribe \<equiv> (12 :: 8 word)"
abbreviation "flag_cancel \<equiv> (16 :: 8 word)"
abbreviation "CMD_TYPE_MASK \<equiv> (0x1c :: 8 word)"

definition wm_more :: "wire_msg \<Rightarrow> bool" where
  "wm_more m \<longleftrightarrow> wm_flags m AND flag_more \<noteq> 0"

definition wm_command :: "wire_msg \<Rightarrow> bool" where
  "wm_command m \<longleftrightarrow> wm_flags m AND flag_command \<noteq> 0"

definition is_ping :: "wire_msg \<Rightarrow> bool" where
  "is_ping m \<longleftrightarrow> wm_flags m AND CMD_TYPE_MASK = flag_ping"

definition is_pong :: "wire_msg \<Rightarrow> bool" where
  "is_pong m \<longleftrightarrow> wm_flags m AND CMD_TYPE_MASK = flag_pong"

definition is_subscribe :: "wire_msg \<Rightarrow> bool" where
  "is_subscribe m \<longleftrightarrow> wm_flags m AND CMD_TYPE_MASK = flag_subscribe"

definition is_cancel :: "wire_msg \<Rightarrow> bool" where
  "is_cancel m \<longleftrightarrow> wm_flags m AND CMD_TYPE_MASK = flag_cancel"

definition set_flags :: "8 word \<Rightarrow> wire_msg \<Rightarrow> wire_msg" where
  "set_flags f m = m\<lparr>wm_flags := wm_flags m OR f\<rparr>"

definition init_subscribe :: "bytes \<Rightarrow> wire_msg" where
  "init_subscribe topic = set_flags flag_subscribe \<lparr>wm_flags = 0, wm_data = topic\<rparr>"

definition init_cancel :: "bytes \<Rightarrow> wire_msg" where
  "init_cancel topic = set_flags flag_cancel \<lparr>wm_flags = 0, wm_data = topic\<rparr>"

definition sub_cmd_name :: bytes where
  "sub_cmd_name = CHR 0x09 # ''SUBSCRIBE''"

definition cancel_cmd_name :: bytes where
  "cancel_cmd_name = CHR 0x06 # ''CANCEL''"

text \<open>The body of a command: within a process the name is not in front of the topic.\<close>

definition command_body :: "wire_msg \<Rightarrow> bytes" where
  "command_body m =
     (if is_ping m \<or> is_pong m then drop 5 (wm_data m)
      else if \<not> wm_command m \<and> (is_subscribe m \<or> is_cancel m) then wm_data m
      else if is_subscribe m then drop (length sub_cmd_name) (wm_data m)
      else if is_cancel m then drop (length cancel_cmd_name) (wm_data m)
      else [])"

section \<open>The headers\<close>

abbreviation wm_size :: "wire_msg \<Rightarrow> 64 word" where
  "wm_size m \<equiv> of_nat (length (wm_data m))"

abbreviation flag_byte :: "8 word \<Rightarrow> byte" where
  "flag_byte f \<equiv> char_of (unat f)"

abbreviation "v2_more_flag \<equiv> (1 :: 8 word)"
abbreviation "v2_large_flag \<equiv> (2 :: 8 word)"
abbreviation "v2_command_flag \<equiv> (4 :: 8 word)"

definition size_field :: "8 word \<Rightarrow> 64 word \<Rightarrow> bytes" where
  "size_field protocol_flags sz =
     (if sz > 255 then flag_byte protocol_flags # put_uint64 sz
      else [flag_byte protocol_flags, byte_at 0 sz])"

definition v1_header :: "wire_msg \<Rightarrow> bytes" where
  "v1_header m =
     (let sz = wm_size m + 1;
          sz' = (if is_subscribe m \<or> is_cancel m then sz + 1 else sz);
          fl = flag_byte (wm_flags m AND flag_more)
      in (if sz' < 255 then [byte_at 0 sz', fl] else CHR 0xFF # put_uint64 sz' @ [fl])
         @ (if is_subscribe m then [CHR 0x01] else if is_cancel m then [CHR 0x00] else []))"

definition v2_header :: "wire_msg \<Rightarrow> bytes" where
  "v2_header m =
     (let protocol_flags = (if wm_more m then v2_more_flag else 0) OR (if wm_size m > 255 then v2_large_flag else 0)
            OR (if wm_command m then v2_command_flag else 0);
          sz = (if is_subscribe m \<or> is_cancel m then wm_size m + 1 else wm_size m)
      in size_field protocol_flags sz
         @ (if is_subscribe m then [CHR 0x01] else if is_cancel m then [CHR 0x00] else []))"

definition v3_1_header :: "wire_msg \<Rightarrow> bytes" where
  "v3_1_header m =
     (let protocol_flags = (if wm_more m then v2_more_flag else 0) OR (if wm_size m > 255 then v2_large_flag else 0)
            OR (if wm_command m \<or> is_subscribe m \<or> is_cancel m then v2_command_flag else 0);
          sz = (if is_subscribe m then wm_size m + of_nat (length sub_cmd_name)
                else if is_cancel m then wm_size m + of_nat (length cancel_cmd_name) else wm_size m)
      in size_field protocol_flags sz
         @ (if is_subscribe m then sub_cmd_name else if is_cancel m then cancel_cmd_name else []))"

datatype enc_proto = V1_Encoder | V2_Encoder | V3_1_Encoder

fun frame_header :: "enc_proto \<Rightarrow> wire_msg \<Rightarrow> bytes" where
  "frame_header V1_Encoder m = v1_header m"
| "frame_header V2_Encoder m = v2_header m"
| "frame_header V3_1_Encoder m = v3_1_header m"

lemma frame_header_not_Nil [simp]: "frame_header p m \<noteq> []"
  by (cases p) (auto simp: v1_header_def v2_header_def v3_1_header_def size_field_def Let_def)

end
