(* ===== verification/ZmtpEncoder.thy ===== *)
theory ZmtpEncoder
  imports ZmtpWire
begin

text \<open>
  The encoder of a connection (\<open>encoder_base_t\<close> in \<open>3rd/zeromq/src/encoder.hpp\<close> with the steps of the
  three encoders) and the engine's output side (\<open>stream_engine_base_t::out_event\<close>). The bytes still to
  be written from \<open>_write_pos\<close> are a list, since nothing changes them before they are written.
  \<open>encoder_conserves\<close> and \<open>out_event_conserves\<close> say that bytes are neither lost, repeated nor reordered,
  \<open>out_event_progress\<close> that a connection which takes bytes gets them.
\<close>

section \<open>encoder.hpp\<close>

datatype enc_step = Message_Ready | Size_Ready

record encoder_t =
  en_proto :: enc_proto
  en_write :: bytes
  en_next :: enc_step
  en_new_msg_flag :: bool
  en_in_progress :: "wire_msg option"

definition new_encoder :: "enc_proto \<Rightarrow> encoder_t" where
  "new_encoder p = \<lparr>en_proto = p, en_write = [], en_next = Message_Ready, en_new_msg_flag = True, en_in_progress = None\<rparr>"

text \<open>The steps of the derived classes, on the message in progress.\<close>

fun enc_run_next :: "wire_msg \<Rightarrow> encoder_t \<Rightarrow> encoder_t" where
  "enc_run_next m e =
     (case en_next e of
        Message_Ready \<Rightarrow> e\<lparr>en_write := frame_header (en_proto e) m, en_next := Size_Ready, en_new_msg_flag := False\<rparr>
      | Size_Ready \<Rightarrow> e\<lparr>en_write := wm_data m, en_next := Message_Ready, en_new_msg_flag := True\<rparr>)"

text \<open>\<open>None\<close>: the assertion that no message is in progress fails.\<close>

definition load_msg :: "wire_msg \<Rightarrow> encoder_t \<Rightarrow> encoder_t option" where
  "load_msg m e = (if en_in_progress e \<noteq> None then None else Some (enc_run_next m (e\<lparr>en_in_progress := Some m\<rparr>)))"

text \<open>One round of the loop of \<open>encode\<close>: fill the batch \<open>b\<close> up to \<open>n\<close> bytes from the message in progress.
  Without a buffer of the caller's a chunk that fills the whole batch is handed out as it is.\<close>

function encode_loop :: "bool \<Rightarrow> nat \<Rightarrow> wire_msg \<Rightarrow> bytes \<Rightarrow> encoder_t \<Rightarrow> bytes \<times> encoder_t" where
  "encode_loop supplied n m b e =
     (if n \<le> length b then (b, e)
      else if en_write e = [] \<and> en_new_msg_flag e then (b, e\<lparr>en_in_progress := None\<rparr>)
      else let e1 = (if en_write e = [] then enc_run_next m e else e)
           in if b = [] \<and> \<not> supplied \<and> n \<le> length (en_write e1) then (en_write e1, e1\<lparr>en_write := []\<rparr>)
              else let k = min (length (en_write e1)) (n - length b)
                   in encode_loop supplied n m (b @ take k (en_write e1)) (e1\<lparr>en_write := drop k (en_write e1)\<rparr>))"
  by pat_completeness auto
termination
  by (relation "measures [\<lambda>(_, n, _, b, _). n - length b, \<lambda>(_, _, _, _, e). if en_new_msg_flag e then 0 else 1]")
    (auto simp: Let_def min_def intro!: diff_less_mono2 split: enc_step.splits if_splits)

declare encode_loop.simps [simp del]

definition encode :: "bool \<Rightarrow> nat \<Rightarrow> encoder_t \<Rightarrow> bytes \<times> encoder_t" where
  "encode supplied n e =
     (case en_in_progress e of None \<Rightarrow> ([], e) | Some m \<Rightarrow> encode_loop supplied n m [] e)"

section \<open>Nothing is lost in an encoder\<close>

definition zmtp_frame :: "enc_proto \<Rightarrow> wire_msg \<Rightarrow> bytes" where
  "zmtp_frame p m = frame_header p m @ wm_data m"

text \<open>The bytes of the message in progress that were not handed out yet.\<close>

definition enc_rest :: "encoder_t \<Rightarrow> bytes" where
  "enc_rest e =
     (case en_in_progress e of
        None \<Rightarrow> []
      | Some m \<Rightarrow> en_write e @ (if en_next e = Size_Ready then wm_data m else []))"

definition enc_inv :: "encoder_t \<Rightarrow> bool" where
  "enc_inv e \<longleftrightarrow> (en_new_msg_flag e \<longleftrightarrow> en_next e = Message_Ready)
     \<and> (en_in_progress e = None \<longrightarrow> en_write e = [] \<and> en_next e = Message_Ready)"

lemma new_encoder_inv [simp]: "enc_inv (new_encoder p)" "enc_rest (new_encoder p) = []"
  "en_in_progress (new_encoder p) = None" "en_proto (new_encoder p) = p"
  by (simp_all add: new_encoder_def enc_inv_def enc_rest_def)

lemma load_msg_some:
  assumes "enc_inv e" "en_in_progress e = None"
  obtains e' where "load_msg m e = Some e'" "enc_inv e'" "enc_rest e' = zmtp_frame (en_proto e) m"
    "en_in_progress e' = Some m" "en_proto e' = en_proto e"
  using assms by (auto simp: load_msg_def enc_inv_def enc_rest_def zmtp_frame_def)

text \<open>The four ways a round ends.\<close>

abbreviation enc_chunk :: "wire_msg \<Rightarrow> encoder_t \<Rightarrow> encoder_t" where
  "enc_chunk m e \<equiv> if en_write e = [] then enc_run_next m e else e"

abbreviation enc_drop :: "nat \<Rightarrow> encoder_t \<Rightarrow> encoder_t" where
  "enc_drop k e \<equiv> e\<lparr>en_write := drop k (en_write e)\<rparr>"

lemma encode_loop_full: "n \<le> length b \<Longrightarrow> encode_loop supplied n m b e = (b, e)"
  by (subst encode_loop.simps) simp

lemma encode_loop_ended:
  "\<lbrakk>length b < n; en_write e = []; en_new_msg_flag e\<rbrakk>
   \<Longrightarrow> encode_loop supplied n m b e = (b, e\<lparr>en_in_progress := None\<rparr>)"
  by (subst encode_loop.simps) simp

lemma encode_loop_direct:
  "\<lbrakk>0 < n; en_write e \<noteq> [] \<or> \<not> en_new_msg_flag e; n \<le> length (en_write (enc_chunk m e))\<rbrakk>
   \<Longrightarrow> encode_loop False n m [] e = (en_write (enc_chunk m e), (enc_chunk m e)\<lparr>en_write := []\<rparr>)"
  by (subst encode_loop.simps) (auto simp: Let_def)

lemma encode_loop_copy:
  "\<lbrakk>length b < n; en_write e \<noteq> [] \<or> \<not> en_new_msg_flag e; b \<noteq> [] \<or> supplied \<or> length (en_write (enc_chunk m e)) < n;
    k = min (length (en_write (enc_chunk m e))) (n - length b)\<rbrakk>
   \<Longrightarrow> encode_loop supplied n m b e
     = encode_loop supplied n m (b @ take k (en_write (enc_chunk m e))) (enc_drop k (enc_chunk m e))"
  by (subst encode_loop.simps) (auto simp: Let_def)

lemma enc_chunk_inv:
  assumes "enc_inv e" "en_in_progress e = Some m" "en_write e \<noteq> [] \<or> \<not> en_new_msg_flag e"
  shows "enc_inv (enc_chunk m e)" "en_in_progress (enc_chunk m e) = Some m" "en_proto (enc_chunk m e) = en_proto e"
    "enc_rest (enc_chunk m e) = enc_rest e"
  using assms by (auto simp: enc_inv_def enc_rest_def split: enc_step.splits)

lemma enc_drop_inv:
  assumes "enc_inv e" "en_in_progress e = Some m"
  shows "enc_inv (enc_drop k e)" "en_in_progress (enc_drop k e) = Some m"
    "take k (en_write e) @ enc_rest (enc_drop k e) = enc_rest e"
  using assms by (auto simp: enc_inv_def enc_rest_def simp flip: append_assoc)

lemma encode_loop_conserves:
  "\<lbrakk>enc_inv e; en_in_progress e = Some m; encode_loop supplied n m b e = (out, e')\<rbrakk>
   \<Longrightarrow> out @ enc_rest e' = b @ enc_rest e \<and> enc_inv e' \<and> en_proto e' = en_proto e"
proof (induction supplied n m b e rule: encode_loop.induct)
  case (1 supplied n m b e)
  let ?c = "enc_chunk m e"
  let ?k = "min (length (en_write ?c)) (n - length b)"
  note pre = "1.prems"
  consider (full) "n \<le> length b" | (ended) "length b < n" "en_write e = []" "en_new_msg_flag e"
    | (direct) "length b < n" "en_write e \<noteq> [] \<or> \<not> en_new_msg_flag e" "b = []" "\<not> supplied" "n \<le> length (en_write ?c)"
    | (copy) "length b < n" "en_write e \<noteq> [] \<or> \<not> en_new_msg_flag e" "b \<noteq> [] \<or> supplied \<or> length (en_write ?c) < n"
    by (metis linorder_not_le)
  then show ?case
  proof cases
    case full
    with pre show ?thesis by (simp add: encode_loop_full)
  next
    case ended
    with pre show ?thesis by (auto simp: encode_loop_ended enc_inv_def enc_rest_def)
  next
    case direct
    with pre have r: "out = en_write ?c" "e' = ?c\<lparr>en_write := []\<rparr>" using encode_loop_direct [of n e m] by simp_all
    have "enc_drop (length (en_write ?c)) ?c = e'" by (simp add: r)
    with enc_drop_inv [OF enc_chunk_inv(1,2), of e m "length (en_write ?c)"] enc_chunk_inv [of e m] pre direct r
    show ?thesis by auto
  next
    case copy
    note c = enc_chunk_inv [OF pre(1,2) copy(2)]
    note d = enc_drop_inv [OF c(1,2), of ?k]
    have step: "encode_loop supplied n m (b @ take ?k (en_write ?c)) (enc_drop ?k ?c) = (out, e')"
      using pre(3) encode_loop_copy [OF copy refl] by simp
    have "out @ enc_rest e' = (b @ take ?k (en_write ?c)) @ enc_rest (enc_drop ?k ?c) \<and> enc_inv e'
      \<and> en_proto e' = en_proto (enc_drop ?k ?c)"
      by (rule "1.IH" [OF _ _ refl _ refl d(1,2) step]) (use copy in auto)
    with c d show ?thesis by simp
  qed
qed

lemma encode_loop_fills:
  "encode_loop supplied n m b e = (out, e') \<Longrightarrow> n \<le> length out \<or> en_in_progress e' = None"
proof (induction supplied n m b e rule: encode_loop.induct)
  case (1 supplied n m b e)
  let ?c = "enc_chunk m e"
  let ?k = "min (length (en_write ?c)) (n - length b)"
  consider (full) "n \<le> length b" | (ended) "length b < n" "en_write e = []" "en_new_msg_flag e"
    | (direct) "length b < n" "en_write e \<noteq> [] \<or> \<not> en_new_msg_flag e" "b = []" "\<not> supplied" "n \<le> length (en_write ?c)"
    | (copy) "length b < n" "en_write e \<noteq> [] \<or> \<not> en_new_msg_flag e" "b \<noteq> [] \<or> supplied \<or> length (en_write ?c) < n"
    by (metis linorder_not_le)
  then show ?case
  proof cases
    case full
    with 1 show ?thesis by (simp add: encode_loop_full)
  next
    case ended
    with 1 show ?thesis by (auto simp: encode_loop_ended)
  next
    case direct
    with 1 show ?thesis using encode_loop_direct [of n e m] by simp
  next
    case copy
    have step: "encode_loop supplied n m (b @ take ?k (en_write ?c)) (enc_drop ?k ?c) = (out, e')"
      using "1.prems" encode_loop_copy [OF copy refl] by simp
    show ?thesis by (rule "1.IH" [OF _ _ refl _ refl step]) (use copy in auto)
  qed
qed

lemma encode_facts:
  assumes "enc_inv e" "encode supplied n e = (out, e')"
  shows "out @ enc_rest e' = enc_rest e" "enc_inv e'" "en_proto e' = en_proto e"
    "n \<le> length out \<or> en_in_progress e' = None"
  using assms encode_loop_conserves [of e _ supplied n "[]" out e'] encode_loop_fills [of supplied n _ "[]" e out e']
  by (auto simp: encode_def enc_rest_def split: option.splits)

text \<open>A message in progress that still has bytes gives at least one.\<close>

lemma encode_takes:
  assumes "enc_inv e" "encode supplied n e = (out, e')" "0 < n" "enc_rest e \<noteq> []"
  shows "out \<noteq> []"
  using encode_facts [OF assms(1,2)] assms(3,4) by (auto simp: enc_rest_def)

section \<open>The output side of the engine\<close>

text \<open>\<open>_next_msg\<close> is a function pointer of the engine: the messages of the session once the handshake is
  over. It is an argument here. \<open>fresh\<close>: no buffer was chosen yet (\<open>_outpos\<close> is null). \<open>None\<close>: an assertion
  fails.\<close>

function out_fill :: "('s \<Rightarrow> wire_msg option \<times> 's) \<Rightarrow> nat \<Rightarrow> bool \<Rightarrow> bytes \<Rightarrow> encoder_t \<Rightarrow> 's
    \<Rightarrow> (bytes \<times> encoder_t \<times> 's) option" where
  "out_fill next_msg batch fresh out e src =
     (if batch \<le> length out then Some (out, e, src)
      else case next_msg src of
          (None, src') \<Rightarrow> Some (out, e, src')
        | (Some m, src') \<Rightarrow>
            (case load_msg m e of
               None \<Rightarrow> None
             | Some e1 \<Rightarrow>
                 (case encode (\<not> fresh) (batch - length out) e1 of
                    (b, e2) \<Rightarrow> if b = [] then None else out_fill next_msg batch False (out @ b) e2 src')))"
  by pat_completeness auto
termination
  by (relation "measure (\<lambda>(_, batch, _, out, _, _). batch - length out)") (auto simp: neq_Nil_conv)

declare out_fill.simps [simp del]

record 's out_engine =
  oe_encoder :: encoder_t
  oe_out :: bytes
  oe_output_stopped :: bool
  oe_source :: 's

text \<open>\<open>w\<close>: how many bytes the network takes, \<open>None\<close> when the write fails.\<close>

definition out_write :: "nat option \<Rightarrow> 's out_engine \<Rightarrow> bytes \<times> 's out_engine" where
  "out_write w s =
     (case w of None \<Rightarrow> ([], s) | Some k \<Rightarrow> (take k (oe_out s), s\<lparr>oe_out := drop k (oe_out s)\<rparr>))"

definition out_event :: "('s \<Rightarrow> wire_msg option \<times> 's) \<Rightarrow> nat \<Rightarrow> nat option \<Rightarrow> 's out_engine
    \<Rightarrow> (bytes \<times> 's out_engine) option" where
  "out_event next_msg batch w s =
     (if oe_out s \<noteq> [] then Some (out_write w s)
      else case encode False batch (oe_encoder s) of
          (b, e) \<Rightarrow>
            (case out_fill next_msg batch (en_in_progress (oe_encoder s) = None) b e (oe_source s) of
               None \<Rightarrow> None
             | Some (b', e', src') \<Rightarrow>
                 let s' = s\<lparr>oe_encoder := e', oe_source := src'\<rparr>
                 in if b' = [] then Some ([], s'\<lparr>oe_output_stopped := True\<rparr>)
                    else Some (out_write w (s'\<lparr>oe_out := b'\<rparr>))))"

text \<open>What the engine relies on: a source hands out the messages it holds, in order, and says so when it has
  none.\<close>

locale message_source =
  fixes next_msg :: "'s \<Rightarrow> wire_msg option \<times> 's" and pending :: "'s \<Rightarrow> wire_msg list"
  assumes next_some: "next_msg s = (Some m, s') \<Longrightarrow> pending s = m # pending s'"
    and next_none: "next_msg s = (None, s') \<Longrightarrow> pending s = [] \<and> pending s' = []"
begin

definition unsent :: "'s out_engine \<Rightarrow> bytes" where
  "unsent s = oe_out s @ enc_rest (oe_encoder s) @ concat (map (zmtp_frame (en_proto (oe_encoder s))) (pending (oe_source s)))"

lemma out_fill_conserves:
  "\<lbrakk>enc_inv e; batch \<le> length out \<or> en_in_progress e = None\<rbrakk>
   \<Longrightarrow> \<exists>out' e' src'. out_fill next_msg batch fresh out e src = Some (out', e', src') \<and> enc_inv e'
     \<and> en_proto e' = en_proto e
     \<and> out' @ enc_rest e' @ concat (map (zmtp_frame (en_proto e)) (pending src'))
       = out @ enc_rest e @ concat (map (zmtp_frame (en_proto e)) (pending src))
     \<and> (out = [] \<and> 0 < batch \<and> pending src \<noteq> [] \<longrightarrow> out' \<noteq> []) \<and> (out \<noteq> [] \<longrightarrow> out' \<noteq> [])"
proof (induction "batch - length out" arbitrary: fresh out e src rule: less_induct)
  case less
  show ?case
  proof (cases "batch \<le> length out")
    case True
    then show ?thesis using less.prems by (auto simp: out_fill.simps)
  next
    case False
    then have idle: "en_in_progress e = None" using less.prems by simp
    then have rest: "enc_rest e = []" by (simp add: enc_rest_def)
    obtain mo src' where nx: "next_msg src = (mo, src')" by (cases "next_msg src")
    show ?thesis
    proof (cases mo)
      case None
      with nx next_none [of src src'] less.prems False show ?thesis by (auto simp: out_fill.simps)
    next
      case (Some m)
      then have pend: "pending src = m # pending src'" using nx next_some by simp
      obtain e1 where l: "load_msg m e = Some e1" "enc_inv e1" "enc_rest e1 = zmtp_frame (en_proto e) m"
        "en_in_progress e1 = Some m" "en_proto e1 = en_proto e"
        using load_msg_some [OF less.prems(1) idle] by metis
      obtain b e2 where en: "encode (\<not> fresh) (batch - length out) e1 = (b, e2)"
        by (cases "encode (\<not> fresh) (batch - length out) e1")
      note f = encode_facts [OF l(2) en]
      have b: "b \<noteq> []" using encode_takes [OF l(2) en] False l(3) by (simp add: zmtp_frame_def)
      have pre: "enc_inv e2" "batch \<le> length (out @ b) \<or> en_in_progress e2 = None" using f False by auto
      have j: "b @ enc_rest e2 @ xs = zmtp_frame (en_proto e) m @ xs" for xs
        using f(1) l(3) by (metis append_assoc)
      have sm: "batch - length (out @ b) < batch - length out" using False b by (auto simp: neq_Nil_conv)
      have eq: "out_fill next_msg batch fresh out e src = out_fill next_msg batch False (out @ b) e2 src'"
        using False nx Some l(1) en b by (subst out_fill.simps) simp
      show ?thesis unfolding eq
        using less.hyps [OF sm pre, of False src'] False f(2-) l rest pend b j by auto
    qed
  qed
qed

lemma out_write_facts:
  "out_write w s = (b, s') \<Longrightarrow> b @ unsent s' = unsent s \<and> oe_encoder s' = oe_encoder s
     \<and> (w = Some k \<and> 0 < k \<and> oe_out s \<noteq> [] \<longrightarrow> b \<noteq> [])"
  by (auto simp: out_write_def unsent_def split: option.splits)

lemma out_event_facts:
  assumes inv: "enc_inv (oe_encoder s)"
  obtains b s' where "out_event next_msg batch w s = Some (b, s')" "enc_inv (oe_encoder s')"
    "b @ unsent s' = unsent s" "en_proto (oe_encoder s') = en_proto (oe_encoder s)"
    "0 < batch \<Longrightarrow> unsent s \<noteq> [] \<Longrightarrow> w = Some k \<Longrightarrow> 0 < k \<Longrightarrow> b \<noteq> []"
proof (cases "oe_out s = []")
  case False
  obtain b s' where w: "out_write w s = (b, s')" by (cases "out_write w s")
  show ?thesis
    using that [of b s'] out_write_facts [OF w, of k] False inv w by (simp add: out_event_def)
next
  case True
  let ?e = "oe_encoder s"
  let ?rest = "\<lambda>src. concat (map (zmtp_frame (en_proto ?e)) (pending src))"
  obtain b e where en: "encode False batch ?e = (b, e)" by (cases "encode False batch ?e")
  note f = encode_facts [OF inv en]
  obtain b' e' src' where fill: "out_fill next_msg batch (en_in_progress ?e = None) b e (oe_source s) = Some (b', e', src')"
    "enc_inv e'" "en_proto e' = en_proto e" "b' @ enc_rest e' @ ?rest src' = b @ enc_rest e @ ?rest (oe_source s)"
    "b = [] \<Longrightarrow> 0 < batch \<Longrightarrow> pending (oe_source s) \<noteq> [] \<Longrightarrow> b' \<noteq> []" "b \<noteq> [] \<Longrightarrow> b' \<noteq> []"
    using out_fill_conserves [OF f(2), of batch b "en_in_progress ?e = None" "oe_source s"] f(3,4) by auto
  let ?s = "s\<lparr>oe_encoder := e', oe_source := src'\<rparr>"
  have un: "b' @ enc_rest e' @ ?rest src' = unsent s"
    using fill(4) f(1) True by (metis unsent_def append_assoc append_Nil)
  have some: "b' \<noteq> []" if "0 < batch" "unsent s \<noteq> []"
    using that True fill(5,6) encode_takes [OF inv en that(1)]
    by (cases "pending (oe_source s)"; cases "b = []") (auto simp: unsent_def)
  show ?thesis
  proof (cases "b' = []")
    case True
    then show ?thesis
      using that [of "[]" "?s\<lparr>oe_output_stopped := True\<rparr>"] fill(1-3) en f(3) un some \<open>oe_out s = []\<close>
      by (auto simp: out_event_def unsent_def)
  next
    case False
    let ?t = "?s\<lparr>oe_out := b'\<rparr>"
    obtain c t' where w: "out_write w ?t = (c, t')" by (cases "out_write w ?t")
    have ev: "out_event next_msg batch w s = Some (c, t')"
      using \<open>oe_out s = []\<close> en fill(1) False w by (simp add: out_event_def)
    have "unsent ?t = unsent s" using un fill(3) f(3) by (simp add: unsent_def)
    with out_write_facts [OF w, of k] fill(2,3) f(3) False show ?thesis by (intro that [OF ev]) simp_all
  qed
qed

end

text \<open>The output of a connection over several events, each with what the network took.\<close>

fun out_events :: "('s \<Rightarrow> wire_msg option \<times> 's) \<Rightarrow> nat \<Rightarrow> nat option list \<Rightarrow> 's out_engine
    \<Rightarrow> (bytes \<times> 's out_engine) option" where
  "out_events next_msg batch [] s = Some ([], s)"
| "out_events next_msg batch (w # ws) s =
     (case out_event next_msg batch w s of
        None \<Rightarrow> None
      | Some (b, s') \<Rightarrow>
          (case out_events next_msg batch ws s' of None \<Rightarrow> None | Some (bs, s'') \<Rightarrow> Some (b @ bs, s'')))"

abbreviation takes :: "nat option list \<Rightarrow> nat" where
  "takes ws \<equiv> length (filter (\<lambda>w. case w of None \<Rightarrow> False | Some k \<Rightarrow> 0 < k) ws)"

context message_source
begin

lemma out_events_facts:
  assumes "enc_inv (oe_encoder s)"
  shows "\<exists>bs s'. out_events next_msg batch ws s = Some (bs, s') \<and> enc_inv (oe_encoder s') \<and> bs @ unsent s' = unsent s
     \<and> (0 < batch \<and> length (unsent s) \<le> takes ws \<longrightarrow> unsent s' = [])"
  using assms
proof (induction ws arbitrary: s)
  case Nil
  then show ?case by simp
next
  case (Cons w ws)
  obtain k where k: "w = Some k \<or> w = None" by (cases w) auto
  obtain b s1 where ev: "out_event next_msg batch w s = Some (b, s1)" "enc_inv (oe_encoder s1)"
    "b @ unsent s1 = unsent s" "0 < batch \<Longrightarrow> unsent s \<noteq> [] \<Longrightarrow> w = Some k \<Longrightarrow> 0 < k \<Longrightarrow> b \<noteq> []"
    by (rule out_event_facts [OF Cons.prems, of batch w k]) blast
  obtain bs s2 where evs: "out_events next_msg batch ws s1 = Some (bs, s2)" "enc_inv (oe_encoder s2)"
    "bs @ unsent s2 = unsent s1" "0 < batch \<Longrightarrow> length (unsent s1) \<le> takes ws \<Longrightarrow> unsent s2 = []"
    using Cons.IH [OF ev(2)] by blast
  have "unsent s2 = []" if a: "0 < batch" "length (unsent s) \<le> takes (w # ws)"
  proof (rule evs(4) [OF a(1)])
    have "length (unsent s) = length b + length (unsent s1)" using ev(3) by (metis length_append)
    then show "length (unsent s1) \<le> takes ws"
      using a ev(4) k by (cases "unsent s = []"; cases b) (auto split: if_splits)
  qed
  with ev evs show ?case by (metis (no_types, lifting) append_assoc out_events.simps(2) option.simps(5) case_prod_conv)
qed

end

end
