(* ===== verification/ZmtpDecoder.thy ===== *)
theory ZmtpDecoder
  imports ZmtpWire
begin

text \<open>
  The decoder of a connection: \<open>decoder_base_t\<close> (\<open>3rd/zeromq/src/decoder.hpp\<close>) with the steps of
  \<open>v1_decoder.cpp\<close> and \<open>v2_decoder.cpp\<close>. \<open>de_got\<close> is what was read since the last \<open>next_step\<close>, to
  \<open>_tmpbuf\<close> or to the body of the message in progress, whose size is \<open>de_size\<close>. Where a body is kept
  (in a buffer of its own or in the input buffer) is not modelled; \<open>de_alloc\<close> says for which sizes a
  message can be allocated. The results are the codes 0 (\<open>Inr False\<close>), 1 (\<open>Inr True\<close>) and -1 with \<open>errno\<close>.
\<close>

unbundle bit_operations_syntax

datatype dec_error = EPROTO | EMSGSIZE | ENOMEM
  | DEC_ABORT \<comment> \<open>an assertion fails\<close>

datatype dec_step = V1_one_byte_size_ready | V1_eight_byte_size_ready | V1_flags_ready | V1_message_ready
  | V2_flags_ready | V2_one_byte_size_ready | V2_eight_byte_size_ready | V2_message_ready

record decoder_t =
  de_next :: dec_step
  de_got :: bytes
  de_to_read :: nat
  de_msg_flags :: "8 word"
  de_in_progress :: wire_msg
  de_size :: nat
  de_max_msg_size :: int
  de_alloc :: "nat \<Rightarrow> bool"

definition next_step :: "nat \<Rightarrow> dec_step \<Rightarrow> decoder_t \<Rightarrow> decoder_t" where
  "next_step n st d = d\<lparr>de_got := [], de_to_read := n, de_next := st\<rparr>"

definition new_decoder :: "dec_step \<Rightarrow> int \<Rightarrow> (nat \<Rightarrow> bool) \<Rightarrow> decoder_t" where
  "new_decoder st maxmsgsize alloc = \<lparr>de_next = st, de_got = [], de_to_read = 1, de_msg_flags = 0,
     de_in_progress = \<lparr>wm_flags = 0, wm_data = []\<rparr>, de_size = 0, de_max_msg_size = maxmsgsize, de_alloc = alloc\<rparr>"

abbreviation v1_decoder :: "int \<Rightarrow> (nat \<Rightarrow> bool) \<Rightarrow> decoder_t" where
  "v1_decoder \<equiv> new_decoder V1_one_byte_size_ready"

abbreviation v2_decoder :: "int \<Rightarrow> (nat \<Rightarrow> bool) \<Rightarrow> decoder_t" where
  "v2_decoder \<equiv> new_decoder V2_flags_ready"

definition init_size :: "nat \<Rightarrow> decoder_t \<Rightarrow> bool \<times> decoder_t" where
  "init_size n d = (de_alloc d n, d\<lparr>de_in_progress := \<lparr>wm_flags = 0, wm_data = []\<rparr>, de_size := if de_alloc d n then n else 0\<rparr>)"

section \<open>v1_decoder.cpp\<close>

definition v1_one_byte_size_ready :: "decoder_t \<Rightarrow> (dec_error + bool) \<times> decoder_t" where
  "v1_one_byte_size_ready d =
     (let c = char_num (hd (de_got d))
      in if c = 255 then (Inr False, next_step 8 V1_eight_byte_size_ready d)
         else if c = 0 then (Inl EPROTO, d)
         else if 0 \<le> de_max_msg_size d \<and> int (c - 1) > de_max_msg_size d then (Inl EMSGSIZE, d)
         else case init_size (c - 1) d of
             (False, d') \<Rightarrow> (Inl ENOMEM, d')
           | (True, d') \<Rightarrow> (Inr False, next_step 1 V1_flags_ready d'))"

definition v1_eight_byte_size_ready :: "decoder_t \<Rightarrow> (dec_error + bool) \<times> decoder_t" where
  "v1_eight_byte_size_ready d =
     (let payload_length = get_uint64 (de_got d)
      in if payload_length = 0 then (Inl EPROTO, d)
         else if 0 \<le> de_max_msg_size d \<and> uint (payload_length - 1) > de_max_msg_size d then (Inl EMSGSIZE, d)
         else case init_size (unat (payload_length - 1)) d of
             (False, d') \<Rightarrow> (Inl ENOMEM, d')
           | (True, d') \<Rightarrow> (Inr False, next_step 1 V1_flags_ready d'))"

definition v1_flags_ready :: "decoder_t \<Rightarrow> (dec_error + bool) \<times> decoder_t" where
  "v1_flags_ready d =
     (Inr False, next_step (de_size d) V1_message_ready
        (d\<lparr>de_in_progress := set_flags (of_nat (of_char (hd (de_got d))) AND flag_more) (de_in_progress d)\<rparr>))"

section \<open>v2_decoder.cpp\<close>

definition v2_flags_ready :: "decoder_t \<Rightarrow> (dec_error + bool) \<times> decoder_t" where
  "v2_flags_ready d =
     (let b = of_nat (of_char (hd (de_got d))) :: 8 word;
          d' = d\<lparr>de_msg_flags := (if b AND v2_more_flag \<noteq> 0 then flag_more else 0)
                                 OR (if b AND v2_command_flag \<noteq> 0 then flag_command else 0)\<rparr>
      in (Inr False, if b AND v2_large_flag \<noteq> 0 then next_step 8 V2_eight_byte_size_ready d'
                     else next_step 1 V2_one_byte_size_ready d'))"

definition v2_size_ready :: "64 word \<Rightarrow> decoder_t \<Rightarrow> (dec_error + bool) \<times> decoder_t" where
  "v2_size_ready msg_size d =
     (if 0 \<le> de_max_msg_size d \<and> uint msg_size > de_max_msg_size d then (Inl EMSGSIZE, d)
      else case init_size (unat msg_size) d of
          (False, d') \<Rightarrow> (Inl ENOMEM, d')
        | (True, d') \<Rightarrow>
            (Inr False, next_step (de_size d') V2_message_ready
               (d'\<lparr>de_in_progress := set_flags (de_msg_flags d') (de_in_progress d')\<rparr>)))"

text \<open>Both classes hand the complete message out in \<open>message_ready\<close>.\<close>

definition dec_message_ready :: "dec_step \<Rightarrow> decoder_t \<Rightarrow> (dec_error + bool) \<times> decoder_t" where
  "dec_message_ready first d =
     (Inr True, next_step 1 first (d\<lparr>de_in_progress := (de_in_progress d)\<lparr>wm_data := de_got d\<rparr>\<rparr>))"

definition dec_run_next :: "decoder_t \<Rightarrow> (dec_error + bool) \<times> decoder_t" where
  "dec_run_next d =
     (case de_next d of
        V1_one_byte_size_ready \<Rightarrow> v1_one_byte_size_ready d
      | V1_eight_byte_size_ready \<Rightarrow> v1_eight_byte_size_ready d
      | V1_flags_ready \<Rightarrow> v1_flags_ready d
      | V1_message_ready \<Rightarrow> dec_message_ready V1_one_byte_size_ready d
      | V2_flags_ready \<Rightarrow> v2_flags_ready d
      | V2_one_byte_size_ready \<Rightarrow> v2_size_ready (of_nat (char_num (hd (de_got d)))) d
      | V2_eight_byte_size_ready \<Rightarrow> v2_size_ready (get_uint64 (de_got d)) d
      | V2_message_ready \<Rightarrow> dec_message_ready V2_flags_ready d)"

section \<open>decoder.hpp\<close>

text \<open>Run steps while there is nothing to read for the next one.\<close>

abbreviation at_message :: "decoder_t \<Rightarrow> bool" where
  "at_message d \<equiv> de_next d = V1_message_ready \<or> de_next d = V2_message_ready"

lemma dec_run_next_zero:
  "\<lbrakk>dec_run_next d = (Inr False, d'); de_to_read d' = 0\<rbrakk> \<Longrightarrow> at_message d' \<and> \<not> at_message d"
  by (auto simp: dec_run_next_def v1_one_byte_size_ready_def v1_eight_byte_size_ready_def v1_flags_ready_def
      v2_flags_ready_def v2_size_ready_def dec_message_ready_def next_step_def init_size_def Let_def
      split: dec_step.splits if_splits)

function dec_spin :: "decoder_t \<Rightarrow> (dec_error + bool) \<times> decoder_t" where
  "dec_spin d =
     (if de_to_read d \<noteq> 0 then (Inr False, d)
      else case dec_run_next d of
          (Inr False, d') \<Rightarrow> dec_spin d'
        | (r, d') \<Rightarrow> (r, d'))"
  by pat_completeness auto
termination
proof (relation "measures [\<lambda>d. if de_to_read d = 0 then 1 else 0, \<lambda>d. if at_message d then 0 else 1]", goal_cases)
  case 1
  show ?case by simp
next
  case (2 d x d' b)
  then show ?case using dec_run_next_zero [of d d'] by (cases "de_to_read d' = 0") auto
qed

declare dec_spin.simps [simp del]

lemma dec_spin_done: "dec_spin d = (Inr False, d') \<Longrightarrow> de_to_read d' \<noteq> 0"
  by (induction d rule: dec_spin.induct) (subst (asm) dec_spin.simps, auto split: if_splits sum.splits bool.splits prod.splits)

abbreviation dec_take :: "nat \<Rightarrow> bytes \<Rightarrow> decoder_t \<Rightarrow> decoder_t" where
  "dec_take k bs d \<equiv> d\<lparr>de_got := de_got d @ take k bs, de_to_read := de_to_read d - k\<rparr>"

text \<open>The loop over an input buffer, with the bytes used so far. It stops at the first message.\<close>

function decode_loop :: "decoder_t \<Rightarrow> bytes \<Rightarrow> nat \<Rightarrow> (dec_error + bool) \<times> nat \<times> decoder_t" where
  "decode_loop d bs used =
     (if bs = [] then (Inr False, used, d)
      else let k = min (de_to_read d) (length bs)
           in case dec_spin (dec_take k bs d) of
                (Inr False, d') \<Rightarrow> decode_loop d' (drop k bs) (used + k)
              | (r, d') \<Rightarrow> (r, used + k, d'))"
  by pat_completeness auto
termination
  by (relation "measures [\<lambda>(_, bs, _). length bs, \<lambda>(d, _, _). if de_to_read d = 0 then 1 else 0]")
    (auto simp: min_def dest!: dec_spin_done sym [of _ "dec_spin _"] split: if_splits)

declare decode_loop.simps [simp del]

text \<open>\<open>in_place\<close>: the caller read the bytes straight to where the next step wants them, so they must not
  be more than it wants.\<close>

definition decode :: "bool \<Rightarrow> bytes \<Rightarrow> decoder_t \<Rightarrow> (dec_error + bool) \<times> nat \<times> decoder_t" where
  "decode in_place bs d =
     (if in_place
      then if length bs > de_to_read d then (Inl DEC_ABORT, 0, d)
           else case dec_spin (dec_take (length bs) bs d) of (r, d') \<Rightarrow> (r, length bs, d')
      else decode_loop d bs 0)"
section \<open>The stream, byte by byte\<close>

text \<open>The messages a decoder hands out over a stream, the error it ends with, and the decoder after it.\<close>

fun feed_bytes :: "decoder_t \<Rightarrow> bytes \<Rightarrow> wire_msg list \<times> dec_error option \<times> decoder_t" where
  "feed_bytes d [] = ([], None, d)"
| "feed_bytes d (c # cs) =
     (case dec_spin (dec_take 1 [c] d) of
        (Inl e, d') \<Rightarrow> ([], Some e, d')
      | (Inr b, d') \<Rightarrow>
          (case feed_bytes d' cs of (ms, r, d'') \<Rightarrow> ((if b then de_in_progress d' # ms else ms), r, d'')))"

lemma feed_bytes_append:
  "feed_bytes d (xs @ ys) =
     (case feed_bytes d xs of
        (ms, Some e, d') \<Rightarrow> (ms, Some e, d')
      | (ms, None, d') \<Rightarrow> (case feed_bytes d' ys of (ms', r, d'') \<Rightarrow> (ms @ ms', r, d'')))"
  by (induction d xs rule: feed_bytes.induct) (auto split: prod.splits sum.splits option.splits)

text \<open>How the stream goes on after the decoder read a chunk and ran its steps.\<close>

definition feed_after :: "(dec_error + bool) \<times> decoder_t \<Rightarrow> bytes \<Rightarrow> wire_msg list \<times> dec_error option \<times> decoder_t" where
  "feed_after s bs =
     (case s of
        (Inl e, d') \<Rightarrow> ([], Some e, d')
      | (Inr b, d') \<Rightarrow>
          (case feed_bytes d' bs of (ms, r, d'') \<Rightarrow> ((if b then de_in_progress d' # ms else ms), r, d'')))"

lemma feed_after_simps [simp]:
  "feed_after (Inl e, d) bs = ([], Some e, d)"
  "feed_after (Inr False, d) bs = feed_bytes d bs"
  "feed_after (Inr True, d) bs = (case feed_bytes d bs of (ms, r, d') \<Rightarrow> (de_in_progress d # ms, r, d'))"
  by (auto simp: feed_after_def split: prod.splits)

lemma feed_bytes_Cons: "feed_bytes d (c # cs) = feed_after (dec_spin (dec_take 1 [c] d)) cs"
  by (simp add: feed_after_def split: prod.splits sum.splits)

declare feed_bytes.simps(2) [simp del]

text \<open>A whole chunk is read as its bytes are, one after the other.\<close>

lemma dec_spin_reads: "de_to_read d \<noteq> 0 \<Longrightarrow> dec_spin d = (Inr False, d)"
  by (subst dec_spin.simps) simp

lemma dec_spin_runs:
  "de_to_read d = 0 \<Longrightarrow> dec_spin d =
     (case dec_run_next d of (Inr False, d') \<Rightarrow> dec_spin d' | (r, d') \<Rightarrow> (r, d'))"
  by (subst dec_spin.simps) simp

lemma dec_spin_step:
  "\<lbrakk>dec_run_next d = (Inr False, d'); de_to_read d = 0\<rbrakk> \<Longrightarrow> dec_spin d = dec_spin d'"
  by (simp add: dec_spin_runs)

lemma dec_spin_ends:
  "\<lbrakk>dec_run_next d = (r, d'); de_to_read d = 0; r \<noteq> Inr False\<rbrakk> \<Longrightarrow> dec_spin d = (r, d')"
  by (auto simp: dec_spin_runs split: sum.splits bool.splits)

lemma dec_spin_wait:
  "\<lbrakk>dec_run_next d = (Inr False, d'); de_to_read d = 0; de_to_read d' \<noteq> 0\<rbrakk> \<Longrightarrow> dec_spin d = (Inr False, d')"
  by (simp add: dec_spin_runs dec_spin_reads)

lemma feed_bytes_take:
  "\<lbrakk>bs \<noteq> []; 0 < de_to_read d; k = min (de_to_read d) (length bs)\<rbrakk>
   \<Longrightarrow> feed_bytes d bs = feed_after (dec_spin (dec_take k bs d)) (drop k bs)"
proof (induction bs arbitrary: d k)
  case Nil
  then show ?case by simp
next
  case (Cons c cs)
  show ?case
  proof (cases "cs = [] \<or> de_to_read d = 1")
    case True
    then have "k = 1" using Cons.prems by auto
    then show ?thesis by (simp add: feed_bytes_Cons)
  next
    case False
    let ?d = "dec_take 1 [c] d"
    have r: "0 < de_to_read ?d" using False Cons.prems by simp
    have k: "k = Suc (min (de_to_read ?d) (length cs))" using False Cons.prems by (auto simp: min_def)
    have "feed_bytes d (c # cs) = feed_bytes ?d cs"
      using r by (simp add: feed_bytes_Cons dec_spin_reads)
    also have "\<dots> = feed_after (dec_spin (dec_take (min (de_to_read ?d) (length cs)) cs ?d))
        (drop (min (de_to_read ?d) (length cs)) cs)"
      using False by (intro Cons.IH r refl) simp
    finally show ?thesis by (simp add: k)
  qed
qed

lemma feed_bytes_exact:
  assumes "de_to_read d = length xs" "xs \<noteq> []"
  shows "feed_bytes d (xs @ ys) = feed_after (dec_spin (d\<lparr>de_got := de_got d @ xs, de_to_read := 0\<rparr>)) ys"
proof -
  have "feed_bytes d (xs @ ys) = feed_after (dec_spin (dec_take (length xs) (xs @ ys) d)) (drop (length xs) (xs @ ys))"
    by (rule feed_bytes_take) (use assms in auto)
  then show ?thesis by (simp add: assms(1))
qed

text \<open>What a call of \<open>decode\<close> leaves to the next one. A decoder at rest wants at least one byte.\<close>

lemma dec_spin_message: "dec_spin d = (Inr True, d') \<Longrightarrow> de_to_read d' = 1"
proof (induction d rule: dec_spin.induct)
  case (1 d)
  show ?case
  proof (cases "de_to_read d = 0")
    case True
    obtain r d1 where r: "dec_run_next d = (r, d1)" by (cases "dec_run_next d")
    then show ?thesis
      using 1 True by (auto simp: dec_spin_runs dec_run_next_def v1_one_byte_size_ready_def v1_eight_byte_size_ready_def
          v1_flags_ready_def v2_flags_ready_def v2_size_ready_def dec_message_ready_def next_step_def init_size_def Let_def
          split: dec_step.splits if_splits sum.splits bool.splits)
  qed (use 1 in \<open>simp add: dec_spin_reads\<close>)
qed

lemma dec_spin_wants: "dec_spin d = (Inr b, d') \<Longrightarrow> 0 < de_to_read d'"
  using dec_spin_done [of d d'] dec_spin_message [of d d'] by (cases b) auto

lemma decode_loop_bytes:
  "\<lbrakk>0 < de_to_read d; decode_loop d bs used = (r, u, d')\<rbrakk>
   \<Longrightarrow> used \<le> u \<and> u \<le> used + length bs \<and> feed_bytes d bs = feed_after (r, d') (drop (u - used) bs)
     \<and> (r = Inr False \<longrightarrow> u = used + length bs) \<and> (r = Inr True \<longrightarrow> used < u)
     \<and> (\<forall>b. r = Inr b \<longrightarrow> 0 < de_to_read d')"
proof (induction d bs used rule: decode_loop.induct)
  case (1 d bs used)
  show ?case
  proof (cases "bs = []")
    case True
    with 1 show ?thesis by (auto simp: decode_loop.simps)
  next
    case False
    define k where "k = min (de_to_read d) (length bs)"
    have k: "0 < k" "k \<le> length bs" using False 1 by (auto simp: k_def)
    obtain s d1 where s: "dec_spin (dec_take k bs d) = (s, d1)" by (cases "dec_spin (dec_take k bs d)")
    note fb = feed_bytes_take [OF False "1.prems"(1) k_def, unfolded s]
    show ?thesis
    proof (cases "s = Inr False")
      case again: True
      have rec: "decode_loop d1 (drop k bs) (used + k) = (r, u, d')"
        using 1(3) again s False by (subst (asm) decode_loop.simps) (simp add: k_def Let_def)
      have w: "0 < de_to_read d1" using dec_spin_wants s again by blast
      have ih: "used + k \<le> u \<and> u \<le> used + k + length (drop k bs)
          \<and> feed_bytes d1 (drop k bs) = feed_after (r, d') (drop (u - (used + k)) (drop k bs))
          \<and> (r = Inr False \<longrightarrow> u = used + k + length (drop k bs)) \<and> (r = Inr True \<longrightarrow> used + k < u)
          \<and> (\<forall>b. r = Inr b \<longrightarrow> 0 < de_to_read d')"
        by (rule "1.IH" [OF False k_def _ _ _ w rec]) (use s again in auto)
      then have dr: "drop (u - (used + k)) (drop k bs) = drop (u - used) bs" by (simp add: add.commute)
      show ?thesis using ih k fb again unfolding dr by auto
    next
      case ends: False
      have "(r, u, d') = (s, used + k, d1)"
        using 1(3) ends s False by (subst (asm) decode_loop.simps) (auto simp: k_def Let_def split: sum.splits bool.splits)
      then show ?thesis using ends fb k s dec_spin_wants [of "dec_take k bs d" _ d1] by auto
    qed
  qed
qed

end
