(* ===== verification/ZmtpCodec.thy ===== *)
theory ZmtpCodec
  imports ZmtpEncoder ZmtpDecoder
begin

text \<open>
  The two halves of a connection together: what each encoder's frame becomes in the peer's decoder.
\<close>

unbundle bit_operations_syntax

section \<open>Bytes and flags\<close>

lemma unat_byte [simp]: "unat f mod 256 = unat f" for f :: "8 word"
proof -
  have "unat f < 2 ^ LENGTH(8)" by (rule unsigned_less)
  then show ?thesis by simp
qed

lemma byte_at_small:
  assumes "\<not> v > (255 :: 64 word)"
  shows "of_nat (char_num (byte_at 0 v)) = v" "char_num (byte_at 0 v) = unat v"
proof -
  have "unat v < 2 ^ 8" using assms by (simp add: word_less_nat_alt not_less)
  then have "take_bit 8 (unat v) = unat v" by (rule take_bit_nat_eq_self)
  then have t: "unat (take_bit 8 v) = unat v" by (simp add: unsigned_take_bit_eq)
  then show "char_num (byte_at 0 v) = unat v"
    using \<open>unat v < 2 ^ 8\<close> by (simp add: byte_at_eq char_num_def)
  then show "of_nat (char_num (byte_at 0 v)) = v" by simp
qed

definition v2_flags :: "bool \<Rightarrow> bool \<Rightarrow> bool \<Rightarrow> 8 word" where
  "v2_flags a l c = (if a then v2_more_flag else 0) OR (if l then v2_large_flag else 0) OR (if c then v2_command_flag else 0)"

lemma v2_flags_bits [simp]:
  "v2_flags a l c AND v2_more_flag = 0 \<longleftrightarrow> \<not> a"
  "v2_flags a l c AND v2_large_flag = 0 \<longleftrightarrow> \<not> l"
  "v2_flags a l c AND v2_command_flag = 0 \<longleftrightarrow> \<not> c"
  by (cases a; cases l; cases c; simp add: v2_flags_def)+

definition msg_flags :: "bool \<Rightarrow> bool \<Rightarrow> 8 word" where
  "msg_flags a c = (if a then flag_more else 0) OR (if c then flag_command else 0)"

section \<open>A frame in the version 2 decoder\<close>

abbreviation fresh_v2 :: "decoder_t \<Rightarrow> bool" where
  "fresh_v2 d \<equiv> de_next d = V2_flags_ready \<and> de_got d = [] \<and> de_to_read d = 1"

definition accepts :: "decoder_t \<Rightarrow> nat \<Rightarrow> bool" where
  "accepts d n \<longleftrightarrow> (0 \<le> de_max_msg_size d \<longrightarrow> int n \<le> de_max_msg_size d) \<and> de_alloc d n"

definition v2_after :: "8 word \<Rightarrow> bytes \<Rightarrow> decoder_t \<Rightarrow> decoder_t" where
  "v2_after f body d =
     d\<lparr>de_msg_flags := f, de_in_progress := \<lparr>wm_flags = f, wm_data = body\<rparr>, de_size := length body\<rparr>"

lemma v2_after_fresh [simp]:
  "de_next (v2_after f body d) = de_next d" "de_got (v2_after f body d) = de_got d"
  "de_to_read (v2_after f body d) = de_to_read d" "accepts (v2_after f body d) = accepts d"
  "de_in_progress (v2_after f body d) = \<lparr>wm_flags = f, wm_data = body\<rparr>"
  by (auto simp: v2_after_def accepts_def fun_eq_iff)

abbreviation v2_step1 :: "8 word \<Rightarrow> nat \<Rightarrow> dec_step \<Rightarrow> decoder_t \<Rightarrow> decoder_t" where
  "v2_step1 f n st d \<equiv> d\<lparr>de_msg_flags := f, de_got := [], de_to_read := n, de_next := st\<rparr>"

lemma v2_reads_flags:
  "fresh_v2 d \<Longrightarrow> feed_bytes d (flag_byte (v2_flags a l c) # ys)
     = feed_bytes (v2_step1 (msg_flags a c) (if l then 8 else 1)
         (if l then V2_eight_byte_size_ready else V2_one_byte_size_ready) d) ys"
  using feed_bytes_exact [of d "[flag_byte (v2_flags a l c)]" ys]
  by (cases l) (simp_all add: dec_spin_runs dec_spin_reads dec_run_next_def v2_flags_ready_def next_step_def msg_flags_def Let_def)

lemma v2_reads_body:
  assumes "accepts d (length body)" "length body = unat sz"
    and r: "(r, d1) = v2_size_ready sz d"
  shows "r = Inr False" "feed_after (dec_spin d1) (body @ ys)
     = feed_after (Inr True, next_step 1 V2_flags_ready (v2_after (de_msg_flags d) body d)) ys"
proof -
  have "uint sz = int (length body)" "unat sz = length body" using assms(2) by simp_all
  with assms(1) r have d1: "r = Inr False" "d1 = next_step (length body) V2_message_ready
      (d\<lparr>de_in_progress := \<lparr>wm_flags = de_msg_flags d, wm_data = []\<rparr>, de_size := length body\<rparr>)"
    by (auto simp: v2_size_ready_def accepts_def init_size_def next_step_def set_flags_def)
  show "r = Inr False" by (rule d1)
  show "feed_after (dec_spin d1) (body @ ys) = feed_after (Inr True, next_step 1 V2_flags_ready (v2_after (de_msg_flags d) body d)) ys"
  proof (cases "body = []")
    case True
    then have "dec_spin d1 = (Inr True, next_step 1 V2_flags_ready (v2_after (de_msg_flags d) body d))"
      by (simp add: d1 dec_spin_runs dec_run_next_def dec_message_ready_def next_step_def v2_after_def)
    with True show ?thesis by simp
  next
    case False
    then have "dec_spin d1 = (Inr False, d1)" by (simp add: d1 next_step_def dec_spin_reads)
    then have "feed_after (dec_spin d1) (body @ ys) = feed_bytes d1 (body @ ys)" by simp
    also have "\<dots> = feed_after (dec_spin (d1\<lparr>de_got := de_got d1 @ body, de_to_read := 0\<rparr>)) ys"
      by (rule feed_bytes_exact) (use False in \<open>simp_all add: d1 next_step_def\<close>)
    also have "dec_spin (d1\<lparr>de_got := de_got d1 @ body, de_to_read := 0\<rparr>)
        = (Inr True, next_step 1 V2_flags_ready (v2_after (de_msg_flags d) body d))"
      by (simp add: d1 dec_spin_runs dec_run_next_def dec_message_ready_def next_step_def v2_after_def)
    finally show ?thesis .
  qed
qed

lemma v2_decodes:
  assumes fresh: "fresh_v2 d" and ok: "accepts d (length body)" "length body = unat sz"
  shows "feed_bytes d (size_field (v2_flags a (sz > 255) c) sz @ body @ ys)
     = feed_after (Inr True, v2_after (msg_flags a c) body d) ys"
proof -
  let ?f = "msg_flags a c"
  let ?n = "if sz > 255 then 8 else 1 :: nat"
  let ?st = "if sz > 255 then V2_eight_byte_size_ready else V2_one_byte_size_ready"
  let ?sf = "if sz > 255 then put_uint64 sz else [byte_at 0 sz]"
  let ?d = "v2_step1 ?f ?n ?st d"
  let ?full = "?d\<lparr>de_got := ?sf, de_to_read := 0\<rparr>"
  have "feed_bytes d (size_field (v2_flags a (sz > 255) c) sz @ body @ ys) = feed_bytes ?d (?sf @ body @ ys)"
    using v2_reads_flags [OF fresh, of a "sz > 255" c "?sf @ body @ ys"] unfolding size_field_def
    by (cases "sz > 255") simp_all
  also have "\<dots> = feed_after (dec_spin ?full) (body @ ys)"
    using feed_bytes_exact [of ?d ?sf "body @ ys"] by (cases "sz > 255") simp_all
  finally have 1: "feed_bytes d (size_field (v2_flags a (sz > 255) c) sz @ body @ ys) = feed_after (dec_spin ?full) (body @ ys)" .
  obtain r d1 where r: "(r, d1) = v2_size_ready sz ?full" by (metis surj_pair)
  have run: "dec_run_next ?full = (r, d1)"
    using r by (simp add: dec_run_next_def get_put_uint64 byte_at_small)
  have ok0: "accepts ?full (length body)" "de_msg_flags ?full = ?f" using ok by (auto simp: accepts_def)
  have after: "next_step 1 V2_flags_ready (v2_after ?f body ?full) = v2_after ?f body d"
    using fresh by (simp add: next_step_def v2_after_def)
  note b = v2_reads_body [OF ok0(1) ok(2) r]
  have "dec_spin ?full = dec_spin d1" by (rule dec_spin_step) (simp_all only: run b(1), simp)
  with 1 b(2) [of ys] after ok0(2) show ?thesis by simp
qed
section \<open>A frame in the version 1 decoder\<close>

abbreviation fresh_v1 :: "decoder_t \<Rightarrow> bool" where
  "fresh_v1 d \<equiv> de_next d = V1_one_byte_size_ready \<and> de_got d = [] \<and> de_to_read d = 1"

definition v1_after :: "8 word \<Rightarrow> bytes \<Rightarrow> decoder_t \<Rightarrow> decoder_t" where
  "v1_after f body d = d\<lparr>de_in_progress := \<lparr>wm_flags = f, wm_data = body\<rparr>, de_size := length body\<rparr>"

lemma v1_after_fresh [simp]:
  "de_next (v1_after f body d) = de_next d" "de_got (v1_after f body d) = de_got d"
  "de_to_read (v1_after f body d) = de_to_read d" "accepts (v1_after f body d) = accepts d"
  "de_in_progress (v1_after f body d) = \<lparr>wm_flags = f, wm_data = body\<rparr>"
  by (auto simp: v1_after_def accepts_def fun_eq_iff)

text \<open>After the size: the flags and the body.\<close>

abbreviation v1_sized :: "nat \<Rightarrow> decoder_t \<Rightarrow> decoder_t" where
  "v1_sized n d \<equiv> next_step 1 V1_flags_ready (d\<lparr>de_in_progress := \<lparr>wm_flags = 0, wm_data = []\<rparr>, de_size := n\<rparr>)"

lemma v1_reads_body:
  assumes "f AND flag_more = f"
  shows "feed_bytes (v1_sized (length body) d) (flag_byte f # body @ ys)
    = feed_after (Inr True, next_step 1 V1_one_byte_size_ready (v1_after f body d)) ys"
proof -
  let ?s = "v1_sized (length body) d"
  let ?b = "next_step (length body) V1_message_ready
      (d\<lparr>de_in_progress := \<lparr>wm_flags = f, wm_data = []\<rparr>, de_size := length body\<rparr>)"
  have run: "dec_run_next (?s\<lparr>de_got := [flag_byte f], de_to_read := 0\<rparr>) = (Inr False, ?b)"
    using assms by (simp add: dec_run_next_def v1_flags_ready_def next_step_def set_flags_def)
  have "feed_bytes ?s (flag_byte f # body @ ys)
      = feed_after (dec_spin (?s\<lparr>de_got := [flag_byte f], de_to_read := 0\<rparr>)) (body @ ys)"
    using feed_bytes_exact [of ?s "[flag_byte f]" "body @ ys"] by (simp add: next_step_def)
  also have "dec_spin (?s\<lparr>de_got := [flag_byte f], de_to_read := 0\<rparr>) = dec_spin ?b"
    by (rule dec_spin_step [OF run]) simp
  also have "feed_after (dec_spin ?b) (body @ ys)
      = feed_after (Inr True, next_step 1 V1_one_byte_size_ready (v1_after f body d)) ys"
  proof (cases "body = []")
    case True
    then have "dec_spin ?b = (Inr True, next_step 1 V1_one_byte_size_ready (v1_after f body d))"
      by (simp add: dec_spin_runs dec_run_next_def dec_message_ready_def next_step_def v1_after_def)
    with True show ?thesis by simp
  next
    case False
    then have "dec_spin ?b = (Inr False, ?b)" by (simp add: next_step_def dec_spin_reads)
    then have "feed_after (dec_spin ?b) (body @ ys) = feed_bytes ?b (body @ ys)" by simp
    also have "\<dots> = feed_after (dec_spin (?b\<lparr>de_got := de_got ?b @ body, de_to_read := 0\<rparr>)) ys"
      by (rule feed_bytes_exact) (use False in \<open>simp_all add: next_step_def\<close>)
    also have "dec_spin (?b\<lparr>de_got := de_got ?b @ body, de_to_read := 0\<rparr>)
        = (Inr True, next_step 1 V1_one_byte_size_ready (v1_after f body d))"
      by (simp add: dec_spin_runs dec_run_next_def dec_message_ready_def next_step_def v1_after_def)
    finally show ?thesis .
  qed
  finally show ?thesis .
qed

lemma v1_decodes:
  assumes fresh: "fresh_v1 d" and ok: "accepts d (length body)" "unat sz = Suc (length body)" and f: "f AND flag_more = f"
  shows "feed_bytes d ((if sz < 255 then [byte_at 0 sz, flag_byte f] else CHR 0xFF # put_uint64 sz @ [flag_byte f]) @ body @ ys)
     = feed_after (Inr True, v1_after f body d) ys"
proof -
  have nz: "sz \<noteq> 0" using ok(2) by auto
  have pred: "unat (sz - 1) = length body" using ok(2) nz by (simp add: unat_minus_one)
  then have predi: "uint (sz - 1) = int (length body)" by (simp flip: pred)
  have after: "next_step 1 V1_one_byte_size_ready (v1_after f body d) = v1_after f body d"
    using fresh by (simp add: next_step_def v1_after_def)
  show ?thesis
  proof (cases "sz < 255")
    case True
    then have "\<not> sz > 255" by simp
    note b = byte_at_small [OF this]
    let ?g = "d\<lparr>de_got := [byte_at 0 sz], de_to_read := 0\<rparr>"
    have lt: "unat sz < 255" using True by (simp add: word_less_nat_alt)
    have run: "dec_run_next ?g = (Inr False, v1_sized (length body) d)"
      using fresh ok lt
      by (simp add: dec_run_next_def v1_one_byte_size_ready_def b(2) init_size_def accepts_def next_step_def not_less)
    have "feed_bytes d (byte_at 0 sz # flag_byte f # body @ ys) = feed_after (dec_spin ?g) (flag_byte f # body @ ys)"
      using feed_bytes_exact [of d "[byte_at 0 sz]" "flag_byte f # body @ ys"] fresh by simp
    also have "dec_spin ?g = (Inr False, v1_sized (length body) d)"
      by (rule dec_spin_wait [OF run]) (simp_all add: next_step_def)
    finally show ?thesis using v1_reads_body [OF f, of body d ys] True after by simp
  next
    case False
    let ?g = "d\<lparr>de_got := [CHR 0xFF], de_to_read := 0\<rparr>"
    let ?h = "next_step 8 V1_eight_byte_size_ready d"
    let ?i = "?h\<lparr>de_got := put_uint64 sz, de_to_read := 0\<rparr>"
    have run1: "dec_run_next ?g = (Inr False, ?h)"
      using fresh by (simp add: dec_run_next_def v1_one_byte_size_ready_def char_num_def next_step_def)
    have run2: "dec_run_next ?i = (Inr False, v1_sized (length body) d)"
      using ok nz pred predi
      by (simp add: dec_run_next_def v1_eight_byte_size_ready_def get_put_uint64 init_size_def accepts_def next_step_def not_less)
    have "feed_bytes d (CHR 0xFF # put_uint64 sz @ flag_byte f # body @ ys)
        = feed_after (dec_spin ?g) (put_uint64 sz @ flag_byte f # body @ ys)"
      using feed_bytes_exact [of d "[CHR 0xFF]" "put_uint64 sz @ flag_byte f # body @ ys"] fresh by simp
    also have "dec_spin ?g = (Inr False, ?h)"
      by (rule dec_spin_wait [OF run1]) (simp_all add: next_step_def)
    also have "feed_after (Inr False, ?h) (put_uint64 sz @ flag_byte f # body @ ys)
        = feed_after (dec_spin ?i) (flag_byte f # body @ ys)"
      using feed_bytes_exact [of ?h "put_uint64 sz" "flag_byte f # body @ ys"] by (simp add: next_step_def)
    also have "dec_spin ?i = (Inr False, v1_sized (length body) d)"
      by (rule dec_spin_wait [OF run2]) (simp_all add: next_step_def)
    finally show ?thesis using v1_reads_body [OF f, of body d ys] False after by simp
  qed
qed
section \<open>The contract of a framing\<close>

text \<open>A frame, read by a decoder at rest, is one message, after which the decoder is at rest again. Any
  framing with this law carries a stream of messages, however the stream is cut.\<close>

locale framing =
  fixes fr :: "wire_msg \<Rightarrow> bytes" and fresh :: "decoder_t \<Rightarrow> bool"
    and ok :: "decoder_t \<Rightarrow> wire_msg \<Rightarrow> bool" and received :: "wire_msg \<Rightarrow> wire_msg"
  assumes decodes: "\<lbrakk>fresh d; ok d m\<rbrakk> \<Longrightarrow> \<exists>d'. (\<forall>ys. feed_bytes d (fr m @ ys) = feed_after (Inr True, d') ys)
      \<and> fresh d' \<and> ok d' = ok d \<and> de_in_progress d' = received m"
begin

lemma decodes_stream:
  "\<lbrakk>fresh d; \<forall>m\<in>set ms. ok d m\<rbrakk>
   \<Longrightarrow> \<exists>d'. (\<forall>ys. feed_bytes d (concat (map fr ms) @ ys)
        = (case feed_bytes d' ys of (ms', r, d'') \<Rightarrow> (map received ms @ ms', r, d''))) \<and> fresh d'"
proof (induction ms arbitrary: d)
  case Nil
  then show ?case by auto
next
  case (Cons m ms)
  then obtain d1 where d1: "feed_bytes d (fr m @ ys) = feed_after (Inr True, d1) ys" "fresh d1" "ok d1 = ok d"
    "de_in_progress d1 = received m" for ys
    using decodes [of d m] by auto
  obtain d2 where d2: "feed_bytes d1 (concat (map fr ms) @ ys)
        = (case feed_bytes d2 ys of (ms', r, d'') \<Rightarrow> (map received ms @ ms', r, d''))" "fresh d2" for ys
    using Cons.IH [of d1] d1(2,3) Cons.prems by auto
  have "feed_bytes d (concat (map fr (m # ms)) @ ys)
      = (case feed_bytes d2 ys of (ms', r, d'') \<Rightarrow> (map received (m # ms) @ ms', r, d''))" for ys
    using d1(1) [of "concat (map fr ms) @ ys"] d1(4) d2(1) [of ys] by (simp split: prod.splits)
  with d2(2) show ?case by blast
qed

lemma decodes_all:
  "\<lbrakk>fresh d; \<forall>m\<in>set ms. ok d m\<rbrakk> \<Longrightarrow> \<exists>d'. feed_bytes d (concat (map fr ms)) = (map received ms, None, d') \<and> fresh d'"
  using decodes_stream [of d ms] by (metis (no_types, lifting) append_Nil2 case_prod_conv feed_bytes.simps(1))

end

section \<open>What the peer reads\<close>

definition frame_prefix :: "enc_proto \<Rightarrow> wire_msg \<Rightarrow> bytes" where
  "frame_prefix p m =
     (if is_subscribe m then (if p = V3_1_Encoder then sub_cmd_name else [CHR 0x01])
      else if is_cancel m then (if p = V3_1_Encoder then cancel_cmd_name else [CHR 0x00]) else [])"

definition received :: "enc_proto \<Rightarrow> wire_msg \<Rightarrow> wire_msg" where
  "received p m =
     \<lparr>wm_flags = msg_flags (wm_more m) (p = V2_Encoder \<and> wm_command m
                    \<or> p = V3_1_Encoder \<and> (wm_command m \<or> is_subscribe m \<or> is_cancel m)),
      wm_data = frame_prefix p m @ wm_data m\<rparr>"

definition fresh_for :: "enc_proto \<Rightarrow> decoder_t \<Rightarrow> bool" where
  "fresh_for p d = (if p = V1_Encoder then fresh_v1 d else fresh_v2 d)"

text \<open>The messages a connection can carry: allowed and allocated by the peer, of a size that fits 64 bits, and
  not a subscription whose prefix takes a body of at most 255 bytes over 255 bytes.\<close>

definition frame_ok :: "enc_proto \<Rightarrow> decoder_t \<Rightarrow> wire_msg \<Rightarrow> bool" where
  "frame_ok p d m \<longleftrightarrow> accepts d (length (frame_prefix p m @ wm_data m))
     \<and> length (frame_prefix p m @ wm_data m) + 1 < 2 ^ 64
     \<and> (p = V1_Encoder \<or> length (wm_data m) > 255 \<or> length (frame_prefix p m @ wm_data m) \<le> 255)"

lemma word64_gt: "n < 2 ^ 64 \<Longrightarrow> (of_nat n :: 64 word) > 255 \<longleftrightarrow> n > 255"
  by (simp add: word_less_nat_alt unat_of_nat)

lemma word64_lt: "n < 2 ^ 64 \<Longrightarrow> (of_nat n :: 64 word) < 255 \<longleftrightarrow> n < 255"
  by (simp add: word_less_nat_alt unat_of_nat)

lemma word64_unat: "n < 2 ^ 64 \<Longrightarrow> unat (of_nat n :: 64 word) = n"
  by (simp add: unat_of_nat)

lemma frame_v1:
  fixes m defines "sz \<equiv> of_nat (Suc (length (frame_prefix V1_Encoder m @ wm_data m))) :: 64 word"
  shows "zmtp_frame V1_Encoder m = (if sz < 255 then [byte_at 0 sz, flag_byte (wm_flags m AND flag_more)]
       else CHR 0xFF # put_uint64 sz @ [flag_byte (wm_flags m AND flag_more)])
     @ frame_prefix V1_Encoder m @ wm_data m"
  unfolding sz_def by (simp add: zmtp_frame_def v1_header_def frame_prefix_def Let_def add.commute)

lemma frame_v2:
  assumes "p \<noteq> V1_Encoder" "length (frame_prefix p m @ wm_data m) < 2 ^ 64"
    "length (wm_data m) > 255 \<or> length (frame_prefix p m @ wm_data m) \<le> 255"
  defines "sz \<equiv> of_nat (length (frame_prefix p m @ wm_data m)) :: 64 word"
  shows "zmtp_frame p m = size_field (v2_flags (wm_more m) (sz > 255) (p = V2_Encoder \<and> wm_command m
       \<or> p = V3_1_Encoder \<and> (wm_command m \<or> is_subscribe m \<or> is_cancel m))) sz @ frame_prefix p m @ wm_data m"
proof -
  have "wm_size m > 255 \<longleftrightarrow> sz > 255"
    using assms(2,3) word64_gt [of "length (wm_data m)"] word64_gt [of "length (frame_prefix p m @ wm_data m)"]
    by (auto simp: sz_def)
  note large = this
  show ?thesis
  proof (cases p)
    case V2_Encoder
    then have "zmtp_frame p m = v2_header m @ wm_data m" by (simp add: zmtp_frame_def)
    with V2_Encoder show ?thesis unfolding v2_header_def Let_def large v2_flags_def
      by (cases "is_subscribe m"; cases "is_cancel m")
        (simp_all add: sz_def frame_prefix_def add.commute split del: if_split)
  next
    case V3_1_Encoder
    then have "zmtp_frame p m = v3_1_header m @ wm_data m" by (simp add: zmtp_frame_def)
    with V3_1_Encoder show ?thesis unfolding v3_1_header_def Let_def large v2_flags_def
      by (cases "is_subscribe m"; cases "is_cancel m")
        (simp_all add: sz_def frame_prefix_def add.commute split del: if_split)
  qed (use assms(1) in simp)
qed

lemma frame_decodes:
  assumes "fresh_for p d" "frame_ok p d m"
  shows "\<exists>d'. (\<forall>ys. feed_bytes d (zmtp_frame p m @ ys) = feed_after (Inr True, d') ys)
      \<and> fresh_for p d' \<and> frame_ok p d' = frame_ok p d \<and> de_in_progress d' = received p m"
proof (cases "p = V1_Encoder")
  case True
  let ?b = "frame_prefix p m @ wm_data m"
  let ?f = "wm_flags m AND flag_more"
  let ?sz = "of_nat (Suc (length ?b)) :: 64 word"
  have f: "msg_flags (wm_more m) False = ?f"
    by (cases "bit (wm_flags m) 0") (auto simp: msg_flags_def wm_more_def and_one_eq odd_iff_mod_2_eq_one)
  have pre: "fresh_v1 d" "accepts d (length ?b)" "unat ?sz = Suc (length ?b)" "?f AND flag_more = ?f"
    using assms True word64_unat [of "Suc (length ?b)"] by (simp_all add: fresh_for_def frame_ok_def and.assoc)
  have "feed_bytes d (zmtp_frame p m @ ys) = feed_after (Inr True, v1_after ?f ?b d) ys" for ys
    unfolding True frame_v1 append_assoc using v1_decodes [OF pre, of ys] unfolding True append_assoc .
  then show ?thesis using pre(1) True f
    by (intro exI [of _ "v1_after ?f ?b d"]) (auto simp: fresh_for_def frame_ok_def fun_eq_iff received_def)
next
  case False
  let ?b = "frame_prefix p m @ wm_data m"
  let ?sz = "of_nat (length ?b) :: 64 word"
  let ?c = "p = V2_Encoder \<and> wm_command m \<or> p = V3_1_Encoder \<and> (wm_command m \<or> is_subscribe m \<or> is_cancel m)"
  let ?d = "v2_after (msg_flags (wm_more m) ?c) ?b d"
  have pre: "fresh_v2 d" "accepts d (length ?b)" "length ?b = unat ?sz"
    using assms False word64_unat [of "length ?b"] by (simp_all add: fresh_for_def frame_ok_def)
  have fr: "zmtp_frame p m = size_field (v2_flags (wm_more m) (?sz > 255) ?c) ?sz @ ?b"
    by (rule frame_v2) (use assms(2) False in \<open>simp_all add: frame_ok_def\<close>)
  have "feed_bytes d (zmtp_frame p m @ ys) = feed_after (Inr True, ?d) ys" for ys
    using v2_decodes [OF pre, of "wm_more m" ?c ys] unfolding fr by simp
  then show ?thesis using pre(1) False
    by (intro exI [of _ ?d]) (auto simp: fresh_for_def frame_ok_def fun_eq_iff received_def)
qed

interpretation v1_framing: framing "zmtp_frame V1_Encoder" "fresh_for V1_Encoder" "frame_ok V1_Encoder" "received V1_Encoder"
  by unfold_locales (rule frame_decodes)

interpretation v2_framing: framing "zmtp_frame V2_Encoder" "fresh_for V2_Encoder" "frame_ok V2_Encoder" "received V2_Encoder"
  by unfold_locales (rule frame_decodes)

interpretation v3_1_framing: framing "zmtp_frame V3_1_Encoder" "fresh_for V3_1_Encoder" "frame_ok V3_1_Encoder" "received V3_1_Encoder"
  by unfold_locales (rule frame_decodes)

lemma decodes_frames:
  "\<lbrakk>fresh_for p d; \<forall>m\<in>set ms. frame_ok p d m\<rbrakk>
   \<Longrightarrow> \<exists>d'. feed_bytes d (concat (map (zmtp_frame p) ms)) = (map (received p) ms, None, d') \<and> fresh_for p d'"
  by (cases p) (simp_all add: v1_framing.decodes_all v2_framing.decodes_all v3_1_framing.decodes_all)
section \<open>The last message does not matter to the next one\<close>

definition early :: "dec_step \<Rightarrow> bool" where
  "early st \<longleftrightarrow> st \<in> {V1_one_byte_size_ready, V1_eight_byte_size_ready, V2_flags_ready, V2_one_byte_size_ready,
     V2_eight_byte_size_ready}"

abbreviation with_msg :: "wire_msg \<Rightarrow> decoder_t \<Rightarrow> decoder_t" where
  "with_msg w d \<equiv> d\<lparr>de_in_progress := w\<rparr>"

definition as_early :: "wire_msg \<Rightarrow> (dec_error + bool) \<times> decoder_t \<Rightarrow> (dec_error + bool) \<times> decoder_t \<Rightarrow> bool" where
  "as_early w x y \<longleftrightarrow> fst x = fst y \<and> (\<forall>b. fst x = Inr b \<longrightarrow> x = y \<or> (\<not> b \<and> early (de_next (snd y)) \<and> snd x = with_msg w (snd y)))"

lemma as_early_simps:
  "as_early w (Inl e, x) (Inl e', y) \<longleftrightarrow> e = e'"
  "\<not> as_early w (Inl e, x) (Inr b, y)" "\<not> as_early w (Inr b, x) (Inl e, y)"
  "as_early w (Inr b, x) (Inr b', y) \<longleftrightarrow> b = b' \<and> (x = y \<or> (\<not> b \<and> early (de_next y) \<and> x = with_msg w y))"
  by (auto simp: as_early_def)

lemma dec_run_next_early:
  assumes "early (de_next d)"
  shows "as_early w (dec_run_next (with_msg w d)) (dec_run_next d)"
proof -
  have o: "as_early w (v1_one_byte_size_ready (with_msg w d)) (v1_one_byte_size_ready d)"
    by (simp add: v1_one_byte_size_ready_def init_size_def next_step_def Let_def as_early_simps early_def split: bool.splits)
  have e: "as_early w (v1_eight_byte_size_ready (with_msg w d)) (v1_eight_byte_size_ready d)"
    by (simp add: v1_eight_byte_size_ready_def init_size_def next_step_def Let_def as_early_simps split: bool.splits)
  have f: "as_early w (v2_flags_ready (with_msg w d)) (v2_flags_ready d)"
    by (simp add: v2_flags_ready_def next_step_def Let_def as_early_simps early_def)
  have s: "as_early w (v2_size_ready n (with_msg w d)) (v2_size_ready n d)" for n
    by (simp add: v2_size_ready_def init_size_def next_step_def as_early_simps split: bool.splits)
  show ?thesis using assms o e f s by (auto simp: early_def dec_run_next_def)
qed

lemma as_early_cases:
  assumes "as_early w (r2, d2) (r, d1)"
  obtains "r2 = Inr False" "r = Inr False" "early (de_next d1)" "d2 = with_msg w d1" | "(r2, d2) = (r, d1)"
    | e where "r2 = Inl e" "r = Inl e"
  using assms by (cases r; cases r2) (auto simp: as_early_simps)

lemma dec_spin_early:
  "early (de_next d) \<Longrightarrow> as_early w (dec_spin (with_msg w d)) (dec_spin d)"
proof (induction d rule: dec_spin.induct)
  case (1 d)
  show ?case
  proof (cases "de_to_read d = 0")
    case False
    then show ?thesis using "1.prems" by (simp add: dec_spin_reads as_early_simps)
  next
    case True
    obtain r d1 where r: "dec_run_next d = (r, d1)" by (cases "dec_run_next d")
    obtain r2 d2 where r2: "dec_run_next (with_msg w d) = (r2, d2)" by (cases "dec_run_next (with_msg w d)")
    have same: "as_early w (r2, d2) (r, d1)" using dec_run_next_early [OF "1.prems", of w] r r2 by simp
    have z: "de_to_read (with_msg w d) = 0" using True by simp
    show ?thesis
    proof (cases "r = Inr False")
      case ends: False
      then have "r2 \<noteq> Inr False" using same by (auto elim: as_early_cases)
      with ends show ?thesis using dec_spin_ends [OF r True] dec_spin_ends [OF r2 z] same by simp
    next
      case again: True
      then have r2f: "r2 = Inr False" using same by (auto elim: as_early_cases)
      have s: "dec_spin d = dec_spin d1" "dec_spin (with_msg w d) = dec_spin d2"
        using dec_spin_step [OF r [unfolded again] True] dec_spin_step [OF r2 [unfolded r2f] z] by simp_all
      from same show ?thesis
      proof (cases rule: as_early_cases)
        case 1
        have "as_early w (dec_spin (with_msg w d1)) (dec_spin d1)"
          by (rule "1.IH" [OF _ r [symmetric] again _ 1(3)]) (use True in auto)
        with s 1 show ?thesis by simp
      next
        case 2
        with s show ?thesis by (simp add: as_early_def)
      next
        case 3
        with again show ?thesis by simp
      qed
    qed
  qed
qed

lemma feed_bytes_early:
  "early (de_next d) \<Longrightarrow> fst (feed_bytes (with_msg w d) bs) = fst (feed_bytes d bs)
     \<and> fst (snd (feed_bytes (with_msg w d) bs)) = fst (snd (feed_bytes d bs))"
proof (induction bs arbitrary: d)
  case Nil
  then show ?case by simp
next
  case (Cons c cs)
  let ?t = "dec_take 1 [c] d"
  have e: "early (de_next ?t)" using Cons.prems by simp
  obtain r d1 where r: "dec_spin ?t = (r, d1)" by (cases "dec_spin ?t")
  obtain r2 d2 where r2: "dec_spin (with_msg w ?t) = (r2, d2)" by (cases "dec_spin (with_msg w ?t)")
  have t: "dec_take 1 [c] (with_msg w d) = with_msg w ?t" by simp
  have "as_early w (r2, d2) (r, d1)" using dec_spin_early [OF e, of w] unfolding r r2 .
  then show ?case
  proof (cases rule: as_early_cases)
    case 1
    then show ?thesis using Cons.IH [of d1] unfolding feed_bytes_Cons t r r2 by simp
  next
    case 2
    then show ?thesis unfolding feed_bytes_Cons t r r2 by simp
  next
    case 3
    then show ?thesis unfolding feed_bytes_Cons t r r2 by simp
  qed
qed

lemma fresh_early: "fresh_for p d \<Longrightarrow> early (de_next d)"
  by (auto simp: fresh_for_def early_def split: if_splits)

lemma dec_run_next_message: "dec_run_next d = (Inr True, d') \<Longrightarrow> early (de_next d')"
  by (auto simp: dec_run_next_def v1_one_byte_size_ready_def v1_eight_byte_size_ready_def v1_flags_ready_def
      v2_flags_ready_def v2_size_ready_def dec_message_ready_def next_step_def init_size_def Let_def early_def
      split: dec_step.splits if_splits)

lemma dec_spin_message_early: "dec_spin d = (Inr True, d') \<Longrightarrow> early (de_next d')"
proof (induction d rule: dec_spin.induct)
  case (1 d)
  have z: "de_to_read d = 0" using "1.prems" by (cases "de_to_read d = 0") (simp_all add: dec_spin_reads)
  obtain r d1 where r: "dec_run_next d = (r, d1)" by (cases "dec_run_next d")
  show ?case
  proof (cases "r = Inr False")
    case True
    have "dec_spin d1 = (Inr True, d')" using dec_spin_step [OF r [unfolded True] z] "1.prems" by simp
    then show ?thesis by (rule "1.IH" [OF _ r [symmetric] True, rotated 2]) (use z in simp_all)
  next
    case False
    then show ?thesis using dec_spin_ends [OF r z] "1.prems" r dec_run_next_message by auto
  qed
qed

end
