(* ===== verification/ZmtpEngine.thy ===== *)
theory ZmtpEngine
  imports ZmtpCodec
begin

text \<open>
  The engine of a connection between its codec and its session, once the handshake is over
  (\<open>3rd/zeromq/src/stream_engine_base.cpp\<close>, \<open>zmtp_engine.cpp\<close>, \<open>session_base.cpp\<close>) with the NULL mechanism,
  whose \<open>encode\<close> and \<open>decode\<close> leave messages as they are and which has no user id. The session has its
  pipe to the socket.
\<close>

unbundle bit_operations_syntax

section \<open>Messages of a pipe and messages of the wire\<close>

fun kind_flags :: "msg_kind \<Rightarrow> 8 word" where
  "kind_flags Plain = 0"
| "kind_flags Command = flag_command"
| "kind_flags Routing_Id = 64"
| "kind_flags Credential = 32"
| "kind_flags Delimiter = 0"
| "kind_flags Subscribe_Cmd = flag_subscribe"
| "kind_flags Cancel_Cmd = flag_cancel"

definition wire_of_msg :: "msg_t \<Rightarrow> wire_msg" where
  "wire_of_msg m = \<lparr>wm_flags = kind_flags (m_kind m) OR (if m_more m then flag_more else 0), wm_data = m_data m\<rparr>"

text \<open>What the socket types see: of a subscription or its cancellation, the kind and the topic.\<close>

definition msg_of_wire :: "wire_msg \<Rightarrow> msg_t" where
  "msg_of_wire w =
     (if is_subscribe w then \<lparr>m_data = command_body w, m_more = wm_more w, m_kind = Subscribe_Cmd\<rparr>
      else if is_cancel w then \<lparr>m_data = command_body w, m_more = wm_more w, m_kind = Cancel_Cmd\<rparr>
      else \<lparr>m_data = wm_data w, m_more = wm_more w, m_kind = if wm_command w then Command else Plain\<rparr>)"

section \<open>Messages from the session\<close>

definition pull_msg :: "pipe_t \<Rightarrow> wire_msg option \<times> pipe_t" where
  "pull_msg p = (case pipe_read p of (None, p') \<Rightarrow> (None, p') | (Some m, p') \<Rightarrow> (Some (wire_of_msg m), p'))"

definition pull_pending :: "pipe_t \<Rightarrow> wire_msg list" where
  "pull_pending p =
     (if pipe_readable p
      then map wire_of_msg (filter (\<lambda>m. m_kind m \<noteq> Credential) (takeWhile (\<lambda>m. m_kind m \<noteq> Delimiter) (p_in p)))
      else [])"

section \<open>Commands\<close>

text \<open>The result tells a malformed command; its caller does not look at it.\<close>

definition process_command_message :: "wire_msg \<Rightarrow> bool \<times> wire_msg" where
  "process_command_message w =
     (case wm_data w of
        [] \<Rightarrow> (False, w)
      | c # cs \<Rightarrow>
          let n = char_num c; cmd_name = take n cs in
          if length (wm_data w) < n + 1 then (False, w)
          else (True,
             let w1 = (if cmd_name = ''PING'' then set_flags flag_ping w else w);
                 w2 = (if cmd_name = ''PONG'' then set_flags flag_pong w1 else w1);
                 w3 = (if cmd_name = ''SUBSCRIBE'' then set_flags flag_subscribe w2 else w2)
             in if cmd_name = ''CANCEL'' then set_flags flag_cancel w3 else w3))"

text \<open>The time to live of a PING, in milliseconds, and the context to send back. \<open>None\<close>: bytes outside the
  message are read. The sizes are \<open>size_t\<close>, the time 16 bits wide.\<close>

definition ping_ttl :: "wire_msg \<Rightarrow> 16 word option" where
  "ping_ttl w = (if length (wm_data w) < 7 then None
     else Some ((push_bit 8 (of_nat (char_num (wm_data w ! 5))) OR of_nat (char_num (wm_data w ! 6))) * 100))"

definition ping_context :: "wire_msg \<Rightarrow> bytes option" where
  "ping_context w =
     (let context_len = unat (min (wm_size w - 7) 16)
      in if length (wm_data w) < 7 + context_len then None else Some (take context_len (drop 7 (wm_data w))))"

definition pong_msg :: "bytes \<Rightarrow> wire_msg" where
  "pong_msg ctx = set_flags flag_command \<lparr>wm_flags = 0, wm_data = CHR 0x04 # ''PONG'' @ ctx\<rparr>"

section \<open>The input side of the engine\<close>

datatype process_fun = Decode_And_Push | Push_One_Then_Decode_And_Push

record in_engine =
  ei_decoder :: decoder_t
  ei_in :: bytes
  ei_net :: bytes \<comment> \<open>what arrived on the network socket and was not read yet\<close>
  ei_process :: process_fun
  ei_pipe :: pipe_t
  ei_input_stopped :: bool
  ei_io_error :: bool
  ei_failed :: bool
  ei_ttl_timer :: "16 word option"
  ei_pong :: "wire_msg option"

datatype process_result = Processed | Pipe_Full | Overread

definition set_msg :: "wire_msg \<Rightarrow> in_engine \<Rightarrow> in_engine" where
  "set_msg w s = s\<lparr>ei_decoder := (ei_decoder s)\<lparr>de_in_progress := w\<rparr>\<rparr>"

abbreviation cur_msg :: "in_engine \<Rightarrow> wire_msg" where
  "cur_msg s \<equiv> de_in_progress (ei_decoder s)"

text \<open>\<open>session_base_t::push_msg\<close>: other commands than subscriptions end here.\<close>

definition push_msg :: "in_engine \<Rightarrow> process_result \<times> in_engine" where
  "push_msg s =
     (let w = cur_msg s in
      if wm_command w \<and> \<not> is_subscribe w \<and> \<not> is_cancel w then (Processed, s)
      else case pipe_write (msg_of_wire w) (ei_pipe s) of
          (True, p) \<Rightarrow> (Processed, set_msg \<lparr>wm_flags = 0, wm_data = []\<rparr> (s\<lparr>ei_pipe := p\<rparr>))
        | (False, p) \<Rightarrow> (Pipe_Full, s\<lparr>ei_pipe := p\<rparr>))"

definition process_heartbeat_message :: "in_engine \<Rightarrow> in_engine option" where
  "process_heartbeat_message s =
     (if is_ping (cur_msg s)
      then case (ping_ttl (cur_msg s), ping_context (cur_msg s)) of
          (Some ttl, Some ctx) \<Rightarrow>
            Some (s\<lparr>ei_ttl_timer := if ei_ttl_timer s = None \<and> ttl > 0 then Some ttl else ei_ttl_timer s,
                    ei_pong := Some (pong_msg ctx)\<rparr>)
        | _ \<Rightarrow> None
      else Some s)"

definition decode_and_push :: "in_engine \<Rightarrow> process_result \<times> in_engine" where
  "decode_and_push s0 =
     (let s = s0\<lparr>ei_ttl_timer := None\<rparr>;
          s1 = (if wm_command (cur_msg s)
                then case process_command_message (cur_msg s) of
                    (ok, w) \<Rightarrow> let s' = set_msg w s
                               in if ok \<and> (is_ping w \<or> is_pong w) then process_heartbeat_message s' else Some s'
                else Some s)
      in case s1 of
           None \<Rightarrow> (Overread, s)
         | Some s' \<Rightarrow> (case push_msg s' of
               (Pipe_Full, s'') \<Rightarrow> (Pipe_Full, s''\<lparr>ei_process := Push_One_Then_Decode_And_Push\<rparr>)
             | r \<Rightarrow> r))"

definition push_one_then_decode_and_push :: "in_engine \<Rightarrow> process_result \<times> in_engine" where
  "push_one_then_decode_and_push s =
     (case push_msg s of
        (Processed, s') \<Rightarrow> (Processed, s'\<lparr>ei_process := Decode_And_Push\<rparr>)
      | r \<Rightarrow> r)"

definition process_msg :: "in_engine \<Rightarrow> process_result \<times> in_engine" where
  "process_msg s =
     (case ei_process s of
        Decode_And_Push \<Rightarrow> decode_and_push s
      | Push_One_Then_Decode_And_Push \<Rightarrow> push_one_then_decode_and_push s)"

lemma push_msg_keeps:
  "push_msg s = (r, s') \<Longrightarrow> de_to_read (ei_decoder s') = de_to_read (ei_decoder s) \<and> ei_in s' = ei_in s \<and> ei_net s' = ei_net s"
  by (auto simp: push_msg_def set_msg_def Let_def split: if_splits prod.splits bool.splits)

lemma process_msg_keeps:
  "process_msg s = (r, s') \<Longrightarrow> de_to_read (ei_decoder s') = de_to_read (ei_decoder s) \<and> ei_in s' = ei_in s \<and> ei_net s' = ei_net s"
  by (auto simp: process_msg_def decode_and_push_def push_one_then_decode_and_push_def process_heartbeat_message_def
      set_msg_def Let_def split: process_fun.splits if_splits option.splits prod.splits process_result.splits
      dest!: push_msg_keeps)
lemma decode_loop_moves:
  "decode_loop d bs used = (Inr True, u, d') \<Longrightarrow> de_to_read d' = 1 \<and> used \<le> u \<and> (u = used \<longrightarrow> de_to_read d = 0)"
proof (induction d bs used rule: decode_loop.induct)
  case (1 d bs used)
  define k where "k = min (de_to_read d) (length bs)"
  have ne: "bs \<noteq> []" using "1.prems" by (auto simp: decode_loop.simps)
  obtain s d1 where s: "dec_spin (dec_take k bs d) = (s, d1)" by (cases "dec_spin (dec_take k bs d)")
  show ?case
  proof (cases "s = Inr False")
    case True
    have rec: "decode_loop d1 (drop k bs) (used + k) = (Inr True, u, d')"
      using "1.prems" True s ne by (subst (asm) decode_loop.simps) (simp add: k_def Let_def)
    have "de_to_read d' = 1 \<and> used + k \<le> u \<and> (u = used + k \<longrightarrow> de_to_read d1 = 0)"
      by (rule "1.IH" [OF ne k_def _ _ _ rec]) (use s True in auto)
    then show ?thesis using dec_spin_wants [of "dec_take k bs d" False d1] s True by (auto simp: k_def)
  next
    case False
    have "(Inr True, u, d') = (s, used + k, d1)"
      using "1.prems" False s ne by (subst (asm) decode_loop.simps) (auto simp: k_def Let_def split: sum.splits bool.splits)
    then show ?thesis using dec_spin_message [of "dec_take k bs d" d1] s ne by (auto simp: k_def min_def split: if_splits)
  qed
qed

text \<open>The loop of \<open>in_event_internal\<close> and \<open>restart_input\<close>.\<close>

datatype input_result = Input_Empty | Input_Error dec_error | Input_Full | Input_Overread

function input_loop :: "in_engine \<Rightarrow> input_result \<times> in_engine" where
  "input_loop s =
     (if ei_in s = [] then (Input_Empty, s)
      else case decode False (ei_in s) (ei_decoder s) of
          (r, u, d) \<Rightarrow>
            let s1 = s\<lparr>ei_decoder := d, ei_in := drop u (ei_in s)\<rparr>
            in (case r of
                  Inl e \<Rightarrow> (Input_Error e, s1)
                | Inr False \<Rightarrow> (Input_Empty, s1)
                | Inr True \<Rightarrow>
                    (case process_msg s1 of
                       (Processed, s2) \<Rightarrow> input_loop s2
                     | (Pipe_Full, s2) \<Rightarrow> (Input_Full, s2)
                     | (Overread, s2) \<Rightarrow> (Input_Overread, s2))))"
  by pat_completeness auto
termination
  by (relation "measures [\<lambda>s. length (ei_in s), \<lambda>s. if de_to_read (ei_decoder s) = 0 then 1 else 0]")
    (auto simp: decode_def dest!: process_msg_keeps decode_loop_moves sym [of _ "process_msg _"] sym [of _ "decode_loop _ _ _"])

declare input_loop.simps [simp del]

text \<open>Failures end the engine; a full pipe stops the input.\<close>

definition end_input :: "input_result \<times> in_engine \<Rightarrow> in_engine" where
  "end_input r =
     (case r of
        (Input_Error _, s) \<Rightarrow> s\<lparr>ei_failed := True\<rparr>
      | (Input_Overread, s) \<Rightarrow> s\<lparr>ei_failed := True\<rparr>
      | (Input_Full, s) \<Rightarrow> s\<lparr>ei_input_stopped := True, ei_pipe := pipe_flush (ei_pipe s)\<rparr>
      | (Input_Empty, s) \<Rightarrow> s\<lparr>ei_pipe := pipe_flush (ei_pipe s)\<rparr>)"

text \<open>\<open>get_buffer\<close>: a body that does not fit the input buffer is read straight to its place.\<close>

definition get_buffer :: "nat \<Rightarrow> decoder_t \<Rightarrow> bool \<times> nat" where
  "get_buffer bufsize d = (if de_to_read d \<ge> bufsize then (True, de_to_read d) else (False, bufsize))"

text \<open>What a read of the network socket does: nothing there, the peer is gone, or so many bytes at most.\<close>

datatype read_result = Read_Again | Read_Closed | Read_Some nat

definition first_decode :: "bool \<Rightarrow> in_engine \<Rightarrow> input_result \<times> in_engine" where
  "first_decode in_place s =
     (if in_place \<and> ei_in s \<noteq> []
      then case decode True (ei_in s) (ei_decoder s) of
          (r, u, d) \<Rightarrow>
            let s1 = s\<lparr>ei_decoder := d, ei_in := drop u (ei_in s)\<rparr>
            in (case r of
                  Inl e \<Rightarrow> (Input_Error e, s1)
                | Inr False \<Rightarrow> (Input_Empty, s1)
                | Inr True \<Rightarrow>
                    (case process_msg s1 of
                       (Processed, s2) \<Rightarrow> input_loop s2
                     | (Pipe_Full, s2) \<Rightarrow> (Input_Full, s2)
                     | (Overread, s2) \<Rightarrow> (Input_Overread, s2)))
      else input_loop s)"

definition in_event_internal :: "nat \<Rightarrow> read_result \<Rightarrow> in_engine \<Rightarrow> in_engine" where
  "in_event_internal bufsize rd s =
     (if ei_input_stopped s then s\<lparr>ei_io_error := True\<rparr>
      else if ei_in s \<noteq> [] then end_input (input_loop s)
      else case rd of
          Read_Again \<Rightarrow> s
        | Read_Closed \<Rightarrow> s\<lparr>ei_failed := True\<rparr>
        | Read_Some n \<Rightarrow>
            (case get_buffer bufsize (ei_decoder s) of
               (in_place, bufsz) \<Rightarrow>
                 let k = min n bufsz
                 in if take k (ei_net s) = [] then s
                    else end_input (first_decode in_place (s\<lparr>ei_in := take k (ei_net s), ei_net := drop k (ei_net s)\<rparr>))))"

text \<open>The socket read from the full pipe; \<open>rd\<close> is what the read at the end finds.\<close>

definition restart_input :: "nat \<Rightarrow> read_result \<Rightarrow> in_engine \<Rightarrow> in_engine" where
  "restart_input bufsize rd s =
     (case process_msg s of
        (Pipe_Full, s1) \<Rightarrow> s1\<lparr>ei_pipe := pipe_flush (ei_pipe s1)\<rparr>
      | (Overread, s1) \<Rightarrow> s1\<lparr>ei_failed := True\<rparr>
      | (Processed, s1) \<Rightarrow>
          (case input_loop s1 of
             (Input_Full, s2) \<Rightarrow> s2\<lparr>ei_pipe := pipe_flush (ei_pipe s2)\<rparr>
           | (Input_Error _, s2) \<Rightarrow> s2\<lparr>ei_failed := True\<rparr>
           | (Input_Overread, s2) \<Rightarrow> s2\<lparr>ei_failed := True\<rparr>
           | (Input_Empty, s2) \<Rightarrow>
               if ei_io_error s2 then s2\<lparr>ei_failed := True\<rparr>
               else in_event_internal bufsize rd (s2\<lparr>ei_input_stopped := False, ei_pipe := pipe_flush (ei_pipe s2)\<rparr>)))"
section \<open>What reaches the pipe\<close>

definition push_list :: "wire_msg \<Rightarrow> msg_t list" where
  "push_list w = (if wm_command w \<and> \<not> is_subscribe w \<and> \<not> is_cancel w then [] else [msg_of_wire w])"

definition processed :: "wire_msg \<Rightarrow> wire_msg" where
  "processed w = (if wm_command w then snd (process_command_message w) else w)"

definition reaches :: "wire_msg \<Rightarrow> msg_t list" where
  "reaches w = push_list (processed w)"

definition delivered :: "pipe_t \<Rightarrow> msg_t list" where
  "delivered p = p_out p @ p_ready p @ p_part p"

lemma delivered_flush [simp]: "delivered (pipe_flush p) = delivered p"
  by (simp add: delivered_def pipe_flush_def Let_def)

lemma pipe_check_write_delivered: "pipe_check_write p = (b, p') \<Longrightarrow> delivered p' = delivered p"
  by (auto simp: pipe_check_write_def delivered_def split: if_splits)

lemma pipe_write_delivered:
  "pipe_write m p = (b, p') \<Longrightarrow> delivered p' = delivered p @ (if b then [m] else [])"
  by (auto simp: pipe_write_def Let_def delivered_def split: prod.splits bool.splits if_splits dest!: pipe_check_write_delivered)

lemma push_msg_delivers:
  "push_msg s = (r, s') \<Longrightarrow> delivered (ei_pipe s') = delivered (ei_pipe s) @ (if r = Processed then push_list (cur_msg s) else [])
     \<and> r \<noteq> Overread \<and> (r = Pipe_Full \<longrightarrow> cur_msg s' = cur_msg s) \<and> (\<exists>w. ei_decoder s' = (ei_decoder s)\<lparr>de_in_progress := w\<rparr>)
     \<and> ei_process s' = ei_process s \<and> ei_in s' = ei_in s \<and> ei_net s' = ei_net s \<and> ei_input_stopped s' = ei_input_stopped s
     \<and> ei_failed s' = ei_failed s \<and> ei_io_error s' = ei_io_error s"
  by (auto simp: push_msg_def push_list_def set_msg_def Let_def split: if_splits prod.splits bool.splits dest!: pipe_write_delivered
      intro: exI [of _ "de_in_progress (ei_decoder s)"])

text \<open>The message being retried, if any.\<close>

definition retried :: "in_engine \<Rightarrow> msg_t list" where
  "retried s = (if ei_process s = Push_One_Then_Decode_And_Push then push_list (cur_msg s) else [])"

lemma process_heartbeat_keeps:
  "process_heartbeat_message s = Some s' \<Longrightarrow> \<exists>a b. s' = s\<lparr>ei_ttl_timer := a, ei_pong := b\<rparr>"
  by (intro exI [of _ "ei_ttl_timer s'"] exI [of _ "ei_pong s'"])
    (auto simp: process_heartbeat_message_def split: if_splits option.splits)

lemma decode_and_push_pushes:
  assumes "decode_and_push s = (r, s')" "r \<noteq> Overread"
  obtains a b t where "t = (set_msg (processed (cur_msg s)) s)\<lparr>ei_ttl_timer := a, ei_pong := b\<rparr>"
    "decode_and_push s = (case push_msg t of
        (Pipe_Full, s'') \<Rightarrow> (Pipe_Full, s''\<lparr>ei_process := Push_One_Then_Decode_And_Push\<rparr>) | r \<Rightarrow> r)"
proof (cases "wm_command (cur_msg s)")
  case False
  show thesis
    by (rule that [where t = "s\<lparr>ei_ttl_timer := None\<rparr>" and a = None and b = "ei_pong s"])
      (use False in \<open>simp_all add: decode_and_push_def processed_def set_msg_def\<close>)
next
  case True
  let ?s = "s\<lparr>ei_ttl_timer := None\<rparr>"
  obtain ok w where w: "process_command_message (cur_msg s) = (ok, w)" by (cases "process_command_message (cur_msg s)")
  then have pw: "processed (cur_msg s) = w" using True by (simp add: processed_def)
  let ?t = "set_msg w ?s"
  show thesis
  proof (cases "ok \<and> (is_ping w \<or> is_pong w)")
    case False
    show thesis
      by (rule that [where t = ?t and a = None and b = "ei_pong s"]) (use True False w pw in \<open>auto simp: decode_and_push_def set_msg_def Let_def\<close>)
  next
    case hb: True
    obtain t where t: "process_heartbeat_message ?t = Some t"
      using assms True hb w by (cases "process_heartbeat_message ?t") (auto simp: decode_and_push_def Let_def)
    then obtain a b where ab: "t = ?t\<lparr>ei_ttl_timer := a, ei_pong := b\<rparr>" using process_heartbeat_keeps by blast
    show thesis
      by (rule that [where t = t and a = a and b = b]) (use True hb w pw t ab in \<open>auto simp: decode_and_push_def set_msg_def Let_def\<close>)
  qed
qed

lemma process_msg_delivers:
  assumes "process_msg s = (r, s')" "r \<noteq> Overread"
  shows "delivered (ei_pipe s') @ retried s' = delivered (ei_pipe s)
        @ (if ei_process s = Decode_And_Push then reaches (cur_msg s) else retried s)"
    "ei_process s' = Decode_And_Push \<longleftrightarrow> r = Processed" "\<exists>w. ei_decoder s' = (ei_decoder s)\<lparr>de_in_progress := w\<rparr>"
    "ei_in s' = ei_in s" "ei_net s' = ei_net s" "ei_input_stopped s' = ei_input_stopped s" "ei_failed s' = ei_failed s"
    "ei_io_error s' = ei_io_error s"
proof -
  show "ei_in s' = ei_in s" "ei_net s' = ei_net s" using process_msg_keeps [OF assms(1)] by simp_all
  have *: "(delivered (ei_pipe s') @ retried s' = delivered (ei_pipe s)
        @ (if ei_process s = Decode_And_Push then reaches (cur_msg s) else retried s))
      \<and> (ei_process s' = Decode_And_Push \<longleftrightarrow> r = Processed) \<and> (\<exists>w. ei_decoder s' = (ei_decoder s)\<lparr>de_in_progress := w\<rparr>)
      \<and> ei_input_stopped s' = ei_input_stopped s \<and> ei_failed s' = ei_failed s \<and> ei_io_error s' = ei_io_error s"
  proof (cases "ei_process s")
    case Push_One_Then_Decode_And_Push
    obtain r1 s1 where p: "push_msg s = (r1, s1)" by (cases "push_msg s")
    show ?thesis
      using assms Push_One_Then_Decode_And_Push push_msg_delivers [OF p]
      by (cases r1) (auto simp: process_msg_def push_one_then_decode_and_push_def p retried_def)
  next
    case Decode_And_Push
    then have dp: "process_msg s = decode_and_push s" by (simp add: process_msg_def)
    obtain a b t where t: "t = (set_msg (processed (cur_msg s)) s)\<lparr>ei_ttl_timer := a, ei_pong := b\<rparr>"
      "process_msg s = (case push_msg t of
        (Pipe_Full, s'') \<Rightarrow> (Pipe_Full, s''\<lparr>ei_process := Push_One_Then_Decode_And_Push\<rparr>) | r \<Rightarrow> r)"
      using decode_and_push_pushes [of s r s'] assms unfolding dp by metis
    obtain r1 s2 where p: "push_msg t = (r1, s2)" by (cases "push_msg t")
    note d = push_msg_delivers [OF p]
    have dec: "\<exists>w. ei_decoder s2 = (ei_decoder s)\<lparr>de_in_progress := w\<rparr>" using d t(1) by (auto simp: set_msg_def)
    have cur: "cur_msg t = processed (cur_msg s)" by (simp add: t(1) set_msg_def)
    have res: "r1 = Processed \<and> r = Processed \<and> s' = s2
        \<or> r1 = Pipe_Full \<and> r = Pipe_Full \<and> s' = s2\<lparr>ei_process := Push_One_Then_Decode_And_Push\<rparr>"
      using assms t(2) d by (cases r1) (simp_all add: p)
    have keep: "delivered (ei_pipe t) = delivered (ei_pipe s)" "ei_process t = Decode_And_Push" "ei_input_stopped t = ei_input_stopped s"
      "ei_failed t = ei_failed s" "ei_io_error t = ei_io_error s"
      using Decode_And_Push by (simp_all add: t(1) set_msg_def)
    show ?thesis
      using res
    proof (elim disjE conjE)
      assume "r1 = Processed" "r = Processed" "s' = s2"
      then show ?thesis using d dec cur keep Decode_And_Push by (simp add: retried_def reaches_def)
    next
      assume "r1 = Pipe_Full" "r = Pipe_Full" "s' = s2\<lparr>ei_process := Push_One_Then_Decode_And_Push\<rparr>"
      then show ?thesis using d dec cur keep Decode_And_Push by (simp add: retried_def reaches_def)
    qed
  qed
  then show "delivered (ei_pipe s') @ retried s' = delivered (ei_pipe s)
        @ (if ei_process s = Decode_And_Push then reaches (cur_msg s) else retried s)"
    "ei_process s' = Decode_And_Push \<longleftrightarrow> r = Processed" "\<exists>w. ei_decoder s' = (ei_decoder s)\<lparr>de_in_progress := w\<rparr>"
    "ei_input_stopped s' = ei_input_stopped s" "ei_failed s' = ei_failed s" "ei_io_error s' = ei_io_error s" by blast+
qed
section \<open>The input keeps the stream\<close>

text \<open>Reading a body straight to its place is reading it through the buffer.\<close>

lemma decode_in_place:
  assumes "bs \<noteq> []" "length bs \<le> de_to_read d"
  shows "decode True bs d = decode False bs d"
proof -
  obtain r d1 where r: "dec_spin (dec_take (length bs) bs d) = (r, d1)" by (cases "dec_spin (dec_take (length bs) bs d)")
  have k: "min (de_to_read d) (length bs) = length bs" using assms(2) by simp
  have "decode_loop d bs 0 = (r, length bs, d1)"
    using assms(1) r by (subst decode_loop.simps) (auto simp: k Let_def decode_loop.simps [of _ "[]"] split: sum.splits bool.splits)
  then show ?thesis using assms(2) r by (simp add: decode_def)
qed

lemma first_decode_loop:
  assumes "in_place \<longrightarrow> length (ei_in s) \<le> de_to_read (ei_decoder s)"
  shows "first_decode in_place s = input_loop s"
proof (cases "in_place \<and> ei_in s \<noteq> []")
  case True
  then show ?thesis
    using assms decode_in_place [of "ei_in s" "ei_decoder s"] by (simp add: first_decode_def input_loop.simps [of s])
next
  case False
  then show ?thesis by (simp only: first_decode_def if_False)
qed

lemma feed_after_append:
  assumes "feed_bytes d xs = feed_after x ys"
  shows "feed_bytes d (xs @ zs) = feed_after x (ys @ zs)"
proof -
  obtain s d1 where x: "x = (s, d1)" by (cases x)
  have "feed_bytes d (xs @ zs) = (case feed_after x ys of
        (ms, Some e, d') \<Rightarrow> (ms, Some e, d')
      | (ms, None, d') \<Rightarrow> (case feed_bytes d' zs of (ms', r, d'') \<Rightarrow> (ms @ ms', r, d'')))"
    by (simp add: feed_bytes_append assms)
  also have "\<dots> = feed_after x (ys @ zs)"
    unfolding x by (auto simp: feed_after_def feed_bytes_append split: sum.splits prod.splits option.splits bool.splits)
  finally show ?thesis .
qed

lemma decode_loop_early:
  "decode_loop d bs used = (Inr True, u, d') \<Longrightarrow> early (de_next d')"
proof (induction d bs used rule: decode_loop.induct)
  case (1 d bs used)
  define k where "k = min (de_to_read d) (length bs)"
  have ne: "bs \<noteq> []" using "1.prems" by (auto simp: decode_loop.simps)
  obtain s d1 where s: "dec_spin (dec_take k bs d) = (s, d1)" by (cases "dec_spin (dec_take k bs d)")
  show ?case
  proof (cases "s = Inr False")
    case True
    have rec: "decode_loop d1 (drop k bs) (used + k) = (Inr True, u, d')"
      using "1.prems" True s ne by (subst (asm) decode_loop.simps) (simp add: k_def Let_def)
    show ?thesis by (rule "1.IH" [OF ne k_def _ _ _ rec]) (use s True in auto)
  next
    case False
    have "(Inr True, u, d') = (s, used + k, d1)"
      using "1.prems" False s ne by (subst (asm) decode_loop.simps) (auto simp: k_def Let_def split: sum.splits bool.splits)
    then show ?thesis using dec_spin_message_early [of "dec_take k bs d" d1] s by simp
  qed
qed

text \<open>A message whose processing stays inside it.\<close>

definition harmless :: "wire_msg \<Rightarrow> bool" where
  "harmless w \<longleftrightarrow> (wm_command w \<and> fst (process_command_message w) \<and> is_ping (processed w)
     \<longrightarrow> ping_ttl (processed w) \<noteq> None \<and> ping_context (processed w) \<noteq> None)"

lemma harmless_processed:
  assumes "process_msg s = (r, s')" "ei_process s = Decode_And_Push \<Longrightarrow> harmless (cur_msg s)"
  shows "r \<noteq> Overread"
proof (cases "ei_process s")
  case Push_One_Then_Decode_And_Push
  obtain r1 s1 where "push_msg s = (r1, s1)" by (cases "push_msg s")
  then show ?thesis using assms(1) Push_One_Then_Decode_And_Push push_msg_delivers [of s r1 s1]
    by (cases r1) (auto simp: process_msg_def push_one_then_decode_and_push_def)
next
  case Decode_And_Push
  let ?s = "s\<lparr>ei_ttl_timer := None\<rparr>"
  obtain ok w where w: "process_command_message (cur_msg s) = (ok, w)" by (cases "process_command_message (cur_msg s)")
  have np: "push_msg t \<noteq> (Overread, t')" for t t' using push_msg_delivers [of t Overread t'] by blast
  have hb: "process_heartbeat_message (set_msg w ?s) \<noteq> None" if "wm_command (cur_msg s)" ok
    using assms(2) Decode_And_Push w that
    by (auto simp: harmless_def processed_def process_heartbeat_message_def set_msg_def split: option.splits)
  show ?thesis
  proof
    assume r: "r = Overread"
    have "decode_and_push s = (Overread, s')" using assms(1) r Decode_And_Push by (simp add: process_msg_def)
    then show False
      using w np hb by (auto simp: decode_and_push_def Let_def split: if_splits option.splits prod.splits process_result.splits)
  qed
qed
text \<open>A stream the input can take: no error on the way, and every message harmless.\<close>

definition good :: "decoder_t \<Rightarrow> bytes \<Rightarrow> bool" where
  "good d bs \<longleftrightarrow> fst (snd (feed_bytes d bs)) = None \<and> (\<forall>w\<in>set (fst (feed_bytes d bs)). harmless w)"

lemma good_prefix: "good d (xs @ ys) \<Longrightarrow> good d xs"
  by (auto simp: good_def feed_bytes_append split: prod.splits option.splits)

definition outlook :: "in_engine \<Rightarrow> bytes \<Rightarrow> msg_t list" where
  "outlook s bs = delivered (ei_pipe s) @ retried s
     @ concat (map reaches (fst (feed_bytes (ei_decoder s) (ei_in s @ ei_net s @ bs))))"

definition good_input :: "in_engine \<Rightarrow> bytes \<Rightarrow> bool" where
  "good_input s bs \<longleftrightarrow> 0 < de_to_read (ei_decoder s) \<and> good (ei_decoder s) (ei_in s @ ei_net s @ bs)"

abbreviation same_flags :: "in_engine \<Rightarrow> in_engine \<Rightarrow> bool" where
  "same_flags s' s \<equiv> ei_net s' = ei_net s \<and> ei_failed s' = ei_failed s \<and> ei_io_error s' = ei_io_error s
     \<and> ei_input_stopped s' = ei_input_stopped s"

lemma input_loop_facts:
  "\<lbrakk>ei_process s = Decode_And_Push; good_input s bs; input_loop s = (r, s')\<rbrakk>
   \<Longrightarrow> outlook s' bs = outlook s bs \<and> good_input s' bs \<and> same_flags s' s
     \<and> (r = Input_Empty \<and> ei_process s' = Decode_And_Push \<and> ei_in s' = []
        \<or> r = Input_Full \<and> ei_process s' = Push_One_Then_Decode_And_Push \<and> early (de_next (ei_decoder s'))
          \<and> length (ei_in s') < length (ei_in s))"
proof (induction s rule: input_loop.induct)
  case (1 s)
  show ?case
  proof (cases "ei_in s = []")
    case True
    then show ?thesis using 1 by (simp add: input_loop.simps)
  next
    case False
    let ?more = "ei_net s @ bs"
    obtain q u d where dec: "decode_loop (ei_decoder s) (ei_in s) 0 = (q, u, d)"
      by (cases "decode_loop (ei_decoder s) (ei_in s) 0")
    let ?s = "s\<lparr>ei_decoder := d, ei_in := drop u (ei_in s)\<rparr>"
    have w: "0 < de_to_read (ei_decoder s)" using "1.prems"(2) by (simp add: good_input_def)
    note b = decode_loop_bytes [OF w dec]
    have fa: "feed_bytes (ei_decoder s) (ei_in s @ ?more) = feed_after (q, d) (drop u (ei_in s) @ ?more)"
      by (rule feed_after_append) (use b in simp)
    have gd: "good (ei_decoder s) (ei_in s @ ?more)" using "1.prems"(2) by (simp add: good_input_def)
    have step: "input_loop s = (case q of
        Inl e \<Rightarrow> (Input_Error e, ?s)
      | Inr False \<Rightarrow> (Input_Empty, ?s)
      | Inr True \<Rightarrow> (case process_msg ?s of
            (Processed, s2) \<Rightarrow> input_loop s2 | (Pipe_Full, s2) \<Rightarrow> (Input_Full, s2) | (Overread, s2) \<Rightarrow> (Input_Overread, s2)))"
      using False dec by (simp add: input_loop.simps [of s] decode_def Let_def)
    consider (err) e where "q = Inl e" | (empty) "q = Inr False" | (msg) "q = Inr True" by (metis sum.exhaust)
    then show ?thesis
    proof cases
      case err
      then show ?thesis using gd fa by (simp add: good_def)
    next
      case empty
      then have res: "r = Input_Empty" "s' = ?s" "drop u (ei_in s) = []" using step "1.prems"(3) b by auto
      have "0 < de_to_read d" "good d ?more" using b empty gd fa res(3) by (blast, simp add: good_def)
      then show ?thesis using "1.prems"(1) fa empty res by (simp add: outlook_def good_input_def retried_def)
    next
      case msg
      obtain p s2 where pm: "process_msg ?s = (p, s2)" by (cases "process_msg ?s")
      have cur: "cur_msg ?s = de_in_progress d" "ei_process ?s = Decode_And_Push" using "1.prems"(1) by simp_all
      have fe: "fst (feed_bytes (ei_decoder s) (ei_in s @ ?more)) = de_in_progress d # fst (feed_bytes d (drop u (ei_in s) @ ?more))"
        "fst (snd (feed_bytes (ei_decoder s) (ei_in s @ ?more))) = fst (snd (feed_bytes d (drop u (ei_in s) @ ?more)))"
        using fa msg by (simp_all split: prod.splits)
      have "harmless (de_in_progress d)" using gd fe by (simp add: good_def)
      then have p: "p \<noteq> Overread" using harmless_processed [OF pm] cur by simp
      note pd = process_msg_delivers [OF pm p]
      obtain w where w: "ei_decoder s2 = with_msg w d" using pd(3) by auto
      have early: "early (de_next d)" using decode_loop_early dec msg by blast
      note fs = feed_bytes_early [OF early, of w "drop u (ei_in s) @ ?more"]
      have out: "outlook s2 bs = outlook s bs"
        using pd(1,4,5) cur fe(1) fs w by (simp add: outlook_def retried_def "1.prems"(1))
      have len: "length (drop u (ei_in s)) < length (ei_in s)" using b msg False by (cases "ei_in s") auto
      have "0 < de_to_read d" using b msg by blast
      then have gi: "good_input s2 bs"
        using gd fe fs w pd(4,5) by (simp add: good_input_def good_def)
      show ?thesis
      proof (cases p)
        case Processed
        then have again: "ei_process s2 = Decode_And_Push" "input_loop s2 = (r, s')"
          using pd(2) step "1.prems"(3) msg pm by simp_all
        have "outlook s' bs = outlook s2 bs \<and> good_input s' bs \<and> same_flags s' s2
     \<and> (r = Input_Empty \<and> ei_process s' = Decode_And_Push \<and> ei_in s' = []
        \<or> r = Input_Full \<and> ei_process s' = Push_One_Then_Decode_And_Push \<and> early (de_next (ei_decoder s'))
          \<and> length (ei_in s') < length (ei_in s2))"
          by (rule "1.IH" [OF False _ refl refl _ _ pm [symmetric] Processed again(1) gi again(2)])
            (use dec msg in \<open>auto simp: decode_def\<close>)
        then show ?thesis using out pd(4-) len by auto
      next
        case Pipe_Full
        then have "r = Input_Full" "s' = s2" "ei_process s2 = Push_One_Then_Decode_And_Push"
          using pd(2) step "1.prems"(3) msg pm by (simp_all, metis process_fun.exhaust process_result.distinct(1))
        then show ?thesis using out gi pd(4-) w early len by auto
      next
        case Overread
        with p show ?thesis by simp
      qed
    qed
  qed
qed

end
