(* ===== verification/ZmtpConnection.thy ===== *)
theory ZmtpConnection
  imports ZmtpEngine
begin

text \<open>
  One direction of a connection: the engine that sends what is on its session's pipe, the network, and the
  engine that puts what arrives on its session's pipe. Its contract is that of a queue: the receiving
  pipe holds a prefix of what the sending pipe held, and all of it once the connection is at rest.
\<close>

unbundle bit_operations_syntax

section \<open>The session's pipe is a source of messages\<close>

lemma skip_credentials_filter:
  "filter (\<lambda>m. m_kind m \<noteq> Credential) (takeWhile (\<lambda>m. m_kind m \<noteq> Delimiter) ms)
    = (case skip_credentials ms of
         [] \<Rightarrow> []
       | m # ms' \<Rightarrow> if m_kind m = Delimiter then []
                   else m # filter (\<lambda>m. m_kind m \<noteq> Credential) (takeWhile (\<lambda>m. m_kind m \<noteq> Delimiter) ms'))"
proof (induction ms)
  case Nil
  then show ?case by simp
next
  case (Cons m ms)
  then show ?case by (cases "m_kind m = Credential") (auto split: list.splits)
qed

lemma pipe_count_read_keeps [simp]:
  "p_in (pipe_count_read m p) = p_in p" "pipe_readable (pipe_count_read m p) = pipe_readable p"
  "p_state (pipe_count_read m p) = p_state p"
  by (simp_all add: pipe_count_read_def pipe_readable_def Let_def)

lemma skip_credentials_head: "skip_credentials ms = m # ms' \<Longrightarrow> m_kind m \<noteq> Credential"
  by (induction ms) (auto split: if_splits)

lemma process_delimiter_closed:
  "pipe_readable p \<Longrightarrow> \<not> pipe_readable (process_delimiter p)"
  by (auto simp: pipe_readable_def process_delimiter_def pipe_rollback_def)

interpretation session_source: message_source pull_msg pull_pending
proof
  fix s m s'
  assume a: "pull_msg s = (Some m, s')"
  then have rd: "pipe_readable s" by (cases "pipe_readable s") (simp_all add: pull_msg_def pipe_read_def)
  obtain x xs where x: "skip_credentials (p_in s) = x # xs" "m_kind x \<noteq> Delimiter"
    using a rd by (cases "skip_credentials (p_in s)") (auto simp: pull_msg_def pipe_read_def split: if_splits)
  then have s': "s' = pipe_count_read x (s\<lparr>p_in := xs\<rparr>)" "m = wire_of_msg x"
    using a rd by (simp_all add: pull_msg_def pipe_read_def)
  then show "pull_pending s = m # pull_pending s'"
    using rd x by (simp add: pull_pending_def skip_credentials_filter [of "p_in s"]) (simp add: pipe_readable_def)
next
  fix s s' :: pipe_t
  assume a: "pull_msg s = (None, s')"
  show "pull_pending s = [] \<and> pull_pending s' = []"
  proof (cases "pipe_readable s")
    case False
    then show ?thesis using a by (simp add: pull_msg_def pipe_read_def pull_pending_def)
  next
    case True
    show ?thesis
    proof (cases "skip_credentials (p_in s)")
      case Nil
      then have "s' = s\<lparr>p_in := [], p_in_active := False\<rparr>" using a True by (simp add: pull_msg_def pipe_read_def)
      then show ?thesis using Nil True by (simp add: pull_pending_def skip_credentials_filter [of "p_in s"]) 
    next
      case (Cons x xs)
      then have d: "m_kind x = Delimiter" "s' = process_delimiter (s\<lparr>p_in := xs\<rparr>)"
        using a True by (auto simp: pull_msg_def pipe_read_def split: if_splits)
      have "\<not> pipe_readable s'" using process_delimiter_closed [of "s\<lparr>p_in := xs\<rparr>"] True d(2) by (simp add: pipe_readable_def)
      then show ?thesis using Cons True d(1) by (simp add: pull_pending_def skip_credentials_filter [of "p_in s"])
    qed
  qed
qed

section \<open>Messages come out as they went in\<close>

lemma wire_flags:
  assumes "m_kind m \<in> {Plain, Subscribe_Cmd, Cancel_Cmd}"
  shows "wm_more (wire_of_msg m) = m_more m" "\<not> wm_command (wire_of_msg m)"
    "is_subscribe (wire_of_msg m) \<longleftrightarrow> m_kind m = Subscribe_Cmd" "is_cancel (wire_of_msg m) \<longleftrightarrow> m_kind m = Cancel_Cmd"
  using assms by (auto simp: wire_of_msg_def wm_more_def wm_command_def is_subscribe_def is_cancel_def)

lemma received_plain:
  assumes "m_kind m = Plain"
  shows "received p (wire_of_msg m) = \<lparr>wm_flags = if m_more m then flag_more else 0, wm_data = m_data m\<rparr>"
  using assms wire_flags [of m] by (simp add: received_def frame_prefix_def msg_flags_def) (simp add: wire_of_msg_def)

lemma reaches_plain:
  assumes "m_kind m = Plain"
  shows "reaches (received p (wire_of_msg m)) = [m]" "harmless (received p (wire_of_msg m))"
proof -
  have "\<not> wm_command (received p (wire_of_msg m))"
    by (simp add: received_plain [OF assms] wm_command_def)
  moreover have "msg_of_wire (received p (wire_of_msg m)) = m"
    using assms by (cases m) (simp add: received_plain msg_of_wire_def is_subscribe_def is_cancel_def wm_more_def wm_command_def)
  ultimately show "reaches (received p (wire_of_msg m)) = [m]" "harmless (received p (wire_of_msg m))"
    by (simp_all add: reaches_def processed_def push_list_def harmless_def)
qed

text \<open>A subscription is a command in version 3.1 and a byte before the topic in the older ones; the PUB socket
  takes both for the same.\<close>

lemma received_subscription:
  assumes "m_kind m = Subscribe_Cmd \<or> m_kind m = Cancel_Cmd"
  shows "received V3_1_Encoder (wire_of_msg m)
      = \<lparr>wm_flags = (if m_more m then flag_more else 0) OR flag_command,
         wm_data = (if m_kind m = Subscribe_Cmd then sub_cmd_name else cancel_cmd_name) @ m_data m\<rparr>"
    "p \<noteq> V3_1_Encoder \<Longrightarrow> received p (wire_of_msg m)
      = \<lparr>wm_flags = if m_more m then flag_more else 0,
         wm_data = (if m_kind m = Subscribe_Cmd then CHR 0x01 else CHR 0x00) # m_data m\<rparr>"
proof -
  have k: "m_kind m \<in> {Plain, Subscribe_Cmd, Cancel_Cmd}" using assms by auto
  have d: "wm_data (wire_of_msg m) = m_data m" by (simp add: wire_of_msg_def)
  show "received V3_1_Encoder (wire_of_msg m)
      = \<lparr>wm_flags = (if m_more m then flag_more else 0) OR flag_command,
         wm_data = (if m_kind m = Subscribe_Cmd then sub_cmd_name else cancel_cmd_name) @ m_data m\<rparr>"
    using assms wire_flags [OF k] d by (auto simp: received_def frame_prefix_def msg_flags_def)
  show "received p (wire_of_msg m)
      = \<lparr>wm_flags = if m_more m then flag_more else 0,
         wm_data = (if m_kind m = Subscribe_Cmd then CHR 0x01 else CHR 0x00) # m_data m\<rparr>" if "p \<noteq> V3_1_Encoder"
    using assms wire_flags [OF k] d that by (auto simp: received_def frame_prefix_def msg_flags_def)
qed

lemma processed_command:
  assumes "wm_command w" "wm_data w = c # nm @ t" "char_num c = length nm"
    "nm = ''SUBSCRIBE'' \<and> f = flag_subscribe \<or> nm = ''CANCEL'' \<and> f = flag_cancel"
  shows "processed w = set_flags f w" "process_command_message w = (True, set_flags f w)"
proof -
  show "process_command_message w = (True, set_flags f w)"
    using assms by (auto simp: process_command_message_def Let_def)
  then show "processed w = set_flags f w" using assms(1) by (simp add: processed_def)
qed

lemma reaches_subscription:
  assumes "m_kind m = Subscribe_Cmd \<or> m_kind m = Cancel_Cmd"
  shows "reaches (received V3_1_Encoder (wire_of_msg m)) = [m]" "harmless (received V3_1_Encoder (wire_of_msg m))"
proof -
  let ?w = "received V3_1_Encoder (wire_of_msg m)"
  let ?nm = "if m_kind m = Subscribe_Cmd then ''SUBSCRIBE'' else ''CANCEL''"
  let ?f = "if m_kind m = Subscribe_Cmd then flag_subscribe else flag_cancel"
  note w = received_subscription(1) [OF assms]
  have cmd: "wm_command ?w" by (simp add: w wm_command_def)
  let ?c = "if m_kind m = Subscribe_Cmd then CHR 0x09 else CHR 0x06"
  have data: "wm_data ?w = ?c # ?nm @ m_data m"
    by (simp add: w sub_cmd_name_def cancel_cmd_name_def)
  have p: "processed ?w = set_flags ?f ?w"
    by (rule processed_command(1) [OF cmd data]) (use assms in \<open>auto simp: char_num_def\<close>)
  have fl: "wm_flags (processed ?w) = (if m_more m then flag_more else 0) OR flag_command OR ?f"
    unfolding p set_flags_def by (simp add: w or.assoc)
  have kind: "is_subscribe (processed ?w) \<longleftrightarrow> m_kind m = Subscribe_Cmd" "is_cancel (processed ?w) \<longleftrightarrow> m_kind m = Cancel_Cmd"
    "wm_more (processed ?w) = m_more m" "\<not> is_ping (processed ?w)" "\<not> is_pong (processed ?w)" "wm_command (processed ?w)"
    using assms by (auto simp: is_subscribe_def is_cancel_def wm_more_def is_ping_def is_pong_def wm_command_def fl)
  have "wm_data (processed ?w) = wm_data ?w" by (simp add: p set_flags_def)
  then have body: "command_body (processed ?w) = m_data m"
    using assms kind data by (auto simp: command_body_def sub_cmd_name_def cancel_cmd_name_def)
  show "reaches ?w = [m]" using assms kind body by (cases m) (auto simp: reaches_def push_list_def msg_of_wire_def)
  show "harmless ?w" using kind by (simp add: harmless_def)
qed

lemma reaches_old_subscription:
  assumes "m_kind m = Subscribe_Cmd \<or> m_kind m = Cancel_Cmd" "p \<noteq> V3_1_Encoder"
  shows "\<exists>m'. reaches (received p (wire_of_msg m)) = [m'] \<and> m_more m' = m_more m \<and> subscription_of m' = subscription_of m"
    "harmless (received p (wire_of_msg m))"
proof -
  note w = received_subscription(2) [OF assms]
  have f: "\<not> wm_command (received p (wire_of_msg m))" "\<not> is_subscribe (received p (wire_of_msg m))"
    "\<not> is_cancel (received p (wire_of_msg m))" "wm_more (received p (wire_of_msg m)) = m_more m"
    by (simp_all add: w wm_command_def is_subscribe_def is_cancel_def wm_more_def)
  show "harmless (received p (wire_of_msg m))" using f by (simp add: harmless_def)
  show "\<exists>m'. reaches (received p (wire_of_msg m)) = [m'] \<and> m_more m' = m_more m \<and> subscription_of m' = subscription_of m"
    using assms(1) f
    by (elim disjE) (simp_all add: reaches_def processed_def push_list_def msg_of_wire_def w subscription_of_def char_num_def)
qed
section \<open>The events of a connection\<close>

record connection =
  cn_out :: "pipe_t out_engine"
  cn_in :: in_engine

definition new_out_engine :: "enc_proto \<Rightarrow> pipe_t \<Rightarrow> pipe_t out_engine" where
  "new_out_engine pr p = \<lparr>oe_encoder = new_encoder pr, oe_out = [], oe_output_stopped = False, oe_source = p\<rparr>"

definition decoder_for :: "enc_proto \<Rightarrow> int \<Rightarrow> (nat \<Rightarrow> bool) \<Rightarrow> decoder_t" where
  "decoder_for pr = (if pr = V1_Encoder then v1_decoder else v2_decoder)"

definition new_in_engine :: "decoder_t \<Rightarrow> pipe_t \<Rightarrow> in_engine" where
  "new_in_engine d p = \<lparr>ei_decoder = d, ei_in = [], ei_net = [], ei_process = Decode_And_Push, ei_pipe = p,
     ei_input_stopped = False, ei_io_error = False, ei_failed = False, ei_ttl_timer = None, ei_pong = None\<rparr>"

text \<open>The sending engine writes, bytes arrive; the receiving engine reads; the receiving socket took messages
  from its end of the pipe, which makes room and wakes an engine that waits for it. Polling for input is off
  while the input is stopped. The peer stays connected.\<close>

inductive conn_step :: "nat \<Rightarrow> nat \<Rightarrow> connection \<Rightarrow> connection \<Rightarrow> bool" for batch bufsize where
  conn_out: "out_event pull_msg batch w (cn_out c) = Some (b, o')
    \<Longrightarrow> conn_step batch bufsize c (c\<lparr>cn_out := o', cn_in := (cn_in c)\<lparr>ei_net := ei_net (cn_in c) @ b\<rparr>\<rparr>)"
| conn_in: "\<lbrakk>\<not> ei_input_stopped (cn_in c); rd \<noteq> Read_Closed\<rbrakk>
    \<Longrightarrow> conn_step batch bufsize c (c\<lparr>cn_in := in_event_internal bufsize rd (cn_in c)\<rparr>)"
| conn_room: "\<lbrakk>process_activate_write n (ei_pipe (cn_in c)) = (told, p); rd \<noteq> Read_Closed; s = (cn_in c)\<lparr>ei_pipe := p\<rparr>\<rbrakk>
    \<Longrightarrow> conn_step batch bufsize c (c\<lparr>cn_in := if told then restart_input bufsize rd s else s\<rparr>)"

definition engine_ok :: "in_engine \<Rightarrow> bytes \<Rightarrow> bool" where
  "engine_ok s bs \<longleftrightarrow> good_input s bs \<and> \<not> ei_failed s \<and> \<not> ei_io_error s
     \<and> (ei_input_stopped s \<longleftrightarrow> ei_process s = Push_One_Then_Decode_And_Push)
     \<and> (ei_input_stopped s \<longrightarrow> early (de_next (ei_decoder s))) \<and> (\<not> ei_input_stopped s \<longrightarrow> ei_in s = [])"

lemma engine_flush [simp]:
  "outlook (s\<lparr>ei_pipe := pipe_flush p\<rparr>) bs = outlook (s\<lparr>ei_pipe := p\<rparr>) bs"
  "good_input (s\<lparr>ei_pipe := p\<rparr>) bs = good_input s bs"
  by (simp_all add: outlook_def good_input_def retried_def)

lemma delivered_activate: "process_activate_write n p = (told, p') \<Longrightarrow> delivered p' = delivered p"
  by (auto simp: process_activate_write_def delivered_def Let_def split: if_splits)

lemma end_input_ok:
  assumes "ei_process s = Decode_And_Push" "good_input s bs" "\<not> ei_failed s" "\<not> ei_io_error s" "\<not> ei_input_stopped s"
  shows "engine_ok (end_input (input_loop s)) bs \<and> outlook (end_input (input_loop s)) bs = outlook s bs"
proof -
  obtain r s' where l: "input_loop s = (r, s')" by (cases "input_loop s")
  note f = input_loop_facts [OF assms(1,2) l]
  have "outlook (s'\<lparr>ei_pipe := pipe_flush (ei_pipe s')\<rparr>) bs = outlook s' bs" by simp
  moreover have "outlook (s'\<lparr>ei_input_stopped := True, ei_pipe := pipe_flush (ei_pipe s')\<rparr>) bs = outlook s' bs"
    by (simp add: outlook_def retried_def)
  moreover have "good_input (s'\<lparr>ei_input_stopped := True, ei_pipe := pipe_flush (ei_pipe s')\<rparr>) bs = good_input s' bs"
    by (simp add: good_input_def)
  ultimately show ?thesis using f assms l by (auto simp: end_input_def engine_ok_def)
qed

lemma in_event_cases:
  assumes "engine_ok s bs" "\<not> ei_input_stopped s" "rd \<noteq> Read_Closed"
  obtains "in_event_internal bufsize rd s = s" "rd = Read_Some (Suc j) \<Longrightarrow> bufsize = 0 \<or> ei_net s = []"
  | k where "in_event_internal bufsize rd s
      = end_input (input_loop (s\<lparr>ei_in := take k (ei_net s), ei_net := drop k (ei_net s)\<rparr>))" "ei_process s = Decode_And_Push"
    "good_input (s\<lparr>ei_in := take k (ei_net s), ei_net := drop k (ei_net s)\<rparr>) bs" "ei_in s = []" "take k (ei_net s) \<noteq> []"
proof (cases rd)
  case (Read_Some n)
  obtain pl z where gb: "get_buffer bufsize (ei_decoder s) = (pl, z)" by (cases "get_buffer bufsize (ei_decoder s)")
  let ?k = "min n z"
  let ?s = "s\<lparr>ei_in := take ?k (ei_net s), ei_net := drop ?k (ei_net s)\<rparr>"
  have e: "ei_in s = []" "ei_process s = Decode_And_Push"
    using assms by (auto simp: engine_ok_def) (metis process_fun.exhaust)
  have g: "good_input ?s bs" using assms(1) e by (simp add: engine_ok_def good_input_def flip: append_assoc)
  have l: "first_decode pl ?s = input_loop ?s"
    by (rule first_decode_loop) (use gb in \<open>auto simp: get_buffer_def split: if_splits\<close>)
  show thesis
  proof (cases "take ?k (ei_net s) = []")
    case True
    have "0 < de_to_read (ei_decoder s)" using assms(1) by (simp add: engine_ok_def good_input_def)
    then have "bufsize = 0 \<or> z > 0" using gb by (auto simp: get_buffer_def split: if_splits)
    with True show thesis using assms e Read_Some gb by (intro that(1)) (auto simp: in_event_internal_def)
  next
    case False
    then show thesis using that(2) [of ?k] assms e Read_Some gb l g by (auto simp: in_event_internal_def Let_def)
  qed
qed (use assms that in \<open>simp_all add: in_event_internal_def engine_ok_def\<close>)

lemma in_event_ok:
  assumes "engine_ok s bs" "\<not> ei_input_stopped s" "rd \<noteq> Read_Closed"
  shows "engine_ok (in_event_internal bufsize rd s) bs \<and> outlook (in_event_internal bufsize rd s) bs = outlook s bs"
  using assms
proof (cases rule: in_event_cases [where bufsize = bufsize and j = 0])
  case 1
  with assms(1) show ?thesis by simp
next
  case (2 k)
  let ?s = "s\<lparr>ei_in := take k (ei_net s), ei_net := drop k (ei_net s)\<rparr>"
  have "outlook ?s bs = outlook s bs" using 2(4) by (simp add: outlook_def retried_def flip: append_assoc)
  then show ?thesis unfolding 2(1) using end_input_ok [of ?s bs] 2(2,3) assms by (simp add: engine_ok_def)
qed

lemma restart_ok:
  assumes "engine_ok s bs" "ei_input_stopped s" "rd \<noteq> Read_Closed"
  shows "engine_ok (restart_input bufsize rd s) bs \<and> outlook (restart_input bufsize rd s) bs = outlook s bs"
proof -
  obtain r s1 where pm: "process_msg s = (r, s1)" by (cases "process_msg s")
  have pr: "ei_process s = Push_One_Then_Decode_And_Push" and early: "early (de_next (ei_decoder s))"
    using assms by (auto simp: engine_ok_def)
  then have r: "r \<noteq> Overread" using harmless_processed [OF pm] by simp
  note pd = process_msg_delivers [OF pm r]
  obtain w where w: "ei_decoder s1 = with_msg w (ei_decoder s)" using pd(3) by auto
  note fs = feed_bytes_early [OF early, of w "ei_in s @ ei_net s @ bs"]
  have out: "outlook s1 bs = outlook s bs" using pd(1,4,5) pr fs w by (simp add: outlook_def)
  have gi: "good_input s1 bs" using assms(1) fs w pd(4,5) by (simp add: engine_ok_def good_input_def good_def)
  show ?thesis
  proof (cases r)
    case Pipe_Full
    then have "ei_process s1 = Push_One_Then_Decode_And_Push" using pd(2) by (metis process_fun.exhaust process_result.distinct(1))
    then show ?thesis
      using Pipe_Full pm out gi pd early w assms by (auto simp: restart_input_def engine_ok_def)
  next
    case Processed
    then have p1: "ei_process s1 = Decode_And_Push" using pd(2) by simp
    obtain q s2 where l: "input_loop s1 = (q, s2)" by (cases "input_loop s1")
    note f = input_loop_facts [OF p1 gi l]
    show ?thesis
    proof (cases "q = Input_Full")
      case True
      then have "restart_input bufsize rd s = s2\<lparr>ei_pipe := pipe_flush (ei_pipe s2)\<rparr>"
        using Processed pm l by (simp add: restart_input_def)
      then show ?thesis using True f out pd assms by (auto simp: engine_ok_def)
    next
      case False
      let ?t = "s2\<lparr>ei_input_stopped := False, ei_pipe := pipe_flush (ei_pipe s2)\<rparr>"
      have q: "q = Input_Empty" using False f by auto
      then have eq: "restart_input bufsize rd s = in_event_internal bufsize rd ?t"
        using Processed pm l f pd assms by (simp add: restart_input_def engine_ok_def)
      have "outlook ?t bs = outlook s2 bs" "good_input ?t bs = good_input s2 bs"
        by (simp_all add: outlook_def retried_def good_input_def)
      moreover have "engine_ok ?t bs" using q f pd assms by (auto simp: engine_ok_def good_input_def)
      ultimately show ?thesis using in_event_ok [of ?t bs rd bufsize] assms(3) f out unfolding eq by simp
    qed
  qed (use r in simp)
qed

section \<open>A stopped input has a full pipe\<close>

definition open_pipe :: "pipe_t \<Rightarrow> bool \<Rightarrow> bool" where
  "open_pipe p b \<longleftrightarrow> p_state p = active \<and> p_out_active p = b"

lemma open_pipe_flush [simp]: "open_pipe (pipe_flush p) b = open_pipe p b"
  by (simp add: open_pipe_def pipe_flush_def Let_def)

lemma pipe_write_open: "\<lbrakk>pipe_write m p = (b, p'); open_pipe p True\<rbrakk> \<Longrightarrow> open_pipe p' b"
  by (auto simp: pipe_write_def pipe_check_write_def open_pipe_def Let_def split: if_splits)

lemma pipe_write_room: "\<lbrakk>pipe_check_hwm p; open_pipe p True\<rbrakk> \<Longrightarrow> fst (pipe_write m p)"
  by (simp add: pipe_write_def pipe_check_write_def open_pipe_def Let_def)

lemma push_msg_open:
  "\<lbrakk>push_msg s = (r, s'); open_pipe (ei_pipe s) True\<rbrakk>
   \<Longrightarrow> open_pipe (ei_pipe s') (r = Processed) \<and> (r = Pipe_Full \<longrightarrow> push_list (cur_msg s) \<noteq> [])
     \<and> (pipe_check_hwm (ei_pipe s) \<longrightarrow> r = Processed)"
  using pipe_write_room [of "ei_pipe s" "msg_of_wire (cur_msg s)"]
  by (auto simp: push_msg_def push_list_def set_msg_def Let_def split: if_splits prod.splits bool.splits dest!: pipe_write_open)

text \<open>The engine's pipe, before and after a message is processed.\<close>

lemma process_msg_open:
  assumes "process_msg s = (r, s')" "r \<noteq> Overread" "open_pipe (ei_pipe s) True"
  shows "open_pipe (ei_pipe s') (r = Processed) \<and> (r = Pipe_Full \<longrightarrow> push_list (cur_msg s') \<noteq> [])
     \<and> (pipe_check_hwm (ei_pipe s) \<longrightarrow> r = Processed)"
proof (cases "ei_process s")
  case Push_One_Then_Decode_And_Push
  obtain r1 s1 where p: "push_msg s = (r1, s1)" by (cases "push_msg s")
  show ?thesis
    using assms Push_One_Then_Decode_And_Push push_msg_delivers [OF p] push_msg_open [OF p]
    by (cases r1) (auto simp: process_msg_def push_one_then_decode_and_push_def p)
next
  case Decode_And_Push
  then have dp: "process_msg s = decode_and_push s" by (simp add: process_msg_def)
  obtain a b t where t: "t = (set_msg (processed (cur_msg s)) s)\<lparr>ei_ttl_timer := a, ei_pong := b\<rparr>"
    "process_msg s = (case push_msg t of
      (Pipe_Full, s'') \<Rightarrow> (Pipe_Full, s''\<lparr>ei_process := Push_One_Then_Decode_And_Push\<rparr>) | r \<Rightarrow> r)"
    using decode_and_push_pushes [of s r s'] assms unfolding dp by metis
  obtain r1 s2 where p: "push_msg t = (r1, s2)" by (cases "push_msg t")
  have same: "ei_pipe t = ei_pipe s" by (simp add: t(1) set_msg_def)
  show ?thesis
    using assms t(2) push_msg_delivers [OF p] push_msg_open [OF p] unfolding same p by (cases r1) auto
qed

lemma input_loop_open:
  "\<lbrakk>ei_process s = Decode_And_Push; r = Input_Empty \<or> r = Input_Full; input_loop s = (r, s'); open_pipe (ei_pipe s) True\<rbrakk>
   \<Longrightarrow> open_pipe (ei_pipe s') (r = Input_Empty) \<and> (r = Input_Full \<longrightarrow> push_list (cur_msg s') \<noteq> [])"
proof (induction s rule: input_loop.induct)
  case (1 s)
  show ?case
  proof (cases "ei_in s = []")
    case True
    then show ?thesis using 1 by (simp add: input_loop.simps)
  next
    case False
    obtain q u d where dec: "decode_loop (ei_decoder s) (ei_in s) 0 = (q, u, d)"
      by (cases "decode_loop (ei_decoder s) (ei_in s) 0")
    let ?s = "s\<lparr>ei_decoder := d, ei_in := drop u (ei_in s)\<rparr>"
    have step: "input_loop s = (case q of
        Inl e \<Rightarrow> (Input_Error e, ?s)
      | Inr False \<Rightarrow> (Input_Empty, ?s)
      | Inr True \<Rightarrow> (case process_msg ?s of
            (Processed, s2) \<Rightarrow> input_loop s2 | (Pipe_Full, s2) \<Rightarrow> (Input_Full, s2) | (Overread, s2) \<Rightarrow> (Input_Overread, s2)))"
      using False dec by (simp add: input_loop.simps [of s] decode_def Let_def)
    note f = "1.prems"(2)
    show ?thesis
    proof (cases "q = Inr True")
      case False
      then show ?thesis using step f "1.prems"(3,4) by (auto split: sum.splits bool.splits)
    next
      case msg: True
      obtain p s2 where pm: "process_msg ?s = (p, s2)" by (cases "process_msg ?s")
      have p: "p \<noteq> Overread" using step msg pm f "1.prems"(3) by auto
      have o: "open_pipe (ei_pipe ?s) True" using "1.prems"(4) by simp
      note po = process_msg_open [OF pm p o]
      show ?thesis
      proof (cases p)
        case Processed
        obtain w where again: "ei_process s2 = Decode_And_Push" "input_loop s2 = (r, s')" and w: "ei_decoder s2 = with_msg w d"
          using process_msg_delivers [OF pm p] Processed step "1.prems"(3) msg pm by auto
        show ?thesis
          by (rule "1.IH" [OF False _ refl refl _ _ pm [symmetric] Processed again(1) f again(2)])
            (use dec msg po Processed in \<open>auto simp: decode_def\<close>)
      next
        case Pipe_Full
        then show ?thesis using po step "1.prems"(3) msg pm by simp
      qed (use p in simp)
    qed
  qed
qed

text \<open>The full pipe and the stopped input go together; so \<open>restart_input\<close> is called on a stopped input only,
  as it asserts.\<close>

definition pipe_ok :: "in_engine \<Rightarrow> bool" where
  "pipe_ok s \<longleftrightarrow> open_pipe (ei_pipe s) (\<not> ei_input_stopped s) \<and> (ei_input_stopped s \<longrightarrow> push_list (cur_msg s) \<noteq> [])"

lemma end_input_pipe:
  assumes "ei_process s = Decode_And_Push" "good_input s bs" "\<not> ei_input_stopped s" "pipe_ok s"
  shows "pipe_ok (end_input (input_loop s))"
proof -
  obtain r s' where l: "input_loop s = (r, s')" by (cases "input_loop s")
  note f = input_loop_facts [OF assms(1,2) l]
  have "r = Input_Empty \<or> r = Input_Full" "open_pipe (ei_pipe s) True" using f assms by (auto simp: pipe_ok_def)
  note o = input_loop_open [OF assms(1) this(1) l this(2)]
  show ?thesis using f o assms l by (auto simp: end_input_def pipe_ok_def)
qed

lemma in_event_pipe:
  assumes "engine_ok s bs" "\<not> ei_input_stopped s" "rd \<noteq> Read_Closed" "pipe_ok s"
  shows "pipe_ok (in_event_internal bufsize rd s)"
  using assms(1-3)
proof (cases rule: in_event_cases [where bufsize = bufsize and j = 0])
  case 1
  with assms(4) show ?thesis by simp
next
  case (2 k)
  have "pipe_ok (s\<lparr>ei_in := take k (ei_net s), ei_net := drop k (ei_net s)\<rparr>)" using assms(4) by (simp add: pipe_ok_def)
  then show ?thesis unfolding 2(1) using 2 assms(2) by (intro end_input_pipe [of _ bs]) simp_all
qed

lemma restart_pipe:
  assumes "engine_ok s bs" "ei_input_stopped s" "rd \<noteq> Read_Closed" "open_pipe (ei_pipe s) True"
  shows "pipe_ok (restart_input bufsize rd s)"
    "rd = Read_Again \<Longrightarrow> pipe_check_hwm (ei_pipe s) \<Longrightarrow>
       (let s' = restart_input bufsize rd s
        in ei_net s' = ei_net s \<and> (ei_input_stopped s' \<longrightarrow> length (ei_in s') < length (ei_in s)))"
proof -
  obtain r s1 where pm: "process_msg s = (r, s1)" by (cases "process_msg s")
  have pr: "ei_process s = Push_One_Then_Decode_And_Push" and early: "early (de_next (ei_decoder s))"
    using assms by (auto simp: engine_ok_def)
  then have r: "r \<noteq> Overread" using harmless_processed [OF pm] by simp
  note pd = process_msg_delivers [OF pm r]
  note po = process_msg_open [OF pm r assms(4)]
  obtain w where w: "ei_decoder s1 = with_msg w (ei_decoder s)" using pd(3) by auto
  note fs = feed_bytes_early [OF early, of w "ei_in s @ ei_net s @ bs"]
  have gi: "good_input s1 bs" using assms(1) fs w pd(4,5) by (simp add: engine_ok_def good_input_def good_def)
  have "pipe_ok (restart_input bufsize rd s) \<and> (rd = Read_Again \<and> pipe_check_hwm (ei_pipe s) \<longrightarrow>
       ei_net (restart_input bufsize rd s) = ei_net s
       \<and> (ei_input_stopped (restart_input bufsize rd s) \<longrightarrow> length (ei_in (restart_input bufsize rd s)) < length (ei_in s)))"
  proof (cases "r = Pipe_Full")
    case True
    then show ?thesis using pm po pd assms(2) by (auto simp: restart_input_def pipe_ok_def)
  next
    case False
    then have rp: "r = Processed" using r by (cases r) auto
    then have p1: "ei_process s1 = Decode_And_Push" "open_pipe (ei_pipe s1) True" using pd(2) po by simp_all
    obtain q s2 where l: "input_loop s1 = (q, s2)" by (cases "input_loop s1")
    note f = input_loop_facts [OF p1(1) gi l]
    then have q: "q = Input_Empty \<or> q = Input_Full" by auto
    note o = input_loop_open [OF p1(1) q l p1(2)]
    show ?thesis
    proof (cases "q = Input_Full")
      case True
      then have "restart_input bufsize rd s = s2\<lparr>ei_pipe := pipe_flush (ei_pipe s2)\<rparr>"
        using rp pm l by (simp add: restart_input_def)
      then show ?thesis using True f o pd assms(2) by (auto simp: pipe_ok_def)
    next
      case False
      let ?t = "s2\<lparr>ei_input_stopped := False, ei_pipe := pipe_flush (ei_pipe s2)\<rparr>"
      have qe: "q = Input_Empty" using False q by auto
      then have eq: "restart_input bufsize rd s = in_event_internal bufsize rd ?t"
        using rp pm l f pd assms by (simp add: restart_input_def engine_ok_def)
      have t: "engine_ok ?t bs" "pipe_ok ?t" using qe f o pd assms by (auto simp: engine_ok_def good_input_def pipe_ok_def)
      have "pipe_ok (restart_input bufsize rd s)" unfolding eq by (rule in_event_pipe [OF t(1) _ assms(3) t(2)]) simp
      moreover have "in_event_internal bufsize Read_Again ?t = ?t"
        using qe f by (simp add: in_event_internal_def)
      ultimately show ?thesis unfolding eq using f pd by auto
    qed
  qed
  then show "pipe_ok (restart_input bufsize rd s)"
    "rd = Read_Again \<Longrightarrow> pipe_check_hwm (ei_pipe s) \<Longrightarrow>
       (let s' = restart_input bufsize rd s
        in ei_net s' = ei_net s \<and> (ei_input_stopped s' \<longrightarrow> length (ei_in s') < length (ei_in s)))"
    by (simp_all add: Let_def)
qed

text \<open>The socket at the other end took messages: the engine is told exactly when it waits.\<close>

lemma activate_told:
  assumes "process_activate_write n (ei_pipe s) = (told, p)" "pipe_ok s"
  shows "told \<longleftrightarrow> ei_input_stopped s" "open_pipe p True" "p_hwm p = p_hwm (ei_pipe s)"
    "p_msgs_written p = p_msgs_written (ei_pipe s)" "p_peers_msgs_read p = n"
  using assms by (auto simp: process_activate_write_def pipe_ok_def open_pipe_def Let_def split: if_splits)

section \<open>A connection is a queue\<close>

definition conn_frames :: "connection \<Rightarrow> bytes" where
  "conn_frames c = session_source.unsent (cn_out c)"

definition conn_ok :: "connection \<Rightarrow> bool" where
  "conn_ok c \<longleftrightarrow> enc_inv (oe_encoder (cn_out c)) \<and> engine_ok (cn_in c) (conn_frames c) \<and> pipe_ok (cn_in c)"

text \<open>What the receiving pipe will have seen when everything arrived.\<close>

definition conn_outlook :: "connection \<Rightarrow> msg_t list" where
  "conn_outlook c = outlook (cn_in c) (conn_frames c)"

lemma conn_step_keeps:
  "conn_step batch bufsize c c' \<Longrightarrow> conn_ok c \<Longrightarrow> conn_ok c' \<and> conn_outlook c' = conn_outlook c"
proof (induction rule: conn_step.induct)
  case (conn_out w c b o')
  obtain b2 o2 where o2: "out_event pull_msg batch w (cn_out c) = Some (b2, o2)" "enc_inv (oe_encoder o2)"
    "b2 @ session_source.unsent o2 = session_source.unsent (cn_out c)"
    by (rule session_source.out_event_facts [of "cn_out c" batch w 0]) (use conn_out.prems in \<open>auto simp: conn_ok_def\<close>)
  then have "b2 = b" "o2 = o'" using conn_out.hyps by simp_all
  with o2 conn_out.prems show ?case
    by (auto simp: conn_ok_def conn_outlook_def conn_frames_def engine_ok_def good_input_def outlook_def retried_def pipe_ok_def)
next
  case (conn_in c rd)
  then show ?case
    using in_event_ok [of "cn_in c" "conn_frames c" rd bufsize] in_event_pipe [of "cn_in c" "conn_frames c" rd bufsize]
    by (simp add: conn_ok_def conn_outlook_def conn_frames_def)
next
  case (conn_room n c told p rd s)
  have d: "delivered p = delivered (ei_pipe (cn_in c))" using delivered_activate conn_room.hyps(1) by blast
  have s: "engine_ok s (conn_frames c)" "outlook s (conn_frames c) = conn_outlook c"
    using conn_room.prems conn_room.hyps(3) d
    by (simp_all add: conn_ok_def engine_ok_def good_input_def conn_outlook_def outlook_def retried_def)
  have told: "told \<longleftrightarrow> ei_input_stopped s" "open_pipe (ei_pipe s) True"
    using activate_told [OF conn_room.hyps(1)] conn_room.prems conn_room.hyps(3) by (simp_all add: conn_ok_def)
  show ?case
  proof (cases told)
    case False
    then show ?thesis using s told conn_room.prems by (simp add: conn_ok_def conn_outlook_def conn_frames_def pipe_ok_def)
  next
    case True
    then show ?thesis
      using restart_ok [OF s(1), of rd bufsize] restart_pipe(1) [OF s(1), of rd bufsize] s told conn_room.hyps(2) conn_room.prems
      by (simp add: conn_ok_def conn_outlook_def conn_frames_def)
  qed
qed

inductive conn_reach :: "nat \<Rightarrow> nat \<Rightarrow> connection \<Rightarrow> connection \<Rightarrow> bool" for batch bufsize c where
  conn_start: "conn_reach batch bufsize c c"
| conn_more: "\<lbrakk>conn_reach batch bufsize c c1; conn_step batch bufsize c1 c2\<rbrakk> \<Longrightarrow> conn_reach batch bufsize c c2"

lemma conn_reach_keeps:
  "conn_reach batch bufsize c c' \<Longrightarrow> conn_ok c \<Longrightarrow> conn_ok c' \<and> conn_outlook c' = conn_outlook c"
  by (induction rule: conn_reach.induct) (auto dest: conn_step_keeps)

text \<open>A connection that starts with messages on the sending session's pipe.\<close>

definition new_connection :: "enc_proto \<Rightarrow> decoder_t \<Rightarrow> pipe_t \<Rightarrow> pipe_t \<Rightarrow> connection" where
  "new_connection pr d src dst = \<lparr>cn_out = new_out_engine pr src, cn_in = new_in_engine d dst\<rparr>"

lemma new_connection_frames:
  "conn_frames (new_connection pr d src dst) = concat (map (zmtp_frame pr) (pull_pending src))"
  by (simp add: conn_frames_def new_connection_def new_out_engine_def session_source.unsent_def)

lemma new_connection_ok:
  assumes "fresh_for pr d" "\<forall>w\<in>set (pull_pending src). frame_ok pr d w" "\<forall>w\<in>set (pull_pending src). harmless (received pr w)"
    "open_pipe dst True"
  shows "conn_ok (new_connection pr d src dst)"
    "conn_outlook (new_connection pr d src dst)
      = delivered dst @ concat (map (\<lambda>w. reaches (received pr w)) (pull_pending src))"
proof -
  obtain d' where d': "feed_bytes d (concat (map (zmtp_frame pr) (pull_pending src))) = (map (received pr) (pull_pending src), None, d')"
    using decodes_frames [OF assms(1,2)] by blast
  have r: "0 < de_to_read d" using assms(1) by (auto simp: fresh_for_def split: if_splits)
  show "conn_ok (new_connection pr d src dst)"
    using d' r assms(3,4)
    by (simp add: conn_ok_def new_connection_frames engine_ok_def good_input_def good_def)
      (simp add: new_connection_def new_out_engine_def new_in_engine_def pipe_ok_def)
  show "conn_outlook (new_connection pr d src dst)
      = delivered dst @ concat (map (\<lambda>w. reaches (received pr w)) (pull_pending src))"
    using d' by (simp add: conn_outlook_def new_connection_frames outlook_def)
      (simp add: new_connection_def new_in_engine_def retried_def comp_def)
qed

section \<open>No message is stuck\<close>

definition conn_rest :: "connection \<Rightarrow> bool" where
  "conn_rest c \<longleftrightarrow> conn_frames c = [] \<and> ei_net (cn_in c) = [] \<and> ei_in (cn_in c) = [] \<and> \<not> ei_input_stopped (cn_in c)"

definition conn_weight :: "connection \<Rightarrow> nat" where
  "conn_weight c = 4 * length (conn_frames c) + 3 * length (ei_net (cn_in c))
     + (if ei_input_stopped (cn_in c) then length (ei_in (cn_in c)) + 1 else 0)"

lemma conn_advances_room:
  assumes "conn_ok c" "ei_input_stopped (cn_in c)"
  shows "\<exists>c'. conn_step batch bufsize c c' \<and> conn_weight c' < conn_weight c"
proof -
  let ?n = "p_msgs_written (ei_pipe (cn_in c))"
  obtain told p where a: "process_activate_write ?n (ei_pipe (cn_in c)) = (told, p)"
    by (cases "process_activate_write ?n (ei_pipe (cn_in c))")
  let ?s = "(cn_in c)\<lparr>ei_pipe := p\<rparr>"
  have ok: "engine_ok (cn_in c) (conn_frames c)" "pipe_ok (cn_in c)" using assms(1) by (simp_all add: conn_ok_def)
  note t = activate_told [OF a ok(2)]
  have s: "engine_ok ?s (conn_frames c)" using ok(1) by (simp add: engine_ok_def good_input_def)
  have room: "pipe_check_hwm p" using t by (simp add: pipe_check_hwm_def)
  let ?c = "c\<lparr>cn_in := restart_input bufsize Read_Again ?s\<rparr>"
  have "conn_step batch bufsize c ?c"
    using conn_room [OF a _ refl, of Read_Again batch bufsize] t(1) assms(2) by simp
  moreover have "conn_weight ?c < conn_weight c"
    using restart_pipe(2) [OF s _ _ _ refl, of bufsize] assms(2) t room
    by (auto simp: conn_weight_def conn_frames_def Let_def)
  ultimately show ?thesis by blast
qed

lemma conn_advances_in:
  assumes "conn_ok c" "\<not> ei_input_stopped (cn_in c)" "ei_net (cn_in c) \<noteq> []" "0 < bufsize"
  shows "\<exists>c'. conn_step batch bufsize c c' \<and> conn_weight c' < conn_weight c"
proof -
  let ?s = "cn_in c"
  let ?s' = "in_event_internal bufsize (Read_Some (Suc 0)) ?s"
  have ok: "engine_ok ?s (conn_frames c)" using assms(1) by (simp add: conn_ok_def)
  have w: "3 * length (ei_net ?s') + (if ei_input_stopped ?s' then length (ei_in ?s') + 1 else 0) < 3 * length (ei_net ?s)"
  proof (rule in_event_cases [OF ok assms(2), of "Read_Some (Suc 0)" bufsize 0])
    fix k
    let ?t = "?s\<lparr>ei_in := take k (ei_net ?s), ei_net := drop k (ei_net ?s)\<rparr>"
    assume k: "?s' = end_input (input_loop ?t)" "ei_process ?s = Decode_And_Push" "good_input ?t (conn_frames c)"
      "take k (ei_net ?s) \<noteq> []"
    obtain r u where l: "input_loop ?t = (r, u)" by (cases "input_loop ?t")
    note f = input_loop_facts [OF _ k(3) l]
    show ?thesis using f k assms(2) unfolding k(1) l by (cases "ei_net ?s"; cases k) (auto simp: end_input_def)
  qed (use assms in simp_all)
  have "conn_step batch bufsize c (c\<lparr>cn_in := ?s'\<rparr>)" by (rule conn_in [OF assms(2)]) simp
  moreover have "conn_weight (c\<lparr>cn_in := ?s'\<rparr>) < conn_weight c"
    using w assms(2) by (auto simp: conn_weight_def conn_frames_def split: if_splits)
  ultimately show ?thesis by blast
qed

lemma conn_advances_out:
  assumes "conn_ok c" "conn_frames c \<noteq> []" "0 < batch"
  shows "\<exists>c'. conn_step batch bufsize c c' \<and> conn_weight c' < conn_weight c"
proof -
  obtain b o' where ev: "out_event pull_msg batch (Some 1) (cn_out c) = Some (b, o')"
    "b @ session_source.unsent o' = session_source.unsent (cn_out c)" "b \<noteq> []"
    by (rule session_source.out_event_facts [of "cn_out c" batch "Some 1" 1])
      (use assms in \<open>auto simp: conn_ok_def conn_frames_def\<close>)
  have l: "length (session_source.unsent (cn_out c)) = length b + length (session_source.unsent o')" "0 < length b"
    using ev(2,3) by (simp_all flip: length_append)
  let ?c = "c\<lparr>cn_out := o', cn_in := (cn_in c)\<lparr>ei_net := ei_net (cn_in c) @ b\<rparr>\<rparr>"
  have "conn_step batch bufsize c ?c" by (rule conn_out [OF ev(1)])
  moreover have "conn_weight ?c < conn_weight c" using l by (simp add: conn_weight_def conn_frames_def)
  ultimately show ?thesis by blast
qed

lemma conn_advances:
  assumes "conn_ok c" "\<not> conn_rest c" "0 < batch" "0 < bufsize"
  shows "\<exists>c'. conn_step batch bufsize c c' \<and> conn_weight c' < conn_weight c"
proof -
  have e: "\<not> ei_input_stopped (cn_in c) \<longrightarrow> ei_in (cn_in c) = []" using assms(1) by (simp add: conn_ok_def engine_ok_def)
  consider (room) "ei_input_stopped (cn_in c)" | (net) "\<not> ei_input_stopped (cn_in c)" "ei_net (cn_in c) \<noteq> []"
    | (out) "conn_frames c \<noteq> []"
    using assms(2) e unfolding conn_rest_def by blast
  then show ?thesis
  proof cases
    case room
    show ?thesis by (rule conn_advances_room [OF assms(1) room])
  next
    case net
    show ?thesis by (rule conn_advances_in [OF assms(1) net assms(4)])
  next
    case out
    show ?thesis by (rule conn_advances_out [OF assms(1) out assms(3)])
  qed
qed

lemma conn_reach_trans: "\<lbrakk>conn_reach batch bufsize c1 c2; conn_reach batch bufsize c c1\<rbrakk> \<Longrightarrow> conn_reach batch bufsize c c2"
  by (induction rule: conn_reach.induct) (auto intro: conn_more)

lemma conn_comes_to_rest:
  assumes "0 < batch" "0 < bufsize" "conn_ok c"
  shows "\<exists>c'. conn_reach batch bufsize c c' \<and> conn_rest c'"
  using assms(3)
proof (induction c rule: measure_induct_rule [of conn_weight])
  case (less c)
  show ?case
  proof (cases "conn_rest c")
    case True
    then show ?thesis by (blast intro: conn_start)
  next
    case False
    obtain c1 where s: "conn_step batch bufsize c c1" "conn_weight c1 < conn_weight c"
      using conn_advances [OF less.prems False assms(1,2)] by blast
    have "conn_ok c1" using conn_step_keeps [OF s(1) less.prems] by simp
    then obtain c2 where "conn_reach batch bufsize c1 c2" "conn_rest c2" using less.IH [OF s(2)] by blast
    then show ?thesis using conn_reach_trans [OF _ conn_more [OF conn_start s(1)]] by blast
  qed
qed

lemma conn_rest_outlook: "\<lbrakk>conn_ok c; conn_rest c\<rbrakk> \<Longrightarrow> conn_outlook c = delivered (ei_pipe (cn_in c))"
  by (auto simp: conn_outlook_def outlook_def conn_rest_def conn_ok_def engine_ok_def retried_def)

lemma conn_delivers: "\<exists>rest. conn_outlook c = delivered (ei_pipe (cn_in c)) @ rest"
  by (simp add: conn_outlook_def outlook_def)
section \<open>What a connection carries\<close>

text \<open>Old protocol versions carry a subscription in the old form.\<close>

definition carries :: "enc_proto \<Rightarrow> msg_t \<Rightarrow> msg_t \<Rightarrow> bool" where
  "carries pr m m' \<longleftrightarrow> m' = m
     \<or> pr \<noteq> V3_1_Encoder \<and> m_kind m \<in> {Subscribe_Cmd, Cancel_Cmd} \<and> m_more m' = m_more m
       \<and> subscription_of m' = subscription_of m"

definition sendable :: "msg_t \<Rightarrow> bool" where
  "sendable m \<longleftrightarrow> m_kind m \<in> {Plain, Subscribe_Cmd, Cancel_Cmd}"

lemma sendable_reaches:
  assumes "sendable m"
  shows "\<exists>m'. reaches (received pr (wire_of_msg m)) = [m'] \<and> carries pr m m'" "harmless (received pr (wire_of_msg m))"
proof -
  consider (plain) "m_kind m = Plain" | (sub) "m_kind m = Subscribe_Cmd \<or> m_kind m = Cancel_Cmd"
    using assms by (auto simp: sendable_def)
  then have "(\<exists>m'. reaches (received pr (wire_of_msg m)) = [m'] \<and> carries pr m m') \<and> harmless (received pr (wire_of_msg m))"
  proof cases
    case plain
    then show ?thesis by (simp add: reaches_plain carries_def)
  next
    case sub
    show ?thesis
    proof (cases "pr = V3_1_Encoder")
      case True
      then show ?thesis using reaches_subscription [OF sub] by (simp add: carries_def)
    next
      case False
      then show ?thesis using reaches_old_subscription [OF sub False] sub by (auto simp: carries_def)
    qed
  qed
  then show "\<exists>m'. reaches (received pr (wire_of_msg m)) = [m'] \<and> carries pr m m'" "harmless (received pr (wire_of_msg m))"
    by blast+
qed

lemma sendable_all_reach:
  "\<forall>m\<in>set ms. sendable m \<Longrightarrow> list_all2 (carries pr) ms (concat (map (\<lambda>w. reaches (received pr w)) (map wire_of_msg ms)))"
proof (induction ms)
  case Nil
  then show ?case by simp
next
  case (Cons m ms)
  obtain m' where "reaches (received pr (wire_of_msg m)) = [m']" "carries pr m m'"
    using sendable_reaches(1) [of m pr] Cons.prems by auto
  then show ?case using Cons by simp
qed

lemma sendable_pending:
  assumes "pipe_readable p" "\<forall>m\<in>set (p_in p). sendable m"
  shows "pull_pending p = map wire_of_msg (p_in p)"
proof -
  have "takeWhile (\<lambda>m. m_kind m \<noteq> Delimiter) (p_in p) = p_in p"
    using assms(2) by (auto simp: takeWhile_eq_all_conv sendable_def)
  moreover have "filter (\<lambda>m. m_kind m \<noteq> Credential) (p_in p) = p_in p"
    using assms(2) by (auto simp: filter_id_conv sendable_def)
  ultimately show ?thesis by (simp only: pull_pending_def assms(1) if_True)
qed

lemma decoder_for_fresh: "fresh_for pr (decoder_for pr maxmsgsize alloc)"
  by (simp add: fresh_for_def decoder_for_def new_decoder_def)

text \<open>A connection that is set up to send the messages of \<open>src\<close>, all of them acceptable, to an empty open pipe.\<close>

definition sends_all :: "enc_proto \<Rightarrow> decoder_t \<Rightarrow> pipe_t \<Rightarrow> pipe_t \<Rightarrow> bool" where
  "sends_all pr d src dst \<longleftrightarrow> pipe_readable src \<and> (\<forall>m\<in>set (p_in src). sendable m \<and> frame_ok pr d (wire_of_msg m))
     \<and> p_state dst = active \<and> p_out_active dst \<and> delivered dst = []"

lemma connection_outlook:
  assumes "sends_all pr (decoder_for pr maxmsgsize alloc) src dst"
  defines "c \<equiv> new_connection pr (decoder_for pr maxmsgsize alloc) src dst"
  shows "conn_ok c" "list_all2 (carries pr) (p_in src) (conn_outlook c)"
proof -
  have a: "pipe_readable src" "\<forall>m\<in>set (p_in src). sendable m" "delivered dst = []" "open_pipe dst True"
    "\<forall>m\<in>set (p_in src). frame_ok pr (decoder_for pr maxmsgsize alloc) (wire_of_msg m)"
    using assms(1) by (auto simp: sends_all_def open_pipe_def)
  note p = sendable_pending [OF a(1,2)]
  have f: "\<forall>w\<in>set (pull_pending src). frame_ok pr (decoder_for pr maxmsgsize alloc) w"
    "\<forall>w\<in>set (pull_pending src). harmless (received pr w)"
    using a(2,5) sendable_reaches(2) by (auto simp: p)
  note n = new_connection_ok [OF decoder_for_fresh f a(4)]
  show "conn_ok c" unfolding c_def by (rule n(1))
  show "list_all2 (carries pr) (p_in src) (conn_outlook c)"
    unfolding c_def n(2) p using sendable_all_reach [OF a(2), of pr] a(3) by simp
qed

lemma conn_failed: "conn_ok c \<Longrightarrow> \<not> ei_failed (cn_in c)"
  by (simp add: conn_ok_def engine_ok_def)

end
