(* ===== verification/ZmtpLimits.thy ===== *)
theory ZmtpLimits
  imports ZmtpConnection
begin

text \<open>
  Where the wire protocol of \<open>3rd/zeromq/src\<close> does not carry what it is given: subscriptions to topics
  whose command is longer than 255 bytes while the topic is not, and PING commands without a time to live.
\<close>

unbundle bit_operations_syntax

section \<open>Subscriptions to long topics\<close>

abbreviation subscribe_msg :: "bytes \<Rightarrow> msg_t" where
  "subscribe_msg topic \<equiv> \<lparr>m_data = topic, m_more = False, m_kind = Subscribe_Cmd\<rparr>"

abbreviation plain_msg :: "bytes \<Rightarrow> msg_t" where
  "plain_msg d \<equiv> \<lparr>m_data = d, m_more = False, m_kind = Plain\<rparr>"

lemma char_codes:
  "char_of (0 :: nat) = CHR 0x00" "char_of (Suc 0) = CHR 0x01" "char_of (4 :: nat) = CHR 0x04"
  by (simp_all add: char_of_def bit_0)

lemma long_size_bytes:
  assumes "n \<in> {246..255}"
  shows "put_uint64 (of_nat n + 10) = [CHR 0x00, CHR 0x00, CHR 0x00, CHR 0x00, CHR 0x00, CHR 0x00, CHR 0x01, char_of (n - 246)]"
proof -
  have "n = 246 \<or> n = 247 \<or> n = 248 \<or> n = 249 \<or> n = 250 \<or> n = 251 \<or> n = 252 \<or> n = 253 \<or> n = 254 \<or> n = 255"
    using assms by (simp only: atLeastAtMost_iff) presburger
  then show ?thesis by (elim disjE) (simp_all add: put_uint64_def byte_at_def char_codes)
qed

lemma long_topic_frame:
  assumes "length topic \<in> {246..255}"
  shows "take 9 (zmtp_frame V3_1_Encoder (wire_of_msg (subscribe_msg topic)))
    = CHR 0x04 # put_uint64 (of_nat (length topic) + 10)"
proof -
  let ?w = "wire_of_msg (subscribe_msg topic)"
  have k: "is_subscribe ?w" "\<not> wm_more ?w" "wm_data ?w = topic"
    using wire_flags [of "subscribe_msg topic"] by (simp_all add: wire_of_msg_def)
  have l: "\<not> (of_nat (length topic) :: 64 word) > 255" "(of_nat (length topic) + 10 :: 64 word) > 255"
    using word64_gt [of "length topic"] word64_gt [of "length topic + 10"] assms by simp_all
  show ?thesis
    using k l by (simp add: zmtp_frame_def v3_1_header_def Let_def size_field_def sub_cmd_name_def char_codes)
qed

lemma small_frame:
  "\<lbrakk>fresh_v2 d; accepts d (length body); length body < 256\<rbrakk>
   \<Longrightarrow> feed_bytes d (flag_byte (v2_flags False False c) # char_of (length body) # body @ ys)
     = feed_after (Inr True, v2_after (msg_flags False c) body d) ys"
proof -
  assume a: "fresh_v2 d" "accepts d (length body)" "length body < 256"
  let ?sz = "of_nat (length body) :: 64 word"
  have s: "unat ?sz = length body" "\<not> ?sz > 255" using a(3) word64_unat [of "length body"] word64_gt [of "length body"] by simp_all
  have "byte_at 0 ?sz = char_of (length body)"
    by (metis byte_at_small(2) s char_num_def char_of_char)
  with v2_decodes [OF a(1,2) s(1) [symmetric], of False c ys] s(2) show ?thesis by (simp add: size_field_def)
qed

lemma long_topic_decoded:
  assumes "length topic \<in> {246..255}" "fresh_v2 d" "accepts d 0" "accepts d 1"
  shows "fst (feed_bytes d (take 9 (zmtp_frame V3_1_Encoder (wire_of_msg (subscribe_msg topic)))))
    = [\<lparr>wm_flags = flag_command, wm_data = []\<rparr>, \<lparr>wm_flags = 0, wm_data = []\<rparr>, \<lparr>wm_flags = 0, wm_data = []\<rparr>,
       \<lparr>wm_flags = 0, wm_data = [char_of (length topic - 246)]\<rparr>]"
proof -
  have f: "flag_byte (v2_flags False False True) = CHR 0x04" "flag_byte (v2_flags False False False) = CHR 0x00"
    by (simp_all add: v2_flags_def char_codes)
  let ?x = "char_of (length topic - 246) :: char"
  let ?d1 = "v2_after (msg_flags False True) [] d"
  let ?d2 = "v2_after (msg_flags False False) [] ?d1"
  let ?d3 = "v2_after (msg_flags False False) [] ?d2"
  have fr: "feed_bytes d (CHR 0x04 # CHR 0x00 # ys) = feed_after (Inr True, ?d1) ys" for ys
    using small_frame [of d "[]" True ys] assms(2,3) f char_codes by simp
  have fr1: "feed_bytes ?d1 (CHR 0x00 # CHR 0x00 # ys) = feed_after (Inr True, ?d2) ys" for ys
    using small_frame [of ?d1 "[]" False ys] assms(2,3) f char_codes by simp
  have fr2: "feed_bytes ?d2 (CHR 0x00 # CHR 0x00 # ys) = feed_after (Inr True, ?d3) ys" for ys
    using small_frame [of ?d2 "[]" False ys] assms(2,3) f char_codes by simp
  have fr3: "feed_bytes ?d3 (CHR 0x00 # CHR 0x01 # ?x # ys) = feed_after (Inr True, v2_after (msg_flags False False) [?x] ?d3) ys" for ys
    using small_frame [of ?d3 "[?x]" False ys] assms(2,4) f char_codes by simp
  show ?thesis
    unfolding long_topic_frame [OF assms(1)] long_size_bytes [OF assms(1)]
    by (simp add: fr fr1 fr2 fr3) (simp add: msg_flags_def)
qed

lemma long_topic_reaches:
  assumes "length topic \<in> {246..255}" "fresh_v2 d" "accepts d 0" "accepts d 1"
  shows "concat (map reaches (fst (feed_bytes d (take 9 (zmtp_frame V3_1_Encoder (wire_of_msg (subscribe_msg topic)))))))
    = [plain_msg [], plain_msg [], plain_msg [char_of (length topic - 246)]]"
  unfolding long_topic_decoded [OF assms]
  by (simp add: reaches_def processed_def process_command_message_def push_list_def msg_of_wire_def wm_command_def
      wm_more_def is_subscribe_def is_cancel_def)

section \<open>Short PING commands\<close>

text \<open>\<open>ctx\<close>: the rest of the command, less than a time to live.\<close>

lemma short_ping_leaves:
  assumes "ei_process s = Decode_And_Push" "cur_msg s = \<lparr>wm_flags = flag_command, wm_data = CHR 0x04 # ''PING'' @ rest\<rparr>"
    "length rest < 2"
  shows "fst (process_msg s) = Overread"
proof -
  have c: "char_num CHR 0x04 = 4" by (simp add: char_num_def)
  show ?thesis using assms
    by (simp add: process_msg_def decode_and_push_def process_command_message_def c Let_def set_msg_def set_flags_def
        process_heartbeat_message_def is_ping_def ping_ttl_def wm_command_def)
qed

text \<open>The time to live is 16 bits wide and multiplied by 100: what is above 655 tenths of a second wraps.\<close>

lemma ping_ttl_wraps:
  assumes "7 \<le> length (wm_data w)"
  shows "map_option unat (ping_ttl w)
    = Some ((256 * char_num (wm_data w ! 5) + char_num (wm_data w ! 6)) * 100 mod 65536)"
proof -
  let ?a = "char_num (wm_data w ! 5)"
  let ?b = "char_num (wm_data w ! 6)"
  let ?hi = "push_bit 8 (of_nat ?a) :: 16 word"
  have "?b < 256" by (simp add: char_num_def of_char_lt_256)
  then have "take_bit 8 ?b = ?b" by (intro take_bit_nat_eq_self) simp
  then have "of_nat ?b = (take_bit 8 (of_nat ?b) :: 16 word)" by (simp flip: of_nat_take_bit)
  then have "?hi OR of_nat ?b = ?hi + of_nat ?b"
    by (intro disjunctive_add [symmetric]) (metis bit_push_bit_iff bit_take_bit_iff not_le)
  also have "\<dots> = of_nat (256 * ?a + ?b)" by (simp add: push_bit_eq_mult)
  finally have "(?hi OR of_nat ?b) * 100 = (of_nat ((256 * ?a + ?b) * 100) :: 16 word)" by simp
  then show ?thesis using assms by (simp add: ping_ttl_def unat_of_nat del: of_nat_mult of_nat_add)
qed
section \<open>A sample\<close>

lemma sends_sample:
  "sends_all V3_1_Encoder (decoder_for V3_1_Encoder (-1) (\<lambda>_. True))
     ((new_pipe 0 0)\<lparr>p_in := [\<lparr>m_data = ''req'', m_more = True, m_kind = Plain\<rparr>, plain_msg ''body'', subscribe_msg ''topic'']\<rparr>)
     (new_pipe 0 0)"
  by (auto simp: sends_all_def new_pipe_def pipe_readable_def delivered_def sendable_def frame_ok_def accepts_def decoder_for_def
      new_decoder_def frame_prefix_def wire_of_msg_def is_subscribe_def is_cancel_def sub_cmd_name_def)

end
