(* ===== verification/ZmqYqueue.thy ===== *)
theory ZmqYqueue
  imports TiPrelude
begin

text \<open>
  The queue of memory chunks under every pipe and mailbox of libzmq
  (\<open>3rd/zeromq/src/yqueue.hpp\<close>): a doubly linked list of arrays of \<open>n\<close> elements, with the chunk
  released last kept as a spare. Chunks are named by addresses and live in a memory; an access to
  a chunk that is not allocated gives \<open>None\<close>, so that the lemmas show that no operation
  touches freed memory. \<open>yq_repr n q xs\<close> says that the queue \<open>q\<close> is in order and that its
  elements lie, in this order, in the cells \<open>xs\<close>; the rest of the theory is what the four
  operations do to \<open>xs\<close>, which is all the pipe above needs.
\<close>

section \<open>Memory\<close>

type_synonym addr = nat
type_synonym cell = "addr \<times> nat"

record 'v chunk =
  ch_values :: "'v option list"
  ch_prev :: "addr option"
  ch_next :: "addr option"

type_synonym 'v memory = "addr \<rightharpoonup> 'v chunk"

text \<open>Storage fresh from the allocator holds no value yet.\<close>

definition allocate_chunk :: "nat \<Rightarrow> 'v chunk" where
  "allocate_chunk n = \<lparr>ch_values = replicate n None, ch_prev = None, ch_next = None\<rparr>"

definition set_next :: "addr \<Rightarrow> addr option \<Rightarrow> 'v memory \<Rightarrow> 'v memory option" where
  "set_next c x m = (case m c of None \<Rightarrow> None | Some h \<Rightarrow> Some (m(c \<mapsto> h\<lparr>ch_next := x\<rparr>)))"

definition set_prev :: "addr \<Rightarrow> addr option \<Rightarrow> 'v memory \<Rightarrow> 'v memory option" where
  "set_prev c x m = (case m c of None \<Rightarrow> None | Some h \<Rightarrow> Some (m(c \<mapsto> h\<lparr>ch_prev := x\<rparr>)))"

definition cell_get :: "cell \<Rightarrow> 'v memory \<Rightarrow> 'v option" where
  "cell_get a m = (case m (fst a) of None \<Rightarrow> None
     | Some h \<Rightarrow> if snd a < length (ch_values h) then ch_values h ! snd a else None)"

definition cell_set :: "cell \<Rightarrow> 'v \<Rightarrow> 'v memory \<Rightarrow> 'v memory option" where
  "cell_set a v m = (case m (fst a) of None \<Rightarrow> None
     | Some h \<Rightarrow> if snd a < length (ch_values h)
                 then Some (m(fst a \<mapsto> h\<lparr>ch_values := (ch_values h)[snd a := Some v]\<rparr>)) else None)"

section \<open>The queue\<close>

record 'v yqueue =
  yq_mem :: "'v memory"
  begin_chunk :: addr
  begin_pos :: nat
  back_chunk :: "addr option"
  back_pos :: nat
  end_chunk :: addr
  end_pos :: nat
  spare_chunk :: "addr option"

text \<open>Where the code allocates, \<open>a\<close> is the address the allocator returns.\<close>

definition yq_new :: "nat \<Rightarrow> addr \<Rightarrow> 'v yqueue" where
  "yq_new n a = \<lparr>yq_mem = [a \<mapsto> allocate_chunk n], begin_chunk = a, begin_pos = 0, back_chunk = None,
     back_pos = 0, end_chunk = a, end_pos = 0, spare_chunk = None\<rparr>"

definition yq_front :: "'v yqueue \<Rightarrow> cell" where
  "yq_front q = (begin_chunk q, begin_pos q)"

definition yq_back :: "'v yqueue \<Rightarrow> cell option" where
  "yq_back q = map_option (\<lambda>c. (c, back_pos q)) (back_chunk q)"

definition yq_link :: "addr \<Rightarrow> 'v yqueue \<Rightarrow> 'v yqueue option" where
  "yq_link c q = (case set_next (end_chunk q) (Some c) (yq_mem q) of None \<Rightarrow> None
     | Some m \<Rightarrow> (case set_prev c (Some (end_chunk q)) m of None \<Rightarrow> None
       | Some m' \<Rightarrow> Some (q\<lparr>yq_mem := m', end_chunk := c, end_pos := 0\<rparr>)))"

definition yq_push :: "nat \<Rightarrow> addr \<Rightarrow> 'v yqueue \<Rightarrow> 'v yqueue option" where
  "yq_push n a q =
     (let q' = q\<lparr>back_chunk := Some (end_chunk q), back_pos := end_pos q, end_pos := Suc (end_pos q)\<rparr>
      in if Suc (end_pos q) \<noteq> n then Some q'
         else case spare_chunk q of
             Some s \<Rightarrow> yq_link s (q'\<lparr>spare_chunk := None\<rparr>)
           | None \<Rightarrow> yq_link a (q'\<lparr>yq_mem := (yq_mem q)(a \<mapsto> allocate_chunk n)\<rparr>))"

text \<open>The two halves of \<open>unpush\<close>: the back moves, then the end, which frees the chunk it leaves.\<close>

definition yq_back_up :: "nat \<Rightarrow> 'v yqueue \<Rightarrow> 'v yqueue option" where
  "yq_back_up n q =
     (if back_pos q \<noteq> 0 then Some (q\<lparr>back_pos := back_pos q - 1\<rparr>)
      else case back_chunk q of None \<Rightarrow> None
        | Some c \<Rightarrow> (case yq_mem q c of None \<Rightarrow> None
          | Some h \<Rightarrow> Some (q\<lparr>back_pos := n - 1, back_chunk := ch_prev h\<rparr>)))"

definition yq_end_up :: "nat \<Rightarrow> 'v yqueue \<Rightarrow> 'v yqueue option" where
  "yq_end_up n q =
     (if end_pos q \<noteq> 0 then Some (q\<lparr>end_pos := end_pos q - 1\<rparr>)
      else case yq_mem q (end_chunk q) of None \<Rightarrow> None
        | Some h \<Rightarrow> (case ch_prev h of None \<Rightarrow> None
          | Some p \<Rightarrow> (case yq_mem q p of None \<Rightarrow> None
            | Some g \<Rightarrow> (case ch_next g of None \<Rightarrow> None
              | Some x \<Rightarrow> (case set_next p None ((yq_mem q)(x := None)) of None \<Rightarrow> None
                | Some m \<Rightarrow> Some (q\<lparr>yq_mem := m, end_chunk := p, end_pos := n - 1\<rparr>))))))"

definition yq_unpush :: "nat \<Rightarrow> 'v yqueue \<Rightarrow> 'v yqueue option" where
  "yq_unpush n q = Option.bind (yq_back_up n q) (yq_end_up n)"

definition yq_pop :: "nat \<Rightarrow> 'v yqueue \<Rightarrow> 'v yqueue option" where
  "yq_pop n q =
     (if Suc (begin_pos q) \<noteq> n then Some (q\<lparr>begin_pos := Suc (begin_pos q)\<rparr>)
      else case yq_mem q (begin_chunk q) of None \<Rightarrow> None
        | Some h \<Rightarrow> (case ch_next h of None \<Rightarrow> None
          | Some x \<Rightarrow> (case set_prev x None (yq_mem q) of None \<Rightarrow> None
            | Some m \<Rightarrow>
                let m' = (case spare_chunk q of None \<Rightarrow> m | Some s \<Rightarrow> m(s := None))
                in Some (q\<lparr>yq_mem := m', begin_chunk := x, begin_pos := 0,
                           spare_chunk := Some (begin_chunk q)\<rparr>))))"

section \<open>The cells of a queue\<close>

text \<open>The cell of an index into the chunks \<open>cs\<close>, and the chunks as the memory links them.\<close>

definition nth_cell :: "nat \<Rightarrow> addr list \<Rightarrow> nat \<Rightarrow> cell" where
  "nth_cell n cs i = (cs ! (i div n), i mod n)"

fun linked :: "'v memory \<Rightarrow> addr list \<Rightarrow> bool" where
  "linked m [] = True"
| "linked m [c] = (c \<in> dom m)"
| "linked m (c # d # cs) =
     (map_option ch_next (m c) = Some (Some d) \<and> map_option ch_prev (m d) = Some (Some c) \<and> linked m (d # cs))"

definition cell_count :: "nat \<Rightarrow> addr list \<Rightarrow> 'v yqueue \<Rightarrow> nat" where
  "cell_count n cs q = (length cs - 1) * n + end_pos q"

text \<open>Every allocated chunk is one of the list or the spare: nothing leaks.\<close>

definition yq_ok :: "nat \<Rightarrow> addr list \<Rightarrow> 'v yqueue \<Rightarrow> bool" where
  "yq_ok n cs q \<longleftrightarrow> 0 < n \<and> cs \<noteq> [] \<and> distinct cs \<and> hd cs = begin_chunk q \<and> last cs = end_chunk q \<and>
     begin_pos q < n \<and> end_pos q < n \<and> begin_pos q \<le> cell_count n cs q \<and> linked (yq_mem q) cs \<and>
     (begin_pos q < cell_count n cs q \<longrightarrow> yq_back q = Some (nth_cell n cs (cell_count n cs q - 1))) \<and>
     dom (yq_mem q) = set cs \<union> set_option (spare_chunk q) \<and> set cs \<inter> set_option (spare_chunk q) = {} \<and>
     (\<forall>h \<in> ran (yq_mem q). length (ch_values h) = n)"

definition yq_repr :: "nat \<Rightarrow> 'v yqueue \<Rightarrow> cell list \<Rightarrow> bool" where
  "yq_repr n q xs \<longleftrightarrow>
     (\<exists>cs. yq_ok n cs q \<and> xs = map (nth_cell n cs) [begin_pos q ..< cell_count n cs q])"

lemma linked_dom: "linked m cs \<Longrightarrow> set cs \<subseteq> dom m"
  by (induction m cs rule: linked.induct) auto

lemma linked_frame: "linked m cs \<Longrightarrow> \<forall>c \<in> set cs. m' c = m c \<Longrightarrow> linked m' cs"
  by (induction m cs rule: linked.induct) (auto simp: dom_def)

lemma linked_snoc:
  "\<lbrakk>linked m cs; cs \<noteq> []; distinct cs; c \<notin> set cs; m (last cs) = Some h; m c = Some g\<rbrakk>
    \<Longrightarrow> linked (m(last cs \<mapsto> h\<lparr>ch_next := Some c\<rparr>, c \<mapsto> g\<lparr>ch_prev := Some (last cs)\<rparr>)) (cs @ [c])"
proof (induction m cs rule: linked.induct)
  case (3 m b d cs)
  then show ?case by (cases "cs = []") auto
qed auto

lemma linked_last:
  "\<lbrakk>linked m (cs @ [c]); cs \<noteq> []\<rbrakk>
    \<Longrightarrow> map_option ch_next (m (last cs)) = Some (Some c) \<and> map_option ch_prev (m c) = Some (Some (last cs))
      \<and> linked m cs"
proof (induction m cs rule: linked.induct)
  case (3 m b d cs)
  then show ?case by (cases "cs = []") auto
qed (auto simp: dom_def)

lemma linked_next:
  "\<lbrakk>linked m cs; cs \<noteq> []; distinct cs; m (last cs) = Some h\<rbrakk>
    \<Longrightarrow> linked (m(last cs \<mapsto> h\<lparr>ch_next := x\<rparr>)) cs"
proof (induction m cs rule: linked.induct)
  case (3 m b d cs)
  then show ?case by (cases "cs = []") auto
qed auto

lemma linked_tl:
  "\<lbrakk>linked m (c # d # cs); distinct (c # d # cs); m d = Some g\<rbrakk> \<Longrightarrow> linked (m(d \<mapsto> g\<lparr>ch_prev := x\<rparr>)) (d # cs)"
  by (cases cs) (auto intro: linked_frame)

lemma linked_prev:
  "\<lbrakk>linked m cs; Suc i < length cs\<rbrakk> \<Longrightarrow> map_option ch_prev (m (cs ! Suc i)) = Some (Some (cs ! i))"
proof (induction m cs arbitrary: i rule: linked.induct)
  case (3 m c d cs)
  then show ?case by (cases i) auto
qed auto

section \<open>What a cell holds\<close>

lemma set_next_Some: "set_next c x m = Some m' \<longleftrightarrow> (\<exists>h. m c = Some h \<and> m' = m(c \<mapsto> h\<lparr>ch_next := x\<rparr>))"
  by (auto simp: set_next_def split: option.splits)

lemma set_prev_Some: "set_prev c x m = Some m' \<longleftrightarrow> (\<exists>h. m c = Some h \<and> m' = m(c \<mapsto> h\<lparr>ch_prev := x\<rparr>))"
  by (auto simp: set_prev_def split: option.splits)

lemma cell_get_links:
  "m c = Some h \<Longrightarrow> cell_get a (m(c \<mapsto> h\<lparr>ch_next := x\<rparr>)) = cell_get a m"
  "m c = Some h \<Longrightarrow> cell_get a (m(c \<mapsto> h\<lparr>ch_prev := x\<rparr>)) = cell_get a m"
  by (auto simp: cell_get_def)

lemma cell_get_other: "fst a \<noteq> c \<Longrightarrow> cell_get a (m(c := x)) = cell_get a m"
  by (simp add: cell_get_def)

section \<open>Indices\<close>

lemma nth_cell_snoc: "i < length cs * n \<Longrightarrow> nth_cell n (cs @ [c]) i = nth_cell n cs i"
  by (simp add: nth_cell_def nth_append less_mult_imp_div_less)

lemma nth_cell_Cons: "0 < n \<Longrightarrow> nth_cell n (c # cs) (i + n) = nth_cell n cs i"
  using div_add_self2 [of n i] by (simp add: nth_cell_def)

lemma nth_cell_inj:
  assumes "distinct cs" "i < length cs * n" "j < length cs * n" "nth_cell n cs i = nth_cell n cs j"
  shows "i = j"
proof -
  have "i div n = j div n" "i mod n = j mod n"
    using assms by (auto simp: nth_cell_def nth_eq_iff_index_eq less_mult_imp_div_less)
  then show ?thesis by (metis div_mult_mod_eq)
qed

lemma nth_cell_in: "i < length cs * n \<Longrightarrow> fst (nth_cell n cs i) \<in> set cs \<and> (0 < n \<longrightarrow> snd (nth_cell n cs i) < n)"
  by (simp add: nth_cell_def less_mult_imp_div_less)

section \<open>Queues in order\<close>

lemma yq_ok_count:
  assumes "yq_ok n cs q"
  shows "cell_count n cs q < length cs * n"
proof -
  obtain m where m: "length cs = Suc m" using assms by (cases cs) (auto simp: yq_ok_def)
  show ?thesis using assms by (simp add: yq_ok_def cell_count_def m)
qed

lemma yq_ok_chunk:
  assumes "yq_ok n cs q" "c \<in> set cs \<or> spare_chunk q = Some c"
  obtains h where "yq_mem q c = Some h" "length (ch_values h) = n"
proof -
  have "c \<in> dom (yq_mem q)" using assms by (auto simp: yq_ok_def)
  then obtain h where "yq_mem q c = Some h" by blast
  then show thesis using assms(1) that by (auto simp: yq_ok_def ran_def)
qed

lemma yq_repr_cell:
  assumes "yq_ok n cs q" "a \<in> set (map (nth_cell n cs) [begin_pos q ..< cell_count n cs q])"
  shows "fst a \<in> set cs" "snd a < n"
  using assms yq_ok_count [OF assms(1)] nth_cell_in [of _ cs n] by (force simp: yq_ok_def)+

lemma yq_repr_distinct:
  assumes "yq_repr n q xs"
  shows "distinct xs"
proof -
  obtain cs where ok: "yq_ok n cs q" and xs: "xs = map (nth_cell n cs) [begin_pos q ..< cell_count n cs q]"
    using assms by (auto simp: yq_repr_def)
  have "distinct cs" using ok by (simp add: yq_ok_def)
  then show ?thesis
    using yq_ok_count [OF ok] nth_cell_inj [of cs _ n]
    by (auto simp: xs distinct_map intro!: inj_onI)
qed

lemma yq_repr_front:
  assumes "yq_repr n q (x # xs)"
  shows "yq_front q = x"
proof -
  obtain cs where ok: "yq_ok n cs q" and xs: "x # xs = map (nth_cell n cs) [begin_pos q ..< cell_count n cs q]"
    using assms by (auto simp: yq_repr_def)
  have lt: "begin_pos q < cell_count n cs q" using xs by (cases "begin_pos q < cell_count n cs q") auto
  then have "x = nth_cell n cs (begin_pos q)" using xs by (simp add: upt_rec)
  then show ?thesis using ok by (auto simp: yq_ok_def nth_cell_def yq_front_def hd_conv_nth)
qed

lemma yq_repr_back:
  assumes "yq_repr n q (xs @ [y])"
  shows "yq_back q = Some y"
proof -
  obtain cs where ok: "yq_ok n cs q" and xs: "xs @ [y] = map (nth_cell n cs) [begin_pos q ..< cell_count n cs q]"
    using assms by (auto simp: yq_repr_def)
  have lt: "begin_pos q < cell_count n cs q" using xs by (cases "begin_pos q < cell_count n cs q") auto
  then obtain t where t: "cell_count n cs q = Suc t" by (cases "cell_count n cs q") auto
  show ?thesis using ok xs lt by (simp add: yq_ok_def t)
qed

lemma yq_new_repr:
  assumes "0 < n"
  shows "yq_repr n (yq_new n a) []"
  unfolding yq_repr_def using assms
  by (intro exI [of _ "[a]"]) (auto simp: yq_ok_def cell_count_def yq_new_def allocate_chunk_def)

text \<open>Storing into an element changes that element and nothing else.\<close>

lemma yq_store:
  assumes "yq_repr n q xs" "a \<in> set xs"
  obtains m where "cell_set a v (yq_mem q) = Some m" "yq_repr n (q\<lparr>yq_mem := m\<rparr>) xs"
    "cell_get a m = Some v" "\<And>b. b \<noteq> a \<Longrightarrow> cell_get b m = cell_get b (yq_mem q)"
proof -
  obtain cs where ok: "yq_ok n cs q" and xs: "xs = map (nth_cell n cs) [begin_pos q ..< cell_count n cs q]"
    using assms by (auto simp: yq_repr_def)
  have a: "fst a \<in> set cs" "snd a < n" using yq_repr_cell [OF ok] assms(2) xs by auto
  then obtain h where h: "yq_mem q (fst a) = Some h" and n: "length (ch_values h) = n"
    using yq_ok_chunk [OF ok] by blast
  let ?m = "(yq_mem q)(fst a \<mapsto> h\<lparr>ch_values := (ch_values h)[snd a := Some v]\<rparr>)"
  have "linked ?m ds" if "linked (yq_mem q) ds" for ds
    using that h by (induction "yq_mem q" ds rule: linked.induct) auto
  then have "yq_ok n cs (q\<lparr>yq_mem := ?m\<rparr>)"
    using ok h n by (auto simp: yq_ok_def cell_count_def yq_back_def ran_def)
  then have "yq_repr n (q\<lparr>yq_mem := ?m\<rparr>) xs"
    unfolding yq_repr_def by (intro exI [of _ cs]) (simp add: xs cell_count_def)
  moreover have "cell_set a v (yq_mem q) = Some ?m" using h n a by (simp add: cell_set_def)
  moreover have "cell_get a ?m = Some v" using n a by (simp add: cell_get_def)
  moreover have "cell_get b ?m = cell_get b (yq_mem q)" if "b \<noteq> a" for b
    using that h by (cases a; cases b) (auto simp: cell_get_def)
  ultimately show thesis using that [of ?m] by blast
qed

section \<open>push\<close>

text \<open>The new end chunk is the spare, if there is one, or a fresh one.\<close>

lemma yq_link_ok:
  assumes ok: "yq_ok n cs q" and full: "Suc (end_pos q) = n"
    and c: "c \<notin> set cs" "yq_mem q' c = Some g" "length (ch_values g) = n"
    and q': "\<forall>d \<in> set cs. yq_mem q' d = yq_mem q d" "ran (yq_mem q') \<subseteq> {h. length (ch_values h) = n}"
      "dom (yq_mem q') = insert c (set cs)" "begin_chunk q' = begin_chunk q" "begin_pos q' = begin_pos q"
      "back_chunk q' = Some (end_chunk q)" "back_pos q' = end_pos q" "end_chunk q' = end_chunk q"
      "spare_chunk q' = None"
  obtains q'' where "yq_link c q' = Some q''" "yq_ok n (cs @ [c]) q''" "begin_pos q'' = begin_pos q"
    "cell_count n (cs @ [c]) q'' = Suc (cell_count n cs q)"
    "yq_back q'' = Some (nth_cell n cs (cell_count n cs q))"
    "\<And>a. cell_get a (yq_mem q'') = cell_get a (yq_mem q')"
proof -
  have cs: "cs \<noteq> []" "distinct cs" "last cs = end_chunk q" and n: "0 < n" using ok by (auto simp: yq_ok_def)
  have e: "end_chunk q \<in> set cs" using cs by (metis last_in_set)
  obtain h where h: "yq_mem q (end_chunk q) = Some h" "length (ch_values h) = n"
    using yq_ok_chunk [OF ok, of "end_chunk q"] e by auto
  have h': "yq_mem q' (end_chunk q) = Some h" using q'(1) cs h by (metis last_in_set)
  have ne: "c \<noteq> end_chunk q" using c(1) cs by (metis last_in_set)
  let ?m = "(yq_mem q')(end_chunk q \<mapsto> h\<lparr>ch_next := Some c\<rparr>, c \<mapsto> g\<lparr>ch_prev := Some (end_chunk q)\<rparr>)"
  let ?q = "q'\<lparr>yq_mem := ?m, end_chunk := c, end_pos := 0\<rparr>"
  have link: "yq_link c q' = Some ?q"
    using h' c(2) ne by (simp add: yq_link_def q' set_next_def set_prev_def)
  have lk: "linked (yq_mem q') cs" using ok q'(1) by (auto simp: yq_ok_def intro: linked_frame)
  have lk': "linked ?m (cs @ [c])"
    using linked_snoc [OF lk, of c h g] cs c h' by simp
  obtain l where l: "length cs = Suc l" using cs by (cases cs) auto
  have cnt: "cell_count n (cs @ [c]) ?q = Suc (cell_count n cs q)"
    using full by (simp add: cell_count_def l)
  have bk: "yq_back ?q = Some (nth_cell n cs (cell_count n cs q))"
    using cs full by (simp add: yq_back_def q' nth_cell_def cell_count_def l last_conv_nth)
  have lt: "cell_count n cs q < length cs * n" by (rule yq_ok_count [OF ok])
  have rn: "\<forall>k \<in> ran ?m. length (ch_values k) = n"
    using q'(2) h(2) c(3) by (auto simp: ran_def)
  have dm: "dom ?m = set (cs @ [c])" using q'(3) e by auto
  have "yq_ok n (cs @ [c]) ?q"
    using ok lk' rn dm c(1) cs n bk cnt lt
    by (simp add: yq_ok_def q' nth_cell_snoc)
  moreover have "cell_get a ?m = cell_get a (yq_mem q')" for a
    using h' c(2) ne by (auto simp: cell_get_def)
  ultimately show thesis using that [of ?q] link cnt bk q' by simp
qed

lemma yq_push_repr:
  assumes rep: "yq_repr n q xs" and fresh: "a \<notin> dom (yq_mem q)"
  obtains q' c where "yq_push n a q = Some q'" "yq_repr n q' (xs @ [c])"
    "\<And>b. b \<in> set xs \<Longrightarrow> cell_get b (yq_mem q') = cell_get b (yq_mem q)"
proof -
  obtain cs where ok: "yq_ok n cs q" and xs: "xs = map (nth_cell n cs) [begin_pos q ..< cell_count n cs q]"
    using rep by (auto simp: yq_repr_def)
  let ?q = "q\<lparr>back_chunk := Some (end_chunk q), back_pos := end_pos q, end_pos := Suc (end_pos q)\<rparr>"
  have le: "begin_pos q \<le> cell_count n cs q" using ok by (simp add: yq_ok_def)
  have lt: "cell_count n cs q < length cs * n" by (rule yq_ok_count [OF ok])
  obtain l where l: "length cs = Suc l" using ok by (cases cs) (auto simp: yq_ok_def)
  note result = that
  show thesis
  proof (cases "Suc (end_pos q) = n")
    case False
    have "yq_back ?q = Some (nth_cell n cs (cell_count n cs q))"
      using ok by (auto simp: yq_back_def nth_cell_def cell_count_def l yq_ok_def last_conv_nth)
    then have "yq_ok n cs ?q" using ok False by (auto simp: yq_ok_def cell_count_def)
    then have "yq_repr n ?q (xs @ [nth_cell n cs (cell_count n cs q)])"
      unfolding yq_repr_def using le by (intro exI [of _ cs]) (simp add: xs cell_count_def)
    then show thesis using that [of ?q] False by (simp add: yq_push_def)
  next
    case True
    have fin: thesis if c: "c \<notin> set cs" "yq_mem q1 c = Some g" "length (ch_values g) = n"
      and q1: "\<forall>d \<in> set cs. yq_mem q1 d = yq_mem q d" "ran (yq_mem q1) \<subseteq> {h. length (ch_values h) = n}"
        "dom (yq_mem q1) = insert c (set cs)" "begin_chunk q1 = begin_chunk q" "begin_pos q1 = begin_pos q"
        "back_chunk q1 = Some (end_chunk q)" "back_pos q1 = end_pos q" "end_chunk q1 = end_chunk q"
        "spare_chunk q1 = None"
      and eq: "yq_push n a q = yq_link c q1" for c g q1
    proof -
      obtain q2 where q2: "yq_link c q1 = Some q2" "yq_ok n (cs @ [c]) q2" "begin_pos q2 = begin_pos q"
        "cell_count n (cs @ [c]) q2 = Suc (cell_count n cs q)"
        "\<And>b. cell_get b (yq_mem q2) = cell_get b (yq_mem q1)"
        by (rule yq_link_ok [OF ok True c q1]) blast
      have "yq_repr n q2 (xs @ [nth_cell n cs (cell_count n cs q)])"
        unfolding yq_repr_def using q2(2,3,4) le lt
        by (intro exI [of _ "cs @ [c]"]) (auto simp: xs nth_cell_snoc)
      moreover have "cell_get b (yq_mem q1) = cell_get b (yq_mem q)" if "b \<in> set xs" for b
        using yq_repr_cell(1) [OF ok] that q1(1) by (simp add: xs cell_get_def)
      ultimately show thesis using result [of q2] q2(1,5) eq by simp
    qed
    show thesis
    proof (cases "spare_chunk q")
      case None
      show thesis
        by (rule fin [of a "?q\<lparr>yq_mem := (yq_mem q)(a \<mapsto> allocate_chunk n)\<rparr>" "allocate_chunk n"])
          (use ok fresh True None in \<open>auto simp: yq_ok_def yq_push_def allocate_chunk_def ran_def\<close>)
    next
      case (Some s)
      obtain g where g: "yq_mem q s = Some g" "length (ch_values g) = n"
        using yq_ok_chunk [OF ok, of s] Some by auto
      show thesis
        by (rule fin [of s "?q\<lparr>spare_chunk := None\<rparr>" g])
          (use ok g True Some in \<open>auto simp: yq_ok_def yq_push_def ran_def\<close>)
    qed
  qed
qed

section \<open>unpush and pop\<close>

lemma map_upt_snoc: "map f [i..<j] = xs @ [y] \<longleftrightarrow> i < j \<and> xs = map f [i..<j - 1] \<and> y = f (j - 1)"
  by (cases j) auto

lemma map_upt_Cons: "map f [i..<j] = x # xs \<longleftrightarrow> i < j \<and> x = f i \<and> xs = map f [Suc i..<j]"
  by (auto simp: upt_rec [of i j])

text \<open>The back moves to the cell before it.\<close>

lemma yq_back_up_ok:
  assumes ok: "yq_ok n cs q" and two: "begin_pos q + 1 < cell_count n cs q"
  obtains bc bp where "yq_back_up n q = Some (q\<lparr>back_pos := bp, back_chunk := bc\<rparr>)"
    "map_option (\<lambda>c. (c, bp)) bc = Some (nth_cell n cs (cell_count n cs q - 2))"
proof -
  obtain t where t: "cell_count n cs q = t + 2" using two by (metis add.commute less_imp_add_positive add_Suc_right add_2_eq_Suc Suc_eq_plus1 add_Suc less_iff_Suc_add)
  have n: "0 < n" and bk: "yq_back q = Some (nth_cell n cs (Suc t))"
    and lk: "linked (yq_mem q) cs" using ok two t by (auto simp: yq_ok_def)
  have lt: "Suc t < length cs * n" using yq_ok_count [OF ok] t by simp
  have bc: "back_chunk q = Some (cs ! (Suc t div n))" "back_pos q = Suc t mod n"
    using bk by (auto simp: yq_back_def nth_cell_def)
  show thesis
  proof (cases "Suc t mod n = 0")
    case False
    then have "Suc t div n = t div n" "Suc t mod n = Suc (t mod n)"
      by (auto simp: div_Suc mod_Suc split: if_splits)
    then show thesis
      using that [of "back_chunk q" "back_pos q - 1"] bc False
      by (simp add: yq_back_up_def nth_cell_def t)
  next
    case True
    then have d: "Suc t div n = Suc (t div n)" "t mod n = n - 1"
      by (auto simp: div_Suc mod_Suc split: if_splits)
    have "Suc (t div n) < length cs" using lt d(1) by (metis less_mult_imp_div_less)
    from linked_prev [OF lk this]
    obtain h where "yq_mem q (cs ! Suc (t div n)) = Some h" "ch_prev h = Some (cs ! (t div n))" by auto
    then show thesis
      using that [of "Some (cs ! (t div n))" "n - 1"] bc True d
      by (simp add: yq_back_up_def nth_cell_def t)
  qed
qed

text \<open>The chunk the end leaves is freed, and no cell of the queue is in it.\<close>

lemma end_chunk_freed:
  assumes ok: "yq_ok n cs q" and two: "begin_pos q + 1 < cell_count n cs q" and e: "end_pos q = 0"
  obtains ds c g h where "cs = ds @ [c]" "ds \<noteq> []" "c = end_chunk q" "c \<notin> set ds" "last ds \<noteq> c"
    "yq_mem q (last ds) = Some g" "ch_next g = Some c" "yq_mem q c = Some h" "ch_prev h = Some (last ds)"
    "linked ((yq_mem q)(c := None, last ds \<mapsto> g\<lparr>ch_next := None\<rparr>)) ds"
    "dom ((yq_mem q)(c := None, last ds \<mapsto> g\<lparr>ch_next := None\<rparr>)) = set ds \<union> set_option (spare_chunk q)"
    "\<forall>k \<in> ran ((yq_mem q)(c := None, last ds \<mapsto> g\<lparr>ch_next := None\<rparr>)). length (ch_values k) = n"
    "cell_count n cs q = length ds * n"
proof -
  have cs: "cs \<noteq> []" "distinct cs" "last cs = end_chunk q" and lk: "linked (yq_mem q) cs"
    using ok by (auto simp: yq_ok_def)
  obtain ds c where ds: "cs = ds @ [c]" using cs by (metis append_butlast_last_id)
  have ne: "ds \<noteq> []" using two e by (auto simp: cell_count_def ds)
  from linked_last [of "yq_mem q" ds c] lk ds ne
  obtain g h where g: "yq_mem q (last ds) = Some g" "ch_next g = Some c"
    and h: "yq_mem q c = Some h" "ch_prev h = Some (last ds)" and lkd: "linked (yq_mem q) ds" by auto
  have lc: "last ds \<noteq> c" "c \<notin> set ds" using cs ds ne by (auto dest: last_in_set)
  let ?m = "(yq_mem q)(c := None, last ds \<mapsto> g\<lparr>ch_next := None\<rparr>)"
  have "linked ((yq_mem q)(c := None)) ds" using lkd lc by (auto intro: linked_frame)
  then have "linked ?m ds" using linked_next [of _ ds g None] ne cs ds g lc by auto
  moreover have "dom ?m = set ds \<union> set_option (spare_chunk q)"
    using ok ds lc ne by (auto simp: yq_ok_def)
  moreover have "\<forall>k \<in> ran ?m. length (ch_values k) = n"
    using ok g(1) by (auto simp: yq_ok_def ran_def)
  moreover have "cell_count n cs q = length ds * n" by (simp add: cell_count_def ds e)
  moreover have "c = end_chunk q" using cs ds by simp
  ultimately show thesis using that [of ds c g h] ds ne lc g h by blast
qed

lemma yq_unpush_repr:
  assumes rep: "yq_repr n q (xs @ [y, z])"
  obtains q' where "yq_unpush n q = Some q'" "yq_repr n q' (xs @ [y])"
    "\<And>b. b \<in> set (xs @ [y]) \<Longrightarrow> cell_get b (yq_mem q') = cell_get b (yq_mem q)"
proof -
  obtain cs where ok: "yq_ok n cs q"
    and cells: "map (nth_cell n cs) [begin_pos q ..< cell_count n cs q] = (xs @ [y]) @ [z]"
    using rep by (auto simp: yq_repr_def)
  from cells have two: "begin_pos q + 1 < cell_count n cs q"
    and xy: "xs @ [y] = map (nth_cell n cs) [begin_pos q ..< cell_count n cs q - 1]"
    unfolding map_upt_snoc using map_upt_snoc [of "nth_cell n cs" "begin_pos q" "cell_count n cs q - 1" xs y] by auto
  obtain bc bp where b: "yq_back_up n q = Some (q\<lparr>back_pos := bp, back_chunk := bc\<rparr>)"
    "map_option (\<lambda>c. (c, bp)) bc = Some (nth_cell n cs (cell_count n cs q - 2))"
    by (rule yq_back_up_ok [OF ok two])
  have n: "0 < n" using ok by (auto simp: yq_ok_def)
  let ?q1 = "q\<lparr>back_pos := bp, back_chunk := bc\<rparr>"
  show thesis
  proof (cases "end_pos q = 0")
    case False
    let ?q = "?q1\<lparr>end_pos := end_pos q - 1\<rparr>"
    have cnt: "cell_count n cs ?q = cell_count n cs q - 1" using False by (simp add: cell_count_def)
    have "yq_ok n cs ?q" using ok cnt two b(2) False by (auto simp: yq_ok_def yq_back_def numeral_2_eq_2)
    then have "yq_repr n ?q (xs @ [y])" unfolding yq_repr_def using cnt xy by (intro exI [of _ cs]) simp
    then show thesis using that [of ?q] b(1) False by (simp add: yq_unpush_def yq_end_up_def)
  next
    case True
    from end_chunk_freed [OF ok two True] obtain ds c g h where ds: "cs = ds @ [c]" "ds \<noteq> []"
      and c: "c = end_chunk q" "c \<notin> set ds" "last ds \<noteq> c"
      and g: "yq_mem q (last ds) = Some g" "ch_next g = Some c" "yq_mem q c = Some h" "ch_prev h = Some (last ds)"
      and m: "linked ((yq_mem q)(c := None, last ds \<mapsto> g\<lparr>ch_next := None\<rparr>)) ds"
        "dom ((yq_mem q)(c := None, last ds \<mapsto> g\<lparr>ch_next := None\<rparr>)) = set ds \<union> set_option (spare_chunk q)"
        "\<forall>k \<in> ran ((yq_mem q)(c := None, last ds \<mapsto> g\<lparr>ch_next := None\<rparr>)). length (ch_values k) = n"
      and len: "cell_count n cs q = length ds * n" by blast
    let ?m = "(yq_mem q)(c := None, last ds \<mapsto> g\<lparr>ch_next := None\<rparr>)"
    let ?q = "?q1\<lparr>yq_mem := ?m, end_chunk := last ds, end_pos := n - 1\<rparr>"
    have cnt: "cell_count n ds ?q = cell_count n cs q - 1"
      using ds n len by (cases ds) (auto simp: cell_count_def)
    have same: "nth_cell n cs i = nth_cell n ds i" if "i < cell_count n cs q" for i
      using that len by (simp add: ds nth_cell_snoc)
    have "yq_ok n ds ?q"
      using ok two b(2) ds n m cnt same [of "cell_count n cs q - 2"]
      by (auto simp: yq_ok_def yq_back_def numeral_2_eq_2)
    then have rep': "yq_repr n ?q (xs @ [y])"
      unfolding yq_repr_def using cnt xy same by (intro exI [of _ ds]) auto
    have "cell_get b ?m = cell_get b (yq_mem q)" if "b \<in> set (xs @ [y])" for b
    proof -
      have "fst b \<in> set ds" using that same nth_cell_in [of _ ds n] len unfolding xy by auto
      then show ?thesis using c g by (auto simp: cell_get_def)
    qed
    then show thesis
      using that [of ?q] b(1) rep' True g c by (simp add: yq_unpush_def yq_end_up_def set_next_def)
  qed
qed

text \<open>A chunk read to its end becomes the spare; the old spare is freed.\<close>

lemma yq_pop_repr:
  assumes rep: "yq_repr n q (x # y # xs)"
  obtains q' where "yq_pop n q = Some q'" "yq_repr n q' (y # xs)"
    "\<And>b. b \<in> set (y # xs) \<Longrightarrow> cell_get b (yq_mem q') = cell_get b (yq_mem q)"
proof -
  obtain cs where ok: "yq_ok n cs q"
    and cells: "map (nth_cell n cs) [begin_pos q ..< cell_count n cs q] = x # y # xs"
    using rep by (auto simp: yq_repr_def)
  then have ys: "y # xs = map (nth_cell n cs) [Suc (begin_pos q) ..< cell_count n cs q]"
    by (simp only: map_upt_Cons)
  then have two: "begin_pos q + 1 < cell_count n cs q"
    using map_upt_Cons [of "nth_cell n cs" "Suc (begin_pos q)" "cell_count n cs q" y xs] by simp
  have n: "0 < n" and cs: "cs \<noteq> []" "distinct cs" "hd cs = begin_chunk q" and lk: "linked (yq_mem q) cs"
    using ok by (auto simp: yq_ok_def)
  show thesis
  proof (cases "Suc (begin_pos q) = n")
    case False
    let ?q = "q\<lparr>begin_pos := Suc (begin_pos q)\<rparr>"
    have "yq_ok n cs ?q" using ok two False by (auto simp: yq_ok_def cell_count_def yq_back_def)
    then have "yq_repr n ?q (y # xs)"
      unfolding yq_repr_def using ys by (intro exI [of _ cs]) (simp add: cell_count_def)
    then show thesis using that [of ?q] False by (simp add: yq_pop_def)
  next
    case True
    have "Suc 0 < length cs" using two True ok n by (cases cs) (auto simp: cell_count_def yq_ok_def)
    then obtain c d ds where ds: "cs = c # d # ds" by (auto simp: Suc_le_length_iff dest!: Suc_leI)
    then have c: "c = begin_chunk q" using cs by simp
    obtain h where h: "yq_mem q c = Some h" "ch_next h = Some d" using lk ds by auto
    obtain g where g: "yq_mem q d = Some g" "length (ch_values g) = n"
      using yq_ok_chunk [OF ok, of d] ds by auto
    have s: "spare_chunk q \<noteq> Some b" if "b \<in> set cs" for b using ok that by (auto simp: yq_ok_def)
    let ?mm = "(yq_mem q)(d \<mapsto> g\<lparr>ch_prev := None\<rparr>)"
    let ?m = "(case spare_chunk q of None \<Rightarrow> ?mm | Some s \<Rightarrow> ?mm(s := None))"
    let ?q = "q\<lparr>yq_mem := ?m, begin_chunk := d, begin_pos := 0, spare_chunk := Some c\<rparr>"
    have m: "?m b = ?mm b" if "b \<in> set cs" for b using s [OF that] by (simp split: option.split)
    have "linked ?mm (d # ds)" using linked_tl [of "yq_mem q" c d ds g None] lk cs ds g by simp
    then have l: "linked ?m (d # ds)" by (rule linked_frame) (use m in \<open>simp add: ds\<close>)
    have cnt: "cell_count n cs q = cell_count n (d # ds) ?q + n" by (simp add: cell_count_def ds)
    have dm: "dom ?m = set (d # ds) \<union> {c}" "\<forall>k \<in> ran ?m. length (ch_values k) = n"
      using ok g s ds by (auto simp: yq_ok_def ran_def split: option.splits if_splits)
    have sh: "nth_cell n cs (i + n) = nth_cell n (d # ds) i" for i
      unfolding ds by (rule nth_cell_Cons [OF n])
    have "cell_count n cs q - 1 = (cell_count n (d # ds) ?q - 1) + n" using cnt two True by linarith
    then have "nth_cell n cs (cell_count n cs q - 1) = nth_cell n (d # ds) (cell_count n (d # ds) ?q - 1)"
      by (simp only: sh)
    then have "yq_back ?q = Some (nth_cell n (d # ds) (cell_count n (d # ds) ?q - 1))"
      using ok two by (simp add: yq_ok_def yq_back_def)
    then have "yq_ok n (d # ds) ?q"
      unfolding yq_ok_def using ok l dm cs ds n by (auto simp: yq_ok_def)
    moreover have "map (nth_cell n cs) [n ..< cell_count n cs q] = map (nth_cell n (d # ds)) [0 ..< cell_count n (d # ds) ?q]"
      unfolding cnt using sh by (auto intro!: nth_equalityI simp: add.commute)
    ultimately have "yq_repr n ?q (y # xs)"
      unfolding yq_repr_def using ys True by (intro exI [of _ "d # ds"]) simp
    moreover have "cell_get b ?m = cell_get b (yq_mem q)" if "b \<in> set (y # xs)" for b
    proof -
      have "fst b \<in> set cs" using that two yq_repr_cell(1) [OF ok, of b] by (simp add: cells)
      then show ?thesis using m [of "fst b"] g by (auto simp: cell_get_def)
    qed
    ultimately show thesis
      using that [of ?q] True h g c by (simp add: yq_pop_def set_prev_def)
  qed
qed

end
