(* ===== verification/ZmqYpipe.thy ===== *)
theory ZmqYpipe
  imports ZmqYqueue "HOL-Library.Monad_Syntax"
begin

text \<open>
  The lock-free queue under a pipe (\<open>3rd/zeromq/src/ypipe.hpp\<close>, \<open>atomic_ptr.hpp\<close>): one thread
  writes, another reads, and the pointer \<open>c\<close> is all they share. The operations are those of the
  code over the chunk queue of \<open>ZmqYqueue\<close>; \<open>None\<close> is an access to freed memory. The step
  relation interleaves the two threads: \<open>flush\<close> is cut after its compare-and-swap, and
  \<open>read\<close> into the check and the taking of the item. The specification is a queue of values with
  a flag that says whether the reader sleeps; every step of the pointers is a step of that queue
  with the same result.
\<close>

section \<open>The code\<close>

record 'v ypipe =
  yp_queue :: "'v yqueue"
  yp_w :: "cell option"
  yp_r :: "cell option"
  yp_f :: "cell option"
  yp_c :: "cell option"

definition yp_new :: "nat \<Rightarrow> addr \<Rightarrow> addr \<Rightarrow> 'v ypipe option" where
  "yp_new n a b = do {
     q \<leftarrow> yq_push n b (yq_new n a);
     Some \<lparr>yp_queue = q, yp_w = yq_back q, yp_r = yq_back q, yp_f = yq_back q, yp_c = yq_back q\<rparr> }"

definition yp_write :: "nat \<Rightarrow> addr \<Rightarrow> 'v \<Rightarrow> bool \<Rightarrow> 'v ypipe \<Rightarrow> 'v ypipe option" where
  "yp_write n a v incomplete p = do {
     b \<leftarrow> yq_back (yp_queue p);
     m \<leftarrow> cell_set b v (yq_mem (yp_queue p));
     q \<leftarrow> yq_push n a ((yp_queue p)\<lparr>yq_mem := m\<rparr>);
     Some (p\<lparr>yp_queue := q, yp_f := if incomplete then yp_f p else yq_back q\<rparr>) }"

definition yp_unwrite :: "nat \<Rightarrow> 'v ypipe \<Rightarrow> ('v option \<times> 'v ypipe) option" where
  "yp_unwrite n p =
     (if yp_f p = yq_back (yp_queue p) then Some (None, p)
      else do {
        q \<leftarrow> yq_unpush n (yp_queue p);
        b \<leftarrow> yq_back q;
        v \<leftarrow> cell_get b (yq_mem q);
        Some (Some v, p\<lparr>yp_queue := q\<rparr>) })"

text \<open>\<open>atomic_ptr_t::cas\<close> on \<open>c\<close>: the old value, and the new one if the old is as expected.\<close>

definition yp_cas :: "cell option \<Rightarrow> cell option \<Rightarrow> 'v ypipe \<Rightarrow> cell option \<times> 'v ypipe" where
  "yp_cas x y p = (yp_c p, if yp_c p = x then p\<lparr>yp_c := y\<rparr> else p)"

text \<open>\<open>flush\<close> up to its compare-and-swap, where \<open>None\<close> says that the reader sleeps, and the rest.\<close>

definition yp_flush_cas :: "'v ypipe \<Rightarrow> bool option \<times> 'v ypipe" where
  "yp_flush_cas p =
     (if yp_w p = yp_f p then (Some True, p)
      else let (old, p') = yp_cas (yp_w p) (yp_f p) p
           in if old \<noteq> yp_w p then (None, p') else (Some True, p'\<lparr>yp_w := yp_f p'\<rparr>))"

definition yp_flush_set :: "'v ypipe \<Rightarrow> 'v ypipe" where
  "yp_flush_set p = p\<lparr>yp_c := yp_f p, yp_w := yp_f p\<rparr>"

definition yp_flush :: "'v ypipe \<Rightarrow> bool \<times> 'v ypipe" where
  "yp_flush p = (case yp_flush_cas p of (Some b, p') \<Rightarrow> (b, p') | (None, p') \<Rightarrow> (False, yp_flush_set p'))"

definition yp_check_read :: "'v ypipe \<Rightarrow> bool \<times> 'v ypipe" where
  "yp_check_read p =
     (let front = Some (yq_front (yp_queue p))
      in if front \<noteq> yp_r p \<and> yp_r p \<noteq> None then (True, p)
         else let (old, p') = yp_cas front None p
              in (\<not> (front = old \<or> old = None), p'\<lparr>yp_r := old\<rparr>))"

definition yp_take :: "nat \<Rightarrow> 'v ypipe \<Rightarrow> ('v \<times> 'v ypipe) option" where
  "yp_take n p = do {
     v \<leftarrow> cell_get (yq_front (yp_queue p)) (yq_mem (yp_queue p));
     q \<leftarrow> yq_pop n (yp_queue p);
     Some (v, p\<lparr>yp_queue := q\<rparr>) }"

definition yp_read :: "nat \<Rightarrow> 'v ypipe \<Rightarrow> ('v option \<times> 'v ypipe) option" where
  "yp_read n p =
     (case yp_check_read p of
        (False, p') \<Rightarrow> Some (None, p')
      | (True, p') \<Rightarrow> map_option (\<lambda>(v, p''). (Some v, p'')) (yp_take n p'))"

text \<open>\<open>probe\<close> asserts that there is an item.\<close>

definition yp_probe :: "('v \<Rightarrow> bool) \<Rightarrow> 'v ypipe \<Rightarrow> (bool \<times> 'v ypipe) option" where
  "yp_probe fn p =
     (case yp_check_read p of
        (False, p') \<Rightarrow> None
      | (True, p') \<Rightarrow> map_option (\<lambda>v. (fn v, p')) (cell_get (yq_front (yp_queue p')) (yq_mem (yp_queue p'))))"

section \<open>The specification\<close>

text \<open>The values the reader may take, the complete ones not flushed yet, those of an item not
  complete, and whether the reader found the pipe empty and was not woken since.\<close>

record 'v spsc =
  sq_ready :: "'v list"
  sq_complete :: "'v list"
  sq_part :: "'v list"
  sq_asleep :: bool

definition sq_write :: "'v \<Rightarrow> bool \<Rightarrow> 'v spsc \<Rightarrow> 'v spsc" where
  "sq_write v incomplete t =
     (if incomplete then t\<lparr>sq_part := sq_part t @ [v]\<rparr>
      else t\<lparr>sq_complete := sq_complete t @ sq_part t @ [v], sq_part := []\<rparr>)"

definition sq_unwrite :: "'v spsc \<Rightarrow> 'v option \<times> 'v spsc" where
  "sq_unwrite t = (if sq_part t = [] then (None, t)
     else (Some (last (sq_part t)), t\<lparr>sq_part := butlast (sq_part t)\<rparr>))"

definition sq_move :: "'v spsc \<Rightarrow> 'v spsc" where
  "sq_move t = t\<lparr>sq_ready := sq_ready t @ sq_complete t, sq_complete := [], sq_asleep := False\<rparr>"

definition sq_flush :: "'v spsc \<Rightarrow> bool \<times> 'v spsc" where
  "sq_flush t = (if sq_complete t = [] then (True, t) else (\<not> sq_asleep t, sq_move t))"

definition sq_check_read :: "'v spsc \<Rightarrow> bool \<times> 'v spsc" where
  "sq_check_read t = (if sq_ready t = [] then (False, t\<lparr>sq_asleep := True\<rparr>) else (True, t))"

definition sq_read :: "'v spsc \<Rightarrow> 'v option \<times> 'v spsc" where
  "sq_read t = (case sq_ready t of [] \<Rightarrow> (None, t\<lparr>sq_asleep := True\<rparr>)
     | v # vs \<Rightarrow> (Some v, t\<lparr>sq_ready := vs\<rparr>))"

section \<open>The pointers stand for the queue\<close>

text \<open>The cells are those of the values, in order, and the terminator \<open>z\<close>; \<open>w\<close> is the first
  cell not flushed, \<open>f\<close> the first not complete, \<open>r\<close> a cell up to \<open>w\<close>, and \<open>c\<close> is \<open>w\<close> or, when
  the reader sleeps, NULL.\<close>

definition holds :: "'v memory \<Rightarrow> cell list \<Rightarrow> 'v list \<Rightarrow> bool" where
  "holds m us vs \<longleftrightarrow> map (\<lambda>a. cell_get a m) us = map Some vs"

definition yp_sim :: "nat \<Rightarrow> 'v ypipe \<Rightarrow> 'v spsc \<Rightarrow> bool" where
  "yp_sim n p t \<longleftrightarrow> (\<exists>us vs ws z.
     yq_repr n (yp_queue p) (us @ vs @ ws @ [z]) \<and>
     holds (yq_mem (yp_queue p)) us (sq_ready t) \<and> holds (yq_mem (yp_queue p)) vs (sq_complete t) \<and>
     holds (yq_mem (yp_queue p)) ws (sq_part t) \<and>
     yp_w p = Some (hd (vs @ ws @ [z])) \<and> yp_f p = Some (hd (ws @ [z])) \<and>
     yp_c p = (if sq_asleep t then None else yp_w p) \<and> (sq_asleep t \<longrightarrow> us = []) \<and>
     (\<forall>r. yp_r p = Some r \<longrightarrow> r \<in> set (us @ [hd (vs @ ws @ [z])])))"

lemma holds_frame: "\<lbrakk>holds m us vs; \<And>a. a \<in> set us \<Longrightarrow> cell_get a m' = cell_get a m\<rbrakk> \<Longrightarrow> holds m' us vs"
  by (auto simp: holds_def cong: map_cong)

lemma holds_simps:
  "holds m [] vs \<longleftrightarrow> vs = []"
  "holds m us [] \<longleftrightarrow> us = []"
  "holds m (us @ [u]) (vs @ [v]) \<longleftrightarrow> holds m us vs \<and> cell_get u m = Some v"
  "holds m (u # us) (v # vs) \<longleftrightarrow> cell_get u m = Some v \<and> holds m us vs"
  by (auto simp: holds_def)

lemma cell_set_dom: "cell_set a v m = Some m' \<Longrightarrow> dom m' = dom m"
  by (auto simp: cell_set_def split: option.splits if_splits)

lemma yp_simI:
  "\<lbrakk>yq_repr n (yp_queue p) (us @ vs @ ws @ [z]);
    holds (yq_mem (yp_queue p)) us (sq_ready t); holds (yq_mem (yp_queue p)) vs (sq_complete t);
    holds (yq_mem (yp_queue p)) ws (sq_part t);
    yp_w p = Some (hd (vs @ ws @ [z])); yp_f p = Some (hd (ws @ [z]));
    yp_c p = (if sq_asleep t then None else yp_w p); sq_asleep t \<Longrightarrow> us = [];
    \<And>r. yp_r p = Some r \<Longrightarrow> r \<in> set (us @ [hd (vs @ ws @ [z])])\<rbrakk> \<Longrightarrow> yp_sim n p t"
  unfolding yp_sim_def by blast

lemma yp_simE:
  assumes "yp_sim n p t"
  obtains us vs ws z where "yq_repr n (yp_queue p) (us @ vs @ ws @ [z])"
    "holds (yq_mem (yp_queue p)) us (sq_ready t)" "holds (yq_mem (yp_queue p)) vs (sq_complete t)"
    "holds (yq_mem (yp_queue p)) ws (sq_part t)"
    "yp_w p = Some (hd (vs @ ws @ [z]))" "yp_f p = Some (hd (ws @ [z]))"
    "yp_c p = (if sq_asleep t then None else yp_w p)" "sq_asleep t \<Longrightarrow> us = []"
    "\<And>r. yp_r p = Some r \<Longrightarrow> r \<in> set (us @ [hd (vs @ ws @ [z])])"
    "distinct (us @ vs @ ws @ [z])"
  using assms yq_repr_distinct unfolding yp_sim_def by blast

lemma yp_new_sim:
  assumes "0 < n" "a \<noteq> b"
  obtains p where "yp_new n a b = Some (p :: 'v ypipe)"
    "yp_sim n p \<lparr>sq_ready = [], sq_complete = [], sq_part = [], sq_asleep = False\<rparr>"
proof -
  have "b \<notin> dom (yq_mem (yq_new n a :: 'v yqueue))" using assms(2) by (simp add: yq_new_def)
  from yq_push_repr [OF yq_new_repr [OF assms(1)] this]
  obtain q :: "'v yqueue" and c where q: "yq_push n b (yq_new n a) = Some q" "yq_repr n q [c]" by auto
  have "yq_back q = Some c" using yq_repr_back [of n q "[]" c] q(2) by simp
  then show thesis
    using that [of "\<lparr>yp_queue = q, yp_w = Some c, yp_r = Some c, yp_f = Some c, yp_c = Some c\<rparr>"] q
      yp_simI [of n "\<lparr>yp_queue = q, yp_w = Some c, yp_r = Some c, yp_f = Some c, yp_c = Some c\<rparr>" "[]" "[]" "[]" c]
    by (simp add: yp_new_def holds_simps)
qed

lemma yp_write_sim:
  assumes "yp_sim n p t" "a \<notin> dom (yq_mem (yp_queue p))"
  obtains p' where "yp_write n a v i p = Some p'" "yp_sim n p' (sq_write v i t)"
    "yp_r p' = yp_r p"
proof -
  from assms(1) obtain us vs ws z where
    q: "yq_repr n (yp_queue p) (us @ vs @ ws @ [z])" and
    h: "holds (yq_mem (yp_queue p)) us (sq_ready t)" "holds (yq_mem (yp_queue p)) vs (sq_complete t)"
      "holds (yq_mem (yp_queue p)) ws (sq_part t)" and
    ptr: "yp_w p = Some (hd (vs @ ws @ [z]))" "yp_f p = Some (hd (ws @ [z]))"
      "yp_c p = (if sq_asleep t then None else yp_w p)" "sq_asleep t \<Longrightarrow> us = []"
      "\<And>r. yp_r p = Some r \<Longrightarrow> r \<in> set (us @ [hd (vs @ ws @ [z])])" and
    d: "distinct (us @ vs @ ws @ [z])" by (rule yp_simE) blast
  have b: "yq_back (yp_queue p) = Some z" using yq_repr_back [of n _ "us @ vs @ ws" z] q by simp
  obtain m where m: "cell_set z v (yq_mem (yp_queue p)) = Some m"
    "yq_repr n (yp_queue p\<lparr>yq_mem := m\<rparr>) (us @ vs @ ws @ [z])" "cell_get z m = Some v"
    "\<And>b. b \<noteq> z \<Longrightarrow> cell_get b m = cell_get b (yq_mem (yp_queue p))"
    by (rule yq_store [OF q, of z v]) auto
  have "a \<notin> dom (yq_mem (yp_queue p\<lparr>yq_mem := m\<rparr>))" using assms(2) cell_set_dom [OF m(1)] by simp
  from yq_push_repr [OF m(2) this] obtain q' c where q':
    "yq_push n a (yp_queue p\<lparr>yq_mem := m\<rparr>) = Some q'" "yq_repr n q' ((us @ vs @ ws @ [z]) @ [c])"
    "\<And>b. b \<in> set (us @ vs @ ws @ [z]) \<Longrightarrow> cell_get b (yq_mem q') = cell_get b m" by auto
  have old: "cell_get b (yq_mem q') = cell_get b (yq_mem (yp_queue p))" if "b \<in> set (us @ vs @ ws)" for b
    using q'(3) [of b] m(4) [of b] that d by auto
  have z: "cell_get z (yq_mem q') = Some v" using q'(3) [of z] m(3) by simp
  have hs: "holds (yq_mem q') us (sq_ready t)" "holds (yq_mem q') vs (sq_complete t)" "holds (yq_mem q') ws (sq_part t)"
    using h old by (auto intro: holds_frame)
  have all: "holds (yq_mem q') (vs @ ws @ [z]) (sq_complete t @ sq_part t @ [v])"
    "holds (yq_mem q') (ws @ [z]) (sq_part t @ [v])" using hs z by (auto simp: holds_def)
  let ?p = "p\<lparr>yp_queue := q', yp_f := if i then yp_f p else yq_back q'\<rparr>"
  have bk: "yq_back q' = Some c" by (rule yq_repr_back [OF q'(2)])
  have "yp_sim n ?p (sq_write v i t)"
  proof (cases i)
    case True
    show ?thesis
      by (rule yp_simI [of n _ us vs "ws @ [z]" c])
        (use q'(2) hs all ptr True in \<open>auto simp: sq_write_def hd_append\<close>)
  next
    case False
    show ?thesis
      by (rule yp_simI [of n _ us "vs @ ws @ [z]" "[]" c])
        (use q'(2) hs all ptr False bk in \<open>auto simp: sq_write_def holds_simps hd_append\<close>)
  qed
  then show thesis using that [of ?p] b m(1) q'(1) by (simp add: yp_write_def)
qed

lemma yp_unwrite_sim:
  assumes "yp_sim n p t"
  obtains p' where "yp_unwrite n p = Some (fst (sq_unwrite t), p')" "yp_sim n p' (snd (sq_unwrite t))"
proof -
  from assms obtain us vs ws z where
    q: "yq_repr n (yp_queue p) (us @ vs @ ws @ [z])" and
    h: "holds (yq_mem (yp_queue p)) us (sq_ready t)" "holds (yq_mem (yp_queue p)) vs (sq_complete t)"
      "holds (yq_mem (yp_queue p)) ws (sq_part t)" and
    ptr: "yp_w p = Some (hd (vs @ ws @ [z]))" "yp_f p = Some (hd (ws @ [z]))"
      "yp_c p = (if sq_asleep t then None else yp_w p)" "sq_asleep t \<Longrightarrow> us = []"
      "\<And>r. yp_r p = Some r \<Longrightarrow> r \<in> set (us @ [hd (vs @ ws @ [z])])" and
    d: "distinct (us @ vs @ ws @ [z])" by (rule yp_simE) blast
  have b: "yq_back (yp_queue p) = Some z" using yq_repr_back [of n _ "us @ vs @ ws" z] q by simp
  show thesis
  proof (cases ws rule: rev_cases)
    case Nil
    then have "sq_part t = []" using h(3) by (simp add: holds_simps)
    then show thesis using that [of p] Nil b ptr(2) assms by (simp add: yp_unwrite_def sq_unwrite_def)
  next
    case (snoc ws' y)
    then obtain xs v where part: "sq_part t = xs @ [v]"
      using h(3) by (cases "sq_part t" rule: rev_cases) (auto simp: holds_simps)
    then have hw: "holds (yq_mem (yp_queue p)) ws' xs" "cell_get y (yq_mem (yp_queue p)) = Some v"
      using h(3) snoc by (auto simp: holds_simps)
    have ne: "yp_f p \<noteq> yq_back (yp_queue p)" using ptr(2) b d snoc by (cases ws') auto
    obtain q' where q': "yq_unpush n (yp_queue p) = Some q'" "yq_repr n q' ((us @ vs @ ws') @ [y])"
      "\<And>b. b \<in> set ((us @ vs @ ws') @ [y]) \<Longrightarrow> cell_get b (yq_mem q') = cell_get b (yq_mem (yp_queue p))"
      by (rule yq_unpush_repr [of n "yp_queue p" "us @ vs @ ws'" y z]) (use q snoc in auto)
    have bk: "yq_back q' = Some y" by (rule yq_repr_back [OF q'(2)])
    have y: "cell_get y (yq_mem q') = Some v" using q'(3) hw by simp
    have hs: "holds (yq_mem q') us (sq_ready t)" "holds (yq_mem q') vs (sq_complete t)" "holds (yq_mem q') ws' xs"
      using h(1,2) hw(1) q'(3) by (auto intro: holds_frame)
    have "yp_sim n (p\<lparr>yp_queue := q'\<rparr>) (snd (sq_unwrite t))"
      by (rule yp_simI [of n _ us vs ws' y])
        (use q'(2) hs ptr part snoc in \<open>auto simp: sq_unwrite_def hd_append\<close>)
    then show thesis
      using that [of "p\<lparr>yp_queue := q'\<rparr>"] ne q'(1) bk y part
      by (simp add: yp_unwrite_def sq_unwrite_def)
  qed
qed
lemma yp_flush_set_sim:
  assumes "yp_sim n p t"
  shows "yp_sim n (yp_flush_set p) (sq_move t)"
proof -
  from assms obtain us vs ws z where
    q: "yq_repr n (yp_queue p) (us @ vs @ ws @ [z])" and
    h: "holds (yq_mem (yp_queue p)) us (sq_ready t)" "holds (yq_mem (yp_queue p)) vs (sq_complete t)"
      "holds (yq_mem (yp_queue p)) ws (sq_part t)" and
    ptr: "yp_f p = Some (hd (ws @ [z]))" "\<And>r. yp_r p = Some r \<Longrightarrow> r \<in> set (us @ [hd (vs @ ws @ [z])])"
    by (rule yp_simE) blast
  show ?thesis
    by (rule yp_simI [of n _ "us @ vs" "[]" ws z])
      (use q h ptr in \<open>auto simp: yp_flush_set_def sq_move_def holds_simps hd_append holds_def\<close>)
qed

lemma yp_flush_cas_sim:
  assumes "yp_sim n p t"
  shows "yp_flush_cas p =
    (if sq_complete t = [] then (Some True, p) else if sq_asleep t then (None, p)
     else (Some True, yp_flush_set p))"
proof -
  from assms obtain us vs ws z where
    h: "holds (yq_mem (yp_queue p)) vs (sq_complete t)" and
    ptr: "yp_w p = Some (hd (vs @ ws @ [z]))" "yp_f p = Some (hd (ws @ [z]))"
      "yp_c p = (if sq_asleep t then None else yp_w p)" and
    d: "distinct (us @ vs @ ws @ [z])" by (rule yp_simE) blast
  show ?thesis
  proof (cases vs)
    case Nil
    then show ?thesis using h ptr by (simp add: yp_flush_cas_def holds_simps)
  next
    case (Cons a as)
    then have "yp_w p \<noteq> yp_f p" "sq_complete t \<noteq> []" using ptr d h by (cases ws; auto simp: holds_simps)+
    then show ?thesis using ptr by (simp add: yp_flush_cas_def yp_cas_def yp_flush_set_def)
  qed
qed

lemma yp_flush_sim:
  assumes "yp_sim n p t"
  shows "fst (yp_flush p) = fst (sq_flush t) \<and> yp_sim n (snd (yp_flush p)) (snd (sq_flush t))"
  using yp_flush_cas_sim [OF assms] yp_flush_set_sim [OF assms] assms
  by (simp add: yp_flush_def sq_flush_def)

lemma yp_front_sim:
  assumes "yp_sim n p t"
  obtains us xs where "yq_front (yp_queue p) = hd (us @ xs)" "xs \<noteq> []" "us = [] \<longleftrightarrow> sq_ready t = []"
    "yp_w p = Some (hd xs)" "hd xs \<notin> set us" "\<And>r. yp_r p = Some r \<Longrightarrow> r \<in> set (us @ [hd xs])"
  using assms
proof (rule yp_simE)
  fix us vs ws z
  assume q: "yq_repr n (yp_queue p) (us @ vs @ ws @ [z])" and d: "distinct (us @ vs @ ws @ [z])"
    and h: "holds (yq_mem (yp_queue p)) us (sq_ready t)"
    and ptr: "yp_w p = Some (hd (vs @ ws @ [z]))" "\<And>r. yp_r p = Some r \<Longrightarrow> r \<in> set (us @ [hd (vs @ ws @ [z])])"
  have "yq_front (yp_queue p) = hd (us @ vs @ ws @ [z])"
    by (rule yq_repr_front [of n _ _ "tl (us @ vs @ ws @ [z])"]) (use q in simp)
  moreover have "hd (vs @ ws @ [z]) \<notin> set us"
    using d list.set_sel(1) [of "vs @ ws @ [z]"] by auto
  moreover have "us = [] \<longleftrightarrow> sq_ready t = []" using h by (auto simp: holds_simps)
  ultimately show thesis using that [of us "vs @ ws @ [z]"] ptr by simp
qed

text \<open>The specification of the check and the pointers only differ in \<open>c\<close> and \<open>r\<close>.\<close>

lemma yp_check_read_sim:
  assumes sim: "yp_sim n p t"
  shows "fst (yp_check_read p) = fst (sq_check_read t) \<and>
    yp_sim n (snd (yp_check_read p)) (snd (sq_check_read t))"
proof -
  from sim obtain us vs ws z where
    q: "yq_repr n (yp_queue p) (us @ vs @ ws @ [z])" and
    h: "holds (yq_mem (yp_queue p)) us (sq_ready t)" "holds (yq_mem (yp_queue p)) vs (sq_complete t)"
      "holds (yq_mem (yp_queue p)) ws (sq_part t)" and
    ptr: "yp_w p = Some (hd (vs @ ws @ [z]))" "yp_f p = Some (hd (ws @ [z]))"
      "yp_c p = (if sq_asleep t then None else yp_w p)" "sq_asleep t \<Longrightarrow> us = []"
      "\<And>r. yp_r p = Some r \<Longrightarrow> r \<in> set (us @ [hd (vs @ ws @ [z])])" and
    d: "distinct (us @ vs @ ws @ [z])" by (rule yp_simE) blast
  have front: "yq_front (yp_queue p) = hd (us @ vs @ ws @ [z])"
    by (rule yq_repr_front [of n _ _ "tl (us @ vs @ ws @ [z])"]) (use q in simp)
  show ?thesis
  proof (cases us)
    case Nil
    then have "sq_ready t = []" using h(1) by (simp add: holds_simps)
    moreover have "fst (yp_check_read p) = False \<and> yp_c (snd (yp_check_read p)) = None"
      using ptr front Nil by (cases "yp_r p") (auto simp: yp_check_read_def yp_cas_def Let_def)
    moreover have "yp_r (snd (yp_check_read p)) = None \<or> yp_r (snd (yp_check_read p)) = yp_w p"
      "yp_queue (snd (yp_check_read p)) = yp_queue p" "yp_w (snd (yp_check_read p)) = yp_w p"
      "yp_f (snd (yp_check_read p)) = yp_f p"
      using ptr front Nil by (cases "yp_r p"; auto simp: yp_check_read_def yp_cas_def Let_def)+
    ultimately show ?thesis
      using yp_simI [of n "snd (yp_check_read p)" us vs ws z "t\<lparr>sq_asleep := True\<rparr>"] q h ptr Nil
      by (auto simp: sq_check_read_def)
  next
    case (Cons u us')
    then have r: "sq_ready t \<noteq> []" "\<not> sq_asleep t" using h(1) ptr(4) by (auto simp: holds_simps)
    have ne: "hd (vs @ ws @ [z]) \<noteq> u" using d Cons list.set_sel(1) [of "vs @ ws @ [z]"] by auto
    then have "yp_check_read p = (True, if yp_r p \<noteq> Some u \<and> yp_r p \<noteq> None then p else p\<lparr>yp_r := yp_w p\<rparr>)"
      using ptr(1,3) front Cons r(2) by (auto simp: yp_check_read_def yp_cas_def)
    moreover have "yp_sim n (p\<lparr>yp_r := yp_w p\<rparr>) t"
      by (rule yp_simI [of n _ us vs ws z]) (use q h ptr in auto)
    ultimately show ?thesis using r sim by (simp add: sq_check_read_def)
  qed
qed

text \<open>A check that succeeds leaves \<open>r\<close> beyond the front, so that an item may be taken.\<close>

definition yp_found :: "'v ypipe \<Rightarrow> bool" where
  "yp_found p \<longleftrightarrow> yp_r p \<noteq> None \<and> yp_r p \<noteq> Some (yq_front (yp_queue p))"

lemma yp_check_read_found: "yp_check_read p = (True, p') \<Longrightarrow> yp_found p'"
  by (auto simp: yp_check_read_def yp_cas_def yp_found_def Let_def split: if_splits)

lemma yp_found_ready: "\<lbrakk>yp_sim n p t; yp_found p\<rbrakk> \<Longrightarrow> sq_ready t \<noteq> []"
  by (erule yp_front_sim) (auto simp: yp_found_def)

lemma yp_take_sim:
  assumes sim: "yp_sim n p t" and found: "yp_found p"
  obtains v vs p' where "sq_ready t = v # vs" "yp_take n p = Some (v, p')" "yp_sim n p' (t\<lparr>sq_ready := vs\<rparr>)"
proof -
  from sim obtain us vs ws z where
    q: "yq_repr n (yp_queue p) (us @ vs @ ws @ [z])" and
    h: "holds (yq_mem (yp_queue p)) us (sq_ready t)" "holds (yq_mem (yp_queue p)) vs (sq_complete t)"
      "holds (yq_mem (yp_queue p)) ws (sq_part t)" and
    ptr: "yp_w p = Some (hd (vs @ ws @ [z]))" "yp_f p = Some (hd (ws @ [z]))"
      "yp_c p = (if sq_asleep t then None else yp_w p)" "sq_asleep t \<Longrightarrow> us = []"
      "\<And>r. yp_r p = Some r \<Longrightarrow> r \<in> set (us @ [hd (vs @ ws @ [z])])" by (rule yp_simE) blast
  obtain x xs where ready: "sq_ready t = x # xs" using yp_found_ready [OF sim found] by (cases "sq_ready t") auto
  then obtain u us' where us: "us = u # us'" using h(1) by (cases us) (auto simp: holds_simps)
  have front: "yq_front (yp_queue p) = u" using yq_repr_front [of n _ u] q us by auto
  have x: "cell_get u (yq_mem (yp_queue p)) = Some x" "holds (yq_mem (yp_queue p)) us' xs"
    using h(1) us ready by (auto simp: holds_simps)
  obtain y ys where ys: "us' @ vs @ ws @ [z] = y # ys" by (cases "us' @ vs @ ws @ [z]") auto
  obtain q' where q': "yq_pop n (yp_queue p) = Some q'" "yq_repr n q' (us' @ vs @ ws @ [z])"
    "\<And>b. b \<in> set (us' @ vs @ ws @ [z]) \<Longrightarrow> cell_get b (yq_mem q') = cell_get b (yq_mem (yp_queue p))"
    by (rule yq_pop_repr [of n "yp_queue p" u y ys]) (use q us ys in auto)
  have hs: "holds (yq_mem q') us' xs" "holds (yq_mem q') vs (sq_complete t)" "holds (yq_mem q') ws (sq_part t)"
    using h(2,3) x(2) q'(3) by (auto intro: holds_frame)
  have "yp_sim n (p\<lparr>yp_queue := q'\<rparr>) (t\<lparr>sq_ready := xs\<rparr>)"
    by (rule yp_simI [of n _ us' vs ws z])
      (use q'(2) hs ptr us found front in \<open>auto simp: yp_found_def\<close>)
  then show thesis using that [of x xs] ready x(1) front q'(1) by (simp add: yp_take_def)
qed

lemma yp_read_sim:
  assumes sim: "yp_sim n p t"
  obtains p' where "yp_read n p = Some (fst (sq_read t), p')" "yp_sim n p' (snd (sq_read t))"
proof (cases "yp_check_read p")
  case (Pair b p1)
  have c: "b = fst (sq_check_read t)" "yp_sim n p1 (snd (sq_check_read t))"
    using yp_check_read_sim [OF sim] Pair by auto
  show thesis
  proof (cases b)
    case True
    then have "yp_sim n p1 t" "yp_found p1" using c Pair yp_check_read_found
      by (auto simp: sq_check_read_def split: if_splits)
    then show thesis
      by (rule yp_take_sim) (use that Pair True in \<open>simp add: yp_read_def sq_read_def\<close>)
  next
    case False
    then show thesis using that [of p1] Pair c
      by (auto simp: yp_read_def sq_read_def sq_check_read_def split: if_splits)
  qed
qed
section \<open>Two threads\<close>

text \<open>The steps of the writer and of the reader, and what they answer. Between two of them lies at
  most one access to what the threads share. \<open>Flush\<close> answers \<open>Sleeping\<close> where the
  compare-and-swap failed; then the writer's next step is \<open>Wake\<close>, and the whole call returns
  false.\<close>

datatype 'v yp_act = Put addr 'v bool | Unput | Flush | Wake | Check | Take

datatype 'v yp_res = Finished | Said bool | Sleeping | Gave "'v option"

definition yp_enabled :: "'v yp_act \<Rightarrow> 'v ypipe \<times> bool \<Rightarrow> bool" where
  "yp_enabled x s = (case x of
       Put a v i \<Rightarrow> \<not> snd s \<and> a \<notin> dom (yq_mem (yp_queue (fst s)))
     | Unput \<Rightarrow> \<not> snd s
     | Flush \<Rightarrow> \<not> snd s
     | Wake \<Rightarrow> snd s
     | Check \<Rightarrow> True
     | Take \<Rightarrow> yp_found (fst s))"

definition yp_step :: "nat \<Rightarrow> 'v yp_act \<Rightarrow> 'v ypipe \<times> bool \<Rightarrow> ('v yp_res \<times> 'v ypipe \<times> bool) option" where
  "yp_step n x s = (case x of
       Put a v i \<Rightarrow> map_option (\<lambda>p. (Finished, p, snd s)) (yp_write n a v i (fst s))
     | Unput \<Rightarrow> map_option (\<lambda>(v, p). (Gave v, p, snd s)) (yp_unwrite n (fst s))
     | Flush \<Rightarrow> (case yp_flush_cas (fst s) of
           (Some b, p) \<Rightarrow> Some (Said b, p, False) | (None, p) \<Rightarrow> Some (Sleeping, p, True))
     | Wake \<Rightarrow> Some (Said False, yp_flush_set (fst s), False)
     | Check \<Rightarrow> (case yp_check_read (fst s) of (b, p) \<Rightarrow> Some (Said b, p, snd s))
     | Take \<Rightarrow> map_option (\<lambda>(v, p). (Gave (Some v), p, snd s)) (yp_take n (fst s)))"

text \<open>A trace has its last step first.\<close>

inductive yp_reach :: "nat \<Rightarrow> 'v ypipe \<times> bool \<Rightarrow> ('v yp_act \<times> 'v yp_res) list \<Rightarrow> bool" where
  yp_start: "\<lbrakk>yp_new n a b = Some p; 0 < n; a \<noteq> b\<rbrakk> \<Longrightarrow> yp_reach n (p, False) []"
| yp_next: "\<lbrakk>yp_reach n s tr; yp_enabled x s; yp_step n x s = Some (y, s')\<rbrakk> \<Longrightarrow> yp_reach n s' ((x, y) # tr)"

definition sq_new :: "'v spsc" where
  "sq_new = \<lparr>sq_ready = [], sq_complete = [], sq_part = [], sq_asleep = False\<rparr>"

definition sq_step :: "'v yp_act \<Rightarrow> 'v spsc \<Rightarrow> 'v yp_res \<times> 'v spsc" where
  "sq_step x t = (case x of
       Put a v i \<Rightarrow> (Finished, sq_write v i t)
     | Unput \<Rightarrow> apfst Gave (sq_unwrite t)
     | Flush \<Rightarrow> if sq_complete t \<noteq> [] \<and> sq_asleep t then (Sleeping, t) else apfst Said (sq_flush t)
     | Wake \<Rightarrow> (Said False, sq_move t)
     | Check \<Rightarrow> apfst Said (sq_check_read t)
     | Take \<Rightarrow> apfst Gave (sq_read t))"

text \<open>The queue of the specification taken through a trace, as long as it gives the same answers.\<close>

fun sq_replay :: "('v yp_act \<times> 'v yp_res) list \<Rightarrow> 'v spsc option" where
  "sq_replay [] = Some sq_new"
| "sq_replay ((x, y) # tr) =
     (case sq_replay tr of None \<Rightarrow> None
      | Some t \<Rightarrow> if fst (sq_step x t) = y then Some (snd (sq_step x t)) else None)"

definition yp_sim_run :: "nat \<Rightarrow> 'v ypipe \<times> bool \<Rightarrow> 'v spsc \<Rightarrow> bool" where
  "yp_sim_run n s t \<longleftrightarrow> yp_sim n (fst s) t \<and> (snd s \<longrightarrow> sq_asleep t \<and> sq_complete t \<noteq> [])"

lemma yp_step_sim:
  assumes sim: "yp_sim_run n s t" and en: "yp_enabled x s"
  obtains s' where "yp_step n x s = Some (fst (sq_step x t), s')" "yp_sim_run n s' (snd (sq_step x t))"
proof -
  have p: "yp_sim n (fst s) t" and w: "snd s \<Longrightarrow> sq_asleep t \<and> sq_complete t \<noteq> []"
    using sim by (auto simp: yp_sim_run_def)
  show thesis
  proof (cases x)
    case (Put a v i)
    then have "a \<notin> dom (yq_mem (yp_queue (fst s)))" "\<not> snd s" using en by (auto simp: yp_enabled_def)
    then show thesis
      by - (rule yp_write_sim [OF p, of a v i], use that Put in \<open>auto simp: yp_step_def sq_step_def yp_sim_run_def\<close>)
  next
    case Unput
    then have "\<not> snd s" using en by (auto simp: yp_enabled_def)
    then show thesis
      by - (rule yp_unwrite_sim [OF p], use that Unput in \<open>auto simp: yp_step_def sq_step_def yp_sim_run_def\<close>)
  next
    case Flush
    note defs = yp_step_def sq_step_def yp_sim_run_def sq_flush_def yp_flush_cas_sim [OF p]
    consider "sq_complete t = []" | "sq_complete t \<noteq> []" "sq_asleep t" | "sq_complete t \<noteq> []" "\<not> sq_asleep t"
      by blast
    then show thesis
    proof cases
      case 1
      then show thesis using that [of "(fst s, False)"] Flush p by (simp add: defs)
    next
      case 2
      then show thesis using that [of "(fst s, True)"] Flush p by (simp add: defs)
    next
      case 3
      then show thesis
        using that [of "(yp_flush_set (fst s), False)"] Flush yp_flush_set_sim [OF p] by (simp add: defs)
    qed
  next
    case Wake
    then show thesis using that yp_flush_set_sim [OF p] by (auto simp: yp_step_def sq_step_def yp_sim_run_def)
  next
    case Check
    have "yp_sim_run n (snd (yp_check_read (fst s)), snd s) (snd (sq_check_read t))"
      using yp_check_read_sim [OF p] w by (auto simp: yp_sim_run_def sq_check_read_def)
    then show thesis
      using that [of "(snd (yp_check_read (fst s)), snd s)"] yp_check_read_sim [OF p] Check
      by (simp add: yp_step_def sq_step_def case_prod_beta)
  next
    case Take
    then have "yp_found (fst s)" using en by (simp add: yp_enabled_def)
    then show thesis
      by - (rule yp_take_sim [OF p], assumption,
        use that Take w in \<open>auto simp: yp_step_def sq_step_def yp_sim_run_def sq_read_def\<close>)
  qed
qed

lemma yp_reach_replay:
  fixes s :: "'v ypipe \<times> bool"
  shows "yp_reach n s tr \<Longrightarrow> \<exists>t. sq_replay tr = Some t \<and> yp_sim_run n s t"
proof (induction rule: yp_reach.induct)
  case (yp_start n a b p)
  from yp_start(2,3) obtain p' where "yp_new n a b = Some (p' :: 'v ypipe)" "yp_sim n p' sq_new"
    unfolding sq_new_def by (rule yp_new_sim)
  then show ?case using yp_start(1) by (simp add: yp_sim_run_def)
next
  case (yp_next n s tr x y s')
  then obtain t where t: "sq_replay tr = Some t" "yp_sim_run n s t" by blast
  obtain r where "yp_step n x s = Some (fst (sq_step x t), r)" "yp_sim_run n r (snd (sq_step x t))"
    by (rule yp_step_sim [OF t(2) yp_next.hyps(2)])
  then show ?case using t(1) yp_next.hyps(3) by simp
qed

section \<open>What the threads see\<close>

text \<open>What a trace says of the pipe: the items put and not taken back, how many of them were
  complete and how many flushed, the items taken, and whether the reader found nothing since it
  was last woken.\<close>

fun items_put :: "('v yp_act \<times> 'v yp_res) list \<Rightarrow> 'v list" where
  "items_put [] = []"
| "items_put ((x, y) # tr) = (case (x, y) of
       (Put a v i, _) \<Rightarrow> items_put tr @ [v]
     | (Unput, Gave (Some v)) \<Rightarrow> butlast (items_put tr)
     | _ \<Rightarrow> items_put tr)"

fun count_complete :: "('v yp_act \<times> 'v yp_res) list \<Rightarrow> nat" where
  "count_complete [] = 0"
| "count_complete ((x, y) # tr) = (case x of
       Put a v i \<Rightarrow> if i then count_complete tr else Suc (length (items_put tr))
     | _ \<Rightarrow> count_complete tr)"

fun count_flushed :: "('v yp_act \<times> 'v yp_res) list \<Rightarrow> nat" where
  "count_flushed [] = 0"
| "count_flushed ((x, y) # tr) = (case (x, y) of
       (Flush, Said b) \<Rightarrow> count_complete tr
     | (Wake, _) \<Rightarrow> count_complete tr
     | _ \<Rightarrow> count_flushed tr)"

fun items_taken :: "('v yp_act \<times> 'v yp_res) list \<Rightarrow> 'v list" where
  "items_taken [] = []"
| "items_taken ((x, y) # tr) = (case (x, y) of
       (Take, Gave (Some v)) \<Rightarrow> items_taken tr @ [v]
     | _ \<Rightarrow> items_taken tr)"

fun reader_sleeps :: "('v yp_act \<times> 'v yp_res) list \<Rightarrow> bool" where
  "reader_sleeps [] = False"
| "reader_sleeps ((x, y) # tr) = (case (x, y) of
       (Check, Said b) \<Rightarrow> reader_sleeps tr \<or> \<not> b
     | (Take, Gave None) \<Rightarrow> True
     | (Wake, _) \<Rightarrow> False
     | _ \<Rightarrow> reader_sleeps tr)"

definition sq_tells :: "('v yp_act \<times> 'v yp_res) list \<Rightarrow> 'v spsc \<Rightarrow> bool" where
  "sq_tells tr t \<longleftrightarrow>
     items_put tr = items_taken tr @ sq_ready t @ sq_complete t @ sq_part t \<and>
     count_flushed tr = length (items_taken tr) + length (sq_ready t) \<and>
     count_complete tr = count_flushed tr + length (sq_complete t) \<and>
     reader_sleeps tr = sq_asleep t \<and> (sq_asleep t \<longrightarrow> sq_ready t = [])"

lemma sq_replay_tells: "sq_replay tr = Some t \<Longrightarrow> sq_tells tr t"
proof (induction tr arbitrary: t)
  case Nil
  then show ?case by (auto simp: sq_tells_def sq_new_def)
next
  case (Cons e tr)
  obtain x y where e: "e = (x, y)" by (cases e)
  from Cons.prems obtain t0 where t0: "sq_replay tr = Some t0" "y = fst (sq_step x t0)" "t = snd (sq_step x t0)"
    by (auto simp: e split: option.splits if_splits)
  note defs = sq_tells_def sq_step_def e t0(2,3) sq_write_def sq_unwrite_def sq_flush_def sq_move_def
    sq_check_read_def sq_read_def
  show ?case using Cons.IH [OF t0(1)]
    by (cases x) (auto simp: defs butlast_append split: list.splits)
qed

end
