(* ===== verification/ZmqChannel.thy ===== *)
theory ZmqChannel
  imports ZmqYpipe ZmqPub
begin

text \<open>
  One direction of a pair of pipes (\<open>3rd/zeromq/src/pipe.cpp\<close>, \<open>pipepair\<close>): the writing end and
  the reading end are the pipes of \<open>ZmqPipe\<close>, joined by one queue and by the commands each sends
  the other. The writing end's view of the queue is the specification of \<open>ypipe\<close>; the reading
  end works on the part of it that was flushed. The invariant is the flow control: no more than
  the high water mark is under way, a reader that sleeps is woken by the next flush, and a
  writer that was refused is told when there is room again.
\<close>

section \<open>A pipe writes into the queue of ypipe\<close>

definition queue_of :: "pipe_t \<Rightarrow> msg_t spsc" where
  "queue_of p = \<lparr>sq_ready = p_out p, sq_complete = p_ready p, sq_part = p_part p, sq_asleep = p_peer_asleep p\<rparr>"

lemma pipe_check_write_queue: "queue_of (snd (pipe_check_write p)) = queue_of p"
  by (auto simp: pipe_check_write_def queue_of_def)

lemma pipe_write_queue:
  "queue_of (snd (pipe_write m p)) =
     (if fst (pipe_write m p) then sq_write m (m_more m) (queue_of p) else queue_of p)"
  by (auto simp: pipe_write_def pipe_check_write_def queue_of_def sq_write_def Let_def split: prod.split)

lemma pipe_flush_queue:
  assumes "p_state p \<noteq> term_ack_sent"
  shows "queue_of (pipe_flush p) = snd (sq_flush (queue_of p))"
    and "p_cmds (pipe_flush p) = p_cmds p @ (if fst (sq_flush (queue_of p)) then [] else [Activate_Read])"
  using assms by (auto simp: pipe_flush_def sq_flush_def sq_move_def queue_of_def Let_def)

text \<open>\<open>rollback\<close> takes back until nothing is left of the incomplete item.\<close>

fun sq_rollback :: "nat \<Rightarrow> 'v spsc \<Rightarrow> 'v spsc" where
  "sq_rollback 0 t = t"
| "sq_rollback (Suc k) t = (case sq_unwrite t of (None, t') \<Rightarrow> t' | (Some v, t') \<Rightarrow> sq_rollback k t')"

lemma pipe_rollback_queue:
  "length (p_part p) \<le> k \<Longrightarrow> queue_of (pipe_rollback p) = sq_rollback k (queue_of p)"
proof (induction k arbitrary: p)
  case 0
  then show ?case by (simp add: pipe_rollback_def queue_of_def)
next
  case (Suc k)
  show ?case
  proof (cases "p_part p = []")
    case True
    then show ?thesis by (simp add: pipe_rollback_def queue_of_def sq_unwrite_def)
  next
    case False
    then show ?thesis using Suc.IH [of "p\<lparr>p_part := butlast (p_part p)\<rparr>"] Suc.prems
      by (simp add: pipe_rollback_def queue_of_def sq_unwrite_def)
  qed
qed

section \<open>The pair\<close>

text \<open>The queue is kept at the writing end; commands are in the order they were sent.\<close>

record channel =
  ch_w :: pipe_t
  ch_r :: pipe_t
  ch_to_r :: "pipe_cmd list"
  ch_to_w :: "pipe_cmd list"

definition pipepair :: "int \<Rightarrow> int \<Rightarrow> channel" where
  "pipepair hwm0 hwm1 =
     \<lparr>ch_w = new_pipe hwm1 hwm0, ch_r = new_pipe hwm0 hwm1, ch_to_r = [], ch_to_w = []\<rparr>"

datatype channel_act = Ch_Write msg_t | Ch_Flush | Ch_Rollback | Ch_Check | Ch_Read
  | Ch_Wake_Reader | Ch_Wake_Writer

definition writing :: "pipe_t \<Rightarrow> channel \<Rightarrow> channel" where
  "writing w c = c\<lparr>ch_w := w\<lparr>p_cmds := []\<rparr>, ch_to_r := ch_to_r c @ p_cmds w\<rparr>"

definition reader_view :: "channel \<Rightarrow> pipe_t" where
  "reader_view c = (ch_r c)\<lparr>p_in := p_out (ch_w c)\<rparr>"

text \<open>A reader that turns inactive left NULL in the shared pointer.\<close>

definition reading :: "pipe_t \<Rightarrow> channel \<Rightarrow> channel" where
  "reading r c = c\<lparr>ch_r := r\<lparr>p_in := [], p_cmds := []\<rparr>, ch_to_w := ch_to_w c @ p_cmds r,
     ch_w := (ch_w c)\<lparr>p_out := p_in r,
       p_peer_asleep := p_peer_asleep (ch_w c) \<or> (p_in_active (ch_r c) \<and> \<not> p_in_active r)\<rparr>\<rparr>"

definition channel_step :: "channel_act \<Rightarrow> channel \<Rightarrow> channel" where
  "channel_step x c = (case x of
       Ch_Write m \<Rightarrow> writing (snd (pipe_write m (ch_w c))) c
     | Ch_Flush \<Rightarrow> writing (pipe_flush (ch_w c)) c
     | Ch_Rollback \<Rightarrow> writing (pipe_rollback (ch_w c)) c
     | Ch_Check \<Rightarrow> reading (snd (pipe_check_read (reader_view c))) c
     | Ch_Read \<Rightarrow> reading (snd (pipe_read (reader_view c))) c
     | Ch_Wake_Reader \<Rightarrow> (case ch_to_r c of
           Activate_Read # cs \<Rightarrow> c\<lparr>ch_r := snd (process_activate_read (ch_r c)), ch_to_r := cs\<rparr>
         | _ \<Rightarrow> c)
     | Ch_Wake_Writer \<Rightarrow> (case ch_to_w c of
           Activate_Write n # cs \<Rightarrow> c\<lparr>ch_w := snd (process_activate_write n (ch_w c)), ch_to_w := cs\<rparr>
         | _ \<Rightarrow> c))"

definition channel_run :: "channel_act list \<Rightarrow> channel \<Rightarrow> channel" where
  "channel_run xs c = fold channel_step xs c"

section \<open>The invariant\<close>

definition counts :: "msg_t list \<Rightarrow> nat" where
  "counts ms = length (filter (\<lambda>m. \<not> m_more m \<and> m_kind m \<noteq> Routing_Id) ms)"

lemma counts_simps [simp]:
  "counts [] = 0" "counts (ms @ ms') = counts ms + counts ms'"
  "counts (m # ms) = (if \<not> m_more m \<and> m_kind m \<noteq> Routing_Id then Suc (counts ms) else counts ms)"
  by (simp_all add: counts_def)

definition ordinary :: "msg_t \<Rightarrow> bool" where
  "ordinary m \<longleftrightarrow> m_kind m \<noteq> Delimiter \<and> m_kind m \<noteq> Credential"

definition ordinary_act :: "channel_act \<Rightarrow> bool" where
  "ordinary_act x = (case x of Ch_Write m \<Rightarrow> ordinary m | _ \<Rightarrow> True)"

text \<open>All of the queue, whether flushed or not.\<close>

definition in_flight :: "channel \<Rightarrow> msg_t list" where
  "in_flight c = p_out (ch_w c) @ p_ready (ch_w c) @ p_part (ch_w c)"

definition quiet_ends :: "int \<Rightarrow> channel \<Rightarrow> bool" where
  "quiet_ends h c \<longleftrightarrow> p_state (ch_w c) = active \<and> p_state (ch_r c) = active \<and> p_hwm (ch_w c) = h \<and>
     p_lwm (ch_r c) = compute_lwm h \<and> p_cmds (ch_w c) = [] \<and> p_cmds (ch_r c) = [] \<and>
     p_in (ch_r c) = [] \<and>
     (\<forall>m \<in> set (in_flight c). ordinary m) \<and> (\<forall>m \<in> set (p_part (ch_w c)). m_more m)"

definition wake_ok :: "channel \<Rightarrow> bool" where
  "wake_ok c \<longleftrightarrow>
     ch_to_r c = (if p_in_active (ch_r c) \<or> p_peer_asleep (ch_w c) then [] else [Activate_Read]) \<and>
     (p_peer_asleep (ch_w c) \<longrightarrow> \<not> p_in_active (ch_r c) \<and> p_out (ch_w c) = [])"

text \<open>\<open>W\<close>, \<open>R\<close> and \<open>P\<close> are the counts of messages written, read and known to the writer to be
  read; \<open>ns\<close> are the counts on their way to the writer.\<close>

definition flow_ok :: "int \<Rightarrow> nat \<Rightarrow> nat \<Rightarrow> nat \<Rightarrow> nat list \<Rightarrow> channel \<Rightarrow> bool" where
  "flow_ok h W R P ns c \<longleftrightarrow>
     p_msgs_written (ch_w c) = of_nat W \<and> p_msgs_read (ch_r c) = of_nat R \<and>
     p_peers_msgs_read (ch_w c) = of_nat P \<and> ch_to_w c = map (\<lambda>n. Activate_Write (of_nat n)) ns \<and>
     W = R + counts (in_flight c) \<and> sorted (P # ns) \<and> (\<forall>n \<in> set (P # ns). n \<le> R) \<and>
     (0 < h \<longrightarrow> last (P # ns) = R div nat (compute_lwm h) * nat (compute_lwm h) \<and> int W - int P \<le> h \<and>
        (\<not> p_out_active (ch_w c) \<longrightarrow> h \<le> int W - int P)) \<and>
     (h \<le> 0 \<longrightarrow> p_out_active (ch_w c))"

definition channel_ok :: "int \<Rightarrow> nat \<Rightarrow> channel \<Rightarrow> bool" where
  "channel_ok h k c \<longleftrightarrow> quiet_ends h c \<and> wake_ok c \<and> (\<exists>W R P ns. W \<le> k \<and> flow_ok h W R P ns c)"

lemma channel_okI: "\<lbrakk>quiet_ends h c; wake_ok c; flow_ok h W R P ns c; W \<le> k\<rbrakk> \<Longrightarrow> channel_ok h k c"
  by (auto simp: channel_ok_def)

lemma channel_okE:
  assumes "channel_ok h k c"
  obtains W R P ns where "quiet_ends h c" "wake_ok c" "W \<le> k" "flow_ok h W R P ns c"
  using assms by (auto simp: channel_ok_def)

lemma pipepair_ok: "channel_ok h0 0 (pipepair h0 h1)"
  by (rule channel_okI [of _ _ 0 0 0 "[]"])
    (auto simp: quiet_ends_def wake_ok_def flow_ok_def pipepair_def new_pipe_def in_flight_def)

lemma flow_ok_frame:
  "\<lbrakk>flow_ok h W R P ns c; p_msgs_written (ch_w c') = p_msgs_written (ch_w c);
    p_msgs_read (ch_r c') = p_msgs_read (ch_r c); p_peers_msgs_read (ch_w c') = p_peers_msgs_read (ch_w c);
    ch_to_w c' = ch_to_w c; counts (in_flight c') = counts (in_flight c);
    p_out_active (ch_w c') = p_out_active (ch_w c)\<rbrakk> \<Longrightarrow> flow_ok h W R P ns c'"
  unfolding flow_ok_def by (elim conjE, intro conjI) simp_all

lemma flow_okI:
  "\<lbrakk>p_msgs_written (ch_w c) = of_nat W; p_msgs_read (ch_r c) = of_nat R; p_peers_msgs_read (ch_w c) = of_nat P;
    ch_to_w c = map (\<lambda>n. Activate_Write (of_nat n)) ns; W = R + counts (in_flight c);
    sorted (P # ns); \<forall>n \<in> set (P # ns). n \<le> R;
    0 < h \<Longrightarrow> last (P # ns) = R div nat (compute_lwm h) * nat (compute_lwm h);
    0 < h \<Longrightarrow> int W - int P \<le> h; \<lbrakk>0 < h; \<not> p_out_active (ch_w c)\<rbrakk> \<Longrightarrow> h \<le> int W - int P;
    h \<le> 0 \<Longrightarrow> p_out_active (ch_w c)\<rbrakk> \<Longrightarrow> flow_ok h W R P ns c"
  unfolding flow_ok_def by blast

lemma lwm_bounds: "0 < h \<Longrightarrow> 0 < compute_lwm h \<and> compute_lwm h \<le> h"
  unfolding compute_lwm_def by (simp add: sgn_if) linarith

lemma lwm_zero: "h \<le> 0 \<Longrightarrow> compute_lwm h \<le> 0"
  unfolding compute_lwm_def by (cases "h = 0") (auto simp: sgn_if)

section \<open>The writer's steps\<close>

lemma uint_count: "n < 2 ^ 64 \<Longrightarrow> uint (of_nat n :: 64 word) = int n"
  by (simp add: unsigned_of_nat take_bit_nat_eq_self uint_nat unat_of_nat)

lemma uint_diff:
  assumes "P \<le> W" "W < 2 ^ 64"
  shows "uint (of_nat W - of_nat P :: 64 word) = int W - int P"
proof -
  have "(of_nat W - of_nat P :: 64 word) = of_nat (W - P)" using assms(1) by (simp add: of_nat_diff)
  then show ?thesis using assms uint_count [of "W - P"] by simp
qed

lemma check_hwm_iff:
  assumes f: "flow_ok h W R P ns c" and q: "quiet_ends h c" and "W < 2 ^ 64"
  shows "pipe_check_hwm (ch_w c) \<longleftrightarrow> h \<le> 0 \<or> int W - int P < h"
proof -
  have "P \<le> W" using f by (auto simp: flow_ok_def)
  then have "uint (p_msgs_written (ch_w c) - p_peers_msgs_read (ch_w c)) = int W - int P"
    using f assms(3) uint_diff [of P W] by (simp add: flow_ok_def)
  then show ?thesis using q by (auto simp: pipe_check_hwm_def quiet_ends_def)
qed

lemma write_keeps:
  assumes ok: "channel_ok h k c" and m: "ordinary m" and k: "Suc k < 2 ^ 64"
  shows "channel_ok h (Suc k) (channel_step (Ch_Write m) c)"
proof -
  from ok obtain W R P ns where q: "quiet_ends h c" and w: "wake_ok c" and W: "W \<le> k"
    and f: "flow_ok h W R P ns c" by (rule channel_okE)
  have "W < 2 ^ 64" using W k by simp
  note hwm = check_hwm_iff [OF f q this]
  have st: "p_state (ch_w c) = active" "p_cmds (ch_w c) = []" using q by (auto simp: quiet_ends_def)
  consider (no) "\<not> p_out_active (ch_w c)" | (full) "p_out_active (ch_w c)" "\<not> pipe_check_hwm (ch_w c)"
    | (go) "p_out_active (ch_w c)" "pipe_check_hwm (ch_w c)" by blast
  then show ?thesis
  proof cases
    case no
    then have "channel_step (Ch_Write m) c = c"
      using st by (simp add: channel_step_def writing_def pipe_write_def pipe_check_write_def)
    then show ?thesis using channel_okI [OF q w f, of "Suc k"] W by simp
  next
    case full
    then have "channel_step (Ch_Write m) c = c\<lparr>ch_w := (ch_w c)\<lparr>p_out_active := False\<rparr>\<rparr>"
      using st by (simp add: channel_step_def writing_def pipe_write_def pipe_check_write_def)
    moreover have "flow_ok h W R P ns (c\<lparr>ch_w := (ch_w c)\<lparr>p_out_active := False\<rparr>\<rparr>)"
      using f full hwm by (auto simp: flow_ok_def in_flight_def)
    ultimately show ?thesis using q w W
      by (intro channel_okI [of h _ W R P ns]) (auto simp: quiet_ends_def wake_ok_def in_flight_def)
  next
    case go
    let ?w = "snd (pipe_write m (ch_w c))"
    let ?W = "if \<not> m_more m \<and> m_kind m \<noteq> Routing_Id then Suc W else W"
    have w1: "p_out ?w = p_out (ch_w c)" "p_state ?w = active" "p_hwm ?w = p_hwm (ch_w c)" "p_cmds ?w = []"
      "p_peer_asleep ?w = p_peer_asleep (ch_w c)" "p_out_active ?w" "p_peers_msgs_read ?w = p_peers_msgs_read (ch_w c)"
      "p_msgs_written ?w = of_nat ?W" "p_ready ?w @ p_part ?w = p_ready (ch_w c) @ p_part (ch_w c) @ [m]"
      "\<forall>x \<in> set (p_part ?w). x \<in> set (p_part (ch_w c)) \<or> m_more x"
      using go st f by (auto simp: pipe_write_def pipe_check_write_def Let_def flow_ok_def)
    let ?c = "c\<lparr>ch_w := ?w\<lparr>p_cmds := []\<rparr>\<rparr>"
    have step: "channel_step (Ch_Write m) c = ?c" using w1(4) by (simp add: channel_step_def writing_def)
    have fl: "in_flight ?c = in_flight c @ [m]" using w1(1,9) by (simp add: in_flight_def)
    have "flow_ok h ?W R P ns ?c"
      using f w1 fl go hwm by (auto simp: flow_ok_def)
    moreover have "quiet_ends h ?c" using q w1 fl m by (auto simp: quiet_ends_def)
    moreover have "wake_ok ?c" using w w1 by (simp add: wake_ok_def)
    ultimately show ?thesis using W unfolding step by (intro channel_okI [of h _ ?W R P ns]) auto
  qed
qed

lemma flush_keeps:
  assumes ok: "channel_ok h k c"
  shows "channel_ok h k (channel_step Ch_Flush c)"
proof -
  from ok obtain W R P ns where q: "quiet_ends h c" and w: "wake_ok c" and W: "W \<le> k"
    and f: "flow_ok h W R P ns c" by (rule channel_okE)
  have st: "p_state (ch_w c) = active" "p_cmds (ch_w c) = []" using q by (auto simp: quiet_ends_def)
  show ?thesis
  proof (cases "p_ready (ch_w c) = []")
    case True
    then have "channel_step Ch_Flush c = c" using st by (simp add: channel_step_def writing_def pipe_flush_def)
    then show ?thesis using ok by simp
  next
    case False
    let ?c = "channel_step Ch_Flush c"
    have c: "in_flight ?c = in_flight c" "ch_r ?c = ch_r c" "ch_to_w ?c = ch_to_w c"
      "p_state (ch_w ?c) = active" "p_cmds (ch_w ?c) = []" "p_part (ch_w ?c) = p_part (ch_w c)"
      "p_hwm (ch_w ?c) = p_hwm (ch_w c)" "p_msgs_written (ch_w ?c) = p_msgs_written (ch_w c)"
      "p_peers_msgs_read (ch_w ?c) = p_peers_msgs_read (ch_w c)" "p_out_active (ch_w ?c) = p_out_active (ch_w c)"
      "p_peer_asleep (ch_w ?c) = False"
      "ch_to_r ?c = ch_to_r c @ (if p_peer_asleep (ch_w c) then [Activate_Read] else [])"
      using st False by (auto simp: channel_step_def writing_def pipe_flush_def in_flight_def Let_def)
    have "quiet_ends h ?c" using q c by (simp add: quiet_ends_def)
    moreover have "wake_ok ?c" using w c by (auto simp: wake_ok_def)
    moreover have "flow_ok h W R P ns ?c" by (rule flow_ok_frame [OF f]) (simp_all add: c)
    ultimately show ?thesis using W by (intro channel_okI)
  qed
qed

lemma counts_more: "\<forall>m \<in> set ms. m_more m \<Longrightarrow> counts ms = 0"
  by (simp add: counts_def)

lemma rollback_keeps:
  assumes ok: "channel_ok h k c"
  shows "channel_ok h k (channel_step Ch_Rollback c)"
proof -
  from ok obtain W R P ns where q: "quiet_ends h c" and w: "wake_ok c" and W: "W \<le> k"
    and f: "flow_ok h W R P ns c" by (rule channel_okE)
  let ?c = "c\<lparr>ch_w := (ch_w c)\<lparr>p_part := []\<rparr>\<rparr>"
  have step: "channel_step Ch_Rollback c = ?c"
    using q by (simp add: channel_step_def writing_def pipe_rollback_def quiet_ends_def)
  have "counts (in_flight ?c) = counts (in_flight c)"
    using q counts_more by (auto simp: quiet_ends_def in_flight_def)
  then have "flow_ok h W R P ns ?c" by (intro flow_ok_frame [OF f]) simp_all
  moreover have "quiet_ends h ?c" "wake_ok ?c"
    using q w by (auto simp: quiet_ends_def wake_ok_def in_flight_def)
  ultimately show ?thesis using W unfolding step by (intro channel_okI)
qed
section \<open>The reader's steps\<close>

lemma reading_same: "quiet_ends h c \<Longrightarrow> reading (reader_view c) c = c"
  by (simp add: reading_def reader_view_def quiet_ends_def)

lemma skip_ordinary: "\<forall>m \<in> set ms. ordinary m \<Longrightarrow> skip_credentials ms = ms"
  by (induction ms) (auto simp: ordinary_def)

text \<open>Finding nothing.\<close>

definition chan_idle :: "channel \<Rightarrow> channel" where
  "chan_idle c = c\<lparr>ch_r := (ch_r c)\<lparr>p_in_active := False\<rparr>, ch_w := (ch_w c)\<lparr>p_peer_asleep := True\<rparr>\<rparr>"

lemma chan_idle_keeps:
  assumes ok: "channel_ok h k c" and "p_in_active (ch_r c)" "p_out (ch_w c) = []"
  shows "channel_ok h k (chan_idle c)"
proof -
  from ok obtain W R P ns where q: "quiet_ends h c" and w: "wake_ok c" and W: "W \<le> k"
    and f: "flow_ok h W R P ns c" by (rule channel_okE)
  have "flow_ok h W R P ns (chan_idle c)" by (rule flow_ok_frame [OF f]) (simp_all add: chan_idle_def in_flight_def)
  moreover have "quiet_ends h (chan_idle c)" "wake_ok (chan_idle c)"
    using q w assms by (auto simp: quiet_ends_def wake_ok_def chan_idle_def in_flight_def)
  ultimately show ?thesis using W by (intro channel_okI)
qed

lemma reader_view_sel:
  assumes "quiet_ends h c"
  shows "p_state (reader_view c) = active" "p_in (reader_view c) = p_out (ch_w c)"
    "p_in_active (reader_view c) = p_in_active (ch_r c)" "\<forall>m \<in> set (p_out (ch_w c)). ordinary m"
  using assms by (auto simp: reader_view_def quiet_ends_def in_flight_def)

lemma check_step:
  assumes "quiet_ends h c"
  shows "channel_step Ch_Check c = (if p_in_active (ch_r c) \<and> p_out (ch_w c) = [] then chan_idle c else c)"
proof (cases "p_in_active (ch_r c)")
  case False
  then show ?thesis using reader_view_sel [OF assms] reading_same [OF assms]
    by (simp add: channel_step_def pipe_check_read_def pipe_readable_def)
next
  case True
  note v = reader_view_sel [OF assms]
  have p: "pipe_readable (reader_view c)" using v True by (simp add: pipe_readable_def)
  have q: "p_in (ch_r c) = []" "p_cmds (ch_r c) = []" using assms by (auto simp: quiet_ends_def)
  show ?thesis
  proof (cases "p_out (ch_w c)")
    case Nil
    then show ?thesis using p v(2) True q
      by (simp add: channel_step_def pipe_check_read_def reading_def chan_idle_def reader_view_def)
  next
    case (Cons m ms)
    then have "m_kind m \<noteq> Delimiter" using v(4) by (simp add: ordinary_def)
    then show ?thesis using p v(2) Cons reading_same [OF assms]
      by (simp add: channel_step_def pipe_check_read_def)
  qed
qed

text \<open>Taking a message, and telling the writer of every \<open>lwm\<close> messages.\<close>

definition take_msg :: "msg_t \<Rightarrow> msg_t list \<Rightarrow> channel \<Rightarrow> channel" where
  "take_msg m ms c = (let n = p_msgs_read (ch_r c) + (if \<not> m_more m \<and> m_kind m \<noteq> Routing_Id then 1 else 0)
     in c\<lparr>ch_r := (ch_r c)\<lparr>p_msgs_read := n\<rparr>, ch_w := (ch_w c)\<lparr>p_out := ms\<rparr>,
         ch_to_w := ch_to_w c @
           (if 0 < p_lwm (ch_r c) \<and> uint n mod p_lwm (ch_r c) = 0 then [Activate_Write n] else [])\<rparr>)"

lemma read_step:
  assumes "quiet_ends h c"
  shows "channel_step Ch_Read c =
    (if \<not> p_in_active (ch_r c) then c
     else case p_out (ch_w c) of [] \<Rightarrow> chan_idle c | m # ms \<Rightarrow> take_msg m ms c)"
proof (cases "p_in_active (ch_r c)")
  case False
  then show ?thesis using reader_view_sel [OF assms] reading_same [OF assms]
    by (simp add: channel_step_def pipe_read_def pipe_readable_def)
next
  case True
  note v = reader_view_sel [OF assms]
  have p: "pipe_readable (reader_view c)" using v True by (simp add: pipe_readable_def)
  have q: "p_in (ch_r c) = []" "p_cmds (ch_r c) = []" using assms by (auto simp: quiet_ends_def)
  show ?thesis
  proof (cases "p_out (ch_w c)")
    case Nil
    then show ?thesis using p v True q
      by (simp add: channel_step_def pipe_read_def reading_def chan_idle_def reader_view_def)
  next
    case (Cons m ms)
    then have "skip_credentials (p_in (reader_view c)) = m # ms" "m_kind m \<noteq> Delimiter"
      using v skip_ordinary [of "m # ms"] by (auto simp: ordinary_def)
    then have "snd (pipe_read (reader_view c)) = pipe_count_read m (reader_view c\<lparr>p_in := ms\<rparr>)"
      using p by (simp add: pipe_read_def)
    then show ?thesis using True Cons q
      by (simp add: channel_step_def reading_def take_msg_def pipe_count_read_def reader_view_def Let_def)
  qed
qed

lemma take_keeps:
  assumes ok: "channel_ok h k c" and out: "p_out (ch_w c) = m # ms" and act: "p_in_active (ch_r c)"
    and k: "k < 2 ^ 64"
  shows "channel_ok h k (take_msg m ms c)"
proof -
  from ok obtain W R P ns where q: "quiet_ends h c" and w: "wake_ok c" and W: "W \<le> k"
    and f: "flow_ok h W R P ns c" by (rule channel_okE)
  let ?R = "R + counts [m]"
  let ?L = "nat (compute_lwm h)"
  let ?c = "take_msg m ms c"
  have fl: "in_flight c = m # in_flight ?c" using out by (simp add: in_flight_def take_msg_def Let_def)
  have le: "W = ?R + counts (in_flight ?c)" using f by (simp add: flow_ok_def fl)
  then have n: "p_msgs_read (ch_r c) + (if \<not> m_more m \<and> m_kind m \<noteq> Routing_Id then 1 else 0) = of_nat ?R"
    and u: "uint (of_nat ?R :: 64 word) = int ?R"
    using f W k uint_count [of ?R] by (auto simp: flow_ok_def)
  have lwm: "p_lwm (ch_r c) = compute_lwm h" using q by (simp add: quiet_ends_def)
  let ?told = "0 < h \<and> ?R mod ?L = 0"
  let ?ns = "ns @ (if ?told then [?R] else [])"
  have tell: "0 < compute_lwm h \<and> uint (of_nat ?R :: 64 word) mod compute_lwm h = 0 \<longleftrightarrow> ?told"
  proof (cases "0 < h")
    case True
    then obtain l where l: "compute_lwm h = int l" "0 < l" using lwm_bounds [of h] by (metis zero_less_imp_eq_int)
    have "int x mod int l = 0 \<longleftrightarrow> x mod l = 0" for x by (simp flip: zmod_int)
    from this [of ?R] show ?thesis unfolding u l(1) using True l(2) by simp
  qed (use lwm_zero [of h] in auto)
  have to_w: "ch_to_w ?c = map (\<lambda>n. Activate_Write (of_nat n)) ?ns"
    using f tell unfolding take_msg_def Let_def n lwm by (simp add: flow_ok_def)
  have srt: "sorted (P # ?ns)" "\<forall>n \<in> set (P # ?ns). n \<le> ?R" using f by (auto simp: flow_ok_def sorted_append)
  have lst: "last (P # ?ns) = ?R div ?L * ?L" if "0 < h"
  proof (cases ?told)
    case True
    then show ?thesis by (auto simp: mod_eq_0_iff_dvd)
  next
    case False
    then have "?R div ?L = R div ?L" using that by (auto simp: div_Suc split: if_splits)
    then show ?thesis using f that False by (auto simp: flow_ok_def)
  qed
  have rd: "p_msgs_read (ch_r ?c) = of_nat ?R" unfolding take_msg_def Let_def n by simp
  have wr: "p_msgs_written (ch_w ?c) = p_msgs_written (ch_w c)"
    "p_peers_msgs_read (ch_w ?c) = p_peers_msgs_read (ch_w c)" "p_out_active (ch_w ?c) = p_out_active (ch_w c)"
    by (simp_all add: take_msg_def Let_def)
  have fw: "p_msgs_written (ch_w c) = of_nat W" "p_peers_msgs_read (ch_w c) = of_nat P"
    "0 < h \<Longrightarrow> int W - int P \<le> h" "\<lbrakk>0 < h; \<not> p_out_active (ch_w c)\<rbrakk> \<Longrightarrow> h \<le> int W - int P"
    "h \<le> 0 \<Longrightarrow> p_out_active (ch_w c)" using f by (auto simp: flow_ok_def)
  have "flow_ok h W ?R P ?ns ?c"
    by (rule flow_okI; (rule rd to_w le srt lst fw(3))?; simp only: wr fw(1,2); (rule fw(4,5))?; assumption?)
  moreover have "quiet_ends h ?c" "wake_ok ?c"
    using q w out act fl by (auto simp: quiet_ends_def wake_ok_def take_msg_def Let_def)
  ultimately show ?thesis using W by (intro channel_okI)
qed
section \<open>Commands\<close>

lemma wake_reader_keeps:
  assumes ok: "channel_ok h k c"
  shows "channel_ok h k (channel_step Ch_Wake_Reader c)"
proof -
  from ok obtain W R P ns where q: "quiet_ends h c" and w: "wake_ok c" and W: "W \<le> k"
    and f: "flow_ok h W R P ns c" by (rule channel_okE)
  show ?thesis
  proof (cases "ch_to_r c")
    case Nil
    then show ?thesis using ok by (simp add: channel_step_def)
  next
    case (Cons x cs)
    then have c: "ch_to_r c = [Activate_Read]" "\<not> p_in_active (ch_r c)" "\<not> p_peer_asleep (ch_w c)"
      using w by (auto simp: wake_ok_def split: if_splits)
    let ?c = "c\<lparr>ch_r := (ch_r c)\<lparr>p_in_active := True\<rparr>, ch_to_r := []\<rparr>"
    have step: "channel_step Ch_Wake_Reader c = ?c"
      using c q by (simp add: channel_step_def process_activate_read_def quiet_ends_def)
    have "flow_ok h W R P ns ?c" by (rule flow_ok_frame [OF f]) (simp_all add: in_flight_def)
    moreover have "quiet_ends h ?c" "wake_ok ?c"
      using q c by (auto simp: quiet_ends_def wake_ok_def in_flight_def)
    ultimately show ?thesis using W unfolding step by (intro channel_okI)
  qed
qed

lemma wake_writer_keeps:
  assumes ok: "channel_ok h k c" and k: "k < 2 ^ 64"
  shows "channel_ok h k (channel_step Ch_Wake_Writer c)"
proof -
  from ok obtain W R P ns where q: "quiet_ends h c" and w: "wake_ok c" and W: "W \<le> k"
    and f: "flow_ok h W R P ns c" by (rule channel_okE)
  show ?thesis
  proof (cases ns)
    case Nil
    then have "ch_to_w c = []" using f by (simp add: flow_ok_def)
    then show ?thesis using ok by (simp add: channel_step_def)
  next
    case (Cons n ns')
    let ?c = "c\<lparr>ch_w := (ch_w c)\<lparr>p_peers_msgs_read := of_nat n, p_out_active := True\<rparr>,
      ch_to_w := map (\<lambda>n. Activate_Write (of_nat n)) ns'\<rparr>"
    have "p_state (ch_w c) = active" using q by (simp add: quiet_ends_def)
    then have "snd (process_activate_write (of_nat n) (ch_w c)) = ch_w ?c"
      by (intro pipe_t.equality) (simp_all add: process_activate_write_def Let_def)
    moreover have "ch_to_w c = Activate_Write (of_nat n) # ch_to_w ?c" using f Cons by (simp add: flow_ok_def)
    ultimately have step: "channel_step Ch_Wake_Writer c = ?c" by (simp add: channel_step_def)
    have "flow_ok h W R n ns' ?c"
      using f Cons by (auto simp: flow_ok_def in_flight_def)
    moreover have "quiet_ends h ?c" "wake_ok ?c"
      using q w by (auto simp: quiet_ends_def wake_ok_def in_flight_def)
    ultimately show ?thesis using W unfolding step by (intro channel_okI)
  qed
qed

section \<open>Every run\<close>

lemma channel_ok_mono: "\<lbrakk>channel_ok h k c; k \<le> k'\<rbrakk> \<Longrightarrow> channel_ok h k' c"
  by (erule channel_okE) (metis channel_okI order_trans)

lemma channel_step_keeps:
  assumes ok: "channel_ok h k c" and "ordinary_act x" and k: "Suc k < 2 ^ 64"
  shows "channel_ok h (Suc k) (channel_step x c)"
proof -
  have q: "quiet_ends h c" using ok by (simp add: channel_ok_def)
  have "channel_ok h k (channel_step x c)" if "\<nexists>m. x = Ch_Write m"
  proof (cases x)
    case Ch_Check
    then show ?thesis using check_step [OF q] chan_idle_keeps [OF ok] ok by simp
  next
    case Ch_Read
    then show ?thesis using read_step [OF q] chan_idle_keeps [OF ok] take_keeps [OF ok] ok k by (simp split: list.split)
  qed (use that ok k flush_keeps rollback_keeps wake_reader_keeps wake_writer_keeps in auto)
  then show ?thesis using write_keeps [OF ok _ k] assms(2) channel_ok_mono [of h k _ "Suc k"]
    by (cases "\<exists>m. x = Ch_Write m") (auto simp: ordinary_act_def)
qed

lemma channel_run_keeps:
  "\<lbrakk>channel_ok h k c; \<forall>x \<in> set xs. ordinary_act x; k + length xs < 2 ^ 64\<rbrakk>
    \<Longrightarrow> channel_ok h (k + length xs) (channel_run xs c)"
proof (induction xs arbitrary: k c)
  case Nil
  then show ?case by (simp add: channel_run_def)
next
  case (Cons x xs)
  have "channel_ok h (Suc k) (channel_step x c)" using Cons.prems by (intro channel_step_keeps) auto
  then show ?case using Cons.IH [of "Suc k" "channel_step x c"] Cons.prems by (simp add: channel_run_def)
qed

lemma channel_run_ok:
  assumes "\<forall>x \<in> set xs. ordinary_act x" "length xs < 2 ^ 64"
  shows "channel_ok h0 (length xs) (channel_run xs (pipepair h0 h1))"
  using channel_run_keeps [OF pipepair_ok assms(1)] assms(2) by simp

section \<open>What the invariant says\<close>

lemma channel_bounded:
  "\<lbrakk>channel_ok h k c; 0 < h\<rbrakk> \<Longrightarrow> int (counts (in_flight c)) \<le> h"
  by (auto simp: channel_ok_def flow_ok_def)

lemma channel_reader_woken:
  "\<lbrakk>channel_ok h k c; \<not> p_in_active (ch_r c); ch_to_r c = []\<rbrakk> \<Longrightarrow> p_out (ch_w c) = []"
  by (auto simp: channel_ok_def wake_ok_def split: if_splits)

lemma channel_writer_woken:
  assumes ok: "channel_ok h k c" and none: "counts (in_flight c) = 0" "ch_to_w c = []" and k: "k < 2 ^ 64"
  shows "fst (pipe_check_write (ch_w c))"
proof -
  from ok obtain W R P ns where q: "quiet_ends h c" and W: "W \<le> k"
    and f: "flow_ok h W R P ns c" by (rule channel_okE)
  have ns: "ns = []" "W = R" "P \<le> R" using f none by (auto simp: flow_ok_def)
  have room: "int W - int P < h" if "0 < h"
  proof -
    let ?L = "nat (compute_lwm h)"
    have "P = W div ?L * ?L" using f ns that by (simp add: flow_ok_def)
    moreover have "W - W div ?L * ?L < ?L" using lwm_bounds [OF that] by (simp add: minus_div_mult_eq_mod)
    ultimately show ?thesis using lwm_bounds [OF that] ns by linarith
  qed
  then have "p_out_active (ch_w c)" using f by (auto simp: flow_ok_def not_less)
  moreover have "pipe_check_hwm (ch_w c)" using check_hwm_iff [OF f q] W k room by (cases "0 < h") auto
  ultimately show ?thesis using q by (simp add: pipe_check_write_def quiet_ends_def)
qed
section \<open>Draining\<close>

text \<open>A schedule that lets the queue run empty: the writer flushes, the reader is woken and
  reads, the writer hears what was read.\<close>

definition drain :: "channel \<Rightarrow> channel_act list" where
  "drain c = Ch_Flush # Ch_Wake_Reader # replicate (length (in_flight c)) Ch_Read
     @ replicate (length (ch_to_w c) + length (in_flight c)) Ch_Wake_Writer"

lemma channel_run_app: "channel_run (xs @ ys) c = channel_run ys (channel_run xs c)"
  by (simp add: channel_run_def)

lemma ready_read:
  assumes "channel_ok h k c" "p_in_active (ch_r c) \<or> p_out (ch_w c) = []"
  shows "p_in_active (ch_r (channel_step Ch_Read c)) \<or> p_out (ch_w (channel_step Ch_Read c)) = []"
    "length (p_out (ch_w (channel_step Ch_Read c))) \<le> length (p_out (ch_w c)) - 1"
    "p_ready (ch_w (channel_step Ch_Read c)) = p_ready (ch_w c)"
    "length (ch_to_w (channel_step Ch_Read c)) \<le> Suc (length (ch_to_w c))"
  using assms read_step [of h c]
  by (auto simp: channel_ok_def chan_idle_def take_msg_def Let_def split: list.split)

lemma reads_empty:
  "\<lbrakk>channel_ok h k c; k + j < 2 ^ 64; p_in_active (ch_r c) \<or> p_out (ch_w c) = [];
    length (p_out (ch_w c)) \<le> j\<rbrakk>
    \<Longrightarrow> (let c' = channel_run (replicate j Ch_Read) c in p_out (ch_w c') = [] \<and> p_ready (ch_w c') = p_ready (ch_w c)
      \<and> length (ch_to_w c') \<le> length (ch_to_w c) + j)"
proof (induction j arbitrary: k c)
  case 0
  then show ?case by (simp add: channel_run_def)
next
  case (Suc j)
  let ?c = "channel_step Ch_Read c"
  have "channel_ok h (Suc k) ?c"
    using Suc.prems by (intro channel_step_keeps) (auto simp: ordinary_act_def)
  moreover note ready_read [OF Suc.prems(1,3)]
  ultimately have "let c' = channel_run (replicate j Ch_Read) ?c in p_out (ch_w c') = [] \<and> p_ready (ch_w c') = p_ready (ch_w ?c)
      \<and> length (ch_to_w c') \<le> length (ch_to_w ?c) + j"
    using Suc.prems(2,4) by (intro Suc.IH [of "Suc k"]) auto
  then show ?case using ready_read [OF Suc.prems(1,3)] by (auto simp: channel_run_def Let_def)
qed

lemma wakes_empty:
  "\<lbrakk>channel_ok h k c; k + j < 2 ^ 64; length (ch_to_w c) \<le> j\<rbrakk>
    \<Longrightarrow> (let c' = channel_run (replicate j Ch_Wake_Writer) c in ch_to_w c' = [] \<and> in_flight c' = in_flight c)"
proof (induction j arbitrary: k c)
  case 0
  then show ?case by (simp add: channel_run_def)
next
  case (Suc j)
  let ?c = "channel_step Ch_Wake_Writer c"
  have c: "channel_ok h (Suc k) ?c"
    using Suc.prems by (intro channel_step_keeps) (auto simp: ordinary_act_def)
  obtain W R P ns where f: "flow_ok h W R P ns c" using Suc.prems(1) by (rule channel_okE)
  have "length (ch_to_w ?c) \<le> j \<and> in_flight ?c = in_flight c"
    using f Suc.prems(3)
    by (cases ns) (auto simp: flow_ok_def channel_step_def in_flight_def process_activate_write_def Let_def)
  then show ?case using Suc.IH [OF c] Suc.prems(2) by (simp add: channel_run_def)
qed

lemma drain_writable:
  assumes ok: "channel_ok h k c" and k: "k + length (drain c) < 2 ^ 64"
  shows "fst (pipe_check_write (ch_w (channel_run (drain c) c)))"
proof -
  let ?n = "length (in_flight c)" and ?j = "length (ch_to_w c) + length (in_flight c)"
  define c1 where "c1 = channel_step Ch_Wake_Reader (channel_step Ch_Flush c)"
  define c2 where "c2 = channel_run (replicate ?n Ch_Read) c1"
  define c3 where "c3 = channel_run (replicate ?j Ch_Wake_Writer) c2"
  have fl: "channel_ok h k (channel_step Ch_Flush c)" by (rule flush_keeps [OF ok])
  have ok1: "channel_ok h k c1" unfolding c1_def by (rule wake_reader_keeps [OF fl])
  have q: "p_state (ch_w c) = active" "p_state (ch_r c) = active" "p_cmds (ch_w c) = []"
    using ok by (auto simp: channel_ok_def quiet_ends_def)
  have c1: "p_ready (ch_w c1) = []" "length (p_out (ch_w c1)) \<le> ?n" "ch_to_w c1 = ch_to_w c"
    using q unfolding c1_def
    by (auto simp: channel_step_def writing_def pipe_flush_def in_flight_def process_activate_read_def Let_def
        split: list.splits pipe_cmd.splits)
  have "ch_to_r c1 = []"
    using fl unfolding c1_def
    by (auto simp: channel_ok_def wake_ok_def channel_step_def split: if_splits)
  then have act: "p_in_active (ch_r c1) \<or> p_out (ch_w c1) = []"
    using channel_reader_woken [OF ok1] by blast
  have len: "k + ?n < 2 ^ 64" "k + ?n + ?j < 2 ^ 64" using k by (auto simp: drain_def)
  have c2: "p_out (ch_w c2) = []" "p_ready (ch_w c2) = []" "length (ch_to_w c2) \<le> ?j"
    using reads_empty [OF ok1 len(1) act c1(2)] c1 unfolding c2_def by (auto simp: Let_def)
  have ok2: "channel_ok h (k + ?n) c2"
    using channel_run_keeps [OF ok1, of "replicate ?n Ch_Read"] len unfolding c2_def by (simp add: ordinary_act_def)
  have c3: "ch_to_w c3 = []" "in_flight c3 = in_flight c2"
    using wakes_empty [OF ok2 len(2) c2(3)] unfolding c3_def by (auto simp: Let_def)
  have ok3: "channel_ok h (k + ?n + ?j) c3"
    using channel_run_keeps [OF ok2, of "replicate ?j Ch_Wake_Writer"] len unfolding c3_def
    by (simp add: ordinary_act_def)
  have "counts (in_flight c3) = 0"
    using c3(2) c2 ok2 counts_more by (auto simp: in_flight_def channel_ok_def quiet_ends_def)
  moreover have "channel_run (drain c) c = c3"
    by (simp add: drain_def c3_def c2_def c1_def channel_run_app) (simp add: channel_run_def)
  ultimately show ?thesis using channel_writer_woken [OF ok3 _ c3(1) len(2)] by simp
qed
section \<open>Credentials\<close>

text \<open>The writing end counts a credential as a message; the reading end drops it without counting.
  Under a high water mark of one the pipe is then full for ever.\<close>

definition credential :: "bytes \<Rightarrow> msg_t" where
  "credential user = \<lparr>m_data = user, m_more = False, m_kind = Credential\<rparr>"

definition blocked :: "channel \<Rightarrow> bool" where
  "blocked c \<longleftrightarrow> p_state (ch_w c) = active \<and> p_hwm (ch_w c) = 1 \<and> p_msgs_written (ch_w c) = 1 \<and>
     p_peers_msgs_read (ch_w c) = 0 \<and> p_cmds (ch_w c) = [] \<and> p_cmds (ch_r c) = [] \<and> p_in (ch_r c) = [] \<and>
     in_flight c = [] \<and> ch_to_w c = []"

lemma blocked_full: "blocked c \<Longrightarrow> \<not> fst (pipe_check_write (ch_w c))"
  by (simp add: blocked_def pipe_check_write_def pipe_check_hwm_def)

lemma blocked_reads:
  assumes "blocked c"
  shows "p_in (snd (pipe_check_read (reader_view c))) = []" "p_cmds (snd (pipe_check_read (reader_view c))) = []"
    "p_in (snd (pipe_read (reader_view c))) = []" "p_cmds (snd (pipe_read (reader_view c))) = []"
  using assms
  by (auto simp: blocked_def reader_view_def in_flight_def pipe_check_read_def pipe_read_def)

lemma blocked_reading: "\<lbrakk>blocked c; p_in r = []; p_cmds r = []\<rbrakk> \<Longrightarrow> blocked (reading r c)"
  by (simp add: blocked_def reading_def in_flight_def)

lemma blocked_writes:
  assumes "blocked c"
  shows "snd (pipe_write m (ch_w c)) = (ch_w c)\<lparr>p_out_active := False\<rparr> \<or> snd (pipe_write m (ch_w c)) = ch_w c"
    "pipe_flush (ch_w c) = ch_w c" "pipe_rollback (ch_w c) = ch_w c"
  using assms
  by (auto simp: blocked_def in_flight_def pipe_write_def pipe_check_write_def pipe_check_hwm_def pipe_flush_def
      pipe_rollback_def)

lemma blocked_step:
  assumes "blocked c"
  shows "blocked (channel_step x c)"
proof (cases x)
  case (Ch_Write m)
  then show ?thesis using blocked_writes(1) [OF assms, of m] assms
    by (auto simp: channel_step_def writing_def blocked_def in_flight_def)
next
  case Ch_Check
  then show ?thesis using blocked_reading [OF assms] blocked_reads [OF assms] by (simp add: channel_step_def)
next
  case Ch_Read
  then show ?thesis using blocked_reading [OF assms] blocked_reads [OF assms] by (simp add: channel_step_def)
next
  case Ch_Wake_Reader
  then show ?thesis using assms
    by (auto simp: channel_step_def blocked_def in_flight_def process_activate_read_def split: list.split pipe_cmd.split)
qed (use assms blocked_writes(2,3) [OF assms] in \<open>simp_all add: channel_step_def writing_def blocked_def in_flight_def\<close>)

lemma blocked_run: "blocked c \<Longrightarrow> blocked (channel_run xs c)"
  by (induction xs arbitrary: c) (auto simp: channel_run_def blocked_step)

lemma credential_blocked:
  "blocked (channel_run [Ch_Write (credential user), Ch_Flush, Ch_Read] (pipepair 1 h1))"
  by (simp add: blocked_def channel_run_def channel_step_def pipepair_def new_pipe_def credential_def writing_def
      reading_def reader_view_def in_flight_def pipe_write_def pipe_check_write_def pipe_check_hwm_def
      pipe_flush_def pipe_read_def pipe_readable_def Let_def)

lemma credential_blocks_pipe:
  fixes xs user h1
  defines "c \<equiv> channel_run xs (channel_run [Ch_Write (credential user), Ch_Flush, Ch_Read] (pipepair 1 h1))"
  shows "in_flight c = [] \<and> \<not> fst (pipe_check_write (ch_w c))"
  using blocked_run [OF credential_blocked, of xs user h1] blocked_full by (auto simp: blocked_def c_def)

end
