(* ===== verification/ZmqConflate.thy ===== *)
theory ZmqConflate
  imports ZmqYpipe
begin

text \<open>
  The queue of a conflating pipe (\<open>3rd/zeromq/src/dbuffer.hpp\<close>, \<open>ypipe_conflate.hpp\<close>): a buffer the
  writer fills and one the reader empties, exchanged under a lock the writer only tries to
  take. Whether it got the lock is an argument of the write. The lemmas compare the queue with
  the one it stands in for: the reader gets the newest value whose write found the lock free,
  and \<open>flush\<close> asks for a wake-up every time, asleep or not.
\<close>

text \<open>\<open>None\<close> is an empty message, as \<open>init\<close> and a move leave it.\<close>

record 'v dbuffer =
  db_back :: "'v option"
  db_front :: "'v option"
  db_has_msg :: bool

definition db_new :: "'v dbuffer" where
  "db_new = \<lparr>db_back = None, db_front = None, db_has_msg = False\<rparr>"

definition db_write :: "bool \<Rightarrow> 'v \<Rightarrow> 'v dbuffer \<Rightarrow> 'v dbuffer" where
  "db_write locked v d =
     (let d' = d\<lparr>db_back := Some v\<rparr>
      in if locked then d'\<lparr>db_front := db_back d', db_back := None, db_has_msg := True\<rparr> else d')"

definition db_read :: "'v dbuffer \<Rightarrow> 'v option \<times> 'v dbuffer" where
  "db_read d = (if \<not> db_has_msg d then (None, d)
     else (db_front d, d\<lparr>db_front := None, db_has_msg := False\<rparr>))"

record 'v conflate_pipe =
  cp_dbuffer :: "'v dbuffer"
  cp_reader_awake :: bool

definition conflate_new :: "'v conflate_pipe" where
  "conflate_new = \<lparr>cp_dbuffer = db_new, cp_reader_awake = False\<rparr>"

definition conflate_write :: "bool \<Rightarrow> 'v \<Rightarrow> bool \<Rightarrow> 'v conflate_pipe \<Rightarrow> 'v conflate_pipe" where
  "conflate_write locked v incomplete p = p\<lparr>cp_dbuffer := db_write locked v (cp_dbuffer p)\<rparr>"

definition conflate_unwrite :: "'v conflate_pipe \<Rightarrow> 'v option \<times> 'v conflate_pipe" where
  "conflate_unwrite p = (None, p)"

definition conflate_flush :: "'v conflate_pipe \<Rightarrow> bool \<times> 'v conflate_pipe" where
  "conflate_flush p = (cp_reader_awake p, p)"

definition conflate_check_read :: "'v conflate_pipe \<Rightarrow> bool \<times> 'v conflate_pipe" where
  "conflate_check_read p =
     (let res = db_has_msg (cp_dbuffer p)
      in (res, if res then p else p\<lparr>cp_reader_awake := False\<rparr>))"

definition conflate_read :: "'v conflate_pipe \<Rightarrow> 'v option \<times> 'v conflate_pipe" where
  "conflate_read p =
     (case conflate_check_read p of
        (False, p') \<Rightarrow> (None, p')
      | (True, p') \<Rightarrow> (case db_read (cp_dbuffer p') of (v, d) \<Rightarrow> (v, p'\<lparr>cp_dbuffer := d\<rparr>)))"

datatype 'v conflate_act = Cf_Write bool 'v bool | Cf_Flush | Cf_Check | Cf_Read

definition conflate_step :: "'v conflate_act \<Rightarrow> 'v conflate_pipe \<Rightarrow> 'v conflate_pipe" where
  "conflate_step x p = (case x of
       Cf_Write l v i \<Rightarrow> conflate_write l v i p
     | Cf_Flush \<Rightarrow> snd (conflate_flush p)
     | Cf_Check \<Rightarrow> snd (conflate_check_read p)
     | Cf_Read \<Rightarrow> snd (conflate_read p))"

definition conflate_run :: "'v conflate_act list \<Rightarrow> 'v conflate_pipe" where
  "conflate_run xs = fold conflate_step xs conflate_new"

text \<open>The newest value whose write took the lock since the last read.\<close>

fun newest :: "'v option \<Rightarrow> 'v conflate_act list \<Rightarrow> 'v option" where
  "newest u [] = u"
| "newest u (Cf_Write l v i # xs) = newest (if l then Some v else u) xs"
| "newest u (Cf_Read # xs) = newest None xs"
| "newest u (Cf_Flush # xs) = newest u xs"
| "newest u (Cf_Check # xs) = newest u xs"

definition conflate_ok :: "'v option \<Rightarrow> 'v conflate_pipe \<Rightarrow> bool" where
  "conflate_ok u p \<longleftrightarrow> \<not> cp_reader_awake p \<and> db_front (cp_dbuffer p) = u \<and>
     db_has_msg (cp_dbuffer p) = (u \<noteq> None)"

lemma conflate_fold_ok: "conflate_ok u p \<Longrightarrow> conflate_ok (newest u xs) (fold conflate_step xs p)"
proof (induction u xs arbitrary: p rule: newest.induct)
  case (2 u l v i xs)
  have "conflate_ok (if l then Some v else u) (conflate_step (Cf_Write l v i) p)"
    using 2(2) by (simp add: conflate_ok_def conflate_step_def conflate_write_def db_write_def)
  with 2(1) show ?case by simp
next
  case (3 u xs)
  have "conflate_ok None (conflate_step Cf_Read p)"
    using 3(2) by (cases u) (simp_all add: conflate_ok_def conflate_step_def conflate_read_def
      conflate_check_read_def db_read_def)
  with 3(1) show ?case by simp
next
  case (4 u xs)
  then show ?case by (simp add: conflate_step_def conflate_flush_def)
next
  case (5 u xs)
  have "conflate_ok u (conflate_step Cf_Check p)"
    using 5(2) by (simp add: conflate_ok_def conflate_step_def conflate_check_read_def Let_def)
  with 5(1) show ?case by simp
qed simp

lemma conflate_run_ok: "conflate_ok (newest None xs) (conflate_run xs)"
  unfolding conflate_run_def
  by (rule conflate_fold_ok) (simp add: conflate_ok_def conflate_new_def db_new_def)

text \<open>The reader gets that value, and every flush says that the reader sleeps.\<close>

lemma conflate_reads_newest: "fst (conflate_read (conflate_run xs)) = newest None xs"
  using conflate_run_ok [of xs]
  by (cases "newest None xs") (simp_all add: conflate_ok_def conflate_read_def conflate_check_read_def db_read_def)

lemma conflate_flush_false: "fst (conflate_flush (conflate_run xs)) = False"
  using conflate_run_ok [of xs] by (simp add: conflate_ok_def conflate_flush_def)

text \<open>A write that met the reader's lock is lost: the reader is left with the value before it.\<close>

lemma conflate_loses_last:
  "fst (conflate_read (conflate_run [Cf_Write True a i, Cf_Write False b j])) = Some a
    \<and> fst (conflate_read (conflate_run [Cf_Write True a i, Cf_Read, Cf_Write False b j])) = None"
  by (simp add: conflate_reads_newest)

end
