(* ===== verification/ZmtpGreeting.thy ===== *)
theory ZmtpGreeting
  imports ZmtpCodec "HOL-Library.Sublist"
begin

text \<open>
  The greeting two peers exchange before the first frame (\<open>3rd/zeromq/src/zmtp_engine.cpp\<close>): what each
  sends depends on what it has received of the other's greeting, and the greeting decides the
  version of the protocol and the security mechanism. What a read returns is a chunk of bytes;
  an empty chunk is a read that would block. The lemmas show that how the bytes are cut into
  chunks does not matter, and that two peers of this version always agree.
\<close>

section \<open>The greeting\<close>

datatype mech = Mech_Null | Mech_Plain | Mech_Curve | Mech_Gssapi

text \<open>The options the greeting rests on; \<open>go_type\<close> is the number of the socket type.\<close>

record greeting_options =
  go_routing_id :: bytes
  go_type :: byte
  go_mechanism :: mech
  go_zap_enabled :: bool

record greeting =
  gr_recv :: bytes
  gr_size :: nat
  gr_send :: bytes

abbreviation "signature_size \<equiv> (10 :: nat)"
abbreviation "v2_greeting_size \<equiv> (12 :: nat)"
abbreviation "v3_greeting_size \<equiv> (64 :: nat)"
abbreviation "revision_pos \<equiv> (10 :: nat)"
abbreviation "minor_pos \<equiv> (11 :: nat)"
abbreviation "ZMTP_1_0 \<equiv> CHR 0x00"
abbreviation "ZMTP_2_0 \<equiv> CHR 0x01"
abbreviation "ZMTP_3_x \<equiv> CHR 0x03"

definition signature :: "greeting_options \<Rightarrow> bytes" where
  "signature opts = [CHR 0xFF] @ put_uint64 (of_nat (length (go_routing_id opts)) + 1) @ [CHR 0x7F]"

definition plug_internal :: "greeting_options \<Rightarrow> greeting" where
  "plug_internal opts = \<lparr>gr_recv = [], gr_size = v2_greeting_size, gr_send = signature opts\<rparr>"

definition mech_name :: "mech \<Rightarrow> bytes" where
  "mech_name m = (case m of Mech_Null \<Rightarrow> ''NULL'' | Mech_Plain \<Rightarrow> ''PLAIN'' | Mech_Curve \<Rightarrow> ''CURVE'' | Mech_Gssapi \<Rightarrow> ''GSSAPI'')"

definition mech_field :: "mech \<Rightarrow> bytes" where
  "mech_field m = mech_name m @ replicate (20 - length (mech_name m)) (CHR 0x00)"

text \<open>The last two parts: the major version, then either the socket type or all of version 3.\<close>

definition greeting_tail :: "greeting_options \<Rightarrow> bytes" where
  "greeting_tail opts = [CHR 0x01] @ mech_field (go_mechanism opts) @ replicate 32 (CHR 0x00)"

definition receive_greeting_versioned :: "greeting_options \<Rightarrow> greeting \<Rightarrow> greeting" where
  "receive_greeting_versioned opts g =
     (let g' = (if length (gr_send g) = signature_size then g\<lparr>gr_send := gr_send g @ [CHR 0x03]\<rparr> else g)
      in if signature_size < length (gr_recv g') \<and> length (gr_send g') = signature_size + 1
         then if gr_recv g' ! revision_pos = ZMTP_1_0 \<or> gr_recv g' ! revision_pos = ZMTP_2_0
              then g'\<lparr>gr_send := gr_send g' @ [go_type opts]\<rparr>
              else g'\<lparr>gr_send := gr_send g' @ greeting_tail opts, gr_size := v3_greeting_size\<rparr>
         else g')"

text \<open>What the loop does with the bytes one read returned; the result says that the peer is unversioned.\<close>

definition greeting_chunk :: "greeting_options \<Rightarrow> bytes \<Rightarrow> greeting \<Rightarrow> bool \<times> greeting" where
  "greeting_chunk opts ch g =
     (let g' = g\<lparr>gr_recv := gr_recv g @ ch\<rparr>
      in if gr_recv g' ! 0 \<noteq> CHR 0xFF then (True, g')
         else if length (gr_recv g') < signature_size then (False, g')
         else if \<not> odd (of_char (gr_recv g' ! 9) :: nat) then (True, g')
         else (False, receive_greeting_versioned opts g'))"

datatype greeting_result = Again | Received bool

function receive_greeting ::
  "greeting_options \<Rightarrow> bytes list \<Rightarrow> greeting \<Rightarrow> greeting_result \<times> bytes list \<times> greeting" where
  "receive_greeting opts cs g =
     (if gr_size g \<le> length (gr_recv g) then (Received False, cs, g)
      else case cs of
        [] \<Rightarrow> (Again, [], g)
      | c # cs' \<Rightarrow>
          if c = [] then (Again, cs', g)
          else let room = gr_size g - length (gr_recv g);
                   rest = (if length c \<le> room then cs' else drop room c # cs')
               in case greeting_chunk opts (take room c) g of
                    (True, g') \<Rightarrow> (Received True, rest, g')
                  | (False, g') \<Rightarrow> receive_greeting opts rest g')"
  by pat_completeness auto
termination
  by (relation "measure (\<lambda>(opts, cs, g). sum_list (map length cs))") auto

declare receive_greeting.simps [simp del]

datatype zmtp_version = V1_0_unversioned | V1_0 | V2_0 | V3_0 | V3_1

definition select_handshake_fun :: "bool \<Rightarrow> byte \<Rightarrow> byte \<Rightarrow> zmtp_version" where
  "select_handshake_fun unversioned revision minor =
     (if unversioned then V1_0_unversioned
      else if revision = ZMTP_1_0 then V1_0
      else if revision = ZMTP_2_0 then V2_0
      else if revision = ZMTP_3_x then (if minor = CHR 0x00 then V3_0 else V3_1)
      else V3_1)"

text \<open>The encoder and the decoder each version installs.\<close>

definition handshake_codec :: "zmtp_version \<Rightarrow> int \<Rightarrow> (nat \<Rightarrow> bool) \<Rightarrow> enc_proto \<times> decoder_t" where
  "handshake_codec v maxmsgsize alloc = (case v of
       V1_0_unversioned \<Rightarrow> (V1_Encoder, v1_decoder maxmsgsize alloc)
     | V1_0 \<Rightarrow> (V1_Encoder, v1_decoder maxmsgsize alloc)
     | V2_0 \<Rightarrow> (V2_Encoder, v2_decoder maxmsgsize alloc)
     | V3_0 \<Rightarrow> (V2_Encoder, v2_decoder maxmsgsize alloc)
     | V3_1 \<Rightarrow> (V3_1_Encoder, v2_decoder maxmsgsize alloc))"

text \<open>The decoder one peer installs reads the frames of the encoder the other installs for the same version.\<close>

lemma handshake_codec_fresh: "fresh_for (fst (handshake_codec v n al)) (snd (handshake_codec v n' al'))"
  by (cases v) (simp_all add: handshake_codec_def fresh_for_def new_decoder_def)

text \<open>The mechanism both sides name, if the build has it (NULL and PLAIN always).\<close>

definition handshake_v3_x :: "(mech \<Rightarrow> bool) \<Rightarrow> greeting_options \<Rightarrow> bytes \<Rightarrow> mech option" where
  "handshake_v3_x built opts recv =
     (if (go_mechanism opts = Mech_Null \<or> go_mechanism opts = Mech_Plain \<or> built (go_mechanism opts))
         \<and> take 20 (drop 12 recv) = mech_field (go_mechanism opts)
      then Some (go_mechanism opts) else None)"

text \<open>\<open>handshake\<close>: nothing yet, a protocol error, or the version with the mechanism of version 3. The older versions,
  which have no mechanism, are refused when a ZAP handler is to decide.\<close>

definition handshake :: "(mech \<Rightarrow> bool) \<Rightarrow> greeting_options \<Rightarrow> bytes list \<Rightarrow> greeting \<Rightarrow>
    (zmtp_version \<times> mech option) option option \<times> bytes list \<times> greeting" where
  "handshake built opts cs g =
     (case receive_greeting opts cs g of
        (Again, cs', g') \<Rightarrow> (None, cs', g')
      | (Received unversioned, cs', g') \<Rightarrow>
          (let v = select_handshake_fun unversioned (gr_recv g' ! revision_pos) (gr_recv g' ! minor_pos)
           in if v = V3_0 \<or> v = V3_1
              then (case handshake_v3_x built opts (gr_recv g') of
                  None \<Rightarrow> (Some None, cs', g') | Some m \<Rightarrow> (Some (Some (v, Some m)), cs', g'))
              else (Some (if go_zap_enabled opts then None else Some (v, None)), cs', g')))"

section \<open>What the received bytes decide\<close>

definition versioned :: "bytes \<Rightarrow> bool" where
  "versioned r \<longleftrightarrow> signature_size \<le> length r \<and> r ! 0 = CHR 0xFF \<and> odd (of_char (r ! 9) :: nat)"

definition unversioned :: "bytes \<Rightarrow> bool" where
  "unversioned r \<longleftrightarrow> r \<noteq> [] \<and> (r ! 0 \<noteq> CHR 0xFF \<or> signature_size \<le> length r \<and> even (of_char (r ! 9) :: nat))"

definition old_revision :: "bytes \<Rightarrow> bool" where
  "old_revision r \<longleftrightarrow> r ! revision_pos = ZMTP_1_0 \<or> r ! revision_pos = ZMTP_2_0"

definition greeting_sent :: "greeting_options \<Rightarrow> bytes \<Rightarrow> bytes" where
  "greeting_sent opts r = signature opts @
     (if \<not> versioned r then []
      else [CHR 0x03] @ (if length r \<le> signature_size then []
        else if old_revision r then [go_type opts] else greeting_tail opts))"

definition greeting_size :: "bytes \<Rightarrow> nat" where
  "greeting_size r = (if versioned r \<and> signature_size < length r \<and> \<not> old_revision r
     then v3_greeting_size else v2_greeting_size)"

definition greeting_ok :: "greeting_options \<Rightarrow> greeting \<Rightarrow> bool" where
  "greeting_ok opts g \<longleftrightarrow> gr_send g = greeting_sent opts (gr_recv g) \<and> gr_size g = greeting_size (gr_recv g) \<and>
     \<not> unversioned (gr_recv g)"

lemma length_signature [simp]: "length (signature opts) = 10"
  by (simp add: signature_def)

lemma length_mech_field [simp]: "length (mech_field m) = 20"
  by (cases m) (simp_all add: mech_field_def mech_name_def)

lemma length_tail [simp]: "length (greeting_tail opts) = 53"
  by (simp add: greeting_tail_def)

lemma tail_not_Nil [simp]: "greeting_tail opts \<noteq> []"
  by (simp add: greeting_tail_def)

lemma plug_ok: "greeting_ok opts (plug_internal opts)"
  by (simp add: greeting_ok_def plug_internal_def greeting_sent_def greeting_size_def versioned_def unversioned_def)

lemma versioned_app: "versioned r \<Longrightarrow> versioned (r @ s)"
  by (auto simp: versioned_def nth_append)

lemma unversioned_app: "unversioned r \<Longrightarrow> unversioned (r @ s)"
  by (auto simp: unversioned_def nth_append neq_Nil_conv)

lemma versioned_not_un: "versioned r \<Longrightarrow> \<not> unversioned r"
  by (auto simp: versioned_def unversioned_def)

lemma old_revision_app: "signature_size < length r \<Longrightarrow> old_revision (r @ s) = old_revision r"
  by (simp add: old_revision_def nth_append)

text \<open>A chunk keeps the state what the bytes received so far decide.\<close>

lemma greeting_chunk_ok:
  assumes ok: "greeting_ok opts g" and ch: "ch \<noteq> []"
  shows "fst (greeting_chunk opts ch g) = unversioned (gr_recv g @ ch)"
    "gr_recv (snd (greeting_chunk opts ch g)) = gr_recv g @ ch"
    "gr_send (snd (greeting_chunk opts ch g)) = greeting_sent opts (gr_recv g @ ch)"
    "\<not> unversioned (gr_recv g @ ch) \<Longrightarrow> greeting_ok opts (snd (greeting_chunk opts ch g))"
proof -
  let ?r = "gr_recv g @ ch"
  have send: "gr_send g = greeting_sent opts (gr_recv g)" and size: "gr_size g = greeting_size (gr_recv g)"
    using ok by (auto simp: greeting_ok_def)
  have "versioned ?r \<or> unversioned ?r \<or> length ?r < 10"
    using ch by (cases "length ?r < 10") (auto simp: unversioned_def versioned_def)
  then consider (un) "unversioned ?r" | (few) "\<not> unversioned ?r" "length ?r < 10" | (go) "versioned ?r"
    by blast
  then have "fst (greeting_chunk opts ch g) = unversioned ?r \<and> gr_recv (snd (greeting_chunk opts ch g)) = ?r \<and>
    gr_send (snd (greeting_chunk opts ch g)) = greeting_sent opts ?r \<and>
    (unversioned ?r \<or> gr_size (snd (greeting_chunk opts ch g)) = greeting_size ?r)"
  proof cases
    case un
    then have "\<not> versioned ?r" using versioned_not_un by blast
    moreover from this have "\<not> versioned (gr_recv g)" using versioned_app by blast
    moreover have "greeting_chunk opts ch g = (True, g\<lparr>gr_recv := ?r\<rparr>)"
      using un by (auto simp: greeting_chunk_def unversioned_def Let_def)
    ultimately show ?thesis using un send by (simp add: greeting_sent_def)
  next
    case few
    then have "\<not> versioned ?r" "\<not> versioned (gr_recv g)" by (auto simp: versioned_def)
    moreover have "greeting_chunk opts ch g = (False, g\<lparr>gr_recv := ?r\<rparr>)"
      using few ch by (auto simp: greeting_chunk_def unversioned_def Let_def)
    ultimately show ?thesis using few send size by (simp add: greeting_sent_def greeting_size_def)
  next
    case go
    then have c: "greeting_chunk opts ch g = (False, receive_greeting_versioned opts (g\<lparr>gr_recv := ?r\<rparr>))"
      by (auto simp: greeting_chunk_def versioned_def Let_def)
    have old: "old_revision ?r = (?r ! 10 = CHR 0x00 \<or> ?r ! 10 = CHR 0x01)" by (simp add: old_revision_def)
    consider "\<not> versioned (gr_recv g)" | "versioned (gr_recv g)" "length (gr_recv g) \<le> 10"
      | "versioned (gr_recv g)" "10 < length (gr_recv g)" by linarith
    then show ?thesis
    proof cases
      case 1
      then show ?thesis using go send size versioned_not_un [OF go]
        by (simp add: c receive_greeting_versioned_def greeting_sent_def greeting_size_def old Let_def)
    next
      case 2
      then show ?thesis using go send size versioned_not_un [OF go]
        by (simp add: c receive_greeting_versioned_def greeting_sent_def greeting_size_def old Let_def)
    next
      case 3
      then show ?thesis using go send size versioned_not_un [OF go] old_revision_app [of "gr_recv g" ch]
        by (auto simp: c receive_greeting_versioned_def greeting_sent_def greeting_size_def Let_def)
    qed
  qed
  then show "fst (greeting_chunk opts ch g) = unversioned ?r" "gr_recv (snd (greeting_chunk opts ch g)) = ?r"
    "gr_send (snd (greeting_chunk opts ch g)) = greeting_sent opts ?r"
    "\<not> unversioned ?r \<Longrightarrow> greeting_ok opts (snd (greeting_chunk opts ch g))"
    by (auto simp: greeting_ok_def)
qed

section \<open>Chunks do not matter\<close>

text \<open>The result, all the bytes there are, received or still to be decoded, and what was sent.\<close>

definition greeting_outcome :: "greeting_result \<times> bytes list \<times> greeting \<Rightarrow> greeting_result \<times> bytes \<times> bytes" where
  "greeting_outcome x = (case x of (res, cs, g) \<Rightarrow> (res, gr_recv g @ concat cs, gr_send g))"

definition greeting_kind :: "bytes \<Rightarrow> greeting_result" where
  "greeting_kind s = (if unversioned s then Received True
     else if greeting_size s \<le> length s then Received False else Again)"

lemma greeting_size_bounds: "12 \<le> greeting_size r" "greeting_size r \<le> 64"
  by (simp_all add: greeting_size_def)

lemma greeting_size_app: "signature_size < length r \<Longrightarrow> \<not> unversioned r \<Longrightarrow> greeting_size (r @ s) = greeting_size r"
proof -
  assume r: "signature_size < length r" "\<not> unversioned r"
  then have "versioned r" by (auto simp: unversioned_def versioned_def)
  then show ?thesis using r versioned_app old_revision_app by (simp add: greeting_size_def)
qed

lemma greeting_sent_app:
  "signature_size < length r \<Longrightarrow> \<not> unversioned r \<Longrightarrow> greeting_sent opts (r @ s) = greeting_sent opts r"
proof -
  assume r: "signature_size < length r" "\<not> unversioned r"
  then have "versioned r" by (auto simp: unversioned_def versioned_def)
  then show ?thesis using r versioned_app old_revision_app by (simp add: greeting_sent_def)
qed

lemma receive_greeting_Cons:
  assumes "\<not> gr_size g \<le> length (gr_recv g)" "c \<noteq> []"
  shows "receive_greeting opts (c # cs) g =
    (let room = gr_size g - length (gr_recv g);
         rest = (if length c \<le> room then cs else drop room c # cs);
         x = greeting_chunk opts (take room c) g
     in if fst x then (Received True, rest, snd x) else receive_greeting opts rest (snd x))"
  using assms by (subst receive_greeting.simps) (simp add: Let_def case_prod_beta split: bool.split)

lemma receive_greeting_spec:
  "\<lbrakk>greeting_ok opts g; [] \<notin> set cs; length (gr_recv g) \<le> gr_size g\<rbrakk>
    \<Longrightarrow> greeting_outcome (receive_greeting opts cs g) =
      (let s = gr_recv g @ concat cs in (greeting_kind s, s, greeting_sent opts s))"
proof (induction opts cs g rule: receive_greeting.induct)
  case (1 opts cs g)
  have size: "gr_size g = greeting_size (gr_recv g)" and send: "gr_send g = greeting_sent opts (gr_recv g)"
    and nun: "\<not> unversioned (gr_recv g)" using 1(2) by (auto simp: greeting_ok_def)
  show ?case
  proof (cases "gr_size g \<le> length (gr_recv g)")
    case True
    then have long: "signature_size < length (gr_recv g)" using size greeting_size_bounds(1) [of "gr_recv g"] by simp
    then have "versioned (gr_recv g)" using nun by (auto simp: unversioned_def versioned_def)
    then have "\<not> unversioned (gr_recv g @ concat cs)" using versioned_app versioned_not_un by blast
    then show ?thesis using True size send greeting_size_app [OF long nun] greeting_sent_app [OF long nun]
      by (subst receive_greeting.simps) (simp add: greeting_outcome_def greeting_kind_def Let_def)
  next
    case False
    show ?thesis
    proof (cases cs)
      case Nil
      then show ?thesis using False size send nun
        by (subst receive_greeting.simps) (simp add: greeting_outcome_def greeting_kind_def Let_def)
    next
      case (Cons c cs')
      let ?room = "gr_size g - length (gr_recv g)"
      let ?rest = "if length c \<le> ?room then cs' else drop ?room c # cs'"
      let ?g = "snd (greeting_chunk opts (take ?room c) g)"
      have ne: "c \<noteq> []" "take ?room c \<noteq> []" using 1(3) False Cons by auto
      note chunk = greeting_chunk_ok [OF 1(2) ne(2)]
      have app: "(gr_recv g @ take ?room c) @ concat ?rest = gr_recv g @ concat cs" using Cons by auto
      show ?thesis
      proof (cases "unversioned (gr_recv g @ take ?room c)")
        case True
        then have u: "unversioned (gr_recv g @ concat cs)" using unversioned_app app by metis
        then have nv: "\<not> versioned (gr_recv g @ concat cs)" "\<not> versioned (gr_recv g @ take ?room c)"
          using versioned_not_un True by blast+
        have "receive_greeting opts cs g = (Received True, ?rest, ?g)"
          using chunk(1) True unfolding Cons receive_greeting_Cons [OF False ne(1)] by (simp add: Let_def)
        then show ?thesis using chunk(2,3) u nv app
          by (simp add: greeting_outcome_def greeting_kind_def greeting_sent_def Let_def)
      next
        case nun': False
        have r: "receive_greeting opts cs g = receive_greeting opts ?rest ?g"
          using chunk(1) nun' unfolding Cons receive_greeting_Cons [OF False ne(1)] by (simp add: Let_def)
        have ok: "greeting_ok opts ?g" by (rule chunk(4) [OF nun'])
        have "[] \<notin> set ?rest" using 1(3) Cons by auto
        moreover have "length (gr_recv ?g) \<le> gr_size ?g"
        proof -
          have "gr_size ?g = greeting_size (gr_recv g @ take ?room c)" using ok chunk(2) by (simp add: greeting_ok_def)
          moreover have "length (gr_recv g @ take ?room c) \<le> gr_size g" using False by simp
          moreover have "gr_size g \<le> greeting_size (gr_recv g @ take ?room c)"
            using size versioned_app [of "gr_recv g" "take ?room c"] old_revision_app [of "gr_recv g" "take ?room c"]
            by (auto simp: greeting_size_def)
          ultimately show ?thesis using chunk(2) by simp
        qed
        ultimately have "greeting_outcome (receive_greeting opts ?rest ?g) =
            (let s = gr_recv ?g @ concat ?rest in (greeting_kind s, s, greeting_sent opts s))"
          using 1(1) [OF False Cons ne(1) refl refl _ _ ok] chunk(1) nun' by (simp add: prod_eq_iff)
        then show ?thesis using r chunk(2) app by simp
      qed
    qed
  qed
qed

lemma greeting_from_start:
  "[] \<notin> set cs \<Longrightarrow> greeting_outcome (receive_greeting opts cs (plug_internal opts)) =
    (greeting_kind (concat cs), concat cs, greeting_sent opts (concat cs))"
  using receive_greeting_spec [OF plug_ok, of cs opts] by (simp add: plug_internal_def Let_def)
section \<open>Two peers\<close>

text \<open>The greeting of a peer of this version to another of this version.\<close>

definition full_greeting :: "greeting_options \<Rightarrow> bytes" where
  "full_greeting opts = signature opts @ [CHR 0x03] @ greeting_tail opts"

text \<open>How much of it is sent when \<open>k\<close> bytes of the other's are there.\<close>

definition greeting_reach :: "nat \<Rightarrow> nat" where
  "greeting_reach k = (if k < 10 then 10 else if k = 10 then 11 else 64)"

lemma length_full [simp]: "length (full_greeting opts) = 64"
  by (simp add: full_greeting_def)

lemma full_nth:
  "full_greeting opts ! 0 = CHR 0xFF" "full_greeting opts ! 9 = CHR 0x7F" "full_greeting opts ! 10 = CHR 0x03"
  "full_greeting opts ! 11 = CHR 0x01" "take 20 (drop 12 (full_greeting opts)) = mech_field (go_mechanism opts)"
  by (simp_all add: full_greeting_def greeting_tail_def nth_append signature_def)

lemma full_prefix:
  assumes "k \<le> 64"
  shows "versioned (take k (full_greeting opts)) = (10 \<le> k)" "\<not> unversioned (take k (full_greeting opts))"
    "10 < k \<Longrightarrow> \<not> old_revision (take k (full_greeting opts))"
    "greeting_size (take k (full_greeting opts)) = (if 10 < k then 64 else 12)"
    "greeting_sent opts' (take k (full_greeting opts)) = take (greeting_reach k) (full_greeting opts')"
proof -
  let ?r = "take k (full_greeting opts)"
  show v: "versioned ?r = (10 \<le> k)" using assms by (auto simp: versioned_def full_nth)
  show "\<not> unversioned ?r" using assms by (auto simp: unversioned_def full_nth)
  show o: "\<not> old_revision ?r" if "10 < k" using that assms by (simp add: old_revision_def full_nth)
  show "greeting_size ?r = (if 10 < k then 64 else 12)" using v o assms by (auto simp: greeting_size_def)
  show "greeting_sent opts' ?r = take (greeting_reach k) (full_greeting opts')"
    using v o assms by (auto simp: greeting_sent_def greeting_reach_def full_greeting_def)
qed

text \<open>As long as the peer is not unversioned the loop keeps its invariant and reads what there is.\<close>

lemma receive_greeting_keeps:
  "\<lbrakk>greeting_ok opts g; [] \<notin> set cs; length (gr_recv g) \<le> gr_size g;
    \<not> unversioned (gr_recv g @ concat cs); receive_greeting opts cs g = (res, rest, g')\<rbrakk>
    \<Longrightarrow> greeting_ok opts g' \<and> length (gr_recv g) \<le> length (gr_recv g') \<and> length (gr_recv g') \<le> gr_size g' \<and>
      (rest = [] \<or> length (gr_recv g') = gr_size g') \<and>
      (cs \<noteq> [] \<and> length (gr_recv g) < gr_size g \<longrightarrow> length (gr_recv g) < length (gr_recv g'))"
proof (induction opts cs g rule: receive_greeting.induct)
  case (1 opts cs g)
  show ?case
  proof (cases "gr_size g \<le> length (gr_recv g)")
    case True
    then show ?thesis using 1(2,4,6) by (subst (asm) receive_greeting.simps) simp
  next
    case False
    show ?thesis
    proof (cases cs)
      case Nil
      then show ?thesis using False 1(2,4,6) by (subst (asm) receive_greeting.simps) simp
    next
      case (Cons c cs')
      let ?room = "gr_size g - length (gr_recv g)"
      let ?rest = "if length c \<le> ?room then cs' else drop ?room c # cs'"
      let ?g = "snd (greeting_chunk opts (take ?room c) g)"
      have ne: "c \<noteq> []" "take ?room c \<noteq> []" using 1(3) False Cons by auto
      note chunk = greeting_chunk_ok [OF 1(2) ne(2)]
      have app: "(gr_recv g @ take ?room c) @ concat ?rest = gr_recv g @ concat cs" using Cons by auto
      then have nun: "\<not> unversioned (gr_recv g @ take ?room c)" using 1(5) unversioned_app by metis
      then have r: "receive_greeting opts ?rest ?g = (res, rest, g')"
        using 1(6) chunk(1) unfolding Cons receive_greeting_Cons [OF False ne(1)] by (simp add: Let_def)
      have "length (gr_recv ?g) \<le> gr_size ?g"
      proof -
        have "gr_size g \<le> gr_size ?g"
          using chunk(4) [OF nun] 1(2) versioned_app [of "gr_recv g" "take ?room c"] chunk(2)
            old_revision_app [of "gr_recv g" "take ?room c"] by (auto simp: greeting_ok_def greeting_size_def)
        moreover have "length (gr_recv g @ take ?room c) \<le> gr_size g" using False by simp
        ultimately show ?thesis using chunk(2) by simp
      qed
      moreover have "[] \<notin> set ?rest" using 1(3) Cons by auto
      moreover have "\<not> unversioned (gr_recv ?g @ concat ?rest)" using 1(5) chunk(2) app by simp
      ultimately have "greeting_ok opts g' \<and> length (gr_recv ?g) \<le> length (gr_recv g') \<and>
          length (gr_recv g') \<le> gr_size g' \<and> (rest = [] \<or> length (gr_recv g') = gr_size g')"
        using 1(1) [OF False Cons ne(1) refl refl _ _ chunk(4) [OF nun]] chunk(1) nun r by (simp add: prod_eq_iff)
      moreover have "length (gr_recv g) < length (gr_recv ?g)" unfolding chunk(2) using ne by simp
      ultimately show ?thesis by linarith
    qed
  qed
qed

text \<open>A step lets one of the two read at most \<open>j\<close> bytes of what the other has sent so far.\<close>

definition unread :: "greeting \<Rightarrow> greeting \<Rightarrow> bytes" where
  "unread a b = drop (length (gr_recv a)) (gr_send b)"

definition greeting_read :: "greeting_options \<Rightarrow> nat \<Rightarrow> greeting \<Rightarrow> greeting \<Rightarrow> greeting" where
  "greeting_read opts j b a = (let c = take j (unread a b)
     in snd (snd (receive_greeting opts (if c = [] then [] else [c]) a)))"

definition exchange_step :: "greeting_options \<Rightarrow> greeting_options \<Rightarrow> bool \<times> nat \<Rightarrow> greeting \<times> greeting \<Rightarrow> greeting \<times> greeting" where
  "exchange_step oa ob x s = (if fst x then (greeting_read oa (snd x) (snd s) (fst s), snd s)
     else (fst s, greeting_read ob (snd x) (fst s) (snd s)))"

definition exchange_run :: "greeting_options \<Rightarrow> greeting_options \<Rightarrow> (bool \<times> nat) list \<Rightarrow> greeting \<times> greeting" where
  "exchange_run oa ob xs = fold (exchange_step oa ob) xs (plug_internal oa, plug_internal ob)"

text \<open>One side has read a prefix of the other's greeting, and no more than was sent.\<close>

definition half_ok :: "greeting_options \<Rightarrow> greeting_options \<Rightarrow> greeting \<Rightarrow> greeting \<Rightarrow> bool" where
  "half_ok oa ob a b \<longleftrightarrow> greeting_ok oa a \<and> length (gr_recv a) \<le> gr_size a \<and>
     gr_recv a = take (length (gr_recv a)) (full_greeting ob) \<and>
     length (gr_recv a) \<le> greeting_reach (length (gr_recv b))"

lemma greeting_reach_mono: "k \<le> l \<Longrightarrow> greeting_reach k \<le> greeting_reach l"
  by (auto simp: greeting_reach_def)

lemma half_ok_sel:
  assumes "half_ok oa ob a b"
  shows "length (gr_recv a) \<le> 64" "gr_send a = take (greeting_reach (length (gr_recv a))) (full_greeting oa)"
    "gr_size a = (if 10 < length (gr_recv a) then 64 else 12)"
proof -
  show l: "length (gr_recv a) \<le> 64"
    using assms greeting_size_bounds(2) [of "gr_recv a"] by (simp add: half_ok_def greeting_ok_def)
  have e: "gr_recv a = take (length (gr_recv a)) (full_greeting ob)" using assms by (simp add: half_ok_def)
  have "greeting_sent oa (gr_recv a) = take (greeting_reach (length (gr_recv a))) (full_greeting oa)"
    using arg_cong [OF e, of "greeting_sent oa"] full_prefix(5) [OF l] by simp
  then show "gr_send a = take (greeting_reach (length (gr_recv a))) (full_greeting oa)"
    using assms by (simp add: half_ok_def greeting_ok_def)
  have "greeting_size (gr_recv a) = (if 10 < length (gr_recv a) then 64 else 12)"
    using arg_cong [OF e, of greeting_size] full_prefix(4) [OF l] by simp
  then show "gr_size a = (if 10 < length (gr_recv a) then 64 else 12)"
    using assms by (simp add: half_ok_def greeting_ok_def)
qed

lemma greeting_read_ok:
  assumes ab: "half_ok oa ob a b" and ba: "half_ok ob oa b a"
  shows "half_ok oa ob (greeting_read oa j b a) b \<and> half_ok ob oa b (greeting_read oa j b a)"
proof -
  let ?la = "length (gr_recv a)" and ?lb = "length (gr_recv b)"
  let ?c = "take j (unread a b)"
  let ?cs = "if ?c = [] then [] else [?c]"
  obtain res rest a' where r: "receive_greeting oa ?cs a = (res, rest, a')" by (metis prod_cases3)
  then have a': "greeting_read oa j b a = a'" by (simp add: greeting_read_def Let_def)
  have reca: "gr_recv a = take ?la (full_greeting ob)" "?la \<le> greeting_reach ?lb" using ab by (auto simp: half_ok_def)
  have sb: "gr_send b = take (greeting_reach ?lb) (full_greeting ob)" by (rule half_ok_sel(2) [OF ba])
  obtain k where k: "gr_recv a @ concat ?cs = take k (full_greeting ob)" "?la \<le> k" "k \<le> greeting_reach ?lb" "k \<le> 64"
  proof -
    have "gr_recv a @ ?c = take (min (?la + j) (min 64 (greeting_reach ?lb))) (full_greeting ob)"
      using reca by (simp add: unread_def sb take_drop min_def flip: take_add) 
        (metis append_take_drop_id drop_take le_add_diff_inverse take_add take_drop)
    then show thesis
      using that [of "min (?la + j) (min 64 (greeting_reach ?lb))"] reca half_ok_sel(1) [OF ab]
      by (cases "?c = []") auto
  qed
  have nun: "\<not> unversioned (gr_recv a @ concat ?cs)" using full_prefix(2) [OF k(4)] k(1) by simp
  have ga: "greeting_ok oa a" "?la \<le> gr_size a" using ab by (auto simp: half_ok_def)
  have keep: "greeting_ok oa a'" "length (gr_recv a') \<le> gr_size a'" "?la \<le> length (gr_recv a')"
    using receive_greeting_keeps [OF ga(1) _ ga(2) nun r] by auto
  have "gr_recv a' @ concat rest = take k (full_greeting ob)"
    using receive_greeting_spec [OF ga(1) _ ga(2), of ?cs] r k(1) by (auto simp: greeting_outcome_def Let_def)
  then have whole: "take (length (gr_recv a')) (gr_recv a' @ concat rest) = take (length (gr_recv a')) (take k (full_greeting ob))"
    "length (gr_recv a' @ concat rest) = k" using k(4) by simp_all
  then have len: "length (gr_recv a') \<le> k" by simp
  have pre: "gr_recv a' = take (length (gr_recv a')) (full_greeting ob)" using whole(1) len by (simp add: min_def)
  show ?thesis unfolding a' half_ok_def
    using keep pre len k(3) ba greeting_reach_mono [OF keep(3)] by (auto simp: half_ok_def)
qed

lemma exchange_run_ok:
  "half_ok oa ob (fst (exchange_run oa ob xs)) (snd (exchange_run oa ob xs)) \<and>
   half_ok ob oa (snd (exchange_run oa ob xs)) (fst (exchange_run oa ob xs))"
proof (induction xs rule: rev_induct)
  case Nil
  show ?case by (simp add: exchange_run_def half_ok_def plug_ok) (simp add: plug_internal_def)
next
  case (snoc x xs)
  then show ?case using greeting_read_ok by (auto simp: exchange_run_def exchange_step_def)
qed

text \<open>With nothing left to read both greetings are complete: neither waits for the other for ever.\<close>

lemma exchange_not_stuck:
  assumes "half_ok oa ob a b" "half_ok ob oa b a" "unread a b = []" "unread b a = []"
  shows "gr_recv a = full_greeting ob \<and> gr_recv b = full_greeting oa"
proof -
  let ?la = "length (gr_recv a)" and ?lb = "length (gr_recv b)"
  have "greeting_reach ?lb \<le> 64" "greeting_reach ?la \<le> 64" by (simp_all add: greeting_reach_def)
  then have "greeting_reach ?lb \<le> ?la" "greeting_reach ?la \<le> ?lb"
    using assms(3,4) half_ok_sel(2) [OF assms(1)] half_ok_sel(2) [OF assms(2)] by (auto simp: unread_def min_def split: if_splits)
  then have "?la = 64" "?lb = 64"
    using half_ok_sel(1) [OF assms(1)] half_ok_sel(1) [OF assms(2)] by (auto simp: greeting_reach_def split: if_splits)
  then show ?thesis using assms(1,2) by (auto simp: half_ok_def)
qed

lemma greeting_read_progress:
  assumes ab: "half_ok oa ob a b" and ba: "half_ok ob oa b a" and some: "unread a b \<noteq> []" and "0 < j"
  shows "length (gr_recv a) < length (gr_recv (greeting_read oa j b a))"
proof -
  let ?c = "take j (unread a b)"
  have c: "?c \<noteq> []" using some assms(4) by simp
  obtain res rest a' where r: "receive_greeting oa [?c] a = (res, rest, a')" by (metis prod_cases3)
  have ga: "greeting_ok oa a" "length (gr_recv a) \<le> gr_size a"
    and pre: "gr_recv a = take (length (gr_recv a)) (full_greeting ob)" using ab by (auto simp: half_ok_def)
  have sb: "gr_send b = take (greeting_reach (length (gr_recv b))) (full_greeting ob)" by (rule half_ok_sel(2) [OF ba])
  have lt: "length (gr_recv a) < 64" using some by (auto simp: unread_def sb)
  then have room: "length (gr_recv a) < gr_size a" using half_ok_sel(3) [OF ab] by auto
  have "prefix (gr_recv a @ ?c) (full_greeting ob)"
  proof -
    have "length (gr_recv a) \<le> length (gr_send b)" using some by (auto simp: unread_def)
    then have "gr_recv a = take (length (gr_recv a)) (gr_send b)" using pre by (auto simp: sb min_def split: if_splits)
    then have "gr_recv a @ unread a b = gr_send b" unfolding unread_def by (metis append_take_drop_id)
    then show ?thesis using sb by (metis append.assoc append_take_drop_id prefixI)
  qed
  then obtain zs where z: "full_greeting ob = (gr_recv a @ ?c) @ zs" by (auto simp: prefix_def)
  have "gr_recv a @ ?c = take (length (gr_recv a @ ?c)) (full_greeting ob)"
    unfolding z by (metis append_eq_conv_conj)
  moreover have "length (gr_recv a @ ?c) \<le> 64" using arg_cong [OF z, of length] by simp
  ultimately have "\<not> unversioned (gr_recv a @ ?c)" using full_prefix(2) by metis
  then have "\<not> unversioned (gr_recv a @ concat [?c])" by simp
  from receive_greeting_keeps [OF ga(1) _ ga(2) this r] c room
  show ?thesis using r c by (simp add: greeting_read_def Let_def)
qed

lemma mech_field_inj: "mech_field m = mech_field m' \<longleftrightarrow> m = m'"
  by (cases m; cases m') (simp_all add: mech_field_def mech_name_def)

text \<open>A complete greeting selects version 3.1 and the mechanism both name.\<close>

lemma complete_handshake:
  assumes "gr_recv a = full_greeting ob" "gr_size a = 64"
  shows "fst (handshake built oa [] a) = Some (if go_mechanism oa = go_mechanism ob \<and>
      (go_mechanism oa = Mech_Null \<or> go_mechanism oa = Mech_Plain \<or> built (go_mechanism oa))
    then Some (V3_1, Some (go_mechanism oa)) else None)"
proof -
  have "receive_greeting oa [] a = (Received False, [], a)"
    using assms by (subst receive_greeting.simps) simp
  moreover have "handshake_v3_x built oa (gr_recv a) = (if go_mechanism oa = go_mechanism ob \<and>
      (go_mechanism oa = Mech_Null \<or> go_mechanism oa = Mech_Plain \<or> built (go_mechanism oa))
    then Some (go_mechanism oa) else None)"
    unfolding handshake_v3_x_def assms(1) full_nth mech_field_inj by auto
  moreover have "select_handshake_fun False (gr_recv a ! 10) (gr_recv a ! 11) = V3_1"
    unfolding assms(1) full_nth by (simp add: select_handshake_fun_def)
  ultimately show ?thesis by (auto simp: handshake_def Let_def)
qed

lemma exchange_completes:
  "\<exists>ys. gr_recv (fst (exchange_run oa ob (xs @ ys))) = full_greeting ob \<and>
    gr_recv (snd (exchange_run oa ob (xs @ ys))) = full_greeting oa"
proof (induction "128 - (length (gr_recv (fst (exchange_run oa ob xs))) + length (gr_recv (snd (exchange_run oa ob xs))))"
    arbitrary: xs rule: less_induct)
  case less
  let ?a = "fst (exchange_run oa ob xs)" and ?b = "snd (exchange_run oa ob xs)"
  have ab: "half_ok oa ob ?a ?b" and ba: "half_ok ob oa ?b ?a" using exchange_run_ok [of oa ob xs] by auto
  have go: ?case if "length (gr_recv ?a) + length (gr_recv ?b) <
      length (gr_recv (fst (exchange_run oa ob (xs @ [x])))) + length (gr_recv (snd (exchange_run oa ob (xs @ [x]))))" for x
  proof -
    have "length (gr_recv (fst (exchange_run oa ob (xs @ [x])))) + length (gr_recv (snd (exchange_run oa ob (xs @ [x])))) \<le> 128"
      using half_ok_sel(1) [OF exchange_run_ok [of oa ob "xs @ [x]", THEN conjunct1]]
        half_ok_sel(1) [OF exchange_run_ok [of oa ob "xs @ [x]", THEN conjunct2]] by linarith
    then have "128 - (length (gr_recv (fst (exchange_run oa ob (xs @ [x])))) + length (gr_recv (snd (exchange_run oa ob (xs @ [x])))))
        < 128 - (length (gr_recv ?a) + length (gr_recv ?b))" using that by linarith
    from less [OF this] obtain ys where "gr_recv (fst (exchange_run oa ob ((xs @ [x]) @ ys))) = full_greeting ob \<and>
        gr_recv (snd (exchange_run oa ob ((xs @ [x]) @ ys))) = full_greeting oa" by blast
    then show ?thesis by (intro exI [of _ "x # ys"]) simp
  qed
  consider "unread ?a ?b \<noteq> []" | "unread ?b ?a \<noteq> []" | "unread ?a ?b = []" "unread ?b ?a = []" by blast
  then show ?case
  proof cases
    case 1
    from greeting_read_progress [OF ab ba 1, of 1] show ?thesis
      by (intro go [of "(True, 1)"]) (simp add: exchange_run_def exchange_step_def)
  next
    case 2
    from greeting_read_progress [OF ba ab 2, of 1] show ?thesis
      by (intro go [of "(False, 1)"]) (simp add: exchange_run_def exchange_step_def)
  next
    case 3
    then show ?thesis using exchange_not_stuck [OF ab ba] by (intro exI [of _ "[]"]) simp
  qed
qed

end
