(* ===== verification/ZmtpNull.thy ===== *)
theory ZmtpNull
  imports ZmtpWire
begin

text \<open>
  The NULL mechanism (\<open>3rd/zeromq/src/null_mechanism.cpp\<close>, \<open>mechanism.cpp\<close>): after the greeting each peer
  sends one READY command with its socket type, its routing id and the application's metadata,
  and refuses a peer whose socket type does not go with its own. A ZAP handler, which the library
  never sets up, is an argument: whether it can be connected to, and what reading its reply
  gives. An assertion that fails is \<open>None\<close>.
\<close>

section \<open>32-bit sizes\<close>

definition byte32_at :: "nat \<Rightarrow> 32 word \<Rightarrow> byte" where
  "byte32_at k v = char_of (unat (drop_bit k v AND 0xff))"

definition put_uint32 :: "32 word \<Rightarrow> bytes" where
  "put_uint32 v = map (\<lambda>k. byte32_at k v) [24, 16, 8, 0]"

definition byte_word32 :: "byte \<Rightarrow> 32 word" where
  "byte_word32 c = of_nat (of_char c)"

definition get_uint32 :: "bytes \<Rightarrow> 32 word" where
  "get_uint32 b = push_bit 24 (byte_word32 (b ! 0)) OR push_bit 16 (byte_word32 (b ! 1))
     OR push_bit 8 (byte_word32 (b ! 2)) OR byte_word32 (b ! 3)"

lemma length_put_uint32 [simp]: "length (put_uint32 v) = 4"
  by (simp add: put_uint32_def)

lemma byte_word32_byte_at: "byte_word32 (byte32_at k v) = take_bit 8 (drop_bit k v)"
proof -
  have "byte32_at k v = char_of (unat (take_bit 8 (drop_bit k v)))"
    by (simp add: byte32_at_def take_bit_eq_mask mask_eq_exp_minus_1)
  moreover have "unat (take_bit 8 (drop_bit k v)) < 256"
    using take_bit_nat_less_exp [of 8 "unat (drop_bit k v)"] by (simp add: unsigned_take_bit_eq)
  ultimately show ?thesis by (simp add: byte_word32_def)
qed

lemma get_put_uint32: "get_uint32 (put_uint32 v @ b) = v"
proof (rule bit_word_eqI)
  fix n assume n: "n < LENGTH(32)"
  then consider "n < 8" | "8 \<le> n" "n < 16" | "16 \<le> n" "n < 24" | "24 \<le> n" "n < 32" by fastforce
  then show "bit (get_uint32 (put_uint32 v @ b)) n = bit v n"
    by cases (auto simp: get_uint32_def put_uint32_def byte_word32_byte_at bit_simps)
qed

section \<open>Properties\<close>

datatype socket_type = ST_PAIR | ST_PUB | ST_SUB | ST_REQ | ST_REP | ST_DEALER | ST_ROUTER | ST_PULL
  | ST_PUSH | ST_XPUB | ST_XSUB | ST_STREAM

definition socket_type_string :: "socket_type \<Rightarrow> bytes" where
  "socket_type_string t = (case t of ST_PAIR \<Rightarrow> ''PAIR'' | ST_PUB \<Rightarrow> ''PUB'' | ST_SUB \<Rightarrow> ''SUB'' | ST_REQ \<Rightarrow> ''REQ''
     | ST_REP \<Rightarrow> ''REP'' | ST_DEALER \<Rightarrow> ''DEALER'' | ST_ROUTER \<Rightarrow> ''ROUTER'' | ST_PULL \<Rightarrow> ''PULL'' | ST_PUSH \<Rightarrow> ''PUSH''
     | ST_XPUB \<Rightarrow> ''XPUB'' | ST_XSUB \<Rightarrow> ''XSUB'' | ST_STREAM \<Rightarrow> ''STREAM'')"

definition check_socket_type :: "socket_type \<Rightarrow> bytes \<Rightarrow> bool" where
  "check_socket_type own t = (case own of
       ST_REQ \<Rightarrow> t = ''REP'' \<or> t = ''ROUTER''
     | ST_REP \<Rightarrow> t = ''REQ'' \<or> t = ''DEALER''
     | ST_DEALER \<Rightarrow> t = ''REP'' \<or> t = ''DEALER'' \<or> t = ''ROUTER''
     | ST_ROUTER \<Rightarrow> t = ''REQ'' \<or> t = ''DEALER'' \<or> t = ''ROUTER''
     | ST_PUSH \<Rightarrow> t = ''PULL''
     | ST_PULL \<Rightarrow> t = ''PUSH''
     | ST_PUB \<Rightarrow> t = ''SUB'' \<or> t = ''XSUB''
     | ST_SUB \<Rightarrow> t = ''PUB'' \<or> t = ''XPUB''
     | ST_XPUB \<Rightarrow> t = ''SUB'' \<or> t = ''XSUB''
     | ST_XSUB \<Rightarrow> t = ''PUB'' \<or> t = ''XPUB''
     | ST_PAIR \<Rightarrow> t = ''PAIR''
     | ST_STREAM \<Rightarrow> False)"

record mech_options =
  mo_type :: socket_type
  mo_routing_id :: bytes
  mo_recv_routing_id :: bool
  mo_app_metadata :: "(bytes \<times> bytes) list"
  mo_zap_required :: bool
  mo_zap_enforce_domain :: bool

text \<open>What \<open>strlen\<close> and \<open>c_str\<close> see of a string.\<close>

definition c_string :: "bytes \<Rightarrow> bytes" where
  "c_string s = takeWhile (\<lambda>c. c \<noteq> CHR 0x00) s"

definition add_property :: "bytes \<Rightarrow> bytes \<Rightarrow> bytes option" where
  "add_property name value =
     (if 255 < length name \<or> 0x7FFFFFFF < length value then None
      else Some ([char_of (length name)] @ name @ put_uint32 (of_nat (length value)) @ value))"

definition sends_identity :: "socket_type \<Rightarrow> bool" where
  "sends_identity t \<longleftrightarrow> t = ST_REQ \<or> t = ST_DEALER \<or> t = ST_ROUTER"

text \<open>The properties in the order they are written.\<close>

definition basic_property_list :: "mech_options \<Rightarrow> (bytes \<times> bytes) list" where
  "basic_property_list opts = (''Socket-Type'', socket_type_string (mo_type opts))
     # (if sends_identity (mo_type opts) then [(''Identity'', mo_routing_id opts)] else [])
     @ map (\<lambda>(k, v). (c_string k, c_string v)) (mo_app_metadata opts)"

fun add_properties :: "(bytes \<times> bytes) list \<Rightarrow> bytes option" where
  "add_properties [] = Some []"
| "add_properties ((k, v) # ps) =
     (case add_property k v of None \<Rightarrow> None
      | Some b \<Rightarrow> (case add_properties ps of None \<Rightarrow> None | Some b' \<Rightarrow> Some (b @ b')))"

definition add_basic_properties :: "mech_options \<Rightarrow> bytes option" where
  "add_basic_properties opts = add_properties (basic_property_list opts)"

definition property_len :: "bytes \<Rightarrow> bytes \<Rightarrow> nat" where
  "property_len name value = 1 + length name + 4 + length value"

definition basic_properties_len :: "mech_options \<Rightarrow> nat" where
  "basic_properties_len opts = property_len ''Socket-Type'' (socket_type_string (mo_type opts))
     + sum_list (map (\<lambda>(k, v). property_len (c_string k) (c_string v)) (mo_app_metadata opts))
     + (if sends_identity (mo_type opts) then property_len ''Identity'' (mo_routing_id opts) else 0)"

definition ready_command_name :: bytes where
  "ready_command_name = CHR 0x05 # ''READY''"

definition error_command_name :: bytes where
  "error_command_name = CHR 0x05 # ''ERROR''"

text \<open>The buffer has the computed size; writing more would fail an assertion.\<close>

definition make_command_with_basic_properties :: "mech_options \<Rightarrow> bytes \<Rightarrow> bytes option" where
  "make_command_with_basic_properties opts name =
     (case add_basic_properties opts of None \<Rightarrow> None
      | Some b \<Rightarrow> if length b \<le> basic_properties_len opts then Some (name @ b) else None)"

section \<open>Reading metadata\<close>

datatype mech_error = Mech_EPROTO | Mech_EINVAL | Mech_EAGAIN | Mech_EFSM | Mech_Zap_Failed

record peer_info =
  pi_routing_id :: bytes
  pi_properties :: "bytes \<rightharpoonup> bytes"

definition take_property :: "mech_options \<Rightarrow> bytes \<Rightarrow> bytes \<Rightarrow> peer_info \<Rightarrow> mech_error + peer_info" where
  "take_property opts name value p =
     (let p' = p\<lparr>pi_properties := (if name \<in> dom (pi_properties p) then pi_properties p
                                   else (pi_properties p)(name \<mapsto> value))\<rparr>
      in if name = ''Identity'' \<and> mo_recv_routing_id opts then Inr (p'\<lparr>pi_routing_id := value\<rparr>)
         else if name = ''Socket-Type'' \<and> \<not> check_socket_type (mo_type opts) value then Inl Mech_EINVAL
         else Inr p')"

text \<open>Leaving the loop with bytes left is a protocol error, leaving it with none is not.\<close>

definition metadata_end :: "bytes \<Rightarrow> peer_info \<Rightarrow> mech_error + peer_info" where
  "metadata_end b p = (if 0 < length b then Inl Mech_EPROTO else Inr p)"

function parse_metadata :: "mech_options \<Rightarrow> bytes \<Rightarrow> peer_info \<Rightarrow> mech_error + peer_info" where
  "parse_metadata opts b p =
     (if length b \<le> 1 then metadata_end b p
      else let name_length = of_char (b ! 0); b1 = drop 1 b
           in if length b1 < name_length then metadata_end b1 p
              else let name = take name_length b1; b2 = drop name_length b1
                   in if length b2 < 4 then metadata_end b2 p
                      else let value_length = unat (get_uint32 b2); b3 = drop 4 b2
                           in if length b3 < value_length then metadata_end b3 p
                              else (case take_property opts name (take value_length b3) p of
                                  Inl e \<Rightarrow> Inl e
                                | Inr p' \<Rightarrow> parse_metadata opts (drop value_length b3) p'))"
  by pat_completeness auto
termination
  by (relation "measure (\<lambda>(opts, b, p). length b)") auto

declare parse_metadata.simps [simp del]

fun take_properties :: "mech_options \<Rightarrow> (bytes \<times> bytes) list \<Rightarrow> peer_info \<Rightarrow> mech_error + peer_info" where
  "take_properties opts [] p = Inr p"
| "take_properties opts ((k, v) # ps) p =
     (case take_property opts k v p of Inl e \<Rightarrow> Inl e | Inr p' \<Rightarrow> take_properties opts ps p')"

text \<open>Reading gives back what was written.\<close>

lemma of_char_of_length: "n \<le> 255 \<Longrightarrow> (of_char (char_of n :: char) :: nat) = n"
  by simp

lemma parse_property:
  assumes "add_property k v = Some b"
  shows "parse_metadata opts (b @ c) p = (case take_property opts k v p of Inl e \<Rightarrow> Inl e | Inr p' \<Rightarrow> parse_metadata opts c p')"
proof -
  have len: "length k \<le> 255" "length v \<le> 0x7FFFFFFF"
    and b: "b = [char_of (length k)] @ k @ put_uint32 (of_nat (length v)) @ v"
    using assms by (auto simp: add_property_def split: if_splits)
  have "unat (of_nat (length v) :: 32 word) = length v" using len by (simp add: unat_of_nat)
  then show ?thesis using len
    by (subst parse_metadata.simps) (simp add: b get_put_uint32 Let_def split: sum.split)
qed

lemma parse_properties:
  "add_properties ps = Some b \<Longrightarrow> parse_metadata opts b p = take_properties opts ps p"
proof (induction ps arbitrary: b p)
  case Nil
  then show ?case by (subst parse_metadata.simps) (simp add: metadata_end_def)
next
  case (Cons kv ps)
  obtain k v where kv: "kv = (k, v)" by (cases kv)
  from Cons.prems obtain b1 b2 where b: "add_property k v = Some b1" "add_properties ps = Some b2" "b = b1 @ b2"
    by (auto simp: kv split: option.splits)
  show ?case using Cons.IH [OF b(2)] parse_property [OF b(1)] by (simp add: kv b(3) split: sum.split)
qed

lemma add_properties_length: "add_properties ps = Some b \<Longrightarrow> length b = sum_list (map (\<lambda>(k, v). property_len k v) ps)"
  by (induction ps arbitrary: b) (auto simp: add_property_def property_len_def split: option.splits if_splits)

text \<open>The computed size is the size written.\<close>

lemma basic_properties_fit: "add_basic_properties opts = Some b \<Longrightarrow> length b = basic_properties_len opts"
  using add_properties_length [of "basic_property_list opts" b]
  by (simp add: add_basic_properties_def basic_property_list_def basic_properties_len_def case_prod_unfold comp_def del: add_properties.simps)

lemma add_properties_ok:
  "add_properties ps \<noteq> None \<longleftrightarrow> (\<forall>(k, v) \<in> set ps. length k \<le> 255 \<and> length v \<le> 0x7FFFFFFF)"
  by (induction ps) (auto simp: add_property_def split: option.splits if_splits)

section \<open>The mechanism\<close>

record null_mechanism =
  nm_ready_sent :: bool
  nm_error_sent :: bool
  nm_ready_received :: bool
  nm_error_received :: bool
  nm_zap_request_sent :: bool
  nm_zap_reply_received :: bool
  nm_status_code :: bytes
  nm_peer :: peer_info

definition null_mechanism_new :: null_mechanism where
  "null_mechanism_new = \<lparr>nm_ready_sent = False, nm_error_sent = False, nm_ready_received = False,
     nm_error_received = False, nm_zap_request_sent = False, nm_zap_reply_received = False, nm_status_code = [],
     nm_peer = \<lparr>pi_routing_id = [], pi_properties = Map.empty\<rparr>\<rparr>"

text \<open>The handler: whether \<open>zap_connect\<close> succeeds, and the result of \<open>receive_and_process_zap_reply\<close> with
  the status code it leaves.\<close>

record zap_handler =
  zh_connects :: bool
  zh_reply :: "int \<times> bytes"

definition receive_zap_reply :: "zap_handler \<Rightarrow> null_mechanism \<Rightarrow> int \<times> null_mechanism" where
  "receive_zap_reply z m = (fst (zh_reply z), if fst (zh_reply z) = 0 then m\<lparr>nm_status_code := snd (zh_reply z)\<rparr> else m)"

datatype zap_outcome = Zap_Stop mech_error | Zap_Go

definition ask_zap :: "zap_handler \<Rightarrow> mech_options \<Rightarrow> null_mechanism \<Rightarrow> zap_outcome \<times> null_mechanism" where
  "ask_zap z opts m =
     (if \<not> (mo_zap_required opts \<and> \<not> nm_zap_reply_received m) then (Zap_Go, m)
      else if nm_zap_request_sent m then (Zap_Stop Mech_EAGAIN, m)
      else if \<not> zh_connects z then (if mo_zap_enforce_domain opts then (Zap_Stop Mech_Zap_Failed, m) else (Zap_Go, m))
      else case receive_zap_reply z (m\<lparr>nm_zap_request_sent := True\<rparr>) of
          (rc, m') \<Rightarrow> if rc \<noteq> 0 then (Zap_Stop (if rc = 1 then Mech_EAGAIN else Mech_Zap_Failed), m') else (Zap_Go, m'\<lparr>nm_zap_reply_received := True\<rparr>))"

definition next_handshake_command ::
  "zap_handler \<Rightarrow> mech_options \<Rightarrow> null_mechanism \<Rightarrow> (mech_error + bytes) option \<times> null_mechanism" where
  "next_handshake_command z opts m =
     (if nm_ready_sent m \<or> nm_error_sent m then (Some (Inl Mech_EAGAIN), m)
      else case ask_zap z opts m of
          (Zap_Stop e, m') \<Rightarrow> (Some (Inl e), m')
        | (Zap_Go, m') \<Rightarrow>
            if nm_zap_reply_received m' \<and> nm_status_code m' \<noteq> ''200''
            then (Some (if nm_status_code m' \<noteq> ''300''
                        then Inr (error_command_name @ [CHR 0x03] @ take 3 (nm_status_code m')) else Inl Mech_EAGAIN),
                  m'\<lparr>nm_error_sent := True\<rparr>)
            else case make_command_with_basic_properties opts ready_command_name of
                None \<Rightarrow> (None, m')
              | Some b \<Rightarrow> (Some (Inr b), m'\<lparr>nm_ready_sent := True\<rparr>))"

definition zap_msg_available :: "zap_handler \<Rightarrow> null_mechanism \<Rightarrow> (mech_error + unit) \<times> null_mechanism" where
  "zap_msg_available z m =
     (if nm_zap_reply_received m then (Inl Mech_EFSM, m)
      else case receive_zap_reply z m of
          (rc, m') \<Rightarrow> (if rc = - 1 then Inl Mech_Zap_Failed else Inr (),
                       if rc = 0 then m'\<lparr>nm_zap_reply_received := True\<rparr> else m'))"

definition process_ready_command :: "mech_options \<Rightarrow> bytes \<Rightarrow> null_mechanism \<Rightarrow> (mech_error + unit) \<times> null_mechanism" where
  "process_ready_command opts b m =
     (let m' = m\<lparr>nm_ready_received := True\<rparr>
      in case parse_metadata opts (drop (length ready_command_name) b) (nm_peer m') of
          Inl e \<Rightarrow> (Inl e, m')
        | Inr p \<Rightarrow> (Inr (), m'\<lparr>nm_peer := p\<rparr>))"

definition process_error_command :: "bytes \<Rightarrow> null_mechanism \<Rightarrow> (mech_error + unit) \<times> null_mechanism" where
  "process_error_command b m =
     (if length b < length error_command_name + 1 then (Inl Mech_EPROTO, m)
      else if length b - (length error_command_name + 1) < of_char (b ! length error_command_name) then (Inl Mech_EPROTO, m)
      else (Inr (), m\<lparr>nm_error_received := True\<rparr>))"

definition process_handshake_command :: "mech_options \<Rightarrow> bytes \<Rightarrow> null_mechanism \<Rightarrow> (mech_error + unit) \<times> null_mechanism" where
  "process_handshake_command opts b m =
     (if nm_ready_received m \<or> nm_error_received m then (Inl Mech_EPROTO, m)
      else if length ready_command_name \<le> length b \<and> take (length ready_command_name) b = ready_command_name
        then process_ready_command opts b m
      else if length error_command_name \<le> length b \<and> take (length error_command_name) b = error_command_name
        then process_error_command b m
      else (Inl Mech_EPROTO, m))"

datatype mech_status = Mech_Ready | Mech_Error | Mech_Handshaking

definition null_status :: "null_mechanism \<Rightarrow> mech_status" where
  "null_status m =
     (if nm_ready_sent m \<and> nm_ready_received m then Mech_Ready
      else if (nm_ready_sent m \<or> nm_error_sent m) \<and> (nm_ready_received m \<or> nm_error_received m) then Mech_Error
      else Mech_Handshaking)"

section \<open>Two peers\<close>

definition sendable_options :: "mech_options \<Rightarrow> bool" where
  "sendable_options opts \<longleftrightarrow> length (mo_routing_id opts) \<le> 255 \<and>
     (\<forall>(k, v) \<in> set (mo_app_metadata opts). length (c_string k) \<le> 255 \<and> length (c_string v) \<le> 0x7FFFFFFF)"

lemma ready_made:
  assumes "sendable_options opts"
  obtains b where "add_properties (basic_property_list opts) = Some b"
    "make_command_with_basic_properties opts ready_command_name = Some (ready_command_name @ b)"
proof -
  have "length (socket_type_string t) \<le> 10" for t by (cases t) (simp_all add: socket_type_string_def)
  then have "length (socket_type_string (mo_type opts)) \<le> 0x7FFFFFFF" by (meson le_trans numeral_le_iff semiring_norm)
  then have "add_properties (basic_property_list opts) \<noteq> None"
    using assms unfolding add_properties_ok by (auto simp: basic_property_list_def sendable_options_def)
  then obtain b where b: "add_properties (basic_property_list opts) = Some b" by blast
  then have "add_basic_properties opts = Some b" by (simp add: add_basic_properties_def)
  then show thesis using that b basic_properties_fit by (simp add: make_command_with_basic_properties_def)
qed

text \<open>What the READY of a peer does: its properties are taken one after the other.\<close>

lemma ready_processed:
  assumes "sendable_options oa" "\<not> nm_ready_received m" "\<not> nm_error_received m"
  obtains b where "make_command_with_basic_properties oa ready_command_name = Some b"
    "process_handshake_command ob b m =
      (case take_properties ob (basic_property_list oa) (nm_peer m) of
         Inl e \<Rightarrow> (Inl e, m\<lparr>nm_ready_received := True\<rparr>)
       | Inr p \<Rightarrow> (Inr (), m\<lparr>nm_ready_received := True, nm_peer := p\<rparr>))"
proof -
  obtain b where b: "add_properties (basic_property_list oa) = Some b"
    "make_command_with_basic_properties oa ready_command_name = Some (ready_command_name @ b)"
    by (rule ready_made [OF assms(1)])
  show thesis
    by (rule that [OF b(2)])
      (use assms(2,3) parse_properties [OF b(1), of ob "nm_peer m"] in
        \<open>simp add: process_handshake_command_def process_ready_command_def Let_def\<close>)
qed

lemma check_symmetric:
  "check_socket_type s (socket_type_string t) = check_socket_type t (socket_type_string s)"
  by (cases s; cases t) (simp_all add: check_socket_type_def socket_type_string_def)

text \<open>The application's metadata cannot stand in for the two properties of the mechanism.\<close>

definition own_names :: "mech_options \<Rightarrow> bool" where
  "own_names opts \<longleftrightarrow> (\<forall>(k, v) \<in> set (mo_app_metadata opts). c_string k \<noteq> ''Socket-Type'' \<and> c_string k \<noteq> ''Identity'')"

lemma take_others:
  "\<forall>(k, v) \<in> set ps. k \<noteq> ''Socket-Type'' \<and> k \<noteq> ''Identity'' \<Longrightarrow>
    \<exists>q. take_properties opts ps p = Inr q \<and> pi_routing_id q = pi_routing_id p \<and>
      (\<forall>k \<in> dom (pi_properties p). pi_properties q k = pi_properties p k)"
proof (induction ps arbitrary: p)
  case (Cons kv ps)
  obtain k v where kv: "kv = (k, v)" by (cases kv)
  let ?p = "p\<lparr>pi_properties := (if k \<in> dom (pi_properties p) then pi_properties p else (pi_properties p)(k \<mapsto> v))\<rparr>"
  have t: "take_property opts k v p = Inr ?p" using Cons.prems by (simp add: take_property_def kv Let_def)
  from Cons.IH [of ?p] Cons.prems obtain q where "take_properties opts ps ?p = Inr q" "pi_routing_id q = pi_routing_id ?p"
    "\<forall>k \<in> dom (pi_properties ?p). pi_properties q k = pi_properties ?p k" by auto
  then show ?case using t by (auto simp: kv)
qed simp

lemma ready_accepted:
  assumes "own_names oa" "p = \<lparr>pi_routing_id = [], pi_properties = Map.empty\<rparr>"
  shows "if check_socket_type (mo_type ob) (socket_type_string (mo_type oa))
    then \<exists>q. take_properties ob (basic_property_list oa) p = Inr q \<and>
      pi_routing_id q = (if mo_recv_routing_id ob \<and> sends_identity (mo_type oa) then mo_routing_id oa else []) \<and>
      pi_properties q ''Socket-Type'' = Some (socket_type_string (mo_type oa))
    else take_properties ob (basic_property_list oa) p = Inl Mech_EINVAL"
proof (cases "check_socket_type (mo_type ob) (socket_type_string (mo_type oa))")
  case False
  then show ?thesis by (simp add: basic_property_list_def take_property_def Let_def)
next
  case True
  let ?id = "if sends_identity (mo_type oa) then [(''Identity'', mo_routing_id oa)] else []"
  let ?p1 = "\<lparr>pi_routing_id = [], pi_properties = [''Socket-Type'' \<mapsto> socket_type_string (mo_type oa)]\<rparr>"
  let ?p2 = "if sends_identity (mo_type oa)
    then \<lparr>pi_routing_id = (if mo_recv_routing_id ob then mo_routing_id oa else []),
      pi_properties = [''Socket-Type'' \<mapsto> socket_type_string (mo_type oa), ''Identity'' \<mapsto> mo_routing_id oa]\<rparr> else ?p1"
  let ?rest = "map (\<lambda>(k, v). (c_string k, c_string v)) (mo_app_metadata oa)"
  have "\<forall>(k, v) \<in> set ?rest. k \<noteq> ''Socket-Type'' \<and> k \<noteq> ''Identity''" using assms(1) by (auto simp: own_names_def)
  from take_others [OF this, of ob ?p2] obtain q where q: "take_properties ob ?rest ?p2 = Inr q"
    "pi_routing_id q = pi_routing_id ?p2" "\<forall>k \<in> dom (pi_properties ?p2). pi_properties q k = pi_properties ?p2 k" by blast
  have "take_properties ob (basic_property_list oa) p = take_properties ob ?rest ?p2"
    using True by (simp add: basic_property_list_def take_property_def Let_def assms(2))
  moreover have "pi_properties ?p2 ''Socket-Type'' = Some (socket_type_string (mo_type oa))" by simp
  ultimately show ?thesis using True q by (auto split: if_splits)
qed
text \<open>Metadata that stops right after the name of a property is taken as complete, so that a peer can
  leave out its socket type.\<close>

lemma metadata_cut_accepted:
  "parse_metadata opts [] p = Inr p"
  "parse_metadata opts (CHR 0x0B # ''Socket-Type'') p = Inr p"
  by (subst parse_metadata.simps, simp add: metadata_end_def)+

end
