(* ===== verification/ZmqPipeTerm.thy ===== *)
theory ZmqPipeTerm
  imports ZmqChannel
begin

text \<open>
  How the two ends of a pipe are taken down (\<open>3rd/zeromq/src/pipe.cpp\<close>: \<open>terminate\<close>, \<open>process_pipe_term\<close>,
  \<open>process_pipe_term_ack\<close>, \<open>process_delimiter\<close>): either end may ask at any time, both may ask at once, and
  messages on the way may have to be read first. Each end has a mailbox of commands from the
  other. \<open>None\<close> is an assertion that fails, a command for an end that was deallocated, or an access
  to a queue its reader has freed; none of them can happen, and once an end was asked to terminate
  both ends get to be deallocated.
\<close>

section \<open>One end\<close>

text \<open>\<open>pe_has_out\<close> says that the pointer to the outbound queue is not NULL.\<close>

record pipe_end =
  pe_pipe :: pipe_t
  pe_delay :: bool
  pe_has_out :: bool
  pe_gone :: bool

definition new_end :: "int \<Rightarrow> int \<Rightarrow> pipe_end" where
  "new_end inhwm outhwm = \<lparr>pe_pipe = new_pipe inhwm outhwm, pe_delay = True, pe_has_out = True, pe_gone = False\<rparr>"

definition set_nodelay :: "pipe_end \<Rightarrow> pipe_end" where
  "set_nodelay e = e\<lparr>pe_delay := False\<rparr>"

definition delimiter :: msg_t where
  "delimiter = \<lparr>m_data = [], m_more = False, m_kind = Delimiter\<rparr>"

definition send_cmd :: "pipe_cmd \<Rightarrow> pipe_t \<Rightarrow> pipe_t" where
  "send_cmd x p = p\<lparr>p_cmds := p_cmds p @ [x]\<rparr>"

text \<open>Forgetting the outbound queue and acknowledging, on the way to a state.\<close>

definition ack_to :: "pipe_state \<Rightarrow> pipe_end \<Rightarrow> pipe_end" where
  "ack_to s e = e\<lparr>pe_pipe := send_cmd Pipe_Term_Ack ((pe_pipe e)\<lparr>p_state := s\<rparr>), pe_has_out := False\<rparr>"

definition process_pipe_term :: "pipe_end \<Rightarrow> pipe_end option" where
  "process_pipe_term e = (case p_state (pe_pipe e) of
       active \<Rightarrow> Some (if pe_delay e then e\<lparr>pe_pipe := (pe_pipe e)\<lparr>p_state := waiting_for_delimiter\<rparr>\<rparr>
                       else ack_to term_ack_sent e)
     | delimiter_received \<Rightarrow> Some (ack_to term_ack_sent e)
     | term_req_sent1 \<Rightarrow> Some (ack_to term_req_sent2 e)
     | _ \<Rightarrow> None)"

definition process_pipe_term_ack :: "pipe_end \<Rightarrow> pipe_end option" where
  "process_pipe_term_ack e = (case p_state (pe_pipe e) of
       term_req_sent1 \<Rightarrow> Some ((ack_to term_req_sent1 e)\<lparr>pe_gone := True\<rparr>)
     | term_ack_sent \<Rightarrow> Some (e\<lparr>pe_gone := True\<rparr>)
     | term_req_sent2 \<Rightarrow> Some (e\<lparr>pe_gone := True\<rparr>)
     | _ \<Rightarrow> None)"

text \<open>The end of \<open>terminate\<close>: no more messages, and the delimiter, for which the marks do not count.\<close>

definition stop_output :: "pipe_end \<Rightarrow> pipe_end" where
  "stop_output e =
     (let p = (pe_pipe e)\<lparr>p_out_active := False\<rparr>
      in if pe_has_out e
         then let p' = pipe_rollback p
              in e\<lparr>pe_pipe := pipe_flush (p'\<lparr>p_ready := p_ready p' @ [delimiter]\<rparr>)\<rparr>
         else e\<lparr>pe_pipe := p\<rparr>)"

definition terminate :: "bool \<Rightarrow> pipe_end \<Rightarrow> pipe_end" where
  "terminate delay e0 =
     (let e = e0\<lparr>pe_delay := delay\<rparr>; p = pe_pipe e
      in case p_state p of
          term_req_sent1 \<Rightarrow> e
        | term_req_sent2 \<Rightarrow> e
        | term_ack_sent \<Rightarrow> e
        | active \<Rightarrow> stop_output (e\<lparr>pe_pipe := (send_cmd Pipe_Term p)\<lparr>p_state := term_req_sent1\<rparr>\<rparr>)
        | waiting_for_delimiter \<Rightarrow>
            if \<not> delay then stop_output (ack_to term_ack_sent (e\<lparr>pe_pipe := pipe_rollback p\<rparr>))
            else stop_output e
        | delimiter_received \<Rightarrow> stop_output (e\<lparr>pe_pipe := (send_cmd Pipe_Term p)\<lparr>p_state := term_req_sent1\<rparr>\<rparr>))"

text \<open>\<open>process_delimiter\<close> in the waiting state forgets the outbound queue as well.\<close>

definition end_after_read :: "pipe_t \<Rightarrow> pipe_end \<Rightarrow> pipe_end" where
  "end_after_read p e = e\<lparr>pe_pipe := p, pe_has_out := pe_has_out e \<and> p_state p \<noteq> term_ack_sent\<rparr>"

section \<open>Both ends\<close>

record pipe_pair =
  pp_end :: "bool \<Rightarrow> pipe_end"
  pp_mail :: "bool \<Rightarrow> pipe_cmd list"

definition new_pair :: "int \<Rightarrow> int \<Rightarrow> pipe_pair" where
  "new_pair hwm0 hwm1 = \<lparr>pp_end = (\<lambda>x. if x then new_end hwm0 hwm1 else new_end hwm1 hwm0), pp_mail = (\<lambda>x. [])\<rparr>"

text \<open>Putting an end back: its commands go to the other end's mailbox.\<close>

definition put_end :: "bool \<Rightarrow> pipe_end \<Rightarrow> pipe_pair \<Rightarrow> pipe_pair option" where
  "put_end x e c =
     (let cs = p_cmds (pe_pipe e)
      in if cs \<noteq> [] \<and> pe_gone (pp_end c (\<not> x)) then None
         else Some (c\<lparr>pp_end := (pp_end c)(x := e\<lparr>pe_pipe := (pe_pipe e)\<lparr>p_cmds := []\<rparr>\<rparr>),
                      pp_mail := (pp_mail c)(\<not> x := pp_mail c (\<not> x) @ cs)\<rparr>))"

text \<open>An operation that writes to the outbound queue: its reader must not have freed it.\<close>

definition write_end :: "bool \<Rightarrow> pipe_end \<Rightarrow> pipe_pair \<Rightarrow> pipe_pair option" where
  "write_end x e c = (if pe_has_out (pp_end c x) \<and> pe_gone (pp_end c (\<not> x)) then None else put_end x e c)"

definition inbound_of :: "bool \<Rightarrow> pipe_pair \<Rightarrow> pipe_t" where
  "inbound_of x c = (pe_pipe (pp_end c x))\<lparr>p_in := p_out (pe_pipe (pp_end c (\<not> x)))\<rparr>"

text \<open>After a read the rest of the queue is still kept at the writing end.\<close>

definition read_end :: "bool \<Rightarrow> pipe_t \<Rightarrow> pipe_pair \<Rightarrow> pipe_pair option" where
  "read_end x p c =
     (let y = pp_end c (\<not> x); q = pe_pipe y;
          y' = y\<lparr>pe_pipe := q\<lparr>p_out := p_in p,
            p_peer_asleep := p_peer_asleep q \<or> (p_in_active (pe_pipe (pp_end c x)) \<and> \<not> p_in_active p)\<rparr>\<rparr>
      in put_end x (end_after_read (p\<lparr>p_in := []\<rparr>) (pp_end c x)) (c\<lparr>pp_end := (pp_end c)(\<not> x := y')\<rparr>))"

datatype term_act = T_Write msg_t | T_Flush | T_Rollback | T_Check | T_Read | T_Nodelay | T_Terminate bool | T_Command

definition process_command :: "pipe_cmd \<Rightarrow> pipe_end \<Rightarrow> pipe_end option" where
  "process_command m e = (case m of
       Activate_Read \<Rightarrow> Some (e\<lparr>pe_pipe := snd (process_activate_read (pe_pipe e))\<rparr>)
     | Activate_Write n \<Rightarrow> Some (e\<lparr>pe_pipe := snd (process_activate_write n (pe_pipe e))\<rparr>)
     | Pipe_Term \<Rightarrow> process_pipe_term e
     | Pipe_Term_Ack \<Rightarrow> process_pipe_term_ack e)"

text \<open>A step of end \<open>x\<close>. The owner of an end that is gone has been told and does nothing with it.\<close>

definition term_step :: "bool \<times> term_act \<Rightarrow> pipe_pair \<Rightarrow> pipe_pair option" where
  "term_step xa c =
     (let x = fst xa; e = pp_end c x; p = pe_pipe e
      in case snd xa of
          T_Command \<Rightarrow> (case pp_mail c x of
              [] \<Rightarrow> Some c
            | m # ms \<Rightarrow> if pe_gone e then None
                else Option.bind (process_command m e) (\<lambda>e'. put_end x e' (c\<lparr>pp_mail := (pp_mail c)(x := ms)\<rparr>)))
        | act \<Rightarrow>
            if pe_gone e then Some c
            else (case act of
                T_Write m \<Rightarrow> write_end x (e\<lparr>pe_pipe := snd (pipe_write m p)\<rparr>) c
              | T_Flush \<Rightarrow> write_end x (if pe_has_out e then e\<lparr>pe_pipe := pipe_flush p\<rparr> else e) c
              | T_Rollback \<Rightarrow> write_end x (if pe_has_out e then e\<lparr>pe_pipe := pipe_rollback p\<rparr> else e) c
              | T_Check \<Rightarrow> read_end x (snd (pipe_check_read (inbound_of x c))) c
              | T_Read \<Rightarrow> read_end x (snd (pipe_read (inbound_of x c))) c
              | T_Nodelay \<Rightarrow> Some (c\<lparr>pp_end := (pp_end c)(x := set_nodelay e)\<rparr>)
              | T_Terminate d \<Rightarrow> write_end x (terminate d e) c
              | T_Command \<Rightarrow> Some c))"

fun term_run :: "(bool \<times> term_act) list \<Rightarrow> pipe_pair \<Rightarrow> pipe_pair option" where
  "term_run [] c = Some c"
| "term_run (a # as) c = Option.bind (term_step a c) (term_run as)"

definition user_act :: "bool \<times> term_act \<Rightarrow> bool" where
  "user_act a = (case snd a of T_Write m \<Rightarrow> m_kind m \<noteq> Delimiter | _ \<Rightarrow> True)"

section \<open>The protocol\<close>

text \<open>What a state tells: the end has asked to terminate, or has had the other's request. An end that
  has acknowledged has no outbound queue.\<close>

definition asked :: "pipe_state \<Rightarrow> bool" where
  "asked s \<longleftrightarrow> s = term_req_sent1 \<or> s = term_req_sent2"

definition had_request :: "pipe_state \<Rightarrow> bool" where
  "had_request s \<longleftrightarrow> s = waiting_for_delimiter \<or> s = term_ack_sent \<or> s = term_req_sent2"

definition settled :: "pipe_state \<Rightarrow> bool \<Rightarrow> bool \<Rightarrow> bool" where
  "settled s a g = (case s of active \<Rightarrow> \<not> a \<and> \<not> g | delimiter_received \<Rightarrow> \<not> a \<and> \<not> g | waiting_for_delimiter \<Rightarrow> \<not> a \<and> \<not> g
     | term_ack_sent \<Rightarrow> a | term_req_sent2 \<Rightarrow> a | term_req_sent1 \<Rightarrow> a = g)"

definition is_term :: "pipe_cmd \<Rightarrow> bool" where
  "is_term m \<longleftrightarrow> m = Pipe_Term \<or> m = Pipe_Term_Ack"

text \<open>From an end in state \<open>s\<close> that has acknowledged (\<open>a\<close>) or is gone (\<open>g\<close>) to the other with mailbox \<open>m\<close>.\<close>

definition proto :: "pipe_state \<Rightarrow> bool \<Rightarrow> bool \<Rightarrow> pipe_state \<Rightarrow> bool \<Rightarrow> pipe_cmd list \<Rightarrow> bool" where
  "proto s a g s' g' m \<longleftrightarrow> settled s a g \<and>
     filter is_term m = (if asked s \<and> \<not> had_request s' then [Pipe_Term] else []) @ (if a \<and> \<not> g' then [Pipe_Term_Ack] else []) \<and>
     Pipe_Term_Ack \<notin> set (butlast m) \<and> (g' \<longrightarrow> m = []) \<and> (had_request s' \<longrightarrow> asked s) \<and> (g' \<longrightarrow> a) \<and>
     (g' \<and> \<not> had_request s' \<longrightarrow> \<not> asked s)"

lemma is_term_simps [simp]:
  "is_term Pipe_Term" "is_term Pipe_Term_Ack" "\<not> is_term Activate_Read" "\<not> is_term (Activate_Write n)"
  by (simp_all add: is_term_def)

lemmas state_defs = asked_def had_request_def settled_def

lemma ack_not_sent: "proto s a g s' g' m \<Longrightarrow> \<not> a \<Longrightarrow> Pipe_Term_Ack \<notin> set m \<and> \<not> g'"
proof -
  assume p: "proto s a g s' g' m" "\<not> a"
  then have "Pipe_Term_Ack \<notin> set (filter is_term m)" by (simp add: proto_def)
  then show ?thesis using p by (auto simp: proto_def)
qed

text \<open>Sending: commands of other kinds, the request, the acknowledgement.\<close>

lemma proto_send:
  assumes "proto s a g s' g' m" "\<not> a" "\<forall>x \<in> set cs. \<not> is_term x"
  shows "proto s a g s' g' (m @ cs)"
proof -
  have "Pipe_Term_Ack \<notin> set m" "\<not> g'" using ack_not_sent [OF assms(1,2)] by auto
  moreover have "Pipe_Term_Ack \<notin> set cs" "filter is_term cs = []" using assms(3) by (auto simp: filter_empty_conv)
  ultimately show ?thesis using assms(1,2) by (auto simp: proto_def dest: in_set_butlastD)
qed

lemma proto_ask:
  assumes "proto s a g s' g' m" "\<not> a" "s = active \<or> s = delimiter_received" "\<forall>x \<in> set cs. \<not> is_term x"
  shows "proto term_req_sent1 a g s' g' (m @ Pipe_Term # cs)"
proof -
  have "Pipe_Term_Ack \<notin> set m" "\<not> g'" using ack_not_sent [OF assms(1,2)] by auto
  moreover have "Pipe_Term_Ack \<notin> set cs" "filter is_term cs = []" using assms(4) by (auto simp: filter_empty_conv)
  ultimately show ?thesis using assms(1-3) by (auto simp: proto_def state_defs dest: in_set_butlastD)
qed

lemma proto_ack:
  assumes "proto s a g s' g' m" "\<not> a" "asked s1 = asked s" "settled s1 True g1" "\<forall>x \<in> set cs. \<not> is_term x"
  shows "proto s1 True g1 s' g' (m @ cs @ [Pipe_Term_Ack])"
proof -
  have "Pipe_Term_Ack \<notin> set m" "\<not> g'" using ack_not_sent [OF assms(1,2)] by auto
  moreover have "Pipe_Term_Ack \<notin> set cs" "filter is_term cs = []" using assms(5) by (auto simp: filter_empty_conv)
  ultimately show ?thesis using assms(1-4) by (auto simp: proto_def butlast_append)
qed

text \<open>Receiving.\<close>

lemma proto_get_other:
  assumes "proto s a g s' g' (x # m)" "\<not> is_term x"
  shows "proto s a g s' g' m" "\<not> g'"
  using assms by (auto simp: proto_def split: if_splits)

lemma proto_get_request:
  assumes "proto s a g s' g' (Pipe_Term # m)" "had_request s1"
  shows "proto s a g s1 g' m" "\<not> g'" "\<not> had_request s'" "asked s"
  using assms by (auto simp: proto_def split: if_splits)

lemma second_of_two: "[y] = (if P then [x] else []) @ (if Q then [y] else []) \<Longrightarrow> x \<noteq> y \<Longrightarrow> \<not> P \<and> Q"
  by (cases P; cases Q) simp_all

lemma proto_get_ack:
  assumes "proto s a g s' g' (Pipe_Term_Ack # m)"
  shows "m = []" "\<not> g'" "a" "proto s a g s' True []" "asked s \<longrightarrow> had_request s'"
proof -
  have "Pipe_Term_Ack \<notin> set (butlast (Pipe_Term_Ack # m))" using assms unfolding proto_def by blast
  then show m: "m = []" by (cases m) auto
  show g: "\<not> g'" using assms unfolding proto_def by blast
  have f: "filter is_term (Pipe_Term_Ack # m) =
      (if asked s \<and> \<not> had_request s' then [Pipe_Term] else []) @ (if a \<and> \<not> g' then [Pipe_Term_Ack] else [])"
    using assms unfolding proto_def by (elim conjE)
  have "\<not> (asked s \<and> \<not> had_request s') \<and> a \<and> \<not> g'"
    by (rule second_of_two [of Pipe_Term_Ack _ Pipe_Term], rule trans [OF _ f]) (simp_all add: m)
  then show a: "a" and r: "asked s \<longrightarrow> had_request s'" by blast+
  have "settled s a g" "had_request s' \<longrightarrow> asked s" using assms unfolding proto_def by blast+
  then show "proto s a g s' True []" using a r unfolding proto_def by auto
qed
section \<open>One direction of a pair\<close>

text \<open>Nothing is left over between the steps, and a delimiter is not written before it is flushed.\<close>

definition no_delim :: "msg_t list \<Rightarrow> bool" where
  "no_delim ms \<longleftrightarrow> (\<forall>m \<in> set ms. m_kind m \<noteq> Delimiter)"

definition tidy :: "pipe_t \<Rightarrow> bool" where
  "tidy p \<longleftrightarrow> p_in p = [] \<and> p_cmds p = [] \<and> no_delim (p_ready p) \<and> no_delim (p_part p)"

definition may_read :: "pipe_state \<Rightarrow> bool" where
  "may_read s \<longleftrightarrow> s = active \<or> s = waiting_for_delimiter"

text \<open>The delimiters in the queue \<open>q\<close> from an end in \<open>s\<close> to one in \<open>s'\<close>.\<close>

definition delims :: "pipe_state \<Rightarrow> msg_t list \<Rightarrow> pipe_state \<Rightarrow> bool" where
  "delims s q s' \<longleftrightarrow> (asked s \<and> may_read s' \<longrightarrow> \<not> no_delim q) \<and>
     (\<not> asked s' \<and> (\<not> no_delim q \<or> s' = delimiter_received) \<longrightarrow> asked s)"

text \<open>A reader that waits will be woken.\<close>

definition awake :: "pipe_t \<Rightarrow> pipe_t \<Rightarrow> pipe_cmd list \<Rightarrow> bool" where
  "awake p p' m \<longleftrightarrow> (may_read (p_state p') \<longrightarrow> p_in_active p' \<or> Activate_Read \<in> set m \<or> p_peer_asleep p \<and> p_out p = [])"

definition link :: "pipe_end \<Rightarrow> pipe_end \<Rightarrow> pipe_cmd list \<Rightarrow> bool" where
  "link e y m \<longleftrightarrow>
     proto (p_state (pe_pipe e)) (\<not> pe_has_out e) (pe_gone e) (p_state (pe_pipe y)) (pe_gone y) m \<and>
     tidy (pe_pipe e) \<and> delims (p_state (pe_pipe e)) (p_out (pe_pipe e)) (p_state (pe_pipe y)) \<and>
     awake (pe_pipe e) (pe_pipe y) m"

definition pair_ok :: "pipe_pair \<Rightarrow> bool" where
  "pair_ok c \<longleftrightarrow> (\<forall>x. link (pp_end c x) (pp_end c (\<not> x)) (pp_mail c (\<not> x)))"

definition posted :: "pipe_end \<Rightarrow> pipe_end" where
  "posted e = e\<lparr>pe_pipe := (pe_pipe e)\<lparr>p_cmds := []\<rparr>\<rparr>"

lemma no_delim_simps [simp]:
  "no_delim []" "no_delim (m # ms) \<longleftrightarrow> m_kind m \<noteq> Delimiter \<and> no_delim ms" "no_delim (xs @ ys) \<longleftrightarrow> no_delim xs \<and> no_delim ys"
  by (auto simp: no_delim_def)

lemma delimiter_kind [simp]: "m_kind delimiter = Delimiter"
  by (simp add: delimiter_def)

lemma no_delim_skip: "no_delim (skip_credentials q) \<longleftrightarrow> no_delim q"
  by (induction q) auto

lemma linkD:
  assumes "link e y m"
  shows "proto (p_state (pe_pipe e)) (\<not> pe_has_out e) (pe_gone e) (p_state (pe_pipe y)) (pe_gone y) m"
    "tidy (pe_pipe e)" "delims (p_state (pe_pipe e)) (p_out (pe_pipe e)) (p_state (pe_pipe y))"
    "awake (pe_pipe e) (pe_pipe y) m"
  using assms by (simp_all add: link_def)

lemma pair_okD: "pair_ok c \<Longrightarrow> link (pp_end c x) (pp_end c (\<not> x)) (pp_mail c (\<not> x))"
  "pair_ok c \<Longrightarrow> link (pp_end c (\<not> x)) (pp_end c x) (pp_mail c x)"
  by (auto simp: pair_ok_def dest: spec [of _ "\<not> x"])

lemma pair_okI:
  assumes "link (pp_end c x) (pp_end c (\<not> x)) (pp_mail c (\<not> x))" "link (pp_end c (\<not> x)) (pp_end c x) (pp_mail c x)"
  shows "pair_ok c"
  unfolding pair_ok_def
proof
  fix z show "link (pp_end c z) (pp_end c (\<not> z)) (pp_mail c (\<not> z))" using assms by (cases "z = x") auto
qed

text \<open>Every step puts one end back.\<close>

lemma put_end_ok:
  assumes "link (posted e) (pp_end c (\<not> x)) (pp_mail c (\<not> x) @ p_cmds (pe_pipe e))"
    "link (pp_end c (\<not> x)) (posted e) (pp_mail c x)" "p_cmds (pe_pipe e) = [] \<or> \<not> pe_gone (pp_end c (\<not> x))"
  shows "\<exists>c'. put_end x e c = Some c' \<and> pair_ok c' \<and> pp_end c' x = posted e \<and> pp_end c' (\<not> x) = pp_end c (\<not> x) \<and>
    pp_mail c' x = pp_mail c x \<and> pp_mail c' (\<not> x) = pp_mail c (\<not> x) @ p_cmds (pe_pipe e)"
proof -
  let ?c = "c\<lparr>pp_end := (pp_end c)(x := posted e), pp_mail := (pp_mail c)(\<not> x := pp_mail c (\<not> x) @ p_cmds (pe_pipe e))\<rparr>"
  have "put_end x e c = Some ?c" using assms(3) by (auto simp: put_end_def posted_def Let_def)
  moreover have "pair_ok ?c" by (rule pair_okI [where x = x]) (use assms(1,2) in simp_all)
  ultimately show ?thesis by auto
qed

text \<open>The other end sees of this one the state, whether it reads, and whether it is gone.\<close>

lemma link_to:
  assumes "link y e m" "p_state (pe_pipe e') = p_state (pe_pipe e)" "pe_gone e' = pe_gone e"
    "p_in_active (pe_pipe e') = p_in_active (pe_pipe e)"
  shows "link y e' m"
  using assms by (simp add: link_def awake_def)

text \<open>Work that leaves the state alone: queueing, waking the reader, commands of other kinds.\<close>

lemma link_quiet:
  assumes l: "link e y m" and s: "p_state (pe_pipe e') = p_state (pe_pipe e)" "pe_gone e' = pe_gone e" "pe_has_out e' = pe_has_out e"
    and t: "tidy (pe_pipe (posted e'))" and q: "p_out (pe_pipe e') = p_out (pe_pipe e) @ zs" "no_delim zs"
    and cs: "cs = p_cmds (pe_pipe e')" "\<forall>x \<in> set cs. \<not> is_term x" "cs \<noteq> [] \<Longrightarrow> pe_has_out e"
    and w: "zs = [] \<and> p_peer_asleep (pe_pipe e') = p_peer_asleep (pe_pipe e) \<or> Activate_Read \<in> set cs \<or> \<not> p_peer_asleep (pe_pipe e)"
  shows "link (posted e') y (m @ cs)"
proof -
  have "proto (p_state (pe_pipe e')) (\<not> pe_has_out e') (pe_gone e') (p_state (pe_pipe y)) (pe_gone y) (m @ cs)"
  proof (cases "cs = []")
    case True
    then show ?thesis using linkD(1) [OF l] by (simp only: s append_Nil2)
  next
    case False
    then have "\<not> \<not> pe_has_out e" using cs(3) by blast
    from proto_send [OF linkD(1) [OF l] this cs(2)] show ?thesis by (simp only: s)
  qed
  moreover have "delims (p_state (pe_pipe e')) (p_out (pe_pipe e')) (p_state (pe_pipe y))"
    using linkD(3) [OF l] q(2) unfolding delims_def s q(1) no_delim_simps by blast
  moreover have "awake (pe_pipe e') (pe_pipe y) (m @ cs)"
    using linkD(4) [OF l] w unfolding awake_def q(1) set_append by blast
  ultimately show ?thesis using t unfolding link_def posted_def awake_def by simp
qed
text \<open>A change of the sender's state, and of the receiver's, that the protocol does not see.\<close>

lemma proto_from: "proto s a g s' g' m \<Longrightarrow> asked s1 = asked s \<Longrightarrow> settled s1 a g1 \<Longrightarrow> proto s1 a g1 s' g' m"
  unfolding proto_def by presburger

lemma proto_to: "proto s a g s' g' m \<Longrightarrow> had_request s1 = had_request s' \<Longrightarrow> proto s a g s1 g' m"
  unfolding proto_def by presburger

lemma protoD:
  assumes "proto s a g s' g' m"
  shows "settled s a g" "had_request s' \<Longrightarrow> asked s" "g' \<Longrightarrow> a" "\<not> a \<Longrightarrow> \<not> g'"
  using assms unfolding proto_def by blast+

lemma gone_no_out: "link e y m \<Longrightarrow> pe_gone y \<Longrightarrow> \<not> pe_has_out e"
  by (drule linkD(1), drule protoD(3))

lemma linkI:
  assumes "proto (p_state (pe_pipe e)) (\<not> pe_has_out e) (pe_gone e) (p_state (pe_pipe y)) (pe_gone y) m"
    "tidy (pe_pipe e)" "delims (p_state (pe_pipe e)) (p_out (pe_pipe e)) (p_state (pe_pipe y))"
    "awake (pe_pipe e) (pe_pipe y) m"
  shows "link e y m"
  using assms by (simp add: link_def)

lemma posted_simps [simp]:
  "p_state (pe_pipe (posted e)) = p_state (pe_pipe e)" "pe_gone (posted e) = pe_gone e" "pe_has_out (posted e) = pe_has_out e"
  "p_in_active (pe_pipe (posted e)) = p_in_active (pe_pipe e)" "p_out (pe_pipe (posted e)) = p_out (pe_pipe e)"
  "p_ready (pe_pipe (posted e)) = p_ready (pe_pipe e)" "p_part (pe_pipe (posted e)) = p_part (pe_pipe e)"
  "p_in (pe_pipe (posted e)) = p_in (pe_pipe e)" "p_cmds (pe_pipe (posted e)) = []" "pe_delay (posted e) = pe_delay e"
  "p_peer_asleep (pe_pipe (posted e)) = p_peer_asleep (pe_pipe e)"
  by (simp_all add: posted_def)

lemma awake_posted [simp]: "awake (pe_pipe (posted e)) p' m = awake (pe_pipe e) p' m"
  by (simp add: awake_def)

lemma tidyD: "tidy p \<Longrightarrow> p_in p = []" "tidy p \<Longrightarrow> p_cmds p = []" "tidy p \<Longrightarrow> no_delim (p_ready p)"
  "tidy p \<Longrightarrow> no_delim (p_part p)"
  by (simp_all add: tidy_def)

lemma delims_quiet: "\<not> may_read s' \<Longrightarrow> asked s \<or> asked s' \<Longrightarrow> delims s q s'"
  by (auto simp: delims_def)

lemma awake_quiet: "\<not> may_read (p_state p') \<Longrightarrow> awake p p' m"
  by (simp add: awake_def)

lemma may_read_simps [simp]:
  "may_read active" "may_read waiting_for_delimiter" "\<not> may_read delimiter_received" "\<not> may_read term_ack_sent"
  "\<not> may_read term_req_sent1" "\<not> may_read term_req_sent2"
  by (simp_all add: may_read_def)

lemma asked_simps [simp]:
  "\<not> asked active" "\<not> asked waiting_for_delimiter" "\<not> asked delimiter_received" "\<not> asked term_ack_sent"
  "asked term_req_sent1" "asked term_req_sent2"
  by (simp_all add: asked_def)

lemma had_request_simps [simp]:
  "\<not> had_request active" "had_request waiting_for_delimiter" "\<not> had_request delimiter_received" "had_request term_ack_sent"
  "\<not> had_request term_req_sent1" "had_request term_req_sent2"
  by (simp_all add: had_request_def)

lemma settled_simps [simp]:
  "settled active a g \<longleftrightarrow> \<not> a \<and> \<not> g" "settled waiting_for_delimiter a g \<longleftrightarrow> \<not> a \<and> \<not> g"
  "settled delimiter_received a g \<longleftrightarrow> \<not> a \<and> \<not> g" "settled term_ack_sent a g \<longleftrightarrow> a"
  "settled term_req_sent2 a g \<longleftrightarrow> a" "settled term_req_sent1 a g \<longleftrightarrow> a = g"
  by (simp_all add: settled_def)

section \<open>Steps of the writing end\<close>

text \<open>Sending to the other end, which must not be gone.\<close>

lemma write_end_ok:
  assumes "pair_ok c" "link (posted e) (pp_end c (\<not> x)) (pp_mail c (\<not> x) @ p_cmds (pe_pipe e))"
    "link (pp_end c (\<not> x)) (posted e) (pp_mail c x)" "p_cmds (pe_pipe e) \<noteq> [] \<Longrightarrow> pe_has_out (pp_end c x)"
  shows "\<exists>c'. write_end x e c = Some c' \<and> pair_ok c'"
proof -
  have g: "pe_has_out (pp_end c x) \<Longrightarrow> \<not> pe_gone (pp_end c (\<not> x))" using gone_no_out [OF pair_okD(1) [OF assms(1)]] by blast
  then have "write_end x e c = put_end x e c" by (auto simp: write_end_def)
  moreover have "p_cmds (pe_pipe e) = [] \<or> \<not> pe_gone (pp_end c (\<not> x))" using g assms(4) by blast
  ultimately show ?thesis using put_end_ok [OF assms(2,3)] by auto
qed

lemma quiet_ok:
  assumes p: "pair_ok c" and e: "e = pp_end c x"
    and s: "p_state (pe_pipe e') = p_state (pe_pipe e)" "pe_gone e' = pe_gone e" "pe_has_out e' = pe_has_out e"
      "p_in_active (pe_pipe e') = p_in_active (pe_pipe e)"
    and t: "tidy (pe_pipe (posted e'))" and q: "p_out (pe_pipe e') = p_out (pe_pipe e) @ zs" "no_delim zs"
    and cs: "\<forall>x \<in> set (p_cmds (pe_pipe e')). \<not> is_term x" "p_cmds (pe_pipe e') \<noteq> [] \<Longrightarrow> pe_has_out e"
    and w: "zs = [] \<and> p_peer_asleep (pe_pipe e') = p_peer_asleep (pe_pipe e) \<or> Activate_Read \<in> set (p_cmds (pe_pipe e')) \<or>
      \<not> p_peer_asleep (pe_pipe e)"
  shows "\<exists>c'. write_end x e' c = Some c' \<and> pair_ok c'"
proof (rule write_end_ok [OF p])
  show "link (posted e') (pp_end c (\<not> x)) (pp_mail c (\<not> x) @ p_cmds (pe_pipe e'))"
    using pair_okD(1) [OF p, of x] link_quiet [OF _ s(1-3) t q refl cs w] by (simp add: e)
  show "link (pp_end c (\<not> x)) (posted e') (pp_mail c x)"
    by (rule link_to [OF pair_okD(2) [OF p]]) (simp_all add: s e)
qed (use cs(2) e in blast)

lemma pair_tidy: "pair_ok c \<Longrightarrow> tidy (pe_pipe (pp_end c x))"
  by (drule pair_okD(1), rule linkD(2))

lemma write_ok:
  assumes p: "pair_ok c" and m: "m_kind m \<noteq> Delimiter"
  shows "\<exists>c'. write_end x ((pp_end c x)\<lparr>pe_pipe := snd (pipe_write m (pe_pipe (pp_end c x)))\<rparr>) c = Some c' \<and> pair_ok c'"
proof (rule quiet_ok [OF p refl, where zs = "[]"])
  let ?p = "pe_pipe (pp_end c x)"
  have t: "tidy ?p" by (rule pair_tidy [OF p])
  then show "tidy (pe_pipe (posted ((pp_end c x)\<lparr>pe_pipe := snd (pipe_write m ?p)\<rparr>)))"
    using m by (simp add: tidy_def posted_def pipe_write_def pipe_check_write_def Let_def)
qed (use pair_tidy [OF p, of x] in \<open>simp_all add: tidy_def pipe_write_def pipe_check_write_def Let_def\<close>)

lemma settled_out: "pair_ok c \<Longrightarrow> pe_has_out (pp_end c x) \<Longrightarrow> p_state (pe_pipe (pp_end c x)) \<noteq> term_ack_sent"
  using protoD(1) [OF linkD(1) [OF pair_okD(1), of c x]] by auto

lemma flush_fields [simp]:
  "p_state (pipe_flush p) = p_state p" "p_in_active (pipe_flush p) = p_in_active p" "p_in (pipe_flush p) = p_in p"
  "p_part (pipe_flush p) = p_part p"
  by (simp_all add: pipe_flush_def Let_def)

lemma flush_sends:
  assumes "p_state p \<noteq> term_ack_sent"
  shows "p_out (pipe_flush p) = p_out p @ p_ready p" "p_ready (pipe_flush p) = []"
    "p_cmds (pipe_flush p) = p_cmds p @ (if p_ready p \<noteq> [] \<and> p_peer_asleep p then [Activate_Read] else [])"
    "p_peer_asleep (pipe_flush p) \<longleftrightarrow> p_peer_asleep p \<and> p_ready p = []"
  using assms by (auto simp: pipe_flush_def Let_def)

lemma flush_ok:
  assumes p: "pair_ok c"
  shows "\<exists>c'. write_end x (if pe_has_out (pp_end c x) then (pp_end c x)\<lparr>pe_pipe := pipe_flush (pe_pipe (pp_end c x))\<rparr> else pp_end c x) c
    = Some c' \<and> pair_ok c'"
proof (cases "pe_has_out (pp_end c x)")
  case True
  note t = pair_tidy [OF p, of x] and f = flush_sends [OF settled_out [OF p True]]
  have "\<exists>c'. write_end x ((pp_end c x)\<lparr>pe_pipe := pipe_flush (pe_pipe (pp_end c x))\<rparr>) c = Some c' \<and> pair_ok c'"
    by (rule quiet_ok [OF p refl, where zs = "p_ready (pe_pipe (pp_end c x))"])
      (use t True in \<open>auto simp: f tidy_def\<close>)
  then show ?thesis using True by simp
next
  case False
  have "\<exists>c'. write_end x (pp_end c x) c = Some c' \<and> pair_ok c'"
    by (rule quiet_ok [OF p refl, where zs = "[]"]) (use pair_tidy [OF p, of x] in \<open>simp_all add: tidy_def\<close>)
  then show ?thesis using False by simp
qed

lemma rollback_ok:
  assumes p: "pair_ok c"
  shows "\<exists>c'. write_end x (if pe_has_out (pp_end c x) then (pp_end c x)\<lparr>pe_pipe := pipe_rollback (pe_pipe (pp_end c x))\<rparr> else pp_end c x) c
    = Some c' \<and> pair_ok c'"
  by (rule quiet_ok [OF p refl, where zs = "[]"])
    (use pair_tidy [OF p, of x] in \<open>simp_all add: tidy_def pipe_rollback_def\<close>)

lemma nodelay_ok:
  assumes "pair_ok c"
  shows "pair_ok (c\<lparr>pp_end := (pp_end c)(x := set_nodelay (pp_end c x))\<rparr>)"
  by (rule pair_okI [where x = x]) (use pair_okD [OF assms, of x] in \<open>simp_all add: link_def set_nodelay_def\<close>)
section \<open>Asking to terminate\<close>

text \<open>The reader of a queue that has grown is awake or told.\<close>

lemma awake_flush:
  assumes "awake p p' m" "p_state q \<noteq> term_ack_sent" "p_peer_asleep q = p_peer_asleep p"
    "p_peer_asleep q \<Longrightarrow> Activate_Read \<in> set cs"
  shows "awake (pipe_flush q) p' (m @ cs)"
  using assms unfolding awake_def set_append by auto

lemma stop_output_with:
  assumes "pe_has_out e" "p_state (pe_pipe e) \<noteq> term_ack_sent"
  shows "p_state (pe_pipe (stop_output e)) = p_state (pe_pipe e)" "pe_gone (stop_output e) = pe_gone e"
    "pe_has_out (stop_output e)" "p_in (pe_pipe (stop_output e)) = p_in (pe_pipe e)"
    "p_ready (pe_pipe (stop_output e)) = []" "p_part (pe_pipe (stop_output e)) = []"
    "p_out (pe_pipe (stop_output e)) = p_out (pe_pipe e) @ p_ready (pe_pipe e) @ [delimiter]"
    "p_cmds (pe_pipe (stop_output e)) = p_cmds (pe_pipe e) @ (if p_peer_asleep (pe_pipe e) then [Activate_Read] else [])"
    "\<not> p_peer_asleep (pe_pipe (stop_output e))" "p_in_active (pe_pipe (stop_output e)) = p_in_active (pe_pipe e)"
  using assms by (simp_all add: stop_output_def pipe_rollback_def flush_sends Let_def)

lemma stop_output_without:
  assumes "\<not> pe_has_out e"
  shows "stop_output e = e\<lparr>pe_pipe := (pe_pipe e)\<lparr>p_out_active := False\<rparr>\<rparr>"
  using assms by (simp add: stop_output_def Let_def)

lemma stop_link:
  assumes pr: "proto (p_state (pe_pipe e)) (\<not> pe_has_out e) (pe_gone e) (p_state (pe_pipe y)) (pe_gone y)
      (m @ p_cmds (pe_pipe (stop_output e)))"
    and h: "pe_has_out e" "p_state (pe_pipe e) \<noteq> term_ack_sent" and i: "p_in (pe_pipe e) = []"
    and a: "asked (p_state (pe_pipe e)) \<or> asked (p_state (pe_pipe y))" and w: "awake (pe_pipe e) (pe_pipe y) m"
  shows "link (posted (stop_output e)) y (m @ p_cmds (pe_pipe (stop_output e)))"
proof (rule linkI)
  note s = stop_output_with [OF h]
  show "proto (p_state (pe_pipe (posted (stop_output e)))) (\<not> pe_has_out (posted (stop_output e))) (pe_gone (posted (stop_output e)))
     (p_state (pe_pipe y)) (pe_gone y) (m @ p_cmds (pe_pipe (stop_output e)))"
    using pr h(1) by (simp only: posted_simps s)
  show "tidy (pe_pipe (posted (stop_output e)))" by (simp add: tidy_def s i)
  show "delims (p_state (pe_pipe (posted (stop_output e)))) (p_out (pe_pipe (posted (stop_output e)))) (p_state (pe_pipe y))"
    using a by (auto simp: delims_def s)
  show "awake (pe_pipe (posted (stop_output e))) (pe_pipe y) (m @ p_cmds (pe_pipe (stop_output e)))"
    using w by (auto simp: awake_def s)
qed

text \<open>A change of this end that the other's direction does not depend on.\<close>

lemma link_into:
  assumes l: "link y e m" and h: "had_request (p_state (pe_pipe e')) = had_request (p_state (pe_pipe e))" "pe_gone e' = pe_gone e"
    and r: "\<not> may_read (p_state (pe_pipe e'))" "asked (p_state (pe_pipe y)) \<or> asked (p_state (pe_pipe e'))"
  shows "link y e' m"
proof (rule linkI)
  show "proto (p_state (pe_pipe y)) (\<not> pe_has_out y) (pe_gone y) (p_state (pe_pipe e')) (pe_gone e') m"
    using proto_to [OF linkD(1) [OF l] h(1)] by (simp add: h(2))
qed (use linkD(2) [OF l] delims_quiet [OF r] awake_quiet [OF r(1)] in blast)+

text \<open>\<open>terminate\<close>, state by state.\<close>

lemma ask_ok:
  assumes p: "pair_ok c" and s: "p_state (pe_pipe (pp_end c x)) = active \<or> p_state (pe_pipe (pp_end c x)) = delimiter_received"
  shows "\<exists>c'. write_end x (stop_output ((pp_end c x)\<lparr>pe_delay := d,
    pe_pipe := (send_cmd Pipe_Term (pe_pipe (pp_end c x)))\<lparr>p_state := term_req_sent1\<rparr>\<rparr>)) c = Some c' \<and> pair_ok c'"
    (is "\<exists>c'. write_end x (stop_output ?e) c = Some c' \<and> pair_ok c'")
proof -
  note l = pair_okD [OF p, of x]
  have set: "settled (p_state (pe_pipe (pp_end c x))) (\<not> pe_has_out (pp_end c x)) (pe_gone (pp_end c x))"
    by (rule protoD(1) [OF linkD(1) [OF l(1)]])
  then have h: "pe_has_out (pp_end c x)" "\<not> pe_gone (pp_end c x)" using s by auto
  have h': "pe_has_out ?e" "p_state (pe_pipe ?e) \<noteq> term_ack_sent" using h by simp_all
  note st = stop_output_with [OF h']
  have cm: "p_cmds (pe_pipe (stop_output ?e)) = Pipe_Term # (if p_peer_asleep (pe_pipe (pp_end c x)) then [Activate_Read] else [])"
    using tidyD(2) [OF linkD(2) [OF l(1)]] unfolding st(8) by (simp add: send_cmd_def)
  show ?thesis
  proof (rule write_end_ok [OF p])
    show "link (posted (stop_output ?e)) (pp_end c (\<not> x)) (pp_mail c (\<not> x) @ p_cmds (pe_pipe (stop_output ?e)))"
    proof (rule stop_link [OF _ h'])
      have "proto term_req_sent1 (\<not> pe_has_out (pp_end c x)) (pe_gone (pp_end c x)) (p_state (pe_pipe (pp_end c (\<not> x))))
         (pe_gone (pp_end c (\<not> x))) (pp_mail c (\<not> x) @ Pipe_Term # (if p_peer_asleep (pe_pipe (pp_end c x)) then [Activate_Read] else []))"
        by (rule proto_ask [OF linkD(1) [OF l(1)]]) (use h s in auto)
      then show "proto (p_state (pe_pipe ?e)) (\<not> pe_has_out ?e) (pe_gone ?e) (p_state (pe_pipe (pp_end c (\<not> x))))
         (pe_gone (pp_end c (\<not> x))) (pp_mail c (\<not> x) @ p_cmds (pe_pipe (stop_output ?e)))"
        by (simp only: cm) simp
    qed (use linkD(2) [OF l(1)] linkD(4) [OF l(1)] in \<open>simp_all add: tidy_def send_cmd_def awake_def\<close>)
    show "link (pp_end c (\<not> x)) (posted (stop_output ?e)) (pp_mail c x)"
      by (rule link_into [OF l(2)]) (use s in \<open>auto simp: st\<close>)
  qed (use h in simp)
qed

lemma drop_ok:
  assumes p: "pair_ok c" and s: "p_state (pe_pipe (pp_end c x)) = waiting_for_delimiter"
  shows "\<exists>c'. write_end x (stop_output (ack_to term_ack_sent ((pp_end c x)\<lparr>pe_delay := False,
    pe_pipe := pipe_rollback (pe_pipe (pp_end c x))\<rparr>))) c = Some c' \<and> pair_ok c'"
    (is "\<exists>c'. write_end x (stop_output ?e) c = Some c' \<and> pair_ok c'")
proof -
  note l = pair_okD [OF p, of x]
  have set: "settled (p_state (pe_pipe (pp_end c x))) (\<not> pe_has_out (pp_end c x)) (pe_gone (pp_end c x))"
    by (rule protoD(1) [OF linkD(1) [OF l(1)]])
  then have h: "pe_has_out (pp_end c x)" "\<not> pe_gone (pp_end c x)" using s by auto
  have e: "stop_output ?e = ?e\<lparr>pe_pipe := (pe_pipe ?e)\<lparr>p_out_active := False\<rparr>\<rparr>"
    by (rule stop_output_without) (simp add: ack_to_def)
  have a: "asked (p_state (pe_pipe (pp_end c (\<not> x))))" by (rule protoD(2) [OF linkD(1) [OF l(2)]]) (simp add: s)
  have cm: "p_cmds (pe_pipe (stop_output ?e)) = [Pipe_Term_Ack]"
    using tidyD(2) [OF linkD(2) [OF l(1)]] unfolding e by (simp add: ack_to_def send_cmd_def pipe_rollback_def)
  have f: "p_state (pe_pipe (stop_output ?e)) = term_ack_sent" "\<not> pe_has_out (stop_output ?e)"
    "pe_gone (stop_output ?e) = pe_gone (pp_end c x)" "tidy (pe_pipe (posted (stop_output ?e)))"
    unfolding e using linkD(2) [OF l(1)] by (simp_all add: ack_to_def send_cmd_def pipe_rollback_def posted_def tidy_def)
  show ?thesis
  proof (rule write_end_ok [OF p])
    have pr: "proto term_ack_sent True (pe_gone (pp_end c x)) (p_state (pe_pipe (pp_end c (\<not> x))))
         (pe_gone (pp_end c (\<not> x))) (pp_mail c (\<not> x) @ [] @ [Pipe_Term_Ack])"
      by (rule proto_ack [OF linkD(1) [OF l(1)]]) (use h s in auto)
    show "link (posted (stop_output ?e)) (pp_end c (\<not> x)) (pp_mail c (\<not> x) @ p_cmds (pe_pipe (stop_output ?e)))"
    proof (rule linkI)
      show "proto (p_state (pe_pipe (posted (stop_output ?e)))) (\<not> pe_has_out (posted (stop_output ?e))) (pe_gone (posted (stop_output ?e)))
         (p_state (pe_pipe (pp_end c (\<not> x)))) (pe_gone (pp_end c (\<not> x))) (pp_mail c (\<not> x) @ p_cmds (pe_pipe (stop_output ?e)))"
        using pr unfolding cm by (simp add: f)
      show "tidy (pe_pipe (posted (stop_output ?e)))" by (rule f(4))
      show "delims (p_state (pe_pipe (posted (stop_output ?e)))) (p_out (pe_pipe (posted (stop_output ?e)))) (p_state (pe_pipe (pp_end c (\<not> x))))"
        using a by (simp add: delims_def f)
      show "awake (pe_pipe (posted (stop_output ?e))) (pe_pipe (pp_end c (\<not> x))) (pp_mail c (\<not> x) @ p_cmds (pe_pipe (stop_output ?e)))"
        by (rule awake_quiet) (use a in \<open>auto simp: asked_def\<close>)
    qed
    show "link (pp_end c (\<not> x)) (posted (stop_output ?e)) (pp_mail c x)"
      by (rule link_into [OF l(2)]) (use s a in \<open>auto simp: f\<close>)
  qed (use h in simp)
qed
lemma extra_delim_ok:
  assumes p: "pair_ok c" and s: "p_state (pe_pipe (pp_end c x)) = waiting_for_delimiter"
  shows "\<exists>c'. write_end x (stop_output ((pp_end c x)\<lparr>pe_delay := d\<rparr>)) c = Some c' \<and> pair_ok c'"
    (is "\<exists>c'. write_end x (stop_output ?e) c = Some c' \<and> pair_ok c'")
proof -
  note l = pair_okD [OF p, of x]
  have "settled (p_state (pe_pipe (pp_end c x))) (\<not> pe_has_out (pp_end c x)) (pe_gone (pp_end c x))"
    by (rule protoD(1) [OF linkD(1) [OF l(1)]])
  then have h: "pe_has_out ?e" "p_state (pe_pipe ?e) \<noteq> term_ack_sent" using s by auto
  note st = stop_output_with [OF h]
  have a: "asked (p_state (pe_pipe (pp_end c (\<not> x))))" by (rule protoD(2) [OF linkD(1) [OF l(2)]]) (simp add: s)
  have cm: "p_cmds (pe_pipe (stop_output ?e)) = (if p_peer_asleep (pe_pipe (pp_end c x)) then [Activate_Read] else [])"
    using tidyD(2) [OF linkD(2) [OF l(1)]] unfolding st(8) by simp
  show ?thesis
  proof (rule write_end_ok [OF p])
    show "link (posted (stop_output ?e)) (pp_end c (\<not> x)) (pp_mail c (\<not> x) @ p_cmds (pe_pipe (stop_output ?e)))"
    proof (rule stop_link [OF _ h])
      show "proto (p_state (pe_pipe ?e)) (\<not> pe_has_out ?e) (pe_gone ?e) (p_state (pe_pipe (pp_end c (\<not> x))))
         (pe_gone (pp_end c (\<not> x))) (pp_mail c (\<not> x) @ p_cmds (pe_pipe (stop_output ?e)))"
        unfolding cm by (rule proto_send) (use linkD(1) [OF l(1)] h in simp_all)
    qed (use linkD(2) [OF l(1)] linkD(4) [OF l(1)] a in \<open>simp_all add: tidy_def\<close>)
    show "link (pp_end c (\<not> x)) (posted (stop_output ?e)) (pp_mail c x)"
      by (rule link_to [OF l(2)]) (simp_all add: st)
  qed (use h in simp)
qed

lemma terminate_ok:
  assumes p: "pair_ok c"
  shows "\<exists>c'. write_end x (terminate d (pp_end c x)) c = Some c' \<and> pair_ok c'"
proof -
  have same: "\<exists>c'. write_end x ((pp_end c x)\<lparr>pe_delay := d\<rparr>) c = Some c' \<and> pair_ok c'"
    by (rule quiet_ok [OF p refl, where zs = "[]"]) (use pair_tidy [OF p, of x] in \<open>simp_all add: tidy_def\<close>)
  show ?thesis
  proof (cases "p_state (pe_pipe (pp_end c x))")
    case waiting_for_delimiter
    then show ?thesis
      using drop_ok [OF p, of x] extra_delim_ok [OF p, of x d] by (cases d) (simp_all add: terminate_def Let_def)
  qed (use same ask_ok [OF p, of x d] in \<open>simp_all add: terminate_def Let_def send_cmd_def\<close>)
qed

section \<open>Receiving a command\<close>

text \<open>The mailbox has lost its first command.\<close>

lemma command_ok:
  assumes p: "pair_ok c" and m: "pp_mail c x = m # ms"
    and l: "link (posted e) (pp_end c (\<not> x)) (pp_mail c (\<not> x) @ p_cmds (pe_pipe e))" "link (pp_end c (\<not> x)) (posted e) ms"
    and g: "p_cmds (pe_pipe e) \<noteq> [] \<Longrightarrow> pe_has_out (pp_end c x)"
  shows "\<exists>c'. put_end x e (c\<lparr>pp_mail := (pp_mail c)(x := ms)\<rparr>) = Some c' \<and> pair_ok c'"
proof -
  have "p_cmds (pe_pipe e) = [] \<or> \<not> pe_gone (pp_end c (\<not> x))"
    using gone_no_out [OF pair_okD(1) [OF p]] g by blast
  then show ?thesis using put_end_ok [of e "c\<lparr>pp_mail := (pp_mail c)(x := ms)\<rparr>" x] l by auto
qed

lemma get_other:
  assumes l: "link y e (m # ms)" and m: "\<not> is_term m"
    and e: "p_state (pe_pipe e') = p_state (pe_pipe e)" "pe_gone e' = pe_gone e"
    and r: "may_read (p_state (pe_pipe e)) \<Longrightarrow> p_in_active (pe_pipe e') \<or> m \<noteq> Activate_Read \<and> p_in_active (pe_pipe e') = p_in_active (pe_pipe e)"
  shows "link y e' ms"
proof (rule linkI)
  show "proto (p_state (pe_pipe y)) (\<not> pe_has_out y) (pe_gone y) (p_state (pe_pipe e')) (pe_gone e') ms"
    using proto_get_other(1) [OF linkD(1) [OF l] m] by (simp add: e)
  show "delims (p_state (pe_pipe y)) (p_out (pe_pipe y)) (p_state (pe_pipe e'))" using linkD(3) [OF l] by (simp add: e)
  show "awake (pe_pipe y) (pe_pipe e') ms" using linkD(4) [OF l] r by (auto simp: awake_def e)
qed (rule linkD(2) [OF l])

lemma get_activate_ok:
  assumes p: "pair_ok c" and m: "pp_mail c x = m # ms" "m = Activate_Read \<or> m = Activate_Write n"
  shows "\<exists>c'. Option.bind (process_command m (pp_end c x)) (\<lambda>e. put_end x e (c\<lparr>pp_mail := (pp_mail c)(x := ms)\<rparr>)) = Some c' \<and> pair_ok c'"
proof -
  note l = pair_okD [OF p, of x]
  let ?p = "if m = Activate_Read then snd (process_activate_read (pe_pipe (pp_end c x)))
      else snd (process_activate_write n (pe_pipe (pp_end c x)))"
  let ?e = "(pp_end c x)\<lparr>pe_pipe := ?p\<rparr>"
  have f: "p_state ?p = p_state (pe_pipe (pp_end c x))" "tidy ?p" "p_out ?p = p_out (pe_pipe (pp_end c x))"
    "p_peer_asleep ?p = p_peer_asleep (pe_pipe (pp_end c x))"
    using linkD(2) [OF l(1)] by (simp_all add: process_activate_read_def process_activate_write_def tidy_def Let_def)
  have "\<exists>c'. put_end x ?e (c\<lparr>pp_mail := (pp_mail c)(x := ms)\<rparr>) = Some c' \<and> pair_ok c'"
  proof (rule command_ok [OF p m(1)])
    show "link (posted ?e) (pp_end c (\<not> x)) (pp_mail c (\<not> x) @ p_cmds (pe_pipe ?e))"
      by (rule link_quiet [OF l(1), where zs = "[]"]) (use f tidyD(2) [OF f(2)] in \<open>auto simp: tidy_def\<close>)
    show "link (pp_end c (\<not> x)) (posted ?e) ms"
      by (rule get_other [OF l(2) [unfolded m(1)]])
        (use m(2) f in \<open>auto simp: process_activate_read_def process_activate_write_def may_read_def Let_def\<close>)
  qed (use tidyD(2) [OF f(2)] in simp)
  then show ?thesis using m(2) by (auto simp: process_command_def)
qed
lemma ack_link:
  assumes l: "link e y m" and h: "pe_has_out e" "asked s1 = asked (p_state (pe_pipe e))" "settled s1 True g1"
  shows "link (posted ((ack_to s1 e)\<lparr>pe_gone := g1\<rparr>)) y (m @ [Pipe_Term_Ack])"
    "p_cmds (pe_pipe (ack_to s1 e)) = [Pipe_Term_Ack]"
proof -
  have pr: "proto s1 True g1 (p_state (pe_pipe y)) (pe_gone y) (m @ [] @ [Pipe_Term_Ack])"
    by (rule proto_ack [OF linkD(1) [OF l]]) (use h in simp_all)
  show "link (posted ((ack_to s1 e)\<lparr>pe_gone := g1\<rparr>)) y (m @ [Pipe_Term_Ack])"
  proof (rule linkI)
    let ?e = "posted ((ack_to s1 e)\<lparr>pe_gone := g1\<rparr>)"
    have f: "p_state (pe_pipe ?e) = s1" "\<not> pe_has_out ?e" "pe_gone ?e = g1" "p_out (pe_pipe ?e) = p_out (pe_pipe e)"
      "p_peer_asleep (pe_pipe ?e) = p_peer_asleep (pe_pipe e)"
      by (simp_all add: ack_to_def send_cmd_def)
    show "proto (p_state (pe_pipe ?e)) (\<not> pe_has_out ?e) (pe_gone ?e) (p_state (pe_pipe y)) (pe_gone y) (m @ [Pipe_Term_Ack])"
      using pr by (simp only: f(1,3) f(2) not_False_eq_True append_Nil)
    show "tidy (pe_pipe ?e)" using linkD(2) [OF l] by (simp add: tidy_def ack_to_def send_cmd_def)
    show "delims (p_state (pe_pipe ?e)) (p_out (pe_pipe ?e)) (p_state (pe_pipe y))"
      using linkD(3) [OF l] unfolding f delims_def h(2) .
    show "awake (pe_pipe ?e) (pe_pipe y) (m @ [Pipe_Term_Ack])"
      using linkD(4) [OF l] unfolding f awake_def by auto
  qed
  show "p_cmds (pe_pipe (ack_to s1 e)) = [Pipe_Term_Ack]"
    using tidyD(2) [OF linkD(2) [OF l]] by (simp add: ack_to_def send_cmd_def)
qed

lemma gone_self: "e\<lparr>pe_gone := pe_gone e\<rparr> = e"
  by simp

lemma ack_link_same:
  assumes "link e y m" "pe_has_out e" "asked s1 = asked (p_state (pe_pipe e))" "settled s1 True (pe_gone e)"
  shows "link (posted (ack_to s1 e)) y (m @ [Pipe_Term_Ack])"
proof -
  have "(ack_to s1 e)\<lparr>pe_gone := pe_gone e\<rparr> = ack_to s1 e" by (simp add: ack_to_def)
  then show ?thesis using ack_link(1) [OF assms] by simp
qed

lemma ack_fields [simp]:
  "p_state (pe_pipe (ack_to s e)) = s" "pe_gone (ack_to s e) = pe_gone e" "\<not> pe_has_out (ack_to s e)"
  by (simp_all add: ack_to_def send_cmd_def)

text \<open>A change of state that the other end does not see.\<close>

lemma link_from:
  assumes l: "link e y m" and s: "asked (p_state (pe_pipe e')) = asked (p_state (pe_pipe e))" "pe_has_out e' = pe_has_out e"
      "settled (p_state (pe_pipe e')) (\<not> pe_has_out e) (pe_gone e')"
    and q: "tidy (pe_pipe e')" "p_out (pe_pipe e') = p_out (pe_pipe e)" "p_peer_asleep (pe_pipe e') = p_peer_asleep (pe_pipe e)"
  shows "link (posted e') y (m @ p_cmds (pe_pipe e'))"
proof -
  have c: "p_cmds (pe_pipe e') = []" by (rule tidyD(2) [OF q(1)])
  have "link e' y m"
  proof (rule linkI)
    show "proto (p_state (pe_pipe e')) (\<not> pe_has_out e') (pe_gone e') (p_state (pe_pipe y)) (pe_gone y) m"
      using proto_from [OF linkD(1) [OF l] s(1,3)] by (simp only: s(2))
    show "delims (p_state (pe_pipe e')) (p_out (pe_pipe e')) (p_state (pe_pipe y))"
      using linkD(3) [OF l] unfolding delims_def q s(1) .
    show "awake (pe_pipe e') (pe_pipe y) m" using linkD(4) [OF l] unfolding awake_def q .
  qed (rule q(1))
  moreover have "posted e' = e'" unfolding posted_def c [symmetric] by simp
  ultimately show ?thesis by (simp only: c append_Nil2)
qed

text \<open>Receiving the request.\<close>

lemma get_request:
  assumes l: "link y e (Pipe_Term # ms)" and e: "had_request (p_state (pe_pipe e'))" "pe_gone e' = pe_gone e"
    and r: "may_read (p_state (pe_pipe e')) \<Longrightarrow> p_state (pe_pipe e) = active \<and> p_in_active (pe_pipe e') = p_in_active (pe_pipe e)"
  shows "link y e' ms"
proof (rule linkI)
  note g = proto_get_request [OF linkD(1) [OF l] e(1)]
  show "proto (p_state (pe_pipe y)) (\<not> pe_has_out y) (pe_gone y) (p_state (pe_pipe e')) (pe_gone e') ms"
    using g(1) by (simp only: e(2))
  show "delims (p_state (pe_pipe y)) (p_out (pe_pipe y)) (p_state (pe_pipe e'))"
    using linkD(3) [OF l] g(4) r by (auto simp: delims_def)
  show "awake (pe_pipe y) (pe_pipe e') ms" using linkD(4) [OF l] r by (auto simp: awake_def)
qed (rule linkD(2) [OF l])

lemma get_request_ok:
  assumes p: "pair_ok c" and m: "pp_mail c x = Pipe_Term # ms" and g: "\<not> pe_gone (pp_end c x)"
  shows "\<exists>c'. Option.bind (process_pipe_term (pp_end c x)) (\<lambda>e. put_end x e (c\<lparr>pp_mail := (pp_mail c)(x := ms)\<rparr>)) = Some c' \<and> pair_ok c'"
proof -
  note l = pair_okD(1) [OF p, of x]
  note l2 = pair_okD(2) [OF p, of x, unfolded m]
  have set: "settled (p_state (pe_pipe (pp_end c x))) (\<not> pe_has_out (pp_end c x)) False"
    using protoD(1) [OF linkD(1) [OF l]] g by simp
  have nr: "\<not> had_request (p_state (pe_pipe (pp_end c x)))"
    by (rule proto_get_request(3) [OF linkD(1) [OF l2], of term_ack_sent]) simp
  have ack: "\<exists>c'. put_end x (ack_to s1 (pp_end c x)) (c\<lparr>pp_mail := (pp_mail c)(x := ms)\<rparr>) = Some c' \<and> pair_ok c'"
    if "pe_has_out (pp_end c x)" "asked s1 = asked (p_state (pe_pipe (pp_end c x)))" "had_request s1" "\<not> may_read s1" "settled s1 True False" for s1
  proof (rule command_ok [OF p m])
    show "link (posted (ack_to s1 (pp_end c x))) (pp_end c (\<not> x)) (pp_mail c (\<not> x) @ p_cmds (pe_pipe (ack_to s1 (pp_end c x))))"
      using ack_link_same [OF l that(1,2)] ack_link(2) [OF l that(1,2)] that(5) g by simp
    show "link (pp_end c (\<not> x)) (posted (ack_to s1 (pp_end c x))) ms"
      by (rule get_request [OF l2]) (use that in simp_all)
  qed (use that in simp)
  have wait: "\<exists>c'. put_end x w (c\<lparr>pp_mail := (pp_mail c)(x := ms)\<rparr>) = Some c' \<and> pair_ok c'"
    if s: "p_state (pe_pipe (pp_end c x)) = active"
    and w: "w = (pp_end c x)\<lparr>pe_pipe := (pe_pipe (pp_end c x))\<lparr>p_state := waiting_for_delimiter\<rparr>\<rparr>" for w
  proof (rule command_ok [OF p m])
    show "link (posted w) (pp_end c (\<not> x)) (pp_mail c (\<not> x) @ p_cmds (pe_pipe w))"
      by (rule link_from [OF l]) (use pair_tidy [OF p, of x] set s g in \<open>simp_all add: w tidy_def\<close>)
    show "link (pp_end c (\<not> x)) (posted w) ms"
      by (rule get_request [OF l2]) (use s in \<open>simp_all add: w\<close>)
  qed (use pair_tidy [OF p, of x] in \<open>simp add: w tidy_def\<close>)
  show ?thesis
  proof (cases "p_state (pe_pipe (pp_end c x))")
    case active
    then show ?thesis using ack [of term_ack_sent] wait [OF _ refl] set by (simp add: process_pipe_term_def)
  next
    case delimiter_received
    then show ?thesis using ack [of term_ack_sent] set by (simp add: process_pipe_term_def)
  next
    case term_req_sent1
    then show ?thesis using ack [of term_req_sent2] set by (simp add: process_pipe_term_def)
  qed (use nr in simp_all)
qed

text \<open>Receiving the acknowledgement.\<close>

lemma acked_states:
  assumes p: "pair_ok c" and m: "pp_mail c x = Pipe_Term_Ack # ms" and g: "\<not> pe_gone (pp_end c x)"
  shows "p_state (pe_pipe (pp_end c x)) \<in> {term_req_sent1, term_ack_sent, term_req_sent2}"
proof -
  note l = pair_okD(1) [OF p, of x]
  note l2 = pair_okD(2) [OF p, of x, unfolded m]
  let ?s = "p_state (pe_pipe (pp_end c x))" and ?s' = "p_state (pe_pipe (pp_end c (\<not> x)))"
  have a: "\<not> pe_has_out (pp_end c (\<not> x))" by (rule proto_get_ack(3) [OF linkD(1) [OF l2]])
  have "settled ?s' True (pe_gone (pp_end c (\<not> x)))" using protoD(1) [OF linkD(1) [OF l2]] a by simp
  then consider "had_request ?s'" | "pe_gone (pp_end c (\<not> x))" by (cases ?s') simp_all
  then show ?thesis
  proof cases
    case 1
    then have "asked ?s" by (rule protoD(2) [OF linkD(1) [OF l]])
    then show ?thesis by (auto simp: asked_def)
  next
    case 2
    then have "\<not> pe_has_out (pp_end c x)" by (rule gone_no_out [OF l])
    then show ?thesis using protoD(1) [OF linkD(1) [OF l]] g by (cases ?s) simp_all
  qed
qed

lemma get_ack:
  assumes l: "link y e (Pipe_Term_Ack # ms)" and e: "p_state (pe_pipe e') = p_state (pe_pipe e)" "pe_gone e'"
    "\<not> may_read (p_state (pe_pipe e))"
  shows "link y e' ms"
proof (rule linkI)
  note g = proto_get_ack [OF linkD(1) [OF l]]
  show "proto (p_state (pe_pipe y)) (\<not> pe_has_out y) (pe_gone y) (p_state (pe_pipe e')) (pe_gone e') ms"
    using g(4) e(2) by (simp add: g(1) e(1))
  show "delims (p_state (pe_pipe y)) (p_out (pe_pipe y)) (p_state (pe_pipe e'))"
    using linkD(3) [OF l] by (simp add: e)
  show "awake (pe_pipe y) (pe_pipe e') ms" using e by (simp add: awake_def)
qed (rule linkD(2) [OF l])

lemma get_ack_ok:
  assumes p: "pair_ok c" and m: "pp_mail c x = Pipe_Term_Ack # ms" and g: "\<not> pe_gone (pp_end c x)"
  shows "\<exists>c'. Option.bind (process_pipe_term_ack (pp_end c x)) (\<lambda>e. put_end x e (c\<lparr>pp_mail := (pp_mail c)(x := ms)\<rparr>)) = Some c' \<and> pair_ok c'"
proof -
  note l = pair_okD(1) [OF p, of x]
  note l2 = pair_okD(2) [OF p, of x, unfolded m]
  have set: "settled (p_state (pe_pipe (pp_end c x))) (\<not> pe_has_out (pp_end c x)) False"
    using protoD(1) [OF linkD(1) [OF l]] g by simp
  have last: "\<exists>c'. put_end x ((pp_end c x)\<lparr>pe_gone := True\<rparr>) (c\<lparr>pp_mail := (pp_mail c)(x := ms)\<rparr>) = Some c' \<and> pair_ok c'"
    if s: "p_state (pe_pipe (pp_end c x)) = term_ack_sent \<or> p_state (pe_pipe (pp_end c x)) = term_req_sent2"
  proof (rule command_ok [OF p m])
    show "link (posted ((pp_end c x)\<lparr>pe_gone := True\<rparr>)) (pp_end c (\<not> x)) (pp_mail c (\<not> x) @ p_cmds (pe_pipe ((pp_end c x)\<lparr>pe_gone := True\<rparr>)))"
      by (rule link_from [OF l]) (use pair_tidy [OF p, of x] set s in \<open>auto simp: tidy_def\<close>)
    show "link (pp_end c (\<not> x)) (posted ((pp_end c x)\<lparr>pe_gone := True\<rparr>)) ms"
      by (rule get_ack [OF l2]) (use s in auto)
  qed (use pair_tidy [OF p, of x] in \<open>simp add: tidy_def\<close>)
  have sync: "\<exists>c'. put_end x ((ack_to term_req_sent1 (pp_end c x))\<lparr>pe_gone := True\<rparr>) (c\<lparr>pp_mail := (pp_mail c)(x := ms)\<rparr>) = Some c' \<and> pair_ok c'"
    if s: "p_state (pe_pipe (pp_end c x)) = term_req_sent1"
  proof (rule command_ok [OF p m])
    have h: "pe_has_out (pp_end c x)" using set s by simp
    show "link (posted ((ack_to term_req_sent1 (pp_end c x))\<lparr>pe_gone := True\<rparr>)) (pp_end c (\<not> x))
      (pp_mail c (\<not> x) @ p_cmds (pe_pipe ((ack_to term_req_sent1 (pp_end c x))\<lparr>pe_gone := True\<rparr>)))"
      using ack_link [OF l h, of term_req_sent1 True] s by simp
    show "link (pp_end c (\<not> x)) (posted ((ack_to term_req_sent1 (pp_end c x))\<lparr>pe_gone := True\<rparr>)) ms"
      by (rule get_ack [OF l2]) (use s in auto)
  qed (use set s in simp)
  show ?thesis using acked_states [OF p m g] last sync by (auto simp: process_pipe_term_ack_def)
qed
section \<open>Reading\<close>

definition taken :: "msg_t list \<Rightarrow> bool \<Rightarrow> pipe_end \<Rightarrow> pipe_end" where
  "taken q sleep y = y\<lparr>pe_pipe := (pe_pipe y)\<lparr>p_out := q, p_peer_asleep := p_peer_asleep (pe_pipe y) \<or> sleep\<rparr>\<rparr>"

lemma taken_simps [simp]:
  "p_state (pe_pipe (taken q b y)) = p_state (pe_pipe y)" "pe_gone (taken q b y) = pe_gone y"
  "pe_has_out (taken q b y) = pe_has_out y" "p_in_active (pe_pipe (taken q b y)) = p_in_active (pe_pipe y)"
  "p_out (pe_pipe (taken q b y)) = q" "p_peer_asleep (pe_pipe (taken q b y)) \<longleftrightarrow> p_peer_asleep (pe_pipe y) \<or> b"
  "tidy (pe_pipe (taken q b y)) = tidy (pe_pipe y)"
  by (simp_all add: taken_def tidy_def)

lemma read_end_ok:
  assumes p: "pair_ok c" and e: "e = end_after_read (q\<lparr>p_in := []\<rparr>) (pp_end c x)"
    and y: "y = taken (p_in q) (p_in_active (pe_pipe (pp_end c x)) \<and> \<not> p_in_active q) (pp_end c (\<not> x))"
    and l: "link (posted e) (pp_end c (\<not> x)) (pp_mail c (\<not> x) @ p_cmds q)" "link y (posted e) (pp_mail c x)"
    and g: "p_cmds q \<noteq> [] \<Longrightarrow> pe_has_out (pp_end c x)"
  shows "\<exists>c'. read_end x q c = Some c' \<and> pair_ok c'"
proof -
  let ?c = "c\<lparr>pp_end := (pp_end c)(\<not> x := y)\<rparr>"
  have r: "read_end x q c = put_end x e ?c" by (simp add: read_end_def e y taken_def Let_def)
  have cm: "p_cmds (pe_pipe e) = p_cmds q" by (simp add: e end_after_read_def)
  have "link (posted e) y (pp_mail c (\<not> x) @ p_cmds q)" by (rule link_to [OF l(1)]) (simp_all add: y)
  moreover have "p_cmds q = [] \<or> \<not> pe_gone y" using gone_no_out [OF pair_okD(1) [OF p]] g by (auto simp: y)
  ultimately show ?thesis unfolding r using put_end_ok [of e ?c x] l(2) by (auto simp: cm)
qed

lemma inbound_of_fields [simp]:
  "p_state (inbound_of x c) = p_state (pe_pipe (pp_end c x))" "p_in_active (inbound_of x c) = p_in_active (pe_pipe (pp_end c x))"
  "p_in (inbound_of x c) = p_out (pe_pipe (pp_end c (\<not> x)))" "p_cmds (inbound_of x c) = p_cmds (pe_pipe (pp_end c x))"
  "p_out (inbound_of x c) = p_out (pe_pipe (pp_end c x))" "p_ready (inbound_of x c) = p_ready (pe_pipe (pp_end c x))"
  "p_part (inbound_of x c) = p_part (pe_pipe (pp_end c x))" "p_peer_asleep (inbound_of x c) = p_peer_asleep (pe_pipe (pp_end c x))"
  by (simp_all add: inbound_of_def)

text \<open>What a read leaves: nothing changed; nothing to read; the delimiter taken; a message taken.\<close>

inductive after_read :: "pipe_t \<Rightarrow> pipe_t \<Rightarrow> bool" where
  not_read: "after_read p p"
| found_empty: "pipe_readable p \<Longrightarrow> no_delim (p_in p) \<Longrightarrow> after_read p (p\<lparr>p_in := [], p_in_active := False\<rparr>)"
| delim_taken: "pipe_readable p \<Longrightarrow> \<not> no_delim (p_in p) \<Longrightarrow> after_read p (process_delimiter (p\<lparr>p_in := ms\<rparr>))"
| msg_taken: "pipe_readable p \<Longrightarrow> no_delim (p_in p) = no_delim ms \<Longrightarrow> after_read p (pipe_count_read m (p\<lparr>p_in := ms\<rparr>))"

lemma after_check_read: "after_read p (snd (pipe_check_read p))"
proof -
  have self: "p\<lparr>p_in := []\<rparr> = p" if "p_in p = []" using that by simp
  show ?thesis
    using not_read [of p] found_empty [of p] delim_taken [of p]
    by (auto simp: pipe_check_read_def split: list.splits) (metis no_delim_simps(1) self pipe_t.surjective pipe_t.update_convs(1) pipe_t.update_convs(2))
qed

lemma after_pipe_read: "after_read p (snd (pipe_read p))"
proof (cases "skip_credentials (p_in p)")
  case Nil
  then have "no_delim (p_in p)" using no_delim_skip [of "p_in p"] by simp
  then show ?thesis using Nil not_read [of p] found_empty [of p] by (simp add: pipe_read_def)
next
  case (Cons m ms)
  have "no_delim (p_in p) \<longleftrightarrow> m_kind m \<noteq> Delimiter \<and> no_delim ms" using no_delim_skip [of "p_in p"] Cons by simp
  then show ?thesis
    using Cons not_read [of p] delim_taken [of p ms] msg_taken [of p ms m] by (cases "m_kind m = Delimiter") (simp_all add: pipe_read_def)
qed

lemma count_read_fields [simp]:
  "p_state (pipe_count_read m p) = p_state p" "p_in_active (pipe_count_read m p) = p_in_active p" "p_in (pipe_count_read m p) = p_in p"
  "p_out (pipe_count_read m p) = p_out p" "p_ready (pipe_count_read m p) = p_ready p" "p_part (pipe_count_read m p) = p_part p"
  "p_peer_asleep (pipe_count_read m p) = p_peer_asleep p"
  by (simp_all add: pipe_count_read_def Let_def)

lemma count_read_cmds: "p_cmds p = [] \<Longrightarrow> m' \<in> set (p_cmds (pipe_count_read m p)) \<Longrightarrow> \<not> is_term m'"
  by (auto simp: pipe_count_read_def Let_def split: if_splits)

lemma may_read_out:
  assumes "pair_ok c" "may_read (p_state (pe_pipe (pp_end c x)))"
  shows "pe_has_out (pp_end c x)" "\<not> pe_gone (pp_end c x)"
  using protoD(1) [OF linkD(1) [OF pair_okD(1) [OF assms(1), of x]]] assms(2) by (auto simp: may_read_def)

text \<open>A read that leaves the state alone.\<close>

lemma read_quiet_ok:
  assumes p: "pair_ok c" and s: "p_state q = p_state (inbound_of x c)" "p_out q = p_out (inbound_of x c)" "p_ready q = p_ready (inbound_of x c)"
      "p_part q = p_part (inbound_of x c)" "p_peer_asleep q = p_peer_asleep (inbound_of x c)"
    and d: "no_delim (p_in (inbound_of x c)) = no_delim (p_in q)"
    and a: "may_read (p_state q) \<Longrightarrow> p_in_active q = p_in_active (inbound_of x c) \<and> (p_in_active q \<or> p_in q = p_in (inbound_of x c)) \<or>
      p_in q = [] \<and> \<not> p_in_active q \<and> p_in_active (inbound_of x c)"
    and cs: "\<forall>m \<in> set (p_cmds q). \<not> is_term m" "p_cmds q \<noteq> [] \<Longrightarrow> may_read (p_state q)"
  shows "\<exists>c'. read_end x q c = Some c' \<and> pair_ok c'"
proof (rule read_end_ok [OF p refl refl])
  let ?e = "end_after_read (q\<lparr>p_in := []\<rparr>) (pp_end c x)"
  let ?y = "taken (p_in q) (p_in_active (pe_pipe (pp_end c x)) \<and> \<not> p_in_active q) (pp_end c (\<not> x))"
  note l = pair_okD [OF p, of x]
  have h: "p_cmds q \<noteq> [] \<Longrightarrow> pe_has_out (pp_end c x)" using cs(2) may_read_out(1) [OF p, of x] s(1) by simp
  have o: "pe_has_out ?e = pe_has_out (pp_end c x)" using settled_out [OF p, of x] s(1) by (auto simp: end_after_read_def)
  have f: "pe_pipe ?e = q\<lparr>p_in := []\<rparr>" "pe_gone ?e = pe_gone (pp_end c x)" by (simp_all add: end_after_read_def)
  have fs: "p_state (pe_pipe (posted ?e)) = p_state (pe_pipe (pp_end c x))" "p_in_active (pe_pipe (posted ?e)) = p_in_active q"
    by (simp_all add: f s)
  show "link (posted ?e) (pp_end c (\<not> x)) (pp_mail c (\<not> x) @ p_cmds q)"
  proof (rule link_quiet [OF l(1), where zs = "[]"])
    show "tidy (pe_pipe (posted ?e))" using linkD(2) [OF l(1)] by (simp add: tidy_def f s)
  qed (use o cs h in \<open>simp_all add: f s\<close>)
  show "link ?y (posted ?e) (pp_mail c x)"
  proof (rule linkI)
    show "proto (p_state (pe_pipe ?y)) (\<not> pe_has_out ?y) (pe_gone ?y) (p_state (pe_pipe (posted ?e))) (pe_gone (posted ?e)) (pp_mail c x)"
      using linkD(1) [OF l(2)] by (simp add: f s)
    show "tidy (pe_pipe ?y)" using linkD(2) [OF l(2)] by simp
    show "delims (p_state (pe_pipe ?y)) (p_out (pe_pipe ?y)) (p_state (pe_pipe (posted ?e)))"
      using linkD(3) [OF l(2)] unfolding delims_def fs taken_simps d [unfolded inbound_of_fields] .
    show "awake (pe_pipe ?y) (pe_pipe (posted ?e)) (pp_mail c x)"
      using linkD(4) [OF l(2)] a unfolding awake_def fs taken_simps s(1) inbound_of_fields by metis
  qed
qed (use cs(2) may_read_out(1) [OF p, of x] s(1) in simp)
lemma link_taken:
  assumes l: "link y e m" and r: "\<not> may_read (p_state (pe_pipe e))" "asked (p_state (pe_pipe y)) \<or> asked (p_state (pe_pipe e))"
  shows "link (taken q b y) e m"
  using linkD(1,2) [OF l] delims_quiet [OF r] awake_quiet [OF r(1)] by (intro linkI) simp_all

text \<open>The delimiter, when it comes before the request.\<close>

lemma read_delim_early:
  assumes p: "pair_ok c" and s: "p_state (pe_pipe (pp_end c x)) = active" and d: "\<not> no_delim (p_out (pe_pipe (pp_end c (\<not> x))))"
  shows "\<exists>c'. read_end x ((inbound_of x c)\<lparr>p_in := ms, p_state := delimiter_received\<rparr>) c = Some c' \<and> pair_ok c'"
    (is "\<exists>c'. read_end x ?q c = Some c' \<and> pair_ok c'")
proof (rule read_end_ok [OF p refl refl])
  let ?e = "end_after_read (?q\<lparr>p_in := []\<rparr>) (pp_end c x)"
  note l = pair_okD [OF p, of x]
  have set: "pe_has_out (pp_end c x)" "\<not> pe_gone (pp_end c x)" using may_read_out [OF p, of x] s by simp_all
  have f: "p_state (pe_pipe ?e) = delimiter_received" "pe_gone ?e = pe_gone (pp_end c x)" "pe_has_out ?e = pe_has_out (pp_end c x)"
    by (simp_all add: end_after_read_def)
  have cm: "p_cmds ?q = p_cmds (pe_pipe ?e)" by (simp add: end_after_read_def)
  have t: "tidy (pe_pipe ?e)" using linkD(2) [OF l(1)] by (simp add: tidy_def end_after_read_def)
  show "link (posted ?e) (pp_end c (\<not> x)) (pp_mail c (\<not> x) @ p_cmds ?q)"
    unfolding cm by (rule link_from [OF l(1)]) (use set s t f in \<open>simp_all add: end_after_read_def\<close>)
  have a: "asked (p_state (pe_pipe (pp_end c (\<not> x))))" using linkD(3) [OF l(2)] d s by (simp add: delims_def)
  have "link (pp_end c (\<not> x)) (posted ?e) (pp_mail c x)"
    by (rule link_into [OF l(2)], unfold posted_simps f) (use s a in simp_all)
  then show "link (taken (p_in ?q) (p_in_active (pe_pipe (pp_end c x)) \<and> \<not> p_in_active ?q) (pp_end c (\<not> x))) (posted ?e) (pp_mail c x)"
    by (rule link_taken, unfold posted_simps f) (use a in simp_all)
  show "pe_has_out (pp_end c x)" by (rule set(1))
qed

text \<open>The delimiter an end has waited for.\<close>

lemma read_delim_late:
  assumes p: "pair_ok c" and s: "p_state (pe_pipe (pp_end c x)) = waiting_for_delimiter"
  shows "\<exists>c'. read_end x ((pipe_rollback ((inbound_of x c)\<lparr>p_in := ms\<rparr>))
    \<lparr>p_cmds := p_cmds (inbound_of x c) @ [Pipe_Term_Ack], p_state := term_ack_sent\<rparr>) c = Some c' \<and> pair_ok c'"
    (is "\<exists>c'. read_end x ?q c = Some c' \<and> pair_ok c'")
proof (rule read_end_ok [OF p refl refl])
  let ?e = "end_after_read (?q\<lparr>p_in := []\<rparr>) (pp_end c x)"
  note l = pair_okD [OF p, of x]
  have set: "pe_has_out (pp_end c x)" "\<not> pe_gone (pp_end c x)" using may_read_out [OF p, of x] s by simp_all
  have f: "p_state (pe_pipe (posted ?e)) = term_ack_sent" "pe_gone (posted ?e) = pe_gone (pp_end c x)" "\<not> pe_has_out (posted ?e)"
    by (simp_all add: end_after_read_def)
  have cm: "p_cmds ?q = [] @ [Pipe_Term_Ack]" using tidyD(2) [OF linkD(2) [OF l(1)]] by simp
  have a: "asked (p_state (pe_pipe (pp_end c (\<not> x))))" by (rule protoD(2) [OF linkD(1) [OF l(2)]]) (simp add: s)
  show "link (posted ?e) (pp_end c (\<not> x)) (pp_mail c (\<not> x) @ p_cmds ?q)"
  proof (rule linkI)
    have "proto term_ack_sent True (pe_gone (pp_end c x)) (p_state (pe_pipe (pp_end c (\<not> x))))
         (pe_gone (pp_end c (\<not> x))) (pp_mail c (\<not> x) @ [] @ [Pipe_Term_Ack])"
      by (rule proto_ack [OF linkD(1) [OF l(1)]]) (use set s in auto)
    then show "proto (p_state (pe_pipe (posted ?e))) (\<not> pe_has_out (posted ?e)) (pe_gone (posted ?e)) (p_state (pe_pipe (pp_end c (\<not> x))))
      (pe_gone (pp_end c (\<not> x))) (pp_mail c (\<not> x) @ p_cmds ?q)"
      unfolding cm f(1,2) using f(3) by simp
    show "tidy (pe_pipe (posted ?e))" using linkD(2) [OF l(1)] by (simp add: tidy_def end_after_read_def pipe_rollback_def)
    show "delims (p_state (pe_pipe (posted ?e))) (p_out (pe_pipe (posted ?e))) (p_state (pe_pipe (pp_end c (\<not> x))))"
      using a by (simp add: delims_def f(1) may_read_def asked_def) auto
    show "awake (pe_pipe (posted ?e)) (pe_pipe (pp_end c (\<not> x))) (pp_mail c (\<not> x) @ p_cmds ?q)"
      by (rule awake_quiet) (use a in \<open>auto simp: asked_def\<close>)
  qed
  have "link (pp_end c (\<not> x)) (posted ?e) (pp_mail c x)"
    by (rule link_into [OF l(2)]) (use s a f in simp_all)
  then show "link (taken (p_in ?q) (p_in_active (pe_pipe (pp_end c x)) \<and> \<not> p_in_active ?q) (pp_end c (\<not> x))) (posted ?e) (pp_mail c x)"
    by (rule link_taken) (use a f in simp_all)
  show "pe_has_out (pp_end c x)" by (rule set(1))
qed

lemma read_ok:
  assumes p: "pair_ok c" and r: "after_read (inbound_of x c) q"
  shows "\<exists>c'. read_end x q c = Some c' \<and> pair_ok c'"
  using r
proof cases
  case not_read
  then show ?thesis by (intro read_quiet_ok [OF p]) (use tidyD(2) [OF pair_tidy [OF p, of x]] in simp_all)
next
  case found_empty
  then show ?thesis
    by (intro read_quiet_ok [OF p]) (use tidyD(2) [OF pair_tidy [OF p, of x]] in \<open>simp_all add: pipe_readable_def\<close>)
next
  case (delim_taken ms)
  then consider "p_state (pe_pipe (pp_end c x)) = active" | "p_state (pe_pipe (pp_end c x)) = waiting_for_delimiter"
    by (auto simp: pipe_readable_def)
  then show ?thesis
    using read_delim_early [OF p, of x ms] read_delim_late [OF p, of x ms] delim_taken by cases (simp_all add: process_delimiter_def)
next
  case (msg_taken ms m)
  then show ?thesis
    by (intro read_quiet_ok [OF p])
      (use tidyD(2) [OF pair_tidy [OF p, of x]] in \<open>auto simp: pipe_readable_def may_read_def dest: count_read_cmds [rotated]\<close>)
qed

section \<open>No step fails\<close>

lemma step_ok:
  assumes p: "pair_ok c" and u: "user_act (x, a)"
  shows "\<exists>c'. term_step (x, a) c = Some c' \<and> pair_ok c'"
proof (cases "pe_gone (pp_end c x)")
  case True
  have "pp_mail c x = []" using linkD(1) [OF pair_okD(2) [OF p, of x]] True by (simp add: proto_def)
  then show ?thesis using True p by (cases a) (simp_all add: term_step_def Let_def)
next
  case False
  show ?thesis
  proof (cases a)
    case (T_Write m)
    then show ?thesis using write_ok [OF p, of m x] u False by (simp add: term_step_def user_act_def Let_def)
  next
    case T_Flush
    then show ?thesis using flush_ok [OF p, of x] False by (simp add: term_step_def Let_def)
  next
    case T_Rollback
    then show ?thesis using rollback_ok [OF p, of x] False by (simp add: term_step_def Let_def)
  next
    case T_Check
    then show ?thesis using read_ok [OF p after_check_read, of x] False by (simp add: term_step_def Let_def)
  next
    case T_Read
    then show ?thesis using read_ok [OF p after_pipe_read, of x] False by (simp add: term_step_def Let_def)
  next
    case T_Nodelay
    then show ?thesis using nodelay_ok [OF p, of x] False by (simp add: term_step_def Let_def)
  next
    case (T_Terminate d)
    then show ?thesis using terminate_ok [OF p, of x d] False by (simp add: term_step_def Let_def)
  next
    case T_Command
    show ?thesis
    proof (cases "pp_mail c x")
      case Nil
      then show ?thesis using T_Command p by (simp add: term_step_def Let_def)
    next
      case (Cons m ms)
      then have s: "term_step (x, a) c =
          Option.bind (process_command m (pp_end c x)) (\<lambda>e. put_end x e (c\<lparr>pp_mail := (pp_mail c)(x := ms)\<rparr>))"
        using T_Command False by (simp add: term_step_def Let_def)
      show ?thesis
      proof (cases m)
        case Pipe_Term
        then show ?thesis using get_request_ok [OF p, of x ms] Cons False s by (simp add: process_command_def)
      next
        case Pipe_Term_Ack
        then show ?thesis using get_ack_ok [OF p, of x ms] Cons False s by (simp add: process_command_def)
      qed (use get_activate_ok [OF p Cons] s in auto)
    qed
  qed
qed

lemma run_ok: "pair_ok c \<Longrightarrow> \<forall>a \<in> set as. user_act a \<Longrightarrow> \<exists>c'. term_run as c = Some c' \<and> pair_ok c'"
proof (induction as arbitrary: c)
  case (Cons a as)
  obtain c1 where "term_step a c = Some c1" "pair_ok c1"
    using step_ok [OF Cons.prems(1), of "fst a" "snd a"] Cons.prems(2) by auto
  then show ?case using Cons by simp
qed simp

lemma new_pair_ok: "pair_ok (new_pair hwm0 hwm1)"
  by (auto simp: pair_ok_def new_pair_def new_end_def new_pipe_def link_def proto_def tidy_def delims_def awake_def)
section \<open>Both ends come to be gone\<close>

text \<open>What is left to do: commands and messages on the way, and outbound queues not given up.\<close>

definition end_work :: "pipe_end \<Rightarrow> nat" where
  "end_work e = 2 * length (p_out (pe_pipe e)) + (if pe_has_out e then 2 else 0)"

definition pair_work :: "pipe_pair \<Rightarrow> nat" where
  "pair_work c = length (pp_mail c True) + length (pp_mail c False) + end_work (pp_end c True) + end_work (pp_end c False)"

definition requested :: "pipe_pair \<Rightarrow> bool" where
  "requested c \<longleftrightarrow> asked (p_state (pe_pipe (pp_end c True))) \<or> asked (p_state (pe_pipe (pp_end c False)))"

lemma pair_work_split: "pair_work c = length (pp_mail c x) + length (pp_mail c (\<not> x)) + end_work (pp_end c x) + end_work (pp_end c (\<not> x))"
  by (cases x) (simp_all add: pair_work_def)

lemma requestedI: "asked (p_state (pe_pipe (pp_end c x))) \<Longrightarrow> requested c"
  by (cases x) (simp_all add: requested_def)

lemma put_endD:
  assumes "put_end x e c = Some c'"
  shows "pp_end c' = (pp_end c)(x := posted e)" "pp_mail c' = (pp_mail c)(\<not> x := pp_mail c (\<not> x) @ p_cmds (pe_pipe e))"
  using assms by (auto simp: put_end_def posted_def Let_def split: if_splits)

lemma write_endD: "write_end x e c = Some c' \<Longrightarrow> put_end x e c = Some c'"
  by (simp add: write_end_def split: if_splits)

lemma put_end_work:
  assumes "put_end x e c = Some c'" "end_work e + length (p_cmds (pe_pipe e)) \<le> end_work (pp_end c x)"
  shows "pair_work c' \<le> pair_work c"
  using assms(2) unfolding pair_work_split [of _ x] put_endD [OF assms(1)] by (simp add: end_work_def)

lemma command_work:
  assumes p: "pair_ok c" and m: "pp_mail c x = m # ms" and s: "term_step (x, T_Command) c = Some c'"
  shows "pair_work c' < pair_work c"
proof -
  let ?c = "c\<lparr>pp_mail := (pp_mail c)(x := ms)\<rparr>"
  have g: "\<not> pe_gone (pp_end c x)" using linkD(1) [OF pair_okD(2) [OF p, of x]] m by (auto simp: proto_def)
  obtain e where e: "process_command m (pp_end c x) = Some e" and u: "put_end x e ?c = Some c'"
    using s m g by (auto simp: term_step_def Let_def Option.bind_eq_Some_conv)
  have cm: "p_cmds (pe_pipe (pp_end c x)) = []" by (rule tidyD(2) [OF pair_tidy [OF p]])
  have set: "settled (p_state (pe_pipe (pp_end c x))) (\<not> pe_has_out (pp_end c x)) False"
    using protoD(1) [OF linkD(1) [OF pair_okD(1) [OF p, of x]]] g by simp
  have ack: "end_work (ack_to s1 (pp_end c x)) + length (p_cmds (pe_pipe (ack_to s1 (pp_end c x)))) \<le> end_work (pp_end c x)"
    if "pe_has_out (pp_end c x)" for s1 using that cm by (simp add: end_work_def ack_to_def send_cmd_def)
  have "end_work e + length (p_cmds (pe_pipe e)) \<le> end_work (pp_end c x)"
  proof (cases m)
    case Pipe_Term
    then show ?thesis
      using e set ack cm by (cases "p_state (pe_pipe (pp_end c x))")
        (auto simp: process_command_def process_pipe_term_def end_work_def split: if_splits)
  next
    case Pipe_Term_Ack
    then show ?thesis
      using e set ack cm by (cases "p_state (pe_pipe (pp_end c x))")
        (auto simp: process_command_def process_pipe_term_ack_def end_work_def)
  qed (use e cm in \<open>auto simp: process_command_def process_activate_read_def process_activate_write_def end_work_def Let_def\<close>)
  then have "pair_work c' \<le> pair_work ?c" by (intro put_end_work [OF u]) simp
  also have "\<dots> < pair_work c" using m by (cases x) (simp_all add: pair_work_def)
  finally show ?thesis .
qed

lemma skip_length: "length (skip_credentials q) \<le> length q"
  by (induction q) auto

lemma read_work:
  assumes p: "pair_ok c" and r: "may_read (p_state (pe_pipe (pp_end c x)))" "p_in_active (pe_pipe (pp_end c x))"
    and q: "\<not> no_delim (p_out (pe_pipe (pp_end c (\<not> x))))" and s: "term_step (x, T_Read) c = Some c'"
  shows "pair_work c' < pair_work c"
proof -
  let ?i = "inbound_of x c" and ?q = "p_out (pe_pipe (pp_end c (\<not> x)))"
  define z where "z = snd (pipe_read ?i)"
  have rd: "pipe_readable ?i" using r by (auto simp: pipe_readable_def may_read_def)
  have cm: "p_cmds ?i = []" using tidyD(2) [OF pair_tidy [OF p]] by simp
  have "skip_credentials ?q \<noteq> []" using q no_delim_skip [of ?q] by auto
  then have z: "length (p_in z) < length ?q" "length (p_cmds z) \<le> 1" "p_out z = p_out ?i"
    using rd cm skip_length [of ?q]
    by (auto simp: z_def pipe_read_def process_delimiter_def pipe_rollback_def pipe_count_read_def Let_def split: list.splits)
  let ?e = "end_after_read (z\<lparr>p_in := []\<rparr>) (pp_end c x)"
  let ?y = "taken (p_in z) (p_in_active (pe_pipe (pp_end c x)) \<and> \<not> p_in_active z) (pp_end c (\<not> x))"
  have "put_end x ?e (c\<lparr>pp_end := (pp_end c)(\<not> x := ?y)\<rparr>) = Some c'"
    using s may_read_out(2) [OF p r(1)] by (simp add: term_step_def read_end_def taken_def z_def Let_def)
  note u = put_endD [OF this]
  have "end_work ?e \<le> end_work (pp_end c x)" using z(3) by (simp add: end_work_def end_after_read_def)
  moreover have "p_cmds (pe_pipe ?e) = p_cmds z" by (simp add: end_after_read_def)
  moreover have "end_work ?y + 2 * length ?q = end_work (pp_end c (\<not> x)) + 2 * length (p_in z)" by (simp add: end_work_def)
  ultimately show ?thesis
    using z(1,2) unfolding pair_work_split [of _ x] u by (simp add: end_work_def)
qed

text \<open>An end that has asked has asked for good.\<close>

lemma terminate_asked: "asked (p_state (pe_pipe e)) \<Longrightarrow> asked (p_state (pe_pipe (terminate d e)))"
  by (auto simp: asked_def terminate_def Let_def)

lemma command_asked:
  assumes "process_command m e = Some e'" "asked (p_state (pe_pipe e))"
  shows "asked (p_state (pe_pipe e'))"
  using assms
  by (auto simp: asked_def process_command_def process_pipe_term_def process_pipe_term_ack_def process_activate_read_def
    process_activate_write_def Let_def split: pipe_cmd.splits)

lemma after_read_asked: "after_read p q \<Longrightarrow> asked (p_state p) \<Longrightarrow> asked (p_state q)"
  by (auto elim!: after_read.cases simp: pipe_readable_def asked_def)

lemma read_endD:
  assumes "read_end x q c = Some c'"
  shows "p_state (pe_pipe (pp_end c' x)) = p_state q" "p_state (pe_pipe (pp_end c' (\<not> x))) = p_state (pe_pipe (pp_end c (\<not> x)))"
  using put_endD(1) [OF assms [unfolded read_end_def Let_def]] by (simp_all add: end_after_read_def)

lemma write_state: "p_state (snd (pipe_write m p)) = p_state p"
  by (simp add: pipe_write_def pipe_check_write_def Let_def)

lemma step_asked_own:
  assumes s: "term_step (x, a) c = Some c'" and k: "asked (p_state (pe_pipe (pp_end c x)))"
  shows "asked (p_state (pe_pipe (pp_end c' x)))"
proof (cases "pe_gone (pp_end c x)")
  case True
  then show ?thesis using s k by (cases a) (auto simp: term_step_def Let_def split: list.splits)
next
  case False
  show ?thesis
  proof (cases a)
    case T_Command
    then show ?thesis
      using s k False by (auto simp: term_step_def Let_def Option.bind_eq_Some_conv split: list.splits dest!: put_endD(1) command_asked)
  next
    case T_Check
    then show ?thesis
      using s k False after_read_asked [OF after_check_read, of "inbound_of x c"] by (auto simp: term_step_def Let_def dest!: read_endD(1))
  next
    case T_Read
    then show ?thesis
      using s k False after_read_asked [OF after_pipe_read, of "inbound_of x c"] by (auto simp: term_step_def Let_def dest!: read_endD(1))
  next
    case (T_Terminate d)
    then show ?thesis
      using s k False terminate_asked [of "pp_end c x" d] by (auto simp: term_step_def Let_def dest!: write_endD put_endD(1))
  next
    case T_Nodelay
    then show ?thesis using s k False by (auto simp: term_step_def set_nodelay_def Let_def)
  qed (use s k False in \<open>auto simp: term_step_def write_state pipe_rollback_def Let_def split: if_splits dest!: write_endD put_endD(1)\<close>)
qed

lemma step_asked_other:
  assumes "term_step (x, a) c = Some c'"
  shows "p_state (pe_pipe (pp_end c' (\<not> x))) = p_state (pe_pipe (pp_end c (\<not> x)))"
proof (cases "pe_gone (pp_end c x)")
  case True
  then show ?thesis using assms by (cases a) (auto simp: term_step_def Let_def split: list.splits)
next
  case False
  then show ?thesis
    using assms by (cases a)
      (auto simp: term_step_def Let_def Option.bind_eq_Some_conv split: list.splits dest!: write_endD put_endD(1) read_endD(2))
qed

lemma step_requested: "term_step (x, a) c = Some c' \<Longrightarrow> requested c \<Longrightarrow> requested c'"
  using step_asked_own [of x a c c'] step_asked_other [of x a c c'] by (cases x) (auto simp: requested_def)
lemma terminate_requests:
  assumes p: "pair_ok c" and s: "term_step (x, T_Terminate d) c = Some c'"
  shows "requested c'"
proof (cases "(p_state (pe_pipe (pp_end c x)) = active \<or> p_state (pe_pipe (pp_end c x)) = delimiter_received)")
  case True
  note l = linkD(1) [OF pair_okD(1) [OF p, of x]]
  have g: "pe_has_out (pp_end c x)" "\<not> pe_gone (pp_end c x)" using protoD(1) [OF l] True by auto
  then have "put_end x (terminate d (pp_end c x)) c = Some c'" using s by (auto simp: term_step_def Let_def dest: write_endD)
  from put_endD(1) [OF this] have "p_state (pe_pipe (pp_end c' x)) = term_req_sent1"
    using True g by (auto simp: terminate_def stop_output_with(1) send_cmd_def Let_def)
  then show ?thesis by (intro requestedI [of _ x]) simp
next
  case False
  have "asked (p_state (pe_pipe (pp_end c x))) \<or> asked (p_state (pe_pipe (pp_end c (\<not> x))))"
    using False protoD(2) [OF linkD(1) [OF pair_okD(2) [OF p, of x]]] by (cases "p_state (pe_pipe (pp_end c x))") simp_all
  then have "requested c" by (auto intro: requestedI)
  then show ?thesis by (rule step_requested [OF s])
qed

lemma run_requested:
  "pair_ok c \<Longrightarrow> \<forall>a \<in> set as. user_act a \<Longrightarrow> requested c \<or> (x, T_Terminate d) \<in> set as \<Longrightarrow> term_run as c = Some c' \<Longrightarrow> requested c'"
proof (induction as arbitrary: c)
  case (Cons a as)
  obtain c1 where s: "term_step a c = Some c1" "pair_ok c1"
    using step_ok [OF Cons.prems(1), of "fst a" "snd a"] Cons.prems(2) by auto
  have "requested c1 \<or> (x, T_Terminate d) \<in> set as"
    using Cons.prems(3) s(1) step_requested [of "fst a" "snd a" c c1] terminate_requests [OF Cons.prems(1), of x d c1] by auto
  then show ?case using Cons.IH [OF s(2)] Cons.prems(2,4) s(1) by simp
qed simp

text \<open>With nothing in the mailboxes, an end that is not gone waits for a delimiter that it can read.\<close>

lemma waiting_can_read:
  assumes p: "pair_ok c" and m: "pp_mail c x = []" "pp_mail c (\<not> x) = []" and a: "asked (p_state (pe_pipe (pp_end c x)))"
    and g: "\<not> (pe_gone (pp_end c x) \<and> pe_gone (pp_end c (\<not> x)))"
  shows "p_state (pe_pipe (pp_end c (\<not> x))) = waiting_for_delimiter" "p_in_active (pe_pipe (pp_end c (\<not> x)))"
    "\<not> no_delim (p_out (pe_pipe (pp_end c x)))"
proof -
  note l = pair_okD [OF p, of x, unfolded m]
  have f: "had_request (p_state (pe_pipe (pp_end c (\<not> x))))" "\<not> pe_has_out (pp_end c x) \<Longrightarrow> pe_gone (pp_end c (\<not> x))"
    using linkD(1) [OF l(1)] a by (auto simp: proto_def split: if_splits)
  have b: "\<not> pe_has_out (pp_end c (\<not> x)) \<Longrightarrow> pe_gone (pp_end c x)"
    using linkD(1) [OF l(2)] by (auto simp: proto_def split: if_splits)
  note set = protoD(1) [OF linkD(1) [OF l(1)]] protoD(1) [OF linkD(1) [OF l(2)]]
  show w: "p_state (pe_pipe (pp_end c (\<not> x))) = waiting_for_delimiter"
  proof (rule ccontr)
    assume "p_state (pe_pipe (pp_end c (\<not> x))) \<noteq> waiting_for_delimiter"
    then have "\<not> pe_has_out (pp_end c (\<not> x))" using f(1) set(2) by (auto simp: had_request_def)
    then have gx: "pe_gone (pp_end c x)" by (rule b)
    then have "\<not> pe_has_out (pp_end c x)" using set(1) a by (auto simp: asked_def)
    then show False using f(2) gx g by blast
  qed
  show d: "\<not> no_delim (p_out (pe_pipe (pp_end c x)))" using linkD(3) [OF l(1)] a w by (simp add: delims_def)
  then show "p_in_active (pe_pipe (pp_end c (\<not> x)))" using linkD(4) [OF l(1)] w by (auto simp: awake_def)
qed

lemma work_step:
  assumes p: "pair_ok c" and r: "requested c" and g: "\<not> (pe_gone (pp_end c True) \<and> pe_gone (pp_end c False))"
  shows "\<exists>x a c'. (a = T_Command \<or> a = T_Read) \<and> term_step (x, a) c = Some c' \<and> pair_ok c' \<and> pair_work c' < pair_work c"
proof (cases "\<exists>x. pp_mail c x \<noteq> []")
  case True
  then obtain x m ms where m: "pp_mail c x = m # ms" by (meson neq_Nil_conv)
  obtain c' where "term_step (x, T_Command) c = Some c'" "pair_ok c'"
    using step_ok [OF p, of x T_Command] by (auto simp: user_act_def)
  then show ?thesis using command_work [OF p m] by blast
next
  case False
  then have m: "pp_mail c z = []" for z by simp
  obtain y where y: "asked (p_state (pe_pipe (pp_end c y)))" using r by (auto simp: requested_def)
  have "\<not> (pe_gone (pp_end c y) \<and> pe_gone (pp_end c (\<not> y)))" using g by (cases y) auto
  note w = waiting_can_read [OF p m m y this]
  obtain c' where s: "term_step (\<not> y, T_Read) c = Some c'" "pair_ok c'"
    using step_ok [OF p, of "\<not> y" T_Read] by (auto simp: user_act_def)
  have "pair_work c' < pair_work c" by (rule read_work [OF p _ w(2) _ s(1)]) (use w in simp_all)
  then show ?thesis using s by blast
qed

lemma winds_up:
  "pair_ok c \<Longrightarrow> requested c \<Longrightarrow> \<exists>ys c'. (\<forall>a \<in> set ys. snd a = T_Command \<or> snd a = T_Read) \<and> length ys \<le> pair_work c \<and>
     term_run ys c = Some c' \<and> pe_gone (pp_end c' True) \<and> pe_gone (pp_end c' False)"
proof (induction "pair_work c" arbitrary: c rule: less_induct)
  case less
  show ?case
  proof (cases "pe_gone (pp_end c True) \<and> pe_gone (pp_end c False)")
    case True
    then show ?thesis by (intro exI [of _ "[]"]) simp
  next
    case False
    obtain x a c1 where s: "a = T_Command \<or> a = T_Read" "term_step (x, a) c = Some c1" "pair_ok c1" "pair_work c1 < pair_work c"
      using work_step [OF less.prems False] by blast
    obtain ys c' where "\<forall>a \<in> set ys. snd a = T_Command \<or> snd a = T_Read" "length ys \<le> pair_work c1"
      "term_run ys c1 = Some c'" "pe_gone (pp_end c' True)" "pe_gone (pp_end c' False)"
      using less.hyps [OF s(4,3) step_requested [OF s(2) less.prems(2)]] by blast
    then show ?thesis using s by (intro exI [of _ "(x, a) # ys"] exI [of _ c']) auto
  qed
qed

lemma term_run_append: "term_run (xs @ ys) c = Option.bind (term_run xs c) (term_run ys)"
  by (induction xs arbitrary: c) (auto simp: Option.bind_assoc split: Option.bind_splits)
section \<open>An example\<close>

text \<open>One end writes and flushes; the other terminates; the first hears of it and terminates as well.\<close>

definition closing_acts :: "(bool \<times> term_act) list" where
  "closing_acts = [(False, T_Write \<lparr>m_data = ''m'', m_more = False, m_kind = Plain\<rparr>), (False, T_Flush), (True, T_Terminate True),
     (False, T_Command), (False, T_Terminate True)]"

end
