(* ===== verification/ZmqMsgRefs.thy ===== *)
theory ZmqMsgRefs
  imports ZmqMsg
begin

unbundle bit_operations_syntax

text \<open>
  The memory behind messages (\<open>3rd/zeromq/src/msg.cpp\<close>, \<open>metadata.cpp\<close>, \<open>decoder_allocators.cpp\<close>). A short message carries its
  bytes; a long one points to a content block, which copies share and which counts its references once it is shared; the
  content of a message decoded without copying lies in the decoder's receive buffer, which counts the messages in it.
  An address is an index of a list, a freed block is \<open>None\<close> there and its address is not used again, so that every use of a
  block after it was freed, every second free and every failed assertion is the value \<open>None\<close> of an operation.
\<close>

section \<open>Blocks\<close>

type_synonym maddr = nat

text \<open>The function that gives the bytes back: the user's, or \<open>call_dec_ref\<close> of the buffer in the hint.\<close>

datatype free_fn = No_Fn | User_Fn nat | Buf_Fn maddr

record content_t =
  ct_data :: bytes
  ct_ffn :: free_fn
  ct_refcnt :: "32 word"

record msg_heap =
  mh_content :: "content_t option list"
  mh_buffer :: "32 word option list"
  mh_meta :: "32 word option list"
  mh_group :: "(bytes \<times> 32 word) option list"
  mh_freed :: "nat list"

definition block :: "'a option list \<Rightarrow> maddr \<Rightarrow> 'a option" where
  "block xs a = (if a < length xs then xs ! a else None)"

text \<open>One reference less on a counted block, which is deleted with the last one.\<close>

definition drop_ref :: "32 word option list \<Rightarrow> maddr \<Rightarrow> 32 word option list option" where
  "drop_ref xs a = (case block xs a of None \<Rightarrow> None
     | Some n \<Rightarrow> Some (xs[a := if n - 1 = 0 then None else Some (n - 1)]))"

definition add_ref :: "32 word option list \<Rightarrow> maddr \<Rightarrow> 32 word option list option" where
  "add_ref xs a = (case block xs a of None \<Rightarrow> None | Some n \<Rightarrow> Some (xs[a := Some (n + 1)]))"

section \<open>A message\<close>

text \<open>The members of the union by its type tag; a closed message has the tag 0. \<open>Wild\<close> is a long group whose pointer has been
  written over.\<close>

datatype msg_body = Closed | Vsm bytes | Lmsg maddr | Zclmsg maddr | Cmsg bytes | Delim_Body | Join_Body | Leave_Body

datatype msg_group = Short bytes | Long maddr | Wild

record rmsg =
  r_body :: msg_body
  r_flags :: "8 word"
  r_meta :: "maddr option"
  r_group :: msg_group

definition max_vsm_size :: nat where
  "max_vsm_size = 64 - (8 + 3 + 16 + 4)"

definition shared_flag :: "8 word" where
  "shared_flag = 128"

definition is_shared :: "rmsg \<Rightarrow> bool" where
  "is_shared m \<longleftrightarrow> r_flags m AND shared_flag \<noteq> 0"

definition set_shared :: "rmsg \<Rightarrow> rmsg" where
  "set_shared m = m\<lparr>r_flags := r_flags m OR shared_flag\<rparr>"

definition msg_check :: "rmsg \<Rightarrow> bool" where
  "msg_check m \<longleftrightarrow> r_body m \<noteq> Closed"

definition is_vsm :: "rmsg \<Rightarrow> bool" where
  "is_vsm m = (case r_body m of Vsm bs \<Rightarrow> True | _ \<Rightarrow> False)"

definition content_of :: "rmsg \<Rightarrow> maddr option" where
  "content_of m = (case r_body m of Lmsg a \<Rightarrow> Some a | Zclmsg a \<Rightarrow> Some a | _ \<Rightarrow> None)"

definition init_body :: "msg_body \<Rightarrow> rmsg" where
  "init_body b = \<lparr>r_body = b, r_flags = 0, r_meta = None, r_group = Short []\<rparr>"

definition msg_init :: rmsg where
  "msg_init = init_body (Vsm [])"

text \<open>\<open>init_buffer\<close>, \<open>init_data\<close>. The counter of a new block is zero until it is shared.\<close>

definition new_content :: "bytes \<Rightarrow> free_fn \<Rightarrow> msg_heap \<Rightarrow> maddr \<times> msg_heap" where
  "new_content bs f h = (length (mh_content h), h\<lparr>mh_content := mh_content h @ [Some \<lparr>ct_data = bs, ct_ffn = f, ct_refcnt = 0\<rparr>]\<rparr>)"

definition init_buffer :: "bytes \<Rightarrow> msg_heap \<Rightarrow> rmsg \<times> msg_heap" where
  "init_buffer bs h =
     (if length bs \<le> max_vsm_size then (init_body (Vsm bs), h)
      else let (a, h') = new_content bs No_Fn h in (init_body (Lmsg a), h'))"

definition init_data :: "bytes \<Rightarrow> free_fn \<Rightarrow> msg_heap \<Rightarrow> rmsg \<times> msg_heap" where
  "init_data bs f h =
     (if f = No_Fn then (init_body (Cmsg bs), h)
      else let (a, h') = new_content bs f h in (init_body (Lmsg a), h'))"

definition init_external_storage :: "bytes \<Rightarrow> free_fn \<Rightarrow> msg_heap \<Rightarrow> rmsg \<times> msg_heap" where
  "init_external_storage bs f h = (let (a, h') = new_content bs f h in (init_body (Zclmsg a), h'))"

text \<open>What \<open>v2_decoder_t::size_ready\<close> makes of \<open>n\<close> bytes in its buffer \<open>b\<close>: a copy of few bytes, else a message in the buffer.\<close>

definition init_in_buffer :: "bytes \<Rightarrow> maddr \<Rightarrow> msg_heap \<Rightarrow> (rmsg \<times> msg_heap) option" where
  "init_in_buffer bs b h =
     (if length bs < max_vsm_size then Some (init_body (Vsm bs), h)
      else let (m, h') = init_external_storage bs (Buf_Fn b) h
           in map_option (\<lambda>bf. (m, h'\<lparr>mh_buffer := bf\<rparr>)) (add_ref (mh_buffer h') b))"

section \<open>Closing\<close>

definition call_dec_ref :: "maddr \<Rightarrow> msg_heap \<Rightarrow> msg_heap option" where
  "call_dec_ref b h = map_option (\<lambda>bf. h\<lparr>mh_buffer := bf\<rparr>) (drop_ref (mh_buffer h) b)"

definition call_ffn :: "free_fn \<Rightarrow> msg_heap \<Rightarrow> msg_heap option" where
  "call_ffn f h = (case f of No_Fn \<Rightarrow> Some h | User_Fn d \<Rightarrow> Some (h\<lparr>mh_freed := mh_freed h @ [d]\<rparr>) | Buf_Fn b \<Rightarrow> call_dec_ref b h)"

definition free_content :: "maddr \<Rightarrow> content_t \<Rightarrow> msg_heap \<Rightarrow> msg_heap option" where
  "free_content a c h = call_ffn (ct_ffn c) (h\<lparr>mh_content := (mh_content h)[a := None]\<rparr>)"

text \<open>Giving \<open>k\<close> references of a shared content back.\<close>

definition sub_refs :: "32 word \<Rightarrow> maddr \<Rightarrow> content_t \<Rightarrow> msg_heap \<Rightarrow> msg_heap option" where
  "sub_refs k a c h =
     (if ct_refcnt c - k = 0 then free_content a c h
      else Some (h\<lparr>mh_content := (mh_content h)[a := Some (c\<lparr>ct_refcnt := ct_refcnt c - k\<rparr>)]\<rparr>))"

definition drop_content :: "rmsg \<Rightarrow> msg_heap \<Rightarrow> msg_heap option" where
  "drop_content m h =
     (case content_of m of None \<Rightarrow> Some h
      | Some a \<Rightarrow> (case block (mh_content h) a of None \<Rightarrow> None
         | Some c \<Rightarrow>
             if r_body m = Zclmsg a \<and> ct_ffn c = No_Fn then None
             else if \<not> is_shared m then free_content a c h else sub_refs 1 a c h))"

definition drop_meta :: "rmsg \<Rightarrow> msg_heap \<Rightarrow> msg_heap option" where
  "drop_meta m h = (case r_meta m of None \<Rightarrow> Some h
     | Some a \<Rightarrow> map_option (\<lambda>xs. h\<lparr>mh_meta := xs\<rparr>) (drop_ref (mh_meta h) a))"

definition drop_group :: "rmsg \<Rightarrow> msg_heap \<Rightarrow> msg_heap option" where
  "drop_group m h = (case r_group m of Short g \<Rightarrow> Some h | Wild \<Rightarrow> None
     | Long a \<Rightarrow> (case block (mh_group h) a of None \<Rightarrow> None
        | Some (g, n) \<Rightarrow> Some (h\<lparr>mh_group := (mh_group h)[a := if n - 1 = 0 then None else Some (g, n - 1)]\<rparr>)))"

text \<open>A message that is not valid is refused with \<open>EFAULT\<close>.\<close>

definition msg_close :: "rmsg \<Rightarrow> msg_heap \<Rightarrow> (errno option \<times> rmsg \<times> msg_heap) option" where
  "msg_close m h =
     (if \<not> msg_check m then Some (Some EFAULT, m, h)
      else Option.bind (drop_content m h) (\<lambda>h1. Option.bind (drop_meta m h1) (\<lambda>h2. Option.bind (drop_group m h2) (\<lambda>h3.
        Some (None, m\<lparr>r_body := Closed, r_meta := None\<rparr>, h3)))))"

section \<open>Messages in variables\<close>

text \<open>The two messages of \<open>move\<close> and \<open>copy\<close> may be one; they are named by where they are. An engine holds a metadata
  object, a decoder a receive buffer.\<close>

record msgs =
  ms_vars :: "rmsg list"
  ms_heap :: msg_heap
  ms_engines :: "maddr option list"
  ms_bufs :: "maddr option list"

definition put_var :: "nat \<Rightarrow> rmsg \<Rightarrow> msgs \<Rightarrow> msgs" where
  "put_var i m s = s\<lparr>ms_vars := (ms_vars s)[i := m]\<rparr>"

definition var_close :: "nat \<Rightarrow> msgs \<Rightarrow> (errno option \<times> msgs) option" where
  "var_close i s = map_option (\<lambda>(r, m, h). (r, put_var i m (s\<lparr>ms_heap := h\<rparr>))) (msg_close (ms_vars s ! i) (ms_heap s))"

definition msg_move :: "nat \<Rightarrow> nat \<Rightarrow> msgs \<Rightarrow> (errno option \<times> msgs) option" where
  "msg_move i j s =
     (if \<not> msg_check (ms_vars s ! j) then Some (Some EFAULT, s)
      else Option.bind (var_close i s) (\<lambda>(r, s1).
        if r \<noteq> None then Some (r, s1)
        else Some (None, put_var j msg_init (put_var i (ms_vars s1 ! j) s1))))"

text \<open>The source becomes shared with two references, or gets one more.\<close>

definition share_content :: "rmsg \<Rightarrow> msg_heap \<Rightarrow> (rmsg \<times> msg_heap) option" where
  "share_content m h =
     (case content_of m of None \<Rightarrow> Some (m, h)
      | Some a \<Rightarrow> (case block (mh_content h) a of None \<Rightarrow> None
         | Some c \<Rightarrow>
            Some (set_shared m, h\<lparr>mh_content := (mh_content h)[a := Some (c\<lparr>ct_refcnt := (if is_shared m then ct_refcnt c + 1 else 2)\<rparr>)]\<rparr>)))"

definition share_meta :: "rmsg \<Rightarrow> msg_heap \<Rightarrow> msg_heap option" where
  "share_meta m h = (case r_meta m of None \<Rightarrow> Some h
     | Some a \<Rightarrow> map_option (\<lambda>xs. h\<lparr>mh_meta := xs\<rparr>) (add_ref (mh_meta h) a))"

definition share_group :: "rmsg \<Rightarrow> msg_heap \<Rightarrow> msg_heap option" where
  "share_group m h = (case r_group m of Short g \<Rightarrow> Some h | Wild \<Rightarrow> None
     | Long a \<Rightarrow> (case block (mh_group h) a of None \<Rightarrow> None
        | Some (g, n) \<Rightarrow> Some (h\<lparr>mh_group := (mh_group h)[a := Some (g, n + 1)]\<rparr>)))"

definition msg_copy :: "nat \<Rightarrow> nat \<Rightarrow> msgs \<Rightarrow> (errno option \<times> msgs) option" where
  "msg_copy i j s =
     (if \<not> msg_check (ms_vars s ! j) then Some (Some EFAULT, s)
      else Option.bind (var_close i s) (\<lambda>(r, s1).
        if r \<noteq> None then Some (r, s1)
        else Option.bind (share_content (ms_vars s1 ! j) (ms_heap s1)) (\<lambda>(m, h1).
             Option.bind (share_meta m h1) (\<lambda>h2. Option.bind (share_group m h2) (\<lambda>h3.
             Some (None, put_var i m (put_var j m (s1\<lparr>ms_heap := h3\<rparr>))))))))"


text \<open>References for \<open>k\<close> more copies made bit by bit, and \<open>k\<close> of them given back.\<close>

definition add_refs :: "nat \<Rightarrow> rmsg \<Rightarrow> msg_heap \<Rightarrow> (rmsg \<times> msg_heap) option" where
  "add_refs k m h =
     (if r_meta m \<noteq> None then None
      else if k = 0 then Some (m, h)
      else case content_of m of None \<Rightarrow> Some (m, h)
      | Some a \<Rightarrow> (case block (mh_content h) a of None \<Rightarrow> None
         | Some c \<Rightarrow> Some (set_shared m, h\<lparr>mh_content := (mh_content h)
             [a := Some (c\<lparr>ct_refcnt := (if is_shared m then ct_refcnt c + of_nat k else of_nat k + 1)\<rparr>)]\<rparr>)))"

definition rm_refs :: "nat \<Rightarrow> rmsg \<Rightarrow> msg_heap \<Rightarrow> msg_heap option" where
  "rm_refs k m h =
     (if r_meta m \<noteq> None then None
      else if k = 0 then Some h
      else if content_of m = None \<or> \<not> is_shared m then map_option (\<lambda>(r, m', h'). h') (msg_close m h)
      else case block (mh_content h) (the (content_of m)) of None \<Rightarrow> None
      | Some c \<Rightarrow> sub_refs (of_nat k) (the (content_of m)) c h)"

text \<open>\<open>dist_t::distribute\<close> to pipes that take the message or not; what a pipe took is a bitwise copy. \<open>write_copies\<close> is its loop.\<close>

definition write_copies :: "rmsg \<Rightarrow> bool list \<Rightarrow> rmsg list" where
  "write_copies m oks = replicate (length (filter id oks)) m"

definition distribute :: "nat \<Rightarrow> bool list \<Rightarrow> msgs \<Rightarrow> msgs option" where
  "distribute i oks s =
     (let m = ms_vars s ! i
      in if oks = [] then Option.bind (var_close i s) (\<lambda>(r, s'). if r = None then Some (put_var i msg_init s') else None)
         else if is_vsm m
         then Some (put_var i msg_init (s\<lparr>ms_vars := ms_vars s @ write_copies m oks\<rparr>))
         else Option.bind (add_refs (length oks - 1) m (ms_heap s)) (\<lambda>(m', h1).
              Option.bind (if length (filter Not oks) = 0 then Some h1 else rm_refs (length (filter Not oks)) m' h1) (\<lambda>h2.
              Some (put_var i msg_init (s\<lparr>ms_vars := ms_vars s @ write_copies m' oks, ms_heap := h2\<rparr>)))))"

section \<open>Groups and metadata\<close>

text \<open>The tag of a long group is not reset by a short one; the characters are written over the pointer from its first byte on,
  which is the eighth of the short group on a 64 bit machine.\<close>

definition set_group :: "bytes \<Rightarrow> rmsg \<Rightarrow> msg_heap \<Rightarrow> errno option \<times> rmsg \<times> msg_heap" where
  "set_group g m h =
     (if 255 < length g then (Some EINVAL, m, h)
      else if 14 < length g then (None, m\<lparr>r_group := Long (length (mh_group h))\<rparr>, h\<lparr>mh_group := mh_group h @ [Some (g, 1)]\<rparr>)
      else (None, m\<lparr>r_group := (case r_group m of Short _ \<Rightarrow> Short g | Long a \<Rightarrow> if length g < 7 then Long a else Wild | Wild \<Rightarrow> Wild)\<rparr>, h))"

definition set_metadata :: "maddr \<Rightarrow> rmsg \<Rightarrow> msg_heap \<Rightarrow> (rmsg \<times> msg_heap) option" where
  "set_metadata a m h = (if r_meta m \<noteq> None then None
     else map_option (\<lambda>xs. (m\<lparr>r_meta := Some a\<rparr>, h\<lparr>mh_meta := xs\<rparr>)) (add_ref (mh_meta h) a))"

definition reset_metadata :: "rmsg \<Rightarrow> msg_heap \<Rightarrow> (rmsg \<times> msg_heap) option" where
  "reset_metadata m h = map_option (\<lambda>h'. (m\<lparr>r_meta := None\<rparr>, h')) (drop_meta m h)"

section \<open>The decoder's buffer\<close>

text \<open>\<open>shared_message_memory_allocator\<close>, whose state is the buffer it holds. A buffer no message lies in is used again.\<close>

definition alloc_deallocate :: "maddr option \<Rightarrow> msg_heap \<Rightarrow> (maddr option \<times> msg_heap) option" where
  "alloc_deallocate b h = (case b of None \<Rightarrow> Some (None, h)
     | Some a \<Rightarrow> map_option (\<lambda>xs. (None, h\<lparr>mh_buffer := xs\<rparr>)) (drop_ref (mh_buffer h) a))"

definition alloc_allocate :: "maddr option \<Rightarrow> msg_heap \<Rightarrow> (maddr option \<times> msg_heap) option" where
  "alloc_allocate b h =
     (let fresh = (\<lambda>h. Some (Some (length (mh_buffer h)), h\<lparr>mh_buffer := mh_buffer h @ [Some 1]\<rparr>))
      in case b of None \<Rightarrow> fresh h
      | Some a \<Rightarrow> (case block (mh_buffer h) a of None \<Rightarrow> None
         | Some n \<Rightarrow> if n - 1 \<noteq> 0 then fresh (h\<lparr>mh_buffer := (mh_buffer h)[a := Some (n - 1)]\<rparr>)
                     else Some (Some a, h\<lparr>mh_buffer := (mh_buffer h)[a := Some 1]\<rparr>)))"


section \<open>Everything that is done with messages\<close>

text \<open>\<open>Send_Msg\<close> is \<open>socket_base_t::send\<close> to a pipe that takes the message, without the flags it sets, \<open>Publish_Msg\<close> the same to the
  pipes of a distributor, \<open>Receive_Msg\<close> what \<open>fq_t::recvpipe\<close> does with the message it takes from a pipe. A message in a pipe is a
  variable too; writing and reading a pipe copies it bit by bit.\<close>

datatype msg_op = New_Msg | Init_Buffer nat bytes | Init_Data nat bytes free_fn | Init_In_Buffer nat bytes nat
  | Close_Msg nat | Move_Msg nat nat | Copy_Msg nat nat | Attach_Meta nat nat | Reset_Meta nat | Set_Group nat bytes
  | Send_Msg nat | Publish_Msg nat "bool list" | Receive_Msg nat nat
  | New_Engine | Drop_Engine nat | New_Decoder | Allocate nat | Deallocate nat

definition put_msg :: "nat \<Rightarrow> rmsg \<times> msg_heap \<Rightarrow> msgs \<Rightarrow> msgs" where
  "put_msg i mh s = put_var i (fst mh) (s\<lparr>ms_heap := snd mh\<rparr>)"

definition receive_msg :: "nat \<Rightarrow> nat \<Rightarrow> msgs \<Rightarrow> msgs option" where
  "receive_msg i k s = Option.bind (var_close i s) (\<lambda>(r, s1).
     if r \<noteq> None then None else Some (put_var k (init_body Closed) (put_var i (ms_vars s1 ! k) s1)))"

definition set_metadata_of :: "nat \<Rightarrow> maddr option \<Rightarrow> msgs \<Rightarrow> msgs option" where
  "set_metadata_of i a s = (case a of None \<Rightarrow> Some s
     | Some a \<Rightarrow> map_option (\<lambda>mh. put_msg i mh s) (set_metadata a (ms_vars s ! i) (ms_heap s)))"

definition reset_metadata_of :: "nat \<Rightarrow> msgs \<Rightarrow> msgs option" where
  "reset_metadata_of i s = map_option (\<lambda>mh. put_msg i mh s) (reset_metadata (ms_vars s ! i) (ms_heap s))"

definition send_msg :: "nat \<Rightarrow> msgs \<Rightarrow> msgs option" where
  "send_msg i s = map_option (\<lambda>s1. put_var i msg_init (s1\<lparr>ms_vars := ms_vars s1 @ [ms_vars s1 ! i]\<rparr>)) (reset_metadata_of i s)"

definition new_engine :: "msgs \<Rightarrow> msgs" where
  "new_engine s = s\<lparr>ms_engines := ms_engines s @ [Some (length (mh_meta (ms_heap s)))],
     ms_heap := (ms_heap s)\<lparr>mh_meta := mh_meta (ms_heap s) @ [Some 1]\<rparr>\<rparr>"

definition drop_engine :: "nat \<Rightarrow> msgs \<Rightarrow> msgs option" where
  "drop_engine k s = (case ms_engines s ! k of None \<Rightarrow> Some s
     | Some a \<Rightarrow> map_option (\<lambda>xs. s\<lparr>ms_engines := (ms_engines s)[k := None], ms_heap := (ms_heap s)\<lparr>mh_meta := xs\<rparr>\<rparr>)
         (drop_ref (mh_meta (ms_heap s)) a))"

definition put_buf :: "nat \<Rightarrow> maddr option \<times> msg_heap \<Rightarrow> msgs \<Rightarrow> msgs" where
  "put_buf k bh s = s\<lparr>ms_bufs := (ms_bufs s)[k := fst bh], ms_heap := snd bh\<rparr>"

definition msg_step :: "msg_op \<Rightarrow> msgs \<Rightarrow> (errno option \<times> msgs) option" where
  "msg_step x s = (let ok = map_option (Pair None) in case x of
       New_Msg \<Rightarrow> ok (Some (s\<lparr>ms_vars := ms_vars s @ [msg_init]\<rparr>))
     | Init_Buffer i bs \<Rightarrow> ok (Some (put_msg i (init_buffer bs (ms_heap s)) s))
     | Init_Data i bs f \<Rightarrow> ok (Some (put_msg i (init_data bs f (ms_heap s)) s))
     | Init_In_Buffer i bs k \<Rightarrow> ok (map_option (\<lambda>mh. put_msg i mh s) (init_in_buffer bs (the (ms_bufs s ! k)) (ms_heap s)))
     | Close_Msg i \<Rightarrow> var_close i s
     | Move_Msg i j \<Rightarrow> msg_move i j s
     | Copy_Msg i j \<Rightarrow> msg_copy i j s
     | Attach_Meta i k \<Rightarrow> ok (set_metadata_of i (ms_engines s ! k) s)
     | Reset_Meta i \<Rightarrow> ok (reset_metadata_of i s)
     | Set_Group i g \<Rightarrow> (let (r, m, h) = set_group g (ms_vars s ! i) (ms_heap s) in Some (r, put_msg i (m, h) s))
     | Send_Msg i \<Rightarrow> ok (send_msg i s)
     | Publish_Msg i oks \<Rightarrow> ok (Option.bind (reset_metadata_of i s) (distribute i oks))
     | Receive_Msg i k \<Rightarrow> ok (receive_msg i k s)
     | New_Engine \<Rightarrow> ok (Some (new_engine s))
     | Drop_Engine k \<Rightarrow> ok (drop_engine k s)
     | New_Decoder \<Rightarrow> ok (Some (s\<lparr>ms_bufs := ms_bufs s @ [None]\<rparr>))
     | Allocate k \<Rightarrow> ok (map_option (\<lambda>bh. put_buf k bh s) (alloc_allocate (ms_bufs s ! k) (ms_heap s)))
     | Deallocate k \<Rightarrow> ok (map_option (\<lambda>bh. put_buf k bh s) (alloc_deallocate (ms_bufs s ! k) (ms_heap s))))"

text \<open>What callers see to: a message is initialised in a place that holds nothing; metadata is given to a message without; a message
  is not copied onto itself;
  \<open>set_group\<close> is called on a message without a long group, and a published message has none; what is sent is valid.\<close>

definition vacant :: "rmsg \<Rightarrow> bool" where
  "vacant m \<longleftrightarrow> content_of m = None \<and> r_meta m = None \<and> (msg_check m \<longrightarrow> (case r_group m of Short g \<Rightarrow> True | _ \<Rightarrow> False))"

definition short_group :: "rmsg \<Rightarrow> bool" where
  "short_group m \<longleftrightarrow> msg_check m \<and> (case r_group m of Short g \<Rightarrow> True | _ \<Rightarrow> False)"

definition msg_fits :: "msg_op \<Rightarrow> msgs \<Rightarrow> bool" where
  "msg_fits x s =
     (let v = ms_vars s; var = (\<lambda>i. i < length v)
      in case x of
       New_Msg \<Rightarrow> True
     | Init_Buffer i bs \<Rightarrow> var i \<and> vacant (v ! i)
     | Init_Data i bs f \<Rightarrow> var i \<and> vacant (v ! i) \<and> (case f of Buf_Fn b \<Rightarrow> False | _ \<Rightarrow> True)
     | Init_In_Buffer i bs k \<Rightarrow> var i \<and> vacant (v ! i) \<and> k < length (ms_bufs s) \<and> ms_bufs s ! k \<noteq> None
     | Close_Msg i \<Rightarrow> var i
     | Move_Msg i j \<Rightarrow> var i \<and> var j
     | Copy_Msg i j \<Rightarrow> var i \<and> var j \<and> i \<noteq> j
     | Attach_Meta i k \<Rightarrow> var i \<and> msg_check (v ! i) \<and> r_meta (v ! i) = None \<and> k < length (ms_engines s)
     | Reset_Meta i \<Rightarrow> var i
     | Set_Group i g \<Rightarrow> var i \<and> short_group (v ! i)
     | Send_Msg i \<Rightarrow> var i \<and> msg_check (v ! i)
     | Publish_Msg i oks \<Rightarrow> var i \<and> short_group (v ! i)
     | Receive_Msg i k \<Rightarrow> var i \<and> var k \<and> i \<noteq> k \<and> msg_check (v ! i) \<and> msg_check (v ! k)
     | New_Engine \<Rightarrow> True
     | Drop_Engine k \<Rightarrow> k < length (ms_engines s)
     | New_Decoder \<Rightarrow> True
     | Allocate k \<Rightarrow> k < length (ms_bufs s)
     | Deallocate k \<Rightarrow> k < length (ms_bufs s))"

definition no_msgs :: msgs where
  "no_msgs = \<lparr>ms_vars = [], ms_heap = \<lparr>mh_content = [], mh_buffer = [], mh_meta = [], mh_group = [], mh_freed = []\<rparr>,
     ms_engines = [], ms_bufs = []\<rparr>"

fun msg_run :: "msg_op list \<Rightarrow> msgs \<Rightarrow> (errno option list \<times> msgs) option" where
  "msg_run [] s = Some ([], s)"
| "msg_run (x # xs) s = Option.bind (msg_step x s) (\<lambda>(r, s1). map_option (\<lambda>(rs, s2). (r # rs, s2)) (msg_run xs s1))"

fun fits_run :: "msg_op list \<Rightarrow> msgs \<Rightarrow> bool" where
  "fits_run [] s \<longleftrightarrow> True"
| "fits_run (x # xs) s \<longleftrightarrow> msg_fits x s \<and> (case msg_step x s of None \<Rightarrow> True | Some (r, s1) \<Rightarrow> fits_run xs s1)"

end
