(* ===== verification/ZmqMsgSafe.thy ===== *)
theory ZmqMsgSafe
  imports ZmqMsgRefs "HOL-Library.Multiset"
begin

text \<open>
  Reference counts are right (\<open>ZmqMsgRefs\<close>): with the messages as a multiset, every block is there exactly while something
  refers to it, and its counter says how many do. The lemmas say of each operation what it makes of the multiset.
\<close>

section \<open>Counted blocks\<close>

definition counted :: "nat \<Rightarrow> 32 word option \<Rightarrow> bool" where
  "counted n w \<longleftrightarrow> (case w of None \<Rightarrow> n = 0 | Some k \<Rightarrow> 0 < n \<and> unat k = n)"

lemma block_update: "block (xs[a := v]) b = (if b = a \<and> a < length xs then v else block xs b)"
  by (auto simp: block_def)

lemma block_append: "block (xs @ [v]) b = (if b = length xs then v else block xs b)"
  by (auto simp: block_def nth_append)

lemma block_Some: "block xs a = Some k \<Longrightarrow> a < length xs"
  by (auto simp: block_def split: if_splits)

lemma counted_simps [simp]: "counted n None \<longleftrightarrow> n = 0" "counted n (Some k) \<longleftrightarrow> 0 < n \<and> unat k = n"
  by (simp_all add: counted_def)

lemma counted_pos: "counted (Suc n) w \<Longrightarrow> \<exists>k. w = Some k \<and> unat k = Suc n"
  by (auto simp: counted_def split: option.splits)

lemma unat_pred: "unat (k :: 32 word) = Suc n \<Longrightarrow> unat (k - 1) = n \<and> (k - 1 = 0 \<longleftrightarrow> n = 0)"
proof -
  assume k: "unat k = Suc n"
  then have "k \<noteq> 0" by auto
  then have "unat (k - 1) = n" using k by (simp add: unat_minus_one)
  then show ?thesis by (metis unat_0 unat_eq_zero)
qed

lemma unat_succ: "unat (k :: 32 word) + 1 < 2 ^ 32 \<Longrightarrow> unat (k + 1) = unat k + 1"
  by (subst unat_add_lem [THEN iffD1]) simp_all

lemma drop_ref_counted:
  assumes "\<forall>b. counted (f b) (block xs b)" "f a = Suc n"
  shows "\<exists>xs'. drop_ref xs a = Some xs' \<and> length xs' = length xs \<and> (\<forall>b. counted ((f(a := n)) b) (block xs' b))"
proof -
  obtain k where k: "block xs a = Some k" "unat k = Suc n" using assms counted_pos by metis
  note p = unat_pred [OF k(2)]
  show ?thesis using assms(1) k(1) block_Some [OF k(1)] p by (simp add: drop_ref_def block_update)
qed

lemma add_ref_counted:
  assumes "\<forall>b. counted (f b) (block xs b)" "0 < f a" "f a + 1 < 2 ^ 32"
  shows "\<exists>xs'. add_ref xs a = Some xs' \<and> length xs' = length xs \<and> (\<forall>b. counted ((f(a := Suc (f a))) b) (block xs' b))"
proof -
  obtain k where k: "block xs a = Some k" "unat k = f a" using assms(1,2) counted_pos [of "f a - 1"] by fastforce
  have "unat (k + 1) = f a + 1" using unat_succ [of k] k(2) assms(3) by simp
  then show ?thesis using assms(1) k(1) block_Some [OF k(1)] by (simp add: add_ref_def block_update)
qed

section \<open>What refers to what\<close>

definition tally :: "('a \<Rightarrow> bool) \<Rightarrow> 'a multiset \<Rightarrow> nat" where
  "tally P M = size (filter_mset P M)"

lemma tally_simps [simp]:
  "tally P {#} = 0" "tally P (add_mset x M) = (if P x then Suc (tally P M) else tally P M)"
  "tally P (M + N) = tally P M + tally P N"
  by (simp_all add: tally_def)

lemma tally_le: "tally P M \<le> size M"
  by (simp add: tally_def size_filter_mset_lesseq)

lemma tally_replicate [simp]: "tally P (replicate_mset n x) = (if P x then n else 0)"
  by (induction n) auto

lemma tally_0: "tally P M = 0 \<longleftrightarrow> (\<forall>x \<in># M. \<not> P x)"
  by (induction M) auto

definition in_shared :: "maddr \<Rightarrow> rmsg \<Rightarrow> bool" where
  "in_shared a m \<longleftrightarrow> content_of m = Some a \<and> is_shared m"

definition in_alone :: "maddr \<Rightarrow> rmsg \<Rightarrow> bool" where
  "in_alone a m \<longleftrightarrow> content_of m = Some a \<and> \<not> is_shared m"

definition in_meta :: "maddr \<Rightarrow> rmsg \<Rightarrow> bool" where
  "in_meta a m \<longleftrightarrow> r_meta m = Some a"

definition in_group :: "maddr \<Rightarrow> rmsg \<Rightarrow> bool" where
  "in_group a m \<longleftrightarrow> msg_check m \<and> r_group m = Long a"

definition in_buffer :: "maddr \<Rightarrow> content_t option \<Rightarrow> bool" where
  "in_buffer b c \<longleftrightarrow> (\<exists>c'. c = Some c' \<and> ct_ffn c' = Buf_Fn b)"

text \<open>A content with one message that is not shared, or with shared ones that it counts.\<close>

definition content_ok :: "nat \<Rightarrow> nat \<Rightarrow> content_t option \<Rightarrow> bool" where
  "content_ok s u c \<longleftrightarrow> (case c of None \<Rightarrow> s = 0 \<and> u = 0
     | Some c' \<Rightarrow> s = 0 \<and> u = 1 \<or> u = 0 \<and> 0 < s \<and> unat (ct_refcnt c') = s)"

definition msg_ok :: "content_t option list \<Rightarrow> rmsg \<Rightarrow> bool" where
  "msg_ok cs m \<longleftrightarrow> (\<forall>a c. r_body m = Zclmsg a \<and> block cs a = Some c \<longrightarrow> ct_ffn c \<noteq> No_Fn) \<and> (msg_check m \<longrightarrow> r_group m \<noteq> Wild) \<and>
     (\<not> msg_check m \<longrightarrow> r_meta m = None)"

definition refs_ok :: "rmsg multiset \<Rightarrow> maddr multiset \<Rightarrow> maddr multiset \<Rightarrow> msg_heap \<Rightarrow> bool" where
  "refs_ok M E B h \<longleftrightarrow>
     (\<forall>a. content_ok (tally (in_shared a) M) (tally (in_alone a) M) (block (mh_content h) a)) \<and>
     (\<forall>b. counted (tally (in_buffer b) (mset (mh_content h)) + tally ((=) b) B) (block (mh_buffer h) b)) \<and>
     (\<forall>a. counted (tally (in_meta a) M + tally ((=) a) E) (block (mh_meta h) a)) \<and>
     (\<forall>a. counted (tally (in_group a) M) (map_option snd (block (mh_group h) a))) \<and>
     (\<forall>m \<in># M. msg_ok (mh_content h) m)"

lemma refs_okD:
  assumes "refs_ok M E B h"
  shows "content_ok (tally (in_shared a) M) (tally (in_alone a) M) (block (mh_content h) a)"
    "\<forall>b. counted (tally (in_buffer b) (mset (mh_content h)) + tally ((=) b) B) (block (mh_buffer h) b)"
    "\<forall>a. counted (tally (in_meta a) M + tally ((=) a) E) (block (mh_meta h) a)"
    "\<forall>a. counted (tally (in_group a) M) (map_option snd (block (mh_group h) a))"
    "m \<in># M \<Longrightarrow> msg_ok (mh_content h) m"
  using assms by (auto simp: refs_ok_def)

text \<open>The bytes of the contents that are still there.\<close>

definition keeps_in :: "('a \<Rightarrow> 'b) \<Rightarrow> 'a option list \<Rightarrow> 'a option list \<Rightarrow> bool" where
  "keeps_in f xs ys \<longleftrightarrow> length xs \<le> length ys \<and>
     (\<forall>a c. a < length xs \<longrightarrow> block ys a = Some c \<longrightarrow> map_option f (block xs a) = Some (f c))"

definition keeps :: "msg_heap \<Rightarrow> msg_heap \<Rightarrow> bool" where
  "keeps h h' \<longleftrightarrow> keeps_in ct_data (mh_content h) (mh_content h') \<and> keeps_in fst (mh_group h) (mh_group h')"

lemma keeps_in_refl [simp]: "keeps_in f xs xs"
  by (simp add: keeps_in_def)

lemma keeps_in_trans:
  assumes "keeps_in f xs ys" "keeps_in f ys zs"
  shows "keeps_in f xs zs"
  unfolding keeps_in_def
proof (intro conjI allI impI)
  show "length xs \<le> length zs" using assms by (simp add: keeps_in_def)
  fix a c assume a: "a < length xs" "block zs a = Some c"
  then have "a < length ys" using assms(1) by (simp add: keeps_in_def)
  then have "map_option f (block ys a) = Some (f c)" using assms(2) a(2) by (simp add: keeps_in_def)
  then obtain c1 where c1: "block ys a = Some c1" "f c1 = f c" by auto
  have "map_option f (block xs a) = Some (f c1)" using assms(1) a(1) c1(1) unfolding keeps_in_def by blast
  then show "map_option f (block xs a) = Some (f c)" by (simp only: c1(2))
qed

lemma keeps_inD: "keeps_in f xs ys \<Longrightarrow> block xs a = Some c \<Longrightarrow> block ys a = Some c' \<Longrightarrow> f c' = f c"
  using block_Some [of xs a c] unfolding keeps_in_def by fastforce

lemma keeps_in_append [simp]: "keeps_in f xs (xs @ [c])"
  by (simp add: keeps_in_def block_append)

lemma keeps_in_update: "block xs a = Some c \<Longrightarrow> v = None \<or> (\<exists>c'. v = Some c' \<and> f c' = f c) \<Longrightarrow> keeps_in f xs (xs[a := v])"
  by (auto simp: keeps_in_def block_update)

lemma keeps_refl [simp]: "keeps h h"
  by (simp add: keeps_def)

lemma keeps_trans:
  assumes "keeps h h1" "keeps h1 h2"
  shows "keeps h h2"
  using keeps_in_trans [of ct_data "mh_content h" "mh_content h1" "mh_content h2"]
    keeps_in_trans [of fst "mh_group h" "mh_group h1" "mh_group h2"] assms
  by (simp only: keeps_def)


section \<open>Giving references back\<close>

lemma tally_mset_update:
  assumes "a < length xs"
  shows "tally P (mset (xs[a := v])) + (if P (xs ! a) then 1 else 0) = tally P (mset xs) + (if P v then 1 else 0)"
proof -
  have "add_mset (xs ! a) (mset (xs[a := v])) = add_mset v (mset xs)"
    using assms by (simp add: mset_update)
  then have "tally P (add_mset (xs ! a) (mset (xs[a := v]))) = tally P (add_mset v (mset xs))" by simp
  then show ?thesis by (auto split: if_splits)
qed

text \<open>A block that leaves the list of contents releases its buffer.\<close>

lemma free_content_ok:
  assumes B: "\<forall>b. counted (tally (in_buffer b) (mset (mh_content h)) + tally ((=) b) B) (block (mh_buffer h) b)"
    and c: "block (mh_content h) a = Some c"
  shows "\<exists>h'. free_content a c h = Some h' \<and> mh_content h' = (mh_content h)[a := None] \<and> mh_meta h' = mh_meta h \<and> mh_group h' = mh_group h \<and>
    (\<forall>b. counted (tally (in_buffer b) (mset (mh_content h')) + tally ((=) b) B) (block (mh_buffer h') b))"
proof -
  have a: "a < length (mh_content h)" "mh_content h ! a = Some c" using c by (auto simp: block_def split: if_splits)
  have t: "tally (in_buffer b) (mset ((mh_content h)[a := None])) + (if ct_ffn c = Buf_Fn b then 1 else 0) = tally (in_buffer b) (mset (mh_content h))" for b
    using tally_mset_update [OF a(1), of "in_buffer b" None] a(2) by (simp add: in_buffer_def)
  show ?thesis
  proof (cases "ct_ffn c")
    case (Buf_Fn b)
    let ?f = "\<lambda>b. tally (in_buffer b) (mset (mh_content h)) + tally ((=) b) B"
    have "?f b = Suc (tally (in_buffer b) (mset ((mh_content h)[a := None])) + tally ((=) b) B)" using t [of b] Buf_Fn by simp
    from drop_ref_counted [OF B this] obtain xs' where x: "drop_ref (mh_buffer h) b = Some xs'"
      "\<forall>b'. counted ((?f(b := tally (in_buffer b) (mset ((mh_content h)[a := None])) + tally ((=) b) B)) b') (block xs' b')" by blast
    have "counted (tally (in_buffer b') (mset ((mh_content h)[a := None])) + tally ((=) b') B) (block xs' b')" for b'
      using x(2) [rule_format, of b'] t [of b'] Buf_Fn by (cases "b' = b") auto
    then show ?thesis using Buf_Fn x(1) by (simp add: free_content_def call_ffn_def call_dec_ref_def)
  qed (use B t in \<open>auto simp: free_content_def call_ffn_def\<close>)
qed

lemma unat_sub_32: "k < unat (n :: 32 word) \<Longrightarrow> unat (n - of_nat k) = unat n - k"
  "unat (n :: 32 word) = k \<Longrightarrow> n - of_nat k = 0"
proof -
  assume k: "k < unat n"
  moreover have "unat n < 2 ^ LENGTH(32)" by (rule unsigned_less)
  ultimately have "k < 2 ^ 32" by simp
  then have "unat (of_nat k :: 32 word) = k" by (simp add: unat_of_nat)
  moreover from this have "of_nat k \<le> n" using k by (simp add: word_le_nat_alt)
  ultimately show "unat (n - of_nat k) = unat n - k" by (simp add: unat_sub)
next
  assume "unat n = k"
  then show "n - of_nat k = 0" by auto
qed

text \<open>\<open>k\<close> of the shared references of a content are given back.\<close>

lemma sub_refs_ok:
  assumes B: "\<forall>b. counted (tally (in_buffer b) (mset (mh_content h)) + tally ((=) b) B) (block (mh_buffer h) b)"
    and c: "block (mh_content h) a = Some c" and k: "k \<le> n" "unat (ct_refcnt c) = n" "0 < k"
  shows "\<exists>h' v. sub_refs (of_nat k) a c h = Some h' \<and> mh_content h' = (mh_content h)[a := v] \<and> mh_meta h' = mh_meta h \<and> mh_group h' = mh_group h \<and>
    (if k = n then v = None else \<exists>c'. v = Some c' \<and> unat (ct_refcnt c') = n - k \<and> ct_data c' = ct_data c \<and> ct_ffn c' = ct_ffn c) \<and>
    (\<forall>b. counted (tally (in_buffer b) (mset (mh_content h')) + tally ((=) b) B) (block (mh_buffer h') b))"
proof (cases "k = n")
  case True
  then show ?thesis using free_content_ok [OF B c] unat_sub_32(2) [OF k(2)] by (auto simp: sub_refs_def)
next
  case False
  have a: "a < length (mh_content h)" "mh_content h ! a = Some c" using c by (auto simp: block_def split: if_splits)
  let ?c = "c\<lparr>ct_refcnt := ct_refcnt c - of_nat k\<rparr>"
  have u: "unat (ct_refcnt c - of_nat k) = n - k" using unat_sub_32(1) [of k "ct_refcnt c"] k False by simp
  then have z: "ct_refcnt c - of_nat k \<noteq> 0" using k(1) False by fastforce
  have "tally (in_buffer b) (mset ((mh_content h)[a := Some ?c])) = tally (in_buffer b) (mset (mh_content h))" for b
    using tally_mset_update [OF a(1), of "in_buffer b" "Some ?c"] a(2) by (simp add: in_buffer_def split: if_splits)
  then show ?thesis using B False u z by (simp add: sub_refs_def) (rule exI [of _ "Some ?c"], simp)
qed
definition contents_ok :: "rmsg multiset \<Rightarrow> content_t option list \<Rightarrow> bool" where
  "contents_ok M cs \<longleftrightarrow> (\<forall>a. content_ok (tally (in_shared a) M) (tally (in_alone a) M) (block cs a))"

definition buffers_ok :: "maddr multiset \<Rightarrow> msg_heap \<Rightarrow> bool" where
  "buffers_ok B h \<longleftrightarrow> (\<forall>b. counted (tally (in_buffer b) (mset (mh_content h)) + tally ((=) b) B) (block (mh_buffer h) b))"

definition metas_ok :: "rmsg multiset \<Rightarrow> maddr multiset \<Rightarrow> 32 word option list \<Rightarrow> bool" where
  "metas_ok M E xs \<longleftrightarrow> (\<forall>a. counted (tally (in_meta a) M + tally ((=) a) E) (block xs a))"

definition groups_ok :: "rmsg multiset \<Rightarrow> (bytes \<times> 32 word) option list \<Rightarrow> bool" where
  "groups_ok M xs \<longleftrightarrow> (\<forall>a. counted (tally (in_group a) M) (map_option snd (block xs a)))"

lemma refs_ok_parts: "refs_ok M E B h \<longleftrightarrow> contents_ok M (mh_content h) \<and> buffers_ok B h \<and> metas_ok M E (mh_meta h) \<and>
    groups_ok M (mh_group h) \<and> (\<forall>m \<in># M. msg_ok (mh_content h) m)"
  by (simp add: refs_ok_def contents_ok_def buffers_ok_def metas_ok_def groups_ok_def)

text \<open>A content a message refers to is there; either it is the only one and not shared, or it is counted.\<close>

lemma content_there:
  assumes "contents_ok (add_mset m M) cs" "content_of m = Some a"
  shows "\<exists>c. block cs a = Some c \<and> (if is_shared m then tally (in_alone a) M = 0 \<and> unat (ct_refcnt c) = Suc (tally (in_shared a) M)
    else tally (in_shared a) M = 0 \<and> tally (in_alone a) M = 0)"
proof -
  have "content_ok (tally (in_shared a) (add_mset m M)) (tally (in_alone a) (add_mset m M)) (block cs a)"
    using assms(1) unfolding contents_ok_def by blast
  then show ?thesis using assms(2) by (auto simp: content_ok_def in_shared_def in_alone_def split: option.splits if_splits)
qed

lemma contents_okI:
  assumes "contents_ok M' cs" "\<And>b. b \<noteq> a \<Longrightarrow> tally (in_shared b) M = tally (in_shared b) M' \<and> tally (in_alone b) M = tally (in_alone b) M'"
    and "content_ok (tally (in_shared a) M) (tally (in_alone a) M) v" "a < length cs"
  shows "contents_ok M (cs[a := v])"
  using assms by (auto simp: contents_ok_def block_update)

lemma content_other: "content_of m = Some a \<Longrightarrow> b \<noteq> a \<Longrightarrow> \<not> in_shared b m \<and> \<not> in_alone b m"
  by (simp add: in_shared_def in_alone_def)

lemma msg_ok_update:
  assumes "msg_ok cs m" "block cs a = Some c" "v = None \<or> (\<exists>c'. v = Some c' \<and> ct_ffn c' = ct_ffn c)"
  shows "msg_ok (cs[a := v]) m"
  using assms by (auto simp: msg_ok_def block_update split: if_splits)

lemma drop_content_ok:
  assumes C: "contents_ok (add_mset m M) (mh_content h)" and B: "buffers_ok B h" and m: "\<forall>x \<in># add_mset m M. msg_ok (mh_content h) x"
  shows "\<exists>h'. drop_content m h = Some h' \<and> contents_ok M (mh_content h') \<and> buffers_ok B h' \<and> (\<forall>x \<in># M. msg_ok (mh_content h') x) \<and>
    mh_meta h' = mh_meta h \<and> mh_group h' = mh_group h \<and> keeps h h'"
proof (cases "content_of m")
  case None
  then have "\<not> in_shared a m \<and> \<not> in_alone a m" for a by (simp add: in_shared_def in_alone_def)
  then have "contents_ok M (mh_content h)" using C by (simp add: contents_ok_def)
  then show ?thesis using None B m by (simp add: drop_content_def)
next
  case (Some a)
  from content_there [OF C Some] obtain c where c: "block (mh_content h) a = Some c"
    and s: "if is_shared m then tally (in_alone a) M = 0 \<and> unat (ct_refcnt c) = Suc (tally (in_shared a) M)
       else tally (in_shared a) M = 0 \<and> tally (in_alone a) M = 0" by blast
  have z: "\<not> (r_body m = Zclmsg a \<and> ct_ffn c = No_Fn)" using m c by (auto simp: msg_ok_def)
  note B' = B [unfolded buffers_ok_def]
  have other: "b \<noteq> a \<Longrightarrow> tally (in_shared b) M = tally (in_shared b) (add_mset m M) \<and> tally (in_alone b) M = tally (in_alone b) (add_mset m M)" for b
    using content_other [OF Some] by simp
  have fin: "contents_ok M ((mh_content h)[a := v]) \<and> (\<forall>x \<in># M. msg_ok ((mh_content h)[a := v]) x) \<and>
      keeps_in ct_data (mh_content h) ((mh_content h)[a := v])"
    if "content_ok (tally (in_shared a) M) (tally (in_alone a) M) v" "v = None \<or> (\<exists>c'. v = Some c' \<and> ct_ffn c' = ct_ffn c \<and> ct_data c' = ct_data c)" for v
    using contents_okI [OF C other that(1) block_Some [OF c]] msg_ok_update [OF _ c, of _ v] m that(2) keeps_in_update [OF c, of v ct_data] by auto
  show ?thesis
  proof (cases "is_shared m")
    case True
    let ?n = "Suc (tally (in_shared a) M)"
    from sub_refs_ok [OF B' c, of 1 ?n] s True obtain h' v where h: "sub_refs 1 a c h = Some h'" "mh_content h' = (mh_content h)[a := v]"
      "mh_meta h' = mh_meta h" "mh_group h' = mh_group h" "buffers_ok B h'"
      and v: "if 1 = ?n then v = None else \<exists>c'. v = Some c' \<and> unat (ct_refcnt c') = ?n - 1 \<and> ct_data c' = ct_data c \<and> ct_ffn c' = ct_ffn c"
      unfolding buffers_ok_def by auto
    have "content_ok (tally (in_shared a) M) (tally (in_alone a) M) v" using v s True by (auto simp: content_ok_def split: if_splits)
    moreover have "v = None \<or> (\<exists>c'. v = Some c' \<and> ct_ffn c' = ct_ffn c \<and> ct_data c' = ct_data c)" using v by (auto split: if_splits)
    ultimately show ?thesis using fin [of v] h Some c z True by (simp add: drop_content_def keeps_def)
  next
    case False
    from free_content_ok [OF B' c] obtain h' where h: "free_content a c h = Some h'" "mh_content h' = (mh_content h)[a := None]"
      "mh_meta h' = mh_meta h" "mh_group h' = mh_group h" "buffers_ok B h'" unfolding buffers_ok_def by auto
    have "content_ok (tally (in_shared a) M) (tally (in_alone a) M) None" using s False by (simp add: content_ok_def)
    then show ?thesis using fin [of None] h Some c z False by (simp add: drop_content_def keeps_def)
  qed
qed

lemma drop_meta_ok:
  assumes "metas_ok (add_mset m M) E (mh_meta h)"
  shows "\<exists>xs. drop_meta m h = Some (h\<lparr>mh_meta := xs\<rparr>) \<and> metas_ok M E xs"
proof (cases "r_meta m")
  case None
  then show ?thesis using assms by (auto simp: drop_meta_def metas_ok_def in_meta_def intro!: exI [of _ "mh_meta h"])
next
  case (Some a)
  let ?f = "\<lambda>a. tally (in_meta a) (add_mset m M) + tally ((=) a) E"
  have "?f a = Suc (tally (in_meta a) M + tally ((=) a) E)" using Some by (simp add: in_meta_def)
  from drop_ref_counted [OF assms [unfolded metas_ok_def] this] obtain xs where x: "drop_ref (mh_meta h) a = Some xs"
    "\<forall>b. counted ((?f(a := tally (in_meta a) M + tally ((=) a) E)) b) (block xs b)" by blast
  have "counted (tally (in_meta b) M + tally ((=) b) E) (block xs b)" for b
    using x(2) [rule_format, of b] Some by (cases "b = a") (auto simp: in_meta_def)
  then show ?thesis using Some x(1) by (auto simp: drop_meta_def metas_ok_def)
qed

lemma drop_group_ok:
  assumes G: "groups_ok (add_mset m M) (mh_group h)" and m: "msg_check m" "r_group m \<noteq> Wild"
  shows "\<exists>xs. drop_group m h = Some (h\<lparr>mh_group := xs\<rparr>) \<and> groups_ok M xs \<and> keeps_in fst (mh_group h) xs"
proof (cases "r_group m")
  case (Short g)
  then show ?thesis using G by (auto simp: drop_group_def groups_ok_def in_group_def intro!: exI [of _ "mh_group h"])
next
  case (Long a)
  have "counted (Suc (tally (in_group a) M)) (map_option snd (block (mh_group h) a))"
    using G [unfolded groups_ok_def, rule_format, of a] Long m(1) by (simp add: in_group_def)
  from counted_pos [OF this] obtain g n where g: "block (mh_group h) a = Some (g, n)" "unat n = Suc (tally (in_group a) M)" by auto
  note p = unat_pred [OF g(2)]
  let ?v = "if n - 1 = 0 then None else Some (g, n - 1)"
  have "counted (tally (in_group b) M) (map_option snd (block ((mh_group h)[a := ?v]) b))" for b
    using G [unfolded groups_ok_def, rule_format, of b] Long m(1) p block_Some [OF g(1)] by (auto simp: block_update in_group_def)
  moreover have "keeps_in fst (mh_group h) ((mh_group h)[a := ?v])" by (rule keeps_in_update [OF g(1)]) auto
  ultimately show ?thesis using Long g(1) by (auto simp: drop_group_def groups_ok_def)
qed (use m in simp)

lemma close_ok:
  assumes r: "refs_ok (add_mset m M) E B h" and m: "msg_check m"
  shows "\<exists>h'. msg_close m h = Some (None, m\<lparr>r_body := Closed, r_meta := None\<rparr>, h') \<and> refs_ok M E B h' \<and> keeps h h'"
proof -
  note p = r [unfolded refs_ok_parts]
  have w: "r_group m \<noteq> Wild" using p m by (simp add: msg_ok_def)
  from p drop_content_ok [of m M h B] obtain h1 where h1: "drop_content m h = Some h1" "contents_ok M (mh_content h1)" "buffers_ok B h1"
    "\<forall>x \<in># M. msg_ok (mh_content h1) x" "mh_meta h1 = mh_meta h" "mh_group h1 = mh_group h" "keeps h h1" by blast
  from p h1(5) drop_meta_ok [of m M E h1] obtain xs where x: "drop_meta m h1 = Some (h1\<lparr>mh_meta := xs\<rparr>)" "metas_ok M E xs" by auto
  from p h1(6) drop_group_ok [of m M "h1\<lparr>mh_meta := xs\<rparr>"] m w obtain ys where y:
    "drop_group m (h1\<lparr>mh_meta := xs\<rparr>) = Some (h1\<lparr>mh_meta := xs, mh_group := ys\<rparr>)" "groups_ok M ys" "keeps_in fst (mh_group h1) ys" by auto
  have "refs_ok M E B (h1\<lparr>mh_meta := xs, mh_group := ys\<rparr>)" using h1 x y by (simp add: refs_ok_parts buffers_ok_def)
  moreover have "keeps h (h1\<lparr>mh_meta := xs, mh_group := ys\<rparr>)" using h1(6,7) y(3) by (simp add: keeps_def)
  ultimately show ?thesis using m h1(1) x(1) y(1) by (simp add: msg_close_def)
qed
section \<open>More references\<close>

lemma set_shared_simps [simp]:
  "is_shared (set_shared m)" "content_of (set_shared m) = content_of m" "r_meta (set_shared m) = r_meta m" "r_group (set_shared m) = r_group m"
  "r_body (set_shared m) = r_body m" "msg_check (set_shared m) = msg_check m" "msg_ok cs (set_shared m) = msg_ok cs m"
  by (simp_all add: set_shared_def is_shared_def shared_flag_def word_ao_absorbs content_of_def msg_check_def msg_ok_def)

lemma in_simps [simp]:
  "in_shared a (set_shared m) \<longleftrightarrow> content_of m = Some a" "\<not> in_alone a (set_shared m)" "in_meta a (set_shared m) = in_meta a m"
  "in_group a (set_shared m) = in_group a m"
  by (simp_all add: in_shared_def in_alone_def in_meta_def in_group_def)

lemma buffers_same:
  assumes "buffers_ok B h" "block (mh_content h) a = Some c" "ct_ffn c' = ct_ffn c"
  shows "buffers_ok B (h\<lparr>mh_content := (mh_content h)[a := Some c']\<rparr>)"
proof -
  have a: "a < length (mh_content h)" "mh_content h ! a = Some c" using assms(2) by (auto simp: block_def split: if_splits)
  have "tally (in_buffer b) (mset ((mh_content h)[a := Some c'])) = tally (in_buffer b) (mset (mh_content h))" for b
    using tally_mset_update [OF a(1), of "in_buffer b" "Some c'"] a(2) assms(3) by (simp add: in_buffer_def split: if_splits)
  then show ?thesis using assms(1) by (simp add: buffers_ok_def)
qed

text \<open>\<open>k\<close> more copies of a message that has a content.\<close>

definition more_refs :: "nat \<Rightarrow> rmsg \<Rightarrow> maddr \<Rightarrow> content_t \<Rightarrow> msg_heap \<Rightarrow> msg_heap" where
  "more_refs k m a c h = h\<lparr>mh_content := (mh_content h)
     [a := Some (c\<lparr>ct_refcnt := (if is_shared m then ct_refcnt c + of_nat k else of_nat k + 1)\<rparr>)]\<rparr>"

lemma unat_add_k: "unat (n :: 32 word) + k < 2 ^ 32 \<Longrightarrow> unat (n + of_nat k) = unat n + k"
proof -
  assume k: "unat n + k < 2 ^ 32"
  then have "unat (of_nat k :: 32 word) = k" by (simp add: unat_of_nat)
  then show ?thesis using k by (subst unat_add_lem [THEN iffD1]) simp_all
qed

lemma more_refs_ok:
  assumes C: "contents_ok (add_mset m M) (mh_content h)" and B: "buffers_ok B h" and m: "\<forall>x \<in># add_mset m M. msg_ok (mh_content h) x"
    and a: "content_of m = Some a" "block (mh_content h) a = Some c" and n: "size M + k + 1 < 2 ^ 32"
  shows "contents_ok (add_mset (set_shared m) (replicate_mset k (set_shared m) + M)) (mh_content (more_refs k m a c h))"
    "buffers_ok B (more_refs k m a c h)" "\<forall>x \<in># add_mset m M. msg_ok (mh_content (more_refs k m a c h)) x" "keeps h (more_refs k m a c h)"
proof -
  let ?r = "if is_shared m then ct_refcnt c + of_nat k else of_nat k + 1"
  let ?c = "c\<lparr>ct_refcnt := ?r\<rparr>" and ?M = "add_mset (set_shared m) (replicate_mset k (set_shared m) + M)"
  have s: "if is_shared m then tally (in_alone a) M = 0 \<and> unat (ct_refcnt c) = Suc (tally (in_shared a) M)
       else tally (in_shared a) M = 0 \<and> tally (in_alone a) M = 0"
    using content_there [OF C a(1)] a(2) by auto
  have le: "tally (in_shared a) M \<le> size M" by (rule tally_le)
  have "unat ?r = Suc k + tally (in_shared a) M \<and> tally (in_alone a) M = 0"
    using s le n unat_add_k [of "ct_refcnt c" k] unat_add_k [of 1 k] by (auto simp: add.commute)
  then have v: "content_ok (tally (in_shared a) ?M) (tally (in_alone a) ?M) (Some ?c)" using a(1) by (simp add: content_ok_def)
  have "b \<noteq> a \<Longrightarrow> tally (in_shared b) ?M = tally (in_shared b) (add_mset m M) \<and> tally (in_alone b) ?M = tally (in_alone b) (add_mset m M)" for b
    using content_other [OF a(1), of b] a(1) by simp
  from contents_okI [OF C this v block_Some [OF a(2)]]
  show "contents_ok ?M (mh_content (more_refs k m a c h))" by (simp add: more_refs_def)
  show "buffers_ok B (more_refs k m a c h)" unfolding more_refs_def by (rule buffers_same [OF B a(2)]) simp
  show "\<forall>x \<in># add_mset m M. msg_ok (mh_content (more_refs k m a c h)) x"
    using m msg_ok_update [OF _ a(2), of _ "Some ?c"] by (auto simp: more_refs_def)
  show "keeps h (more_refs k m a c h)" using keeps_in_update [OF a(2), of "Some ?c" ct_data] by (simp add: more_refs_def keeps_def)
qed

lemma share_meta_ok:
  assumes M: "metas_ok (add_mset m R) E (mh_meta h)" and n: "size R + size E + 2 < 2 ^ 32"
  shows "\<exists>xs. share_meta m h = Some (h\<lparr>mh_meta := xs\<rparr>) \<and> metas_ok (add_mset m (add_mset m R)) E xs"
proof (cases "r_meta m")
  case None
  then show ?thesis using M by (auto simp: share_meta_def metas_ok_def in_meta_def intro!: exI [of _ "mh_meta h"])
next
  case (Some a)
  let ?f = "\<lambda>a. tally (in_meta a) (add_mset m R) + tally ((=) a) E"
  have f: "0 < ?f a" "?f a + 1 < 2 ^ 32"
    using Some n tally_le [of "in_meta a" R] tally_le [of "(=) a" E] by (simp_all add: in_meta_def)
  from add_ref_counted [OF M [unfolded metas_ok_def] f] obtain xs where x: "add_ref (mh_meta h) a = Some xs"
    "\<forall>b. counted ((?f(a := Suc (?f a))) b) (block xs b)" by blast
  have "counted (tally (in_meta b) (add_mset m (add_mset m R)) + tally ((=) b) E) (block xs b)" for b
    using x(2) [rule_format, of b] Some by (cases "b = a") (auto simp: in_meta_def)
  then have "metas_ok (add_mset m (add_mset m R)) E xs" unfolding metas_ok_def by blast
  then show ?thesis using Some x(1) by (intro exI [of _ xs]) (simp add: share_meta_def)
qed

lemma share_group_ok:
  assumes G: "groups_ok (add_mset m R) (mh_group h)" and n: "size R + 2 < 2 ^ 32" and m: "msg_check m" "r_group m \<noteq> Wild"
  shows "\<exists>xs. share_group m h = Some (h\<lparr>mh_group := xs\<rparr>) \<and> groups_ok (add_mset m (add_mset m R)) xs \<and> keeps_in fst (mh_group h) xs"
proof (cases "r_group m")
  case (Short g)
  then show ?thesis using G by (auto simp: share_group_def groups_ok_def in_group_def intro!: exI [of _ "mh_group h"])
next
  case (Long a)
  have "counted (Suc (tally (in_group a) R)) (map_option snd (block (mh_group h) a))"
    using G [unfolded groups_ok_def, rule_format, of a] Long m(1) by (simp add: in_group_def)
  from counted_pos [OF this] obtain g k where g: "block (mh_group h) a = Some (g, k)" "unat k = Suc (tally (in_group a) R)" by auto
  have u: "unat (k + 1) = Suc (Suc (tally (in_group a) R))" using unat_succ [of k] g(2) n tally_le [of "in_group a" R] by simp
  let ?v = "Some (g, k + 1)"
  have "counted (tally (in_group b) (add_mset m (add_mset m R))) (map_option snd (block ((mh_group h)[a := ?v]) b))" for b
    using G [unfolded groups_ok_def, rule_format, of b] Long m(1) u block_Some [OF g(1)] by (auto simp: block_update in_group_def)
  then have "groups_ok (add_mset m (add_mset m R)) ((mh_group h)[a := ?v])" unfolding groups_ok_def by blast
  moreover have "keeps_in fst (mh_group h) ((mh_group h)[a := ?v])" by (rule keeps_in_update [OF g(1)]) auto
  ultimately show ?thesis using Long g(1) by (intro exI [of _ "(mh_group h)[a := ?v]"]) (simp add: share_group_def)
qed (use m in simp)

lemma set_shared_ok:
  "metas_ok (add_mset (set_shared m) M) E xs = metas_ok (add_mset m M) E xs"
  "groups_ok (add_mset (set_shared m) M) ys = groups_ok (add_mset m M) ys"
  by (simp_all add: metas_ok_def groups_ok_def)

text \<open>Copying: the source as it is, or marked as shared.\<close>

lemma share_ok:
  assumes r: "refs_ok (add_mset m R) E B h" and m: "msg_check m" and n: "size R + size E + 2 < 2 ^ 32"
  shows "\<exists>m' h1 h2 h3. share_content m h = Some (m', h1) \<and> share_meta m' h1 = Some h2 \<and> share_group m' h2 = Some h3 \<and>
    (m' = m \<or> m' = set_shared m) \<and> refs_ok (add_mset m' (add_mset m' R)) E B h3 \<and> keeps h h3"
proof -
  note p = r [unfolded refs_ok_parts]
  have w: "r_group m \<noteq> Wild" using p m by (simp add: msg_ok_def)
  have "\<exists>m' h1. share_content m h = Some (m', h1) \<and> (m' = m \<or> m' = set_shared m) \<and> contents_ok (add_mset m' (add_mset m' R)) (mh_content h1) \<and>
    buffers_ok B h1 \<and> (\<forall>x \<in># add_mset m R. msg_ok (mh_content h1) x) \<and> mh_meta h1 = mh_meta h \<and> mh_group h1 = mh_group h \<and> keeps h h1"
  proof (cases "content_of m")
    case None
    then have "\<not> in_shared a m \<and> \<not> in_alone a m" for a by (simp add: in_shared_def in_alone_def)
    then show ?thesis using None p by (intro exI [of _ m] exI [of _ h]) (auto simp: share_content_def contents_ok_def)
  next
    case (Some a)
    from content_there [OF _ Some] p obtain c where c: "block (mh_content h) a = Some c" by blast
    have e: "share_content m h = Some (set_shared m, more_refs 1 m a c h)" using Some c by (simp add: share_content_def more_refs_def)
    from more_refs_ok [of m R h B a c 1] p Some c n
    have "contents_ok (add_mset (set_shared m) (replicate_mset 1 (set_shared m) + R)) (mh_content (more_refs 1 m a c h))"
      "buffers_ok B (more_refs 1 m a c h)" "\<forall>x \<in># add_mset m R. msg_ok (mh_content (more_refs 1 m a c h)) x" "keeps h (more_refs 1 m a c h)"
      by simp_all
    then show ?thesis using e by (intro exI [of _ "set_shared m"] exI [of _ "more_refs 1 m a c h"]) (simp add: more_refs_def)
  qed
  then obtain m' h1 where h1: "share_content m h = Some (m', h1)" "m' = m \<or> m' = set_shared m" "contents_ok (add_mset m' (add_mset m' R)) (mh_content h1)"
    "buffers_ok B h1" "\<forall>x \<in># add_mset m R. msg_ok (mh_content h1) x" "mh_meta h1 = mh_meta h" "mh_group h1 = mh_group h" "keeps h h1" by blast
  have m': "msg_check m'" "r_group m' \<noteq> Wild" "metas_ok (add_mset m' R) E (mh_meta h1)" "groups_ok (add_mset m' R) (mh_group h1)"
    using h1(2,6,7) m w p set_shared_ok [of m R] by auto
  from share_meta_ok [OF m'(3) n] obtain xs where x: "share_meta m' h1 = Some (h1\<lparr>mh_meta := xs\<rparr>)" "metas_ok (add_mset m' (add_mset m' R)) E xs" by blast
  from share_group_ok [of m' R "h1\<lparr>mh_meta := xs\<rparr>"] m' n obtain ys where y: "share_group m' (h1\<lparr>mh_meta := xs\<rparr>) = Some (h1\<lparr>mh_meta := xs, mh_group := ys\<rparr>)"
    "groups_ok (add_mset m' (add_mset m' R)) ys" "keeps_in fst (mh_group h1) ys" by auto
  have "refs_ok (add_mset m' (add_mset m' R)) E B (h1\<lparr>mh_meta := xs, mh_group := ys\<rparr>)"
    using h1 x y by (auto simp: refs_ok_parts buffers_ok_def)
  moreover have "keeps h (h1\<lparr>mh_meta := xs, mh_group := ys\<rparr>)" using h1(7,8) y(3) by (simp add: keeps_def)
  ultimately show ?thesis using h1(1,2) x(1) y(1) by blast
qed
section \<open>Messages that refer to nothing\<close>

definition owns_nothing :: "rmsg \<Rightarrow> bool" where
  "owns_nothing m \<longleftrightarrow> content_of m = None \<and> r_meta m = None \<and> (\<forall>a. msg_check m \<longrightarrow> r_group m \<noteq> Long a \<and> r_group m \<noteq> Wild)"

lemma idle_refs: "owns_nothing m \<Longrightarrow> refs_ok (add_mset m M) E B h \<longleftrightarrow> refs_ok M E B h"
proof -
  assume i: "owns_nothing m"
  then have "\<not> in_shared a m \<and> \<not> in_alone a m \<and> \<not> in_meta a m \<and> \<not> in_group a m" for a
    by (auto simp: owns_nothing_def in_shared_def in_alone_def in_meta_def in_group_def)
  moreover have "msg_ok cs m" for cs using i by (auto simp: owns_nothing_def msg_ok_def content_of_def split: msg_body.splits)
  ultimately show ?thesis by (simp add: refs_ok_def)
qed

lemma idle_replicate: "owns_nothing m \<Longrightarrow> refs_ok (replicate_mset n m + M) E B h \<longleftrightarrow> refs_ok M E B h"
  by (induction n) (simp_all add: idle_refs)

lemma idle_init [simp]: "owns_nothing (init_body (Vsm bs))" "owns_nothing (init_body (Cmsg bs))" "owns_nothing msg_init"
  by (simp_all add: owns_nothing_def init_body_def content_of_def msg_init_def)

lemma idle_closed: "owns_nothing (m\<lparr>r_body := Closed, r_meta := None\<rparr>)"
  by (simp add: owns_nothing_def content_of_def msg_check_def)

lemma idle_close: "owns_nothing m \<Longrightarrow> msg_check m \<Longrightarrow> msg_close m h = Some (None, m\<lparr>r_body := Closed, r_meta := None\<rparr>, h)"
  by (auto simp: owns_nothing_def msg_close_def drop_content_def drop_meta_def drop_group_def split: msg_group.splits)

text \<open>A new content with its one message.\<close>

lemma new_content_ok:
  assumes r: "refs_ok M E B h" and e: "new_content bs f h = (a, h')" and f: "\<And>b. f \<noteq> Buf_Fn b"
  shows "refs_ok (add_mset (init_body (Lmsg a)) M) E B h'" "keeps h h'"
proof -
  let ?c = "\<lparr>ct_data = bs, ct_ffn = f, ct_refcnt = 0\<rparr>"
  have a: "a = length (mh_content h)" and h': "h' = h\<lparr>mh_content := mh_content h @ [Some ?c]\<rparr>" using e by (auto simp: new_content_def)
  note p = r [unfolded refs_ok_parts]
  have z: "tally (in_shared a) M = 0" "tally (in_alone a) M = 0"
    using p by (auto simp: contents_ok_def content_ok_def a block_def dest: spec [of _ "length (mh_content h)"])
  have C: "contents_ok (add_mset (init_body (Lmsg a)) M) (mh_content h')"
    using p z by (auto simp: contents_ok_def h' block_append a content_ok_def in_shared_def in_alone_def init_body_def content_of_def is_shared_def)
  have B: "buffers_ok B h'" using p f by (simp add: buffers_ok_def h' in_buffer_def)
  have m: "\<forall>x \<in># M. msg_ok (mh_content h') x"
  proof
    fix x assume x: "x \<in># M"
    have "content_of x \<noteq> Some a" using z x by (auto simp: tally_0 in_shared_def in_alone_def)
    then show "msg_ok (mh_content h') x" using p x by (auto simp: msg_ok_def h' block_append a content_of_def)
  qed
  have "msg_ok (mh_content h') (init_body (Lmsg a))" by (simp add: msg_ok_def init_body_def msg_check_def)
  moreover have "\<not> in_meta b (init_body (Lmsg a)) \<and> \<not> in_group b (init_body (Lmsg a))" for b
    by (simp add: in_meta_def in_group_def init_body_def)
  ultimately show "refs_ok (add_mset (init_body (Lmsg a)) M) E B h'"
    using C B m p by (simp add: refs_ok_parts h' metas_ok_def groups_ok_def)
  show "keeps h h'" by (simp add: keeps_def h')
qed

lemma init_buffer_ok:
  "refs_ok M E B h \<Longrightarrow> init_buffer bs h = (m, h') \<Longrightarrow> refs_ok (add_mset m M) E B h' \<and> keeps h h'"
  using new_content_ok [of M E B h bs No_Fn] by (auto simp: init_buffer_def idle_refs split: if_splits prod.splits)

lemma init_data_ok:
  "refs_ok M E B h \<Longrightarrow> (\<And>b. f \<noteq> Buf_Fn b) \<Longrightarrow> init_data bs f h = (m, h') \<Longrightarrow> refs_ok (add_mset m M) E B h' \<and> keeps h h'"
  using new_content_ok [of M E B h bs f] by (auto simp: init_data_def idle_refs split: if_splits prod.splits)

text \<open>A message in a receive buffer that the decoder still holds.\<close>

lemma init_in_buffer_ok:
  assumes r: "refs_ok M E (add_mset b B) h" and n: "length (mh_content h) + size B + 2 < 2 ^ 32"
  shows "\<exists>m h'. init_in_buffer bs b h = Some (m, h') \<and> refs_ok (add_mset m M) E (add_mset b B) h' \<and> keeps h h'"
proof (cases "length bs < max_vsm_size")
  case True
  then show ?thesis using r by (simp add: init_in_buffer_def idle_refs)
next
  case False
  let ?a = "length (mh_content h)" and ?c = "\<lparr>ct_data = bs, ct_ffn = Buf_Fn b, ct_refcnt = 0\<rparr>"
  let ?h = "h\<lparr>mh_content := mh_content h @ [Some ?c]\<rparr>" and ?m = "init_body (Zclmsg (length (mh_content h)))"
  note p = r [unfolded refs_ok_parts]
  let ?f = "\<lambda>b'. tally (in_buffer b') (mset (mh_content h)) + tally ((=) b') (add_mset b B)"
  have f: "0 < ?f b" "?f b + 1 < 2 ^ 32"
    using n tally_le [of "in_buffer b" "mset (mh_content h)"] tally_le [of "(=) b" B] by simp_all
  from add_ref_counted [of ?f "mh_buffer h" b, OF _ f] p obtain xs where x: "add_ref (mh_buffer h) b = Some xs"
    "\<forall>b'. counted ((?f(b := Suc (?f b))) b') (block xs b')" unfolding buffers_ok_def by blast
  have z: "tally (in_shared ?a) M = 0" "tally (in_alone ?a) M = 0"
    using p by (auto simp: contents_ok_def content_ok_def block_def dest: spec [of _ "length (mh_content h)"])
  have C: "contents_ok (add_mset ?m M) (mh_content ?h)"
    using p z by (auto simp: contents_ok_def block_append content_ok_def in_shared_def in_alone_def init_body_def content_of_def is_shared_def)
  have B: "buffers_ok (add_mset b B) (?h\<lparr>mh_buffer := xs\<rparr>)"
    unfolding buffers_ok_def
  proof
    fix b' show "counted (tally (in_buffer b') (mset (mh_content (?h\<lparr>mh_buffer := xs\<rparr>))) + tally ((=) b') (add_mset b B)) (block (mh_buffer (?h\<lparr>mh_buffer := xs\<rparr>)) b')"
      using x(2) [rule_format, of b'] by (cases "b' = b") (auto simp: in_buffer_def)
  qed
  have m: "\<forall>x \<in># M. msg_ok (mh_content ?h) x"
  proof
    fix x assume x: "x \<in># M"
    have "content_of x \<noteq> Some ?a" using z x by (auto simp: tally_0 in_shared_def in_alone_def)
    then show "msg_ok (mh_content ?h) x" using p x by (auto simp: msg_ok_def block_append content_of_def)
  qed
  have "msg_ok (mh_content ?h) ?m" by (simp add: msg_ok_def init_body_def msg_check_def block_append)
  moreover have "\<not> in_meta b' ?m \<and> \<not> in_group b' ?m" for b' by (simp add: in_meta_def in_group_def init_body_def)
  ultimately have "refs_ok (add_mset ?m M) E (add_mset b B) (?h\<lparr>mh_buffer := xs\<rparr>)"
    using C B m p by (simp add: refs_ok_parts metas_ok_def groups_ok_def)
  moreover have "keeps h (?h\<lparr>mh_buffer := xs\<rparr>)" by (simp add: keeps_def)
  ultimately show ?thesis using False x(1) by (simp add: init_in_buffer_def init_external_storage_def new_content_def)
qed
section \<open>Copies made bit by bit\<close>

text \<open>A message without metadata and without a long group: only its content matters.\<close>

definition plain :: "rmsg \<Rightarrow> bool" where
  "plain m \<longleftrightarrow> msg_check m \<and> r_meta m = None \<and> (\<exists>g. r_group m = Short g)"

lemma plain_idle: "plain m \<Longrightarrow> content_of m = None \<Longrightarrow> owns_nothing m"
  by (auto simp: plain_def owns_nothing_def)

lemma plain_none: "plain m \<Longrightarrow> \<not> in_meta a m \<and> \<not> in_group a m"
  by (auto simp: plain_def in_meta_def in_group_def)

lemma plain_refs:
  assumes "plain m"
  shows "refs_ok (replicate_mset n m + M) E B h \<longleftrightarrow> contents_ok (replicate_mset n m + M) (mh_content h) \<and> buffers_ok B h \<and> metas_ok M E (mh_meta h) \<and>
    groups_ok M (mh_group h) \<and> (\<forall>x \<in># replicate_mset n m + M. msg_ok (mh_content h) x)"
  using plain_none [OF assms] by (simp add: refs_ok_parts metas_ok_def groups_ok_def)

lemma set_shared_plain [simp]: "plain (set_shared m) = plain m"
  by (simp add: plain_def)

lemma add_refs_ok:
  assumes r: "refs_ok (add_mset m M) E B h" and m: "plain m" and n: "size M + k + 1 < 2 ^ 32"
  shows "\<exists>m' h'. add_refs k m h = Some (m', h') \<and> (m' = m \<and> (k = 0 \<or> content_of m = None) \<or> m' = set_shared m \<and> 0 < k) \<and>
    refs_ok (replicate_mset (Suc k) m' + M) E B h' \<and> keeps h h'"
proof (cases "content_of m")
  case None
  then have "refs_ok (replicate_mset (Suc k) m + M) E B h"
    using r idle_refs [OF plain_idle [OF m None]] idle_replicate [OF plain_idle [OF m None]] by simp
  then show ?thesis using None m by (auto simp: add_refs_def plain_def)
next
  case (Some a)
  show ?thesis
  proof (cases "k = 0")
    case True
    then show ?thesis using r m by (auto simp: add_refs_def plain_def)
  next
    case False
    have rm: "refs_ok (replicate_mset 1 m + M) E B h" using r by simp
    note p = rm [unfolded plain_refs [OF m]]
    have q: "contents_ok (add_mset m M) (mh_content h)" "buffers_ok B h" "\<forall>x \<in># add_mset m M. msg_ok (mh_content h) x" using p by simp_all
    from content_there [OF q(1) Some] obtain c where c: "block (mh_content h) a = Some c" by blast
    have e: "add_refs k m h = Some (set_shared m, more_refs k m a c h)" using Some c False m by (simp add: add_refs_def more_refs_def plain_def)
    note o = more_refs_ok [OF q Some c n]
    have "refs_ok (replicate_mset (Suc k) (set_shared m) + M) E B (more_refs k m a c h)"
      unfolding plain_refs [of "set_shared m", simplified, OF m] using o(1-3) p by (auto simp: more_refs_def split: if_splits)
    then show ?thesis using e o(4) False by blast
  qed
qed

lemma rm_refs_ok:
  assumes r: "refs_ok (replicate_mset k m + M) E B h" and m: "plain m" and k: "0 < k"
    and s: "content_of m = None \<or> is_shared m \<or> k = 1" and n: "size M + k < 2 ^ 32"
  shows "\<exists>h'. rm_refs k m h = Some h' \<and> refs_ok M E B h' \<and> keeps h h'"
proof (cases "content_of m = None \<or> \<not> is_shared m")
  case True
  have c: "\<exists>h'. msg_close m h = Some (None, m\<lparr>r_body := Closed, r_meta := None\<rparr>, h') \<and> refs_ok M E B h' \<and> keeps h h'"
  proof (cases "content_of m")
    case None
    then have i: "owns_nothing m" by (rule plain_idle [OF m])
    then show ?thesis using idle_close [OF i] m r idle_replicate [OF i] by (auto simp: plain_def)
  next
    case (Some a)
    then have "k = 1" using True s by auto
    then show ?thesis using close_ok [of m M E B h] r m by (simp add: plain_def)
  qed
  then show ?thesis using True k m by (auto simp: rm_refs_def plain_def)
next
  case False
  then obtain a where a: "content_of m = Some a" "is_shared m" by auto
  note p = r [unfolded plain_refs [OF m]]
  obtain j where j: "k = Suc j" using k by (cases k) auto
  have C: "contents_ok (add_mset m (replicate_mset j m + M)) (mh_content h)" using p j by simp
  from content_there [OF C a(1)] a obtain c where c: "block (mh_content h) a = Some c"
    and t: "tally (in_alone a) M = 0" "unat (ct_refcnt c) = k + tally (in_shared a) M" by (auto simp: in_shared_def in_alone_def j split: if_splits)
  from sub_refs_ok [OF p [THEN conjunct2, THEN conjunct1, unfolded buffers_ok_def] c _ t(2) k] obtain h' v where
    h: "sub_refs (of_nat k) a c h = Some h'" "mh_content h' = (mh_content h)[a := v]" "mh_meta h' = mh_meta h" "mh_group h' = mh_group h" "buffers_ok B h'"
    and v: "if k = k + tally (in_shared a) M then v = None else \<exists>c'. v = Some c' \<and> unat (ct_refcnt c') = k + tally (in_shared a) M - k \<and>
      ct_data c' = ct_data c \<and> ct_ffn c' = ct_ffn c" unfolding buffers_ok_def by auto
  have v': "v = None \<or> (\<exists>c'. v = Some c' \<and> ct_ffn c' = ct_ffn c \<and> ct_data c' = ct_data c)" using v by (auto split: if_splits)
  have "content_ok (tally (in_shared a) M) (tally (in_alone a) M) v" using v t by (auto simp: content_ok_def split: if_splits)
  moreover have "b \<noteq> a \<Longrightarrow> tally (in_shared b) M = tally (in_shared b) (replicate_mset k m + M) \<and>
      tally (in_alone b) M = tally (in_alone b) (replicate_mset k m + M)" for b
    using content_other [OF a(1), of b] by simp
  moreover have "contents_ok (replicate_mset k m + M) (mh_content h)" using p by blast
  ultimately have "contents_ok M (mh_content h')" unfolding h(2) by (intro contents_okI [of "replicate_mset k m + M" _ a]) (use block_Some [OF c] in blast)+
  moreover have "\<forall>x \<in># M. msg_ok (mh_content h') x" unfolding h(2) using msg_ok_update [OF _ c, of _ v] p v' by auto
  moreover have "keeps h h'" using keeps_in_update [OF c, of v ct_data] v' h by (auto simp: keeps_def)
  ultimately have "refs_ok M E B h' \<and> keeps h h'" using h p by (simp add: refs_ok_parts)
  then show ?thesis using a m k c h(1) by (auto simp: rm_refs_def plain_def)
qed
section \<open>Metadata, groups and buffers\<close>

lemma msg_ok_like:
  assumes "msg_ok cs m" "r_body m' = r_body m" "msg_check m \<Longrightarrow> r_group m' \<noteq> Wild" "\<not> msg_check m \<Longrightarrow> r_meta m' = None"
  shows "msg_ok cs m'"
  using assms unfolding msg_ok_def msg_check_def by metis

lemma reset_metadata_ok:
  assumes "refs_ok (add_mset m M) E B h"
  shows "\<exists>h'. reset_metadata m h = Some (m\<lparr>r_meta := None\<rparr>, h') \<and> refs_ok (add_mset (m\<lparr>r_meta := None\<rparr>) M) E B h' \<and> keeps h h'"
proof -
  note p = assms [unfolded refs_ok_parts]
  from drop_meta_ok [of m M E h] p obtain xs where x: "drop_meta m h = Some (h\<lparr>mh_meta := xs\<rparr>)" "metas_ok M E xs" by blast
  let ?m = "m\<lparr>r_meta := None\<rparr>"
  have e: "in_shared a ?m = in_shared a m" "in_alone a ?m = in_alone a m" "in_group a ?m = in_group a m" "\<not> in_meta a ?m" for a
    by (simp_all add: in_shared_def in_alone_def in_group_def in_meta_def content_of_def is_shared_def msg_check_def)
  have mo: "msg_ok (mh_content h) m" using p by simp
  have "msg_ok (mh_content h) ?m" by (rule msg_ok_like [OF mo]) (use mo in \<open>simp_all add: msg_ok_def\<close>)
  then have "refs_ok (add_mset ?m M) E B (h\<lparr>mh_meta := xs\<rparr>)"
    using p x(2) by (simp add: refs_ok_parts contents_ok_def buffers_ok_def metas_ok_def groups_ok_def e)
  then show ?thesis using x(1) by (auto simp: reset_metadata_def keeps_def)
qed

lemma set_metadata_ok:
  assumes r: "refs_ok (add_mset m M) (add_mset a E) B h" and m: "r_meta m = None" "msg_check m" and n: "size M + size E + 2 < 2 ^ 32"
  shows "\<exists>h'. set_metadata a m h = Some (m\<lparr>r_meta := Some a\<rparr>, h') \<and> refs_ok (add_mset (m\<lparr>r_meta := Some a\<rparr>) M) (add_mset a E) B h' \<and> keeps h h'"
proof -
  note p = r [unfolded refs_ok_parts]
  let ?m = "m\<lparr>r_meta := Some a\<rparr>" and ?f = "\<lambda>b. tally (in_meta b) (add_mset m M) + tally ((=) b) (add_mset a E)"
  have im: "in_meta b m = False" for b using m by (simp add: in_meta_def)
  have f: "0 < ?f a" "?f a + 1 < 2 ^ 32"
    using n im tally_le [of "in_meta a" M] tally_le [of "(=) a" E] by simp_all
  have "\<forall>b. counted (?f b) (block (mh_meta h) b)" using p unfolding metas_ok_def by blast
  from add_ref_counted [OF this f] obtain xs where x: "add_ref (mh_meta h) a = Some xs" "\<forall>b. counted ((?f(a := Suc (?f a))) b) (block xs b)" by blast
  have e: "in_shared b ?m = in_shared b m" "in_alone b ?m = in_alone b m" "in_group b ?m = in_group b m" "in_meta b ?m \<longleftrightarrow> b = a" for b
    by (auto simp: in_shared_def in_alone_def in_group_def in_meta_def content_of_def is_shared_def msg_check_def)
  have "metas_ok (add_mset ?m M) (add_mset a E) xs"
    unfolding metas_ok_def
  proof
    fix b show "counted (tally (in_meta b) (add_mset ?m M) + tally ((=) b) (add_mset a E)) (block xs b)"
      using x(2) [rule_format, of b] by (cases "b = a") (auto simp: e im)
  qed
  moreover have mo: "msg_ok (mh_content h) m" using p by simp
  have "msg_ok (mh_content h) ?m" by (rule msg_ok_like [OF mo]) (use mo m in \<open>simp_all add: msg_ok_def\<close>)
  ultimately have "refs_ok (add_mset ?m M) (add_mset a E) B (h\<lparr>mh_meta := xs\<rparr>)"
    using p by (simp add: refs_ok_parts contents_ok_def buffers_ok_def groups_ok_def e)
  then show ?thesis using x(1) m by (auto simp: set_metadata_def keeps_def)
qed

lemma set_group_ok:
  assumes r: "refs_ok (add_mset m M) E B h" and m: "msg_check m" "r_group m = Short g0" and e: "set_group g m h = (q, m', h')"
  shows "refs_ok (add_mset m' M) E B h' \<and> keeps h h'"
proof -
  note p = r [unfolded refs_ok_parts]
  have same: "in_shared a (m\<lparr>r_group := x\<rparr>) = in_shared a m" "in_alone a (m\<lparr>r_group := x\<rparr>) = in_alone a m"
    "in_meta a (m\<lparr>r_group := x\<rparr>) = in_meta a m" "in_group a (m\<lparr>r_group := x\<rparr>) \<longleftrightarrow> x = Long a" "\<not> in_group a m" for a x
    using m by (auto simp: in_shared_def in_alone_def in_group_def in_meta_def content_of_def is_shared_def msg_check_def)
  have ok: "msg_ok cs (m\<lparr>r_group := x\<rparr>)" if "x \<noteq> Wild" "msg_ok cs m" for x cs
    by (rule msg_ok_like [OF that(2)]) (use that m in \<open>simp_all add: msg_ok_def\<close>)
  show ?thesis
  proof (cases "255 < length g \<or> length g \<le> 14")
    case True
    have "refs_ok (add_mset (m\<lparr>r_group := Short g\<rparr>) M) E B h"
      using p ok [of "Short g"] by (simp add: refs_ok_parts contents_ok_def metas_ok_def groups_ok_def same)
    then show ?thesis using e True r m by (auto simp: set_group_def split: if_splits)
  next
    case False
    let ?a = "length (mh_group h)"
    have h': "m' = m\<lparr>r_group := Long ?a\<rparr>" "h' = h\<lparr>mh_group := mh_group h @ [Some (g, 1)]\<rparr>" using e False by (auto simp: set_group_def)
    have "tally (in_group ?a) M = 0" using p by (auto simp: groups_ok_def same block_def dest: spec [of _ "length (mh_group h)"])
    then have "groups_ok (add_mset m' M) (mh_group h')" using p by (auto simp: groups_ok_def h' same block_append)
    then have "refs_ok (add_mset m' M) E B h'"
      using p ok [of "Long ?a"] by (simp add: refs_ok_parts contents_ok_def buffers_ok_def metas_ok_def h' same)
    then show ?thesis by (simp add: keeps_def h')
  qed
qed

text \<open>The receive buffer: given up, and allocated or used again.\<close>

definition opt_mset :: "'a option \<Rightarrow> 'a multiset" where
  "opt_mset x = (case x of None \<Rightarrow> {#} | Some a \<Rightarrow> {#a#})"

lemma opt_mset_simps [simp]: "opt_mset None = {#}" "opt_mset (Some a) = {#a#}"
  by (simp_all add: opt_mset_def)

lemma new_buffer_ok:
  assumes "refs_ok M E B h"
  shows "refs_ok M E (add_mset (length (mh_buffer h)) B) (h\<lparr>mh_buffer := mh_buffer h @ [Some 1]\<rparr>)"
proof -
  note p = assms [unfolded refs_ok_parts]
  have "tally (in_buffer (length (mh_buffer h))) (mset (mh_content h)) + tally ((=) (length (mh_buffer h))) B = 0"
    using p by (auto simp: buffers_ok_def block_def dest: spec [of _ "length (mh_buffer h)"])
  then show ?thesis using p by (auto simp: refs_ok_parts buffers_ok_def block_append)
qed

lemma drop_buffer_ok:
  assumes "refs_ok M E (add_mset a B) h"
  shows "\<exists>n xs. block (mh_buffer h) a = Some n \<and> xs = (mh_buffer h)[a := if n - 1 = 0 then None else Some (n - 1)] \<and>
    refs_ok M E B (h\<lparr>mh_buffer := xs\<rparr>)"
proof -
  note p = assms [unfolded refs_ok_parts]
  let ?f = "\<lambda>b. tally (in_buffer b) (mset (mh_content h)) + tally ((=) b) (add_mset a B)"
  have "?f a = Suc (tally (in_buffer a) (mset (mh_content h)) + tally ((=) a) B)" by simp
  from drop_ref_counted [of ?f, OF _ this] p obtain xs where x: "drop_ref (mh_buffer h) a = Some xs"
    "\<forall>b. counted ((?f(a := tally (in_buffer a) (mset (mh_content h)) + tally ((=) a) B)) b) (block xs b)" unfolding buffers_ok_def by blast
  have "buffers_ok B (h\<lparr>mh_buffer := xs\<rparr>)"
    unfolding buffers_ok_def
  proof
    fix b show "counted (tally (in_buffer b) (mset (mh_content (h\<lparr>mh_buffer := xs\<rparr>))) + tally ((=) b) B) (block (mh_buffer (h\<lparr>mh_buffer := xs\<rparr>)) b)"
      using x(2) [rule_format, of b] by (cases "b = a") auto
  qed
  then have "refs_ok M E B (h\<lparr>mh_buffer := xs\<rparr>)" using p by (simp add: refs_ok_parts)
  then show ?thesis using x(1) by (auto simp: drop_ref_def split: option.splits)
qed

lemma deallocate_ok:
  assumes "refs_ok M E (opt_mset b + B) h"
  shows "\<exists>h'. alloc_deallocate b h = Some (None, h') \<and> refs_ok M E B h' \<and> keeps h h'"
proof (cases b)
  case (Some a)
  then show ?thesis using drop_buffer_ok [of M E a B h] assms by (auto simp: alloc_deallocate_def drop_ref_def keeps_def)
qed (use assms in \<open>simp add: alloc_deallocate_def\<close>)

lemma allocate_ok:
  assumes r: "refs_ok M E (opt_mset b + B) h"
  shows "\<exists>a h'. alloc_allocate b h = Some (Some a, h') \<and> refs_ok M E (add_mset a B) h' \<and> keeps h h'"
proof (cases b)
  case None
  then show ?thesis using new_buffer_ok [of M E B h] r by (simp add: alloc_allocate_def keeps_def)
next
  case (Some a)
  then obtain n where n: "block (mh_buffer h) a = Some n" "refs_ok M E B (h\<lparr>mh_buffer := (mh_buffer h)[a := if n - 1 = 0 then None else Some (n - 1)]\<rparr>)"
    using drop_buffer_ok [of M E a B h] r by auto
  show ?thesis
  proof (cases "n - 1 = 0")
    case True
    let ?h = "h\<lparr>mh_buffer := (mh_buffer h)[a := Some 1]\<rparr>"
    have "n = 1" using True by (metis eq_iff_diff_eq_0)
    have "mh_buffer h ! a = Some 1" using n(1) \<open>n = 1\<close> by (simp add: block_def split: if_splits)
    then have "(mh_buffer h)[a := Some 1] = mh_buffer h" by (metis list_update_id)
    then have "alloc_allocate b h = Some (Some a, h)" using n(1) True Some unfolding alloc_allocate_def by simp
    then show ?thesis using r Some by simp
  next
    case False
    then show ?thesis using new_buffer_ok [OF n(2)] n(1) Some by (simp add: alloc_allocate_def keeps_def)
  qed
qed

end
