(* ===== verification/ZmqMsgRun.thy ===== *)
theory ZmqMsgRun
  imports ZmqMsgSafe
begin

text \<open>
  Everything that is done with messages (\<open>ZmqMsgRefs\<close>), in any order: no operation touches a block that is not there, and what
  the holders see is what they would see if each message had its own bytes.
\<close>

section \<open>Variables and holders\<close>

definition rest_of :: "nat \<Rightarrow> 'a list \<Rightarrow> 'a multiset" where
  "rest_of k xs = mset (take k xs) + mset (drop (Suc k) xs)"

lemma mset_nth: "k < length xs \<Longrightarrow> mset xs = add_mset (xs ! k) (rest_of k xs)"
  by (subst id_take_nth_drop [of k xs]) (simp_all add: rest_of_def)

lemma mset_put: "k < length xs \<Longrightarrow> mset (xs[k := v]) = add_mset v (rest_of k xs)"
  by (simp add: upd_conv_take_nth_drop rest_of_def)

lemma rest_put [simp]: "rest_of k (xs[k := v]) = rest_of k xs"
  by (simp add: rest_of_def)

lemma size_rest: "k < length xs \<Longrightarrow> size (rest_of k xs) < length xs"
  by (simp add: rest_of_def)

definition held :: "maddr option list \<Rightarrow> maddr multiset" where
  "held xs = \<Sum>\<^sub># (image_mset opt_mset (mset xs))"

definition held_rest :: "nat \<Rightarrow> maddr option list \<Rightarrow> maddr multiset" where
  "held_rest k xs = \<Sum>\<^sub># (image_mset opt_mset (rest_of k xs))"

lemma held_nth: "k < length xs \<Longrightarrow> held xs = opt_mset (xs ! k) + held_rest k xs"
  by (simp add: held_def held_rest_def mset_nth)

lemma held_put: "k < length xs \<Longrightarrow> held (xs[k := v]) = opt_mset v + held_rest k xs"
  by (simp add: held_def held_rest_def mset_put)

lemma held_simps [simp]: "held [] = {#}" "held (xs @ [v]) = opt_mset v + held xs"
  by (simp_all add: held_def add.commute)

lemma size_held: "size (held xs) \<le> length xs"
proof (induction xs)
  case (Cons x xs)
  then show ?case by (cases x) (simp_all add: held_def)
qed simp

definition world_ok :: "nat \<Rightarrow> msgs \<Rightarrow> bool" where
  "world_ok n s \<longleftrightarrow> refs_ok (mset (ms_vars s)) (held (ms_engines s)) (held (ms_bufs s)) (ms_heap s) \<and>
     length (ms_vars s) + length (ms_engines s) \<le> n \<and> length (mh_content (ms_heap s)) + length (ms_bufs s) \<le> n"

definition op_size :: "msg_op \<Rightarrow> nat" where
  "op_size x = (case x of Publish_Msg i oks \<Rightarrow> length oks | _ \<Rightarrow> 1)"

section \<open>What a message is to its holder\<close>

definition bytes_at :: "msg_heap \<Rightarrow> maddr \<Rightarrow> bytes" where
  "bytes_at h a = (case block (mh_content h) a of None \<Rightarrow> [] | Some c \<Rightarrow> ct_data c)"

definition body_val :: "msg_heap \<Rightarrow> msg_body \<Rightarrow> msg_body" where
  "body_val h b = (case b of Lmsg a \<Rightarrow> Vsm (bytes_at h a) | Zclmsg a \<Rightarrow> Vsm (bytes_at h a) | Cmsg bs \<Rightarrow> Vsm bs | _ \<Rightarrow> b)"

definition group_val :: "msg_heap \<Rightarrow> msg_group \<Rightarrow> bytes" where
  "group_val h g = (case g of Short bs \<Rightarrow> bs | Long a \<Rightarrow> (case block (mh_group h) a of None \<Rightarrow> [] | Some gn \<Rightarrow> fst gn) | Wild \<Rightarrow> [])"

definition gone :: rmsg where
  "gone = init_body Closed"

definition msg_val :: "msg_heap \<Rightarrow> rmsg \<Rightarrow> rmsg" where
  "msg_val h m = (if \<not> msg_check m then gone
     else \<lparr>r_body = body_val h (r_body m), r_flags = r_flags m AND NOT shared_flag, r_meta = None, r_group = Short (group_val h (r_group m))\<rparr>)"

text \<open>The same operations on messages that each have their own bytes.\<close>

definition close_val :: "nat \<Rightarrow> rmsg list \<Rightarrow> errno option \<times> rmsg list" where
  "close_val i vs = (if \<not> msg_check (vs ! i) then (Some EFAULT, vs) else (None, vs[i := gone]))"

definition val_step :: "msg_op \<Rightarrow> rmsg list \<Rightarrow> errno option \<times> rmsg list" where
  "val_step x vs = (case x of
       New_Msg \<Rightarrow> (None, vs @ [msg_init])
     | Init_Buffer i bs \<Rightarrow> (None, vs[i := init_body (Vsm bs)])
     | Init_Data i bs f \<Rightarrow> (None, vs[i := init_body (Vsm bs)])
     | Init_In_Buffer i bs k \<Rightarrow> (None, vs[i := init_body (Vsm bs)])
     | Close_Msg i \<Rightarrow> close_val i vs
     | Move_Msg i j \<Rightarrow> if \<not> msg_check (vs ! j) \<or> \<not> msg_check (vs ! i) then (Some EFAULT, vs)
         else (None, vs[i := vs ! j, j := msg_init])
     | Copy_Msg i j \<Rightarrow> if \<not> msg_check (vs ! j) \<or> \<not> msg_check (vs ! i) then (Some EFAULT, vs)
         else (None, vs[i := vs ! j])
     | Set_Group i g \<Rightarrow> if 255 < length g then (Some EINVAL, vs) else (None, vs[i := (vs ! i)\<lparr>r_group := Short g\<rparr>])
     | Send_Msg i \<Rightarrow> (None, vs[i := msg_init] @ [vs ! i])
     | Publish_Msg i oks \<Rightarrow> (None, vs[i := msg_init] @ replicate (length (filter id oks)) (vs ! i))
     | Receive_Msg i k \<Rightarrow> (None, vs[i := vs ! k, k := gone])
     | _ \<Rightarrow> (None, vs))"

fun val_run :: "msg_op list \<Rightarrow> rmsg list \<Rightarrow> errno option list \<times> rmsg list" where
  "val_run [] vs = ([], vs)"
| "val_run (x # xs) vs = (let (r, vs1) = val_step x vs; (rs, vs2) = val_run xs vs1 in (r # rs, vs2))"

definition vals :: "msgs \<Rightarrow> rmsg list" where
  "vals s = map (msg_val (ms_heap s)) (ms_vars s)"

lemma msg_val_simps [simp]:
  "msg_val h msg_init = msg_init" "msg_val h (init_body (Vsm bs)) = init_body (Vsm bs)" "msg_val h (init_body (Cmsg bs)) = init_body (Vsm bs)"
  "msg_val h (m\<lparr>r_body := Closed\<rparr>) = gone" "msg_val h (init_body Closed) = gone" "msg_val h (m\<lparr>r_meta := x\<rparr>) = msg_val h m"
  by (simp_all add: msg_val_def msg_init_def init_body_def msg_check_def body_val_def group_val_def gone_def)

lemma msg_val_shared [simp]: "msg_val h (set_shared m) = msg_val h m"
proof -
  have "(r_flags m OR shared_flag) AND NOT shared_flag = r_flags m AND NOT shared_flag"
    by (simp add: bit.conj_disj_distrib2)
  then show ?thesis by (simp add: msg_val_def set_shared_def msg_check_def)
qed

lemma msg_val_check [simp]: "msg_check (msg_val h m) = msg_check m"
  by (auto simp: msg_val_def msg_check_def gone_def init_body_def body_val_def split: msg_body.splits)

lemma content_used:
  assumes "refs_ok M E B h" "m \<in># M" "content_of m = Some a"
  shows "\<exists>c. block (mh_content h) a = Some c"
proof -
  obtain M' where M: "M = add_mset m M'" using assms(2) by (rule mset_add)
  show ?thesis using content_there [of m M' "mh_content h" a] assms unfolding M refs_ok_parts by blast
qed

lemma group_used:
  assumes "refs_ok M E B h" "m \<in># M" "msg_check m" "r_group m = Long a"
  shows "\<exists>g. block (mh_group h) a = Some g"
proof -
  obtain M' where M: "M = add_mset m M'" using assms(2) by (rule mset_add)
  have "counted (Suc (tally (in_group a) M')) (map_option snd (block (mh_group h) a))"
    using assms(1,3,4) unfolding M refs_ok_parts by (simp add: groups_ok_def in_group_def split: if_splits)
  from counted_pos [OF this] show ?thesis by auto
qed

text \<open>What a message is does not change while it and its blocks are kept.\<close>

lemma val_keeps:
  assumes r: "refs_ok M E B h" "m \<in># M" and r': "refs_ok M' E' B' h'" "m' \<in># M'" and m: "m' = m \<or> m' = set_shared m" and k: "keeps h h'"
  shows "msg_val h' m' = msg_val h m"
proof -
  have m': "content_of m' = content_of m" "msg_check m' = msg_check m" "r_group m' = r_group m" "r_body m' = r_body m" using m by auto
  have "bytes_at h' a = bytes_at h a" if a: "content_of m = Some a" for a
  proof -
    obtain c c' where c: "block (mh_content h) a = Some c" "block (mh_content h') a = Some c'"
      using content_used [OF r a] content_used [OF r'] a m'(1) by auto
    then have "ct_data c' = ct_data c" using k keeps_inD [OF _ c, of ct_data] by (simp add: keeps_def)
    then show ?thesis using c by (simp add: bytes_at_def)
  qed
  then have b: "body_val h' (r_body m) = body_val h (r_body m)" by (auto simp: body_val_def content_of_def split: msg_body.splits)
  have "group_val h' (r_group m) = group_val h (r_group m)" if v: "msg_check m"
  proof (cases "r_group m")
    case (Long a)
    obtain g g' where c: "block (mh_group h) a = Some g" "block (mh_group h') a = Some g'"
      using group_used [OF r v Long] group_used [OF r', of a] v Long m' by auto
    then have "fst g' = fst g" using k keeps_inD [OF _ c, of fst] by (simp add: keeps_def)
    then show ?thesis using c Long by (simp add: group_val_def)
  qed (simp_all add: group_val_def)
  then have "msg_val h' m = msg_val h m" using b by (simp add: msg_val_def)
  then show ?thesis using m by auto
qed


section \<open>The user's data\<close>

text \<open>Data given to a message with a function to free it: freed by now, or in a content that is still there.\<close>

definition user_data :: "content_t option \<Rightarrow> nat multiset" where
  "user_data c = (case c of None \<Rightarrow> {#} | Some c' \<Rightarrow> (case ct_ffn c' of User_Fn d \<Rightarrow> {#d#} | _ \<Rightarrow> {#}))"

definition owed :: "msg_heap \<Rightarrow> nat multiset" where
  "owed h = mset (mh_freed h) + \<Sum>\<^sub># (image_mset user_data (mset (mh_content h)))"

definition same_data :: "msg_heap \<Rightarrow> msg_heap \<Rightarrow> bool" where
  "same_data h h' \<longleftrightarrow> length (mh_content h') = length (mh_content h) \<and> owed h' = owed h"

lemma frame_refl [simp]: "same_data h h"
  by (simp add: same_data_def)

lemma frame_trans: "same_data h h1 \<Longrightarrow> same_data h1 h2 \<Longrightarrow> same_data h h2"
  by (simp add: same_data_def)

lemma frame_same: "mh_content h' = mh_content h \<Longrightarrow> mh_freed h' = mh_freed h \<Longrightarrow> same_data h h'"
  by (simp add: same_data_def owed_def)

lemma data_update:
  assumes "block xs a = Some c"
  shows "\<Sum>\<^sub># (image_mset user_data (mset (xs[a := v]))) + user_data (Some c) = \<Sum>\<^sub># (image_mset user_data (mset xs)) + user_data v"
proof -
  have a: "a < length xs" "xs ! a = Some c" using assms by (auto simp: block_def split: if_splits)
  show ?thesis using mset_nth [OF a(1)] mset_put [OF a(1), of v] a(2) by simp
qed

lemma frame_counter: "block (mh_content h) a = Some c \<Longrightarrow> same_data h (h\<lparr>mh_content := (mh_content h)[a := Some (c\<lparr>ct_refcnt := n\<rparr>)]\<rparr>)"
  using data_update [of "mh_content h" a c "Some (c\<lparr>ct_refcnt := n\<rparr>)"] by (simp add: same_data_def owed_def user_data_def)

lemma frame_free:
  assumes c: "block (mh_content h) a = Some c" and f: "free_content a c h = Some h'"
  shows "same_data h h'"
proof -
  have h': "mh_content h' = (mh_content h)[a := None]" "mset (mh_freed h') = mset (mh_freed h) + user_data (Some c)"
    using f by (auto simp: free_content_def call_ffn_def call_dec_ref_def user_data_def split: free_fn.splits)
  then show ?thesis using data_update [OF c, of None] by (simp add: same_data_def owed_def user_data_def [of None] add_ac)
qed

lemma frame_sub: "block (mh_content h) a = Some c \<Longrightarrow> sub_refs k a c h = Some h' \<Longrightarrow> same_data h h'"
  using frame_free frame_counter by (auto simp: sub_refs_def split: if_splits)

lemma frame_drop_content: "drop_content m h = Some h' \<Longrightarrow> same_data h h'"
  using frame_sub frame_free by (auto simp: drop_content_def split: option.splits if_splits)

lemma frame_drop_meta: "drop_meta m h = Some h' \<Longrightarrow> same_data h h'"
  by (auto simp: drop_meta_def intro: frame_same split: option.splits)

lemma frame_drop_group: "drop_group m h = Some h' \<Longrightarrow> same_data h h'"
  by (auto simp: drop_group_def intro: frame_same split: option.splits msg_group.splits)

lemma frame_close: "msg_close m h = Some (r, m', h') \<Longrightarrow> same_data h h'"
  by (auto simp: msg_close_def Option.bind_eq_Some_conv split: if_splits
      dest!: frame_drop_content frame_drop_meta frame_drop_group intro: frame_trans)

lemma frame_share_content: "share_content m h = Some (m', h') \<Longrightarrow> same_data h h'"
  using frame_counter by (auto simp: share_content_def split: option.splits)

lemma frame_share_meta: "share_meta m h = Some h' \<Longrightarrow> same_data h h'"
  by (auto simp: share_meta_def intro: frame_same split: option.splits)

lemma frame_share_group: "share_group m h = Some h' \<Longrightarrow> same_data h h'"
  by (auto simp: share_group_def intro: frame_same split: option.splits msg_group.splits)

lemma frame_add_refs: "add_refs k m h = Some (m', h') \<Longrightarrow> same_data h h'"
  using frame_counter by (auto simp: add_refs_def split: option.splits if_splits)

lemma frame_rm_refs: "rm_refs k m h = Some h' \<Longrightarrow> same_data h h'"
  using frame_sub by (auto simp: rm_refs_def split: option.splits if_splits dest: frame_close)

lemma frame_new_content: "new_content bs f h = (a, h') \<Longrightarrow> length (mh_content h') = Suc (length (mh_content h)) \<and>
    owed h' = (case f of User_Fn d \<Rightarrow> {#d#} | _ \<Rightarrow> {#}) + owed h"
  by (auto simp: new_content_def owed_def user_data_def split: free_fn.splits)
section \<open>Each operation\<close>

definition given :: "msg_op \<Rightarrow> nat multiset" where
  "given x = (case x of Init_Data i bs (User_Fn d) \<Rightarrow> {#d#} | _ \<Rightarrow> {#})"

definition step_sound :: "nat \<Rightarrow> msg_op \<Rightarrow> msgs \<Rightarrow> bool" where
  "step_sound n x s \<longleftrightarrow> (\<exists>r s'. msg_step x s = Some (r, s') \<and> world_ok (n + op_size x) s' \<and> val_step x (vals s) = (r, vals s') \<and>
     owed (ms_heap s') = given x + owed (ms_heap s))"

lemma step_soundI:
  assumes "msg_step x s = Some (r, s')" "world_ok (n + op_size x) s'" "val_step x (vals s) = (r, vals s')"
    "owed (ms_heap s') = given x + owed (ms_heap s)"
  shows "step_sound n x s"
  using assms by (auto simp: step_sound_def)

lemma vals_kept:
  assumes "refs_ok (mset vs) E B h" "refs_ok (mset vs') E' B' h'" "keeps h h'" "p < length vs" "q < length vs'"
    "vs' ! q = vs ! p \<or> vs' ! q = set_shared (vs ! p)"
  shows "msg_val h' (vs' ! q) = msg_val h (vs ! p)"
  by (rule val_keeps [OF assms(1) _ assms(2) _ assms(6,3)]) (use assms(4,5) in simp_all)

lemma vals_nth [simp]: "p < length (ms_vars s) \<Longrightarrow> vals s ! p = msg_val (ms_heap s) (ms_vars s ! p)"
  "length (vals s) = length (ms_vars s)"
  by (simp_all add: vals_def)

lemma world_refs: "world_ok n s \<Longrightarrow> refs_ok (mset (ms_vars s)) (held (ms_engines s)) (held (ms_bufs s)) (ms_heap s)"
  by (simp add: world_ok_def)

lemma world_var:
  "world_ok n s \<Longrightarrow> i < length (ms_vars s) \<Longrightarrow>
    refs_ok (add_mset (ms_vars s ! i) (rest_of i (ms_vars s))) (held (ms_engines s)) (held (ms_bufs s)) (ms_heap s)"
  by (simp add: world_ok_def mset_nth)

text \<open>One variable and the heap are changed.\<close>

lemma world_put:
  assumes w: "world_ok n s" and i: "i < length (ms_vars s)"
    and r: "refs_ok (add_mset m (rest_of i (ms_vars s))) (held (ms_engines s)) (held (ms_bufs s)) h'"
    and k: "keeps (ms_heap s) h'" and l: "length (mh_content h') \<le> Suc (length (mh_content (ms_heap s)))"
  shows "world_ok (Suc n) (put_msg i (m, h') s)" "vals (put_msg i (m, h') s) = (vals s)[i := msg_val h' m]"
    "length (mh_content h') = length (mh_content (ms_heap s)) \<Longrightarrow> world_ok n (put_msg i (m, h') s)"
proof -
  have r': "refs_ok (mset ((ms_vars s)[i := m])) (held (ms_engines s)) (held (ms_bufs s)) h'" using r i by (simp add: mset_put)
  then show "world_ok (Suc n) (put_msg i (m, h') s)" using w l by (simp add: world_ok_def put_msg_def put_var_def)
  show "length (mh_content h') = length (mh_content (ms_heap s)) \<Longrightarrow> world_ok n (put_msg i (m, h') s)"
    using r' w by (simp add: world_ok_def put_msg_def put_var_def)
  have "map (msg_val h') ((ms_vars s)[i := m]) = (vals s)[i := msg_val h' m]"
  proof (rule nth_equalityI)
    fix p assume p: "p < length (map (msg_val h') ((ms_vars s)[i := m]))"
    then show "map (msg_val h') ((ms_vars s)[i := m]) ! p = (vals s)[i := msg_val h' m] ! p"
      using vals_kept [OF world_refs [OF w] r' k, of p p] i by (cases "p = i") simp_all
  qed simp
  then show "vals (put_msg i (m, h') s) = (vals s)[i := msg_val h' m]" by (simp add: vals_def put_msg_def put_var_def)
qed

lemma put_msg_heap [simp]: "ms_heap (put_msg i (m, h) s) = h"
  by (simp add: put_msg_def put_var_def)

lemma vacant_idle: "vacant m \<Longrightarrow> owns_nothing m"
  by (auto simp: vacant_def owns_nothing_def split: msg_group.splits)

lemma init_sound:
  assumes w: "world_ok n s" and i: "i < length (ms_vars s)" "vacant (ms_vars s ! i)"
  shows "step_sound n (Init_Buffer i bs) s" "(\<And>b. f \<noteq> Buf_Fn b) \<Longrightarrow> step_sound n (Init_Data i bs f) s"
proof -
  have r: "refs_ok (rest_of i (ms_vars s)) (held (ms_engines s)) (held (ms_bufs s)) (ms_heap s)"
    using world_var [OF w i(1)] idle_refs [OF vacant_idle [OF i(2)]] by blast
  show "step_sound n (Init_Buffer i bs) s"
  proof -
    obtain m h' where e: "init_buffer bs (ms_heap s) = (m, h')" by fastforce
    have k: "refs_ok (add_mset m (rest_of i (ms_vars s))) (held (ms_engines s)) (held (ms_bufs s)) h'" "keeps (ms_heap s) h'"
      using init_buffer_ok [OF r e] by auto
    have l: "length (mh_content h') \<le> Suc (length (mh_content (ms_heap s))) \<and> owed h' = owed (ms_heap s) \<and> msg_val h' m = init_body (Vsm bs)"
      using e frame_new_content [of bs No_Fn "ms_heap s"] by (auto simp: init_buffer_def split: if_splits prod.splits)
        (auto simp: msg_val_def init_body_def msg_check_def body_val_def bytes_at_def new_content_def block_append group_val_def)
    show ?thesis by (rule step_soundI [where r = None and s' = "put_msg i (m, h') s"])
      (use world_put [OF w i(1) k] l in \<open>simp_all add: msg_step_def val_step_def op_size_def given_def e Let_def\<close>)
  qed
  assume f: "\<And>b. f \<noteq> Buf_Fn b"
  show "step_sound n (Init_Data i bs f) s"
  proof -
    obtain m h' where e: "init_data bs f (ms_heap s) = (m, h')" by fastforce
    have k: "refs_ok (add_mset m (rest_of i (ms_vars s))) (held (ms_engines s)) (held (ms_bufs s)) h'" "keeps (ms_heap s) h'"
      using init_data_ok [OF r f e] by auto
    have l: "length (mh_content h') \<le> Suc (length (mh_content (ms_heap s)))" "owed h' = given (Init_Data i bs f) + owed (ms_heap s)"
      using e frame_new_content [of bs f "ms_heap s"] by (auto simp: init_data_def given_def split: if_splits prod.splits free_fn.splits)
    have v: "msg_val h' m = init_body (Vsm bs)"
      using e by (auto simp: init_data_def split: if_splits prod.splits)
        (auto simp: msg_val_def init_body_def msg_check_def body_val_def bytes_at_def new_content_def block_append group_val_def)
    show ?thesis by (rule step_soundI [where r = None and s' = "put_msg i (m, h') s"])
      (use world_put [OF w i(1) k l(1)] l(2) v in \<open>simp_all add: msg_step_def val_step_def op_size_def e Let_def\<close>)
  qed
qed


lemma var_close_eq:
  assumes w: "world_ok n s" and i: "i < length (ms_vars s)" "msg_check (ms_vars s ! i)"
  shows "\<exists>m h'. var_close i s = Some (None, put_msg i (m, h') s) \<and> owns_nothing m \<and> \<not> msg_check m \<and> msg_val h' m = gone \<and>
    refs_ok (rest_of i (ms_vars s)) (held (ms_engines s)) (held (ms_bufs s)) h' \<and> keeps (ms_heap s) h' \<and> same_data (ms_heap s) h'"
proof -
  let ?m = "(ms_vars s ! i)\<lparr>r_body := Closed, r_meta := None\<rparr>"
  from close_ok [OF world_var [OF w i(1)] i(2)] obtain h' where h: "msg_close (ms_vars s ! i) (ms_heap s) = Some (None, ?m, h')"
    "refs_ok (rest_of i (ms_vars s)) (held (ms_engines s)) (held (ms_bufs s)) h'" "keeps (ms_heap s) h'" by blast
  then show ?thesis using frame_close [OF h(1)] idle_closed [of "ms_vars s ! i"]
    by (intro exI [of _ ?m] exI [of _ h']) (simp add: var_close_def put_msg_def msg_check_def)
qed

lemma var_close_refused: "\<not> msg_check (ms_vars s ! i) \<Longrightarrow> var_close i s = Some (Some EFAULT, s)"
  by (simp add: var_close_def msg_close_def put_var_def)

lemma frameD: "same_data h h' \<Longrightarrow> length (mh_content h') \<le> Suc (length (mh_content h)) \<and> owed h' = owed h"
  by (simp add: same_data_def)

lemma world_more: "world_ok n s \<Longrightarrow> n \<le> m \<Longrightarrow> world_ok m s"
  by (auto simp: world_ok_def)

lemma close_sound:
  assumes w: "world_ok n s" and i: "i < length (ms_vars s)"
  shows "step_sound n (Close_Msg i) s"
proof (cases "msg_check (ms_vars s ! i)")
  case False
  then show ?thesis
    by (intro step_soundI [where r = "Some EFAULT" and s' = s])
      (use i world_more [OF w, of "Suc n"] in \<open>simp_all add: msg_step_def var_close_refused val_step_def close_val_def op_size_def given_def Let_def\<close>)
next
  case True
  from var_close_eq [OF w i True] obtain m h' where h: "var_close i s = Some (None, put_msg i (m, h') s)" "owns_nothing m" "msg_val h' m = gone"
    "refs_ok (rest_of i (ms_vars s)) (held (ms_engines s)) (held (ms_bufs s)) h'" "keeps (ms_heap s) h'" "same_data (ms_heap s) h'" by blast
  have r: "refs_ok (add_mset m (rest_of i (ms_vars s))) (held (ms_engines s)) (held (ms_bufs s)) h'" using h(2,4) by (simp add: idle_refs)
  note p = world_put [OF w i r h(5) frameD [OF h(6), THEN conjunct1]]
  show ?thesis
    by (rule step_soundI [where r = None and s' = "put_msg i (m, h') s"])
      (use p h(1,3) frameD [OF h(6)] True i in \<open>simp_all add: msg_step_def val_step_def close_val_def op_size_def given_def Let_def\<close>)
qed

text \<open>A variable that takes the place of another.\<close>

lemma rest_taken:
  assumes "i \<noteq> j" "i < length xs" "j < length xs"
  shows "rest_of j (xs[i := xs ! j]) = rest_of i xs" "\<exists>R. rest_of i xs = add_mset (xs ! j) R \<and> (\<forall>v. rest_of i (xs[j := v]) = add_mset v R)"
proof -
  have "add_mset (xs ! j) (rest_of i xs) = add_mset (xs ! j) (rest_of j (xs[i := xs ! j]))"
    using mset_put [OF assms(2), of "xs ! j"] mset_nth [of j "xs[i := xs ! j]"] assms by simp
  then show "rest_of j (xs[i := xs ! j]) = rest_of i xs" by simp
  have m: "add_mset (xs ! i) (rest_of i xs) = add_mset (xs ! j) (rest_of j xs)" using assms mset_nth [of i xs] mset_nth [of j xs] by simp
  show "\<exists>R. rest_of i xs = add_mset (xs ! j) R \<and> (\<forall>v. rest_of i (xs[j := v]) = add_mset v R)"
  proof (intro exI [of _ "rest_of i xs - {#xs ! j#}"] conjI allI)
    have "xs ! j \<in># rest_of i xs"
    proof (cases "j < i")
      case True
      then have "xs ! j = take i xs ! j" "j < length (take i xs)" using assms by simp_all
      then show ?thesis unfolding rest_of_def by (metis nth_mem set_mset_mset union_iff)
    next
      case False
      then have "xs ! j = drop (Suc i) xs ! (j - Suc i)" "j - Suc i < length (drop (Suc i) xs)" using assms by (simp_all add: nth_drop)
      then show ?thesis unfolding rest_of_def by (metis nth_mem set_mset_mset union_iff)
    qed
    then show e: "rest_of i xs = add_mset (xs ! j) (rest_of i xs - {#xs ! j#})" by simp
    fix v
    have "add_mset (xs ! i) (rest_of i (xs[j := v])) = add_mset v (rest_of j xs)"
      using assms mset_put [OF assms(3), of v] mset_nth [of i "xs[j := v]"] by simp
    moreover have "rest_of j xs = add_mset (xs ! i) (rest_of i xs - {#xs ! j#})" using m e by (metis add_mset_commute add_mset_remove_trivial)
    ultimately show "rest_of i (xs[j := v]) = add_mset v (rest_of i xs - {#xs ! j#})" by (simp add: add_mset_commute)
  qed
qed
lemma take_over:
  assumes w: "world_ok n s" and ij: "i < length (ms_vars s)" "j < length (ms_vars s)" "i \<noteq> j" and z: "owns_nothing z"
    and h: "refs_ok (rest_of i (ms_vars s)) (held (ms_engines s)) (held (ms_bufs s)) h'" "keeps (ms_heap s) h'" "same_data (ms_heap s) h'"
  shows "world_ok n (s\<lparr>ms_vars := (ms_vars s)[i := ms_vars s ! j, j := z], ms_heap := h'\<rparr>)"
    "vals (s\<lparr>ms_vars := (ms_vars s)[i := ms_vars s ! j, j := z], ms_heap := h'\<rparr>) = (vals s)[i := vals s ! j, j := msg_val h' z]"
proof -
  let ?v = "(ms_vars s)[i := ms_vars s ! j, j := z]"
  have "mset ?v = add_mset z (rest_of i (ms_vars s))" using ij rest_taken(1) [of i j "ms_vars s"] by (simp add: mset_put)
  then have r: "refs_ok (mset ?v) (held (ms_engines s)) (held (ms_bufs s)) h'" using h(1) z by (simp add: idle_refs)
  then show "world_ok n (s\<lparr>ms_vars := ?v, ms_heap := h'\<rparr>)" using w h(3) by (simp add: world_ok_def same_data_def)
  have "map (msg_val h') ?v = (vals s)[i := vals s ! j, j := msg_val h' z]"
  proof (rule nth_equalityI)
    fix p assume p: "p < length (map (msg_val h') ?v)"
    have "p \<noteq> i \<Longrightarrow> p \<noteq> j \<Longrightarrow> msg_val h' (?v ! p) = msg_val (ms_heap s) (ms_vars s ! p)"
      using p by (intro vals_kept [OF world_refs [OF w] r h(2)]) auto
    moreover have "msg_val h' (?v ! i) = msg_val (ms_heap s) (ms_vars s ! j)"
      using ij by (intro vals_kept [OF world_refs [OF w] r h(2)]) auto
    ultimately show "map (msg_val h') ?v ! p = (vals s)[i := vals s ! j, j := msg_val h' z] ! p"
      using p ij by (cases "p = j"; cases "p = i") auto
  qed simp
  then show "vals (s\<lparr>ms_vars := ?v, ms_heap := h'\<rparr>) = (vals s)[i := vals s ! j, j := msg_val h' z]" by (simp add: vals_def)
qed

lemma move_sound:
  assumes w: "world_ok n s" and ij: "i < length (ms_vars s)" "j < length (ms_vars s)"
  shows "step_sound n (Move_Msg i j) s"
proof (cases "msg_check (ms_vars s ! j) \<and> msg_check (ms_vars s ! i)")
  case False
  then show ?thesis
    by (intro step_soundI [where r = "Some EFAULT" and s' = s])
      (use ij world_more [OF w, of "Suc n"] in \<open>auto simp: msg_step_def msg_move_def var_close_refused val_step_def op_size_def given_def Let_def\<close>)
next
  case True
  from var_close_eq [OF w ij(1)] True obtain m h' where h: "var_close i s = Some (None, put_msg i (m, h') s)"
    "refs_ok (rest_of i (ms_vars s)) (held (ms_engines s)) (held (ms_bufs s)) h'" "keeps (ms_heap s) h'" "same_data (ms_heap s) h'" by blast
  show ?thesis
  proof (cases "i = j")
    case same: True
    have r: "refs_ok (add_mset msg_init (rest_of i (ms_vars s))) (held (ms_engines s)) (held (ms_bufs s)) h'" using h(2) by (simp add: idle_refs)
    note p = world_put [OF w ij(1) r h(3) frameD [OF h(4), THEN conjunct1]]
    have e: "msg_move i j s = Some (None, put_msg i (msg_init, h') s)"
      using True h(1) same by (simp add: msg_move_def put_msg_def put_var_def)
    show ?thesis
      by (rule step_soundI [where r = None and s' = "put_msg i (msg_init, h') s"])
        (use p e frameD [OF h(4)] True ij same in \<open>simp_all add: msg_step_def val_step_def op_size_def given_def Let_def\<close>)
  next
    case False
    let ?s = "s\<lparr>ms_vars := (ms_vars s)[i := ms_vars s ! j, j := msg_init], ms_heap := h'\<rparr>"
    note p = take_over [OF w ij False idle_init(3) h(2-4)]
    have e: "msg_move i j s = Some (None, ?s)" using True h(1) ij False by (simp add: msg_move_def put_msg_def put_var_def)
    show ?thesis
      by (rule step_soundI [where r = None and s' = ?s])
        (use p(2) e world_more [OF p(1), of "Suc n"] frameD [OF h(4)] True ij in \<open>simp_all add: msg_step_def val_step_def op_size_def given_def Let_def\<close>)
  qed
qed

lemma receive_sound:
  assumes w: "world_ok n s" and ij: "i < length (ms_vars s)" "j < length (ms_vars s)" "i \<noteq> j" and c: "msg_check (ms_vars s ! i)"
  shows "step_sound n (Receive_Msg i j) s"
proof -
  from var_close_eq [OF w ij(1) c] obtain m h' where h: "var_close i s = Some (None, put_msg i (m, h') s)"
    "refs_ok (rest_of i (ms_vars s)) (held (ms_engines s)) (held (ms_bufs s)) h'" "keeps (ms_heap s) h'" "same_data (ms_heap s) h'" by blast
  let ?z = "init_body Closed"
  let ?s = "s\<lparr>ms_vars := (ms_vars s)[i := ms_vars s ! j, j := ?z], ms_heap := h'\<rparr>"
  have z: "owns_nothing ?z" by (simp add: owns_nothing_def init_body_def content_of_def)
  note p = take_over [OF w ij z h(2-4)]
  have e: "receive_msg i j s = Some ?s" using h(1) ij by (simp add: receive_msg_def put_msg_def put_var_def)
  show ?thesis
    by (rule step_soundI [where r = None and s' = ?s])
      (use p(2) e world_more [OF p(1), of "Suc n"] frameD [OF h(4)] in \<open>simp_all add: msg_step_def val_step_def op_size_def given_def Let_def\<close>)
qed

lemma copy_sound:
  assumes w: "world_ok n s" and ij: "i < length (ms_vars s)" "j < length (ms_vars s)" "i \<noteq> j" and n: "n + 3 < 2 ^ 32"
  shows "step_sound n (Copy_Msg i j) s"
proof (cases "msg_check (ms_vars s ! j) \<and> msg_check (ms_vars s ! i)")
  case False
  then show ?thesis
    by (intro step_soundI [where r = "Some EFAULT" and s' = s])
      (use ij world_more [OF w, of "Suc n"] in \<open>auto simp: msg_step_def msg_copy_def var_close_refused val_step_def op_size_def given_def Let_def\<close>)
next
  case True
  from var_close_eq [OF w ij(1)] True obtain m h' where h: "var_close i s = Some (None, put_msg i (m, h') s)"
    "refs_ok (rest_of i (ms_vars s)) (held (ms_engines s)) (held (ms_bufs s)) h'" "keeps (ms_heap s) h'" "same_data (ms_heap s) h'" by blast
  from rest_taken(2) [OF ij(3,1,2)] obtain R where R: "rest_of i (ms_vars s) = add_mset (ms_vars s ! j) R" "\<And>v. rest_of i ((ms_vars s)[j := v]) = add_mset v R"
    by blast
  have "Suc (size R) < length (ms_vars s)" using size_rest [OF ij(1)] R(1) by simp
  then have sz: "size R + size (held (ms_engines s)) + 2 < 2 ^ 32" using w n size_held [of "ms_engines s"] by (simp add: world_ok_def)
  from share_ok [OF h(2) [unfolded R(1)] _ sz] True obtain m' h1 h2 h3 where c: "share_content (ms_vars s ! j) h' = Some (m', h1)" "share_meta m' h1 = Some h2"
    "share_group m' h2 = Some h3" "m' = ms_vars s ! j \<or> m' = set_shared (ms_vars s ! j)"
    "refs_ok (add_mset m' (add_mset m' R)) (held (ms_engines s)) (held (ms_bufs s)) h3" "keeps h' h3" by blast
  let ?v = "(ms_vars s)[j := m', i := m']"
  let ?s = "s\<lparr>ms_vars := ?v, ms_heap := h3\<rparr>"
  have e: "msg_copy i j s = Some (None, ?s)"
    using True h(1) ij c(1-3) by (simp add: msg_copy_def put_msg_def put_var_def list_update_swap)
  have r: "refs_ok (mset ?v) (held (ms_engines s)) (held (ms_bufs s)) h3" using c(5) R(2) [of m'] ij by (simp add: mset_put)
  have k: "keeps (ms_heap s) h3" by (rule keeps_trans [OF h(3) c(6)])
  have fr: "same_data (ms_heap s) h3"
    using h(4) frame_share_content [OF c(1)] frame_share_meta [OF c(2)] frame_share_group [OF c(3)] by (simp add: same_data_def)
  have "map (msg_val h3) ?v = (vals s)[i := vals s ! j]"
  proof (rule nth_equalityI)
    fix p assume p: "p < length (map (msg_val h3) ?v)"
    have "p \<noteq> i \<Longrightarrow> msg_val h3 (?v ! p) = msg_val (ms_heap s) (ms_vars s ! p)"
      using p ij c(4) by (intro vals_kept [OF world_refs [OF w] r k]) (cases "p = j"; auto)+
    moreover have "msg_val h3 (?v ! i) = msg_val (ms_heap s) (ms_vars s ! j)"
      using ij c(4) by (intro vals_kept [OF world_refs [OF w] r k]) auto
    ultimately show "map (msg_val h3) ?v ! p = (vals s)[i := vals s ! j] ! p"
      using p ij by (cases "p = i") auto
  qed simp
  then have v: "vals ?s = (vals s)[i := vals s ! j]" by (simp add: vals_def)
  have "world_ok (Suc n) ?s" using w r fr by (auto simp: world_ok_def same_data_def)
  then show ?thesis
    using e v True ij frameD [OF fr]
    by (intro step_soundI [where r = None and s' = ?s]) (simp_all add: msg_step_def val_step_def op_size_def given_def Let_def)
qed


lemma body_val_heap: "mh_content h' = mh_content h \<Longrightarrow> body_val h' b = body_val h b"
  by (cases b) (simp_all add: body_val_def bytes_at_def)

lemma msg_val_heap:
  assumes "mh_content h' = mh_content h" "mh_group h' = mh_group h"
  shows "msg_val h' m = msg_val h m"
  using body_val_heap [OF assms(1)] assms(2) by (cases "r_group m") (simp_all add: msg_val_def group_val_def)

lemma msg_val_group:
  assumes "msg_check m" "mh_content h' = mh_content h"
  shows "msg_val h' (m\<lparr>r_group := x\<rparr>) = (msg_val h m)\<lparr>r_group := Short (group_val h' x)\<rparr>"
  using assms body_val_heap [OF assms(2)] by (simp add: msg_val_def msg_check_def)

lemma meta_sound:
  assumes w: "world_ok n s" and i: "i < length (ms_vars s)"
  shows "step_sound n (Reset_Meta i) s"
    "n + 3 < 2 ^ 32 \<Longrightarrow> msg_check (ms_vars s ! i) \<Longrightarrow> r_meta (ms_vars s ! i) = None \<Longrightarrow> k < length (ms_engines s) \<Longrightarrow> step_sound n (Attach_Meta i k) s"
proof -
  have v: "(vals s)[i := msg_val (ms_heap s) (ms_vars s ! i)] = vals s"
    using i vals_nth(1) [of i s] by (metis list_update_id)
  have vv: "msg_val h' ((ms_vars s ! i)\<lparr>r_meta := x\<rparr>) = msg_val (ms_heap s) (ms_vars s ! i)"
    if "refs_ok (add_mset ((ms_vars s ! i)\<lparr>r_meta := x\<rparr>) (rest_of i (ms_vars s))) E B h'" "keeps (ms_heap s) h'" "mh_content h' = mh_content (ms_heap s)"
      "mh_group h' = mh_group (ms_heap s)" for h' x E B
    using msg_val_heap [OF that(3,4)] by simp
  from reset_metadata_ok [OF world_var [OF w i]] obtain h' where h: "reset_metadata (ms_vars s ! i) (ms_heap s) = Some ((ms_vars s ! i)\<lparr>r_meta := None\<rparr>, h')"
    "refs_ok (add_mset ((ms_vars s ! i)\<lparr>r_meta := None\<rparr>) (rest_of i (ms_vars s))) (held (ms_engines s)) (held (ms_bufs s)) h'" "keeps (ms_heap s) h'" by blast
  have f: "same_data (ms_heap s) h'" "mh_content h' = mh_content (ms_heap s)" "mh_group h' = mh_group (ms_heap s)"
    using h(1) by (auto simp: reset_metadata_def drop_meta_def intro: frame_same split: option.splits)
  note p = world_put [OF w i h(2,3) frameD [OF f(1), THEN conjunct1]]
  show "step_sound n (Reset_Meta i) s"
    by (rule step_soundI [where r = None and s' = "put_msg i ((ms_vars s ! i)\<lparr>r_meta := None\<rparr>, h') s"])
      (use p h(1) frameD [OF f(1)] vv [OF h(2,3) f(2,3)] v in \<open>simp_all add: msg_step_def reset_metadata_of_def val_step_def op_size_def given_def Let_def\<close>)
  assume n: "n + 3 < 2 ^ 32" and c: "msg_check (ms_vars s ! i)" "r_meta (ms_vars s ! i) = None" and k: "k < length (ms_engines s)"
  show "step_sound n (Attach_Meta i k) s"
  proof (cases "ms_engines s ! k")
    case None
    then show ?thesis
      by (intro step_soundI [where r = None and s' = s])
        (use world_more [OF w, of "Suc n"] in \<open>simp_all add: msg_step_def set_metadata_of_def val_step_def op_size_def given_def Let_def\<close>)
  next
    case (Some a)
    have E: "held (ms_engines s) = add_mset a (held_rest k (ms_engines s))" using held_nth [OF k] Some by simp
    have "size (rest_of i (ms_vars s)) + size (held_rest k (ms_engines s)) + 2 < 2 ^ 32"
      using size_rest [OF i] size_held [of "ms_engines s"] E w n by (simp add: world_ok_def)
    from set_metadata_ok [OF world_var [OF w i, unfolded E] c(2,1) this] obtain h2 where
      h2: "set_metadata a (ms_vars s ! i) (ms_heap s) = Some ((ms_vars s ! i)\<lparr>r_meta := Some a\<rparr>, h2)"
      "refs_ok (add_mset ((ms_vars s ! i)\<lparr>r_meta := Some a\<rparr>) (rest_of i (ms_vars s))) (held (ms_engines s)) (held (ms_bufs s)) h2" "keeps (ms_heap s) h2"
      unfolding E by blast
    have f2: "same_data (ms_heap s) h2" "mh_content h2 = mh_content (ms_heap s)" "mh_group h2 = mh_group (ms_heap s)"
      using h2(1) by (auto simp: set_metadata_def intro: frame_same split: if_splits)
    note p2 = world_put [OF w i h2(2,3) frameD [OF f2(1), THEN conjunct1]]
    show ?thesis
      by (rule step_soundI [where r = None and s' = "put_msg i ((ms_vars s ! i)\<lparr>r_meta := Some a\<rparr>, h2) s"])
        (use p2 h2(1) frameD [OF f2(1)] vv [OF h2(2,3) f2(2,3)] v Some in \<open>simp_all add: msg_step_def set_metadata_of_def val_step_def op_size_def given_def Let_def\<close>)
  qed
qed

lemma group_sound:
  assumes w: "world_ok n s" and i: "i < length (ms_vars s)" "short_group (ms_vars s ! i)"
  shows "step_sound n (Set_Group i g) s"
proof -
  obtain q m h' where e: "set_group g (ms_vars s ! i) (ms_heap s) = (q, m, h')" by (metis prod_cases3)
  obtain g0 where m: "msg_check (ms_vars s ! i)" "r_group (ms_vars s ! i) = Short g0" using i(2) by (auto simp: short_group_def split: msg_group.splits)
  have r: "refs_ok (add_mset m (rest_of i (ms_vars s))) (held (ms_engines s)) (held (ms_bufs s)) h'" "keeps (ms_heap s) h'"
    using set_group_ok [OF world_var [OF w i(1)] m e] by auto
  have f: "same_data (ms_heap s) h'" using e by (auto simp: set_group_def intro: frame_same split: if_splits)
  have v: "msg_val h' m = (if 255 < length g then msg_val (ms_heap s) (ms_vars s ! i) else (msg_val (ms_heap s) (ms_vars s ! i))\<lparr>r_group := Short g\<rparr>)"
    "q = (if 255 < length g then Some EINVAL else None)"
    using e m by (auto simp: set_group_def msg_val_group group_val_def block_append split: if_splits)
  have vs: "(vals s)[i := msg_val (ms_heap s) (ms_vars s ! i)] = vals s"
    using i vals_nth(1) [of i s] by (metis list_update_id)
  note p = world_put [OF w i(1) r frameD [OF f, THEN conjunct1]]
  show ?thesis
    by (rule step_soundI [where r = q and s' = "put_msg i (m, h') s"])
      (use p e frameD [OF f] v vs i(1) in \<open>simp_all add: msg_step_def val_step_def op_size_def given_def Let_def\<close>)
qed
text \<open>Sending: the message is in the pipes now, the variable is fresh.\<close>

lemma handed_out:
  assumes w: "world_ok n s" and i: "i < length (ms_vars s)" and m: "m' = ms_vars s ! i \<or> m' = set_shared (ms_vars s ! i)"
    and r: "refs_ok (replicate_mset k m' + rest_of i (ms_vars s)) (held (ms_engines s)) (held (ms_bufs s)) h'" and h: "keeps (ms_heap s) h'" "same_data (ms_heap s) h'"
  shows "world_ok (n + k) (s\<lparr>ms_vars := (ms_vars s)[i := msg_init] @ replicate k m', ms_heap := h'\<rparr>)"
    "vals (s\<lparr>ms_vars := (ms_vars s)[i := msg_init] @ replicate k m', ms_heap := h'\<rparr>) = (vals s)[i := msg_init] @ replicate k (vals s ! i)"
proof -
  let ?v = "(ms_vars s)[i := msg_init] @ replicate k m'"
  have r': "refs_ok (mset ?v) (held (ms_engines s)) (held (ms_bufs s)) h'" using r i by (simp add: mset_put idle_refs add.commute)
  then show "world_ok (n + k) (s\<lparr>ms_vars := ?v, ms_heap := h'\<rparr>)" using w h(2) by (simp add: world_ok_def same_data_def)
  have "map (msg_val h') ?v = (vals s)[i := msg_init] @ replicate k (vals s ! i)"
  proof (rule nth_equalityI)
    fix p assume p: "p < length (map (msg_val h') ?v)"
    have "p < length (ms_vars s) \<Longrightarrow> p \<noteq> i \<Longrightarrow> msg_val h' (?v ! p) = msg_val (ms_heap s) (ms_vars s ! p)"
      using p by (intro vals_kept [OF world_refs [OF w] r' h(1)]) (auto simp: nth_append)
    moreover have "\<not> p < length (ms_vars s) \<Longrightarrow> msg_val h' (?v ! p) = msg_val (ms_heap s) (ms_vars s ! i)"
      using p i m by (intro vals_kept [OF world_refs [OF w] r' h(1)]) (auto simp: nth_append)
    ultimately show "map (msg_val h') ?v ! p = ((vals s)[i := msg_init] @ replicate k (vals s ! i)) ! p"
      using p i by (cases "p < length (ms_vars s)"; cases "p = i") (auto simp: nth_append)
  qed simp
  then show "vals (s\<lparr>ms_vars := ?v, ms_heap := h'\<rparr>) = (vals s)[i := msg_init] @ replicate k (vals s ! i)" by (simp add: vals_def)
qed

lemma reset_for_send:
  assumes w: "world_ok n s" and i: "i < length (ms_vars s)"
  shows "\<exists>h'. reset_metadata_of i s = Some (put_msg i ((ms_vars s ! i)\<lparr>r_meta := None\<rparr>, h') s) \<and>
    world_ok n (put_msg i ((ms_vars s ! i)\<lparr>r_meta := None\<rparr>, h') s) \<and> vals (put_msg i ((ms_vars s ! i)\<lparr>r_meta := None\<rparr>, h') s) = vals s \<and>
    owed h' = owed (ms_heap s)"
proof -
  from reset_metadata_ok [OF world_var [OF w i]] obtain h' where h: "reset_metadata (ms_vars s ! i) (ms_heap s) = Some ((ms_vars s ! i)\<lparr>r_meta := None\<rparr>, h')"
    "refs_ok (add_mset ((ms_vars s ! i)\<lparr>r_meta := None\<rparr>) (rest_of i (ms_vars s))) (held (ms_engines s)) (held (ms_bufs s)) h'" "keeps (ms_heap s) h'" by blast
  have f: "same_data (ms_heap s) h'" "mh_content h' = mh_content (ms_heap s)" "mh_group h' = mh_group (ms_heap s)"
    using h(1) by (auto simp: reset_metadata_def drop_meta_def intro: frame_same split: option.splits)
  have "(vals s)[i := msg_val (ms_heap s) (ms_vars s ! i)] = vals s" using i vals_nth(1) [of i s] by (metis list_update_id)
  then show ?thesis
    using world_put [OF w i h(2,3) frameD [OF f(1), THEN conjunct1]] h(1) f msg_val_heap [OF f(2,3)]
    by (intro exI [of _ h']) (simp add: reset_metadata_of_def same_data_def)
qed

lemma put_msg_var [simp]: "i < length (ms_vars s) \<Longrightarrow> ms_vars (put_msg i mh s) ! i = fst mh" "length (ms_vars (put_msg i mh s)) = length (ms_vars s)"
  by (simp_all add: put_msg_def put_var_def)

lemma send_sound:
  assumes w: "world_ok n s" and i: "i < length (ms_vars s)"
  shows "step_sound n (Send_Msg i) s"
proof -
  from reset_for_send [OF w i] obtain h1 s1 where s1: "reset_metadata_of i s = Some s1" "world_ok n s1" "vals s1 = vals s" "owed (ms_heap s1) = owed (ms_heap s)"
    "s1 = put_msg i ((ms_vars s ! i)\<lparr>r_meta := None\<rparr>, h1) s" by auto
  have i1: "i < length (ms_vars s1)" using i s1(5) by simp
  have r: "refs_ok (replicate_mset 1 (ms_vars s1 ! i) + rest_of i (ms_vars s1)) (held (ms_engines s1)) (held (ms_bufs s1)) (ms_heap s1)"
    using world_var [OF s1(2) i1] by simp
  let ?s = "s1\<lparr>ms_vars := (ms_vars s1)[i := msg_init] @ replicate 1 (ms_vars s1 ! i), ms_heap := ms_heap s1\<rparr>"
  note p = handed_out [OF s1(2) i1 disjI1 [OF refl] r keeps_refl frame_refl]
  have e: "send_msg i s = Some ?s" using s1(1) i1 by (simp add: send_msg_def put_var_def list_update_append1)
  show ?thesis
    by (rule step_soundI [where r = None and s' = ?s])
      (use p e s1(3,4) in \<open>simp_all add: msg_step_def val_step_def op_size_def given_def Let_def\<close>)
qed

lemma replicate_mset_split: "replicate_mset (a + b) x = replicate_mset a x + replicate_mset b x"
  by (induction a) simp_all

lemma publish_sound:
  assumes w: "world_ok n s" and i: "i < length (ms_vars s)" "short_group (ms_vars s ! i)" and n: "n + length oks + 3 < 2 ^ 32"
  shows "step_sound n (Publish_Msg i oks) s"
proof -
  from reset_for_send [OF w i(1)] obtain h1 s1 where s1: "reset_metadata_of i s = Some s1" "world_ok n s1" "vals s1 = vals s" "owed (ms_heap s1) = owed (ms_heap s)"
    "s1 = put_msg i ((ms_vars s ! i)\<lparr>r_meta := None\<rparr>, h1) s" by auto
  let ?m = "ms_vars s1 ! i"
  have i1: "i < length (ms_vars s1)" using i s1(5) by simp
  have m: "plain ?m" using i s1(5) by (auto simp: plain_def short_group_def msg_check_def split: msg_group.splits)
  let ?k = "length (filter id oks)" and ?f = "length (filter Not oks)"
  have kf: "?k + ?f = length oks" using sum_length_filter_compl [of id oks] by simp
  have "\<exists>m' h'. distribute i oks s1 = Some (s1\<lparr>ms_vars := (ms_vars s1)[i := msg_init] @ replicate ?k m', ms_heap := h'\<rparr>) \<and>
      (m' = ?m \<or> m' = set_shared ?m) \<and> refs_ok (replicate_mset ?k m' + rest_of i (ms_vars s1)) (held (ms_engines s1)) (held (ms_bufs s1)) h' \<and>
      keeps (ms_heap s1) h' \<and> same_data (ms_heap s1) h'"
  proof (cases "oks = []")
    case True
    have c: "msg_check ?m" using m by (simp add: plain_def)
    from var_close_eq [OF s1(2) i1 c] obtain mm h' where h: "var_close i s1 = Some (None, put_msg i (mm, h') s1)"
      "refs_ok (rest_of i (ms_vars s1)) (held (ms_engines s1)) (held (ms_bufs s1)) h'" "keeps (ms_heap s1) h'" "same_data (ms_heap s1) h'" by blast
    then show ?thesis using True by (intro exI [of _ ?m] exI [of _ h']) (simp add: distribute_def put_msg_def put_var_def)
  next
    case ne: False
    show ?thesis
    proof (cases "is_vsm ?m")
      case True
      then have "content_of ?m = None" by (auto simp: is_vsm_def content_of_def split: msg_body.splits)
      then have d: "owns_nothing ?m" by (rule plain_idle [OF m])
      have "refs_ok (replicate_mset ?k ?m + rest_of i (ms_vars s1)) (held (ms_engines s1)) (held (ms_bufs s1)) (ms_heap s1)"
        using world_var [OF s1(2) i1] idle_refs [OF d] idle_replicate [OF d] by blast
      then show ?thesis using True ne i1
        by (intro exI [of _ ?m] exI [of _ "ms_heap s1"]) (simp add: distribute_def put_var_def write_copies_def list_update_append1 Let_def)
    next
      case False
      have lens: "size (rest_of i (ms_vars s1)) < n" using size_rest [OF i1] s1(2) unfolding world_ok_def by linarith
      have sz: "size (rest_of i (ms_vars s1)) + (length oks - 1) + 1 < 2 ^ 32" using lens n by linarith
      from add_refs_ok [OF world_var [OF s1(2) i1] m sz] obtain m' h2 where a: "add_refs (length oks - 1) ?m (ms_heap s1) = Some (m', h2)"
        "m' = ?m \<and> (length oks - 1 = 0 \<or> content_of ?m = None) \<or> m' = set_shared ?m \<and> 0 < length oks - 1"
        "refs_ok (replicate_mset (length oks) m' + rest_of i (ms_vars s1)) (held (ms_engines s1)) (held (ms_bufs s1)) h2" "keeps (ms_heap s1) h2"
        using ne by auto
      have m': "plain m'" "m' = ?m \<or> m' = set_shared ?m" using a(2) m by auto
      have "\<exists>h'. (if ?f = 0 then Some h2 else rm_refs ?f m' h2) = Some h' \<and>
          refs_ok (replicate_mset ?k m' + rest_of i (ms_vars s1)) (held (ms_engines s1)) (held (ms_bufs s1)) h' \<and> keeps h2 h' \<and> same_data h2 h'"
      proof (cases "?f = 0")
        case True
        then show ?thesis using a(3) kf by simp
      next
        case f: False
        have r: "refs_ok (replicate_mset ?f m' + (replicate_mset ?k m' + rest_of i (ms_vars s1))) (held (ms_engines s1)) (held (ms_bufs s1)) h2"
          using a(3) unfolding kf [symmetric] replicate_mset_split by (simp add: add_ac)
        have "length oks - 1 = 0 \<Longrightarrow> ?f = 1" using f kf by linarith
        then have c: "content_of m' = None \<or> is_shared m' \<or> ?f = 1" using a(2) by auto
        have z: "size (replicate_mset ?k m' + rest_of i (ms_vars s1)) + ?f < 2 ^ 32" using sz kf ne by simp
        from rm_refs_ok [OF r m'(1) _ c z] f obtain h' where h: "rm_refs ?f m' h2 = Some h'"
          "refs_ok (replicate_mset ?k m' + rest_of i (ms_vars s1)) (held (ms_engines s1)) (held (ms_bufs s1)) h'" "keeps h2 h'" by auto
        then show ?thesis using f frame_rm_refs [OF h(1)] by simp
      qed
      then obtain h' where h: "(if ?f = 0 then Some h2 else rm_refs ?f m' h2) = Some h'"
        "refs_ok (replicate_mset ?k m' + rest_of i (ms_vars s1)) (held (ms_engines s1)) (held (ms_bufs s1)) h'" "keeps h2 h'" "same_data h2 h'" by blast
      have "distribute i oks s1 = Some (s1\<lparr>ms_vars := (ms_vars s1)[i := msg_init] @ replicate ?k m', ms_heap := h'\<rparr>)"
        using ne False a(1) h(1) i1 by (simp add: distribute_def put_var_def write_copies_def list_update_append1 Let_def)
      moreover have "keeps (ms_heap s1) h'" "same_data (ms_heap s1) h'"
        using keeps_trans [OF a(4) h(3)] frame_trans [OF frame_add_refs [OF a(1)] h(4)] by auto
      ultimately show ?thesis using h(2) m'(2) by blast
    qed
  qed
  then obtain m' h' where d: "distribute i oks s1 = Some (s1\<lparr>ms_vars := (ms_vars s1)[i := msg_init] @ replicate ?k m', ms_heap := h'\<rparr>)"
      "m' = ?m \<or> m' = set_shared ?m" "refs_ok (replicate_mset ?k m' + rest_of i (ms_vars s1)) (held (ms_engines s1)) (held (ms_bufs s1)) h'"
      "keeps (ms_heap s1) h'" "same_data (ms_heap s1) h'" by blast
  note p = handed_out [OF s1(2) i1 d(2-5)]
  show ?thesis
    by (rule step_soundI [where r = None and s' = "s1\<lparr>ms_vars := (ms_vars s1)[i := msg_init] @ replicate ?k m', ms_heap := h'\<rparr>"])
      (use world_more [OF p(1), of "n + length oks"] p(2) d(1,5) s1(1,3,4) kf in \<open>simp_all add: msg_step_def val_step_def op_size_def given_def same_data_def Let_def\<close>)
qed


lemma in_buffer_sound:
  assumes w: "world_ok n s" and i: "i < length (ms_vars s)" "vacant (ms_vars s ! i)" and k: "k < length (ms_bufs s)" "ms_bufs s ! k \<noteq> None"
    and n: "n + 3 < 2 ^ 32"
  shows "step_sound n (Init_In_Buffer i bs k) s"
proof -
  obtain b where b: "ms_bufs s ! k = Some b" using k(2) by blast
  have B: "held (ms_bufs s) = add_mset b (held_rest k (ms_bufs s))" using held_nth [OF k(1)] b by simp
  have r: "refs_ok (rest_of i (ms_vars s)) (held (ms_engines s)) (add_mset b (held_rest k (ms_bufs s))) (ms_heap s)"
    using world_var [OF w i(1)] idle_refs [OF vacant_idle [OF i(2)]] unfolding B by blast
  have "size (add_mset b (held_rest k (ms_bufs s))) \<le> length (ms_bufs s)" using size_held [of "ms_bufs s"] B by simp
  then have sz: "length (mh_content (ms_heap s)) + size (held_rest k (ms_bufs s)) + 2 < 2 ^ 32" using w n by (simp add: world_ok_def)
  from init_in_buffer_ok [OF r sz] obtain m h' where h: "init_in_buffer bs b (ms_heap s) = Some (m, h')"
    "refs_ok (add_mset m (rest_of i (ms_vars s))) (held (ms_engines s)) (held (ms_bufs s)) h'" "keeps (ms_heap s) h'" unfolding B by blast
  have l: "length (mh_content h') \<le> Suc (length (mh_content (ms_heap s)))" "owed h' = owed (ms_heap s)" "msg_val h' m = init_body (Vsm bs)"
    using h(1) by (auto simp: init_in_buffer_def init_external_storage_def new_content_def owed_def user_data_def split: if_splits)
      (auto simp: msg_val_def init_body_def msg_check_def body_val_def bytes_at_def block_append group_val_def)
  show ?thesis by (rule step_soundI [where r = None and s' = "put_msg i (m, h') s"])
    (use world_put [OF w i(1) h(2,3) l(1)] l h(1) b in \<open>simp_all add: msg_step_def val_step_def op_size_def given_def Let_def\<close>)
qed

text \<open>Holders: the messages stay as they are.\<close>

lemma holder_sound:
  assumes w: "world_ok n s" and r: "refs_ok (mset (ms_vars s)) (held es) (held bs) h'" and f: "mh_content h' = mh_content (ms_heap s)"
      "mh_group h' = mh_group (ms_heap s)" "mh_freed h' = mh_freed (ms_heap s)"
    and l: "length es \<le> Suc (length (ms_engines s))" "length bs \<le> Suc (length (ms_bufs s))"
    and e: "msg_step x s = Some (None, s\<lparr>ms_engines := es, ms_bufs := bs, ms_heap := h'\<rparr>)" "op_size x = 1" "val_step x (vals s) = (None, vals s)" "given x = {#}"
  shows "step_sound n x s"
proof (rule step_soundI [OF e(1)])
  show "world_ok (n + op_size x) (s\<lparr>ms_engines := es, ms_bufs := bs, ms_heap := h'\<rparr>)" using w r f(1) l e(2) by (simp add: world_ok_def)
  have "map (msg_val h') (ms_vars s) = map (msg_val (ms_heap s)) (ms_vars s)" using msg_val_heap [OF f(1,2)] by simp
  then show "val_step x (vals s) = (None, vals (s\<lparr>ms_engines := es, ms_bufs := bs, ms_heap := h'\<rparr>))" using e(3) by (simp add: vals_def)
qed (use e(4) f in \<open>simp add: owed_def\<close>)

lemma drop_engine_ok:
  assumes "refs_ok M (add_mset a E) B h"
  shows "\<exists>xs. drop_ref (mh_meta h) a = Some xs \<and> refs_ok M E B (h\<lparr>mh_meta := xs\<rparr>)"
proof -
  note p = assms [unfolded refs_ok_parts]
  let ?f = "\<lambda>b. tally (in_meta b) M + tally ((=) b) (add_mset a E)"
  have "?f a = Suc (tally (in_meta a) M + tally ((=) a) E)" by simp
  from drop_ref_counted [of ?f, OF _ this] p obtain xs where x: "drop_ref (mh_meta h) a = Some xs"
    "\<forall>b. counted ((?f(a := tally (in_meta a) M + tally ((=) a) E)) b) (block xs b)" unfolding metas_ok_def by blast
  have "metas_ok M E xs"
    unfolding metas_ok_def
  proof
    fix b show "counted (tally (in_meta b) M + tally ((=) b) E) (block xs b)" using x(2) [rule_format, of b] by (cases "b = a") auto
  qed
  then have "refs_ok M E B (h\<lparr>mh_meta := xs\<rparr>)" using p by (simp add: refs_ok_parts buffers_ok_def)
  then show ?thesis using x(1) by blast
qed

lemma new_engine_ok:
  assumes "refs_ok M E B h"
  shows "refs_ok M (add_mset (length (mh_meta h)) E) B (h\<lparr>mh_meta := mh_meta h @ [Some 1]\<rparr>)"
proof -
  note p = assms [unfolded refs_ok_parts]
  have "tally (in_meta (length (mh_meta h))) M + tally ((=) (length (mh_meta h))) E = 0"
    using p by (auto simp: metas_ok_def block_def dest: spec [of _ "length (mh_meta h)"])
  then show ?thesis using p by (auto simp: refs_ok_parts metas_ok_def buffers_ok_def block_append)
qed

lemma new_msg_sound:
  assumes w: "world_ok n s"
  shows "step_sound n New_Msg s"
proof -
  let ?s = "s\<lparr>ms_vars := ms_vars s @ [msg_init]\<rparr>"
  have "world_ok (Suc n) ?s" using w by (simp add: world_ok_def idle_refs)
  then show ?thesis
    by (intro step_soundI [where r = None and s' = ?s]) (simp_all add: msg_step_def val_step_def op_size_def given_def vals_def Let_def)
qed

lemma engine_sound:
  assumes w: "world_ok n s"
  shows "step_sound n New_Engine s" "k < length (ms_engines s) \<Longrightarrow> step_sound n (Drop_Engine k) s"
proof -
  show "step_sound n New_Engine s"
    by (rule holder_sound [OF w, where bs = "ms_bufs s"])
      (use new_engine_ok [OF world_refs [OF w]] in \<open>simp_all add: msg_step_def new_engine_def val_step_def op_size_def given_def Let_def\<close>)
  assume k: "k < length (ms_engines s)"
  show "step_sound n (Drop_Engine k) s"
  proof (cases "ms_engines s ! k")
    case None
    then show ?thesis
      by (intro holder_sound [OF w world_refs [OF w]]) (simp_all add: msg_step_def drop_engine_def val_step_def op_size_def given_def Let_def)
  next
    case (Some a)
    have r: "refs_ok (mset (ms_vars s)) (add_mset a (held_rest k (ms_engines s))) (held (ms_bufs s)) (ms_heap s)"
      using world_refs [OF w] held_nth [OF k] Some by simp
    from drop_engine_ok [OF r] obtain xs where x: "drop_ref (mh_meta (ms_heap s)) a = Some xs"
      "refs_ok (mset (ms_vars s)) (held_rest k (ms_engines s)) (held (ms_bufs s)) ((ms_heap s)\<lparr>mh_meta := xs\<rparr>)" by blast
    show ?thesis
      by (rule holder_sound [OF w, where bs = "ms_bufs s" and es = "(ms_engines s)[k := None]"])
        (use x held_put [OF k, of None] Some in \<open>simp_all add: msg_step_def drop_engine_def val_step_def op_size_def given_def Let_def\<close>)
  qed
qed

lemma decoder_sound:
  assumes w: "world_ok n s"
  shows "step_sound n New_Decoder s" "k < length (ms_bufs s) \<Longrightarrow> step_sound n (Allocate k) s" "k < length (ms_bufs s) \<Longrightarrow> step_sound n (Deallocate k) s"
proof -
  show "step_sound n New_Decoder s"
    by (rule holder_sound [OF w, where es = "ms_engines s" and bs = "ms_bufs s @ [None]" and h' = "ms_heap s"])
      (use world_refs [OF w] in \<open>simp_all add: msg_step_def val_step_def op_size_def given_def Let_def\<close>)
  assume k: "k < length (ms_bufs s)"
  note r = world_refs [OF w, unfolded held_nth [OF k]]
  from allocate_ok [OF r] obtain a h' where h: "alloc_allocate (ms_bufs s ! k) (ms_heap s) = Some (Some a, h')"
    "refs_ok (mset (ms_vars s)) (held (ms_engines s)) (add_mset a (held_rest k (ms_bufs s))) h'" by blast
  have f: "mh_content h' = mh_content (ms_heap s)" "mh_group h' = mh_group (ms_heap s)" "mh_freed h' = mh_freed (ms_heap s)"
    using h(1) by (auto simp: alloc_allocate_def Let_def split: option.splits if_splits)
  show "step_sound n (Allocate k) s"
    by (rule holder_sound [OF w _ f, where es = "ms_engines s" and bs = "(ms_bufs s)[k := Some a]"])
      (use h held_put [OF k, of "Some a"] in \<open>simp_all add: msg_step_def put_buf_def val_step_def op_size_def given_def Let_def\<close>)
  from deallocate_ok [OF r] obtain h2 where h2: "alloc_deallocate (ms_bufs s ! k) (ms_heap s) = Some (None, h2)"
    "refs_ok (mset (ms_vars s)) (held (ms_engines s)) (held_rest k (ms_bufs s)) h2" by blast
  have f2: "mh_content h2 = mh_content (ms_heap s)" "mh_group h2 = mh_group (ms_heap s)" "mh_freed h2 = mh_freed (ms_heap s)"
    using h2(1) by (auto simp: alloc_deallocate_def split: option.splits)
  show "step_sound n (Deallocate k) s"
    by (rule holder_sound [OF w _ f2, where es = "ms_engines s" and bs = "(ms_bufs s)[k := None]"])
      (use h2 held_put [OF k, of None] in \<open>simp_all add: msg_step_def put_buf_def val_step_def op_size_def given_def Let_def\<close>)
qed
section \<open>Any sequence of operations\<close>

lemma step_fits_sound:
  assumes w: "world_ok n s" and f: "msg_fits x s" and n: "n + op_size x + 3 < 2 ^ 32"
  shows "step_sound n x s"
proof (cases x)
  case (Init_Data i bs g)
  then show ?thesis using init_sound(2) [OF w] f by (auto simp: msg_fits_def Let_def split: free_fn.splits)
qed (use f n init_sound(1) [OF w] new_msg_sound [OF w] in_buffer_sound [OF w] close_sound [OF w] move_sound [OF w] copy_sound [OF w]
    meta_sound [OF w] group_sound [OF w] send_sound [OF w] publish_sound [OF w] receive_sound [OF w] engine_sound [OF w] decoder_sound [OF w]
    in \<open>auto simp: msg_fits_def op_size_def Let_def\<close>)

definition given_all :: "msg_op list \<Rightarrow> nat multiset" where
  "given_all xs = \<Sum>\<^sub># (image_mset given (mset xs))"

lemma run_sound:
  "world_ok n s \<Longrightarrow> fits_run xs s \<Longrightarrow> n + sum_list (map op_size xs) + 3 < 2 ^ 32 \<Longrightarrow>
    \<exists>rs s'. msg_run xs s = Some (rs, s') \<and> world_ok (n + sum_list (map op_size xs)) s' \<and> val_run xs (vals s) = (rs, vals s') \<and>
      owed (ms_heap s') = given_all xs + owed (ms_heap s)"
proof (induction xs arbitrary: n s)
  case Nil
  then show ?case by (simp add: given_all_def)
next
  case (Cons x xs)
  have "step_sound n x s" by (rule step_fits_sound) (use Cons.prems in auto)
  then obtain r s1 where s1: "msg_step x s = Some (r, s1)" "world_ok (n + op_size x) s1" "val_step x (vals s) = (r, vals s1)"
    "owed (ms_heap s1) = given x + owed (ms_heap s)" by (auto simp: step_sound_def)
  from Cons.IH [OF s1(2)] Cons.prems s1(1) obtain rs s' where "msg_run xs s1 = Some (rs, s')"
    "world_ok (n + op_size x + sum_list (map op_size xs)) s'" "val_run xs (vals s1) = (rs, vals s')" "owed (ms_heap s') = given_all xs + owed (ms_heap s1)"
    by (auto simp: add.assoc)
  then show ?case using s1 by (simp add: given_all_def add_ac)
qed

lemma no_msgs_ok: "world_ok 0 no_msgs" "vals no_msgs = []" "owed (ms_heap no_msgs) = {#}"
  by (simp_all add: world_ok_def no_msgs_def refs_ok_def block_def content_ok_def vals_def owed_def)

text \<open>What is left when every message is closed and the holders are gone: nothing.\<close>

definition all_gone :: "msgs \<Rightarrow> bool" where
  "all_gone s \<longleftrightarrow> (\<forall>m \<in> set (ms_vars s). \<not> msg_check m) \<and> (\<forall>e \<in> set (ms_engines s). e = None) \<and> (\<forall>b \<in> set (ms_bufs s). b = None)"

definition no_blocks :: "msg_heap \<Rightarrow> bool" where
  "no_blocks h \<longleftrightarrow> (\<forall>c \<in> set (mh_content h). c = None) \<and> (\<forall>b \<in> set (mh_buffer h). b = None) \<and> (\<forall>m \<in> set (mh_meta h). m = None) \<and>
     (\<forall>g \<in> set (mh_group h). g = None)"

lemma blocks_none: "(\<And>a. block xs a = None) \<Longrightarrow> x \<in> set xs \<Longrightarrow> x = None"
  by (metis block_def in_set_conv_nth)

lemma held_none: "\<forall>e \<in> set es. e = None \<Longrightarrow> held es = {#}"
  by (induction es) (auto simp: held_def)

lemma world_gone:
  assumes w: "world_ok n s" and g: "all_gone s"
  shows "no_blocks (ms_heap s)" "owed (ms_heap s) = mset (mh_freed (ms_heap s))"
proof -
  let ?M = "mset (ms_vars s)" and ?h = "ms_heap s"
  have h: "held (ms_engines s) = {#}" "held (ms_bufs s) = {#}" using g by (simp_all add: all_gone_def held_none)
  note p = world_refs [OF w, unfolded refs_ok_parts h]
  have c: "\<not> msg_check m \<and> content_of m = None \<and> r_meta m = None" if "m \<in># ?M" for m
  proof -
    have "\<not> msg_check m" "msg_ok (mh_content ?h) m" using that g p by (simp_all add: all_gone_def)
    then show ?thesis by (simp add: msg_check_def content_of_def msg_ok_def)
  qed
  have t: "tally (in_shared a) ?M = 0" "tally (in_alone a) ?M = 0" "tally (in_meta a) ?M = 0" "tally (in_group a) ?M = 0" for a
    using c by (auto simp: tally_0 in_shared_def in_alone_def in_meta_def in_group_def)
  have C: "block (mh_content ?h) a = None" for a
    using p t by (auto simp: contents_ok_def content_ok_def split: option.splits)
  then have cs: "x = None" if "x \<in> set (mh_content ?h)" for x using that by (rule blocks_none)
  have "tally (in_buffer b) (mset (mh_content ?h)) = 0" for b using cs by (auto simp: tally_0 in_buffer_def)
  then have B: "block (mh_buffer ?h) b = None" for b using p by (auto simp: buffers_ok_def counted_def split: option.splits)
  have M: "block (mh_meta ?h) a = None" for a using p t by (auto simp: metas_ok_def counted_def split: option.splits)
  have "counted 0 (map_option snd (block (mh_group ?h) a))" for a using p t(4) [of a] unfolding groups_ok_def by metis
  then have "map_option snd (block (mh_group ?h) a) = None" for a by (metis counted_simps(2) less_irrefl not_None_eq)
  then have G: "block (mh_group ?h) a = None" for a by simp
  show "no_blocks ?h" using blocks_none [OF C] blocks_none [OF B] blocks_none [OF M] blocks_none [OF G] by (simp add: no_blocks_def)
  have "image_mset user_data (mset (mh_content ?h)) = image_mset (\<lambda>c. {#}) (mset (mh_content ?h))"
  proof (rule image_mset_cong)
    fix c assume "c \<in># mset (mh_content ?h)"
    then have "c = None" using cs by simp
    then show "user_data c = {#}" by (simp add: user_data_def)
  qed
  then show "owed ?h = mset (mh_freed ?h)" by (simp add: owed_def)
qed

section \<open>What goes wrong\<close>

text \<open>Groups of more than 14 characters are not counted by \<open>add_refs\<close>; a shorter group is written over the pointer of a longer one;
  a message copied onto itself is closed first.\<close>

definition long_group_name :: bytes where
  "long_group_name = ''a group of more''"

lemma long_group_freed_twice:
  "msg_run [New_Msg, Set_Group 0 long_group_name, Publish_Msg 0 [True, True], Close_Msg 1, Close_Msg 2] no_msgs = None"
  by code_simp

lemma group_overwritten:
  "msg_run [New_Msg, Set_Group 0 long_group_name, Set_Group 0 ''another'', Close_Msg 0] no_msgs = None"
  "\<exists>rs s. msg_run [New_Msg, Set_Group 0 long_group_name, Set_Group 0 ''other''] no_msgs = Some (rs, s) \<and> r_group (vals s ! 0) = Short long_group_name"
   apply code_simp
  by (intro exI conjI, code_simp, code_simp)

lemma self_copy_frees: "msg_run [New_Msg, Set_Group 0 long_group_name, Copy_Msg 0 0] no_msgs = None"
  by code_simp


section \<open>An example\<close>

text \<open>A message in a receive buffer is copied and published, user data is sent on, and all is closed again.\<close>

definition sample_msgs :: "msg_op list" where
  "sample_msgs = [New_Decoder, Allocate 0, New_Engine, New_Msg, Init_In_Buffer 0 (replicate 40 CHR ''z'') 0, Attach_Meta 0 0, New_Msg,
     Copy_Msg 1 0, Publish_Msg 0 [True, False, True], Close_Msg 0, Init_Data 0 ''user data'' (User_Fn 7), Send_Msg 0, Allocate 0,
     Receive_Msg 0 2, Move_Msg 1 0, Close_Msg 0, Close_Msg 1, Close_Msg 3, Close_Msg 4, Drop_Engine 0, Deallocate 0]"

lemma sample_msgs_fit: "fits_run sample_msgs no_msgs" "sum_list (map op_size sample_msgs) + 3 < 2 ^ 32"
   apply code_simp
  by (simp add: sample_msgs_def op_size_def)

end
