(* ===== verification/ZmqMailbox.thy ===== *)
theory ZmqMailbox
  imports ZmqYpipe
begin

text \<open>
  The mailbox through which threads send each other commands (\<open>3rd/zeromq/src/mailbox.cpp\<close>, \<open>signaler.cpp\<close>): any number of senders,
  which take turns under a lock, and one receiver, on the lock-free queue of \<open>ZmqYpipe\<close>. A step of a thread makes at most one access
  to what the threads share. The file descriptor of the signaler is the number of signals in it.
\<close>

section \<open>The mailbox and its threads\<close>

text \<open>Where a sender is in \<open>send\<close>: it holds the lock from \<open>S_Locked\<close> to \<open>S_Unlock\<close>, which says what \<open>flush\<close> returned. Where the receiver is in \<open>recv\<close>:
  \<open>R_Check\<close> and \<open>R_First\<close> are its two calls of \<open>read\<close>.\<close>

datatype 'v send_pc = S_Idle | S_Locked 'v | S_Written | S_Waking | S_Unlock bool | S_Signal

datatype recv_pc = R_Idle | R_Check | R_Take | R_Wait | R_Signal | R_First

record 'v mailbox =
  mb_cpipe :: "'v ypipe"
  mb_signals :: nat
  mb_lock :: bool
  mb_active :: bool
  mb_senders :: "'v send_pc list"
  mb_receiver :: recv_pc

text \<open>\<open>recv\<close> fails with \<open>EAGAIN\<close> or \<open>EINTR\<close> (\<open>Again\<close>) or gives a command.\<close>

datatype 'v mb_res = Going | Again | Got 'v

definition mb_new :: "nat \<Rightarrow> addr \<Rightarrow> addr \<Rightarrow> nat \<Rightarrow> 'v mailbox option" where
  "mb_new n a b k = Option.bind (yp_new n a b) (\<lambda>p. case yp_check_read p of (ok, p') \<Rightarrow>
     if ok then None
     else Some \<lparr>mb_cpipe = p', mb_signals = 0, mb_lock = False, mb_active = False, mb_senders = replicate k S_Idle, mb_receiver = R_Idle\<rparr>)"

definition put_sender :: "nat \<Rightarrow> 'v send_pc \<Rightarrow> 'v mailbox \<Rightarrow> 'v mailbox" where
  "put_sender i c m = m\<lparr>mb_senders := (mb_senders m)[i := c]\<rparr>"

section \<open>Sending\<close>

definition send_write :: "nat \<Rightarrow> nat \<Rightarrow> addr \<Rightarrow> 'v mailbox \<Rightarrow> 'v mailbox option" where
  "send_write n i a m = (case mb_senders m ! i of
       S_Locked v \<Rightarrow> map_option (\<lambda>p. put_sender i S_Written (m\<lparr>mb_cpipe := p\<rparr>)) (yp_write n a v False (mb_cpipe m))
     | _ \<Rightarrow> None)"

definition send_flush :: "nat \<Rightarrow> 'v mailbox \<Rightarrow> 'v mailbox" where
  "send_flush i m = (case yp_flush_cas (mb_cpipe m) of
       (Some b, p) \<Rightarrow> put_sender i (S_Unlock b) (m\<lparr>mb_cpipe := p\<rparr>)
     | (None, p) \<Rightarrow> put_sender i S_Waking (m\<lparr>mb_cpipe := p\<rparr>))"

definition send_unlock :: "nat \<Rightarrow> 'v mailbox \<Rightarrow> 'v mailbox" where
  "send_unlock i m = put_sender i (if mb_senders m ! i = S_Unlock True then S_Idle else S_Signal) (m\<lparr>mb_lock := False\<rparr>)"

definition signaler_send :: "'v mailbox \<Rightarrow> 'v mailbox" where
  "signaler_send m = m\<lparr>mb_signals := mb_signals m + 1\<rparr>"

section \<open>Receiving\<close>

definition recv_check :: "'v mailbox \<Rightarrow> 'v mailbox option" where
  "recv_check m = (case yp_check_read (mb_cpipe m) of
       (True, p) \<Rightarrow> Some (m\<lparr>mb_cpipe := p, mb_receiver := R_Take\<rparr>)
     | (False, p) \<Rightarrow> if mb_receiver m = R_First then None
                    else Some (m\<lparr>mb_cpipe := p, mb_active := False, mb_receiver := R_Wait\<rparr>))"

definition recv_take :: "nat \<Rightarrow> 'v mailbox \<Rightarrow> ('v mb_res \<times> 'v mailbox) option" where
  "recv_take n m = map_option (\<lambda>(v, p). (Got v, m\<lparr>mb_cpipe := p, mb_receiver := R_Idle\<rparr>)) (yp_take n (mb_cpipe m))"

text \<open>\<open>signaler_t::wait\<close> returns because there is a signal, or else.\<close>

definition signaler_wait :: "bool \<Rightarrow> 'v mailbox \<Rightarrow> 'v mb_res \<times> 'v mailbox" where
  "signaler_wait b m = (if b then (Going, m\<lparr>mb_receiver := R_Signal\<rparr>) else (Again, m\<lparr>mb_receiver := R_Idle\<rparr>))"

definition recv_failable :: "'v mailbox \<Rightarrow> 'v mb_res \<times> 'v mailbox" where
  "recv_failable m =
     (if mb_signals m = 0 then (Again, m\<lparr>mb_receiver := R_Idle\<rparr>)
      else (Going, m\<lparr>mb_signals := mb_signals m - 1, mb_active := True, mb_receiver := R_First\<rparr>))"

section \<open>Steps\<close>

datatype 'v mb_act = Lock nat 'v | Write_Cmd nat addr | Cas_Cmd nat | Wake_Reader nat | Unlock nat | Signal nat
  | Recv | Check_Cmd | Take_Cmd | Wait_Signal bool | Take_Signal

definition mb_enabled :: "'v mb_act \<Rightarrow> 'v mailbox \<Rightarrow> bool" where
  "mb_enabled x m =
     (let at = (\<lambda>i P. i < length (mb_senders m) \<and> P (mb_senders m ! i)); r = mb_receiver m
      in case x of
       Lock i v \<Rightarrow> at i (\<lambda>c. c = S_Idle) \<and> \<not> mb_lock m
     | Write_Cmd i a \<Rightarrow> at i (\<lambda>c. case c of S_Locked v \<Rightarrow> True | _ \<Rightarrow> False) \<and> yq_mem (yp_queue (mb_cpipe m)) a = None
     | Cas_Cmd i \<Rightarrow> at i (\<lambda>c. c = S_Written)
     | Wake_Reader i \<Rightarrow> at i (\<lambda>c. c = S_Waking)
     | Unlock i \<Rightarrow> at i (\<lambda>c. case c of S_Unlock b \<Rightarrow> True | _ \<Rightarrow> False)
     | Signal i \<Rightarrow> at i (\<lambda>c. c = S_Signal)
     | Recv \<Rightarrow> r = R_Idle
     | Check_Cmd \<Rightarrow> r = R_Check \<or> r = R_First
     | Take_Cmd \<Rightarrow> r = R_Take
     | Wait_Signal b \<Rightarrow> r = R_Wait \<and> (b \<longrightarrow> 0 < mb_signals m)
     | Take_Signal \<Rightarrow> r = R_Signal)"

text \<open>\<open>None\<close> is a failed assertion or an access to memory that is not allocated.\<close>

definition mb_step :: "nat \<Rightarrow> 'v mb_act \<Rightarrow> 'v mailbox \<Rightarrow> ('v mb_res \<times> 'v mailbox) option" where
  "mb_step n x m = (let go = map_option (Pair Going) in case x of
       Lock i v \<Rightarrow> go (Some (put_sender i (S_Locked v) (m\<lparr>mb_lock := True\<rparr>)))
     | Write_Cmd i a \<Rightarrow> go (send_write n i a m)
     | Cas_Cmd i \<Rightarrow> go (Some (send_flush i m))
     | Wake_Reader i \<Rightarrow> go (Some (put_sender i (S_Unlock False) (m\<lparr>mb_cpipe := yp_flush_set (mb_cpipe m)\<rparr>)))
     | Unlock i \<Rightarrow> go (Some (send_unlock i m))
     | Signal i \<Rightarrow> go (Some (put_sender i S_Idle (signaler_send m)))
     | Recv \<Rightarrow> go (Some (m\<lparr>mb_receiver := if mb_active m then R_Check else R_Wait\<rparr>))
     | Check_Cmd \<Rightarrow> go (recv_check m)
     | Take_Cmd \<Rightarrow> recv_take n m
     | Wait_Signal b \<Rightarrow> Some (signaler_wait b m)
     | Take_Signal \<Rightarrow> Some (recv_failable m))"

text \<open>What a step puts into the mailbox, and what it takes out.\<close>

definition cmd_put :: "'v mb_act \<Rightarrow> 'v mailbox \<Rightarrow> 'v list" where
  "cmd_put x m = (case x of Write_Cmd i a \<Rightarrow> (case mb_senders m ! i of S_Locked v \<Rightarrow> [v] | _ \<Rightarrow> []) | _ \<Rightarrow> [])"

definition cmd_got :: "'v mb_res \<Rightarrow> 'v list" where
  "cmd_got y = (case y of Got v \<Rightarrow> [v] | _ \<Rightarrow> [])"

inductive mb_reach :: "nat \<Rightarrow> 'v mailbox \<Rightarrow> 'v list \<Rightarrow> 'v list \<Rightarrow> bool" where
  mb_start: "\<lbrakk>mb_new n a b k = Some m; 0 < n; a \<noteq> b\<rbrakk> \<Longrightarrow> mb_reach n m [] []"
| mb_next: "\<lbrakk>mb_reach n m sent got; mb_enabled x m; mb_step n x m = Some (y, m')\<rbrakk>
    \<Longrightarrow> mb_reach n m' (sent @ cmd_put x m) (got @ cmd_got y)"

text \<open>The receiver alone, until \<open>recv\<close> returns.\<close>

definition recv_act :: "'v mailbox \<Rightarrow> 'v mb_act" where
  "recv_act m = (case mb_receiver m of R_Idle \<Rightarrow> Recv | R_Check \<Rightarrow> Check_Cmd | R_Take \<Rightarrow> Take_Cmd
     | R_Wait \<Rightarrow> Wait_Signal (0 < mb_signals m) | R_Signal \<Rightarrow> Take_Signal | R_First \<Rightarrow> Check_Cmd)"

fun mb_recv :: "nat \<Rightarrow> nat \<Rightarrow> 'v mailbox \<Rightarrow> ('v mb_res \<times> 'v mailbox) option" where
  "mb_recv n 0 m = Some (Going, m)"
| "mb_recv n (Suc k) m = (case mb_step n (recv_act m) m of None \<Rightarrow> None
     | Some (Going, m') \<Rightarrow> mb_recv n k m'
     | Some (y, m') \<Rightarrow> Some (y, m'))"
section \<open>The invariant\<close>

definition holds_lock :: "'v send_pc \<Rightarrow> bool" where
  "holds_lock c = (case c of S_Idle \<Rightarrow> False | S_Signal \<Rightarrow> False | _ \<Rightarrow> True)"

definition wrote :: "'v send_pc \<Rightarrow> bool" where
  "wrote c = (case c of S_Written \<Rightarrow> True | S_Waking \<Rightarrow> True | _ \<Rightarrow> False)"

definition will_signal :: "'v send_pc \<Rightarrow> bool" where
  "will_signal c \<longleftrightarrow> (case c of S_Unlock b \<Rightarrow> \<not> b | S_Signal \<Rightarrow> True | _ \<Rightarrow> False)"

definition how_many :: "('v send_pc \<Rightarrow> bool) \<Rightarrow> 'v mailbox \<Rightarrow> nat" where
  "how_many P m = length (filter P (mb_senders m))"

text \<open>Either the reader is active, or asleep, or a signal is there or about to be sent, one in all.\<close>

definition mb_ok :: "nat \<Rightarrow> 'v mailbox \<Rightarrow> 'v spsc \<Rightarrow> bool" where
  "mb_ok n m t \<longleftrightarrow> yp_sim n (mb_cpipe m) t \<and> sq_part t = [] \<and>
     how_many holds_lock m = of_bool (mb_lock m) \<and>
     length (sq_complete t) = how_many wrote m \<and>
     (0 < how_many (\<lambda>c. c = S_Waking) m \<longrightarrow> sq_asleep t) \<and>
     mb_signals m + how_many will_signal m = of_bool (\<not> mb_active m \<and> \<not> sq_asleep t) \<and>
     (sq_asleep t \<longrightarrow> sq_ready t = [] \<and> \<not> mb_active m) \<and>
     (\<not> mb_active m \<and> \<not> sq_asleep t \<longrightarrow> sq_ready t \<noteq> []) \<and>
     (mb_receiver m = R_Signal \<longrightarrow> 0 < mb_signals m) \<and>
     (mb_receiver m = R_First \<longrightarrow> sq_ready t \<noteq> []) \<and>
     (mb_receiver m = R_Take \<longrightarrow> yp_found (mb_cpipe m)) \<and>
     (mb_receiver m \<in> {R_Wait, R_Signal} \<longrightarrow> \<not> mb_active m) \<and>
     (mb_receiver m \<in> {R_Check, R_Take, R_First} \<longrightarrow> mb_active m)"

lemma mb_okD:
  assumes "mb_ok n m t"
  shows "yp_sim n (mb_cpipe m) t" "sq_part t = []" "how_many holds_lock m = of_bool (mb_lock m)"
    "length (sq_complete t) = how_many wrote m" "0 < how_many (\<lambda>c. c = S_Waking) m \<longrightarrow> sq_asleep t"
    "mb_signals m + how_many will_signal m = of_bool (\<not> mb_active m \<and> \<not> sq_asleep t)"
    "sq_asleep t \<longrightarrow> sq_ready t = [] \<and> \<not> mb_active m"
    "\<not> mb_active m \<and> \<not> sq_asleep t \<longrightarrow> sq_ready t \<noteq> []"
    "mb_receiver m = R_Signal \<longrightarrow> 0 < mb_signals m" "mb_receiver m = R_First \<longrightarrow> sq_ready t \<noteq> []"
    "mb_receiver m = R_Take \<longrightarrow> yp_found (mb_cpipe m)" "mb_receiver m \<in> {R_Wait, R_Signal} \<longrightarrow> \<not> mb_active m"
    "mb_receiver m \<in> {R_Check, R_Take, R_First} \<longrightarrow> mb_active m"
  using assms unfolding mb_ok_def by blast+

lemma how_many_put:
  assumes "i < length (mb_senders m)"
  shows "how_many P (put_sender i c m) + of_bool (P (mb_senders m ! i)) = how_many P m + of_bool (P c)"
proof -
  have "length (filter P (xs[j := c])) + of_bool (P (xs ! j)) = length (filter P xs) + of_bool (P c)" if "j < length xs" for xs j
    using that
  proof (induction xs arbitrary: j)
    case (Cons x xs)
    then show ?case by (cases j) auto
  qed simp
  then show ?thesis using assms by (simp add: how_many_def put_sender_def)
qed

lemma how_many_one: "\<lbrakk>i < length (mb_senders m); P (mb_senders m ! i)\<rbrakk> \<Longrightarrow> 0 < how_many P m"
  by (auto simp: how_many_def filter_empty_conv)

text \<open>The holder of the lock is the only one.\<close>

lemma how_many_le: "(\<And>c. P c \<Longrightarrow> Q c) \<Longrightarrow> how_many P m \<le> how_many Q m"
proof -
  assume "\<And>c. P c \<Longrightarrow> Q c"
  then have "length (filter P xs) \<le> length (filter Q xs)" for xs by (induction xs) auto
  then show ?thesis by (simp add: how_many_def)
qed

lemma how_many_same [simp]:
  "how_many P (m\<lparr>mb_cpipe := p\<rparr>) = how_many P m" "how_many P (m\<lparr>mb_signals := k\<rparr>) = how_many P m"
  "how_many P (m\<lparr>mb_lock := l\<rparr>) = how_many P m" "how_many P (m\<lparr>mb_active := l\<rparr>) = how_many P m"
  "how_many P (m\<lparr>mb_receiver := r\<rparr>) = how_many P m"
  by (simp_all add: how_many_def)

lemma put_sender_sel [simp]:
  "mb_cpipe (put_sender i c m) = mb_cpipe m" "mb_signals (put_sender i c m) = mb_signals m"
  "mb_lock (put_sender i c m) = mb_lock m" "mb_active (put_sender i c m) = mb_active m"
  "mb_receiver (put_sender i c m) = mb_receiver m"
  by (simp_all add: put_sender_def)

text \<open>What the invariant says when one sender moves from \<open>c0\<close> to \<open>c\<close>.\<close>

lemma sender_moves:
  assumes "i < length (mb_senders m)" "mb_senders m ! i = c0" "mb_senders m' = mb_senders m"
  shows "how_many P (put_sender i c m') + of_bool (P c0) = how_many P m + of_bool (P c)"
    and "P c0 \<Longrightarrow> 0 < how_many P m"
proof -
  have "how_many P m' = how_many P m" using assms(3) by (simp add: how_many_def)
  then show "how_many P (put_sender i c m') + of_bool (P c0) = how_many P m + of_bool (P c)"
    using how_many_put [of i m' P c] assms by simp
  show "P c0 \<Longrightarrow> 0 < how_many P m" using how_many_one [of i m P] assms by simp
qed

lemma waking_wrote: "how_many (\<lambda>c. c = S_Waking) m \<le> how_many wrote m"
  by (rule how_many_le) (simp add: wrote_def)

lemma wrote_locked: "how_many wrote m \<le> how_many holds_lock m"
  by (rule how_many_le) (auto simp: wrote_def holds_lock_def split: send_pc.splits)

lemmas pc_simps = wrote_def holds_lock_def will_signal_def

text \<open>A sender does not touch what the receiver looks at once it has found a command.\<close>

lemma yp_found_kept: "yp_write n a v i p = Some p' \<Longrightarrow> yp_found p' = yp_found p" "yp_found (yp_flush_set p) = yp_found p"
  by (auto simp: yp_found_def yp_flush_set_def yp_write_def yq_push_def yq_link_def Let_def yq_front_def split: bind_splits if_splits option.splits)

section \<open>Every step keeps it\<close>

definition mb_keeps :: "nat \<Rightarrow> 'v mb_act \<Rightarrow> 'v mailbox \<Rightarrow> 'v spsc \<Rightarrow> bool" where
  "mb_keeps n x m t \<longleftrightarrow> (\<exists>y m' t'. mb_step n x m = Some (y, m') \<and> mb_ok n m' t' \<and>
     sq_ready t @ sq_complete t @ cmd_put x m = cmd_got y @ sq_ready t' @ sq_complete t')"

lemma mb_keepsI:
  assumes "mb_ok n m' t'" "mb_step n x m = Some (Going, m')" "sq_ready t @ sq_complete t @ cmd_put x m = sq_ready t' @ sq_complete t'"
  shows "mb_keeps n x m t"
  using assms unfolding mb_keeps_def cmd_got_def by fastforce

lemma lock_keeps:
  assumes ok: "mb_ok n m t" and en: "mb_enabled (Lock i v) m"
  shows "mb_keeps n (Lock i v) m t"
proof -
  let ?m = "put_sender i (S_Locked v) (m\<lparr>mb_lock := True\<rparr>)"
  have i: "i < length (mb_senders m)" "mb_senders m ! i = S_Idle" "\<not> mb_lock m" using en by (auto simp: mb_enabled_def)
  have s: "how_many P ?m + of_bool (P S_Idle) = how_many P m + of_bool (P (S_Locked v))" for P :: "'a send_pc \<Rightarrow> bool"
    by (rule sender_moves) (use i in auto)
  have "mb_ok n ?m t" using ok i(3) s [of holds_lock] s [of wrote] s [of will_signal] s [of "\<lambda>c. c = S_Waking"]
    by (auto simp: mb_ok_def pc_simps)
  then show ?thesis by (rule mb_keepsI) (simp_all add: mb_step_def cmd_put_def)
qed

lemma send_write_keeps:
  assumes ok: "mb_ok n m t" and en: "mb_enabled (Write_Cmd i a) m"
  shows "mb_keeps n (Write_Cmd i a) m t"
proof -
  obtain v where i: "i < length (mb_senders m)" "mb_senders m ! i = S_Locked v" "a \<notin> dom (yq_mem (yp_queue (mb_cpipe m)))"
    using en by (auto simp: mb_enabled_def domIff split: send_pc.splits)
  obtain p where p: "yp_write n a v False (mb_cpipe m) = Some p" "yp_sim n p (sq_write v False t)"
    using yp_write_sim [of n "mb_cpipe m" t a v False] ok i(3) unfolding mb_ok_def by blast
  let ?m = "put_sender i S_Written (m\<lparr>mb_cpipe := p\<rparr>)"
  have s: "how_many P ?m + of_bool (P (S_Locked v)) = how_many P m + of_bool (P S_Written)"
    and l: "P (S_Locked v) \<Longrightarrow> 0 < how_many P m" for P :: "'a send_pc \<Rightarrow> bool"
    by (rule sender_moves; use i in auto)+
  note d = mb_okD [OF ok]
  have "mb_ok n ?m (sq_write v False t)" unfolding mb_ok_def
  proof (intro conjI)
    show "yp_sim n (mb_cpipe ?m) (sq_write v False t)" using p(2) by simp
    show "how_many holds_lock ?m = of_bool (mb_lock ?m)" using s [of holds_lock] d(3) by (simp add: pc_simps)
    show "length (sq_complete (sq_write v False t)) = how_many wrote ?m" using s [of wrote] d(2,4) by (simp add: pc_simps sq_write_def)
    show "0 < how_many (\<lambda>c. c = S_Waking) ?m \<longrightarrow> sq_asleep (sq_write v False t)" using s [of "\<lambda>c. c = S_Waking"] d(5) by (simp add: sq_write_def)
    show "mb_signals ?m + how_many will_signal ?m = of_bool (\<not> mb_active ?m \<and> \<not> sq_asleep (sq_write v False t))"
      using s [of will_signal] d(6) by (simp add: pc_simps sq_write_def)
  qed (use d(7-13) yp_found_kept(1) [OF p(1)] in \<open>simp_all add: sq_write_def\<close>)
  then show ?thesis
    by (rule mb_keepsI) (use i p(1) d(2) in \<open>simp_all add: mb_step_def send_write_def cmd_put_def sq_write_def\<close>)
qed

lemma cas_keeps:
  assumes ok: "mb_ok n m t" and en: "mb_enabled (Cas_Cmd i) m"
  shows "mb_keeps n (Cas_Cmd i) m t"
proof -
  have i: "i < length (mb_senders m)" "mb_senders m ! i = S_Written" using en by (auto simp: mb_enabled_def)
  note d = mb_okD [OF ok]
  note sim = d(1)
  have s: "how_many P (put_sender i c (m\<lparr>mb_cpipe := p\<rparr>)) + of_bool (P S_Written) = how_many P m + of_bool (P c)"
    and l: "P S_Written \<Longrightarrow> 0 < how_many P m" for P :: "'a send_pc \<Rightarrow> bool" and c p
    by (rule sender_moves; use i in auto)+
  have "0 < how_many wrote m" by (rule l) (simp add: wrote_def)
  then have ne: "sq_complete t \<noteq> []" using d(4) by auto
  show ?thesis
  proof (cases "sq_asleep t")
    case True
    let ?m = "put_sender i S_Waking (m\<lparr>mb_cpipe := mb_cpipe m\<rparr>)"
    have "mb_ok n ?m t" unfolding mb_ok_def
    proof (intro conjI)
      show "how_many holds_lock ?m = of_bool (mb_lock ?m)" using s [of holds_lock S_Waking "mb_cpipe m"] d(3) by (simp add: pc_simps)
      show "length (sq_complete t) = how_many wrote ?m" using s [of wrote S_Waking "mb_cpipe m"] d(4) by (simp add: pc_simps)
      show "mb_signals ?m + how_many will_signal ?m = of_bool (\<not> mb_active ?m \<and> \<not> sq_asleep t)"
        using s [of will_signal S_Waking "mb_cpipe m"] d(6) by (simp add: pc_simps)
    qed (use d True in simp_all)
    then show ?thesis
      by (rule mb_keepsI) (use ne True yp_flush_cas_sim [OF sim] in \<open>simp_all add: mb_step_def send_flush_def cmd_put_def\<close>)
  next
    case False
    let ?m = "put_sender i (S_Unlock True) (m\<lparr>mb_cpipe := yp_flush_set (mb_cpipe m)\<rparr>)"
    have w: "how_many wrote m = 1" "how_many (\<lambda>c. c = S_Waking) m = 0"
      using \<open>0 < how_many wrote m\<close> wrote_locked [of m] d(3,5) False by (cases "mb_lock m"; auto)+
    have "mb_ok n ?m (sq_move t)" unfolding mb_ok_def
    proof (intro conjI)
      show "yp_sim n (mb_cpipe ?m) (sq_move t)" using yp_flush_set_sim [OF sim] by simp
      show "how_many holds_lock ?m = of_bool (mb_lock ?m)" using s [of holds_lock "S_Unlock True"] d(3) by (simp add: pc_simps)
      show "length (sq_complete (sq_move t)) = how_many wrote ?m" using s [of wrote "S_Unlock True"] w(1) by (simp add: pc_simps sq_move_def)
      show "0 < how_many (\<lambda>c. c = S_Waking) ?m \<longrightarrow> sq_asleep (sq_move t)" using s [of "\<lambda>c. c = S_Waking" "S_Unlock True"] w(2) by simp
      show "mb_signals ?m + how_many will_signal ?m = of_bool (\<not> mb_active ?m \<and> \<not> sq_asleep (sq_move t))"
        using s [of will_signal "S_Unlock True"] d(6) False by (simp add: pc_simps sq_move_def)
    qed (use d False ne in \<open>simp_all add: sq_move_def yp_found_kept(2)\<close>)
    then show ?thesis
      by (rule mb_keepsI) (use ne False yp_flush_cas_sim [OF sim] in \<open>simp_all add: mb_step_def send_flush_def cmd_put_def sq_move_def\<close>)
  qed
qed


lemma wake_keeps:
  assumes ok: "mb_ok n m t" and en: "mb_enabled (Wake_Reader i) m"
  shows "mb_keeps n (Wake_Reader i) m t"
proof -
  let ?m = "put_sender i (S_Unlock False) (m\<lparr>mb_cpipe := yp_flush_set (mb_cpipe m)\<rparr>)"
  have i: "i < length (mb_senders m)" "mb_senders m ! i = S_Waking" using en by (auto simp: mb_enabled_def)
  note d = mb_okD [OF ok]
  have s: "how_many P ?m + of_bool (P S_Waking) = how_many P m + of_bool (P (S_Unlock False))"
    and l: "P S_Waking \<Longrightarrow> 0 < how_many P m" for P :: "'a send_pc \<Rightarrow> bool"
    by (rule sender_moves; use i in auto)+
  have w: "0 < how_many (\<lambda>c. c = S_Waking) m" "0 < how_many wrote m" by (rule l, simp add: wrote_def)+
  have w1: "how_many wrote m = 1" "how_many (\<lambda>c. c = S_Waking) m = 1"
    using w wrote_locked [of m] waking_wrote [of m] d(3) by (cases "mb_lock m"; auto)+
  have z: "sq_asleep t" "sq_complete t \<noteq> []" "sq_ready t = []" "\<not> mb_active m" using d(4,5,7) w w1 by auto
  have "mb_ok n ?m (sq_move t)" unfolding mb_ok_def
  proof (intro conjI)
    show "yp_sim n (mb_cpipe ?m) (sq_move t)" using yp_flush_set_sim [OF d(1)] by simp
    show "how_many holds_lock ?m = of_bool (mb_lock ?m)" using s [of holds_lock] d(3) by (simp add: pc_simps)
    show "length (sq_complete (sq_move t)) = how_many wrote ?m" using s [of wrote] w1(1) by (simp add: pc_simps sq_move_def)
    show "0 < how_many (\<lambda>c. c = S_Waking) ?m \<longrightarrow> sq_asleep (sq_move t)" using s [of "\<lambda>c. c = S_Waking"] w1(2) by simp
    show "mb_signals ?m + how_many will_signal ?m = of_bool (\<not> mb_active ?m \<and> \<not> sq_asleep (sq_move t))"
      using s [of will_signal] d(6) z by (simp add: pc_simps sq_move_def)
  qed (use d(2,7-13) z in \<open>simp_all add: sq_move_def yp_found_kept(2)\<close>)
  then show ?thesis by (rule mb_keepsI) (simp_all add: mb_step_def cmd_put_def sq_move_def)
qed

lemma unlock_keeps:
  assumes ok: "mb_ok n m t" and en: "mb_enabled (Unlock i) m"
  shows "mb_keeps n (Unlock i) m t"
proof -
  obtain b where i: "i < length (mb_senders m)" "mb_senders m ! i = S_Unlock b"
    using en by (auto simp: mb_enabled_def split: send_pc.splits)
  let ?c = "if b then S_Idle else S_Signal"
  let ?m = "put_sender i ?c (m\<lparr>mb_lock := False\<rparr>)"
  note d = mb_okD [OF ok]
  have s: "how_many P ?m + of_bool (P (S_Unlock b)) = how_many P m + of_bool (P ?c)"
    and l: "P (S_Unlock b) \<Longrightarrow> 0 < how_many P m" for P :: "'a send_pc \<Rightarrow> bool"
    by (rule sender_moves; use i in auto)+
  have h: "mb_lock m" "how_many holds_lock m = 1" using l [of holds_lock] d(3) by (cases "mb_lock m"; simp add: pc_simps)+
  have "mb_ok n ?m t" unfolding mb_ok_def
  proof (intro conjI)
    show "how_many holds_lock ?m = of_bool (mb_lock ?m)" using s [of holds_lock] h by (simp add: pc_simps)
    show "length (sq_complete t) = how_many wrote ?m" using s [of wrote] d(4) by (simp add: pc_simps)
    show "0 < how_many (\<lambda>c. c = S_Waking) ?m \<longrightarrow> sq_asleep t" using s [of "\<lambda>c. c = S_Waking"] d(5) by simp
    show "mb_signals ?m + how_many will_signal ?m = of_bool (\<not> mb_active ?m \<and> \<not> sq_asleep t)"
      using s [of will_signal] d(6) by (cases b) (simp_all add: pc_simps)
  qed (use d(1,2,7-13) in simp_all)
  moreover have "mb_step n (Unlock i) m = Some (Going, ?m)" using i by (simp add: mb_step_def send_unlock_def)
  ultimately show ?thesis by (rule mb_keepsI) (simp_all add: cmd_put_def)
qed

lemma signal_keeps:
  assumes ok: "mb_ok n m t" and en: "mb_enabled (Signal i) m"
  shows "mb_keeps n (Signal i) m t"
proof -
  have i: "i < length (mb_senders m)" "mb_senders m ! i = S_Signal" using en by (auto simp: mb_enabled_def)
  let ?m = "put_sender i S_Idle (signaler_send m)"
  note d = mb_okD [OF ok]
  have s: "how_many P ?m + of_bool (P S_Signal) = how_many P m + of_bool (P S_Idle)" for P :: "'a send_pc \<Rightarrow> bool"
    by (rule sender_moves) (use i in \<open>auto simp: signaler_send_def\<close>)
  have "mb_ok n ?m t" unfolding mb_ok_def
  proof (intro conjI)
    show "how_many holds_lock ?m = of_bool (mb_lock ?m)" using s [of holds_lock] d(3) by (simp add: pc_simps signaler_send_def)
    show "length (sq_complete t) = how_many wrote ?m" using s [of wrote] d(4) by (simp add: pc_simps)
    show "0 < how_many (\<lambda>c. c = S_Waking) ?m \<longrightarrow> sq_asleep t" using s [of "\<lambda>c. c = S_Waking"] d(5) by simp
    show "mb_signals ?m + how_many will_signal ?m = of_bool (\<not> mb_active ?m \<and> \<not> sq_asleep t)"
      using s [of will_signal] d(6) by (simp add: pc_simps signaler_send_def)
  qed (use d(1,2,7-13) in \<open>simp_all add: signaler_send_def\<close>)
  then show ?thesis by (rule mb_keepsI) (simp_all add: mb_step_def cmd_put_def)
qed
lemma recv_keeps: "mb_ok n m t \<Longrightarrow> mb_enabled Recv m \<Longrightarrow> mb_keeps n Recv m t"
  by (rule mb_keepsI [where t' = t and m' = "m\<lparr>mb_receiver := if mb_active m then R_Check else R_Wait\<rparr>"])
    (auto simp: mb_ok_def mb_enabled_def mb_step_def cmd_put_def)

lemma check_keeps:
  assumes ok: "mb_ok n m t" and en: "mb_enabled Check_Cmd m"
  shows "mb_keeps n Check_Cmd m t"
proof -
  note d = mb_okD [OF ok]
  have a: "mb_active m" "mb_receiver m = R_Check \<or> mb_receiver m = R_First" using en d(13) by (auto simp: mb_enabled_def)
  obtain b p where p: "yp_check_read (mb_cpipe m) = (b, p)" by fastforce
  note sim = yp_check_read_sim [OF d(1)]
  show ?thesis
  proof (cases "sq_ready t")
    case Nil
    let ?m = "m\<lparr>mb_cpipe := p, mb_active := False, mb_receiver := R_Wait\<rparr>" and ?t = "t\<lparr>sq_asleep := True\<rparr>"
    have b: "\<not> b" "yp_sim n p ?t" using sim p Nil by (simp_all add: sq_check_read_def)
    have "mb_ok n ?m ?t" unfolding mb_ok_def
      by (intro conjI) (use d(2-4,6) a b Nil in \<open>simp_all\<close>)
    then show ?thesis
      by (rule mb_keepsI) (use Nil b a d(10) p in \<open>auto simp: mb_step_def recv_check_def cmd_put_def\<close>)
  next
    case (Cons v vs)
    let ?m = "m\<lparr>mb_cpipe := p, mb_receiver := R_Take\<rparr>"
    have b: b "yp_sim n p t" using sim p Cons by (simp_all add: sq_check_read_def)
    have f: "yp_found p" using yp_check_read_found [of "mb_cpipe m" p] p b(1) by simp
    have "mb_ok n ?m t" unfolding mb_ok_def
      by (intro conjI) (use d a b f Cons in \<open>simp_all\<close>)
    then show ?thesis
      by (rule mb_keepsI) (use b p in \<open>simp_all add: mb_step_def recv_check_def cmd_put_def\<close>)
  qed
qed

lemma take_cmd_keeps:
  assumes ok: "mb_ok n m t" and en: "mb_enabled Take_Cmd m"
  shows "mb_keeps n Take_Cmd m t" and "\<exists>m'. mb_step n Take_Cmd m = Some (Got (hd (sq_ready t)), m')"
proof -
  note d = mb_okD [OF ok]
  have f: "mb_receiver m = R_Take" "yp_found (mb_cpipe m)" "mb_active m" using en d(11,13) by (auto simp: mb_enabled_def)
  obtain v vs p where p: "sq_ready t = v # vs" "yp_take n (mb_cpipe m) = Some (v, p)" "yp_sim n p (t\<lparr>sq_ready := vs\<rparr>)"
    by (rule yp_take_sim [OF d(1) f(2)])
  let ?m = "m\<lparr>mb_cpipe := p, mb_receiver := R_Idle\<rparr>"
  have "mb_ok n ?m (t\<lparr>sq_ready := vs\<rparr>)" unfolding mb_ok_def
    by (intro conjI) (use d f p in \<open>simp_all\<close>)
  moreover have s: "mb_step n Take_Cmd m = Some (Got v, ?m)" using p(2) by (simp add: mb_step_def recv_take_def)
  moreover have "sq_ready t @ sq_complete t @ cmd_put Take_Cmd m = cmd_got (Got v) @ sq_ready (t\<lparr>sq_ready := vs\<rparr>) @ sq_complete (t\<lparr>sq_ready := vs\<rparr>)"
    using p(1) by (simp add: cmd_put_def cmd_got_def)
  ultimately show "mb_keeps n Take_Cmd m t" unfolding mb_keeps_def by blast
  show "\<exists>m'. mb_step n Take_Cmd m = Some (Got (hd (sq_ready t)), m')" using s p(1) by simp
qed

lemma wait_keeps:
  assumes "mb_ok n m t" "mb_enabled (Wait_Signal b) m"
  shows "mb_keeps n (Wait_Signal b) m t"
proof (cases b)
  case True
  show ?thesis
    by (rule mb_keepsI [where t' = t and m' = "m\<lparr>mb_receiver := R_Signal\<rparr>"])
      (use assms True in \<open>auto simp: mb_ok_def mb_enabled_def mb_step_def signaler_wait_def cmd_put_def\<close>)
next
  case False
  have "mb_ok n (m\<lparr>mb_receiver := R_Idle\<rparr>) t" using assms by (simp add: mb_ok_def)
  then show ?thesis using False
    unfolding mb_keeps_def by (intro exI [of _ Again] exI [of _ "m\<lparr>mb_receiver := R_Idle\<rparr>"] exI [of _ t])
      (simp add: mb_step_def signaler_wait_def cmd_put_def cmd_got_def)
qed

lemma take_signal_keeps:
  assumes ok: "mb_ok n m t" and en: "mb_enabled Take_Signal m"
  shows "mb_keeps n Take_Signal m t"
proof -
  note d = mb_okD [OF ok]
  have r: "mb_receiver m = R_Signal" "0 < mb_signals m" "\<not> mb_active m" using en d(9,12) by (auto simp: mb_enabled_def)
  have s: "\<not> sq_asleep t" "mb_signals m = 1" "how_many will_signal m = 0" using d(6) r(2) by (cases "sq_asleep t"; cases "mb_active m"; simp)+
  have "mb_ok n (m\<lparr>mb_signals := mb_signals m - 1, mb_active := True, mb_receiver := R_First\<rparr>) t" unfolding mb_ok_def
    by (intro conjI) (use d r s in \<open>simp_all\<close>)
  then show ?thesis by (rule mb_keepsI) (use r in \<open>simp_all add: mb_step_def recv_failable_def cmd_put_def\<close>)
qed

lemmas mailbox_keeps = lock_keeps send_write_keeps cas_keeps wake_keeps unlock_keeps signal_keeps recv_keeps check_keeps take_cmd_keeps(1)
  wait_keeps take_signal_keeps

lemma mb_step_keeps: "mb_ok n m t \<Longrightarrow> mb_enabled x m \<Longrightarrow> mb_keeps n x m t"
  by (cases x) (auto intro: mailbox_keeps)

lemma mb_new_ok:
  assumes "0 < n" "a \<noteq> b"
  obtains m :: "'v mailbox" where "mb_new n a b k = Some m" "mb_ok n m (sq_new\<lparr>sq_asleep := True\<rparr>)" "mb_senders m = replicate k S_Idle"
proof -
  obtain p :: "'v ypipe" where p: "yp_new n a b = Some p" "yp_sim n p sq_new"
    unfolding sq_new_def by (rule yp_new_sim [OF assms])
  obtain ok p' where c: "yp_check_read p = (ok, p')" by fastforce
  have s: "\<not> ok" "yp_sim n p' (sq_new\<lparr>sq_asleep := True\<rparr>)"
    using yp_check_read_sim [OF p(2)] c by (simp_all add: sq_check_read_def sq_new_def)
  show thesis
    by (rule that [of "\<lparr>mb_cpipe = p', mb_signals = 0, mb_lock = False, mb_active = False, mb_senders = replicate k S_Idle, mb_receiver = R_Idle\<rparr>"])
      (use p(1) c s in \<open>simp_all add: mb_new_def mb_ok_def how_many_def sq_new_def pc_simps\<close>)
qed

lemma mb_reach_ok: "mb_reach n m sent got \<Longrightarrow> \<exists>t. mb_ok n m t \<and> sent = got @ sq_ready t @ sq_complete t"
proof (induction rule: mb_reach.induct)
  case (mb_start n a b k m)
  obtain m' :: "'a mailbox" where "mb_new n a b k = Some m'" "mb_ok n m' (sq_new\<lparr>sq_asleep := True\<rparr>)"
    using mb_new_ok [OF mb_start(2,3)] by blast
  then show ?case using mb_start(1) by (intro exI [of _ "sq_new\<lparr>sq_asleep := True\<rparr>"]) (simp add: sq_new_def)
next
  case (mb_next n m sent got x y m')
  then obtain t where t: "mb_ok n m t" "sent = got @ sq_ready t @ sq_complete t" by blast
  from mb_step_keeps [OF t(1) mb_next.hyps(2)] mb_next.hyps(3) t(2) show ?case
    unfolding mb_keeps_def by fastforce
qed
section \<open>A command is received\<close>

lemma mb_recv_going: "mb_step n (recv_act m) m = Some (Going, m') \<Longrightarrow> mb_recv n (Suc k) m = mb_recv n k m'"
  by simp

text \<open>One more step of the receiver towards a command that is ready.\<close>

lemma recv_taken: "mb_ok n m t \<Longrightarrow> mb_receiver m = R_Take \<Longrightarrow> \<exists>m'. mb_recv n (Suc k) m = Some (Got (hd (sq_ready t)), m')"
  using take_cmd_keeps(2) [of n m t] by (auto simp: recv_act_def mb_enabled_def)

lemma recv_checked:
  assumes ok: "mb_ok n m t" and r: "mb_receiver m = R_Check \<or> mb_receiver m = R_First" "sq_ready t \<noteq> []"
  shows "\<exists>m'. mb_recv n (Suc (Suc k)) m = Some (Got (hd (sq_ready t)), m')"
proof -
  note d = mb_okD [OF ok]
  have s: "mb_active m" "\<not> sq_asleep t" "mb_receiver m \<noteq> R_Signal" using d(7,13) r by auto
  obtain b p where p: "yp_check_read (mb_cpipe m) = (b, p)" by fastforce
  have b: b "yp_sim n p t" using yp_check_read_sim [OF d(1)] p r(2) by (auto simp: sq_check_read_def)
  let ?m = "m\<lparr>mb_cpipe := p, mb_receiver := R_Take\<rparr>"
  have f: "yp_found p" using yp_check_read_found [of "mb_cpipe m" p] p b(1) by simp
  have o: "mb_ok n ?m t" unfolding mb_ok_def
    by (intro conjI) (use d b f s r in \<open>simp_all\<close>)
  have e: "mb_step n (recv_act m) m = Some (Going, ?m)" using r(1) b p by (auto simp: recv_act_def mb_step_def recv_check_def)
  show ?thesis unfolding mb_recv_going [OF e] using recv_taken [OF o, of k] by simp
qed

lemma recv_signalled:
  assumes ok: "mb_ok n m t" and r: "mb_receiver m = R_Signal" "sq_ready t \<noteq> []"
  shows "\<exists>m'. mb_recv n (Suc (Suc (Suc k))) m = Some (Got (hd (sq_ready t)), m')"
proof -
  note d = mb_okD [OF ok]
  have s: "0 < mb_signals m" "\<not> mb_active m" "\<not> sq_asleep t" using d(7,9,12) r by auto
  let ?m = "m\<lparr>mb_signals := mb_signals m - 1, mb_active := True, mb_receiver := R_First\<rparr>"
  have o: "mb_ok n ?m t" unfolding mb_ok_def
    by (intro conjI) (use d s r in \<open>simp_all\<close>)
  have e: "mb_step n (recv_act m) m = Some (Going, ?m)" using r(1) s(1) by (simp add: recv_act_def mb_step_def recv_failable_def)
  show ?thesis unfolding mb_recv_going [OF e] using recv_checked [OF o _ r(2), of k] by simp
qed

lemma recv_waited:
  assumes ok: "mb_ok n m t" and r: "mb_receiver m = R_Wait" "sq_ready t \<noteq> []" "how_many will_signal m = 0"
  shows "\<exists>m'. mb_recv n (Suc (Suc (Suc (Suc k)))) m = Some (Got (hd (sq_ready t)), m')"
proof -
  note d = mb_okD [OF ok]
  have s: "\<not> mb_active m" "\<not> sq_asleep t" "mb_signals m = 1" using d(6,7,12) r by simp_all
  have o: "mb_ok n (m\<lparr>mb_receiver := R_Signal\<rparr>) t" unfolding mb_ok_def
    by (intro conjI) (use d s r in \<open>simp_all\<close>)
  have e: "mb_step n (recv_act m) m = Some (Going, m\<lparr>mb_receiver := R_Signal\<rparr>)" using r(1) s by (simp add: recv_act_def mb_step_def signaler_wait_def)
  show ?thesis unfolding mb_recv_going [OF e] using recv_signalled [OF o _ r(2), of k] by simp
qed

lemma recv_entered:
  assumes ok: "mb_ok n m t" and r: "mb_receiver m = R_Idle" "sq_ready t \<noteq> []" "how_many will_signal m = 0"
  shows "\<exists>m'. mb_recv n (Suc (Suc (Suc (Suc (Suc 0))))) m = Some (Got (hd (sq_ready t)), m')"
proof (cases "mb_active m")
  case True
  have "mb_ok n (m\<lparr>mb_receiver := R_Check\<rparr>) t" unfolding mb_ok_def
    by (intro conjI) (use mb_okD [OF ok] True in simp_all)
  note o = this
  have e: "mb_step n (recv_act m) m = Some (Going, m\<lparr>mb_receiver := R_Check\<rparr>)" using r(1) True by (simp add: recv_act_def mb_step_def)
  show ?thesis unfolding mb_recv_going [OF e] by (intro recv_checked [OF o _ r(2)]) simp
next
  case False
  have "mb_ok n (m\<lparr>mb_receiver := R_Wait\<rparr>) t" unfolding mb_ok_def
    by (intro conjI) (use mb_okD [OF ok] False in simp_all)
  note o = this
  have e: "mb_step n (recv_act m) m = Some (Going, m\<lparr>mb_receiver := R_Wait\<rparr>)" using r(1) False by (simp add: recv_act_def mb_step_def)
  show ?thesis unfolding mb_recv_going [OF e] by (intro recv_waited [OF o _ r(2)]) (use r(3) in simp_all)
qed

lemma recv_ready:
  assumes ok: "mb_ok n m t" and r: "sq_ready t \<noteq> []" "how_many will_signal m = 0"
  shows "\<exists>m'. mb_recv n (Suc (Suc (Suc (Suc (Suc 0))))) m = Some (Got (hd (sq_ready t)), m')"
proof (cases "mb_receiver m")
  case R_Idle
  then show ?thesis by (rule recv_entered [OF ok _ r])
next
  case R_Take
  then show ?thesis by (intro recv_taken [OF ok])
next
  case R_Wait
  then show ?thesis by (intro recv_waited [OF ok _ r])
next
  case R_Signal
  then show ?thesis by (intro recv_signalled [OF ok _ r(1)])
next
  case R_Check
  then show ?thesis by (intro recv_checked [OF ok _ r(1)] disjI1)
next
  case R_First
  then show ?thesis by (intro recv_checked [OF ok _ r(1)] disjI2)
qed

lemma mailbox_receives:
  assumes "mb_reach n m sent got" "\<forall>c \<in> set (mb_senders m). \<not> wrote c \<and> \<not> will_signal c"
  shows "\<exists>rest. sent = got @ rest \<and> (rest \<noteq> [] \<longrightarrow> (\<exists>m'. mb_recv n 5 m = Some (Got (hd rest), m')))"
proof -
  obtain t where t: "mb_ok n m t" "sent = got @ sq_ready t @ sq_complete t" using mb_reach_ok [OF assms(1)] by blast
  have h: "how_many wrote m = 0" "how_many will_signal m = 0" using assms(2) by (simp_all add: how_many_def)
  have "sq_complete t = []" using mb_okD(4) [OF t(1)] h(1) by simp
  then show ?thesis using recv_ready [OF t(1) _ h(2)] t(2) by (auto simp: eval_nat_numeral simp del: mb_recv.simps)
qed

lemma mailbox_one_signal: "mb_reach n m sent got \<Longrightarrow> mb_signals m + how_many will_signal m \<le> 1"
  using mb_reach_ok [of n m sent got] mb_okD(6) [of n m] by fastforce

section \<open>An example\<close>

fun mb_run :: "nat \<Rightarrow> 'v mb_act list \<Rightarrow> 'v mailbox \<times> 'v list \<times> 'v list \<Rightarrow> ('v mailbox \<times> 'v list \<times> 'v list) option" where
  "mb_run n [] s = Some s"
| "mb_run n (x # xs) (m, sent, got) =
     (if \<not> mb_enabled x m then None
      else case mb_step n x m of None \<Rightarrow> None
        | Some (y, m') \<Rightarrow> mb_run n xs (m', sent @ cmd_put x m, got @ cmd_got y))"

lemma mb_run_reach: "\<lbrakk>mb_run n xs (m, sent, got) = Some (m', sent', got'); mb_reach n m sent got\<rbrakk> \<Longrightarrow> mb_reach n m' sent' got'"
  by (induction xs arbitrary: m sent got) (auto split: if_splits option.splits intro: mb_next)

text \<open>Two senders; the first has to wake the reader, and its signal is taken before the second command is written.\<close>

definition sample_cmds :: "nat mb_act list" where
  "sample_cmds = [Recv, Lock 0 10, Write_Cmd 0 3, Cas_Cmd 0, Wait_Signal False, Wake_Reader 0, Unlock 0, Recv, Lock 1 11, Signal 0,
     Wait_Signal True, Take_Signal, Check_Cmd, Write_Cmd 1 4, Take_Cmd, Recv, Check_Cmd, Cas_Cmd 1, Wake_Reader 1, Unlock 1, Signal 1]"

definition sample_mailbox :: "nat mailbox" where
  "sample_mailbox = the (mb_new 2 1 2 2)"

lemma sample_cmds_run:
  "map_option (\<lambda>(m, sent, got). (sent, got, mb_senders m)) (mb_run 2 sample_cmds (sample_mailbox, [], [])) = Some ([10, 11], [10], [S_Idle, S_Idle])"
  by code_simp

end
