(* ===== verification/Registry.thy ===== *)
theory Registry
  imports RpcBroadcast
begin

text \<open>
  What the registry promises: it is one table from pointers to instances of four kinds, in which creating,
  using and destroying do what one expects of a table, although the code keeps four maps and looks for a
  pointer in one after the other. The specification is a function on the operations of a run, as are its results.
\<close>

section \<open>The operations of a run\<close>

text \<open>Using an instance stands for any of its member functions that return.\<close>

datatype reg_op =
    Create_Requester env string | Create_Responder env string | Create_Subscriber env string | Create_Publisher env string
  | Use_Requester inst_value "requester \<Rightarrow> requester" | Use_Responder inst_value "responder \<Rightarrow> responder"
  | Use_Subscriber inst_value "subscriber \<Rightarrow> subscriber" | Use_Publisher inst_value "publisher \<Rightarrow> publisher"
  | Destroy inst_value

datatype reg_result = Pointer inst_value | Answer bool | Done | Threw fault

fun result_of :: "('b \<Rightarrow> reg_result) \<Rightarrow> (fault + 'b) \<times> communicator \<Rightarrow> reg_result \<times> communicator" where
  "result_of f (Inl e, m) = (Threw e, m)"
| "result_of f (Inr x, m) = (f x, m)"

fun reg_step :: "platform \<Rightarrow> reg_op \<Rightarrow> communicator \<Rightarrow> reg_result \<times> communicator" where
  "reg_step p (Create_Requester e addr) m = result_of Pointer (CreateRequester p e addr m)"
| "reg_step p (Create_Responder e addr) m = result_of Pointer (CreateResponder p e addr m)"
| "reg_step p (Create_Subscriber e addr) m = result_of Pointer (CreateSubscriber e addr m)"
| "reg_step p (Create_Publisher e addr) m = result_of Pointer (CreatePublisher e addr m)"
| "reg_step p (Use_Requester v f) m = result_of (\<lambda>_. Done) (on_requester v (pureS (\<lambda>r. ((), f r))) m)"
| "reg_step p (Use_Responder v g) m = result_of (\<lambda>_. Done) (on_responder v (pureS (\<lambda>r. ((), g r))) m)"
| "reg_step p (Use_Subscriber v h) m = result_of (\<lambda>_. Done) (on_subscriber v (pureS (\<lambda>r. ((), h r))) m)"
| "reg_step p (Use_Publisher v k) m = result_of (\<lambda>_. Done) (on_publisher v (pureS (\<lambda>r. ((), k r))) m)"
| "reg_step p (Destroy v) m = result_of Answer (DestroyInstance v m)"

text \<open>An exception, a null dereference or the destruction of a joinable thread ends the run.\<close>

fun reg_run :: "platform \<Rightarrow> reg_op list \<Rightarrow> communicator \<Rightarrow> reg_result list \<times> communicator" where
  "reg_run p [] m = ([], m)"
| "reg_run p (a # ops) m = (case reg_step p a m of (r, m') \<Rightarrow>
     (case r of Threw x \<Rightarrow> ([r], m') | _ \<Rightarrow> (case reg_run p ops m' of (rs, m'') \<Rightarrow> (r # rs, m''))))"

section \<open>The specification\<close>

datatype inst = I_Requester requester | I_Responder responder | I_Subscriber subscriber | I_Publisher publisher

type_synonym registry = "inst_value \<Rightarrow> inst option"

fun thread_joinable :: "inst \<Rightarrow> bool" where
  "thread_joinable (I_Responder r) = (\<exists>b. wk_map (resp_worker r) respKey = Some (True, b))"
| "thread_joinable (I_Subscriber r) = (\<exists>b. wk_map (sub_worker r) subKey = Some (True, b))"
| "thread_joinable _ = False"

definition spec_create :: "env \<Rightarrow> bool \<Rightarrow> inst \<Rightarrow> registry \<Rightarrow> reg_result \<times> registry" where
  "spec_create e accepted i S = (if accepted then (Pointer (e_alloc e), S(e_alloc e \<mapsto> i)) else (Pointer 0, S))"

fun spec_step :: "reg_op \<Rightarrow> registry \<Rightarrow> reg_result \<times> registry" where
  "spec_step (Create_Requester e addr) S = spec_create e (e_connects e (''tcp://'' @ addr)) (I_Requester (connected_requester e)) S"
| "spec_step (Create_Responder e addr) S = spec_create e (e_binds e (''tcp://'' @ addr)) (I_Responder (bound_responder e)) S"
| "spec_step (Create_Subscriber e addr) S = spec_create e (e_connects e (''tcp://'' @ addr)) (I_Subscriber connected_subscriber) S"
| "spec_step (Create_Publisher e addr) S = spec_create e (e_binds e (''tcp://'' @ addr)) (I_Publisher new_Publisher) S"
| "spec_step (Use_Requester v f) S = (case S v of Some (I_Requester r) \<Rightarrow> (Done, S(v \<mapsto> I_Requester (f r))) | _ \<Rightarrow> (Threw Null_Dereference, S))"
| "spec_step (Use_Responder v g) S = (case S v of Some (I_Responder r) \<Rightarrow> (Done, S(v \<mapsto> I_Responder (g r))) | _ \<Rightarrow> (Threw Null_Dereference, S))"
| "spec_step (Use_Subscriber v h) S = (case S v of Some (I_Subscriber r) \<Rightarrow> (Done, S(v \<mapsto> I_Subscriber (h r))) | _ \<Rightarrow> (Threw Null_Dereference, S))"
| "spec_step (Use_Publisher v k) S = (case S v of Some (I_Publisher r) \<Rightarrow> (Done, S(v \<mapsto> I_Publisher (k r))) | _ \<Rightarrow> (Threw Null_Dereference, S))"
| "spec_step (Destroy v) S = (case S v of None \<Rightarrow> (Answer False, S)
     | Some i \<Rightarrow> (if thread_joinable i then Threw Joinable_Destroyed else Answer True, S(v := None)))"

fun spec_run :: "reg_op list \<Rightarrow> registry \<Rightarrow> reg_result list \<times> registry" where
  "spec_run [] S = ([], S)"
| "spec_run (a # ops) S = (case spec_step a S of (r, S') \<Rightarrow>
     (case r of Threw x \<Rightarrow> ([r], S') | _ \<Rightarrow> (case spec_run ops S' of (rs, S'') \<Rightarrow> (r # rs, S''))))"

text \<open>What \<open>new\<close> answers: not null, and not the address of an object that still exists.\<close>

fun alloc_ok :: "reg_op \<Rightarrow> registry \<Rightarrow> bool" where
  "alloc_ok (Create_Requester e addr) S = (e_alloc e \<noteq> 0 \<and> S (e_alloc e) = None)"
| "alloc_ok (Create_Responder e addr) S = (e_alloc e \<noteq> 0 \<and> S (e_alloc e) = None)"
| "alloc_ok (Create_Subscriber e addr) S = (e_alloc e \<noteq> 0 \<and> S (e_alloc e) = None)"
| "alloc_ok (Create_Publisher e addr) S = (e_alloc e \<noteq> 0 \<and> S (e_alloc e) = None)"
| "alloc_ok _ S = True"

fun allocs_ok :: "reg_op list \<Rightarrow> registry \<Rightarrow> bool" where
  "allocs_ok [] S = True"
| "allocs_ok (a # ops) S = (alloc_ok a S \<and> allocs_ok ops (snd (spec_step a S)))"

section \<open>The refinement\<close>

text \<open>The four maps hold what the table holds, each pointer under its kind and only there.\<close>

definition registry_holds :: "communicator \<Rightarrow> registry \<Rightarrow> bool" where
  "registry_holds m S \<longleftrightarrow> (\<forall>v r. comm_requesters m v = Some r \<longleftrightarrow> S v = Some (I_Requester r))
     \<and> (\<forall>v r. comm_responders m v = Some r \<longleftrightarrow> S v = Some (I_Responder r))
     \<and> (\<forall>v r. comm_subscribers m v = Some r \<longleftrightarrow> S v = Some (I_Subscriber r))
     \<and> (\<forall>v r. comm_publishers m v = Some r \<longleftrightarrow> S v = Some (I_Publisher r)) \<and> S 0 = None"

lemma holds_new: "registry_holds new_Communicator Map.empty"
  by (simp add: registry_holds_def new_Communicator_def)

lemma holds_none:
  "registry_holds m S \<Longrightarrow> S v = None \<longleftrightarrow> v \<notin> comm_dom m"
  unfolding registry_holds_def comm_dom_def by (cases "S v") (auto, metis inst.exhaust)

lemma holds_ok:
  assumes "registry_holds m S" shows "comm_ok m"
proof -
  have "0 \<notin> comm_dom m" using holds_none [OF assms, of 0] assms by (simp add: registry_holds_def)
  then show ?thesis using assms by (auto simp: comm_ok_def registry_holds_def)
qed

lemma holds_fresh: "registry_holds m S \<Longrightarrow> e_alloc e \<noteq> 0 \<Longrightarrow> S (e_alloc e) = None \<Longrightarrow> fresh_alloc e m"
  by (simp add: fresh_alloc_def holds_none)

lemma option_eqI: "(\<And>r. x = Some r \<longleftrightarrow> y = Some r) \<Longrightarrow> x = y"
  by (cases x; cases y) auto

text \<open>A pointer is looked for in one map after the other.\<close>

lemma destroy_found:
  assumes "registry_holds m S"
  shows "S v = Some (I_Requester a) \<Longrightarrow> DestroyInstance v m = (Inr True, m\<lparr>comm_requesters := (comm_requesters m)(v := None)\<rparr>)"
    and "S v = Some (I_Responder b) \<Longrightarrow> DestroyInstance v m = (if thread_joinable (I_Responder b) then Inl Joinable_Destroyed else Inr True,
      m\<lparr>comm_responders := (comm_responders m)(v := None)\<rparr>)"
    and "S v = Some (I_Subscriber c) \<Longrightarrow> DestroyInstance v m = (if thread_joinable (I_Subscriber c) then Inl Joinable_Destroyed else Inr True,
      m\<lparr>comm_subscribers := (comm_subscribers m)(v := None)\<rparr>)"
    and "S v = Some (I_Publisher d) \<Longrightarrow> DestroyInstance v m = (Inr True, m\<lparr>comm_publishers := (comm_publishers m)(v := None)\<rparr>)"
    and "S v = None \<Longrightarrow> DestroyInstance v m = (Inr False, m)"
proof -
  have r: "comm_requesters m v = (case S v of Some (I_Requester a) \<Rightarrow> Some a | _ \<Rightarrow> None)"
    "comm_responders m v = (case S v of Some (I_Responder a) \<Rightarrow> Some a | _ \<Rightarrow> None)"
    "comm_subscribers m v = (case S v of Some (I_Subscriber a) \<Rightarrow> Some a | _ \<Rightarrow> None)"
    "comm_publishers m v = (case S v of Some (I_Publisher a) \<Rightarrow> Some a | _ \<Rightarrow> None)"
    by (rule option_eqI, use assms in \<open>simp add: registry_holds_def split: option.split inst.split\<close>)+
  have w: "(case destroy_worker key w of Some e \<Rightarrow> Inl e | None \<Rightarrow> Inr True)
      = (if \<exists>b. wk_map w key = Some (True, b) then Inl Joinable_Destroyed else Inr True)" for key and w :: "'x worker"
    by (auto simp: destroy_worker_def split: option.split prod.split bool.split)
  show "S v = Some (I_Requester a) \<Longrightarrow> DestroyInstance v m = (Inr True, m\<lparr>comm_requesters := (comm_requesters m)(v := None)\<rparr>)"
    by (simp add: DestroyInstance_def r)
  show "S v = Some (I_Responder b) \<Longrightarrow> DestroyInstance v m = (if thread_joinable (I_Responder b) then Inl Joinable_Destroyed else Inr True,
      m\<lparr>comm_responders := (comm_responders m)(v := None)\<rparr>)"
    by (simp add: DestroyInstance_def r w)
  show "S v = Some (I_Subscriber c) \<Longrightarrow> DestroyInstance v m = (if thread_joinable (I_Subscriber c) then Inl Joinable_Destroyed else Inr True,
      m\<lparr>comm_subscribers := (comm_subscribers m)(v := None)\<rparr>)"
    by (simp add: DestroyInstance_def r w)
  show "S v = Some (I_Publisher d) \<Longrightarrow> DestroyInstance v m = (Inr True, m\<lparr>comm_publishers := (comm_publishers m)(v := None)\<rparr>)"
    by (simp add: DestroyInstance_def r)
  show "S v = None \<Longrightarrow> DestroyInstance v m = (Inr False, m)"
    by (simp add: DestroyInstance_def r)
qed

lemma destroy_refines:
  assumes "registry_holds m S"
  shows "\<exists>m'. reg_step p (Destroy v) m = (fst (spec_step (Destroy v) S), m') \<and> registry_holds m' (snd (spec_step (Destroy v) S))"
proof (cases "S v")
  case None
  then show ?thesis using assms destroy_found(5) [OF assms None] by simp
next
  case (Some i)
  show ?thesis
  proof (cases i)
    case (I_Requester a)
    then show ?thesis using assms Some destroy_found(1) [OF assms, of v a] by (auto simp: registry_holds_def)
  next
    case (I_Responder a)
    then show ?thesis using assms Some destroy_found(2) [OF assms, of v a] by (auto simp: registry_holds_def)
  next
    case (I_Subscriber a)
    then show ?thesis using assms Some destroy_found(3) [OF assms, of v a] by (auto simp: registry_holds_def)
  next
    case (I_Publisher a)
    then show ?thesis using assms Some destroy_found(4) [OF assms, of v a] by (auto simp: registry_holds_def)
  qed
qed

lemma use_refines:
  assumes "registry_holds m S"
  shows "\<exists>m'. reg_step p (Use_Requester v f) m = (fst (spec_step (Use_Requester v f) S), m') \<and> registry_holds m' (snd (spec_step (Use_Requester v f) S))"
    and "\<exists>m'. reg_step p (Use_Responder v g) m = (fst (spec_step (Use_Responder v g) S), m') \<and> registry_holds m' (snd (spec_step (Use_Responder v g) S))"
    and "\<exists>m'. reg_step p (Use_Subscriber v h) m = (fst (spec_step (Use_Subscriber v h) S), m') \<and> registry_holds m' (snd (spec_step (Use_Subscriber v h) S))"
    and "\<exists>m'. reg_step p (Use_Publisher v k) m = (fst (spec_step (Use_Publisher v k) S), m') \<and> registry_holds m' (snd (spec_step (Use_Publisher v k) S))"
  using assms
  by (auto simp: on_requester_def on_responder_def on_subscriber_def on_publisher_def pureS_def registry_holds_def split: option.split inst.split)

lemma create_refines:
  assumes "registry_holds m S" "e_alloc e \<noteq> 0" "S (e_alloc e) = None"
  shows "\<exists>m'. reg_step p (Create_Requester e addr) m = (fst (spec_step (Create_Requester e addr) S), m') \<and> registry_holds m' (snd (spec_step (Create_Requester e addr) S))"
    and "\<exists>m'. reg_step p (Create_Responder e addr) m = (fst (spec_step (Create_Responder e addr) S), m') \<and> registry_holds m' (snd (spec_step (Create_Responder e addr) S))"
    and "\<exists>m'. reg_step p (Create_Subscriber e addr) m = (fst (spec_step (Create_Subscriber e addr) S), m') \<and> registry_holds m' (snd (spec_step (Create_Subscriber e addr) S))"
    and "\<exists>m'. reg_step p (Create_Publisher e addr) m = (fst (spec_step (Create_Publisher e addr) S), m') \<and> registry_holds m' (snd (spec_step (Create_Publisher e addr) S))"
  using assms holds_fresh [OF assms]
  by (auto simp: CreateRequester_run CreateResponder_run CreateSubscriber_run CreatePublisher_run spec_create_def registry_holds_def)

lemma step_refines:
  assumes "registry_holds m S" "alloc_ok a S"
  shows "\<exists>m'. reg_step p a m = (fst (spec_step a S), m') \<and> registry_holds m' (snd (spec_step a S))"
  using assms(2) create_refines [OF assms(1)] use_refines [OF assms(1)] destroy_refines [OF assms(1)]
  by (cases a) (auto simp only: alloc_ok.simps)

lemma run_refines:
  assumes "registry_holds m S" "allocs_ok ops S"
  shows "\<exists>m'. reg_run p ops m = (fst (spec_run ops S), m') \<and> registry_holds m' (snd (spec_run ops S))"
  using assms
proof (induction ops arbitrary: m S)
  case Nil
  then show ?case by simp
next
  case (Cons a ops)
  obtain r S' where s: "spec_step a S = (r, S')" by fastforce
  obtain m' where m': "reg_step p a m = (r, m')" "registry_holds m' S'"
    using step_refines [OF Cons.prems(1), of a p] Cons.prems(2) s by auto
  obtain m'' where "reg_run p ops m' = (fst (spec_run ops S'), m'')" "registry_holds m'' (snd (spec_run ops S'))"
    using Cons.IH [OF m'(2)] Cons.prems(2) s by auto
  then show ?case using s m' by (cases r) (auto split: prod.splits)
qed

end
