(* ===== verification/Spec2Isabelle.thy ===== *)
theory Spec2Isabelle
  imports Samples ZmtpLimits ZmqYpipe ZmqChannel ZmqConflate ZmtpGreeting ZmtpNull ZmqPipeTerm ZmqMsgRun ZmqMailbox Registry
begin

text \<open>
  TiRPC (\<open>src/include/tmss\<close>) is a header-only C++ library for remote procedure calls over ZeroMQ. A server
  (\<open>RpcProcessResponse\<close>) binds functions to names and answers requests, a client (\<open>RpcProcessRequest\<close>) calls
  them; \<open>RpcAsyncBroadcast\<close> lets a server publish calls that every node executes. Arguments travel in
  cereal's portable binary archive, messages through libzmq's REQ, REP, PUB and SUB sockets; both are vendored
  under \<open>src/3rd\<close> and are modelled as far as the library's behaviour rests on them.

  Conventions. Fallible stateful code is a function of type \<open>('s, 'e, 'a) smon\<close>, from a state to an error or a
  result and a new state (\<open>TiPrelude\<close>). What can end an operation abnormally is \<open>RpcBasic.fault\<close>: an exception of
  cereal, of libzmq or of the application, a null dereference, or the destruction of a joinable thread. Machine
  integers are words; byte order is \<open>plat_le\<close> of a \<open>platform\<close>. A call that blocks is given the \<open>deliveries\<close>, what
  arrives on which pipe while it blocks, and times out when they are used up. A thread is a program counter
  (\<open>Worker.wpc\<close>) moved by steps that the theorems interleave with everything else. What the network and the
  allocator do is an \<open>env\<close>: the address of the next instance, the addresses that can be bound or reached.

  Theories, bottom up, with the code each models.
   \<^item> \<open>PortableBinary\<close>: \<open>cereal/archives/portable_binary.hpp\<close>, \<open>types/string.hpp\<close>, \<open>vector.hpp\<close>, \<open>tuple.hpp\<close> over a
    \<open>stringstream\<close>. \<open>ArchiveRoundtrip\<close>: what is saved is \<open>enc\<close> of the value, and loading it gives it back.
   \<^item> \<open>FunctionSerializer\<close>: \<open>serializer/FunctionSerializer.hpp\<close>; the locale \<open>serializer_contract\<close>.
   \<^item> \<open>RpcBasic\<close>: \<open>RpcBasicTemplate.hpp\<close>. \<open>RpcExec\<close>: the table and the dispatcher of \<open>RpcProcessResponse.hpp\<close>.
   \<^item> \<open>ZmqMsg\<close>, \<open>ZmqPipe\<close>: \<open>msg.cpp\<close>, \<open>pipe.cpp\<close>, \<open>array.hpp\<close>, \<open>fq.cpp\<close>, \<open>lb.cpp\<close>.
    \<open>ZmqMsgRefs\<close>: the memory of messages, \<open>msg.cpp\<close>, \<open>metadata.cpp\<close>, \<open>decoder_allocators.cpp\<close>; \<open>ZmqMsgSafe\<close>, \<open>ZmqMsgRun\<close>: its reference counts, and messages
    as values. \<open>ZmqReq\<close>: \<open>req.cpp\<close> on \<open>dealer.cpp\<close>. \<open>ZmqRep\<close>:
    \<open>rep.cpp\<close> on \<open>router.cpp\<close>; \<open>ZmqRepSolo\<close>: a REP socket with one peer. \<open>ZmqOptions\<close>: \<open>options.cpp\<close>.
   \<^item> \<open>ZmqTrie\<close>, \<open>ZmqMtrie\<close>: \<open>trie.cpp\<close>, \<open>generic_mtrie_impl.hpp\<close>. \<open>ZmqDist\<close>: \<open>dist.cpp\<close>. \<open>ZmqPub\<close>: \<open>pub.cpp\<close>, \<open>xpub.cpp\<close>. \<open>ZmqSub\<close>,
    \<open>ZmqSubOps\<close>: \<open>sub.cpp\<close>, \<open>xsub.cpp\<close>. \<open>TrieSpec\<close>: the tries against counters and a set of pairs.
   \<^item> \<open>ZmqYqueue\<close>: \<open>yqueue.hpp\<close>, chunks in a memory where a freed chunk cannot be accessed. \<open>ZmqYpipe\<close>: \<open>ypipe.hpp\<close>, \<open>atomic_ptr.hpp\<close>;
    its two threads interleaved, against a queue of values. \<open>ZmqChannel\<close>: the two ends of a pair of pipes joined by that queue
    and the commands of \<open>pipe.cpp\<close>; \<open>ZmqMailbox\<close>: \<open>mailbox.cpp\<close>, the queue through which threads send each other
    such commands, and its \<open>signaler.cpp\<close>; \<open>ZmqPipeTerm\<close>: the termination of that pair, for pipes that do not conflate. \<open>ZmqConflate\<close>: \<open>dbuffer.hpp\<close>, \<open>ypipe_conflate.hpp\<close>.
   \<^item> \<open>ZmtpWire\<close>: \<open>wire.hpp\<close>, the flags of \<open>msg.hpp\<close> and the frame headers of \<open>v1_encoder.cpp\<close>, \<open>v2_encoder.cpp\<close>, \<open>v3_1_encoder.cpp\<close>.
    \<open>ZmtpEncoder\<close>: \<open>encoder.hpp\<close>, the output half of \<open>stream_engine_base.cpp\<close>, its locale \<open>message_source\<close>. \<open>ZmtpDecoder\<close>: \<open>decoder.hpp\<close>,
    \<open>v1_decoder.cpp\<close>, \<open>v2_decoder.cpp\<close>. \<open>ZmtpCodec\<close>: what a frame becomes in the peer's decoder, the locale \<open>framing\<close>. \<open>ZmtpEngine\<close>:
    the input half of \<open>stream_engine_base.cpp\<close>, the commands of \<open>zmtp_engine.cpp\<close>, \<open>session_base.cpp\<close>. \<open>ZmtpConnection\<close>: a sending and a
    receiving engine joined by a network are a queue. \<open>ZmtpGreeting\<close>: the greeting of \<open>zmtp_engine.cpp\<close>, between two peers and from any
    peer. \<open>ZmtpNull\<close>: \<open>null_mechanism.cpp\<close> and the metadata of \<open>mechanism.cpp\<close>. \<open>ZmtpLimits\<close>: the subscriptions and commands they do not carry.
   \<^item> \<open>Requester\<close>, \<open>Responder\<close>, \<open>Publisher\<close>, \<open>Subscriber\<close>: \<open>communicator/\<close>; \<open>Worker\<close>: the map of threads that two of them
    share and the locale \<open>thread_owner\<close>; \<open>ResponderReach\<close>: the reachable states of a responder. \<open>Communicator\<close>: the
    registry of instances, its locale \<open>instance_registry\<close>; \<open>Registry\<close>: the registry as one table of instances.
   \<^item> \<open>RpcClient\<close>: \<open>RpcProcessRequest.hpp\<close>. \<open>RpcServer\<close>: starting, stopping and running \<open>RpcProcessResponse.hpp\<close>.
    \<open>RpcSystem\<close>: a client and a server joined by a network, against calls in one address space.
   \<^item> \<open>RpcBroadcast\<close>: \<open>RpcAsyncBroadcast.hpp\<close>. \<open>BroadcastStop\<close>: stopping a node under any interleaving of its two
    threads. \<open>BroadcastSystem\<close>: a caller, a server and receivers. \<open>Samples\<close>: concrete instances of all this.

  What the properties below show. C1: the messages. C2 to C5: a call is a call of the
  bound function, for one client in sequence (C2) and for any number of peers in one round
  (C9). C6 to C8, C11, C40: the error paths.
  C12, C13: invariants of everything reachable, the phase of the socket only as long as requests
  are single non-empty messages (\<open>resp_reach\<close>; \<open>resp_any\<close> is everything). C15: the registry is a table. C10,
  C22, C39: what is told to stop stops, or throws what its thread throws. C14: options. C16 to C21:
  subscriptions. C23, C24: the memory
  of messages, for callers that keep to the rules \<open>msg_fits\<close>. C25 to C31: the queue under a pipe, the flow control between its ends and how they are
  taken down. C32 to C36: how two peers agree on a connection and what it carries.
  C37 to C40: broadcasts.

  Bounds. A session (C2) is limited to 1000 calls: the high-water mark of a new pipe is 1000 messages and the model
  of the peer acknowledges none; \<open>cl_ready n\<close>, \<open>sv_solo n\<close> and \<open>bn_serving n\<close> say that \<open>n\<close> more messages fit. Four steps of
  a stopped thread suffice (\<open>steps_left\<close>, \<open>sub_steps_left\<close>): at worst it is about to receive, serves that one message and
  then sees the flag. Fuel in \<open>ZmqRep\<close> and \<open>ZmqPub\<close> is the number of frames the pipes hold: every round takes one. A trie
  counts subscriptions in 32 bits, hence fewer than \<open>2 ^ 32\<close> operations in C16; a pair of pipes counts messages in 64 bits, hence
  fewer than \<open>2 ^ 64\<close> steps in C28 and C29, which leave out the messages of an authenticated
  connection that carry a credential (\<open>ordinary_act\<close>). \<open>ypipe\<close> (C25, C26) holds for every chunk size and every address the allocator
  returns.

  Not modelled. Transports, security other than the NULL mechanism, I/O threads and polling of libzmq (a pipe's far end
  is its list of messages, which C34 justifies for the messages and topics it covers); timers of heartbeats; hiccups of pipes and
  changes of the high water mark; the options of a socket that not every build has or that cannot be read; running out of memory; the other sockets and archives; reading and
  writing of single variables by two threads at once, except in \<open>ZmqYpipe\<close> (elsewhere steps are atomic, so the unsynchronised
  access to the map of threads and to the exit flag is outside the model); memory orders; the demonstration programs.
\<close>

section \<open>The archive\<close>

text \<open>C1: What one serializer writes, any other reads back: the same name and the same values, whatever
  the byte orders of the two machines and whatever the streams were left with by earlier calls.
  Both streams are ready for the next message.\<close>

theorem serialize_deserialize:
  assumes "idle a" "wf_call func ts args"
  shows "\<exists>data a'. Serialize p func args a = (Inr data, a') \<and> idle a' \<and> data \<noteq> [] \<and>
    (\<exists>b'. Deserialize q data ts b = (Inr (func, args), b') \<and> idle b')"
proof -
  obtain data a' where s: "Serialize p func args a = (Inr data, a')" "idle a'"
    and d: "\<And>b. \<exists>b'. Deserialize q data ts b = (Inr (func, args), b') \<and> idle b'"
    using fs.exchange [OF assms, of p q] by blast
  then show ?thesis using Serialize_nonempty [OF s(1)] by blast
qed

theorem serialize_deserialize_witness:
  "\<exists>data a'. Serialize \<lparr>plat_le = True\<rparr> ''add'' [VTuple [VArith (A32 7), VString ''x'']] (ss_set_str []) = (Inr data, a')
    \<and> idle a' \<and> data \<noteq> [] \<and>
    (\<exists>b'. Deserialize \<lparr>plat_le = False\<rparr> data [CTuple [CArith T32, CString]] (ss_set_str ''junk'')
       = (Inr (''add'', [VTuple [VArith (A32 7), VString ''x'']]), b') \<and> idle b')"
  by (rule serialize_deserialize) (auto simp: wf_call_def)

section \<open>A client and a server\<close>

text \<open>C2: A session refines local calls. A client that connects and a server that starts and accepts it
  carry out any sequence of up to 1000 calls, each with its own types, exactly as the same sequence
  of calls of the bound functions in the server's own address space: the same results in the same
  order, the same final state of the application. The byte orders of the two machines are free.\<close>

theorem session_refines_local_calls:
  assumes "comm_ok (cl_comm c0)" "fresh_alloc e (cl_comm c0)" "IsInstInvalid (rpq_requester (cl_rpc c0))"
    "idle (rpq_serializer (cl_rpc c0))" "e_connects e (''tcp://'' @ address ip port)"
    and "comm_ok (sv_comm s0)" "fresh_alloc e' (sv_comm s0)" "IsInstInvalid (rsp_responder (sv_rpc s0))"
    "idle (rsp_serializer (sv_rpc s0))" "e_binds e' (''tcp://'' @ address ip port)"
    and "length ks \<le> 1000" "\<forall>k \<in> set ks. call_ok (rsp_rpcs (sv_rpc s0)) k" "table_ok (plat_le q) (rsp_rpcs (sv_rpc s0))"
    and "local_calls (rsp_rpcs (sv_rpc s0)) ks (rsp_app (sv_rpc s0)) = (Inr results, app')"
  shows "\<exists>c s s1 c' s'. ConnectNetwork p e ip port c0 = (Inr True, c) \<and> StartProcess q e' ip port s0 = (Inr True, s)
    \<and> server_run q [[]] s = (Inr (), s1) \<and> remote_calls p q er x ks (c, server_accept x rid s1) = (Inr results, (c', s'))
    \<and> rsp_app (sv_rpc s') = app'"
  using assms by (rule session_local)

theorem session_refines_local_calls_witness:
  "\<exists>c s s1 c' s'. ConnectNetwork le64 (net 16) ''10.0.0.1'' 80 sample_client0 = (Inr True, c)
    \<and> StartProcess be64 (net 32) ''10.0.0.1'' 80 sample_server0 = (Inr True, s) \<and> server_run be64 [[]] s = (Inr (), s1)
    \<and> remote_calls le64 be64 (net 48) 5 [(Some (CArith T32), ''inc'', [VArith (A32 41)]), (None, ''nop'', []), (None, ''who'', [])]
        (c, server_accept 5 ''peer'' s1)
      = (Inr [(Success, VArith (A32 42)), (Success, VArith (A8 0)), (FunctionNotFound, VArith (A8 0))], (c', s'))
    \<and> rsp_app (sv_rpc s') = 2"
  by (rule session_refines_local_calls)
    (auto simp: comm_ok_new sample_table_ok call_ok_def local_calls_def local_call_def inc_fn_def nop_fn_def fn_result_def bindS_def
      intro: exI [of _ "[]"])

text \<open>C3: A request for a bound name makes its function run once, on exactly the arguments the client wrote,
  and its value comes back under the same name. The stream is ready for the next request.\<close>

theorem exec_bound:
  assumes "rsp_rpcs st name = Some c" "length name < 2 ^ 64"
    and "list_all2 has_type (fn_params (callee_fn c)) args"
    and "returns (callee_fn c) args (rsp_app st) v s'"
  shows "ExecFunc p (frame w name [VTuple args] @ junk) st =
    (Inr (frame (plat_le p) name [ret_val RC_Success (fn_result (callee_fn c) v)]),
     st\<lparr>rsp_app := s', rsp_serializer := ss_set_str []\<rparr>)"
  using assms by (rule ExecFunc_bound)

theorem exec_bound_witness:
  "ExecFunc le64 (frame False ''inc'' [VTuple [VArith (A32 41)]] @ ''rest'') sample_rpc =
    (Inr (frame True ''inc'' [ret_val RC_Success (VArith (A32 42))]), sample_rpc\<lparr>rsp_app := 1, rsp_serializer := ss_set_str []\<rparr>)"
  using exec_bound [of sample_rpc "''inc''" "FuncPtr inc_fn" "[VArith (A32 41)]" "VArith (A32 42)" 1 le64 False "''rest''"]
  by (simp add: inc_fn_def returns_def fn_result_def)

text \<open>C4: A request whose arguments are cut short anywhere ends in the archive's exception, and no function
  has run. (The responder's thread does not catch it.)\<close>

theorem exec_truncated:
  assumes "rsp_rpcs st name = Some c" "length name < 2 ^ 64"
    and "list_all2 has_type (fn_params (callee_fn c)) args"
    and "length (frame w name []) \<le> k" "k < length (frame w name [VTuple args])"
  shows "\<exists>e st'. ExecFunc p (take k (frame w name [VTuple args])) st = (Inl (Cereal_Exception e), st')
    \<and> rsp_app st' = rsp_app st"
  using assms by (rule ExecFunc_truncated)

theorem exec_truncated_witness:
  "\<exists>e st'. ExecFunc le64 (take 13 (frame True ''inc'' [VTuple [VArith (A32 41)]])) sample_rpc = (Inl (Cereal_Exception e), st')
    \<and> rsp_app st' = rsp_app sample_rpc"
  by (rule exec_truncated [of _ _ "FuncPtr inc_fn"]) (simp_all add: inc_fn_def frame_def)

text \<open>C5: The answer decides the result of a call. Under another name it is a mismatch, with the code
  \<open>FunctionNotFound\<close> that error, whatever value comes with it (the server sends a \<open>void\<close> one whatever the
  caller expects), and with any other code and a value of the expected type a success that hands over the value (a
  default value for \<open>void\<close>); in each case the client is ready for the next call and has sent exactly
  one request. The value must occupy at least one byte on the wire.\<close>

theorem call_answered:
  assumes "cl_ready (Suc n) c" "length name < 2 ^ 64" "list_all2 has_type ts args"
    and "length other < 2 ^ 64" "enc w v \<noteq> []"
    and "other = name \<Longrightarrow> code \<noteq> RC_FunctionNotFound \<Longrightarrow> has_type (RpcReturnType Retv) v"
  shows "\<exists>c'. CallFunc p e (reply_arrives (frame w other [ret_val code v] @ junk) # as) Retv name args c =
      (Inr (if other \<noteq> name then (FunctionNameMismatch, default_val (RpcReturnType Retv))
            else if code = RC_FunctionNotFound then (FunctionNotFound, default_val (RpcReturnType Retv))
            else (Success, if Retv = None then default_val (RpcReturnType Retv) else v)), c')
    \<and> cl_ready n c' \<and> cl_sent c' = cl_sent c @ envelope (request_bytes p name args c)"
proof -
  let ?d = "frame w other [ret_val code v] @ junk"
  have "?d \<noteq> []" by simp
  then obtain c1 where c1: "CallFunc p e (reply_arrives ?d # as) Retv name args c = read_reply p Retv name ?d c1" "cl_ready n c1"
    "cl_sent c1 = cl_sent c @ envelope (request_bytes p name args c)"
    using CallFunc_reply [OF assms(1-3)] by blast
  have "read_reply p Retv name ?d c1 = (Inr (if other \<noteq> name then (FunctionNameMismatch, default_val (RpcReturnType Retv))
      else if code = RC_FunctionNotFound then (FunctionNotFound, default_val (RpcReturnType Retv))
      else (Success, if Retv = None then default_val (RpcReturnType Retv) else v)), cl_reset c1)"
    using read_reply_mismatch [OF assms(4,5)] read_reply_not_found [OF assms(4,5)] read_reply_success [OF assms(4) _ assms(5)] assms(6)
    by (auto simp: result_value_def)
  then show ?thesis using c1 cl_ready_reset [OF c1(2)] by auto
qed

theorem call_answered_witness:
  "(\<exists>c'. CallFunc le64 (net 48) (reply_arrives (frame False ''inc'' [ret_val 0 (VArith (A32 42))] @ ''x'') # []) (Some (CArith T32)) ''inc''
      [VArith (A32 41)] sample_client = (Inr (Success, VArith (A32 42)), c')
    \<and> cl_ready 999 c' \<and> cl_sent c' = cl_sent sample_client @ envelope (request_bytes le64 ''inc'' [VArith (A32 41)] sample_client))
  \<and> (\<exists>c'. CallFunc le64 (net 48) (reply_arrives (frame False ''inc'' [ret_val RC_FunctionNotFound (VArith (A8 0))] @ []) # []) (Some (CArith T32)) ''inc''
      [VArith (A32 41)] sample_client = (Inr (FunctionNotFound, VArith (A32 0)), c')
    \<and> cl_ready 999 c' \<and> cl_sent c' = cl_sent sample_client @ envelope (request_bytes le64 ''inc'' [VArith (A32 41)] sample_client))"
proof
  have r: "cl_ready (Suc 999) sample_client" using sample_client_connected(2) by simp
  show "\<exists>c'. CallFunc le64 (net 48) (reply_arrives (frame False ''inc'' [ret_val 0 (VArith (A32 42))] @ ''x'') # []) (Some (CArith T32)) ''inc''
      [VArith (A32 41)] sample_client = (Inr (Success, VArith (A32 42)), c')
    \<and> cl_ready 999 c' \<and> cl_sent c' = cl_sent sample_client @ envelope (request_bytes le64 ''inc'' [VArith (A32 41)] sample_client)"
    using call_answered [OF r, of "''inc''" "[CArith T32]" "[VArith (A32 41)]" "''inc''" False "VArith (A32 42)" 0 "Some (CArith T32)"
        le64 "net 48" "''x''" "[]"] mem_repr_nonempty [of False "A32 42"]
    by (simp add: RC_FunctionNotFound_def)
  show "\<exists>c'. CallFunc le64 (net 48) (reply_arrives (frame False ''inc'' [ret_val RC_FunctionNotFound (VArith (A8 0))] @ []) # []) (Some (CArith T32)) ''inc''
      [VArith (A32 41)] sample_client = (Inr (FunctionNotFound, VArith (A32 0)), c')
    \<and> cl_ready 999 c' \<and> cl_sent c' = cl_sent sample_client @ envelope (request_bytes le64 ''inc'' [VArith (A32 41)] sample_client)"
    using call_answered [OF r, of "''inc''" "[CArith T32]" "[VArith (A32 41)]" "''inc''" False "VArith (A8 0)" RC_FunctionNotFound
        "Some (CArith T32)" le64 "net 48" "[]" "[]"] mem_repr_nonempty [of False "A8 0"]
    by simp
qed

text \<open>C6: When no answer comes within the timeout and reconnecting is on, the call returns \<open>NetworkTimeout\<close>
  and a default value, and the client holds a new, connected requester with which the next call can be
  made.\<close>

theorem call_timeout_recovers:
  assumes "cl_ready (Suc n) c" "length name < 2 ^ 64" "list_all2 has_type ts args"
    and "rpq_autoReconnectNetwork (cl_rpc c)" "fresh_alloc e (cl_comm c)"
    and "e_connects e (''tcp://'' @ rpq_serverAddress (cl_rpc c))"
  shows "\<exists>c'. CallFunc p e [] Retv name args c = (Inr (NetworkTimeout, default_val (RpcReturnType Retv)), c')
    \<and> cl_ready 1000 c' \<and> rpq_requester (cl_rpc c') = e_alloc e \<and> cl_sent c' = []"
  using assms by (rule CallFunc_timeout_reconnects)

theorem call_timeout_recovers_witness:
  "\<exists>c'. CallFunc le64 (net 48) [] (Some CString) ''inc'' [VArith (A32 41)] sample_client = (Inr (NetworkTimeout, VString []), c')
    \<and> cl_ready 1000 c' \<and> rpq_requester (cl_rpc c') = 48 \<and> cl_sent c' = []"
proof -
  have r: "cl_ready (Suc 999) sample_client" using sample_client_connected(2) by simp
  show ?thesis
    using call_timeout_recovers [OF r, of "''inc''" "[CArith T32]" "[VArith (A32 41)]" "net 48" le64 "Some CString"]
      sample_client_connected(5) sample_client_fresh by simp
qed

text \<open>C7: With reconnecting switched off, one timeout disables the client until it is connected anew: of all calls the
  program makes from then on, however many and whatever arrives while they run (the late reply included), each
  ends in the \<open>EFSM\<close> error of the socket, and nothing more is sent.\<close>

theorem call_timeout_disables:
  assumes "cl_ready (Suc n) c" "length name < 2 ^ 64" "list_all2 has_type ts args"
    and "\<not> rpq_autoReconnectNetwork (cl_rpc c)" "\<forall>k \<in> set calls. later_call_ok k"
  shows "\<exists>c1 c2. CallFunc p e [] Retv name args c = (Inr (NetworkTimeout, default_val (RpcReturnType Retv)), c1)
    \<and> CallFuncs p calls c1 = (replicate (length calls) (Inl (Zmq_Error EFSM)), c2) \<and> cl_sent c2 = cl_sent c1 \<and> cl_stuck c2"
  using CallFunc_timeout_stays [OF assms(1-4), of p e Retv] CallFuncs_stuck [OF _ assms(5), of _ p] by blast

theorem call_timeout_disables_witness:
  "\<exists>c1 c2. CallFunc le64 (net 48) [] None ''nop'' [] (snd (SetAutoReconnectNetwork False sample_client)) = (Inr (NetworkTimeout, VArith (A8 0)), c1)
    \<and> CallFuncs le64 [(net 49, [reply_arrives ''hello''], None, ''nop'', []), (net 50, [], Some (CArith T32), ''inc'', [VArith (A32 1)])] c1
      = ([Inl (Zmq_Error EFSM), Inl (Zmq_Error EFSM)], c2) \<and> cl_sent c2 = cl_sent c1 \<and> cl_stuck c2"
proof -
  let ?calls = "[(net 49, [reply_arrives ''hello''], None, ''nop'', []), (net 50, [], Some (CArith T32), ''inc'', [VArith (A32 1)])]"
  have "cl_ready (Suc 999) (snd (SetAutoReconnectNetwork False sample_client))"
    using sample_client_connected(2) by (simp add: SetAutoReconnectNetwork_def cl_ready_def cl_requester_def)
  moreover have "list_all2 has_type [CArith T32] [VArith (A32 1)]" "list_all2 has_type [] []" by simp_all
  then have "\<exists>ts. list_all2 has_type ts [VArith (A32 1)]" "\<exists>ts. list_all2 has_type ts []" by blast+
  then have "\<forall>k \<in> set ?calls. later_call_ok k" by (simp add: later_call_ok_def)
  ultimately show ?thesis
    using call_timeout_disables [of 999 "snd (SetAutoReconnectNetwork False sample_client)" "''nop''" "[]" "[]" ?calls le64 "net 48" None]
    by (simp add: SetAutoReconnectNetwork_def del: CallFuncs.simps)
qed

text \<open>C8: A return type without any bytes (an empty tuple) cannot be received: the server has run the function and
  answered, but the client's first reading of the answer expects the byte of a \<open>void\<close> result and
  throws.\<close>

theorem call_empty_result:
  assumes "cl_ready (Suc n) c" "length name < 2 ^ 64" "list_all2 has_type ts args" "enc w v = []"
  shows "\<exists>x c'. CallFunc p e (reply_arrives (frame w name [ret_val code v]) # as) Retv name args c = (Inl (Cereal_Exception x), c')"
proof -
  have "frame w name [ret_val code v] \<noteq> []" by simp
  then show ?thesis
    using CallFunc_reply [OF assms(1-3), of "frame w name [ret_val code v]" p e "as" Retv] read_reply_no_bytes [OF assms(2,4), of p Retv code] by metis
qed

theorem call_empty_result_witness:
  "\<exists>x c'. CallFunc le64 (net 48) (reply_arrives (frame True ''nop'' [ret_val 0 (VTuple [])]) # []) (Some (CTuple [])) ''nop'' [] sample_client
    = (Inl (Cereal_Exception x), c')"
proof -
  have r: "cl_ready (Suc 999) sample_client" using sample_client_connected(2) by simp
  show ?thesis by (rule call_empty_result [OF r, of _ "[]"]) simp_all
qed

text \<open>C9: One round of a server with any number of connected peers: the next request is taken, the dispatcher
  runs once on it, and what it returns goes to the peer that asked and to no other.\<close>

theorem server_answers_asker:
  assumes "sv_listening s" "rep_idle (sv_socket s)" "rep_next x (sv_socket s)" "rep_peer x (sv_socket s)"
    and "p_in (rt_heap (rp_router (sv_socket s)) x) = envelope q @ rest" "q \<noteq> []"
    and "ExecFunc p q (sv_rpc s) = (Inr d, o')"
  shows "\<exists>s'. server_run p [d1, d2, d3, d4] s = (Inr (), s') \<and> sv_rpc s' = o' \<and> sv_listening s'
    \<and> rep_idle (sv_socket s') \<and> rep_out x (sv_socket s') = rep_out x (sv_socket s) @ envelope d
    \<and> (\<forall>y. y \<noteq> x \<longrightarrow> rep_out y (sv_socket s') = rep_out y (sv_socket s))"
  using assms by (rule server_serves)

theorem server_answers_asker_witness:
  "\<exists>s'. server_run be64 [[], [], [], []] (asked_server (frame True ''who'' [])) = (Inr (), s') \<and> sv_listening s'
    \<and> rep_out 6 (sv_socket s') = []"
proof -
  let ?s = "asked_server (frame True ''who'' [])"
  have "ExecFunc be64 (frame True ''who'' [] @ []) (sv_rpc ?s) = (Inr (frame (plat_le be64) ''who'' [ret_val RC_FunctionNotFound (VArith (A8 0))]),
      (sv_rpc ?s)\<lparr>rsp_serializer := ss_set_str []\<rparr>)"
    by (rule ExecFunc_unbound) (simp_all add: asked_server_sel)
  then have e: "ExecFunc be64 (frame True ''who'' []) (sv_rpc ?s) = (Inr (frame (plat_le be64) ''who'' [ret_val RC_FunctionNotFound (VArith (A8 0))]),
      (sv_rpc ?s)\<lparr>rsp_serializer := ss_set_str []\<rparr>)"
    by simp
  show ?thesis
    using server_answers_asker [of ?s 5 "frame True ''who'' []" "[]" be64, OF _ _ _ _ _ _ e, of "[]" "[]" "[]" "[]"]
      asked_responder_ready [of "frame True ''who'' []"] by (auto simp: asked_server_sel)
qed

text \<open>C10: \<open>StopProcess\<close> ends: four steps after it was told to stop, whatever it was doing and whatever
  arrives, the responder's thread has returned or has thrown. If it throws in these steps, that is what
  happens; if it does not, it has returned, and \<open>StopProcess\<close> joins it, succeeds, destroys the responder and no other,
  and forgets its pointer, so that the server can be started again.\<close>

theorem stop_process_ends:
  assumes "comm_ok (sv_comm s)" "sv_responder s = Some r" "\<not> IsInstInvalid (rsp_responder (sv_rpc s))"
    and "wk_running respKey (resp_worker r)" "resp_pc r \<noteq> None" "4 \<le> length ds"
  shows "case run_respond (process p) ds (snd (StopResponse r), sv_rpc s) of
      (Inl x, (r', o')) \<Rightarrow> StopProcess p ds s = Some (Inl x, put_responder (rsp_responder (sv_rpc s)) r' (s\<lparr>sv_rpc := o'\<rparr>))
    | (Inr _, (r', o')) \<Rightarrow> resp_pc r' = Some Exited \<and> (\<exists>s'. StopProcess p ds s = Some (Inr True, s')
        \<and> comm_ok (sv_comm s') \<and> sv_rpc s' = o'\<lparr>rsp_responder := ResetInstInvalid\<rparr>
        \<and> comm_responders (sv_comm s') = (comm_responders (sv_comm s))(rsp_responder (sv_rpc s) := None))"
proof -
  obtain res r2 o2 where run: "run_respond (process p) ds (snd (StopResponse r), sv_rpc s) = (res, (r2, o2))"
    by (metis prod.collapse)
  show ?thesis
  proof (cases res)
    case (Inl x)
    obtain r1 where "StopResponse r = (True, r1)" using ro.stop_running [OF assms(4)] by blast
    then show ?thesis using run Inl assms(2,3) by (simp add: StopProcess_def sv_responder_def Let_def)
  next
    case (Inr u)
    then have fin: "run_respond (process p) ds (snd (StopResponse r), sv_rpc s) = (Inr (), (r2, o2))" using run by simp
    have "resp_pc r2 = Some Exited" by (rule stopped_exits(1) [OF fin assms(6,4,5)])
    with StopProcess_stops [OF assms(1-5) fin assms(6)] show ?thesis using fin by simp
  qed
qed

theorem stop_process_ends_witness:
  "\<exists>s'. StopProcess be64 [[], [], [], []] sample_server = Some (Inr True, s') \<and> comm_ok (sv_comm s')
    \<and> IsInstInvalid (rsp_responder (sv_rpc s'))
    \<and> comm_responders (sv_comm s') = (comm_responders (sv_comm sample_server))(rsp_responder (sv_rpc sample_server) := None)"
proof -
  have "fst (run_respond (process be64) [[], [], [], []] (snd (StopResponse (started_responder (net 32))), sv_rpc sample_server)) = Inr ()"
    by (simp add: StopResponse_def worker_stop_def started_responder_run bindS_def respond_step_def worker_test_def goto_def)
  then obtain r' o' where run: "run_respond (process be64) [[], [], [], []] (snd (StopResponse (started_responder (net 32))), sv_rpc sample_server)
      = (Inr (), (r', o'))" by (metis prod.collapse)
  have "comm_ok (sv_comm sample_server)" "sv_responder sample_server = Some (started_responder (net 32))"
    "\<not> IsInstInvalid (rsp_responder (sv_rpc sample_server))" "wk_running respKey (resp_worker (started_responder (net 32)))"
    "resp_pc (started_responder (net 32)) \<noteq> None" "4 \<le> length [[], [], [], [] :: deliveries]"
    by (simp_all add: sample_server_started started_responder_run IsInstInvalid_def wk_running_def)
  from stop_process_ends [OF this, of be64] show ?thesis
    by (force simp: run IsInstInvalid_def ResetInstInvalid_def simp del: run_respond.simps)
qed

text \<open>C11: A request without any bytes ends the server: the thread does not answer it, so its next receive is out
  of turn for the REP socket, and the exception leaves the thread.\<close>

theorem empty_request_ends_server:
  assumes "resp_listening r" "rep_idle (resp_socket r)" "rep_next x (resp_socket r)" "rep_peer x (resp_socket r)"
    and "p_in (rt_heap (rp_router (resp_socket r)) x) = envelope [] @ rest"
  shows "fst (run_respond proc [d1, d2, d3, d4] (r, a)) = Inl (Zmq_Error EFSM)"
proof -
  have "p_in (rt_heap (rp_router (resp_socket r)) x) = mk_msg [] True # mk_msg [] False # rest"
    using assms(5) by (simp add: envelope_def)
  then obtain s where "rep_recv d2 (resp_socket r) = (Inr (mk_msg [] False), s)"
    by (rule rep_request_reply [OF assms(2-4)])
  then show ?thesis by (rule run_respond_empty_request [OF assms(1)])
qed

theorem empty_request_ends_server_witness:
  "fst (run_respond (process be64) [[], [], [], []] (asked_responder [], sample_rpc)) = Inl (Zmq_Error EFSM)"
  using empty_request_ends_server [of "asked_responder []" 5 "[]"] asked_responder_ready [of "[]"] by simp

text \<open>C12: In every reachable state of a responder, whatever arrives and in whatever order the owner starts, stops, waits
  and resets, a thread that has not returned has a joinable entry in the map, so no call of the owner can lose it. And as
  long as what arrives are single non-empty messages, the phase of its REP socket is the position of its thread:
  the socket owes a reply exactly while the thread is between a request and its reply. (With an empty message it is not
  so, and the thread ends: \<open>empty_request_ends_server\<close>.)\<close>

theorem responder_invariant:
  assumes "resp_any p proc r a"
  shows "(resp_pc r \<noteq> None \<and> resp_pc r \<noteq> Some Exited \<longrightarrow> (\<exists>exit. wk_map (resp_worker r) respKey = Some (True, exit)))
    \<and> (resp_reach p proc r a \<longrightarrow> rp_sending_reply (resp_socket r) = (\<exists>j. resp_pc r = Some (Job j)))"
  using resp_any_inv [OF assms] resp_reach_inv [of p proc r a] by (auto simp: resp_inv_def phase_ok_def wk_inv_def)

theorem responder_invariant_witness:
  "\<not> rp_sending_reply (resp_socket (started_responder (net 32)))
    \<and> (\<exists>exit. wk_map (resp_worker (started_responder (net 32))) respKey = Some (True, exit))"
proof -
  have r: "resp_reach le64 (\<lambda>q. retS q) (started_responder (net 32)) ()" by (rule sample_reach)
  show ?thesis using responder_invariant [OF resp_reach_any [OF r]] r by (simp add: started_responder_run(3))
qed

text \<open>C13: So as long as its requests are single non-empty messages, no step of the thread is refused by its own
  socket, whatever the order in which the owner starts, stops, waits and resets.\<close>

theorem responder_never_refused:
  assumes "resp_reach p proc r a" "\<And>q a. fst (proc q a) \<noteq> Inl (Zmq_Error EFSM)"
  shows "fst (respond_step proc d (r, a)) \<noteq> Inl (Zmq_Error EFSM)"
  using assms by (rule respond_step_not_refused)

theorem responder_never_refused_witness:
  "fst (respond_step (\<lambda>q. retS q) [(5, envelope ''x'')] (started_responder (net 32), ())) \<noteq> Inl (Zmq_Error EFSM)"
  by (rule responder_never_refused [OF sample_reach]) simp

section \<open>Requesters, options, instances and threads\<close>

text \<open>C14: For each of the 46 options of the model that can be set and read (all those of \<open>options.cpp\<close> that every build has both
  ways): a value that is refused is refused with \<open>EINVAL\<close> and changes nothing, and after a value was accepted reading the option
  returns the very bytes it was set with, but for the cases named by \<open>read_back\<close>: a heartbeat's time to live comes back in whole
  tenths of a second (150 as 100, and -50 as 0), an option that takes any number as a truth value comes back as 0 or 1, a string with a zero byte
  at its end, and withdrawing the user name or password of PLAIN leaves the string as it was.\<close>

theorem option_set_get:
  "case options_setsockopt p opt v s of
     (Inl e, s') \<Rightarrow> e = EINVAL \<and> s' = s
   | (Inr _, s') \<Rightarrow> options_getsockopt p opt (length (read_back p opt v s)) s' = Inr (read_back p opt v s)"
proof (cases "options_setsockopt p opt v s")
  case (Pair res s')
  then show ?thesis
    using options_setsockopt_refused [of p opt v s _ s'] options_set_get [of p opt v s s' "read_back p opt v s"]
    by (cases res) auto
qed

text \<open>C15: The registry is one table of instances. Whatever is created, used and destroyed, in any order, successfully
  or not, each operation returns what it does on a single table from pointers to instances, and the four maps hold just what
  that table holds, each pointer under its kind only, the null pointer under none. So a creation returns a pointer to a fresh
  instance of its kind, or null when the address is refused; \<open>DestroyInstance\<close> returns true exactly for a pointer that was
  created and not destroyed since, removes that instance and no other, and only an instance whose
  thread was not joined brings the process down. It is assumed that \<open>new\<close> returns an address no live object has.\<close>

theorem registry_refines:
  assumes "allocs_ok ops Map.empty"
  shows "\<exists>m. reg_run p ops new_Communicator = (fst (spec_run ops Map.empty), m) \<and> registry_holds m (snd (spec_run ops Map.empty))"
  by (rule run_refines [OF holds_new assms])

theorem registry_refines_witness:
  "fst (reg_run le64 [Create_Requester (net 16) ''10.0.0.1:80'', Create_Subscriber (net 48) ''10.0.0.1:81'',
      Use_Subscriber 48 (\<lambda>r. snd (StartReceive r)), Destroy 16, Destroy 16, Use_Requester 16 id] new_Communicator)
    = [Pointer 16, Pointer 48, Done, Answer True, Answer False, Threw Null_Dereference]"
proof -
  let ?ops = "[Create_Requester (net 16) ''10.0.0.1:80'', Create_Subscriber (net 48) ''10.0.0.1:81'',
      Use_Subscriber 48 (\<lambda>r. snd (StartReceive r)), Destroy 16, Destroy 16, Use_Requester 16 id]"
  have "allocs_ok ?ops Map.empty" "fst (spec_run ?ops Map.empty)
      = [Pointer 16, Pointer 48, Done, Answer True, Answer False, Threw Null_Dereference]"
    by (simp_all add: spec_create_def net_def)
  then show ?thesis using registry_refines [of ?ops le64] by (auto simp del: reg_run.simps spec_run.simps)
qed

section \<open>Publishing and subscribing\<close>

text \<open>C16: After any sequence of up to \<open>2 ^ 32 - 1\<close> additions and removals a subscriber's trie matches a message
  if and only if a prefix of it was added more often than removed (a removal too many does not count).\<close>

theorem subscriptions_counted:
  assumes "length ops < 2 ^ 32"
  shows "trie_check d (trie_of ops) \<longleftrightarrow> (\<exists>p. prefix p d \<and> 0 < count_of ops p)"
  using assms by (rule trie_of_check)

theorem subscriptions_counted_witness:
  "\<not> trie_check ''abc'' (trie_of [Sub_Rm ''ab'', Sub_Add ''ab'', Sub_Add ''b'', Sub_Rm ''ab''])"
  using subscriptions_counted [of "[Sub_Rm ''ab'', Sub_Add ''ab'', Sub_Add ''b'', Sub_Rm ''ab'']" "''abc''"]
  by (auto simp: count_of_def)

text \<open>C17: The nodes of both tries stay well formed under every sequence of operations: the count of live entries is
  right, the table of a node spans at most 256 characters and begins and ends with a live entry.\<close>

theorem tries_well_formed: "trie_ok (trie_of ops) \<and> trie_ok (mtrie_of ops')"
  using trie_of_ok mtrie_of_pairs(1) by (simp add: mtrie_ok_def)

text \<open>C18: A publisher's trie hands a message to exactly the pipes that hold a subscription to a prefix of it, after
  any sequence of subscriptions, cancellations and ends of pipes.\<close>

theorem subscribers_matched:
  "set (mtrie_match d (mtrie_of ops)) = {x. \<exists>p. prefix p d \<and> (p, x) \<in> pairs_of ops}"
  by (rule mtrie_of_match)

text \<open>C19: Publishing never fails and never blocks: the envelope and the content go, together and in this order, to
  exactly the subscribed pipes that have room, and the subscriptions stay as they are.\<close>

theorem publish_exact:
  assumes "pub_ok (pub_socket r)"
  shows "\<exists>r'. Publish e c r = (Inr (), r') \<and> pub_ok (pub_socket r')
    \<and> xp_subscriptions (pub_socket r') = xp_subscriptions (pub_socket r)
    \<and> (\<forall>x. pub_out x (pub_socket r') = pub_out x (pub_socket r) @
       (if x \<in> pub_subscribed (pub_socket r) e \<and> pipe_open (xp_heap (pub_socket r) x) then [mk_msg e True, mk_msg c False] else []))"
  using Publish_pair [OF assms, of e c] by blast

theorem publish_exact_witness:
  "\<exists>r'. Publish ''topic1'' ''news'' sample_publisher = (Inr (), r') \<and> pub_out 3 (pub_socket r') = [mk_msg ''topic1'' True, mk_msg ''news'' False]"
proof -
  have "pub_ok (pub_socket sample_publisher)" by (rule sample_publisher_ready)
  from publish_exact [OF this, of "''topic1''" "''news''"] show ?thesis
    using sample_publisher_ready(4,5) sample_publisher_subscribed by auto
qed

text \<open>C20: A subscriber's receive: a published pair whose envelope begins with a subscribed topic is handed out
  complete; any other pair is dropped, and the receive times out without an error.\<close>

theorem subscriber_filters:
  assumes "sub_peer x s"
  shows "\<exists>s'. recv_multipart [(x, [mk_msg e True, mk_msg c False])] s
      = (Inr (if sub_takes s e then [mk_msg e True, mk_msg c False] else []), s')
    \<and> sub_peer x s' \<and> xs_subscriptions s' = xs_subscriptions s"
proof (cases "sub_takes s e")
  case True
  then show ?thesis using recv_multipart_pair [OF assms True, of c "[]"] by simp
next
  case False
  then show ?thesis
    using sub_recv_filtered [OF assms False, of c] by (auto simp: recv_multipart_def bindS_def zmq_result_def simp del: xsub_recv.simps)
qed

theorem subscriber_filters_witness:
  "\<exists>s'. recv_multipart [(0, [mk_msg ''topic'' True, mk_msg ''news'' False])] (sub_socket connected_subscriber) = (Inr [], s')"
  using subscriber_filters [OF connected_subscriber_ready(1), of "''topic''" "''news''"] connected_subscriber_ready(3) by auto

text \<open>C21: Unsubscribing from a topic that starts with the byte 1 does not take a subscription away but adds one, to the
  rest of the topic: the cancel message is taken for a subscription in the old form.\<close>

theorem unsubscribe_byte_1:
  assumes "sub_plain (sub_socket r)" "char_num c = 1"
  shows "xs_subscriptions (sub_socket (Unsubscribe (c # cs) r)) = snd (trie_add cs (xs_subscriptions (sub_socket r)))"
  using sub_unsubscribe [OF assms(1), of "c # cs"] assms(2) by (simp add: Unsubscribe_def)

theorem unsubscribe_byte_1_witness:
  "sub_takes (sub_socket (Unsubscribe [CHR 0x01, CHR ''x''] connected_subscriber)) ''xyz''"
proof -
  have "xs_subscriptions (sub_socket (Unsubscribe [CHR 0x01, CHR ''x''] connected_subscriber))
      = snd (trie_add ''x'' (xs_subscriptions (sub_socket connected_subscriber)))"
    by (rule unsubscribe_byte_1 [OF connected_subscriber_ready(2)]) (simp add: char_num_def)
  then show ?thesis
    using connected_subscriber_ready(2,4) subs_add [of "xs_subscriptions (sub_socket connected_subscriber)" "''x''"]
    by (auto simp: sub_takes_def sub_plain_def intro: exI [of _ "''x''"])
qed

text \<open>C22: Once told to stop, a subscriber's thread only finishes the round it is in: the receive it may be waiting
  in, the processing of what that brings and the report to the callback. Within four of its steps, whatever arrives,
  it has done exactly that and returned, and waiting for it then succeeds; or this rest of the round has failed
  (a callback has thrown, or the receive it was in), and the thread with it, with the same exception.\<close>

theorem subscriber_thread_stops:
  assumes "wk_running subKey (sub_worker r)" "sub_pc r \<noteq> None" "4 \<le> length ds"
  shows "case rest_of_round callback proc (hd ds) (sub_socket r) (sub_pc r) a of
      (Inl x, a') \<Rightarrow> \<exists>r'. run_receive callback proc ds (snd (StopReceive r), a) = (Inl x, (r', a'))
    | (Inr _, a') \<Rightarrow> \<exists>r' r''. run_receive callback proc ds (snd (StopReceive r), a) = (Inr (), (r', a'))
        \<and> sub_pc r' = Some Exited \<and> WaitReceive r' = Some (True, r'')"
proof -
  let ?r = "snd (StopReceive r)" and ?R = "rest_of_round callback proc (hd ds) (sub_socket r) (sub_pc r) a"
  have stop: "wk_stopping subKey (sub_worker ?r)" "wk_running subKey (sub_worker ?r)" "sub_pc ?r = sub_pc r" "sub_socket ?r = sub_socket r"
    using assms(1) by (auto simp: StopReceive_def worker_stop_def wk_running_def wk_stopping_def)
  obtain r' where run: "run_receive callback proc ds (?r, a) = (fst ?R, (r', snd ?R))" "fst ?R = Inr () \<longrightarrow> sub_pc r' = Some Exited"
    using run_receive_stopping [OF stop(1) _ assms(3), of ?R callback proc a] stop(3,4) assms(2) by auto
  have "wk_running subKey (sub_worker r')"
    using run_receive_map [OF run(1)] stop(2) by (simp add: wk_running_def)
  then show ?thesis
    using run so.wait_exited [of r'] by (cases ?R) (auto split: sum.split)
qed

theorem subscriber_thread_stops_witness:
  "\<exists>r' r''. run_receive (\<lambda>b. retS ()) (\<lambda>e c. retS ()) [[], [], [], []] (snd (StopReceive started_subscriber), ()) = (Inr (), (r', ()))
    \<and> sub_pc r' = Some Exited \<and> WaitReceive r' = Some (True, r'')"
proof -
  have w: "sub_worker started_subscriber = \<lparr>wk_map = [subKey \<mapsto> (True, True)], wk_pc = Some Spin\<rparr>"
    by (simp add: started_subscriber_def StartReceive_def Subscribe_def worker_start_def connected_subscriber_worker new_worker_def)
  have "wk_running subKey (sub_worker started_subscriber)" "sub_pc started_subscriber \<noteq> None"
    by (simp_all add: w wk_running_def)
  from subscriber_thread_stops [OF this, of "[[], [], [], []]" "\<lambda>b. retS ()" "\<lambda>e c. retS ()" "()"] show ?thesis
    by (simp add: w del: run_receive.simps)
qed

section \<open>Messages, queues and pipes\<close>

text \<open>C23: Sharing cannot be noticed by callers that keep to the rules. If messages are initialised only where nothing is held,
  metadata is attached only to a message without any, no message is copied onto itself, \<open>set_group\<close> is called only on a message
  that has no group of more than 14 characters and none with such a group is published (the condition \<open>fits_run\<close>), then
  whatever else is done with messages, copying, moving, sending, publishing to pipes that take them or not, receiving,
  decoding without copying, no operation fails, and each returns and leaves in every message what it would
  if each message had its own bytes, for as long as the operations stay below the range of the 32-bit reference counts.
  The last three rules are needed because of defects of \<open>msg.cpp\<close>: \<open>ZmqMsgRun.self_copy_frees\<close>,
  \<open>group_overwritten\<close> and \<open>long_group_freed_twice\<close> are runs that break them and fail.\<close>

theorem messages_are_values:
  assumes "fits_run ops no_msgs" "sum_list (map op_size ops) + 3 < 2 ^ 32"
  shows "\<exists>rs s. msg_run ops no_msgs = Some (rs, s) \<and> val_run ops [] = (rs, vals s)"
  using run_sound [OF no_msgs_ok(1) assms(1)] assms(2) by (auto simp: no_msgs_ok(2))

theorem messages_are_values_witness:
  "\<exists>rs s. msg_run sample_msgs no_msgs = Some (rs, s) \<and> val_run sample_msgs [] = (rs, vals s)"
  by (rule messages_are_values) (rule sample_msgs_fit)+

text \<open>C24: Under the same rules (\<open>fits_run\<close>: initialisation only where nothing is held, metadata only for a message without, no copy of a
  message onto itself, no \<open>set_group\<close> on and no publishing of a message with a group of more than 14 characters) and within the
  range of the reference counts, no block of a message is freed while a message refers to it, none twice and none never: data given
  with a function to free it is given to that function at most once, and when all messages are closed and all engines and decoders
  are gone, exactly once, and contents, receive buffers, metadata and groups are all freed. Without the rules it is not so: see
  \<open>ZmqMsgRun.long_group_freed_twice\<close> and \<open>self_copy_frees\<close>.\<close>

theorem messages_freed_once:
  assumes "fits_run ops no_msgs" "sum_list (map op_size ops) + 3 < 2 ^ 32"
  shows "\<exists>rs s. msg_run ops no_msgs = Some (rs, s) \<and> mset (mh_freed (ms_heap s)) \<subseteq># given_all ops \<and>
    (\<forall>m \<in> set (ms_vars s). \<forall>a. content_of m = Some a \<longrightarrow> block (mh_content (ms_heap s)) a \<noteq> None) \<and>
    (all_gone s \<longrightarrow> no_blocks (ms_heap s) \<and> mset (mh_freed (ms_heap s)) = given_all ops)"
proof -
  obtain rs s where s: "msg_run ops no_msgs = Some (rs, s)" "world_ok (sum_list (map op_size ops)) s" "owed (ms_heap s) = given_all ops"
    using run_sound [OF no_msgs_ok(1) assms(1)] assms(2) by (auto simp: no_msgs_ok(3))
  have "mset (mh_freed (ms_heap s)) \<subseteq># given_all ops" unfolding s(3) [symmetric] owed_def by simp
  moreover have "block (mh_content (ms_heap s)) a \<noteq> None" if "m \<in> set (ms_vars s)" "content_of m = Some a" for m a
    using content_used [OF world_refs [OF s(2)] _ that(2)] that(1) by auto
  ultimately show ?thesis using s world_gone [OF s(2)] by auto
qed

theorem messages_freed_once_witness:
  "\<exists>rs s. msg_run sample_msgs no_msgs = Some (rs, s) \<and> no_blocks (ms_heap s) \<and> mset (mh_freed (ms_heap s)) = {#7#}"
proof -
  obtain rs s where s: "msg_run sample_msgs no_msgs = Some (rs, s)"
    "all_gone s \<longrightarrow> no_blocks (ms_heap s) \<and> mset (mh_freed (ms_heap s)) = given_all sample_msgs"
    using messages_freed_once [OF sample_msgs_fit] by blast
  have "all_gone (snd (the (msg_run sample_msgs no_msgs)))" by code_simp
  moreover have "given_all sample_msgs = {#7#}" by (simp add: given_all_def sample_msgs_def given_def)
  ultimately show ?thesis using s by simp
qed

text \<open>C25: The lock-free queue under a pipe is a queue. However the steps of its writer and its reader interleave, no
  step touches memory that was freed, and every answer is the one the specification gives: a queue of
  values with a flag for the sleeping reader, on which a flush is one step.\<close>

theorem ypipe_is_queue:
  assumes "yp_reach n s tr"
  shows "\<exists>t. sq_replay tr = Some t \<and> yp_sim n (fst s) t \<and>
    (\<forall>x. yp_enabled x s \<longrightarrow> (\<exists>s'. yp_step n x s = Some (fst (sq_step x t), s') \<and> yp_reach n s' ((x, fst (sq_step x t)) # tr)))"
proof -
  obtain t where t: "sq_replay tr = Some t" "yp_sim_run n s t" using yp_reach_replay [OF assms] by blast
  then show ?thesis using yp_step_sim [OF t(2)] yp_reach.yp_next [OF assms] unfolding yp_sim_run_def by metis
qed

theorem ypipe_is_queue_witness:
  "\<exists>p :: nat ypipe. \<exists>t. yp_new 2 7 9 = Some p \<and> sq_replay [] = Some t \<and> yp_sim 2 p t \<and>
    (\<exists>s'. yp_step 2 Check (p, False) = Some (Said False, s') \<and> yp_reach 2 s' [(Check, Said False)])"
proof -
  obtain p :: "nat ypipe" where p: "yp_new 2 7 9 = Some p" by (rule yp_new_sim [of 2 7 9]) auto
  have r: "yp_reach 2 (p, False) []" by (rule yp_reach.yp_start [OF p]) auto
  have e: "yp_enabled Check (p, False)" by (simp add: yp_enabled_def)
  show ?thesis using ypipe_is_queue [OF r] e p
    by (auto simp: sq_new_def sq_step_def sq_check_read_def)
qed

text \<open>C26: In the lock-free queue the reader takes the items in the order they were put, never one that was not
  flushed, and no wake-up is lost: a reader that found nothing and was not woken has nothing flushed left to
  take, and \<open>flush\<close> returns false exactly when it makes items available to a reader that sleeps.\<close>

theorem ypipe_wakes_reader:
  assumes "yp_reach n (p, w) tr"
  shows "items_taken tr = take (length (items_taken tr)) (items_put tr)
    \<and> length (items_taken tr) \<le> count_flushed tr \<and> count_flushed tr \<le> count_complete tr
    \<and> (reader_sleeps tr \<longrightarrow> length (items_taken tr) = count_flushed tr)
    \<and> fst (yp_check_read p) = (length (items_taken tr) < count_flushed tr)
    \<and> fst (yp_flush p) = (\<not> (reader_sleeps tr \<and> count_flushed tr < count_complete tr))"
proof -
  obtain t where t: "sq_replay tr = Some t" "yp_sim n p t"
    using yp_reach_replay [OF assms] by (auto simp: yp_sim_run_def)
  then show ?thesis
    using sq_replay_tells [OF t(1)] yp_check_read_sim [OF t(2)] yp_flush_sim [OF t(2)]
    by (auto simp: sq_tells_def sq_check_read_def sq_flush_def)
qed

theorem ypipe_wakes_reader_witness:
  "\<exists>p :: nat ypipe. yp_new 2 7 9 = Some p \<and> \<not> fst (yp_check_read p) \<and> fst (yp_flush p)"
proof -
  obtain p :: "nat ypipe" where p: "yp_new 2 7 9 = Some p" by (rule yp_new_sim [of 2 7 9]) auto
  have "yp_reach 2 (p, False) []" by (rule yp_reach.yp_start [OF p]) auto
  from ypipe_wakes_reader [OF this] p show ?thesis by simp
qed

text \<open>C27: A mailbox delivers the commands sent by any number of threads in the order they were written, whatever the interleaving: no
  assertion fails, there is never more than one signal, and when no sender is between writing and signalling, a receiver
  that has not got everything gets the next command, wherever in \<open>recv\<close> it was.\<close>

theorem mailbox_delivers:
  assumes "mb_reach n m sent got"
  shows "(\<forall>x. mb_enabled x m \<longrightarrow> mb_step n x m \<noteq> None) \<and> mb_signals m \<le> 1 \<and>
    (\<exists>rest. sent = got @ rest \<and> ((\<forall>c \<in> set (mb_senders m). \<not> wrote c \<and> \<not> will_signal c) \<and> rest \<noteq> []
       \<longrightarrow> (\<exists>m'. mb_recv n 5 m = Some (Got (hd rest), m'))))"
proof -
  obtain t where t: "mb_ok n m t" "sent = got @ sq_ready t @ sq_complete t" using mb_reach_ok [OF assms] by blast
  have "mb_step n x m \<noteq> None" if "mb_enabled x m" for x using mb_step_keeps [OF t(1) that] by (auto simp: mb_keeps_def)
  then show ?thesis using mailbox_one_signal [OF assms] mailbox_receives [OF assms] t(2) by fastforce
qed

theorem mailbox_delivers_witness:
  "\<exists>m got'. mb_reach 2 m [10, 11 :: nat] [10] \<and> \<not> (\<exists>c \<in> set (mb_senders m). c \<noteq> S_Idle) \<and> mb_recv 2 5 m = Some (Got 11, got')"
proof -
  obtain m where m: "mb_run 2 sample_cmds (sample_mailbox, [], []) = Some (m, [10, 11], [10])" "mb_senders m = [S_Idle, S_Idle]"
    using sample_cmds_run by auto
  obtain m0 :: "nat mailbox" where "mb_new 2 1 2 2 = Some m0" by (rule mb_new_ok [of 2 1 2 2]) auto
  then have "mb_reach 2 sample_mailbox [] []" unfolding sample_mailbox_def by (intro mb_start [of 2 1 2 2]) simp_all
  from mb_run_reach [OF m(1) this] have r: "mb_reach 2 m [10, 11] [10]" .
  from mailbox_delivers [OF r] m(2) r show ?thesis by (auto simp: pc_simps simp del: mb_recv.simps)
qed

text \<open>C28: Flow control of a pair of pipes into which no credential is written, and no delimiter by hand (\<open>ordinary_act\<close>): all messages of a
  connection without authentication. Whatever the writer, the reader and the delivery of their commands do,
  at most the high water mark of messages is under way; a reader that is idle with no command on its way has
  nothing left to read; and a writer is free to write when all was read and it has heard so. (A credential, which
  an authenticated connection writes first, is counted when written and not when read, and takes its place for ever:
  \<open>ZmqChannel.credential_blocks_pipe\<close>.)\<close>

theorem channel_flow_control:
  assumes "\<forall>x \<in> set xs. ordinary_act x" "length xs < 2 ^ 64" "c = channel_run xs (pipepair h0 h1)"
  shows "(0 < h0 \<longrightarrow> int (counts (in_flight c)) \<le> h0)
    \<and> (\<not> p_in_active (ch_r c) \<and> ch_to_r c = [] \<longrightarrow> p_out (ch_w c) = [])
    \<and> (counts (in_flight c) = 0 \<and> ch_to_w c = [] \<longrightarrow> fst (pipe_check_write (ch_w c)))"
  using channel_run_ok [OF assms(1,2), of h0 h1] channel_bounded channel_reader_woken channel_writer_woken assms(2)
  unfolding assms(3) [symmetric] by blast

theorem channel_flow_control_witness:
  "counts (in_flight (channel_run [Ch_Write empty_msg, Ch_Write empty_msg, Ch_Flush] (pipepair 1 5))) \<le> 1"
  using channel_flow_control [of "[Ch_Write empty_msg, Ch_Write empty_msg, Ch_Flush]" _ 1 5]
  by (simp add: ordinary_act_def ordinary_def empty_msg_def)

text \<open>C29: A writer blocked by the high water mark is not blocked for ever: from every state the two ends of a pipe can reach
  as long as no credential is written into it, and no delimiter by hand (\<open>ordinary_act\<close>),
  once the writer has flushed, the reader has been woken and has read what there is, and the writer has got the
  reader's commands, it may write. (With a credential in the pipe and a high water mark of 1 it may not:
  \<open>ZmqChannel.credential_blocks_pipe\<close>.)\<close>

theorem channel_never_stuck:
  assumes "\<forall>x \<in> set xs. ordinary_act x" "c = channel_run xs (pipepair h0 h1)"
    and "length xs + length (drain c) < 2 ^ 64"
  shows "fst (pipe_check_write (ch_w (channel_run (drain c) c)))"
  using channel_run_ok [OF assms(1), of h0 h1] drain_writable [of h0 "length xs" c] assms(2,3) by simp

theorem channel_never_stuck_witness:
  "let c = channel_run [Ch_Write empty_msg, Ch_Write empty_msg] (pipepair 1 1)
   in \<not> p_out_active (ch_w c) \<and> fst (pipe_check_write (ch_w (channel_run (drain c) c)))"
proof -
  let ?xs = "[Ch_Write empty_msg, Ch_Write empty_msg]"
  let ?c = "channel_run ?xs (pipepair 1 1)"
  note defs = channel_run_def channel_step_def writing_def pipe_write_def pipe_check_write_def pipe_check_hwm_def
    pipepair_def new_pipe_def empty_msg_def
  have "\<not> p_out_active (ch_w ?c)" "length (drain ?c) = 4"
    by (simp_all add: defs drain_def in_flight_def)
  moreover from this(2) have "fst (pipe_check_write (ch_w (channel_run (drain ?c) ?c)))"
    by (intro channel_never_stuck [of ?xs _ 1 1]) (simp_all add: ordinary_act_def ordinary_def empty_msg_def)
  ultimately show ?thesis by (simp add: Let_def)
qed

text \<open>C30: However the two ends of a pipe are used and terminated, together or one after the other, in whatever order commands
  and messages arrive, no assertion of the handshake fails, no command reaches an end that was deallocated, and no end
  touches a queue that its reader has freed.\<close>

theorem pipe_termination_safe:
  assumes "\<forall>a \<in> set as. user_act a"
  shows "term_run as (new_pair hwm0 hwm1) \<noteq> None"
  using run_ok [OF new_pair_ok assms] by fastforce

theorem pipe_termination_safe_witness: "term_run closing_acts (new_pair 1 1) \<noteq> None"
  by (rule pipe_termination_safe) (simp add: closing_acts_def user_act_def)

text \<open>C31: Once one end was told to terminate, the two ends get to be deallocated: from every state that follows it is enough that
  they process their commands and read, the messages still on the way and then the delimiter.\<close>

theorem pipe_termination_completes:
  assumes "\<forall>a \<in> set as. user_act a" "(x, T_Terminate d) \<in> set as"
  shows "\<exists>ys c. (\<forall>a \<in> set ys. snd a = T_Command \<or> snd a = T_Read) \<and> term_run (as @ ys) (new_pair hwm0 hwm1) = Some c \<and>
    pe_gone (pp_end c True) \<and> pe_gone (pp_end c False)"
proof -
  obtain c where c: "term_run as (new_pair hwm0 hwm1) = Some c" "pair_ok c" using run_ok [OF new_pair_ok assms(1)] by blast
  have "requested c" using run_requested [OF new_pair_ok assms(1) _ c(1), of x d] assms(2) by blast
  then show ?thesis using winds_up [OF c(2)] by (auto simp: term_run_append c(1))
qed

theorem pipe_termination_completes_witness:
  "\<exists>ys c. (\<forall>a \<in> set ys. snd a = T_Command \<or> snd a = T_Read) \<and> term_run (closing_acts @ ys) (new_pair 1 1) = Some c \<and>
    pe_gone (pp_end c True) \<and> pe_gone (pp_end c False)"
  by (rule pipe_termination_completes [of _ True True]) (simp_all add: closing_acts_def user_act_def)

section \<open>The wire\<close>

text \<open>C32: Two peers of this version never wait for each other's greeting for ever: wherever the reads of the two have
  led, further reads complete both greetings, and then both select version 3.1 and the mechanism both name, or
  both refuse the connection because they name different ones.\<close>

theorem greeting_agrees:
  "\<exists>ys. let ab = exchange_run oa ob (xs @ ys);
      same = (go_mechanism oa = go_mechanism ob \<and>
        (go_mechanism oa = Mech_Null \<or> go_mechanism oa = Mech_Plain \<or> built (go_mechanism oa)));
      v = Some (if same then Some (V3_1, Some (go_mechanism oa)) else None)
    in fst (handshake built oa [] (fst ab)) = v \<and> fst (handshake built ob [] (snd ab)) = v"
proof -
  obtain ys where ys: "gr_recv (fst (exchange_run oa ob (xs @ ys))) = full_greeting ob"
    "gr_recv (snd (exchange_run oa ob (xs @ ys))) = full_greeting oa" using exchange_completes by blast
  let ?a = "fst (exchange_run oa ob (xs @ ys))" and ?b = "snd (exchange_run oa ob (xs @ ys))"
  have ok: "half_ok oa ob ?a ?b" "half_ok ob oa ?b ?a" using exchange_run_ok [of oa ob "xs @ ys"] by auto
  have size: "gr_size ?a = 64" "gr_size ?b = 64" using half_ok_sel(3) [OF ok(1)] half_ok_sel(3) [OF ok(2)] ys by simp_all
  show ?thesis
    using complete_handshake [OF ys(1) size(1), of built] complete_handshake [OF ys(2) size(2), of built]
    by (intro exI [of _ ys]) (cases "go_mechanism oa = go_mechanism ob"; simp add: Let_def)
qed

text \<open>C33: The READY commands of two peers are understood by each other, and either both accept or both refuse: when, with
  no ZAP handler asked,
  their socket types go together both are ready and each knows the other's type and, if it is sent and wanted,
  its routing id; otherwise both end with \<open>EINVAL\<close>.\<close>

theorem peers_accept:
  assumes "sendable_options oa" "own_names oa" "sendable_options ob" "own_names ob"
    and "\<not> mo_zap_required oa" "\<not> mo_zap_required ob"
  shows "\<exists>ra rb a b. next_handshake_command z oa null_mechanism_new = (Some (Inr ra), a)
    \<and> next_handshake_command z ob null_mechanism_new = (Some (Inr rb), b)
    \<and> (if check_socket_type (mo_type oa) (socket_type_string (mo_type ob))
       then \<exists>a' b'. process_handshake_command oa rb a = (Inr (), a') \<and> process_handshake_command ob ra b = (Inr (), b')
         \<and> null_status a' = Mech_Ready \<and> null_status b' = Mech_Ready
         \<and> pi_properties (nm_peer a') ''Socket-Type'' = Some (socket_type_string (mo_type ob))
         \<and> pi_properties (nm_peer b') ''Socket-Type'' = Some (socket_type_string (mo_type oa))
         \<and> pi_routing_id (nm_peer b') = (if mo_recv_routing_id ob \<and> sends_identity (mo_type oa) then mo_routing_id oa else [])
         \<and> pi_routing_id (nm_peer a') = (if mo_recv_routing_id oa \<and> sends_identity (mo_type ob) then mo_routing_id ob else [])
       else fst (process_handshake_command oa rb a) = Inl Mech_EINVAL \<and> fst (process_handshake_command ob ra b) = Inl Mech_EINVAL)"
proof -
  let ?m = "null_mechanism_new\<lparr>nm_ready_sent := True\<rparr>"
  have m: "\<not> nm_ready_received ?m" "\<not> nm_error_received ?m" by (simp_all add: null_mechanism_new_def)
  have peer: "nm_peer ?m = \<lparr>pi_routing_id = [], pi_properties = Map.empty\<rparr>" by (simp add: null_mechanism_new_def)
  obtain ra where ra: "make_command_with_basic_properties oa ready_command_name = Some ra"
    "process_handshake_command ob ra ?m = (case take_properties ob (basic_property_list oa) (nm_peer ?m) of
       Inl e \<Rightarrow> (Inl e, ?m\<lparr>nm_ready_received := True\<rparr>) | Inr p \<Rightarrow> (Inr (), ?m\<lparr>nm_ready_received := True, nm_peer := p\<rparr>))"
    by (rule ready_processed [OF assms(1) m])
  obtain rb where rb: "make_command_with_basic_properties ob ready_command_name = Some rb"
    "process_handshake_command oa rb ?m = (case take_properties oa (basic_property_list ob) (nm_peer ?m) of
       Inl e \<Rightarrow> (Inl e, ?m\<lparr>nm_ready_received := True\<rparr>) | Inr p \<Rightarrow> (Inr (), ?m\<lparr>nm_ready_received := True, nm_peer := p\<rparr>))"
    by (rule ready_processed [OF assms(3) m])
  have sent: "next_handshake_command z oa null_mechanism_new = (Some (Inr ra), ?m)"
    "next_handshake_command z ob null_mechanism_new = (Some (Inr rb), ?m)"
    using ra(1) rb(1) assms(5,6) by (simp_all add: next_handshake_command_def ask_zap_def null_mechanism_new_def)
  note accept = ready_accepted [OF assms(2) peer, of ob] ready_accepted [OF assms(4) peer, of oa]
  show ?thesis
  proof (cases "check_socket_type (mo_type oa) (socket_type_string (mo_type ob))")
    case True
    then have True': "check_socket_type (mo_type ob) (socket_type_string (mo_type oa))" using check_symmetric by metis
    obtain p where p: "take_properties ob (basic_property_list oa) (nm_peer ?m) = Inr p"
      "pi_properties p ''Socket-Type'' = Some (socket_type_string (mo_type oa))"
      "pi_routing_id p = (if mo_recv_routing_id ob \<and> sends_identity (mo_type oa) then mo_routing_id oa else [])"
      using accept(1) True' by auto
    obtain q where q: "take_properties oa (basic_property_list ob) (nm_peer ?m) = Inr q"
      "pi_properties q ''Socket-Type'' = Some (socket_type_string (mo_type ob))"
      "pi_routing_id q = (if mo_recv_routing_id oa \<and> sends_identity (mo_type ob) then mo_routing_id ob else [])"
      using accept(2) True by auto
    have st: "null_status (?m\<lparr>nm_ready_received := True, nm_peer := x\<rparr>) = Mech_Ready" for x
      by (simp add: null_status_def)
    have "process_handshake_command oa rb ?m = (Inr (), ?m\<lparr>nm_ready_received := True, nm_peer := q\<rparr>)"
      "process_handshake_command ob ra ?m = (Inr (), ?m\<lparr>nm_ready_received := True, nm_peer := p\<rparr>)"
      using ra(2) rb(2) p(1) q(1) by simp_all
    then show ?thesis unfolding if_P [OF True] using sent st p(2,3) q(2,3)
      by (intro exI [of _ ra] exI [of _ rb] exI [of _ ?m] exI conjI) (assumption | simp)+
  next
    case False
    then have False': "\<not> check_socket_type (mo_type ob) (socket_type_string (mo_type oa))" using check_symmetric by metis
    show ?thesis unfolding if_not_P [OF False] using accept False False' sent ra(2) rb(2)
      by (intro exI [of _ ra] exI [of _ rb] exI [of _ ?m] conjI) simp_all
  qed
qed

theorem peers_accept_witness:
  "\<exists>ra rb a b b'. let oa = \<lparr>mo_type = ST_REQ, mo_routing_id = ''me'', mo_recv_routing_id = False, mo_app_metadata = [],
        mo_zap_required = False, mo_zap_enforce_domain = False\<rparr>;
      ob = \<lparr>mo_type = ST_ROUTER, mo_routing_id = [], mo_recv_routing_id = True, mo_app_metadata = [],
        mo_zap_required = False, mo_zap_enforce_domain = False\<rparr>
    in next_handshake_command \<lparr>zh_connects = False, zh_reply = (0, [])\<rparr> oa null_mechanism_new = (Some (Inr ra), a)
      \<and> next_handshake_command \<lparr>zh_connects = False, zh_reply = (0, [])\<rparr> ob null_mechanism_new = (Some (Inr rb), b)
      \<and> process_handshake_command ob ra b = (Inr (), b') \<and> pi_routing_id (nm_peer b') = ''me''"
  using peers_accept [of "\<lparr>mo_type = ST_REQ, mo_routing_id = ''me'', mo_recv_routing_id = False, mo_app_metadata = [],
        mo_zap_required = False, mo_zap_enforce_domain = False\<rparr>"
      "\<lparr>mo_type = ST_ROUTER, mo_routing_id = [], mo_recv_routing_id = True, mo_app_metadata = [],
        mo_zap_required = False, mo_zap_enforce_domain = False\<rparr>" "\<lparr>zh_connects = False, zh_reply = (0, [])\<rparr>"]
  by (simp add: sendable_options_def own_names_def check_socket_type_def socket_type_string_def sends_identity_def Let_def)
    blast

text \<open>C34: A connection is a queue, in each of the three protocol versions. Whatever the sizes of the batches written,
  of the pieces the network takes and delivers and of the reads, and however often the receiving pipe was full in
  between: the receiving socket has been given a prefix of the messages on the sending socket's pipe, each the
  same (or, for a subscription in an old version, one the publisher treats as the same), all of them once the
  connection is at rest, and the connection has not been torn down.\<close>

theorem connection_is_queue:
  assumes "sends_all pr (decoder_for pr maxmsgsize alloc) src dst"
    and "conn_reach batch bufsize (new_connection pr (decoder_for pr maxmsgsize alloc) src dst) c"
  shows "(\<exists>sent rest. p_in src = sent @ rest \<and> list_all2 (carries pr) sent (delivered (ei_pipe (cn_in c)))
      \<and> (conn_rest c \<longrightarrow> rest = [])) \<and> \<not> ei_failed (cn_in c)"
proof -
  note o = connection_outlook [OF assms(1)]
  have k: "conn_ok c" "list_all2 (carries pr) (p_in src) (conn_outlook c)"
    using conn_reach_keeps [OF assms(2) o(1)] o(2) by simp_all
  obtain more where m: "conn_outlook c = delivered (ei_pipe (cn_in c)) @ more" using conn_delivers by blast
  then obtain sent rest where s: "p_in src = sent @ rest" "list_all2 (carries pr) sent (delivered (ei_pipe (cn_in c)))"
    "list_all2 (carries pr) rest more"
    using k(2) by (auto simp: list_all2_append2)
  moreover have "rest = []" if "conn_rest c" using conn_rest_outlook [OF k(1) that] m s(3) by simp
  ultimately show ?thesis using conn_failed [OF k(1)] by blast
qed

theorem connection_is_queue_witness:
  "\<exists>c :: connection. conn_rest c \<and> \<not> ei_failed (cn_in c)
    \<and> delivered (ei_pipe (cn_in c)) = [\<lparr>m_data = ''req'', m_more = True, m_kind = Plain\<rparr>, plain_msg ''body'', subscribe_msg ''topic'']"
proof -
  let ?ms = "[\<lparr>m_data = ''req'', m_more = True, m_kind = Plain\<rparr>, plain_msg ''body'', subscribe_msg ''topic'']"
  let ?src = "(new_pipe 0 0)\<lparr>p_in := ?ms\<rparr>"
  let ?d = "decoder_for V3_1_Encoder (-1) (\<lambda>_. True)"
  have all: "sends_all V3_1_Encoder ?d ?src (new_pipe 0 0)" by (rule sends_sample)
  obtain c where c: "conn_reach 8192 8192 (new_connection V3_1_Encoder ?d ?src (new_pipe 0 0)) c" "conn_rest c"
    using conn_comes_to_rest [OF _ _ connection_outlook(1) [OF all], of 8192 8192] by auto
  from connection_is_queue [OF all c(1)] c(2)
  have "list_all2 (carries V3_1_Encoder) ?ms (delivered (ei_pipe (cn_in c)))" "\<not> ei_failed (cn_in c)" by auto
  then have "delivered (ei_pipe (cn_in c)) = ?ms" by (simp add: carries_def list_all2_Cons1)
  with c(2) \<open>\<not> ei_failed (cn_in c)\<close> show ?thesis by blast
qed

text \<open>C35: No message gets stuck. From every state a connection can reach, a full pipe and half-read messages
  included, it can go on to a state in which every message has been given to the receiving socket.\<close>

theorem connection_never_stuck:
  assumes "sends_all pr (decoder_for pr maxmsgsize alloc) src dst" "0 < batch" "0 < bufsize"
    and "conn_reach batch bufsize (new_connection pr (decoder_for pr maxmsgsize alloc) src dst) c"
  shows "\<exists>c'. conn_reach batch bufsize c c' \<and> list_all2 (carries pr) (p_in src) (delivered (ei_pipe (cn_in c')))"
proof -
  note o = connection_outlook [OF assms(1)]
  have k: "conn_ok c" "list_all2 (carries pr) (p_in src) (conn_outlook c)"
    using conn_reach_keeps [OF assms(4) o(1)] o(2) by simp_all
  obtain c' where c': "conn_reach batch bufsize c c'" "conn_rest c'" using conn_comes_to_rest [OF assms(2,3) k(1)] by blast
  note k' = conn_reach_keeps [OF c'(1) k(1)]
  have "list_all2 (carries pr) (p_in src) (delivered (ei_pipe (cn_in c')))"
    using k(2) k' conn_rest_outlook [OF _ c'(2)] by simp
  with c'(1) show ?thesis by blast
qed

theorem connection_never_stuck_witness:
  "\<exists>c' :: connection. delivered (ei_pipe (cn_in c')) = [\<lparr>m_data = ''req'', m_more = True, m_kind = Plain\<rparr>, plain_msg ''body'', subscribe_msg ''topic'']"
  using connection_never_stuck [OF sends_sample _ _ conn_start, of 1 1]
  by (auto simp: carries_def list_all2_Cons1)

text \<open>C36: A subscription to a topic of 246 to 255 bytes breaks the stream: its size is written in eight bytes without
  the flag that says so. The publisher drops an empty command, takes two empty messages and one of a single
  byte, which is a subscription to everything when the topic has 247 bytes, and reads on in the middle of the command.\<close>

theorem long_topic_misread:
  assumes "length topic \<in> {246..255}" "fresh_for V3_1_Encoder d" "accepts d 0" "accepts d 1"
  shows "concat (map reaches (fst (feed_bytes d (take 9 (zmtp_frame V3_1_Encoder (wire_of_msg (subscribe_msg topic)))))))
      = [plain_msg [], plain_msg [], plain_msg [char_of (length topic - 246)]]
    \<and> (length topic = 247 \<longrightarrow> subscription_of (plain_msg [char_of (length topic - 246)]) = Some (True, []))"
  using long_topic_reaches [of topic d] assms by (simp add: fresh_for_def subscription_of_def char_num_def)

theorem long_topic_misread_witness:
  "concat (map reaches (fst (feed_bytes (decoder_for V3_1_Encoder (-1) (\<lambda>_. True))
      (take 9 (zmtp_frame V3_1_Encoder (wire_of_msg (subscribe_msg (replicate 247 CHR ''a''))))))))
    = [plain_msg [], plain_msg [], plain_msg [CHR 0x01]]"
  using long_topic_misread [OF _ decoder_for_fresh, of "replicate 247 CHR ''a''" "-1" "\<lambda>_. True"]
  by (simp add: decoder_for_def new_decoder_def accepts_def char_codes)

section \<open>Broadcasts\<close>

text \<open>C37: A broadcast call of a bound name is answered \<open>Success\<close> although nothing has run yet, neither at the caller
  nor at the server; the server has published the request, byte for byte and under its name, to exactly
  the open pipes that subscribe to a prefix of the name.\<close>

theorem broadcast_published:
  assumes "bn_caller (Suc n) c" "bn_serving (Suc m) x s" "bc_rpcs (bn_obj s) name = Some f"
    and "length name < 2 ^ 64" "list_all2 has_type ts args"
  shows "\<exists>c' s'. broadcast_call p q e x name args (c, s) = (Inr Success, (c', s'))
    \<and> bn_caller n c' \<and> bc_app (bn_obj c') = bc_app (bn_obj c) \<and> bn_serving m x s' \<and> bc_app (bn_obj s') = bc_app (bn_obj s)
    \<and> (\<forall>b. bn_publisher s = Some b \<longrightarrow> (\<forall>y. published y s s' =
        (if y \<in> pub_subscribed (pub_socket b) name \<and> pipe_open (xp_heap (pub_socket b) y)
         then [mk_msg name True, mk_msg (bcall_request p name args c) False] else [])))"
  using assms by (rule broadcast_call_bound)

theorem broadcast_published_witness:
  "\<exists>c' s'. broadcast_call le64 le64 (net 128) 5 ''inc'' [VArith (A32 41)] (sample_started Client, serving_node) = (Inr Success, (c', s'))
    \<and> published 3 serving_node s' = [mk_msg ''inc'' True, mk_msg (bcall_request le64 ''inc'' [VArith (A32 41)] (sample_started Client)) False]"
proof -
  have r: "bn_caller (Suc 999) (sample_started Client)" "bn_serving (Suc 999) 5 serving_node"
    "bc_rpcs (bn_obj serving_node) ''inc'' = Some (FuncPtr inc_fn)"
    using sample_started_node(6) [of Client] sample_started_node(3) [of Server] serving_node_ready(1,2) by simp_all
  obtain b where b: "bn_publisher serving_node = Some b" "3 \<in> eligible (xp_dist (pub_socket b))"
    "3 \<in> msubs (xp_subscriptions (pub_socket b)) []" "pipe_open (xp_heap (pub_socket b) 3)"
    using serving_node_ready(3) by blast
  have "prefix [] ''inc''" by simp
  then have "3 \<in> pub_subscribed (pub_socket b) ''inc''" using b(2,3) unfolding pub_subscribed_def by blast
  with broadcast_published [OF r, of "[CArith T32]" "[VArith (A32 41)]" le64 le64 "net 128"] b show ?thesis by auto
qed

text \<open>C38: And it is executed: in every node that receives it and binds the name with the same parameter types, the
  function runs exactly once, on the arguments the caller passed; the node's silence counter is reset
  and it is ready for the next broadcast.\<close>

theorem broadcast_executed:
  assumes "bn_caller (Suc n) c" "bn_serving (Suc m) x s" "bc_rpcs (bn_obj s) name = Some f" "length name < 2 ^ 64"
    and "bn_publisher s = Some b" "y \<in> pub_subscribed (pub_socket b) name" "pipe_open (xp_heap (pub_socket b) y)"
    and "bn_receiving r" "bc_rpcs (bn_obj r) name = Some g" "list_all2 has_type (fn_params (callee_fn g)) args"
    and "fn_body (callee_fn g) args (bc_app (bn_obj r)) = (Inr v, app')"
  shows "\<exists>c' s' r'. broadcast_call p q e x name args (c, s) = (Inr Success, (c', s'))
    \<and> receive_published q' (published y s s') r = (Inr (), r')
    \<and> bc_app (bn_obj r') = app' \<and> bc_counter (bn_obj r') = 0 \<and> bn_receiving r'"
proof -
  obtain c' s' where cs: "broadcast_call p q e x name args (c, s) = (Inr Success, (c', s'))"
    "published y s s' = [mk_msg name True, mk_msg (bcall_request p name args c) False]"
    using broadcast_call_bound [OF assms(1-4,10), of p q e] assms(5-7) by auto
  obtain j where "bcall_request p name args c = frame (plat_le p) name [VTuple args] @ j"
    using bcall_request_frame [OF _ assms(4,10)] assms(1) by (auto simp: bn_caller_def)
  then show ?thesis
    using receiver_runs [OF assms(8,9,4,10,11), of q' "plat_le p" j] cs by auto
qed

theorem broadcast_executed_witness:
  "\<exists>c' s' r'. broadcast_call be64 le64 (net 128) 5 ''inc'' [VArith (A32 41)] (sample_started Client, serving_node) = (Inr Success, (c', s'))
    \<and> receive_published be64 (published 3 serving_node s') receiving_node = (Inr (), r') \<and> bc_app (bn_obj r') = 1"
proof -
  have r: "bn_caller (Suc 999) (sample_started Client)" "bn_serving (Suc 999) 5 serving_node"
    "bc_rpcs (bn_obj serving_node) ''inc'' = Some (FuncPtr inc_fn)" "length ''inc'' < 2 ^ 64"
    using sample_started_node(6) [of Client] sample_started_node(3) [of Server] serving_node_ready(1,2) by simp_all
  obtain b where b: "bn_publisher serving_node = Some b" "3 \<in> eligible (xp_dist (pub_socket b))"
    "3 \<in> msubs (xp_subscriptions (pub_socket b)) []" "pipe_open (xp_heap (pub_socket b) 3)"
    using serving_node_ready(3) by blast
  have "prefix [] ''inc''" by simp
  then have y: "3 \<in> pub_subscribed (pub_socket b) ''inc''" using b(2,3) unfolding pub_subscribed_def by blast
  have g: "bc_rpcs (bn_obj receiving_node) ''inc'' = Some (FuncPtr inc_fn)" using receiving_node_ready(3) by simp
  show ?thesis
    using broadcast_executed [OF r b(1) y b(4) receiving_node_ready(1) g, of "[VArith (A32 41)]" "VArith (A32 42)" 1 be64 le64 "net 128" be64]
      receiving_node_ready(2) by (simp add: inc_fn_def) blast
qed

text \<open>C39: \<open>Stop\<close> of a started node ends, under every interleaving of its two threads that gives each four steps
  while it is waited for. It throws exactly what one of the threads throws in these steps, if one does:
  \<open>first_run\<close> is what the threads do after the responder was told to stop, \<open>second_run\<close> what they do after
  that thread was joined and the subscriber told to stop. Otherwise \<open>Stop\<close> succeeds: both threads are joined,
  every instance of the node and no other is destroyed, and the node is at rest.\<close>

theorem stop_ends:
  assumes "node_started node es s" "node \<noteq> Role_None" "4 \<le> resp_events evs1" "4 \<le> sub_events evs2"
  shows "case first_run p evs1 s of
      (Inl x, t) \<Rightarrow> Stop p evs1 evs2 s = Some (Inl x, t)
    | (Inr _, t) \<Rightarrow> (case second_run p evs2 (join_responder t) of
        (Inl x, u) \<Rightarrow> Stop p evs1 evs2 s = Some (Inl x, u)
      | (Inr _, u) \<Rightarrow> \<exists>s'. Stop p evs1 evs2 s = Some (Inr True, s') \<and> node_idle s'
          \<and> comm_dom (bn_comm s') = comm_dom (bn_comm s) - set (bc_ptrs (bn_obj s)))"
  using Stop_ends [OF started_live [OF assms(1,2)] assms(3,4)] .

theorem stop_ends_witness:
  "\<exists>s'. Stop le64 (replicate 4 (Resp_Step [])) (replicate 4 (Sub_Step [])) (sample_started Server) = Some (Inr True, s') \<and> node_idle s'
    \<and> comm_dom (bn_comm s') = comm_dom (bn_comm (sample_started Server)) - set (bc_ptrs (bn_obj (sample_started Server)))"
proof -
  let ?s = "sample_started Server"
  have n: "node_started Server start_net ?s" by (rule sample_started_node(2)) simp
  have r: "bn_responder ?s = Some (started_responder (se_responder start_net))" "bn_subscriber ?s = Some started_subscriber"
    and ok: "comm_ok (bn_comm ?s)" using n by (simp_all add: node_started_def)
  have "\<not> IsInstInvalid (bc_responder (bn_obj ?s))" using null_responder [OF ok] r(1) by auto
  then obtain t where t: "first_run le64 (replicate 4 (Resp_Step [])) ?s = (Inr (), t)" "bn_subscriber (join_responder t) = Some started_subscriber"
    "bn_obj (join_responder t) = bn_obj ?s"
    using idle_first_run [OF r(1)] r(2) by metis
  have "\<not> IsInstInvalid (bc_subscriber (bn_obj ?s))" using null_subscriber [OF ok] r(2) by auto
  then obtain u where "second_run le64 (replicate 4 (Sub_Step [])) (join_responder t) = (Inr (), u)"
    using idle_second_run [OF t(2)] t(3) by metis
  moreover have "4 \<le> resp_events (replicate 4 (Resp_Step []))" "4 \<le> sub_events (replicate 4 (Sub_Step []))"
    by (simp_all add: numeral_eq_Suc)
  ultimately show ?thesis
    using stop_ends [OF n, of "replicate 4 (Resp_Step [])" "replicate 4 (Sub_Step [])" le64] t(1) by simp
qed

text \<open>C40: When the address of a server's publisher is taken, \<open>Start\<close> returns \<open>false\<close> but keeps the role and leaves the
  responder's thread answering requests; the first request for a bound name makes it dereference the
  null publisher.\<close>

theorem start_without_publisher:
  assumes "node_idle s" "start_fresh es (bn_comm s)" "client_reachable es ip cf bc"
    and "\<not> e_binds (se_publisher es) (''tcp://'' @ address ip bc)" "e_binds (se_responder es) (''tcp://'' @ address ip cf)"
    and "bc_rpcs (bn_obj s) name = Some f" "length name < 2 ^ 64"
  shows "\<exists>s'. Start p es Server ip cf bc s = (Inr False, s') \<and> bc_role (bn_obj s') = Server
    \<and> bn_responder s' = Some (started_responder (se_responder es))
    \<and> fst (ResponseProcess p (frame w name vs @ junk) s') = Inl Null_Dereference"
proof -
  obtain s' where s': "Start p es Server ip cf bc s = (Inr False, s')" "bc_role (bn_obj s') = Server"
    "bn_responder s' = Some (started_responder (se_responder es))" "bn_publisher s' = None" "bc_rpcs (bn_obj s') = bc_rpcs (bn_obj s)"
    using Start_no_publisher [OF assms(1-5)] by blast
  then show ?thesis using ResponseProcess_no_publisher [of s' name f p w vs junk] assms(6,7) by auto
qed

theorem start_without_publisher_witness:
  "\<exists>s'. Start le64 no_publisher_net Server ''10.0.0.1'' 80 81 sample_node0 = (Inr False, s') \<and> bc_role (bn_obj s') = Server
    \<and> bn_responder s' = Some (started_responder (se_responder no_publisher_net))
    \<and> fst (ResponseProcess le64 (frame True ''inc'' [VTuple [VArith (A32 41)]] @ []) s') = Inl Null_Dereference"
  by (rule start_without_publisher [where f = "FuncPtr inc_fn"]) simp_all

end
